(* ===== verification/Prelude.thy ===== *)
theory Prelude
  imports Main "HOL-Library.Word"
begin

text \<open>
  The vocabulary every component of the extractor model shares: Go's byte slices and
  fixed-width integers, the error monad that stands for Go's \<open>if err != nil\<close> chains,
  little-endian loads and stores as \<open>encoding/binary\<close> does them, and the generic list
  and word facts the component proofs use.
\<close>

unbundle bit_operations_syntax

section \<open>Go's data\<close>

text \<open>
  Go strings and byte slices are both byte sequences; an index past the end of a slice
  panics in Go, so partial reads go through the checked operations below.
\<close>

type_synonym byte = "8 word"
type_synonym bytes = "8 word list"
type_synonym u16 = "16 word"
type_synonym u32 = "32 word"
type_synonym u64 = "64 word"

text \<open>A string literal of the source, as bytes.\<close>

definition str :: "string \<Rightarrow> bytes" where
  "str s = map of_char s"

named_theorems res_simps "results and errors of the error monad"
named_theorems word_nat "words read as natural numbers"

section \<open>Errors as values\<close>

text \<open>
  A Go function that returns \<open>(T, error)\<close> is a function into \<open>'e + 'a\<close>. Where the Go
  code can also panic (an index out of range, an impossible allocation), its error type is
  \<open>'e fault\<close>, and the panic is a value of the model like any other result.
\<close>

datatype 'e fault = Error 'e | Panic

fun bindE :: "'e + 'a \<Rightarrow> ('a \<Rightarrow> 'e + 'b) \<Rightarrow> 'e + 'b" where
  "bindE (Inl e) f = Inl e"
| "bindE (Inr x) f = f x"

lemma bindE_cong [fundef_cong]:
  "m = m' \<Longrightarrow> (\<And>x. m' = Inr x \<Longrightarrow> f x = f' x) \<Longrightarrow> bindE m f = bindE m' f'"
  by (cases m') auto

lemma bindE_eq_Inr [res_simps]:
  "bindE m f = Inr r \<longleftrightarrow> (\<exists>x. m = Inr x \<and> f x = Inr r)"
  by (cases m) auto

lemma bindE_eq_Inl [res_simps]:
  "bindE m f = Inl e \<longleftrightarrow> m = Inl e \<or> (\<exists>x. m = Inr x \<and> f x = Inl e)"
  by (cases m) auto

lemma option_case_eq_Inr [res_simps]:
  "(case m of None \<Rightarrow> Inl e | Some x \<Rightarrow> f x) = Inr r \<longleftrightarrow> (\<exists>x. m = Some x \<and> f x = Inr r)"
  by (cases m) auto

lemma if_Inl_eq_Inr [res_simps]:
  "(if b then Inl e else m) = Inr r \<longleftrightarrow> \<not> b \<and> m = Inr r"
  by auto

lemma bindE_assoc: "bindE (bindE m f) g = bindE m (\<lambda>x. bindE (f x) g)"
  by (cases m) auto

text \<open>Go's checked slice indexing.\<close>

definition idx :: "'a list \<Rightarrow> nat \<Rightarrow> 'e fault + 'a" where
  "idx xs i = (if i < length xs then Inr (xs ! i) else Inl Panic)"

lemma idx_eq_Inr [res_simps]: "idx xs i = Inr x \<longleftrightarrow> i < length xs \<and> x = xs ! i"
  by (auto simp: idx_def)

lemma idx_eq_Inl [res_simps]: "idx xs i = Inl e \<longleftrightarrow> length xs \<le> i \<and> e = Panic"
  by (auto simp: idx_def)

text \<open>
  \<open>make\<close> panics when the size in bytes of what it makes is negative or above the address space
  of 2 to the 48 bytes; \<open>int\<close> has 64 bits.
\<close>

definition makes :: "nat \<Rightarrow> u64 \<Rightarrow> bool" where
  "makes elem n \<longleftrightarrow> elem * unat n \<le> 2 ^ 48"

text \<open>
  A computation \<open>returns Q\<close> when it does not panic and every result satisfies \<open>Q\<close>; the rules
  below walk through a chain of calls.
\<close>

named_theorems returns_intros "rules for computations that do not panic"

definition returns :: "('a \<Rightarrow> bool) \<Rightarrow> 'e fault + 'a \<Rightarrow> bool" where
  "returns Q m = (case m of Inl e \<Rightarrow> e \<noteq> Panic | Inr x \<Rightarrow> Q x)"

lemma returns_iff: "returns Q m \<longleftrightarrow> m \<noteq> Inl Panic \<and> (\<forall>x. m = Inr x \<longrightarrow> Q x)"
  by (auto simp: returns_def split: sum.split)

lemma returns_Inr [simp]: "returns Q (Inr x) \<longleftrightarrow> Q x"
  by (simp add: returns_def)

lemma returns_Error [simp, returns_intros]: "returns Q (Inl (Error e))"
  by (simp add: returns_def)

lemma returns_Panic [simp]: "\<not> returns Q (Inl Panic)"
  by (simp add: returns_def)

lemma returnsI [returns_intros]: "Q x \<Longrightarrow> returns Q (Inr x)"
  by simp

lemma returns_if [returns_intros]:
  "(b \<Longrightarrow> returns Q m) \<Longrightarrow> (\<not> b \<Longrightarrow> returns Q m') \<Longrightarrow> returns Q (if b then m else m')"
  by simp

lemma returns_mono: "returns P m \<Longrightarrow> (\<And>x. P x \<Longrightarrow> Q x) \<Longrightarrow> returns Q m"
  by (auto simp: returns_iff)

lemma returns_bind:
  "returns P m \<Longrightarrow> (\<And>x. m = Inr x \<Longrightarrow> P x \<Longrightarrow> returns Q (f x)) \<Longrightarrow> returns Q (bindE m f)"
  by (cases m) (auto simp: returns_def)

lemma returns_idx: "i < length xs \<Longrightarrow> Q (xs ! i) \<Longrightarrow> returns Q (idx xs i)"
  by (simp add: idx_def)

lemma returnsD: "returns Q m \<Longrightarrow> m = Inr x \<Longrightarrow> Q x"
  by simp

text \<open>Reading \<open>n\<close> values one after the other, threading the remaining input.\<close>

fun readN :: "('s \<Rightarrow> 'e + ('a \<times> 's)) \<Rightarrow> nat \<Rightarrow> 's \<Rightarrow> 'e + ('a list \<times> 's)" where
  "readN rd 0 s = Inr ([], s)"
| "readN rd (Suc n) s =
     bindE (rd s) (\<lambda>(x, s'). bindE (readN rd n s') (\<lambda>(xs, s''). Inr (x # xs, s'')))"

lemma readN_length: "readN rd n s = Inr (xs, s') \<Longrightarrow> length xs = n"
  by (induction n arbitrary: s xs s') (auto simp: res_simps split: prod.splits)

section \<open>Little-endian words\<close>

text \<open>
  \<open>binary.LittleEndian\<close> and the hand-written loads of the source OR the bytes together,
  the byte at offset \<open>k\<close> shifted left by \<open>8 * k\<close> bits.
\<close>

fun le_word :: "bytes \<Rightarrow> 'w::len word" where
  "le_word [] = 0"
| "le_word (b # bs) = ucast b OR push_bit 8 (le_word bs)"

fun le_nat :: "bytes \<Rightarrow> nat" where
  "le_nat [] = 0"
| "le_nat (b # bs) = unat b + 256 * le_nat bs"

text \<open>\<open>binary.BigEndian\<close> loads.\<close>

definition be_word :: "bytes \<Rightarrow> 'w::len word" where
  "be_word bs = le_word (rev bs)"

text \<open>\<open>binary.LittleEndian.PutUint\<close>: the \<open>n\<close> low bytes, least significant first.\<close>

fun put_le :: "nat \<Rightarrow> 'w::len word \<Rightarrow> bytes" where
  "put_le 0 v = []"
| "put_le (Suc n) v = ucast v # put_le n (drop_bit 8 v)"

lemma le_nat_bound: "le_nat bs < 256 ^ length bs"
proof (induction bs)
  case Nil
  then show ?case by simp
next
  case (Cons b bs)
  have "unat b < 256" using unsigned_less [of b] by simp
  with Cons show ?case by simp
qed

lemma le_nat_append: "le_nat (xs @ ys) = le_nat xs + 256 ^ length xs * le_nat ys"
  by (induction xs) (auto simp: algebra_simps)

lemma length_put_le [simp]: "length (put_le n v) = n"
  by (induction n arbitrary: v) auto

text \<open>Reading words as natural numbers.\<close>

lemma or_shift_nat:
  assumes "a < 2 ^ n"
  shows "(a::nat) OR push_bit n b = a + 2 ^ n * b"
proof -
  have "take_bit n a = a" using assms by (simp add: take_bit_nat_eq_self)
  then have "a AND push_bit n b = take_bit n a AND push_bit n b" by simp
  also have "\<dots> = 0" by (rule bit_eqI) (simp add: bit_simps)
  finally show ?thesis by (simp add: disjunctive_add_eq_or [symmetric] push_bit_eq_mult mult.commute)
qed

lemma unat_push: "unat (push_bit n (x :: 'a::len word)) = (2 ^ n * unat x) mod 2 ^ LENGTH('a)"
  by (simp only: unsigned_push_bit_eq) (simp only: take_bit_nat_def push_bit_nat_def mult.commute)

lemma unat_le_word:
  "8 * length bs \<le> LENGTH('w) \<Longrightarrow> unat (le_word bs :: 'w::len word) = le_nat bs"
proof (induction bs)
  case Nil
  then show ?case by simp
next
  case (Cons b bs)
  have b: "unat b < 2 ^ 8" using unsigned_less [of b] by simp
  have "le_nat (b # bs) < 256 ^ length (b # bs)" by (rule le_nat_bound)
  then have "le_nat (b # bs) < 2 ^ (8 * length (b # bs))"
    by (simp only: power_mult) simp
  also have "\<dots> \<le> 2 ^ LENGTH('w)" using Cons.prems by (intro power_increasing) auto
  finally have l: "256 * le_nat bs < 2 ^ LENGTH('w)" by simp
  have "(2::nat) ^ 8 \<le> 2 ^ LENGTH('w)" using Cons.prems by (intro power_increasing) auto
  with b have "unat b < 2 ^ LENGTH('w)" by (rule order_less_le_trans)
  then have b': "unat (ucast b :: 'w word) = unat b"
    by (simp add: unsigned_ucast_eq take_bit_nat_eq_self)
  have "unat (push_bit 8 (le_word bs :: 'w word)) = 256 * le_nat bs"
    using Cons l by (simp add: unat_push)
  then have "unat (le_word (b # bs) :: 'w word) = unat b OR push_bit 8 (le_nat bs)"
    by (simp add: unsigned_or_eq b' push_bit_nat_def mult.commute)
  also have "\<dots> = le_nat (b # bs)" using or_shift_nat [OF b, of "le_nat bs"] by simp
  finally show ?case .
qed

lemma unat_take_bit: "unat (take_bit n x) = unat x mod 2 ^ n"
  by (simp only: unsigned_take_bit_eq) (simp only: take_bit_nat_def)

lemma unat_and_mask: "unat (x AND mask n) = unat x mod 2 ^ n"
  by (simp only: take_bit_eq_mask [symmetric] unat_take_bit)

lemma unat_drop: "unat (drop_bit n x) = unat x div 2 ^ n"
proof -
  have "take_bit LENGTH('a) (unat x) = unat x"
    by (rule take_bit_nat_eq_self) (rule unsigned_less)
  then show ?thesis by (simp only: unsigned_drop_bit_eq) (simp only: drop_bit_nat_def)
qed
lemma le_nat_put_le: "le_nat (put_le n v) = unat v mod 256 ^ n"
proof (induction n arbitrary: v)
  case 0 show ?case by simp
next
  case (Suc n)
  have "unat (ucast v :: byte) = unat v mod 256"
    by (simp add: unsigned_ucast_eq take_bit_eq_mod)
  moreover have "unat (drop_bit 8 v) = unat v div 256"
    using unat_drop [of 8 v] by simp
  ultimately show ?case
    using Suc by (simp add: mod_mult2_eq)
qed

lemma unat_and_numeral:
  assumes "k = mask n"
  shows "unat (x AND k) = unat x mod 2 ^ n"
  using assms by (simp only: unat_and_mask)

lemma unat_of_nat_small: "n < 2 ^ LENGTH('w) \<Longrightarrow> unat (word_of_nat n :: 'w::len word) = n"
  by (simp only: unsigned_of_nat take_bit_nat_eq_self of_nat_id)

lemma u64_small: "n < 2 ^ 64 \<Longrightarrow> unat (word_of_nat n :: u64) = n"
  by (rule unat_of_nat_small) simp

lemma sint_small: "n < 2 ^ 63 \<Longrightarrow> sint (word_of_nat n :: u64) = int n"
proof -
  assume n: "n < 2 ^ 63"
  then have "unat (word_of_nat n :: u64) = n" by (intro u64_small) simp
  then have "uint (word_of_nat n :: u64) = int n" by (metis uint_nat)
  then show ?thesis using n by (simp add: sint_uint signed_take_bit_int_eq_self)
qed

lemma unat_ucast_mod: "unat (ucast v :: 'w::len word) = unat v mod 2 ^ LENGTH('w)"
  by (simp only: unsigned_ucast_eq) (simp only: take_bit_nat_def)

lemma unat_ucast_small: "unat v < 2 ^ LENGTH('w) \<Longrightarrow> unat (ucast v :: 'w::len word) = unat v"
  by (simp only: unat_ucast_mod mod_less)

lemma unat_byte_less: "unat (b :: byte) < 256"
  by (rule order_less_le_trans [OF unsigned_less]) simp

lemma unat_u32_less: "unat (x :: u32) < 4294967296"
  by (rule order_less_le_trans [OF unsigned_less]) simp

lemma unat_u64_less: "unat (x :: u64) < 18446744073709551616"
  by (rule order_less_le_trans [OF unsigned_less]) simp

lemma xor_cancel:
  fixes a b c :: "'w::len word"
  shows "a XOR c = b XOR c \<longleftrightarrow> a = b" and "c XOR a = c XOR b \<longleftrightarrow> a = b"
proof -
  show r: "a XOR c = b XOR c \<longleftrightarrow> a = b"
  proof
    assume "a XOR c = b XOR c"
    then have "(a XOR c) XOR c = (b XOR c) XOR c" by (rule arg_cong)
    then show "a = b" by (simp only: xor.assoc xor_self_eq xor.right_neutral)
  qed simp
  show "c XOR a = c XOR b \<longleftrightarrow> a = b" using r by (simp only: xor.commute)
qed

lemma ucast_byte_eq [simp]: "(ucast x :: u32) = ucast y \<longleftrightarrow> x = (y :: byte)"
proof
  assume "(ucast x :: u32) = ucast y"
  then have "unat (ucast x :: u32) = unat (ucast y :: u32)" by simp
  moreover have "unat (ucast z :: u32) = unat z" for z :: byte
    by (rule unat_ucast_small) (rule order_less_trans [OF unat_byte_less], simp)
  ultimately show "x = y" by (simp only: word_unat_eq_iff)
qed simp

text \<open>A load undoes a store of the same width.\<close>

lemma le_word_put_le:
  "8 * n \<le> LENGTH('w) \<Longrightarrow> unat v < 256 ^ n \<Longrightarrow> unat (le_word (put_le n v) :: 'w::len word) = unat v"
  by (simp only: unat_le_word length_put_le le_nat_put_le mod_less)

lemma le_word_put_le_u32 [simp]: "le_word (put_le 4 (v :: u32)) = v"
proof -
  have "unat (le_word (put_le 4 v) :: u32) = unat v"
    by (rule le_word_put_le) (use unsigned_less [of v] in simp_all)
  then show ?thesis by (simp only: unsigned_word_eqI)
qed

lemma le_word_put_le_u64 [simp]: "le_word (put_le 8 (v :: u64)) = v"
proof -
  have "unat (le_word (put_le 8 v) :: u64) = unat v"
    by (rule le_word_put_le) (use unsigned_less [of v] in simp_all)
  then show ?thesis by (simp only: unsigned_word_eqI)
qed

text \<open>The first \<open>k\<close> little-endian words of an array of bytes.\<close>

fun words32 :: "nat \<Rightarrow> bytes \<Rightarrow> u32 list" where
  "words32 0 bs = []"
| "words32 (Suc k) bs = le_word (take 4 bs) # words32 k (drop 4 bs)"

lemma words32_concat [simp]: "words32 (length ws) (concat (map (put_le 4) ws) @ xs) = ws"
  by (induction ws) auto

lemma words32_concat' [simp]: "words32 (length ws) (concat (map (put_le 4) ws)) = ws"
  using words32_concat [of ws "[]"] by simp

lemma length_concat_put_le: "length (concat (map (put_le 4) ws)) = 4 * length ws"
  by (induction ws) auto


text \<open>A store undoes a load of the same width, and stores distribute over XOR.\<close>

lemma le_nat_inj: "length xs = length ys \<Longrightarrow> le_nat xs = le_nat ys \<Longrightarrow> xs = ys"
proof (induction xs ys rule: list_induct2)
  case (Cons x xs y ys)
  have "unat x < 256" "unat y < 256" by (rule unat_byte_less)+
  moreover have "(unat x + 256 * le_nat xs) mod 256 = (unat y + 256 * le_nat ys) mod 256"
    using Cons.prems by simp
  ultimately have "unat x = unat y" by simp
  with Cons show ?case by (simp add: word_unat_eq_iff)
qed simp

lemma put_le_le_word:
  assumes "length bs = n" "8 * n \<le> LENGTH('w)"
  shows "put_le n (le_word bs :: 'w::len word) = bs"
proof (rule le_nat_inj)
  have "le_nat (put_le n (le_word bs :: 'w word)) = le_nat bs mod 256 ^ n"
    using assms by (simp add: le_nat_put_le unat_le_word)
  also have "\<dots> = le_nat bs" using le_nat_bound [of bs] assms(1) by simp
  finally show "le_nat (put_le n (le_word bs :: 'w word)) = le_nat bs" .
qed (use assms in simp)

lemma put_le_xor: "put_le n (a XOR b) = map2 (XOR) (put_le n a) (put_le n b)"
proof (induction n arbitrary: a b)
  case (Suc n)
  have "(ucast (a XOR b) :: byte) = ucast a XOR ucast b"
    by (rule bit_word_eqI) (simp add: bit_simps)
  with Suc show ?case by (simp add: drop_bit_xor)
qed simp

text \<open>XOR with the same stream twice.\<close>

lemma map2_xor_twice:
  "length xs \<le> length ks \<Longrightarrow> map2 (XOR) (map2 (XOR) xs ks) ks = (xs :: 'a::len word list)"
  by (induction xs ks rule: list_induct2') (auto simp: xor.assoc)

end
