(* ===== verification/Varint.thy ===== *)
theory Varint
  imports Prelude
begin

text \<open>
  FreeArc's packed integers, NUL-terminated strings and 32-bit words, as \<open>varint.go\<close>
  reads them out of a descriptor, a footer or a directory block: each reader takes the
  buffer and an index and returns the value with the index just past it.
\<close>

datatype varint_error = PackedEof | StringEof | StringNoNul | U32Eof

section \<open>The readers\<close>

definition readPacked :: "bytes \<Rightarrow> nat \<Rightarrow> varint_error + (u64 \<times> nat)" where
  "readPacked b i =
     (if length b \<le> i then Inl PackedEof
      else
        let x = le_word (take 4 (drop i b)) :: u32 in
        if x AND 1 = 0 then Inr (drop_bit 1 (ucast (x AND 0xff)), i + 1)
        else if x AND 3 = 1 then
          (if length b < i + 2 then Inl PackedEof
           else Inr (drop_bit 2 (ucast (x AND 0xffff)), i + 2))
        else if x AND 7 = 3 then
          (if length b < i + 3 then Inl PackedEof
           else Inr (drop_bit 3 (ucast (x AND 0xffffff)), i + 3))
        else if x AND 15 = 7 then
          (if length b < i + 4 then Inl PackedEof
           else Inr (drop_bit 4 (ucast x), i + 4))
        else if length b < i + 8 then Inl PackedEof
        else
          let y = le_word (take 8 (drop i b)) :: u64 in
          if x AND 31 = 15 then Inr (drop_bit 5 (y AND (push_bit 40 1 - 1)), i + 5)
          else if x AND 63 = 31 then Inr (drop_bit 6 (y AND (push_bit 48 1 - 1)), i + 6)
          else if x AND 127 = 63 then Inr (drop_bit 7 (y AND (push_bit 56 1 - 1)), i + 7)
          else if x AND 255 = 127 then Inr (drop_bit 8 y, i + 8)
          else if length b < i + 9 then Inl PackedEof
          else Inr (le_word (take 8 (drop (i + 1) b)), i + 9))"

fun cstringEnd :: "bytes \<Rightarrow> nat option" where
  "cstringEnd [] = None"
| "cstringEnd (c # cs) = (if c = 0 then Some 0 else map_option Suc (cstringEnd cs))"

definition readCString :: "bytes \<Rightarrow> nat \<Rightarrow> varint_error + (bytes \<times> nat)" where
  "readCString b i =
     (if length b \<le> i then Inl StringEof
      else case cstringEnd (drop i b) of
          None \<Rightarrow> Inl StringNoNul
        | Some k \<Rightarrow> Inr (take k (drop i b), i + k + 1))"

definition readU32 :: "bytes \<Rightarrow> nat \<Rightarrow> varint_error + (u32 \<times> nat)" where
  "readU32 b i =
     (if length b < i + 4 then Inl U32Eof else Inr (le_word (take 4 (drop i b)), i + 4))"

section \<open>The format: FreeArc's writers\<close>

text \<open>
  The packed format stores a value below \<open>2 ^ (7 * k)\<close> in \<open>k\<close> bytes for \<open>k\<close> up to 8,
  with \<open>k - 1\<close> one bits and a zero bit at the bottom of the first byte, and any other
  64-bit value in nine bytes, the first of them 255.
\<close>

definition pack_tag :: "nat \<Rightarrow> nat" where
  "pack_tag k = 2 ^ (k - 1) - 1"

definition pack_width :: "u64 \<Rightarrow> nat" where
  "pack_width v =
     (if unat v < 2 ^ 7 then 1 else if unat v < 2 ^ 14 then 2 else if unat v < 2 ^ 21 then 3
      else if unat v < 2 ^ 28 then 4 else if unat v < 2 ^ 35 then 5 else if unat v < 2 ^ 42 then 6
      else if unat v < 2 ^ 49 then 7 else if unat v < 2 ^ 56 then 8 else 9)"

definition writePacked :: "u64 \<Rightarrow> bytes" where
  "writePacked v =
     (let k = pack_width v in
      if k = 9 then 255 # put_le 8 v
      else put_le k (word_of_nat (unat v * 2 ^ k + pack_tag k) :: u64))"

definition writeCString :: "bytes \<Rightarrow> bytes" where
  "writeCString s = s @ [0]"

definition writeU32 :: "u32 \<Rightarrow> bytes" where
  "writeU32 v = put_le 4 v"

lemma pack_width_range: "1 \<le> pack_width v \<and> pack_width v \<le> 9"
  by (simp add: pack_width_def)

lemma pack_width_fits: "pack_width v \<noteq> 9 \<Longrightarrow> unat v < 2 ^ (7 * pack_width v)"
  by (simp add: pack_width_def split: if_splits)

lemma length_writePacked: "length (writePacked v) = pack_width v"
  by (simp add: writePacked_def Let_def)

lemma pack_tag_less: "pack_tag k < 2 ^ k"
proof -
  have "pack_tag k < 2 ^ (k - 1)" by (simp add: pack_tag_def)
  also have "\<dots> \<le> (2::nat) ^ k" by (intro power_increasing) auto
  finally show ?thesis .
qed

text \<open>The stored number never overflows 64 bits, so the low bytes of it are all of it.\<close>

lemma le_nat_writePacked:
  assumes "pack_width v \<noteq> 9"
  shows "le_nat (writePacked v) = unat v * 2 ^ pack_width v + pack_tag (pack_width v)"
proof -
  let ?k = "pack_width v" and ?n = "unat v * 2 ^ pack_width v + pack_tag (pack_width v)"
  have k: "1 \<le> ?k" "?k \<le> 8" using pack_width_range [of v] assms by auto
  have "pack_tag ?k < 2 ^ ?k" by (rule pack_tag_less)
  moreover have "(unat v + 1) * 2 ^ ?k \<le> 2 ^ (7 * ?k) * 2 ^ ?k"
    using pack_width_fits [OF assms] by (intro mult_right_mono) auto
  ultimately have "?n < 2 ^ (7 * ?k) * 2 ^ ?k" by (simp add: algebra_simps)
  also have e: "2 ^ (7 * ?k) * 2 ^ ?k = (256::nat) ^ ?k"
    by (simp add: power_mult flip: power_mult_distrib)
  finally have lt: "?n < 256 ^ ?k" .
  also have "(256::nat) ^ ?k \<le> 256 ^ 8" using k by (intro power_increasing) auto
  finally have "?n < 2 ^ LENGTH(64)" by simp
  then have "unat (word_of_nat ?n :: u64) = ?n" by (rule unat_of_nat_small)
  then show ?thesis using assms lt by (simp add: writePacked_def Let_def le_nat_put_le)
qed

text \<open>The tag bits of a stored number, tested from the shortest width on.\<close>

lemma pack_tag_mod:
  assumes "1 \<le> j" "j \<le> k"
  shows "(m * 2 ^ k + pack_tag k) mod 2 ^ j = (if j = k then pack_tag k else 2 ^ j - 1)"
proof (cases "j = k")
  case True
  have "pack_tag k < 2 ^ k" by (rule pack_tag_less)
  with True show ?thesis by simp
next
  case False
  with assms have j: "j \<le> k - 1" by simp
  then obtain d where d: "k - 1 = j + d" using le_Suc_ex by blast
  with assms have "k = Suc (j + d)" by simp
  moreover obtain a where a: "(2::nat) ^ d = Suc a" using gr0_conv_Suc [of "2 ^ d"] by auto
  moreover obtain c where c: "(2::nat) ^ j = Suc c" using gr0_conv_Suc [of "2 ^ j"] by auto
  ultimately have "m * 2 ^ k + pack_tag k = 2 ^ j * (m * 2 ^ Suc d + a) + (2 ^ j - 1)"
    by (simp add: pack_tag_def power_add algebra_simps)
  then have "(m * 2 ^ k + pack_tag k) mod 2 ^ j = (2 ^ j - 1) mod (2 ^ j :: nat)"
    by (simp only: mod_mult_self4)
  with False show ?thesis by simp
qed

section \<open>Reading back\<close>

text \<open>The masks the reader tests, as remainders.\<close>

lemma and_test:
  assumes "k = mask n"
  shows "x AND k = c \<longleftrightarrow> unat x mod 2 ^ n = unat c"
  by (simp only: assms word_unat_eq_iff unat_and_mask)

lemma and_tests:
  fixes x :: u32
  shows "x AND 1 = 0 \<longleftrightarrow> unat x mod 2 ^ 1 = 0"
    and "x AND 3 = 1 \<longleftrightarrow> unat x mod 2 ^ 2 = 1"
    and "x AND 7 = 3 \<longleftrightarrow> unat x mod 2 ^ 3 = 3"
    and "x AND 15 = 7 \<longleftrightarrow> unat x mod 2 ^ 4 = 7"
    and "x AND 31 = 15 \<longleftrightarrow> unat x mod 2 ^ 5 = 15"
    and "x AND 63 = 31 \<longleftrightarrow> unat x mod 2 ^ 6 = 31"
    and "x AND 127 = 63 \<longleftrightarrow> unat x mod 2 ^ 7 = 63"
    and "x AND 255 = 127 \<longleftrightarrow> unat x mod 2 ^ 8 = 127"
  subgoal by (subst and_test [where n = 1]) (simp_all add: mask_eq_exp_minus_1)
  subgoal by (subst and_test [where n = 2]) (simp_all add: mask_eq_exp_minus_1)
  subgoal by (subst and_test [where n = 3]) (simp_all add: mask_eq_exp_minus_1)
  subgoal by (subst and_test [where n = 4]) (simp_all add: mask_eq_exp_minus_1)
  subgoal by (subst and_test [where n = 5]) (simp_all add: mask_eq_exp_minus_1)
  subgoal by (subst and_test [where n = 6]) (simp_all add: mask_eq_exp_minus_1)
  subgoal by (subst and_test [where n = 7]) (simp_all add: mask_eq_exp_minus_1)
  subgoal by (subst and_test [where n = 8]) (simp_all add: mask_eq_exp_minus_1)
  done

text \<open>While the low bits are all ones, no shorter width matches.\<close>

lemma ones_no_match:
  fixes x :: u32
  assumes "\<And>j. 1 \<le> j \<Longrightarrow> j < k \<Longrightarrow> unat x mod 2 ^ j = 2 ^ j - 1"
  shows "1 < k \<Longrightarrow> \<not> x AND 1 = 0"
    and "2 < k \<Longrightarrow> \<not> x AND 3 = 1"
    and "3 < k \<Longrightarrow> \<not> x AND 7 = 3"
    and "4 < k \<Longrightarrow> \<not> x AND 15 = 7"
    and "5 < k \<Longrightarrow> \<not> x AND 31 = 15"
    and "6 < k \<Longrightarrow> \<not> x AND 63 = 31"
    and "7 < k \<Longrightarrow> \<not> x AND 127 = 63"
    and "8 < k \<Longrightarrow> \<not> x AND 255 = 127"
  subgoal using assms [of 1] by (simp only: and_tests) simp
  subgoal using assms [of 2] by (simp only: and_tests) simp
  subgoal using assms [of 3] by (simp only: and_tests) simp
  subgoal using assms [of 4] by (simp only: and_tests) simp
  subgoal using assms [of 5] by (simp only: and_tests) simp
  subgoal using assms [of 6] by (simp only: and_tests) simp
  subgoal using assms [of 7] by (simp only: and_tests) simp
  subgoal using assms [of 8] by (simp only: and_tests) simp
  done

lemma and_values:
  fixes x :: u32 and y :: u64
  shows "unat (x AND 0xff) = unat x mod 2 ^ 8"
    and "unat (x AND 0xffff) = unat x mod 2 ^ 16"
    and "unat (x AND 0xffffff) = unat x mod 2 ^ 24"
    and "unat (y AND (push_bit 40 1 - 1)) = unat y mod 2 ^ 40"
    and "unat (y AND (push_bit 48 1 - 1)) = unat y mod 2 ^ 48"
    and "unat (y AND (push_bit 56 1 - 1)) = unat y mod 2 ^ 56"
proof -
  have "0xff = (mask 8 :: u32)" "0xffff = (mask 16 :: u32)" "0xffffff = (mask 24 :: u32)"
    by (simp_all add: mask_eq_exp_minus_1)
  then show "unat (x AND 0xff) = unat x mod 2 ^ 8" "unat (x AND 0xffff) = unat x mod 2 ^ 16"
    "unat (x AND 0xffffff) = unat x mod 2 ^ 24"
    by (simp_all only: unat_and_mask)
  show "unat (y AND (push_bit 40 1 - 1)) = unat y mod 2 ^ 40"
    "unat (y AND (push_bit 48 1 - 1)) = unat y mod 2 ^ 48"
    "unat (y AND (push_bit 56 1 - 1)) = unat y mod 2 ^ 56"
    by (simp_all only: unat_and_mask push_bit_of_1 flip: mask_eq_exp_minus_1)
qed

lemma le_nat_take_mod: "n \<le> m \<Longrightarrow> le_nat (take m w) mod 256 ^ n = le_nat (take n w) mod 256 ^ n"
proof -
  assume "n \<le> m"
  then have "take m w = take n w @ take (m - n) (drop n w)"
    by (metis le_add_diff_inverse take_add)
  then show ?thesis
    by (cases "n \<le> length w") (simp_all add: le_nat_append)
qed

lemma mod_mod_power_cancel: "j \<le> k \<Longrightarrow> (n::nat) mod 2 ^ k mod 2 ^ j = n mod 2 ^ j"
  by (simp add: mod_mod_cancel le_imp_power_dvd)

lemma mod_255: "1 \<le> j \<Longrightarrow> j < 9 \<Longrightarrow> 255 mod 2 ^ j = (2 ^ j - 1 :: nat)"
proof -
  assume "1 \<le> j" "j < 9"
  then have "j \<in> {1, 2, 3, 4, 5, 6, 7, 8}" by auto
  then show ?thesis by auto
qed

lemma readPacked_writePacked_at:
  assumes slack: "pack_width v \<in> {5, 6, 7} \<Longrightarrow> 8 \<le> pack_width v + length post"
  shows "readPacked (pre @ writePacked v @ post) (length pre)
    = Inr (v, length pre + pack_width v)"
proof (cases "pack_width v = 9")
  case True
  let ?w = "writePacked v @ post"
  let ?x = "le_word (take 4 ?w) :: u32"
  have w: "take 4 ?w = 255 # take 3 (put_le 8 v)" "drop (Suc 0) ?w = put_le 8 v @ post"
    using True by (simp_all add: writePacked_def)
  have "unat ?x = le_nat (take 4 ?w)" by (rule unat_le_word) simp
  then have "unat ?x mod 2 ^ 8 = 255"
    by (simp only: w le_nat.simps mod_mult_self2) simp
  then have "unat ?x mod 2 ^ j = 2 ^ j - 1" if "1 \<le> j" "j < 9" for j
    using mod_mod_power_cancel [of j 8 "unat ?x"] mod_255 [OF that] that
    by (simp del: take_append)
  note no = ones_no_match [of 9 ?x, OF this]
  have "length (pre @ ?w) = length pre + 9 + length post"
    using True by (simp add: length_writePacked)
  moreover have "drop (Suc (length pre)) (pre @ ?w) = put_le 8 v @ post"
    by (simp only: drop_append w(2)) (use w(2) in simp)
  moreover have "drop (length pre) (pre @ ?w) = ?w" by simp
  ultimately show ?thesis
    using True no by (simp add: readPacked_def Let_def del: take_append drop_append) simp
next
  case False
  let ?k = "pack_width v" and ?w = "writePacked v @ post"
  let ?N = "unat v * 2 ^ ?k + pack_tag ?k"
  let ?x = "le_word (take 4 ?w) :: u32" and ?y = "le_word (take 8 ?w) :: u64"
  have k: "1 \<le> ?k" "?k \<le> 8" using False pack_width_range [of v] by auto
  have N: "le_nat (take ?k ?w) = ?N" "?N < 256 ^ ?k"
    using le_nat_writePacked [OF False] le_nat_bound [of "writePacked v"]
    by (simp_all add: length_writePacked)
  have x: "unat ?x = le_nat (take 4 ?w)" by (rule unat_le_word) simp
  have y: "unat ?y = le_nat (take 8 ?w)" by (rule unat_le_word) simp
  have xk: "unat ?x mod 256 ^ ?k = ?N" if "?k \<le> 4"
    using le_nat_take_mod [of ?k 4 ?w] that N x by simp
  have yk: "unat ?y mod 256 ^ ?k = ?N"
    using le_nat_take_mod [of ?k 8 ?w] k N y by simp
  have "unat ?x mod 256 = ?N mod 256"
    using le_nat_take_mod [of 1 4 ?w] le_nat_take_mod [of 1 ?k ?w] k N x by simp
  then have "unat ?x mod 2 ^ j = ?N mod 2 ^ j" if "j \<le> 8" for j
    using that mod_mod_power_cancel [of j 8 "unat ?x"] mod_mod_power_cancel [of j 8 ?N] by simp
  then have tests: "unat ?x mod 2 ^ j = (if j = ?k then pack_tag ?k else 2 ^ j - 1)"
    if "1 \<le> j" "j \<le> ?k" for j
    using that k pack_tag_mod [of j ?k "unat v"] by simp
  then have ones: "unat ?x mod 2 ^ j = 2 ^ j - 1" if "1 \<le> j" "j < ?k" for j
    using that by simp
  note no = ones_no_match [of ?k ?x, OF ones]
  have hit: "unat ?x mod 2 ^ ?k = pack_tag ?k" using tests [of ?k] k by simp
  have val: "drop_bit ?k u = v" if "unat u = ?N" for u :: u64
    using that pack_tag_less [of ?k] by (simp add: word_unat_eq_iff unat_drop)
  have len: "length (pre @ ?w) = length pre + ?k + length post"
    by (simp add: length_writePacked)
  have s32: "unat (z :: u32) < 2 ^ LENGTH(64)" for z
    using unat_u32_less [of z] by simp
  consider "?k = 1" | "?k = 2" | "?k = 3" | "?k = 4" | "?k = 5" | "?k = 6" | "?k = 7" | "?k = 8"
    using k by linarith
  then show ?thesis
  proof cases
    case 1
    have "?x AND 1 = 0" using hit 1 by (simp only: and_tests pack_tag_def) simp
    moreover have "drop_bit 1 (ucast (?x AND 0xff)) = v"
      using val [of "ucast (?x AND 0xff)"] xk 1 by (simp only: unat_ucast_small [OF s32] and_values) simp
    ultimately show ?thesis using 1 len no slack
      by (simp add: readPacked_def Let_def del: take_append)
  next
    case 2
    have "?x AND 3 = 1" using hit 2 by (simp only: and_tests pack_tag_def) simp
    moreover have "drop_bit 2 (ucast (?x AND 0xffff)) = v"
      using val [of "ucast (?x AND 0xffff)"] xk 2 by (simp only: unat_ucast_small [OF s32] and_values) simp
    ultimately show ?thesis using 2 len no slack
      by (simp add: readPacked_def Let_def del: take_append)
  next
    case 3
    have "?x AND 7 = 3" using hit 3 by (simp only: and_tests pack_tag_def) simp
    moreover have "drop_bit 3 (ucast (?x AND 0xffffff)) = v"
      using val [of "ucast (?x AND 0xffffff)"] xk 3 by (simp only: unat_ucast_small [OF s32] and_values) simp
    ultimately show ?thesis using 3 len no slack
      by (simp add: readPacked_def Let_def del: take_append)
  next
    case 4
    have "?x AND 15 = 7" using hit 4 by (simp only: and_tests pack_tag_def) simp
    moreover have "drop_bit 4 (ucast ?x) = v"
      using val [of "ucast ?x"] xk 4 unat_u32_less [of ?x] by (simp only: unat_ucast_small [OF s32]) simp
    ultimately show ?thesis using 4 len no slack
      by (simp add: readPacked_def Let_def del: take_append)
  next
    case 5
    have "?x AND 31 = 15" using hit 5 by (simp only: and_tests pack_tag_def) simp
    moreover have "drop_bit 5 (?y AND (push_bit 40 1 - 1)) = v"
      using val [of "?y AND (push_bit 40 1 - 1)"] yk 5 by (simp only: and_values) simp
    ultimately show ?thesis using 5 len no slack
      by (simp add: readPacked_def Let_def del: take_append)
  next
    case 6
    have "?x AND 63 = 31" using hit 6 by (simp only: and_tests pack_tag_def) simp
    moreover have "drop_bit 6 (?y AND (push_bit 48 1 - 1)) = v"
      using val [of "?y AND (push_bit 48 1 - 1)"] yk 6 by (simp only: and_values) simp
    ultimately show ?thesis using 6 len no slack
      by (simp add: readPacked_def Let_def del: take_append)
  next
    case 7
    have "?x AND 127 = 63" using hit 7 by (simp only: and_tests pack_tag_def) simp
    moreover have "drop_bit 7 (?y AND (push_bit 56 1 - 1)) = v"
      using val [of "?y AND (push_bit 56 1 - 1)"] yk 7 by (simp only: and_values) simp
    ultimately show ?thesis using 7 len no slack
      by (auto simp add: readPacked_def Let_def simp del: take_append)
  next
    case 8
    have "?x AND 255 = 127" using hit 8 by (simp only: and_tests pack_tag_def) simp
    moreover have "drop_bit 8 ?y = v"
      using val [of ?y] yk 8 unat_u64_less [of ?y] by simp
    ultimately show ?thesis using 8 len no slack
      by (simp add: readPacked_def Let_def del: take_append)
  qed
qed

lemma cstringEnd_append: "0 \<notin> set s \<Longrightarrow> cstringEnd (s @ 0 # post) = Some (length s)"
  by (induction s) auto

lemma cstringEnd_Some: "cstringEnd b = Some k \<Longrightarrow> k < length b \<and> b ! k = 0 \<and> 0 \<notin> set (take k b)"
  by (induction b arbitrary: k) (auto split: if_splits)

lemma readCString_writeCString:
  "0 \<notin> set s \<Longrightarrow> readCString (pre @ writeCString s @ post) (length pre)
     = Inr (s, length pre + length (writeCString s))"
  by (simp add: readCString_def writeCString_def cstringEnd_append)

lemma readU32_writeU32:
  "readU32 (pre @ writeU32 v @ post) (length pre) = Inr (v, length pre + length (writeU32 v))"
  by (simp add: readU32_def writeU32_def)

lemma readPacked_bounds:
  assumes "readPacked b i = Inr (v, j)"
  shows "i < j \<and> j \<le> length b"
  using assms by (simp add: readPacked_def Let_def split: if_splits)

lemma readCString_bounds:
  assumes "readCString b i = Inr (s, j)"
  shows "i < j \<and> j \<le> length b"
  using assms by (auto simp: readCString_def split: if_splits option.splits dest!: cstringEnd_Some)

lemma readU32_bounds: "readU32 b i = Inr (v, j) \<Longrightarrow> i < j \<and> j \<le> length b"
  by (auto simp: readU32_def split: if_splits)

section \<open>The interface the container parser uses\<close>

text \<open>
  A field format: a writer, a reader over a buffer and an index, and the condition under
  which a value reads back when so many bytes follow it. A packed integer of five to seven
  bytes is loaded as eight, so it needs bytes after it.
\<close>

locale wire =
  fixes enc :: "'a \<Rightarrow> bytes"
    and dec :: "bytes \<Rightarrow> nat \<Rightarrow> varint_error + ('a \<times> nat)"
    and ok :: "'a \<Rightarrow> nat \<Rightarrow> bool"
  assumes dec_enc:
      "ok v (length post) \<Longrightarrow> dec (pre @ enc v @ post) (length pre)
        = Inr (v, length pre + length (enc v))"
    and ok_mono: "ok v n \<Longrightarrow> n \<le> m \<Longrightarrow> ok v m"
    and dec_bounds: "dec b i = Inr (v, j) \<Longrightarrow> i < j \<and> j \<le> length b"
begin

lemma dec_enc_at:
  assumes "ok v (length post)" "i = length pre" "b = pre @ enc v @ post"
  shows "dec b i = Inr (v, i + length (enc v))"
  using dec_enc assms by simp

lemma readN_bounds:
  "readN (dec b) n i = Inr (vs, j) \<Longrightarrow> i \<le> length b \<Longrightarrow> i + n \<le> j \<and> j \<le> length b"
proof (induction n arbitrary: i vs)
  case 0
  then show ?case by simp
next
  case (Suc n)
  then obtain v i' ws where v: "dec b i = Inr (v, i')" and r: "readN (dec b) n i' = Inr (ws, j)"
    by (auto simp: res_simps split: prod.splits)
  from dec_bounds [OF v] Suc.IH [OF r] show ?case by simp
qed

lemma readN_encs:
  "(\<And>v. v \<in> set vs \<Longrightarrow> ok v (length post)) \<Longrightarrow>
    readN (dec (pre @ concat (map enc vs) @ post)) (length vs) (length pre)
      = Inr (vs, length pre + length (concat (map enc vs)))"
proof (induction vs arbitrary: pre)
  case Nil
  then show ?case by simp
next
  case (Cons v vs)
  let ?rest = "concat (map enc vs) @ post"
  have "ok v (length ?rest)" using Cons.prems [of v] by (auto intro: ok_mono)
  then have "dec (pre @ enc v @ ?rest) (length pre) = Inr (v, length pre + length (enc v))"
    by (rule dec_enc)
  with Cons.IH [of "pre @ enc v"] Cons.prems show ?case by simp
qed

end

definition packed_ok :: "u64 \<Rightarrow> nat \<Rightarrow> bool" where
  "packed_ok v n \<longleftrightarrow> (pack_width v \<in> {5, 6, 7} \<longrightarrow> 8 \<le> pack_width v + n)"

interpretation packed: wire writePacked readPacked packed_ok
proof unfold_locales
  fix v :: u64 and pre post :: bytes
  assume "packed_ok v (length post)"
  then show "readPacked (pre @ writePacked v @ post) (length pre)
      = Inr (v, length pre + length (writePacked v))"
    unfolding length_writePacked by (intro readPacked_writePacked_at) (simp only: packed_ok_def)
qed (auto simp: packed_ok_def dest: readPacked_bounds)

interpretation cstring: wire writeCString readCString "\<lambda>s n. 0 \<notin> set s"
  by unfold_locales (simp_all add: readCString_writeCString readCString_bounds)

interpretation word32: wire writeU32 readU32 "\<lambda>v n. True"
  by unfold_locales (simp_all add: readU32_writeU32 readU32_bounds)


section \<open>Properties\<close>

text \<open>
  C27: every 64-bit value is read back from its packed form of one to nine bytes, at any place in
  a buffer, with the index just behind it; a form of five to seven bytes needs eight bytes up to
  the end of the buffer, because the reader loads eight.
\<close>

theorem packed_roundtrip:
  assumes "packed_ok v (length post)"
  shows "readPacked (pre @ writePacked v @ post) (length pre)
    = Inr (v, length pre + length (writePacked v))"
  using assms by (rule packed.dec_enc)

lemma packed_roundtrip_witness:
  "readPacked ([7] @ writePacked 300 @ [9]) (length [7 :: byte]) = Inr (300, length [7 :: byte] + length (writePacked 300))"
proof -
  have "pack_width 300 = 2" by code_simp
  then have "packed_ok 300 (length [9 :: byte])" by (simp add: packed_ok_def)
  then show ?thesis by (rule packed_roundtrip)
qed

text \<open>
  Reading \<open>n\<close> fields of any of the three formats from a buffer moves the index on by at
  least \<open>n\<close> and never past the end, whatever the bytes are.
\<close>

theorem wire_bounds:
  assumes "i \<le> length b"
  shows "(\<forall>vs j. readN (readPacked b) n i = Inr (vs, j) \<longrightarrow> i + n \<le> j \<and> j \<le> length b) \<and>
    (\<forall>ss j. readN (readCString b) n i = Inr (ss, j) \<longrightarrow> i + n \<le> j \<and> j \<le> length b) \<and>
    (\<forall>ws j. readN (readU32 b) n i = Inr (ws, j) \<longrightarrow> i + n \<le> j \<and> j \<le> length b)"
  using packed.readN_bounds cstring.readN_bounds word32.readN_bounds assms by blast

lemma wire_bounds_witness: "(0 :: nat) + 2 \<le> 2 \<and> 2 \<le> length [2, 4, 9 :: byte]"
proof -
  have "readN (readPacked [2, 4, 9]) 2 0 = Inr ([1, 2], 2)" by code_simp
  with wire_bounds [of 0 "[2, 4, 9]" 2] show ?thesis by blast
qed

text \<open>
  A list of names survives being written as NUL-terminated strings one after the other and
  read back, at any place in a buffer.
\<close>

theorem cstrings_roundtrip:
  assumes "\<forall>s\<in>set names. 0 \<notin> set s"
  shows "readN (readCString (pre @ concat (map writeCString names) @ post)) (length names) (length pre)
    = Inr (names, length pre + length (concat (map writeCString names)))"
  using assms by (intro cstring.readN_encs) simp

lemma cstrings_roundtrip_witness:
  "readN (readCString ([5] @ concat (map writeCString [[65, 66], []]) @ [6])) (length [[65, 66 :: byte], []]) (length [5 :: byte])
    = Inr ([[65, 66], []], length [5 :: byte] + length (concat (map writeCString [[65, 66], []])))"
  by (rule cstrings_roundtrip) simp

text \<open>
  The eight-byte load is not only an optimisation: the five-byte form of a value is refused
  at the end of a buffer and read when three more bytes follow it.
\<close>

theorem packed_at_end_refused:
  "readPacked [0x0f, 0, 0, 0, 2] 0 = Inl PackedEof \<and>
   readPacked ([0x0f, 0, 0, 0, 2] @ [0, 0, 0]) 0 = Inr (0x10000000, 5)"
  by code_simp

end
