(* ===== verification/Chunkbuf.thy ===== *)
theory Chunkbuf
  imports Prelude
begin

text \<open>
  Byte sources and the pull loop of \<open>internal/chunkbuf\<close>: a filter produces one block at
  a time, and the reader hands it out in pieces of whatever size the caller asks for.

  An \<open>io.Reader\<close> is modelled by the bytes it has left; it fails only by ending, with the
  two errors of \<open>io.ReadFull\<close>. Failures of the device below it are not modelled.
\<close>

datatype io_error = EOF | UnexpectedEOF

section \<open>io.ReadFull\<close>

definition readFull :: "nat \<Rightarrow> bytes \<Rightarrow> io_error + (bytes \<times> bytes)" where
  "readFull n src =
     (if n \<le> length src then Inr (take n src, drop n src)
      else if src = [] then Inl EOF else Inl UnexpectedEOF)"

text \<open>\<open>readU32\<close> of the filters: four bytes, little-endian.\<close>

definition readFullU32 :: "bytes \<Rightarrow> io_error + (u32 \<times> bytes)" where
  "readFullU32 src = bindE (readFull 4 src) (\<lambda>(b, src'). Inr (le_word b, src'))"

lemma readFull_append [simp]: "readFull (length xs) (xs @ ys) = Inr (xs, ys)"
  by (simp add: readFull_def)

lemma readFull_eq_append: "n = length xs \<Longrightarrow> readFull n (xs @ ys) = Inr (xs, ys)"
  by simp

lemma readFull_Inr [res_simps]:
  "readFull n src = Inr (b, src') \<longleftrightarrow> n \<le> length src \<and> b = take n src \<and> src' = drop n src"
  by (auto simp: readFull_def)

lemma readFullU32_append [simp]: "readFullU32 (put_le 4 v @ ys) = Inr (v, ys)"
  by (simp add: readFullU32_def readFull_eq_append)

lemma readFullU32_Inr [res_simps]:
  "readFullU32 src = Inr (v, src') \<longleftrightarrow>
     4 \<le> length src \<and> v = le_word (take 4 src) \<and> src' = drop 4 src"
  by (auto simp: readFullU32_def res_simps)

definition mapErr :: "('e \<Rightarrow> 'f) \<Rightarrow> 'e + 'a \<Rightarrow> 'f + 'a" where
  "mapErr g m = (case m of Inl e \<Rightarrow> Inl (g e) | Inr x \<Rightarrow> Inr x)"

lemma mapErr_simps [simp]: "mapErr g (Inl e) = Inl (g e)" "mapErr g (Inr x) = Inr x"
  by (simp_all add: mapErr_def)

lemma mapErr_eq_Inr [res_simps]: "mapErr g m = Inr x \<longleftrightarrow> m = Inr x"
  by (cases m) auto

section \<open>The pull loop\<close>

text \<open>What \<open>next\<close> returns: a block, the end of the stream, or another error.\<close>

datatype 'e pulled = Block bytes | End | Fail 'e

text \<open>What \<open>Read\<close> returns beside its data.\<close>

datatype 'e read_error = ReadEOF | ReadErr 'e

record 'e chunkbuf =
  cb_buf :: bytes
  cb_off :: nat
  cb_err :: "'e option"
  cb_eof :: bool

definition newChunkbuf :: "'e chunkbuf" where
  "newChunkbuf = \<lparr>cb_buf = [], cb_off = 0, cb_err = None, cb_eof = False\<rparr>"

text \<open>
  The loop \<open>for r.Off >= len(r.Buf)\<close>. It stops only if the source does, so not returning
  is a value of the model.
\<close>

partial_function (option) fill ::
    "('s \<Rightarrow> 'e pulled \<times> 's) \<Rightarrow> 'e chunkbuf \<Rightarrow> 's \<Rightarrow>
      ('e read_error option \<times> 'e chunkbuf \<times> 's) option" where
  "fill nxt r s =
     (if cb_off r < length (cb_buf r) then Some (None, r, s)
      else if cb_eof r then Some (Some ReadEOF, r, s)
      else (case nxt s of (res, s') \<Rightarrow>
        (case res of
          End \<Rightarrow> Some (Some ReadEOF, r\<lparr>cb_eof := True\<rparr>, s')
        | Fail e \<Rightarrow> Some (Some (ReadErr e), r\<lparr>cb_err := Some e\<rparr>, s')
        | Block b \<Rightarrow> fill nxt (r\<lparr>cb_buf := b, cb_off := 0\<rparr>) s')))"

text \<open>\<open>Read\<close> with a buffer of \<open>n\<close> bytes: the data copied, the error, the new state.\<close>

definition readChunkbuf ::
    "('s \<Rightarrow> 'e pulled \<times> 's) \<Rightarrow> nat \<Rightarrow> 'e chunkbuf \<Rightarrow> 's \<Rightarrow>
      (bytes \<times> 'e read_error option \<times> 'e chunkbuf \<times> 's) option" where
  "readChunkbuf nxt n r s =
     (case (if length (cb_buf r) \<le> cb_off r then cb_err r else None) of
        Some e \<Rightarrow> Some ([], Some (ReadErr e), r, s)
      | None \<Rightarrow>
          (case fill nxt r s of
             None \<Rightarrow> None
           | Some (err, r', s') \<Rightarrow>
               (case err of
                  Some e \<Rightarrow> Some ([], Some e, r', s')
                | None \<Rightarrow>
                    let p = take n (drop (cb_off r') (cb_buf r'))
                    in Some (p, None, r'\<lparr>cb_off := cb_off r' + length p\<rparr>, s'))))"

definition closeChunkbuf :: "'e \<Rightarrow> 'e chunkbuf \<Rightarrow> 'e chunkbuf" where
  "closeChunkbuf err r = r\<lparr>cb_err := Some err, cb_buf := []\<rparr>"

text \<open>The reads of a caller such as \<open>io.ReadAll\<close>, up to the first error.\<close>

fun readMany ::
    "('s \<Rightarrow> 'e pulled \<times> 's) \<Rightarrow> nat list \<Rightarrow> 'e chunkbuf \<Rightarrow> 's \<Rightarrow>
      (bytes \<times> 'e read_error option \<times> 'e chunkbuf \<times> 's) option" where
  "readMany nxt [] r s = Some ([], None, r, s)"
| "readMany nxt (n # ns) r s =
     (case readChunkbuf nxt n r s of
        None \<Rightarrow> None
      | Some (p, err, r', s') \<Rightarrow>
          (case err of
             Some e \<Rightarrow> Some (p, Some e, r', s')
           | None \<Rightarrow>
               (case readMany nxt ns r' s' of
                  None \<Rightarrow> None
                | Some (q, err', r'', s'') \<Rightarrow> Some (p @ q, err', r'', s''))))"

section \<open>What a source holds\<close>

text \<open>
  The abstract stream of a source: all the bytes of its blocks in order, and how it ends.
\<close>

datatype 'e ending = Ended | Failed 'e

inductive drains :: "('s \<Rightarrow> 'e pulled \<times> 's) \<Rightarrow> 's \<Rightarrow> bytes \<Rightarrow> 'e ending \<Rightarrow> bool"
  for nxt where
  drains_end: "nxt s = (End, s') \<Longrightarrow> drains nxt s [] Ended"
| drains_fail: "nxt s = (Fail e, s') \<Longrightarrow> drains nxt s [] (Failed e)"
| drains_block: "nxt s = (Block b, s') \<Longrightarrow> drains nxt s' bs f \<Longrightarrow> drains nxt s (b @ bs) f"

inductive_cases drains_caseE: "drains nxt s bs f"

lemma drains_deterministic:
  "drains nxt s bs f \<Longrightarrow> drains nxt s bs' f' \<Longrightarrow> bs' = bs \<and> f' = f"
proof (induction arbitrary: bs' f' rule: drains.induct)
  case (drains_block s b s' bs f)
  from drains_block.prems drains_block.hyps(1) drains_block.IH show ?case
    by (auto elim: drains_caseE)
qed (auto elim: drains_caseE)

text \<open>The stream left in a reader: the rest of its block, then what the source holds.\<close>

definition holds :: "('s \<Rightarrow> 'e pulled \<times> 's) \<Rightarrow> 'e chunkbuf \<Rightarrow> 's \<Rightarrow> bytes \<Rightarrow> 'e ending \<Rightarrow> bool" where
  "holds nxt r s bs f \<longleftrightarrow>
     (\<exists>rest. bs = drop (cb_off r) (cb_buf r) @ rest \<and>
       (case cb_err r of
          Some e \<Rightarrow> rest = [] \<and> f = Failed e
        | None \<Rightarrow> if cb_eof r then rest = [] \<and> f = Ended else drains nxt s rest f))"

lemma holds_new: "drains nxt s bs f \<Longrightarrow> holds nxt newChunkbuf s bs f"
  by (simp add: holds_def newChunkbuf_def)

text \<open>
  A source that consumes something of itself with every block. Its readers always return,
  and whatever sizes they are read in, they deliver exactly the stream.
\<close>

locale block_source =
  fixes nxt :: "'s \<Rightarrow> 'e pulled \<times> 's"
    and left :: "'s \<Rightarrow> nat"
  assumes progress: "nxt s = (Block b, s') \<Longrightarrow> left s' < left s"
begin

lemma drains_total: "\<exists>bs f. drains nxt s bs f"
proof (induction "left s" arbitrary: s rule: less_induct)
  case less
  obtain p s' where p: "nxt s = (p, s')" by fastforce
  show ?case
  proof (cases p)
    case (Block b)
    with p progress less obtain bs f where "drains nxt s' bs f" by blast
    with p Block show ?thesis by (blast intro: drains_block)
  qed (use p in \<open>auto intro: drains.intros\<close>)
qed

lemma fill_holds:
  assumes "holds nxt r s bs f" "cb_err r = None \<or> cb_off r < length (cb_buf r)"
  shows "\<exists>err r' s'. fill nxt r s = Some (err, r', s') \<and> holds nxt r' s' bs f \<and>
    (case err of
       None \<Rightarrow> cb_off r' < length (cb_buf r')
     | Some ReadEOF \<Rightarrow> bs = [] \<and> f = Ended
     | Some (ReadErr e) \<Rightarrow> bs = [] \<and> f = Failed e)"
  using assms
proof (induction "left s" arbitrary: s r rule: less_induct)
  case less
  show ?case
  proof (cases "cb_off r < length (cb_buf r) \<or> cb_eof r")
    case True
    with less.prems show ?thesis by (subst fill.simps) (auto simp: holds_def)
  next
    case False
    obtain p s' where p: "nxt s = (p, s')" by fastforce
    from False less.prems have d: "drains nxt s bs f" and none: "cb_err r = None"
      by (auto simp: holds_def)
    show ?thesis
    proof (cases p)
      case (Block b)
      let ?r = "r\<lparr>cb_buf := b, cb_off := 0\<rparr>"
      from d p Block obtain bs' where "bs = b @ bs'" "drains nxt s' bs' f"
        by (auto elim: drains_caseE)
      with False less.prems have "holds nxt ?r s' bs f" by (simp add: holds_def)
      with less.hyps [of s' ?r] progress p Block less.prems False show ?thesis
        by (subst fill.simps) simp
    next
      case End
      with d p have "bs = []" "f = Ended" by (auto elim: drains_caseE)
      with False p End none show ?thesis by (subst fill.simps) (simp add: holds_def)
    next
      case (Fail e)
      with d p have "bs = []" "f = Failed e" by (auto elim: drains_caseE)
      with False p Fail show ?thesis by (subst fill.simps) (simp add: holds_def)
    qed
  qed
qed

lemma read_holds:
  assumes "holds nxt r s bs f"
  shows "\<exists>p err r' s'. readChunkbuf nxt n r s = Some (p, err, r', s') \<and>
    (\<exists>bs'. bs = p @ bs' \<and> holds nxt r' s' bs' f) \<and>
    (case err of
       None \<Rightarrow> 0 < n \<longrightarrow> p \<noteq> []
     | Some ReadEOF \<Rightarrow> bs = [] \<and> f = Ended
     | Some (ReadErr e) \<Rightarrow> bs = [] \<and> f = Failed e)"
proof (cases "length (cb_buf r) \<le> cb_off r \<and> cb_err r \<noteq> None")
  case True
  with assms show ?thesis by (auto simp: readChunkbuf_def holds_def)
next
  case False
  then have read: "readChunkbuf nxt n r s = (case fill nxt r s of None \<Rightarrow> None
      | Some (err, r', s') \<Rightarrow> (case err of Some e \<Rightarrow> Some ([], Some e, r', s')
        | None \<Rightarrow> let p = take n (drop (cb_off r') (cb_buf r'))
            in Some (p, None, r'\<lparr>cb_off := cb_off r' + length p\<rparr>, s')))"
    by (auto simp: readChunkbuf_def)
  from False have "cb_err r = None \<or> cb_off r < length (cb_buf r)" by auto
  from fill_holds [OF assms this] obtain err r' s' where
    fill: "fill nxt r s = Some (err, r', s')" "holds nxt r' s' bs f" and
    err: "case err of None \<Rightarrow> cb_off r' < length (cb_buf r')
      | Some ReadEOF \<Rightarrow> bs = [] \<and> f = Ended | Some (ReadErr e) \<Rightarrow> bs = [] \<and> f = Failed e"
    by blast
  show ?thesis
  proof (cases err)
    case None
    let ?tail = "drop (cb_off r') (cb_buf r')"
    let ?p = "take n ?tail"
    from fill(2) obtain rest where rest: "bs = ?tail @ rest" by (auto simp: holds_def)
    have split: "?tail = ?p @ drop n ?tail" by (rule append_take_drop_id [symmetric])
    have "drop (cb_off r' + length ?p) (cb_buf r') = drop n ?tail"
      by (simp add: min_def add.commute)
    with fill(2) rest have "holds nxt (r'\<lparr>cb_off := cb_off r' + length ?p\<rparr>) s' (drop n ?tail @ rest) f"
      by (auto simp: holds_def split: option.splits)
    moreover have "bs = ?p @ (drop n ?tail @ rest)"
      using rest by (simp only: append_assoc [symmetric] split [symmetric])
    ultimately show ?thesis using read fill(1) None err by (auto simp: Let_def)
  next
    case (Some e)
    with read fill err show ?thesis by (cases e) auto
  qed
qed

lemma readMany_holds:
  assumes "holds nxt r s bs f"
  shows "\<exists>q err r' s'. readMany nxt ns r s = Some (q, err, r', s') \<and>
    (case err of
       None \<Rightarrow> (\<exists>bs'. bs = q @ bs' \<and> holds nxt r' s' bs' f) \<and> ((\<forall>n\<in>set ns. 0 < n) \<longrightarrow> length ns \<le> length q)
     | Some ReadEOF \<Rightarrow> q = bs \<and> f = Ended
     | Some (ReadErr e) \<Rightarrow> q = bs \<and> f = Failed e)"
  using assms
proof (induction ns arbitrary: r s bs)
  case Nil
  then show ?case by auto
next
  case (Cons n ns)
  from read_holds [OF Cons.prems, of n] obtain p err r' s' bs' where
    rd: "readChunkbuf nxt n r s = Some (p, err, r', s')" "bs = p @ bs'" "holds nxt r' s' bs' f" and
    e: "case err of None \<Rightarrow> 0 < n \<longrightarrow> p \<noteq> [] | Some ReadEOF \<Rightarrow> bs = [] \<and> f = Ended
      | Some (ReadErr e) \<Rightarrow> bs = [] \<and> f = Failed e" by blast
  show ?case
  proof (cases err)
    case None
    from Cons.IH [OF rd(3)] obtain q err' r'' s'' where
      many: "readMany nxt ns r' s' = Some (q, err', r'', s'')" and
      q: "case err' of None \<Rightarrow> (\<exists>b. bs' = q @ b \<and> holds nxt r'' s'' b f)
            \<and> ((\<forall>n\<in>set ns. 0 < n) \<longrightarrow> length ns \<le> length q)
        | Some ReadEOF \<Rightarrow> q = bs' \<and> f = Ended | Some (ReadErr e) \<Rightarrow> q = bs' \<and> f = Failed e"
      by blast
    have step: "readMany nxt (n # ns) r s = Some (p @ q, err', r'', s'')"
      using rd(1) many None by simp
    have "0 < n \<longrightarrow> 1 \<le> length p" using e None by (cases p) auto
    with step q rd(2) show ?thesis
      by (cases err' rule: option.exhaust) (auto split: read_error.splits)
  next
    case (Some x)
    with rd e show ?thesis by (auto split: read_error.splits)
  qed
qed

text \<open>Enough reads of a positive size deliver the whole stream and then its ending.\<close>

lemma readMany_all:
  assumes "drains nxt s bs f" "\<forall>n\<in>set ns. 0 < n" "length bs < length ns"
  shows "\<exists>r' s'. readMany nxt ns newChunkbuf s =
    Some (bs, Some (case f of Ended \<Rightarrow> ReadEOF | Failed e \<Rightarrow> ReadErr e), r', s')"
proof -
  from readMany_holds [OF holds_new [OF assms(1)], of ns] obtain q err r' s' where
    many: "readMany nxt ns newChunkbuf s = Some (q, err, r', s')" and
    q: "case err of None \<Rightarrow> (\<exists>b. bs = q @ b \<and> holds nxt r' s' b f)
          \<and> ((\<forall>n\<in>set ns. 0 < n) \<longrightarrow> length ns \<le> length q)
      | Some ReadEOF \<Rightarrow> q = bs \<and> f = Ended | Some (ReadErr e) \<Rightarrow> q = bs \<and> f = Failed e"
    by blast
  show ?thesis
  proof (cases err)
    case None
    with q assms(2,3) show ?thesis by auto
  next
    case (Some x)
    with q many show ?thesis by (cases x) auto
  qed
qed

end


section \<open>Closing\<close>

text \<open>
  A closed reader stays closed: whatever it held, every read of it returns the closing error,
  no data, and neither the reader nor its source changes.
\<close>

theorem closed_reader_fails:
  "readChunkbuf nxt n (closeChunkbuf e r) s = Some ([], Some (ReadErr e), closeChunkbuf e r, s)"
  by (simp add: readChunkbuf_def closeChunkbuf_def)

end
