(* ===== verification/Delta.thy ===== *)
theory Delta
  imports Chunkbuf
begin

text \<open>
  FreeArc's Delta table filter (\<open>stream/delta/reader.go\<close>): a block carries a byte array
  and a list of tables inside it, each with its rows reordered and stored as differences;
  \<open>next\<close> undoes both. The format's encoder side is stated here as the specification the
  decoder is proved against.
\<close>

datatype delta_error =
    DataSizeErr io_error | TableSizeErr io_error | TooLarge
  | SkipErr io_error | TypeErr io_error | RowsErr io_error | DataErr io_error
  | BadType u32 | TableOverrun

definition maxElem :: nat where
  "maxElem = 30"

section \<open>The decoder\<close>

text \<open>\<open>decodeType\<close>: the flags of a column, \<open>doDiff\<close> and \<open>immutable\<close>, lowest bit first.\<close>

function decodeType :: "u32 \<Rightarrow> bool list \<times> bool list" where
  "decodeType typ =
     (if typ \<le> 1 then ([], [])
      else let (doDiff, imm) = decodeType (drop_bit 1 typ)
           in ((typ AND 1 = 0) # doDiff, (typ AND 1 = 1) # imm))"
  by pat_completeness auto
termination
proof (relation "measure unat")
  fix t :: u32
  assume "\<not> t \<le> 1"
  then have "1 < unat t" by (simp add: word_le_nat_alt)
  then show "(drop_bit 1 t, t) \<in> measure unat" by (simp add: unat_drop)
qed simp

declare decodeType.simps [simp del]

text \<open>
  \<open>undiff\<close>: within a row, columns marked \<open>doDiff\<close> add the byte above with the carry of
  the column before; any other column clears the carry.
\<close>

fun undiff_cols :: "nat \<Rightarrow> nat \<Rightarrow> nat \<Rightarrow> bool list \<Rightarrow> nat \<Rightarrow> bytes \<Rightarrow> bytes" where
  "undiff_cols n r i [] carry table = table"
| "undiff_cols n r i (d # ds) carry table =
     (if d then
        let sum = unat (table ! (r + i)) + unat (table ! (r + i - n)) + carry
        in undiff_cols n r (i + 1) ds (sum div 256) (table[r + i := word_of_nat sum])
      else undiff_cols n r (i + 1) ds 0 table)"

definition undiff :: "nat \<Rightarrow> bytes \<Rightarrow> nat \<Rightarrow> bool list \<Rightarrow> bytes" where
  "undiff n table rows doDiff =
     foldl (\<lambda>t k. undiff_cols n (k * n) 0 doDiff 0 t) table [1..<rows]"

text \<open>
  \<open>unreorder\<close>: the immutable columns are stored first, all rows of them, then the others;
  the indices \<open>p\<close>, \<open>q\<close>, \<open>q1\<close> walk the table and the two parts of its copy.
\<close>

fun unreorder_go :: "bytes \<Rightarrow> bool list \<Rightarrow> nat \<Rightarrow> nat \<Rightarrow> nat \<Rightarrow> bytes \<Rightarrow> bytes" where
  "unreorder_go tmp [] p q q1 table = table"
| "unreorder_go tmp (im # ims) p q q1 table =
     (if im then unreorder_go tmp ims (p + 1) (q + 1) q1 (table[p := tmp ! q])
      else unreorder_go tmp ims (p + 1) q (q1 + 1) (table[p := tmp ! q1]))"

definition unreorder :: "nat \<Rightarrow> bytes \<Rightarrow> nat \<Rightarrow> bool list \<Rightarrow> bytes" where
  "unreorder n table rows immutable =
     (let imm = length (filter (\<lambda>v. v) immutable) in
      if imm = 0 \<or> imm = n then table
      else unreorder_go (take (n * rows) table) (concat (replicate rows immutable)) 0 0 (imm * rows) table)"

text \<open>The loop over the tables of a block; \<open>pos\<close> is where the last table ended.\<close>

fun delta_tables :: "(u32 \<times> u32 \<times> u32) list \<Rightarrow> nat \<Rightarrow> bytes \<Rightarrow> delta_error + bytes" where
  "delta_tables [] pos data = Inr data"
| "delta_tables ((sk, t, nr) # ts) pos data =
     (let (doDiff, imm) = decodeType t; n = length imm in
      if n = 0 \<or> maxElem < n then Inl (BadType t)
      else
        let pos = pos + unat sk; need = n * unat nr in
        if length data < pos \<or> length data < pos + need then Inl TableOverrun
        else
          let tab = take need (drop pos data);
              tab = undiff n (unreorder n tab (unat nr) imm) (unat nr) doDiff
          in delta_tables ts (pos + need) (take pos data @ tab @ drop (pos + need) data))"

definition delta_block :: "bytes \<Rightarrow> delta_error + (bytes \<times> bytes)" where
  "delta_block src =
     bindE (mapErr DataSizeErr (readFullU32 src)) (\<lambda>(dataSize, src).
     bindE (mapErr TableSizeErr (readFullU32 src)) (\<lambda>(tableSize, src).
     if 0x7fffffff < dataSize \<or> 0x7fffffff < tableSize then Inl TooLarge
     else
       bindE (mapErr SkipErr (readFull (unat tableSize) src)) (\<lambda>(skip, src).
       bindE (mapErr TypeErr (readFull (unat tableSize) src)) (\<lambda>(typ, src).
       bindE (mapErr RowsErr (readFull (unat tableSize) src)) (\<lambda>(rows, src).
       bindE (mapErr DataErr (readFull (unat dataSize) src)) (\<lambda>(data, src).
         let nTab = unat tableSize div 4 in
         bindE (delta_tables (zip (words32 nTab skip) (zip (words32 nTab typ) (words32 nTab rows))) 0 data)
           (\<lambda>data. Inr (data, src))))))))"

text \<open>\<open>next\<close>: an input that is exactly spent is the end of the stream.\<close>

definition delta_next :: "bytes \<Rightarrow> delta_error pulled \<times> bytes" where
  "delta_next src =
     (if src = [] then (End, src)
      else case delta_block src of
          Inl e \<Rightarrow> (Fail e, src)
        | Inr (data, src') \<Rightarrow> (Block data, src'))"

definition deltaReader :: "nat \<Rightarrow> delta_error chunkbuf \<Rightarrow> bytes \<Rightarrow>
    (bytes \<times> delta_error read_error option \<times> delta_error chunkbuf \<times> bytes) option" where
  "deltaReader = readChunkbuf delta_next"

section \<open>Every read returns\<close>

lemma delta_block_consumes:
  assumes "delta_block src = Inr (data, src')"
  shows "length src' + 8 \<le> length src"
  using assms by (auto simp: delta_block_def Let_def res_simps split: prod.splits if_splits)

interpretation delta: block_source delta_next length
proof unfold_locales
  fix s b s'
  assume "delta_next s = (Block b, s')"
  then show "length s' < length s"
    by (auto simp: delta_next_def split: if_splits sum.splits dest!: delta_block_consumes)
qed


section \<open>The format: rows as differences\<close>

text \<open>
  One row added to, or subtracted from, the row above: maximal runs of difference columns
  are little-endian numbers, and the carry does not leave them.
\<close>

fun add_row :: "bool list \<Rightarrow> bytes \<Rightarrow> bytes \<Rightarrow> nat \<Rightarrow> bytes" where
  "add_row (d # ds) (p # ps) (x # xs) c =
     (if d then let s = unat x + unat p + c in word_of_nat s # add_row ds ps xs (s div 256)
      else x # add_row ds ps xs 0)"
| "add_row _ _ _ _ = []"

fun sub_row :: "bool list \<Rightarrow> bytes \<Rightarrow> bytes \<Rightarrow> nat \<Rightarrow> bytes" where
  "sub_row (d # ds) (p # ps) (y # ys) c =
     (if d then (y - p - word_of_nat c) # sub_row ds ps ys (if unat y < unat p + c then 1 else 0)
      else y # sub_row ds ps ys 0)"
| "sub_row _ _ _ _ = []"

fun diff_rows :: "bool list \<Rightarrow> bytes \<Rightarrow> bytes list \<Rightarrow> bytes list" where
  "diff_rows dd prev [] = []"
| "diff_rows dd prev (y # ys) = sub_row dd prev y 0 # diff_rows dd y ys"

fun undiff_rows :: "bool list \<Rightarrow> bytes \<Rightarrow> bytes list \<Rightarrow> bytes list" where
  "undiff_rows dd prev [] = []"
| "undiff_rows dd prev (x # xs) =
     (let y = add_row dd prev x 0 in y # undiff_rows dd y xs)"

definition diff_table :: "bool list \<Rightarrow> bytes list \<Rightarrow> bytes list" where
  "diff_table dd rows = (case rows of [] \<Rightarrow> [] | y # ys \<Rightarrow> y # diff_rows dd y ys)"

text \<open>The borrow of the subtraction is the carry the addition finds.\<close>

lemma sub_byte:
  fixes y p :: byte
  assumes "c \<le> 1"
  shows "word_of_nat (unat (y - p - word_of_nat c) + unat p + c) = y"
    and "(unat (y - p - word_of_nat c) + unat p + c) div 256 = (if unat y < unat p + c then 1 else 0)"
proof -
  show "word_of_nat (unat (y - p - word_of_nat c) + unat p + c) = y"
    by simp
  have y: "unat y < 256" and p: "unat p < 256" by (rule unat_byte_less)+
  have c: "uint (word_of_nat c :: byte) = int c" using assms by (cases c) auto
  let ?d = "unat (y - p - word_of_nat c) + unat p + c"
  have d: "unat (y - p - word_of_nat c) < 256" by (rule unat_byte_less)
  have "word_of_nat ?d = (word_of_nat (unat y) :: byte)" by simp
  then have "?d mod 256 = unat y mod 256"
    by (simp only: word_of_nat_eq_iff take_bit_nat_def) simp
  then have m: "?d mod 256 = unat y" using y by simp
  have q: "?d = 256 * (?d div 256) + unat y" using m by (metis mult_div_mod_eq)
  have "?d < 512" using d p assms by simp
  then have "?d div 256 < 2" by simp
  then have "?d div 256 = 0 \<or> ?d div 256 = 1" by auto
  then show "?d div 256 = (if unat y < unat p + c then 1 else 0)"
    using q d p y by auto
qed

lemma add_sub_row:
  assumes "c \<le> 1" "length ps = length ds" "length ys = length ds"
  shows "add_row ds ps (sub_row ds ps ys c) c = ys"
  using assms
proof (induction ds arbitrary: ps ys c)
  case Nil
  then show ?case by simp
next
  case (Cons d ds)
  then obtain p ps' y ys' where "ps = p # ps'" "ys = y # ys'"
    by (auto simp: length_Suc_conv)
  with Cons show ?case by (simp add: sub_byte Let_def)
qed

lemma length_sub_row: "length ps = length ds \<Longrightarrow> length ys = length ds \<Longrightarrow> length (sub_row ds ps ys c) = length ds"
  by (induction ds ps ys c rule: sub_row.induct) auto

lemma length_add_row: "length ps = length ds \<Longrightarrow> length ys = length ds \<Longrightarrow> length (add_row ds ps ys c) = length ds"
  by (induction ds ps ys c rule: add_row.induct) (auto simp: Let_def)

lemma undiff_diff_rows:
  "length prev = length dd \<Longrightarrow> \<forall>r\<in>set rows. length r = length dd \<Longrightarrow>
    undiff_rows dd prev (diff_rows dd prev rows) = rows"
  by (induction rows arbitrary: prev) (auto simp: add_sub_row Let_def)

lemma length_diff_rows:
  "length prev = length dd \<Longrightarrow> \<forall>r\<in>set rows. length r = length dd \<Longrightarrow>
    \<forall>r\<in>set (diff_rows dd prev rows). length r = length dd"
  by (induction rows arbitrary: prev) (auto simp: length_sub_row)

lemma length_diff_rows' [simp]: "length (diff_rows dd prev rows) = length rows"
  by (induction rows arbitrary: prev) auto

text \<open>The in-place loops compute these functions.\<close>

lemma undiff_cols_row:
  assumes "length ps = length ds" "length xs = length ds" "length pd = i" "length ready = i"
    "n = i + length ds" "r = length A + n"
  shows "undiff_cols n r i ds c (A @ pd @ ps @ ready @ xs @ B)
    = A @ pd @ ps @ ready @ add_row ds ps xs c @ B"
  using assms
proof (induction ds arbitrary: ps xs pd ready i c)
  case Nil
  then show ?case by simp
next
  case (Cons d ds)
  then obtain p ps' x xs' where ps: "ps = p # ps'" and xs: "xs = x # xs'"
    by (auto simp: length_Suc_conv)
  let ?T = "A @ pd @ ps @ ready @ xs @ B"
  have at: "?T ! (r + i) = x" "?T ! (r + i - n) = p"
    using Cons.prems ps xs by (simp_all add: nth_append)
  have upd: "?T[r + i := v] = A @ (pd @ [p]) @ ps' @ (ready @ [v]) @ xs' @ B" for v
    using Cons.prems ps xs by (simp add: list_update_append)
  have keep: "?T = A @ (pd @ [p]) @ ps' @ (ready @ [x]) @ xs' @ B"
    using ps xs by simp
  note IH = Cons.IH [of ps' xs' "pd @ [p]" "i + 1"]
  show ?case
  proof (cases d)
    case True
    let ?s = "unat x + unat p + c"
    have "undiff_cols n r i (d # ds) c ?T
        = undiff_cols n r (i + 1) ds (?s div 256) (?T[r + i := word_of_nat ?s])"
      using True by (simp only: undiff_cols.simps if_True Let_def at)
    also have "\<dots> = A @ (pd @ [p]) @ ps' @ (ready @ [word_of_nat ?s])
        @ add_row ds ps' xs' (?s div 256) @ B"
      unfolding upd by (rule IH) (use Cons.prems ps xs in auto)
    finally show ?thesis using True ps xs by (simp add: Let_def)
  next
    case False
    have "undiff_cols n r i (d # ds) c ?T = undiff_cols n r (i + 1) ds 0 ?T"
      using False by simp
    also have "\<dots> = A @ (pd @ [p]) @ ps' @ (ready @ [x]) @ add_row ds ps' xs' 0 @ B"
      unfolding keep by (rule IH) (use Cons.prems ps xs in auto)
    finally show ?thesis using False ps xs by simp
  qed
qed

lemma undiff_rows_loop:
  assumes "length prev = length dd" "\<forall>r\<in>set xs. length r = length dd"
    "length A + length dd = k * length dd"
  shows "foldl (\<lambda>t k. undiff_cols (length dd) (k * length dd) 0 dd 0 t) (A @ prev @ concat xs) [k..<k + length xs]
    = A @ prev @ concat (undiff_rows dd prev xs)"
  using assms
proof (induction xs arbitrary: A prev k)
  case Nil
  then show ?case by simp
next
  case (Cons x xs)
  let ?y = "add_row dd prev x 0"
  have "undiff_cols (length dd) (k * length dd) 0 dd 0 (A @ [] @ prev @ [] @ x @ concat xs)
      = A @ [] @ prev @ [] @ ?y @ concat xs"
    by (rule undiff_cols_row) (use Cons.prems in auto)
  then have step: "undiff_cols (length dd) (k * length dd) 0 dd 0 (A @ prev @ concat (x # xs))
      = (A @ prev) @ ?y @ concat xs" by simp
  have "[k..<k + length (x # xs)] = k # [Suc k..<Suc k + length xs]"
    by (subst upt_conv_Cons) simp_all
  then have "foldl (\<lambda>t k. undiff_cols (length dd) (k * length dd) 0 dd 0 t) (A @ prev @ concat (x # xs)) [k..<k + length (x # xs)]
      = foldl (\<lambda>t k. undiff_cols (length dd) (k * length dd) 0 dd 0 t) ((A @ prev) @ ?y @ concat xs) [Suc k..<Suc k + length xs]"
    using step by simp
  also have "\<dots> = (A @ prev) @ ?y @ concat (undiff_rows dd ?y xs)"
    by (rule Cons.IH) (use Cons.prems in \<open>auto simp: length_add_row\<close>)
  finally show ?case by (simp add: Let_def)
qed

lemma undiff_diff_table:
  assumes "\<forall>r\<in>set rows. length r = length dd"
  shows "undiff (length dd) (concat (diff_table dd rows)) (length rows) dd = concat rows"
proof (cases rows)
  case Nil
  then show ?thesis by (simp add: undiff_def diff_table_def)
next
  case (Cons y ys)
  with assms have "length y = length dd" "\<forall>r\<in>set ys. length r = length dd" by auto
  then have "foldl (\<lambda>t k. undiff_cols (length dd) (k * length dd) 0 dd 0 t) ([] @ y @ concat (diff_rows dd y ys))
      [1..<1 + length (diff_rows dd y ys)] = [] @ y @ concat (undiff_rows dd y (diff_rows dd y ys))"
    by (intro undiff_rows_loop length_diff_rows) simp_all
  moreover have "undiff_rows dd y (diff_rows dd y ys) = ys"
    by (rule undiff_diff_rows) fact+
  ultimately show ?thesis using Cons by (simp add: undiff_def diff_table_def)
qed

section \<open>The format: columns apart\<close>

text \<open>The immutable columns of every row, then the other columns.\<close>

definition reorder :: "bool list \<Rightarrow> bytes \<Rightarrow> bytes" where
  "reorder fs xs = map snd (filter fst (zip fs xs)) @ map snd (filter (\<lambda>z. \<not> fst z) (zip fs xs))"

lemma unreorder_go_reorder:
  assumes "tmp = U @ map snd (filter fst (zip fs xs)) @ V"
    "tmp = U' @ map snd (filter (\<lambda>z. \<not> fst z) (zip fs xs)) @ V'"
    "length xs = length fs" "p + length fs \<le> length table"
  shows "unreorder_go tmp fs p (length U) (length U') table = take p table @ xs @ drop (p + length fs) table"
  using assms
proof (induction fs arbitrary: xs U U' p table)
  case Nil
  then show ?case by simp
next
  case (Cons f fs)
  then obtain x xs' where xs: "xs = x # xs'" by (cases xs) auto
  have step: "take (Suc p) (table[p := x]) @ xs' @ drop (Suc p + length fs) (table[p := x])
      = take p table @ (x # xs') @ drop (p + length (f # fs)) table"
    using Cons.prems(4) by (simp add: take_Suc_conv_app_nth)
  show ?case
  proof (cases f)
    case True
    then have "tmp ! length U = x" using Cons.prems(1) xs by (simp add: nth_append)
    with True Cons.IH [of "U @ [x]" xs' U' "Suc p" "table[p := x]"] Cons.prems xs step
    show ?thesis by simp
  next
    case False
    then have "tmp ! length U' = x" using Cons.prems(2) xs by (simp add: nth_append)
    with False Cons.IH [of U xs' "U' @ [x]" "Suc p" "table[p := x]"] Cons.prems xs step
    show ?thesis by simp
  qed
qed

lemma length_filter_flags:
  "length xs = length fs \<Longrightarrow> length (filter fst (zip fs xs)) = length (filter (\<lambda>v. v) fs)"
  by (induction fs xs rule: list_induct2') auto

lemma count_flags: "length (filter (\<lambda>v. v) (concat (replicate k imm))) = k * length (filter (\<lambda>v. v) imm)"
  by (induction k) auto

lemma length_flags: "length (concat (replicate k imm)) = k * length imm"
  by (induction k) auto

lemma length_reorder: "length xs = length fs \<Longrightarrow> length (reorder fs xs) = length xs"
  by (induction fs xs rule: list_induct2') (auto simp: reorder_def)

lemma all_flags:
  "length xs = length fs \<Longrightarrow> length (filter (\<lambda>v. v) fs) = 0 \<or> length (filter (\<lambda>v. v) fs) = length fs \<Longrightarrow> reorder fs xs = xs"
proof (induction fs arbitrary: xs)
  case Nil
  then show ?case by (simp add: reorder_def)
next
  case (Cons f fs)
  then obtain x xs' where xs: "xs = x # xs'" by (cases xs) auto
  have le: "length (filter (\<lambda>v. v) fs) \<le> length fs" by (rule length_filter_le)
  show ?case
  proof (cases f)
    case True
    then have "length (filter (\<lambda>v. v) (f # fs)) = Suc (length (filter (\<lambda>v. v) fs))" by simp
    with Cons.prems(2) have "length (filter (\<lambda>v. v) fs) = length fs" by (simp del: filter.simps)
    then have "reorder fs xs' = xs'" using Cons.prems xs by (intro Cons.IH) simp_all
    with True xs show ?thesis by (simp add: reorder_def)
  next
    case False
    with Cons.prems le have z: "length (filter (\<lambda>v. v) fs) = 0" by simp
    with Cons.prems xs have "length (filter fst (zip fs xs')) = 0" by (simp add: length_filter_flags)
    moreover have "reorder fs xs' = xs'" using z Cons.IH [of xs'] Cons.prems xs by simp
    ultimately show ?thesis using False xs by (simp add: reorder_def)
  qed
qed

lemma unreorder_reorder:
  assumes "length imm = n" "length tab = n * rows"
  shows "unreorder n (reorder (concat (replicate rows imm)) tab) rows imm = tab"
proof -
  let ?fs = "concat (replicate rows imm)" and ?i = "length (filter (\<lambda>v. v) imm)"
  have len: "length tab = length ?fs" using assms by (simp add: length_flags mult.commute)
  show ?thesis
  proof (cases "?i = 0 \<or> ?i = n")
    case True
    then have "reorder ?fs tab = tab"
      using assms by (intro all_flags len) (auto simp: count_flags length_flags)
    with True show ?thesis by (simp add: unreorder_def)
  next
    case False
    let ?I = "map snd (filter fst (zip ?fs tab))" and ?O = "map snd (filter (\<lambda>z. \<not> fst z) (zip ?fs tab))"
    have I: "length ?I = ?i * rows"
      using len by (simp add: length_filter_flags count_flags mult.commute)
    have tmp: "take (n * rows) (?I @ ?O) = ?I @ ?O"
      using length_reorder [OF len] assms by (simp add: reorder_def)
    have "unreorder_go (?I @ ?O) ?fs 0 (length ([] :: bytes)) (length ?I) (?I @ ?O)
        = take 0 (?I @ ?O) @ tab @ drop (0 + length ?fs) (?I @ ?O)"
      by (rule unreorder_go_reorder [where V = ?O and V' = "[]"])
        (use len length_reorder [OF len] in \<open>simp_all add: reorder_def\<close>)
    moreover have "drop (0 + length ?fs) (?I @ ?O) = []"
      using length_reorder [OF len] len by (simp add: reorder_def)
    ultimately show ?thesis using False I tmp by (simp add: unreorder_def reorder_def)
  qed
qed

section \<open>The format: a block\<close>

text \<open>
  A segment: the bytes before a table, the table's type and its rows. \<open>enc_segment\<close> is what
  a block stores for it, \<open>plain_segment\<close> what it stands for.
\<close>

type_synonym segment = "bytes \<times> u32 \<times> bytes list"

definition segment_ok :: "segment \<Rightarrow> bool" where
  "segment_ok seg = (case seg of (gap, t, rows) \<Rightarrow>
     (let n = length (snd (decodeType t)) in
      0 < n \<and> n \<le> maxElem \<and> (\<forall>r\<in>set rows. length r = n)))"

definition enc_segment :: "segment \<Rightarrow> bytes" where
  "enc_segment seg = (case seg of (gap, t, rows) \<Rightarrow> (case decodeType t of (doDiff, imm) \<Rightarrow>
     gap @ reorder (concat (replicate (length rows) imm)) (concat (diff_table doDiff rows))))"

definition plain_segment :: "segment \<Rightarrow> bytes" where
  "plain_segment seg = (case seg of (gap, t, rows) \<Rightarrow> gap @ concat rows)"

definition segment_entry :: "segment \<Rightarrow> u32 \<times> u32 \<times> u32" where
  "segment_entry seg = (case seg of (gap, t, rows) \<Rightarrow>
     (word_of_nat (length gap), t, word_of_nat (length rows)))"

definition enc_block :: "segment list \<Rightarrow> bytes \<Rightarrow> bytes" where
  "enc_block segs rest =
     (let data = concat (map enc_segment segs) @ rest;
          ents = map segment_entry segs
      in put_le 4 (word_of_nat (length data) :: u32)
         @ put_le 4 (word_of_nat (4 * length segs) :: u32)
         @ concat (map (put_le 4 \<circ> fst) ents)
         @ concat (map (put_le 4 \<circ> fst \<circ> snd) ents)
         @ concat (map (put_le 4 \<circ> snd \<circ> snd) ents)
         @ data)"

definition plain_block :: "segment list \<Rightarrow> bytes \<Rightarrow> bytes" where
  "plain_block segs rest = concat (map plain_segment segs) @ rest"

lemma length_decodeType: "length (fst (decodeType t)) = length (snd (decodeType t))"
proof (induction t rule: decodeType.induct)
  case (1 t)
  then show ?case by (simp add: decodeType.simps [of t] Let_def split_beta)
qed

lemma length_diff_table:
  "\<forall>r\<in>set rows. length r = length dd \<Longrightarrow> \<forall>r\<in>set (diff_table dd rows). length r = length dd"
proof (cases rows)
  case (Cons y ys)
  assume "\<forall>r\<in>set rows. length r = length dd"
  with Cons have "length y = length dd" "\<forall>r\<in>set ys. length r = length dd" by auto
  with length_diff_rows [OF this] Cons show ?thesis by (simp add: diff_table_def)
qed (simp add: diff_table_def)

lemma length_concat_rows: "\<forall>r\<in>set rows. length r = n \<Longrightarrow> length (concat rows) = n * length rows"
  by (induction rows) auto

lemma zip_entries: "zip (map fst ents) (zip (map (fst \<circ> snd) ents) (map (snd \<circ> snd) ents)) = ents"
  by (induction ents) auto

text \<open>One table: the decoder restores it from what the block stores.\<close>

lemma delta_table_decodes:
  assumes "\<forall>r\<in>set rows. length r = length imm" "length dd = length imm"
  shows "undiff (length imm) (unreorder (length imm)
      (reorder (concat (replicate (length rows) imm)) (concat (diff_table dd rows))) (length rows) imm)
      (length rows) dd = concat rows"
proof -
  have "length (concat (diff_table dd rows)) = length imm * length rows"
    using length_concat_rows [OF length_diff_table [of rows dd]] assms
    by (simp add: diff_table_def split: list.splits)
  moreover have "undiff (length dd) (concat (diff_table dd rows)) (length rows) dd = concat rows"
    using assms by (intro undiff_diff_table) simp
  ultimately show ?thesis using assms by (simp add: unreorder_reorder)
qed


lemma length_segment:
  assumes "segment_ok seg"
  shows "length (enc_segment seg) = length (plain_segment seg)"
    and "length (fst seg) \<le> length (enc_segment seg)"
    and "length (snd (snd seg)) \<le> length (enc_segment seg)"
proof -
  obtain gap t rows where seg: "seg = (gap, t, rows)" by (cases seg)
  obtain dd imm where dec: "decodeType t = (dd, imm)" by fastforce
  have dd: "length dd = length imm" using length_decodeType [of t] dec by simp
  from assms seg dec have ok: "0 < length imm" "\<forall>r\<in>set rows. length r = length imm"
    by (simp_all add: segment_ok_def Let_def)
  from ok dd have "length (concat (diff_table dd rows)) = length imm * length rows"
    using length_concat_rows [OF length_diff_table [of rows dd]]
    by (simp add: diff_table_def split: list.splits)
  moreover have "length (concat rows) = length imm * length rows"
    by (rule length_concat_rows) (rule ok(2))
  moreover have "length rows \<le> length imm * length rows" using ok(1) by (cases imm) auto
  then have "length rows \<le> length gap + length imm * length rows" by (rule trans_le_add2)
  ultimately show "length (enc_segment seg) = length (plain_segment seg)"
    "length (fst seg) \<le> length (enc_segment seg)" "length (snd (snd seg)) \<le> length (enc_segment seg)"
    by (simp_all add: seg enc_segment_def plain_segment_def dec length_reorder length_flags mult.commute)
qed

text \<open>All tables of a block; the tables decoded before stay as they are.\<close>

lemma delta_tables_decode:
  assumes "\<forall>seg\<in>set segs. segment_ok seg" "length (concat (map enc_segment segs)) < 2 ^ 32"
  shows "delta_tables (map segment_entry segs) (length pre) (pre @ concat (map enc_segment segs) @ rest)
    = Inr (pre @ plain_block segs rest)"
  using assms
proof (induction segs arbitrary: pre)
  case Nil
  then show ?case by (simp add: plain_block_def)
next
  case (Cons seg segs)
  obtain gap t rows where seg: "seg = (gap, t, rows)" by (cases seg)
  obtain dd imm where dec: "decodeType t = (dd, imm)" by fastforce
  have dd: "length dd = length imm" using length_decodeType [of t] dec by simp
  from Cons.prems(1) seg dec have ok: "0 < length imm" "length imm \<le> maxElem"
      "\<forall>r\<in>set rows. length r = length imm"
    by (simp_all add: segment_ok_def Let_def)
  have l: "length (enc_segment seg) = length (plain_segment seg)"
    "length gap \<le> length (enc_segment seg)" "length rows \<le> length (enc_segment seg)"
    using length_segment [of seg] Cons.prems(1) seg by simp_all
  have small: "length (enc_segment seg) < 2 ^ 32" using Cons.prems(2) by simp
  have un: "unat (word_of_nat (length gap) :: u32) = length gap"
    "unat (word_of_nat (length rows) :: u32) = length rows"
    using l small by (auto intro!: unat_of_nat_small)
  define stored where "stored = reorder (concat (replicate (length rows) imm)) (concat (diff_table dd rows))"
  have enc: "enc_segment seg = gap @ stored" by (simp add: enc_segment_def seg dec stored_def)
  have plain: "plain_segment seg = gap @ concat rows" by (simp add: plain_segment_def seg)
  have len: "length stored = length imm * length rows"
    using l(1) enc plain length_concat_rows [OF ok(3)] by simp
  have tab: "undiff (length imm) (unreorder (length imm) stored (length rows) imm) (length rows) dd = concat rows"
    unfolding stored_def by (rule delta_table_decodes) (use ok dd in simp_all)
  let ?rest = "concat (map enc_segment segs) @ rest"
  have "delta_tables (map segment_entry (seg # segs)) (length pre) (pre @ gap @ stored @ ?rest)
      = delta_tables (map segment_entry segs) (length (pre @ gap @ concat rows)) ((pre @ gap @ concat rows) @ ?rest)"
    using ok length_concat_rows [OF ok(3)]
    by (simp add: segment_entry_def seg dec un len Let_def tab add.assoc)
  also have "\<dots> = Inr ((pre @ gap @ concat rows) @ plain_block segs rest)"
    using Cons.prems by (intro Cons.IH) auto
  finally show ?case by (simp add: enc plain plain_block_def)
qed

lemma words32_entries:
  "words32 (length ents) (concat (map (put_le 4 \<circ> f) ents)) = map f ents"
  using words32_concat' [of "map f ents"] by (simp add: comp_def)

lemma delta_block_raw:
  fixes n t :: u32
  assumes "unat n = length data" "unat t = 4 * length ents" "\<not> 0x7fffffff < n" "\<not> 0x7fffffff < t"
  shows "delta_block (put_le 4 n @ put_le 4 t @ concat (map (put_le 4 \<circ> fst) ents)
      @ concat (map (put_le 4 \<circ> fst \<circ> snd) ents) @ concat (map (put_le 4 \<circ> snd \<circ> snd) ents) @ data @ src')
    = bindE (delta_tables ents 0 data) (\<lambda>d. Inr (d, src'))"
proof -
  have len: "unat t = length (concat (map (put_le 4 \<circ> f) ents))" for f :: "u32 \<times> u32 \<times> u32 \<Rightarrow> u32"
    using length_concat_put_le [of "map f ents"] assms(2) by (simp add: comp_def)
  have rd: "readFull (unat t) (concat (map (put_le 4 \<circ> f) ents) @ ys)
      = Inr (concat (map (put_le 4 \<circ> f) ents), ys)" for f :: "u32 \<times> u32 \<times> u32 \<Rightarrow> u32" and ys
    by (rule readFull_eq_append) (rule len)
  have data: "readFull (unat n) (data @ src') = Inr (data, src')"
    by (rule readFull_eq_append) (rule assms(1))
  have ents: "unat t div 4 = length ents" using assms(2) by simp
  have "zip (map fst ents) (zip (map (fst \<circ> snd) ents) (map (snd \<circ> snd) ents)) = ents"
    by (rule zip_entries)
  then show ?thesis
    using assms(3,4)
    by (simp only: delta_block_def readFullU32_append mapErr_simps bindE.simps prod.case if_False rd data
      comp_assoc words32_entries ents Let_def simp_thms)
qed

lemma delta_block_decodes:
  assumes "\<forall>seg\<in>set segs. segment_ok seg" "length (plain_block segs rest) \<le> 0x7fffffff"
    "4 * length segs \<le> 0x7fffffff"
  shows "delta_block (enc_block segs rest @ src') = Inr (plain_block segs rest, src')"
proof -
  have len: "length (concat (map enc_segment segs)) = length (concat (map plain_segment segs))"
    using assms(1) by (induction segs) (auto simp: length_segment)
  let ?data = "concat (map enc_segment segs) @ rest" and ?ents = "map segment_entry segs"
  let ?n = "word_of_nat (length ?data) :: u32" and ?t = "word_of_nat (4 * length segs) :: u32"
  have n: "unat ?n = length ?data" and t: "unat ?t = 4 * length segs"
    by (rule unat_of_nat_small; use assms(2,3) len in \<open>simp add: plain_block_def\<close>)+
  have "\<not> 0x7fffffff < ?n" "\<not> 0x7fffffff < ?t"
    unfolding word_less_nat_alt n t using assms(2,3) len by (simp_all add: plain_block_def)
  moreover have "delta_tables ?ents 0 ?data = Inr (plain_block segs rest)"
    using delta_tables_decode [of segs "[]" rest] assms len by (simp add: plain_block_def)
  ultimately show ?thesis
    using delta_block_raw [of ?n ?data ?t ?ents src'] n t
    by (simp only: enc_block_def Let_def append_assoc bindE.simps length_map simp_thms)
qed


text \<open>A stream of blocks, and what the reader makes of it.\<close>

definition block_ok :: "segment list \<times> bytes \<Rightarrow> bool" where
  "block_ok b = (case b of (segs, rest) \<Rightarrow>
     list_all segment_ok segs \<and> length (plain_block segs rest) \<le> 0x7fffffff \<and> 4 * length segs \<le> 0x7fffffff)"

definition enc_stream :: "(segment list \<times> bytes) list \<Rightarrow> bytes" where
  "enc_stream bs = concat (map (\<lambda>(segs, rest). enc_block segs rest) bs)"

definition plain_stream :: "(segment list \<times> bytes) list \<Rightarrow> bytes" where
  "plain_stream bs = concat (map (\<lambda>(segs, rest). plain_block segs rest) bs)"

lemma delta_next_decodes:
  assumes "block_ok (segs, rest)"
  shows "delta_next (enc_block segs rest @ src') = (Block (plain_block segs rest), src')"
proof -
  have "delta_block (enc_block segs rest @ src') = Inr (plain_block segs rest, src')"
    using assms by (intro delta_block_decodes) (simp_all add: block_ok_def list_all_iff)
  moreover have "length (enc_block segs rest) \<noteq> 0"
    by (simp add: enc_block_def Let_def del: length_0_conv)
  ultimately show ?thesis by (auto simp: delta_next_def)
qed

lemma delta_drains: "list_all block_ok bs \<Longrightarrow> drains delta_next (enc_stream bs) (plain_stream bs) Ended"
proof (induction bs)
  case Nil
  show ?case by (auto simp: enc_stream_def plain_stream_def delta_next_def intro: drains_end)
next
  case (Cons b bs)
  obtain segs rest where b: "b = (segs, rest)" by (cases b)
  with Cons have "delta_next (enc_stream (b # bs)) = (Block (plain_block segs rest), enc_stream bs)"
    using delta_next_decodes [of segs rest "enc_stream bs"] by (simp add: enc_stream_def)
  from drains_block [where nxt = delta_next, OF this, of "plain_stream bs" Ended] Cons b show ?case
    by (simp add: plain_stream_def)
qed

text \<open>
  C13: whatever tables a stream of Delta blocks holds, and in whatever sizes its reader is read,
  the bytes delivered are the bytes the blocks stand for, then the end of the stream: undiff and
  unreorder invert the format's row differences and column order, block after block.
\<close>

theorem delta_reader_roundtrip:
  assumes "list_all block_ok bs" "\<forall>n\<in>set ns. 0 < n" "length (plain_stream bs) < length ns"
  shows "\<exists>r' s'. readMany delta_next ns newChunkbuf (enc_stream bs) = Some (plain_stream bs, Some ReadEOF, r', s')"
  using delta.readMany_all [OF delta_drains [OF assms(1)] assms(2,3)] by simp

lemma delta_reader_roundtrip_witness:
  "\<exists>r' s'. readMany delta_next (replicate 7 4) newChunkbuf (enc_stream [([([1], 6, [[1, 2], [3, 4]])], [9])])
     = Some ([1, 1, 2, 3, 4, 9], Some ReadEOF, r', s')"
proof -
  have "list_all block_ok [([([1], 6, [[1, 2], [3, 4]])], [9])]"
  proof -
    have "decodeType 6 = ([True, False], [False, True])" by code_simp
    then show ?thesis
      by (simp add: block_ok_def plain_block_def plain_segment_def segment_ok_def maxElem_def)
  qed
  from delta_reader_roundtrip [OF this, of "replicate 7 4"] show ?thesis
    by (simp add: plain_stream_def plain_block_def plain_segment_def)
qed

lemma length_undiff_cols [simp]: "length (undiff_cols n r i ds c t) = length t"
  by (induction n r i ds c t rule: undiff_cols.induct) (auto simp: Let_def)

lemma length_undiff [simp]: "length (undiff n t rows ds) = length t"
proof -
  have "length (foldl (\<lambda>t k. undiff_cols n (k * n) 0 ds 0 t) t ks) = length t" for ks
    by (induction ks arbitrary: t) auto
  then show ?thesis by (simp add: undiff_def)
qed

lemma length_unreorder_go [simp]: "length (unreorder_go tmp fs p q q1 t) = length t"
  by (induction tmp fs p q q1 t rule: unreorder_go.induct) auto

lemma length_unreorder [simp]: "length (unreorder n t rows imm) = length t"
  by (simp add: unreorder_def Let_def)

lemma length_delta_tables: "delta_tables ents pos data = Inr data' \<Longrightarrow> length data' = length data"
  by (induction ents pos data rule: delta_tables.induct)
    (auto simp: Let_def split: prod.splits if_splits)


lemma delta_block_InrE:
  assumes "delta_block src = Inr (data, src')"
  obtains n t sk ty nr d ents s1 s2 s3 s4 s5 where
    "readFullU32 src = Inr (n, s1)" "readFullU32 s1 = Inr (t, s2)"
    "\<not> 0x7fffffff < n" "\<not> 0x7fffffff < t"
    "readFull (unat t) s2 = Inr (sk, s3)" "readFull (unat t) s3 = Inr (ty, s4)"
    "readFull (unat t) s4 = Inr (nr, s5)" "readFull (unat n) s5 = Inr (d, src')"
    "delta_tables ents 0 d = Inr data"
  using assms by (auto simp: delta_block_def bindE_eq_Inr mapErr_eq_Inr Let_def split: if_splits)

text \<open>
  A block that decodes has exactly the data size its header announces, both sizes are
  below 2 GiB, and the reader has taken exactly the header, the three arrays and the data from
  the stream.
\<close>

theorem delta_block_size:
  assumes "delta_block src = Inr (data, src')"
  shows "\<exists>(n :: u32) (t :: u32). n = le_word (take 4 src) \<and> t = le_word (take 4 (drop 4 src)) \<and>
    n \<le> 0x7fffffff \<and> t \<le> 0x7fffffff \<and> length data = unat n \<and>
    src' = drop (8 + 3 * unat t + unat n) src"
  using assms
proof (rule delta_block_InrE)
  fix n t sk ty nr d ents s1 s2 s3 s4 s5
  assume h: "readFullU32 src = Inr (n, s1)" "readFullU32 s1 = Inr (t, s2)"
    "\<not> 0x7fffffff < n" "\<not> 0x7fffffff < t"
    "readFull (unat t) s2 = Inr (sk, s3)" "readFull (unat t) s3 = Inr (ty, s4)"
    "readFull (unat t) s4 = Inr (nr, s5)" "readFull (unat n) s5 = Inr (d, src')"
    "delta_tables ents 0 d = Inr data"
  have len: "length data = unat n"
    using length_delta_tables [OF h(9)] h(8) by (simp add: readFull_Inr)
  have n: "n = le_word (take 4 src)" "s1 = drop 4 src" using h(1) by (simp_all add: readFullU32_Inr)
  have t: "t = le_word (take 4 (drop 4 src))" "s2 = drop 4 s1"
    using h(2) n(2) by (simp_all add: readFullU32_Inr)
  have "src' = drop (unat n) (drop (unat t) (drop (unat t) (drop (unat t) (drop 4 (drop 4 src)))))"
    using h(5-8) t(2) n(2) by (simp only: readFull_Inr)
  also have "\<dots> = drop (8 + 3 * unat t + unat n) src" by (simp add: ac_simps)
  finally have src': "src' = drop (8 + 3 * unat t + unat n) src" .
  show ?thesis
    by (rule exI [of _ n], rule exI [of _ t], intro conjI)
      (use n(1) t(1) src' len h(3,4) in \<open>simp_all only: not_less\<close>)
qed

lemma delta_block_size_witness:
  "\<exists>(n :: u32) (t :: u32). n = le_word (take 4 [3, 0, 0, 0, 0, 0, 0, 0, 1, 2, 3, 9]) \<and>
    t = le_word (take 4 (drop 4 [3, 0, 0, 0, 0, 0, 0, 0, 1, 2, 3, 9])) \<and>
    n \<le> 0x7fffffff \<and> t \<le> 0x7fffffff \<and> length [1, 2, 3 :: byte] = unat n \<and>
    [9] = drop (8 + 3 * unat t + unat n) [3, 0, 0, 0, 0, 0, 0, 0, 1, 2, 3, 9 :: byte]"
proof -
  have "delta_block [3, 0, 0, 0, 0, 0, 0, 0, 1, 2, 3, 9] = Inr ([1, 2, 3], [9])"
    by code_simp
  then show ?thesis by (rule delta_block_size)
qed

end
