(* ===== verification/Dispack.thy ===== *)
theory Dispack
  imports Chunkbuf "HOL-Library.Monad_Syntax"
begin

text \<open>
  FreeArc's DisPack filter for x86 code (\<open>stream/dispack\<close>): code is stored as nineteen
  streams, by kind of byte, and calls by their absolute target. \<open>unfilter\<close> parses one
  instruction after the other and puts the bytes back in place; the reader applies it to the
  chunks that are code and counts the base address.
\<close>

section \<open>Opcode tables\<close>

abbreviation fNM :: byte where "fNM \<equiv> 0x0"
abbreviation fAM :: byte where "fAM \<equiv> 0x1"
abbreviation fMR :: byte where "fMR \<equiv> 0x2"
abbreviation fMEXTRA :: byte where "fMEXTRA \<equiv> 0x3"
abbreviation fMODE :: byte where "fMODE \<equiv> 0x3"
abbreviation fNI :: byte where "fNI \<equiv> 0x0"
abbreviation fBI :: byte where "fBI \<equiv> 0x4"
abbreviation fWI :: byte where "fWI \<equiv> 0x8"
abbreviation fDI :: byte where "fDI \<equiv> 0xc"
abbreviation fTYPE :: byte where "fTYPE \<equiv> 0xc"
abbreviation fAD :: byte where "fAD \<equiv> 0x0"
abbreviation fDA :: byte where "fDA \<equiv> 0x4"
abbreviation fBR :: byte where "fBR \<equiv> 0x8"
abbreviation fDR :: byte where "fDR \<equiv> 0xc"
abbreviation fERR :: byte where "fERR \<equiv> 0xf"

definition table1 :: bytes where
  "table1 = [
     fMR OR fNI, fMR OR fNI, fMR OR fNI, fMR OR fNI, fNM OR fBI, fNM OR fDI, fNM OR fNI, fNM OR fNI,
     fMR OR fNI, fMR OR fNI, fMR OR fNI, fMR OR fNI, fNM OR fBI, fNM OR fDI, fNM OR fNI, fNM OR fNI,
     fMR OR fNI, fMR OR fNI, fMR OR fNI, fMR OR fNI, fNM OR fBI, fNM OR fDI, fNM OR fNI, fNM OR fNI,
     fMR OR fNI, fMR OR fNI, fMR OR fNI, fMR OR fNI, fNM OR fBI, fNM OR fDI, fNM OR fNI, fNM OR fNI,
     fMR OR fNI, fMR OR fNI, fMR OR fNI, fMR OR fNI, fNM OR fBI, fNM OR fDI, fNM OR fNI, fNM OR fNI,
     fMR OR fNI, fMR OR fNI, fMR OR fNI, fMR OR fNI, fNM OR fBI, fNM OR fDI, fNM OR fNI, fNM OR fNI,
     fMR OR fNI, fMR OR fNI, fMR OR fNI, fMR OR fNI, fNM OR fBI, fNM OR fDI, fNM OR fNI, fNM OR fNI,
     fMR OR fNI, fMR OR fNI, fMR OR fNI, fMR OR fNI, fNM OR fBI, fNM OR fDI, fNM OR fNI, fNM OR fNI,
     fNM OR fNI, fNM OR fNI, fNM OR fNI, fNM OR fNI, fNM OR fNI, fNM OR fNI, fNM OR fNI, fNM OR fNI,
     fNM OR fNI, fNM OR fNI, fNM OR fNI, fNM OR fNI, fNM OR fNI, fNM OR fNI, fNM OR fNI, fNM OR fNI,
     fNM OR fNI, fNM OR fNI, fNM OR fNI, fNM OR fNI, fNM OR fNI, fNM OR fNI, fNM OR fNI, fNM OR fNI,
     fNM OR fNI, fNM OR fNI, fNM OR fNI, fNM OR fNI, fNM OR fNI, fNM OR fNI, fNM OR fNI, fNM OR fNI,
     fNM OR fNI, fNM OR fNI, fMR OR fNI, fMR OR fNI, fNM OR fNI, fNM OR fNI, fNM OR fNI, fNM OR fNI,
     fNM OR fDI, fMR OR fDI, fNM OR fBI, fMR OR fBI, fNM OR fNI, fNM OR fNI, fNM OR fNI, fNM OR fNI,
     fAM OR fBR, fAM OR fBR, fAM OR fBR, fAM OR fBR, fAM OR fBR, fAM OR fBR, fAM OR fBR, fAM OR fBR,
     fAM OR fBR, fAM OR fBR, fAM OR fBR, fAM OR fBR, fAM OR fBR, fAM OR fBR, fAM OR fBR, fAM OR fBR,
     fMR OR fBI, fMR OR fDI, fMR OR fBI, fMR OR fBI, fMR OR fNI, fMR OR fNI, fMR OR fNI, fMR OR fNI,
     fMR OR fNI, fMR OR fNI, fMR OR fNI, fMR OR fNI, fMR OR fNI, fMR OR fNI, fMR OR fNI, fMR OR fNI,
     fNM OR fNI, fNM OR fNI, fNM OR fNI, fNM OR fNI, fNM OR fNI, fNM OR fNI, fNM OR fNI, fNM OR fNI,
     fNM OR fNI, fNM OR fNI, fAM OR fDA, fNM OR fNI, fNM OR fNI, fNM OR fNI, fNM OR fNI, fNM OR fNI,
     fAM OR fAD, fAM OR fAD, fAM OR fAD, fAM OR fAD, fNM OR fNI, fNM OR fNI, fNM OR fNI, fNM OR fNI,
     fNM OR fBI, fNM OR fDI, fNM OR fNI, fNM OR fNI, fNM OR fNI, fNM OR fNI, fNM OR fNI, fNM OR fNI,
     fNM OR fBI, fNM OR fBI, fNM OR fBI, fNM OR fBI, fNM OR fBI, fNM OR fBI, fNM OR fBI, fNM OR fBI,
     fNM OR fDI, fNM OR fDI, fNM OR fDI, fNM OR fDI, fNM OR fDI, fNM OR fDI, fNM OR fDI, fNM OR fDI,
     fMR OR fBI, fMR OR fBI, fNM OR fWI, fNM OR fNI, fMR OR fNI, fMR OR fNI, fMR OR fBI, fMR OR fDI,
     fNM OR fBI, fNM OR fNI, fNM OR fWI, fNM OR fNI, fNM OR fNI, fNM OR fBI, fERR, fNM OR fNI,
     fMR OR fNI, fMR OR fNI, fMR OR fNI, fMR OR fNI, fNM OR fBI, fNM OR fBI, fNM OR fNI, fNM OR fNI,
     fMR OR fNI, fMR OR fNI, fMR OR fNI, fMR OR fNI, fMR OR fNI, fMR OR fNI, fMR OR fNI, fMR OR fNI,
     fAM OR fBR, fAM OR fBR, fAM OR fBR, fAM OR fBR, fNM OR fBI, fNM OR fBI, fNM OR fBI, fNM OR fBI,
     fAM OR fDR, fAM OR fDR, fAM OR fAD, fAM OR fBR, fNM OR fNI, fNM OR fNI, fNM OR fNI, fNM OR fNI,
     fNM OR fNI, fERR, fNM OR fNI, fNM OR fNI, fNM OR fNI, fNM OR fNI, fMEXTRA, fMEXTRA,
     fNM OR fNI, fNM OR fNI, fNM OR fNI, fNM OR fNI, fNM OR fNI, fNM OR fNI, fMEXTRA, fMEXTRA]"

definition table2 :: bytes where
  "table2 = [
     fERR, fERR, fERR, fERR, fERR, fERR, fNM OR fNI, fERR,
     fNM OR fNI, fNM OR fNI, fERR, fERR, fERR, fERR, fERR, fERR,
     fMR OR fNI, fMR OR fNI, fMR OR fNI, fMR OR fNI, fMR OR fNI, fMR OR fNI, fMR OR fNI, fMR OR fNI,
     fMR OR fNI, fERR, fERR, fERR, fERR, fERR, fERR, fERR,
     fMR OR fNI, fMR OR fNI, fMR OR fNI, fMR OR fNI, fERR, fERR, fERR, fERR,
     fMR OR fNI, fMR OR fNI, fMR OR fNI, fMR OR fNI, fMR OR fNI, fMR OR fNI, fMR OR fNI, fMR OR fNI,
     fNM OR fNI, fNM OR fNI, fNM OR fNI, fNM OR fNI, fNM OR fNI, fNM OR fNI, fERR, fNM OR fNI,
     fERR, fERR, fERR, fERR, fERR, fERR, fERR, fERR,
     fMR OR fNI, fMR OR fNI, fMR OR fNI, fMR OR fNI, fMR OR fNI, fMR OR fNI, fMR OR fNI, fMR OR fNI,
     fMR OR fNI, fMR OR fNI, fMR OR fNI, fMR OR fNI, fMR OR fNI, fMR OR fNI, fMR OR fNI, fMR OR fNI,
     fMR OR fNI, fMR OR fNI, fMR OR fNI, fMR OR fNI, fMR OR fNI, fMR OR fNI, fMR OR fNI, fMR OR fNI,
     fMR OR fNI, fMR OR fNI, fMR OR fNI, fMR OR fNI, fMR OR fNI, fMR OR fNI, fMR OR fNI, fMR OR fNI,
     fMR OR fNI, fMR OR fNI, fMR OR fNI, fMR OR fNI, fMR OR fNI, fMR OR fNI, fMR OR fNI, fMR OR fNI,
     fMR OR fNI, fMR OR fNI, fMR OR fNI, fMR OR fNI, fMR OR fNI, fMR OR fNI, fMR OR fNI, fMR OR fNI,
     fMR OR fBI, fMR OR fBI, fMR OR fBI, fMR OR fBI, fMR OR fNI, fMR OR fNI, fMR OR fNI, fNM OR fNI,
     fERR, fERR, fERR, fERR, fERR, fERR, fMR OR fNI, fMR OR fNI,
     fAM OR fDR, fAM OR fDR, fAM OR fDR, fAM OR fDR, fAM OR fDR, fAM OR fDR, fAM OR fDR, fAM OR fDR,
     fAM OR fDR, fAM OR fDR, fAM OR fDR, fAM OR fDR, fAM OR fDR, fAM OR fDR, fAM OR fDR, fAM OR fDR,
     fMR OR fNI, fMR OR fNI, fMR OR fNI, fMR OR fNI, fMR OR fNI, fMR OR fNI, fMR OR fNI, fMR OR fNI,
     fMR OR fNI, fMR OR fNI, fMR OR fNI, fMR OR fNI, fMR OR fNI, fMR OR fNI, fMR OR fNI, fMR OR fNI,
     fNM OR fNI, fNM OR fNI, fNM OR fNI, fMR OR fNI, fMR OR fBI, fMR OR fNI, fMR OR fNI, fMR OR fNI,
     fERR, fERR, fERR, fMR OR fNI, fMR OR fBI, fMR OR fNI, fERR, fMR OR fNI,
     fMR OR fNI, fMR OR fNI, fMR OR fNI, fMR OR fNI, fMR OR fNI, fMR OR fNI, fMR OR fNI, fMR OR fNI,
     fERR, fERR, fERR, fMR OR fNI, fMR OR fNI, fMR OR fNI, fMR OR fNI, fMR OR fNI,
     fMR OR fNI, fMR OR fNI, fMR OR fNI, fMR OR fNI, fMR OR fNI, fMR OR fNI, fMR OR fNI, fMR OR fNI,
     fNM OR fNI, fNM OR fNI, fNM OR fNI, fNM OR fNI, fNM OR fNI, fNM OR fNI, fNM OR fNI, fNM OR fNI,
     fMR OR fNI, fMR OR fNI, fMR OR fNI, fMR OR fNI, fMR OR fNI, fMR OR fNI, fMR OR fNI, fMR OR fNI,
     fMR OR fNI, fMR OR fNI, fMR OR fNI, fMR OR fNI, fMR OR fNI, fMR OR fNI, fMR OR fNI, fMR OR fNI,
     fMR OR fNI, fMR OR fNI, fMR OR fNI, fMR OR fNI, fMR OR fNI, fMR OR fNI, fMR OR fNI, fMR OR fNI,
     fMR OR fNI, fMR OR fNI, fMR OR fNI, fMR OR fNI, fMR OR fNI, fMR OR fNI, fMR OR fNI, fMR OR fNI,
     fMR OR fNI, fMR OR fNI, fMR OR fNI, fMR OR fNI, fMR OR fNI, fMR OR fNI, fMR OR fNI, fMR OR fNI,
     fMR OR fNI, fMR OR fNI, fMR OR fNI, fMR OR fNI, fMR OR fNI, fMR OR fNI, fMR OR fNI, fERR]"

definition tableX :: bytes where
  "tableX = [
     fMR OR fBI, fERR, fMR OR fNI, fMR OR fNI, fMR OR fNI, fMR OR fNI, fMR OR fNI, fMR OR fNI,
     fMR OR fDI, fERR, fMR OR fNI, fMR OR fNI, fMR OR fNI, fMR OR fNI, fMR OR fNI, fMR OR fNI,
     fMR OR fNI, fMR OR fNI, fERR, fERR, fERR, fERR, fERR, fERR,
     fMR OR fNI, fMR OR fNI, fMR OR fNI, fERR, fMR OR fNI, fERR, fMR OR fNI, fERR]"

section \<open>The unfilter's state\<close>

text \<open>The streams by number, in the order of the header.\<close>

abbreviation stOp :: nat where "stOp \<equiv> 0"
abbreviation stSIB :: nat where "stSIB \<equiv> 1"
abbreviation stCallIdx :: nat where "stCallIdx \<equiv> 2"
abbreviation stDisp8R0 :: nat where "stDisp8R0 \<equiv> 3"
abbreviation stJump8 :: nat where "stJump8 \<equiv> 11"
abbreviation stImm8 :: nat where "stImm8 \<equiv> 12"
abbreviation stImm16 :: nat where "stImm16 \<equiv> 13"
abbreviation stImm32 :: nat where "stImm32 \<equiv> 14"
abbreviation stDisp32 :: nat where "stDisp32 \<equiv> 15"
abbreviation stAddr32 :: nat where "stAddr32 \<equiv> 16"
abbreviation stCall32 :: nat where "stCall32 \<equiv> 17"
abbreviation stJump32 :: nat where "stJump32 \<equiv> 18"
abbreviation stMax :: nat where "stMax \<equiv> 19"

abbreviation op2Byte :: byte where "op2Byte \<equiv> 0x0f"
abbreviation opOSize :: byte where "opOSize \<equiv> 0x66"
abbreviation opCallF :: byte where "opCallF \<equiv> 0x9a"
abbreviation opRetNI :: byte where "opRetNI \<equiv> 0xc2"
abbreviation opRetN :: byte where "opRetN \<equiv> 0xc3"
abbreviation opEnter :: byte where "opEnter \<equiv> 0xc8"
abbreviation opInt3 :: byte where "opInt3 \<equiv> 0xcc"
abbreviation opCallN :: byte where "opCallN \<equiv> 0xe8"
abbreviation opJmpF :: byte where "opJmpF \<equiv> 0xea"
abbreviation escape :: byte where "escape \<equiv> 0xf1"
abbreviation jumpTab :: byte where "jumpTab \<equiv> 0xce"

record dis =
  streams :: "nat \<Rightarrow> bytes"
  dis_out :: bytes
  funcTable :: "u32 list"
  nextIsFunc :: bool

text \<open>
  \<open>moveToFront\<close> shifts the entries before \<open>pos\<close> up by one and puts \<open>val\<close> first.
\<close>

fun moveToFront :: "u32 list \<Rightarrow> nat \<Rightarrow> u32 \<Rightarrow> u32 list" where
  "moveToFront table 0 val = table[0 := val]"
| "moveToFront table (Suc pos) val = moveToFront (table[Suc pos := table ! pos]) pos val"

definition addMTF :: "u32 list \<Rightarrow> u32 \<Rightarrow> u32 list" where
  "addMTF mtf val = moveToFront mtf 255 val"

text \<open>Taking from a stream, and appending to the output; \<open>false\<close> is \<open>None\<close>.\<close>

definition fetch8 :: "nat \<Rightarrow> dis \<Rightarrow> (byte \<times> dis) option" where
  "fetch8 st s = (case streams s st of [] \<Rightarrow> None
     | v # vs \<Rightarrow> Some (v, s\<lparr>streams := (streams s)(st := vs)\<rparr>))"

definition fetchBE :: "nat \<Rightarrow> nat \<Rightarrow> dis \<Rightarrow> ('w::len word \<times> dis) option" where
  "fetchBE n st s =
     (if length (streams s st) < n then None
      else Some (be_word (take n (streams s st)), s\<lparr>streams := (streams s)(st := drop n (streams s st))\<rparr>))"

abbreviation fetch32B :: "nat \<Rightarrow> dis \<Rightarrow> (u32 \<times> dis) option" where
  "fetch32B \<equiv> fetchBE 4"

definition append_out :: "nat \<Rightarrow> bytes \<Rightarrow> dis \<Rightarrow> dis option" where
  "append_out destEnd bs s =
     (if destEnd < length (dis_out s) + length bs then None else Some (s\<lparr>dis_out := dis_out s @ bs\<rparr>))"

definition copy8 :: "nat \<Rightarrow> nat \<Rightarrow> dis \<Rightarrow> dis option" where
  "copy8 destEnd st s = do { (v, s) \<leftarrow> fetch8 st s; append_out destEnd [v] s }"

definition copy16 :: "nat \<Rightarrow> nat \<Rightarrow> dis \<Rightarrow> dis option" where
  "copy16 destEnd st s = do { (v, s) \<leftarrow> fetchBE 2 st s; append_out destEnd (put_le 2 (v :: u16)) s }"

definition copy32 :: "nat \<Rightarrow> nat \<Rightarrow> dis \<Rightarrow> dis option" where
  "copy32 destEnd st s = do { (v, s) \<leftarrow> fetch32B st s; append_out destEnd (put_le 4 v) s }"

text \<open>
  A call target: an index into the table of recent targets, counted from 1, or 0 and a new one.
\<close>

definition fetch_target :: "dis \<Rightarrow> (u32 \<times> dis) option" where
  "fetch_target s = do {
     (ind, s) \<leftarrow> fetch8 stCallIdx s;
     if ind \<noteq> 0 then
       (let p = unat ind - 1; target = funcTable s ! p
        in Some (target, s\<lparr>funcTable := moveToFront (funcTable s) p target\<rparr>))
     else do {
       (target, s) \<leftarrow> fetch32B stCall32 s;
       Some (target, s\<lparr>funcTable := addMTF (funcTable s) target\<rparr>)
     }
   }"

section \<open>One instruction\<close>

fun jump_table :: "nat \<Rightarrow> nat \<Rightarrow> dis \<Rightarrow> dis option" where
  "jump_table destEnd 0 s = Some s"
| "jump_table destEnd (Suc count) s = do {
     (target, s) \<leftarrow> fetch_target s;
     s \<leftarrow> append_out destEnd (put_le 4 target) s;
     jump_table destEnd count s
   }"

text \<open>The \<open>flags&fMR\<close> part: the ModRM byte, its SIB byte and displacement.\<close>

definition modrm_operand :: "nat \<Rightarrow> byte \<Rightarrow> byte \<Rightarrow> dis \<Rightarrow> (byte \<times> dis) option" where
  "modrm_operand destEnd code flags s = do {
     (modrm, s) \<leftarrow> fetch8 stOp s;
     s \<leftarrow> append_out destEnd [modrm] s;
     let flags = (if flags = fMEXTRA
       then tableX ! unat ((drop_bit 3 modrm AND 7) OR push_bit 3 (code AND 1) OR push_bit 1 (code AND 8))
       else flags);
     (sib, s) \<leftarrow> (if modrm AND 7 = 4 \<and> modrm < 0xc0 then do {
          (sb, s) \<leftarrow> fetch8 stSIB s;
          s \<leftarrow> append_out destEnd [sb] s;
          Some (sb, s)
        } else Some (0, s));
     s \<leftarrow> (if modrm AND 0xc0 = 0x40 then copy8 destEnd (unat (modrm AND 7) + stDisp8R0) s
        else Some s);
     s \<leftarrow> (if modrm AND 0xc0 = 0x80 \<or> modrm AND 0xc7 = 5 \<or> modrm < 0x40 \<and> sib AND 7 = 5
        then copy32 destEnd (if modrm AND 0xc7 = 5 then stAddr32 else stDisp32) s
        else Some s);
     Some (flags, s)
   }"

text \<open>The operand of an address instruction; a relative target is stored absolute.\<close>

definition address_operand :: "nat \<Rightarrow> nat \<Rightarrow> u32 \<Rightarrow> byte \<Rightarrow> byte \<Rightarrow> dis \<Rightarrow> dis option" where
  "address_operand destEnd start memory code flags s =
     (if flags AND fTYPE = fAD then copy32 destEnd stAddr32 s
      else if flags AND fTYPE = fDA then copy32 destEnd stJump32 s
      else if flags AND fTYPE = fBR then copy8 destEnd stJump8 s
      else do {
        (target, s) \<leftarrow> (if code = opCallN then fetch_target s else fetch32B stJump32 s);
        append_out destEnd
          (put_le 4 (target - (word_of_nat (length (dis_out s) - start) + 4 + memory))) s
      })"

definition immediate_operand :: "nat \<Rightarrow> bool \<Rightarrow> byte \<Rightarrow> dis \<Rightarrow> dis option" where
  "immediate_operand destEnd o16 flags s =
     (if flags AND fTYPE = fBI then copy8 destEnd stImm8 s
      else if flags AND fTYPE = fWI then copy16 destEnd stImm16 s
      else if flags AND fTYPE = fDI then
        (if \<not> o16 then copy32 destEnd stImm32 s else copy16 destEnd stImm16 s)
      else Some s)"

text \<open>An instruction whose first byte has been put out.\<close>

definition instruction :: "nat \<Rightarrow> nat \<Rightarrow> u32 \<Rightarrow> byte \<Rightarrow> dis \<Rightarrow> dis option" where
  "instruction destEnd start memory code s = do {
     (o16, code, s) \<leftarrow> (if code = opOSize then do {
          (c2, s) \<leftarrow> fetch8 stOp s;
          s \<leftarrow> append_out destEnd [c2] s;
          Some (True, c2, s)
        } else Some (False, code, s));
     let s = (if code = opRetNI \<or> code = opRetN \<or> code = opInt3 then s\<lparr>nextIsFunc := True\<rparr> else s);
     (flags, s) \<leftarrow> (if code = op2Byte then do {
          (c2, s) \<leftarrow> fetch8 stOp s;
          s \<leftarrow> append_out destEnd [c2] s;
          Some (table2 ! unat c2, s)
        } else Some (table1 ! unat code, s));
     if flags = fERR then None else do {
       s \<leftarrow> (if code = opCallF \<or> code = opJmpF \<or> code = opEnter then copy16 destEnd stImm16 s
          else Some s);
       (flags, s) \<leftarrow> (if flags AND fMR \<noteq> 0 then modrm_operand destEnd code flags s
          else Some (flags, s));
       if flags AND fMODE = fAM then address_operand destEnd start memory code flags s
       else immediate_operand destEnd o16 flags s
     }
   }"

text \<open>One round of the loop over the opcode stream.\<close>

definition unfilter_step :: "nat \<Rightarrow> u32 \<Rightarrow> dis \<Rightarrow> dis option" where
  "unfilter_step destEnd memStart s =
     (let start = length (dis_out s); memory = memStart + word_of_nat start in do {
       (code, s) \<leftarrow> fetch8 stOp s;
       if code = jumpTab then do {
         (countb, s) \<leftarrow> fetch8 stOp s;
         jump_table destEnd (unat countb + 1) s
       } else
         let s = (if nextIsFunc s \<and> code \<noteq> opInt3
           then s\<lparr>funcTable := addMTF (funcTable s) memory, nextIsFunc := False\<rparr> else s)
         in if code = escape then do {
           (v, s) \<leftarrow> fetch8 stOp s;
           append_out destEnd [v] s
         } else do {
           s \<leftarrow> append_out destEnd [code] s;
           instruction destEnd start memory code s
         }
     })"

section \<open>Every operation moves forward\<close>

text \<open>
  What each operation does to the state, whatever the instruction: streams only shrink, the
  output only grows and stays within the destination, and the table keeps its 256 entries.
\<close>

definition forward :: "nat \<Rightarrow> dis \<Rightarrow> dis \<Rightarrow> bool" where
  "forward destEnd s s' \<longleftrightarrow>
     (\<forall>i. length (streams s' i) \<le> length (streams s i)) \<and>
     (\<exists>w. dis_out s' = dis_out s @ w) \<and>
     (length (dis_out s) \<le> destEnd \<longrightarrow> length (dis_out s') \<le> destEnd) \<and>
     length (funcTable s') = length (funcTable s)"

lemma forward_refl [simp, intro]: "forward d s s"
  by (simp add: forward_def)

lemma forward_trans: "forward d s s' \<Longrightarrow> forward d s' s'' \<Longrightarrow> forward d s s''"
  unfolding forward_def by (metis append_assoc le_trans)

lemma length_moveToFront [simp]: "length (moveToFront t p v) = length t"
  by (induction t p v rule: moveToFront.induct) auto

lemma length_addMTF [simp]: "length (addMTF t v) = length t"
  by (simp add: addMTF_def)

lemma moveToFront_eq:
  "p < length t \<Longrightarrow> moveToFront t p v = v # take p t @ drop (Suc p) t"
proof (induction t p v rule: moveToFront.induct)
  case (1 t v)
  then show ?case by (cases t) auto
next
  case (2 t p v)
  then have "moveToFront t (Suc p) v
      = v # take p (t[Suc p := t ! p]) @ drop (Suc p) (t[Suc p := t ! p])" by simp
  also have "drop (Suc p) (t[Suc p := t ! p]) = t ! p # drop (Suc (Suc p)) t"
    using 2 by (subst Cons_nth_drop_Suc [symmetric]) simp_all
  finally show ?case using 2 by (simp add: take_Suc_conv_app_nth)
qed

text \<open>
  \<open>keeps d s0 \<pi> r\<close>: if \<open>r\<close> is a result, the state \<open>\<pi>\<close> finds in it is forward of \<open>s0\<close>.
\<close>

definition keeps :: "nat \<Rightarrow> dis \<Rightarrow> ('a \<Rightarrow> dis) \<Rightarrow> 'a option \<Rightarrow> bool" where
  "keeps d s0 \<pi> r \<longleftrightarrow> (\<forall>x. r = Some x \<longrightarrow> forward d s0 (\<pi> x))"

named_theorems keeps_intros "operations that move forward"

lemma keepsD: "keeps d s0 \<pi> (Some x) \<Longrightarrow> forward d s0 (\<pi> x)"
  by (simp add: keeps_def)

lemma keeps_bind [keeps_intros]:
  "keeps d s0 \<pi> m \<Longrightarrow> (\<And>x. forward d s0 (\<pi> x) \<Longrightarrow> keeps d s0 \<pi>' (f x)) \<Longrightarrow> keeps d s0 \<pi>' (Option.bind m f)"
  by (auto simp: keeps_def bind_eq_Some_conv)

lemma keeps_if [keeps_intros]:
  "(b \<Longrightarrow> keeps d s0 \<pi> m) \<Longrightarrow> (\<not> b \<Longrightarrow> keeps d s0 \<pi> m') \<Longrightarrow> keeps d s0 \<pi> (if b then m else m')"
  by simp

lemma keeps_pair [keeps_intros]:
  "(\<And>x y. p = (x, y) \<Longrightarrow> keeps d s0 \<pi> (f x y)) \<Longrightarrow> keeps d s0 \<pi> (case p of (x, y) \<Rightarrow> f x y)"
  by (cases p) simp

lemma keeps_results [keeps_intros]:
  "keeps d s0 \<pi> None"
  "forward d s0 s \<Longrightarrow> keeps d s0 (\<lambda>s. s) (Some s)"
  "forward d s0 s \<Longrightarrow> keeps d s0 snd (Some (a, s))"
  "forward d s0 s \<Longrightarrow> keeps d s0 (\<lambda>x. snd (snd x)) (Some (a, b, s))"
  by (simp_all add: keeps_def)

lemma fetch8_forward: "fetch8 st s = Some x \<Longrightarrow> forward d s (snd x)"
  by (auto simp: fetch8_def forward_def split: list.splits)

lemma fetchBE_forward: "fetchBE n st s = Some x \<Longrightarrow> forward d s (snd x)"
  by (auto simp: fetchBE_def forward_def split: if_splits)

lemma append_out_forward: "append_out d bs s = Some s' \<Longrightarrow> forward d s s'"
  by (auto simp: append_out_def forward_def split: if_splits)

lemma fetch_append_keeps [keeps_intros]:
  assumes "forward d s0 s"
  shows "keeps d s0 snd (fetch8 st s)" "keeps d s0 snd (fetchBE n st s)"
    "keeps d s0 (\<lambda>s. s) (append_out d bs s)"
  using forward_trans [OF assms] unfolding keeps_def
  by (blast intro: fetch8_forward fetchBE_forward append_out_forward)+

lemma forward_updates [keeps_intros]:
  "forward d s0 s \<Longrightarrow> length t = length (funcTable s) \<Longrightarrow> forward d s0 (s\<lparr>funcTable := t\<rparr>)"
  "forward d s0 s \<Longrightarrow> forward d s0 (s\<lparr>nextIsFunc := b\<rparr>)"
  by (auto simp: forward_def)

lemma forward_if [keeps_intros]:
  "(b \<Longrightarrow> forward d s0 s) \<Longrightarrow> (\<not> b \<Longrightarrow> forward d s0 t) \<Longrightarrow> forward d s0 (if b then s else t)"
  by simp

lemma copy_keeps [keeps_intros]:
  assumes "forward d s0 s"
  shows "keeps d s0 (\<lambda>s. s) (copy8 d st s)" "keeps d s0 (\<lambda>s. s) (copy16 d st s)"
    "keeps d s0 (\<lambda>s. s) (copy32 d st s)"
  unfolding copy8_def copy16_def copy32_def
  by (rule keeps_intros assms | simp)+

lemma fetch_target_keeps [keeps_intros]: "forward d s0 s \<Longrightarrow> keeps d s0 snd (fetch_target s)"
  unfolding fetch_target_def Let_def by (rule keeps_intros | simp)+

lemma jump_table_keeps [keeps_intros]: "forward d s0 s \<Longrightarrow> keeps d s0 (\<lambda>s. s) (jump_table d n s)"
  by (induction n arbitrary: s) (simp, (rule keeps_intros | simp)+)

lemma modrm_operand_keeps [keeps_intros]:
  "forward d s0 s \<Longrightarrow> keeps d s0 snd (modrm_operand d code flags s)"
  unfolding modrm_operand_def Let_def by (rule keeps_intros | simp)+

lemma operand_keeps [keeps_intros]:
  assumes "forward d s0 s"
  shows "keeps d s0 (\<lambda>s. s) (address_operand d start memory code flags s)"
    "keeps d s0 (\<lambda>s. s) (immediate_operand d o16 flags s)"
  unfolding address_operand_def immediate_operand_def
  by (rule keeps_intros assms | simp)+

lemma instruction_keeps [keeps_intros]:
  "forward d s0 s \<Longrightarrow> keeps d s0 (\<lambda>s. s) (instruction d start memory code s)"
  unfolding instruction_def Let_def by (rule keeps_intros | simp)+

lemma unfilter_step_forward:
  assumes "unfilter_step d memStart s = Some s'"
  shows "forward d s s'" and "length (streams s' stOp) < length (streams s stOp)"
proof -
  from assms obtain code s1 where f: "fetch8 stOp s = Some (code, s1)"
    by (auto simp: unfilter_step_def Let_def bind_eq_Some_conv)
  then have lt: "length (streams s1 stOp) < length (streams s stOp)"
    by (auto simp: fetch8_def split: list.splits)
  have keeps: "keeps d s0 (\<lambda>s. s) (unfilter_step d memStart s)" if "forward d s0 s" for s0 s
    unfolding unfilter_step_def Let_def by (rule keeps_intros that | simp)+
  from keeps [of s s] assms show "forward d s s'" by (auto dest: keepsD)
  have "keeps d s1 (\<lambda>s. s) (unfilter_step d memStart s)"
    unfolding unfilter_step_def Let_def f
    by (simp only: bind.simps prod.case) (rule keeps_intros | simp)+
  with assms have "forward d s1 s'" by (auto dest: keepsD)
  with lt show "length (streams s' stOp) < length (streams s stOp)"
    unfolding forward_def by (meson le_less_trans)
qed

section \<open>The loop\<close>

function unfilter_loop :: "nat \<Rightarrow> u32 \<Rightarrow> dis \<Rightarrow> dis option" where
  "unfilter_loop destEnd memStart s =
     (if streams s stOp = [] then Some s
      else case unfilter_step destEnd memStart s of
          None \<Rightarrow> None
        | Some s' \<Rightarrow> unfilter_loop destEnd memStart s')"
  by pat_completeness auto
termination
  by (relation "measure (\<lambda>(d, m, s). length (streams s stOp))") (auto dest: unfilter_step_forward)

declare unfilter_loop.simps [simp del]

text \<open>The streams behind the header of sizes; they fill the rest of the input.\<close>

fun split_streams :: "nat list \<Rightarrow> bytes \<Rightarrow> bytes list option" where
  "split_streams [] rest = (if rest = [] then Some [] else None)"
| "split_streams (sz # szs) rest =
     (if length rest < sz then None
      else map_option (\<lambda>ss. take sz rest # ss) (split_streams szs (drop sz rest)))"

definition unfilter :: "bytes \<Rightarrow> nat \<Rightarrow> u32 \<Rightarrow> bytes option" where
  "unfilter src destEnd memStart =
     (if length src < stMax * 4 then None
      else case split_streams (map unat (words32 stMax src)) (drop (stMax * 4) src) of
          None \<Rightarrow> None
        | Some ss \<Rightarrow>
            (case unfilter_loop destEnd memStart
                \<lparr>streams = (\<lambda>i. if i < length ss then ss ! i else []), dis_out = [],
                 funcTable = replicate 256 0, nextIsFunc = True\<rparr> of
               None \<Rightarrow> None
             | Some s \<Rightarrow> if length (dis_out s) = destEnd then Some (dis_out s) else None))"


text \<open>
  Whatever the streams hold, the loop returns, with an output inside the destination and a
  table of as many entries as before.
\<close>

lemma unfilter_loop_forward:
  "unfilter_loop d m s = Some s' \<Longrightarrow> forward d s s' \<and> streams s' stOp = []"
proof (induction d m s rule: unfilter_loop.induct)
  case (1 d m s)
  show ?case
  proof (cases "streams s stOp = []")
    case True
    with 1 show ?thesis by (simp add: unfilter_loop.simps [of d m s])
  next
    case False
    with 1 obtain t where t: "unfilter_step d m s = Some t" "unfilter_loop d m t = Some s'"
      by (auto simp: unfilter_loop.simps [of d m s] split: option.splits)
    with 1 False have "forward d t s' \<and> streams s' stOp = []" by auto
    with unfilter_step_forward(1) [OF t(1)] show ?thesis by (auto intro: forward_trans)
  qed
qed

section \<open>The format: code with absolute targets\<close>

text \<open>
  An encoder for the streams, as the specification the unfilter is proved against: single
  bytes go through the escape, calls store their absolute target, jump tables are stored
  apart, and a target is found in the table of recent ones or stored in full.
\<close>

datatype item = Literal byte | CallTo u32 | Table "u32 list"

fun targets :: "item \<Rightarrow> u32 list" where
  "targets (Literal b) = []"
| "targets (CallTo t) = [t]"
| "targets (Table ts) = ts"

fun item_ok :: "item \<Rightarrow> bool" where
  "item_ok (Table ts) \<longleftrightarrow> 0 < length ts \<and> length ts \<le> 256"
| "item_ok _ \<longleftrightarrow> True"

text \<open>The machine code an item stands for when it is loaded at \<open>memory\<close>.\<close>

fun plain_item :: "u32 \<Rightarrow> item \<Rightarrow> bytes" where
  "plain_item memory (Literal b) = [b]"
| "plain_item memory (CallTo t) = opCallN # put_le 4 (t - (memory + 5))"
| "plain_item memory (Table ts) = concat (map (put_le 4) ts)"

fun plain_items :: "u32 \<Rightarrow> nat \<Rightarrow> item list \<Rightarrow> bytes" where
  "plain_items memStart pos [] = []"
| "plain_items memStart pos (it # its) =
     (let w = plain_item (memStart + word_of_nat pos) it
      in w @ plain_items memStart (pos + length w) its)"

fun item_ops :: "item \<Rightarrow> bytes" where
  "item_ops (Literal b) = [escape, b]"
| "item_ops (CallTo t) = [opCallN]"
| "item_ops (Table ts) = [jumpTab, word_of_nat (length ts - 1)]"

definition enc_target :: "u32 list \<Rightarrow> u32 \<Rightarrow> bytes \<times> bytes \<times> u32 list" where
  "enc_target tab t =
     (case List.find (\<lambda>i. tab ! i = t) [0..<255] of
        Some i \<Rightarrow> ([word_of_nat (i + 1)], [], moveToFront tab i t)
      | None \<Rightarrow> ([0], rev (put_le 4 t), addMTF tab t))"

fun enc_targets :: "u32 list \<Rightarrow> u32 list \<Rightarrow> bytes \<times> bytes \<times> u32 list" where
  "enc_targets tab [] = ([], [], tab)"
| "enc_targets tab (t # ts) =
     (let (i, c, tab) = enc_target tab t; (is, cs, tab) = enc_targets tab ts
      in (i @ is, c @ cs, tab))"

fun is_table :: "item \<Rightarrow> bool" where
  "is_table (Table ts) = True"
| "is_table _ = False"

fun enc_items :: "u32 \<Rightarrow> nat \<Rightarrow> u32 list \<Rightarrow> bool \<Rightarrow> item list \<Rightarrow> bytes \<times> bytes \<times> bytes" where
  "enc_items memStart pos tab fresh [] = ([], [], [])"
| "enc_items memStart pos tab fresh (it # its) =
     (let memory = memStart + word_of_nat pos;
          tab = (if fresh \<and> \<not> is_table it then addMTF tab memory else tab);
          (is, cs, tab) = enc_targets tab (targets it);
          (ops, iss, css) = enc_items memStart (pos + length (plain_item memory it)) tab (fresh \<and> is_table it) its
      in (item_ops it @ ops, is @ iss, cs @ css))"

definition enc_exe :: "u32 \<Rightarrow> item list \<Rightarrow> bytes" where
  "enc_exe memStart items =
     (let (ops, is, cs) = enc_items memStart 0 (replicate 256 0) True items;
          ss = (replicate stMax [])[stOp := ops, stCallIdx := is, stCall32 := cs]
      in concat (map (put_le 4 \<circ> (\<lambda>s. word_of_nat (length s) :: u32)) ss) @ concat ss)"

text \<open>The states the unfilter goes through on such streams.\<close>

definition coded :: "bytes \<Rightarrow> bytes \<Rightarrow> bytes \<Rightarrow> bytes \<Rightarrow> u32 list \<Rightarrow> bool \<Rightarrow> dis" where
  "coded ops is cs o' tab fresh =
     \<lparr>streams = (\<lambda>i. if i = stOp then ops else if i = stCallIdx then is else if i = stCall32 then cs else []),
      dis_out = o', funcTable = tab, nextIsFunc = fresh\<rparr>"

lemma coded_fetch [simp]:
  "fetch8 stOp (coded (v # ops) is cs o' tab fresh) = Some (v, coded ops is cs o' tab fresh)"
  "fetch8 stCallIdx (coded ops (v # is) cs o' tab fresh) = Some (v, coded ops is cs o' tab fresh)"
  by (auto simp: fetch8_def coded_def)

lemma be_word_rev_put [simp]: "be_word (rev (put_le 4 t)) = (t :: u32)"
  by (simp add: be_word_def)

lemma coded_fetch32 [simp]:
  "fetch32B stCall32 (coded ops is (rev (put_le 4 t) @ cs) o' tab fresh) = Some (t, coded ops is cs o' tab fresh)"
  by (auto simp: fetchBE_def coded_def fun_eq_iff)

lemma coded_append [simp]:
  "length o' + length w \<le> d \<Longrightarrow>
    append_out d w (coded ops is cs o' tab fresh) = Some (coded ops is cs (o' @ w) tab fresh)"
  by (simp add: append_out_def coded_def)

lemma coded_fields [simp]:
  "dis_out (coded ops is cs o' tab fresh) = o'"
  "funcTable (coded ops is cs o' tab fresh) = tab"
  "nextIsFunc (coded ops is cs o' tab fresh) = fresh"
  "streams (coded ops is cs o' tab fresh) stOp = ops"
  "(coded ops is cs o' tab fresh)\<lparr>funcTable := tab'\<rparr> = coded ops is cs o' tab' fresh"
  "(coded ops is cs o' tab fresh)\<lparr>nextIsFunc := fresh'\<rparr> = coded ops is cs o' tab fresh'"
  by (simp_all add: coded_def)

lemma coded_target:
  assumes "enc_target tab t = (i, c, tab')"
  shows "fetch_target (coded ops (i @ is) (c @ cs) o' tab fresh) = Some (t, coded ops is cs o' tab' fresh)"
proof (cases "List.find (\<lambda>i. tab ! i = t) [0..<255]")
  case None
  with assms show ?thesis by (auto simp: enc_target_def fetch_target_def)
next
  case (Some k)
  then have k: "k < 255" "tab ! k = t" by (auto simp: find_Some_iff)
  then have u: "unat (word_of_nat (k + 1) :: byte) = k + 1"
    by (intro unat_of_nat_small) simp
  then have "word_of_nat (k + 1) \<noteq> (0 :: byte)" by (metis add_is_0 one_neq_zero unat_0)
  with assms Some k u show ?thesis
    by (auto simp: enc_target_def fetch_target_def Let_def simp del: of_nat_add of_nat_Suc)
qed

lemma coded_jump_table:
  assumes "enc_targets tab ts = (i, c, tab')" "length o' + 4 * length ts \<le> d"
  shows "jump_table d (length ts) (coded ops (i @ is) (c @ cs) o' tab fresh)
    = Some (coded ops is cs (o' @ concat (map (put_le 4) ts)) tab' fresh)"
  using assms
proof (induction ts arbitrary: i c tab o')
  case Nil
  then show ?case by simp
next
  case (Cons t ts)
  obtain i1 c1 tab1 where t: "enc_target tab t = (i1, c1, tab1)" by (cases "enc_target tab t")
  obtain i2 c2 tab2 where ts: "enc_targets tab1 ts = (i2, c2, tab2)" by (cases "enc_targets tab1 ts")
  from t ts Cons.prems have "i = i1 @ i2" "c = c1 @ c2" "tab' = tab2" by auto
  with Cons.IH [of tab1 i2 c2 "o' @ put_le 4 t"] ts Cons.prems coded_target [OF t, of ops "i2 @ is" "c2 @ cs" o' fresh]
  show ?case by simp
qed

lemma code_call: "table1 ! 232 = fAM OR fDR"
  by code_simp


definition fresh_table :: "u32 \<Rightarrow> u32 list \<Rightarrow> bool \<Rightarrow> u32 list" where
  "fresh_table memory tab fresh = (if fresh then addMTF tab memory else tab)"

lemma coded_fresh:
  "(if nextIsFunc (coded ops is cs o' tab fresh) \<and> code \<noteq> opInt3
    then (coded ops is cs o' tab fresh)\<lparr>funcTable := addMTF (funcTable (coded ops is cs o' tab fresh)) memory,
      nextIsFunc := False\<rparr> else coded ops is cs o' tab fresh)
   = (if code \<noteq> opInt3 then coded ops is cs o' (fresh_table memory tab fresh) False
      else coded ops is cs o' tab fresh)"
  by (simp add: coded_def fresh_table_def)

lemma step_literal:
  assumes "length o' < d"
  shows "unfilter_step d m (coded (escape # b # ops) is cs o' tab fresh)
    = Some (coded ops is cs (o' @ [b]) (fresh_table (m + word_of_nat (length o')) tab fresh) False)"
  using assms by (simp add: unfilter_step_def Let_def coded_fresh fresh_table_def)

lemma step_call:
  assumes "length o' + 5 \<le> d"
    "enc_target (fresh_table (m + word_of_nat (length o')) tab fresh) t = (i, c, tab')"
  shows "unfilter_step d m (coded (opCallN # ops) (i @ is) (c @ cs) o' tab fresh)
    = Some (coded ops is cs (o' @ plain_item (m + word_of_nat (length o')) (CallTo t)) tab' False)"
proof -
  let ?tab = "fresh_table (m + word_of_nat (length o')) tab fresh"
  let ?w = "put_le 4 (t - (m + word_of_nat (length o') + 5))"
  have eq: "t - (5 + x) = t - (x + 5)" for x by (simp only: add.commute)
  have "instruction d (length o') (m + word_of_nat (length o')) opCallN
      (coded ops (i @ is) (c @ cs) (o' @ [opCallN]) ?tab False)
      = Some (coded ops is cs ((o' @ [opCallN]) @ ?w) tab' False)"
    using assms(1)
    by (simp add: instruction_def address_operand_def code_call Let_def coded_target [OF assms(2)] eq)
  then show ?thesis using assms(1)
    by (cases fresh) (simp_all add: unfilter_step_def Let_def coded_fresh fresh_table_def)
qed

lemma step_table:
  assumes "item_ok (Table ts)" "length o' + 4 * length ts \<le> d" "enc_targets tab ts = (i, c, tab')"
  shows "unfilter_step d m (coded (item_ops (Table ts) @ ops) (i @ is) (c @ cs) o' tab fresh)
    = Some (coded ops is cs (o' @ concat (map (put_le 4) ts)) tab' fresh)"
proof -
  have "unat (word_of_nat (length ts - 1) :: byte) = length ts - 1"
    using assms(1) by (intro unat_of_nat_small) auto
  then have "unat (word_of_nat (length ts - 1) :: byte) + 1 = length ts"
    using assms(1) by simp
  then show ?thesis
    using coded_jump_table [OF assms(3,2), of ops "is" cs fresh]
    by (simp add: unfilter_step_def Let_def del: of_nat_diff)
qed

lemma length_table: "length (concat (map (put_le 4) ts)) = 4 * length ts"
  by (induction ts) auto

text \<open>One item, then all of them.\<close>

lemma step_item:
  assumes "item_ok it" "memory = m + word_of_nat (length o')" "length o' + length (plain_item memory it) \<le> d"
    "enc_targets (if fresh \<and> \<not> is_table it then addMTF tab memory else tab) (targets it) = (i, c, tab')"
  shows "unfilter_step d m (coded (item_ops it @ ops) (i @ is) (c @ cs) o' tab fresh)
    = Some (coded ops is cs (o' @ plain_item memory it) tab' (fresh \<and> is_table it))"
proof (cases it)
  case (Literal b)
  with assms show ?thesis using step_literal [of o' d m b ops "is" cs tab fresh]
    by (auto simp: fresh_table_def)
next
  case (CallTo t)
  with assms have "enc_target (fresh_table memory tab fresh) t = (i, c, tab')"
    by (auto simp: fresh_table_def split: prod.splits)
  with CallTo assms step_call [of o' d m tab fresh t i c tab' ops "is" cs] show ?thesis by simp
next
  case (Table ts)
  with assms step_table [of ts o' d tab i c tab' m ops "is" cs fresh] show ?thesis
    by (simp add: length_table del: item_ops.simps)
qed

lemma item_ops_nonempty: "item_ops it \<noteq> []"
  by (cases it) auto

lemma unfilter_loop_items:
  assumes "list_all item_ok items" "enc_items m (length o') tab fresh items = (ops, is, cs)"
    "length o' + length (plain_items m (length o') items) \<le> d"
  shows "\<exists>tab' fresh'. unfilter_loop d m (coded ops is cs o' tab fresh)
    = Some (coded [] [] [] (o' @ plain_items m (length o') items) tab' fresh')"
  using assms
proof (induction items arbitrary: o' tab fresh ops "is" cs)
  case Nil
  then show ?case by (auto simp: unfilter_loop.simps)
next
  case (Cons it its)
  let ?mem = "m + word_of_nat (length o')"
  let ?o = "o' @ plain_item ?mem it"
  obtain i c tab1 where t:
    "enc_targets (if fresh \<and> \<not> is_table it then addMTF tab ?mem else tab) (targets it) = (i, c, tab1)"
    by (cases "enc_targets (if fresh \<and> \<not> is_table it then addMTF tab ?mem else tab) (targets it)")
  obtain ops2 is2 cs2 where rest: "enc_items m (length ?o) tab1 (fresh \<and> is_table it) its = (ops2, is2, cs2)"
    by (cases "enc_items m (length ?o) tab1 (fresh \<and> is_table it) its")
  from Cons.prems(2) t rest have eq: "ops = item_ops it @ ops2" "is = i @ is2" "cs = c @ cs2"
    by (simp_all add: Let_def)
  have split: "plain_items m (length o') (it # its) = plain_item ?mem it @ plain_items m (length ?o) its"
    by (simp add: Let_def)
  have step: "unfilter_step d m (coded ops is cs o' tab fresh) = Some (coded ops2 is2 cs2 ?o tab1 (fresh \<and> is_table it))"
    unfolding eq by (rule step_item) (use Cons.prems t split in auto)
  have "unfilter_loop d m (coded ops is cs o' tab fresh)
      = unfilter_loop d m (coded ops2 is2 cs2 ?o tab1 (fresh \<and> is_table it))"
    using step by (subst unfilter_loop.simps) (simp add: eq item_ops_nonempty)
  moreover have "\<exists>tab' fresh'. unfilter_loop d m (coded ops2 is2 cs2 ?o tab1 (fresh \<and> is_table it))
      = Some (coded [] [] [] (?o @ plain_items m (length ?o) its) tab' fresh')"
    by (rule Cons.IH [OF _ rest]) (use Cons.prems split in auto)
  ultimately show ?case unfolding split by simp
qed

lemma split_streams_concat: "split_streams (map length ss) (concat ss) = Some ss"
  by (induction ss) auto

lemma unfilter_enc_exe:
  assumes "list_all item_ok items" "length (enc_exe memStart items) < 2 ^ 32"
  shows "unfilter (enc_exe memStart items) (length (plain_items memStart 0 items)) memStart
    = Some (plain_items memStart 0 items)"
proof -
  obtain ops ii cs where e: "enc_items memStart 0 (replicate 256 0) True items = (ops, ii, cs)"
    by (cases "enc_items memStart 0 (replicate 256 0) True items")
  define ss where "ss = (replicate stMax [])[stOp := ops, stCallIdx := ii, stCall32 := cs]"
  define ws where "ws = map (\<lambda>s. word_of_nat (length s) :: u32) ss"
  have enc: "enc_exe memStart items = concat (map (put_le 4) ws) @ concat ss"
    by (simp only: enc_exe_def e Let_def prod.case ss_def ws_def map_map)
  have l: "length ss = stMax" "length ws = stMax" by (simp_all add: ss_def ws_def)
  have "length s \<le> length (concat ss)" if "s \<in> set ss" for s
    using that by (induction ss) auto
  moreover have "length (concat ss) < 2 ^ 32" using assms(2) unfolding enc by (simp only: length_append)
  ultimately have "length s < 2 ^ 32" if "s \<in> set ss" for s
    using that by (meson le_less_trans)
  then have sizes: "map unat ws = map length ss"
    unfolding ws_def by (auto intro!: unat_of_nat_small)
  have w: "words32 stMax (enc_exe memStart items) = ws"
    unfolding enc l(2) [symmetric] by (rule words32_concat)
  have "length (concat (map (put_le 4) ws)) = stMax * 4"
    using l(2) by (simp add: length_concat_put_le)
  then have d: "drop (stMax * 4) (enc_exe memStart items) = concat ss"
    and long: "\<not> length (enc_exe memStart items) < stMax * 4" by (simp_all add: enc)
  have init: "\<lparr>streams = (\<lambda>i. if i < length ss then ss ! i else []), dis_out = [],
      funcTable = replicate 256 0, nextIsFunc = True\<rparr> = coded ops ii cs [] (replicate 256 0) True"
    by (auto simp: coded_def fun_eq_iff ss_def nth_list_update less_Suc_eq numeral_eq_Suc)
  obtain tab fresh where "unfilter_loop (length (plain_items memStart 0 items)) memStart
      (coded ops ii cs [] (replicate 256 0) True) = Some (coded [] [] [] (plain_items memStart 0 items) tab fresh)"
    using unfilter_loop_items [of items memStart "[]"] assms(1) e by fastforce
  then show ?thesis
    unfolding unfilter_def w sizes d split_streams_concat option.case init if_not_P [OF long] by simp
qed


section \<open>The reader\<close>

datatype dispack_error =
    ChunkErr io_error | BadChunk u32 | TagErr io_error | BadTag u32
  | DataLenErr io_error | DataLen u32 | ChunkDataErr io_error
  | ExeOutErr io_error | ExeInErr io_error | ExeErr io_error | ExeSize | BadFilter

abbreviation tagData :: u32 where "tagData \<equiv> 0xC71B3AE1"
abbreviation tagEXE :: u32 where "tagEXE \<equiv> 0xC71B3AE2"
abbreviation defaultBlk :: u32 where "defaultBlk \<equiv> 0x800000"
abbreviation inSlack :: u32 where "inSlack \<equiv> 0x200400"
abbreviation baseStart :: u32 where "baseStart \<equiv> 0x40000000"
abbreviation baseWrap :: u32 where "baseWrap \<equiv> 0xC0000000"
abbreviation baseSub :: u32 where "baseSub \<equiv> 0x80000000"

record dispack =
  dp_src :: bytes
  dp_chunk :: u32
  dp_base :: u32

definition isTag :: "u32 \<Rightarrow> bool" where
  "isTag x = (x XOR tagData < 0x10)"

text \<open>\<open>NewReader\<close> with \<open>readChunk\<close>; an empty stream is the end at once.\<close>

definition newDispack :: "bytes \<Rightarrow> dispack_error fault + (dispack \<times> dispack_error fault chunkbuf)" where
  "newDispack src =
     (if src = [] then Inr (\<lparr>dp_src = [], dp_chunk = 0, dp_base = baseStart\<rparr>, newChunkbuf\<lparr>cb_eof := True\<rparr>)
      else bindE (mapErr (\<lambda>e. Error (ChunkErr e)) (readFullU32 src)) (\<lambda>(chunk, src).
        if chunk = 0 \<or> defaultBlk < chunk then Inl (Error (BadChunk chunk))
        else Inr (\<lparr>dp_src = src, dp_chunk = chunk, dp_base = baseStart\<rparr>, newChunkbuf)))"

definition rebase :: "u32 \<Rightarrow> u32" where
  "rebase base = (if baseWrap \<le> base then base - baseSub else base)"

text \<open>
  A chunk of plain data: with the data tag its length follows; any other word that is no tag
  is itself the first four bytes of a full chunk, and a chunk shorter than four bytes has no
  room for them, so \<open>PutUint32\<close> panics.
\<close>

definition data_chunk :: "u32 \<Rightarrow> u32 \<Rightarrow> bytes \<Rightarrow> dispack_error fault + (bytes \<times> bytes)" where
  "data_chunk chunk tag src =
     (if tag = tagData then
        bindE (mapErr (\<lambda>e. Error (DataLenErr e)) (readFullU32 src)) (\<lambda>(n, src).
          if chunk < n then Inl (Error (DataLen n))
          else mapErr (\<lambda>e. Error (ChunkDataErr e)) (readFull (unat n) src))
      else if unat chunk < 4 then Inl Panic
      else bindE (mapErr (\<lambda>e. Error (ChunkDataErr e)) (readFull (unat chunk - 4) src)) (\<lambda>(rest, src).
        Inr (put_le 4 tag @ rest, src)))"

text \<open>A chunk of code.\<close>

definition exe_chunk :: "u32 \<Rightarrow> bytes \<Rightarrow> dispack_error fault + (bytes \<times> bytes)" where
  "exe_chunk base src =
     bindE (mapErr (\<lambda>e. Error (ExeOutErr e)) (readFullU32 src)) (\<lambda>(outSize, src).
     bindE (mapErr (\<lambda>e. Error (ExeInErr e)) (readFullU32 src)) (\<lambda>(inSize, src).
     if defaultBlk < outSize \<or> defaultBlk + inSlack < inSize then Inl (Error ExeSize)
     else bindE (mapErr (\<lambda>e. Error (ExeErr e)) (readFull (unat inSize) src)) (\<lambda>(inp, src).
       case unfilter inp (unat outSize) base of
         None \<Rightarrow> Inl (Error BadFilter)
       | Some w \<Rightarrow> Inr (w, src))))"

definition dispack_chunk :: "dispack \<Rightarrow> dispack_error fault + (bytes \<times> dispack)" where
  "dispack_chunk r =
     bindE (mapErr (\<lambda>e. Error (TagErr e)) (readFullU32 (dp_src r))) (\<lambda>(tag, src).
     bindE (if \<not> isTag tag \<or> tag = tagData then data_chunk (dp_chunk r) tag src
            else if tag = tagEXE then exe_chunk (dp_base r) src
            else Inl (Error (BadTag tag))) (\<lambda>(w, src).
     Inr (w, r\<lparr>dp_src := src, dp_base := rebase (dp_base r + word_of_nat (length w))\<rparr>)))"

definition dispack_next :: "dispack \<Rightarrow> dispack_error fault pulled \<times> dispack" where
  "dispack_next r =
     (if dp_src r = [] then (End, r)
      else case dispack_chunk r of
          Inl e \<Rightarrow> (Fail e, r)
        | Inr (w, r') \<Rightarrow> (Block w, r'))"

definition dispackReader :: "nat \<Rightarrow> dispack_error fault chunkbuf \<Rightarrow> dispack \<Rightarrow>
    (bytes \<times> dispack_error fault read_error option \<times> dispack_error fault chunkbuf \<times> dispack) option" where
  "dispackReader = readChunkbuf dispack_next"

lemma data_chunk_src: "data_chunk c t src = Inr (w, src') \<Longrightarrow> length src' \<le> length src"
  by (auto simp: data_chunk_def res_simps split: prod.splits if_splits)

lemma exe_chunk_src: "exe_chunk b src = Inr (w, src') \<Longrightarrow> length src' \<le> length src"
  by (auto simp: exe_chunk_def res_simps split: prod.splits if_splits option.splits)

lemma dispack_chunk_cases:
  assumes "dispack_chunk r = Inr (w, r')"
  obtains tag src src' where "readFullU32 (dp_src r) = Inr (tag, src)"
    "\<not> isTag tag \<or> tag = tagData \<Longrightarrow> data_chunk (dp_chunk r) tag src = Inr (w, src')"
    "\<not> (\<not> isTag tag \<or> tag = tagData) \<Longrightarrow> exe_chunk (dp_base r) src = Inr (w, src') \<and> tag = tagEXE"
    "r' = r\<lparr>dp_src := src', dp_base := rebase (dp_base r + word_of_nat (length w))\<rparr>"
proof -
  from assms obtain tag src src' where h: "readFullU32 (dp_src r) = Inr (tag, src)"
      "(if \<not> isTag tag \<or> tag = tagData then data_chunk (dp_chunk r) tag src
        else if tag = tagEXE then exe_chunk (dp_base r) src else Inl (Error (BadTag tag))) = Inr (w, src')"
      "r' = r\<lparr>dp_src := src', dp_base := rebase (dp_base r + word_of_nat (length w))\<rparr>"
    by (fastforce simp: dispack_chunk_def bindE_eq_Inr mapErr_eq_Inr)
  show ?thesis
    by (rule that [of tag src src']) (use h in \<open>auto split: if_splits\<close>)
qed

interpretation dispack: block_source dispack_next "\<lambda>r. length (dp_src r)"
proof unfold_locales
  fix s b s'
  assume "dispack_next s = (Block b, s')"
  then have "dispack_chunk s = Inr (b, s')"
    by (auto simp: dispack_next_def split: if_splits sum.splits)
  then show "length (dp_src s') < length (dp_src s)"
  proof (rule dispack_chunk_cases)
    fix tag src src'
    assume t: "readFullU32 (dp_src s) = Inr (tag, src)"
      "\<not> isTag tag \<or> tag = tagData \<Longrightarrow> data_chunk (dp_chunk s) tag src = Inr (b, src')"
      "\<not> (\<not> isTag tag \<or> tag = tagData) \<Longrightarrow> exe_chunk (dp_base s) src = Inr (b, src') \<and> tag = tagEXE"
      "s' = s\<lparr>dp_src := src', dp_base := rebase (dp_base s + word_of_nat (length b))\<rparr>"
    have "length src' \<le> length src" using t(2,3) data_chunk_src exe_chunk_src by blast
    moreover have "length src < length (dp_src s)" using t(1) by (auto simp: readFullU32_Inr)
    ultimately show ?thesis by (simp add: t(4))
  qed
qed

section \<open>The base address stays in its window\<close>

definition base_ok :: "dispack \<Rightarrow> bool" where
  "base_ok r \<longleftrightarrow> baseStart \<le> dp_base r \<and> dp_base r < baseWrap \<and> dp_chunk r \<le> defaultBlk"

lemma rebase_window:
  assumes "baseStart \<le> b" "b < baseWrap" "n \<le> 0x800000"
  shows "baseStart \<le> rebase (b + word_of_nat n)" "rebase (b + word_of_nat n) < baseWrap"
proof -
  have n: "unat (word_of_nat n :: u32) = n" using assms(3) by (intro unat_of_nat_small) simp
  have b: "0x40000000 \<le> unat b" "unat b < 0xC0000000"
    using assms(1,2) by (simp_all add: word_le_nat_alt word_less_nat_alt)
  have s: "unat (b + word_of_nat n) = unat b + n"
    using b(2) assms(3) n by (subst unat_add_lem [THEN iffD1]) simp_all
  have "baseStart \<le> rebase (b + word_of_nat n) \<and> rebase (b + word_of_nat n) < baseWrap"
  proof (cases "baseWrap \<le> b + word_of_nat n")
    case False
    then show ?thesis using b s by (simp add: rebase_def word_le_nat_alt word_less_nat_alt)
  next
    case True
    then have "0xC0000000 \<le> unat b + n" using s by (simp add: word_le_nat_alt)
    moreover have "unat (b + word_of_nat n - baseSub) = unat b + n - 0x80000000"
      using calculation s by (subst unat_sub) (simp_all add: word_le_nat_alt)
    moreover have "1073741824 \<le> unat b + n - 0x80000000" "unat b + n - 0x80000000 < 3221225472"
      using calculation(1) b assms(3) by linarith+
    ultimately show ?thesis using True by (simp add: rebase_def word_le_nat_alt word_less_nat_alt)
  qed
  then show "baseStart \<le> rebase (b + word_of_nat n)" "rebase (b + word_of_nat n) < baseWrap" by auto
qed

lemma unfilter_length: "unfilter src d m = Some w \<Longrightarrow> length w = d"
  by (auto simp: unfilter_def split: if_splits option.splits)

lemma chunk_bound:
  "data_chunk c t src = Inr (w, src') \<Longrightarrow> c \<le> defaultBlk \<Longrightarrow> length w \<le> 0x800000"
  "exe_chunk b src = Inr (w, src') \<Longrightarrow> length w \<le> 0x800000"
proof -
  assume c: "c \<le> defaultBlk"
  then have "unat c \<le> 0x800000" by (simp add: word_le_nat_alt)
  moreover assume d: "data_chunk c t src = Inr (w, src')"
  have "length w \<le> unat c"
  proof (cases "t = tagData")
    case True
    with d show ?thesis
      by (auto simp: data_chunk_def bindE_eq_Inr mapErr_eq_Inr readFull_Inr word_less_nat_alt split: if_splits)
  next
    case False
    with d show ?thesis
      by (auto simp: data_chunk_def bindE_eq_Inr mapErr_eq_Inr readFull_Inr split: if_splits)
  qed
  ultimately show "length w \<le> 0x800000" by simp
next
  assume "exe_chunk b src = Inr (w, src')"
  then obtain n where "\<not> defaultBlk < n" "length w = unat n"
    by (auto simp: exe_chunk_def bindE_eq_Inr mapErr_eq_Inr option_case_eq_Inr if_Inl_eq_Inr dest: unfilter_length)
  then show "length w \<le> 0x800000" by (simp add: word_less_nat_alt)
qed

text \<open>
  The base address every code chunk is decoded against stays in [1 GiB, 3 GiB), so adding a
  chunk's size to it never wraps, for every stream and as long as it is read.
\<close>

theorem dispack_base_window:
  assumes "base_ok r" "dispack_next r = (p, r')"
  shows "base_ok r'"
proof (cases p)
  case (Block w)
  with assms(2) have "dispack_chunk r = Inr (w, r')"
    by (auto simp: dispack_next_def split: if_splits sum.splits)
  then show ?thesis
  proof (rule dispack_chunk_cases)
    fix tag src src'
    assume *: "\<not> isTag tag \<or> tag = tagData \<Longrightarrow> data_chunk (dp_chunk r) tag src = Inr (w, src')"
      "\<not> (\<not> isTag tag \<or> tag = tagData) \<Longrightarrow> exe_chunk (dp_base r) src = Inr (w, src') \<and> tag = tagEXE"
      "r' = r\<lparr>dp_src := src', dp_base := rebase (dp_base r + word_of_nat (length w))\<rparr>"
    have "length w \<le> 0x800000"
      using chunk_bound(1) [OF *(1)] chunk_bound(2) [of "dp_base r" src w src'] *(2) assms(1)
      by (cases "\<not> isTag tag \<or> tag = tagData") (simp_all add: base_ok_def)
    with rebase_window [of "dp_base r" "length w"] assms(1) show ?thesis
      by (simp add: *(3) base_ok_def)
  qed
qed (use assms in \<open>auto simp: dispack_next_def split: if_splits sum.splits\<close>)


lemma dispack_base_window_witness:
  "base_ok \<lparr>dp_src = [], dp_chunk = 4, dp_base = rebase (0xBFFFFFFE + word_of_nat (length [5, 6, 7, 8 :: byte]))\<rparr>"
proof -
  have ok: "base_ok \<lparr>dp_src = [5, 6, 7, 8], dp_chunk = 4, dp_base = 0xBFFFFFFE\<rparr>"
    by (simp add: base_ok_def)
  have "dispack_next \<lparr>dp_src = [5, 6, 7, 8], dp_chunk = 4, dp_base = 0xBFFFFFFE\<rparr>
      = (Block [5, 6, 7, 8], \<lparr>dp_src = [], dp_chunk = 4, dp_base = rebase (0xBFFFFFFE + word_of_nat (length [5, 6, 7, 8 :: byte]))\<rparr>)"
    by code_simp
  with ok show ?thesis by (rule dispack_base_window)
qed

section \<open>Streams of chunks\<close>

text \<open>A container: chunks of data with their length, and chunks of code.\<close>

datatype piece = Data bytes | Code "item list"

fun plain_piece :: "u32 \<Rightarrow> piece \<Rightarrow> bytes" where
  "plain_piece base (Data b) = b"
| "plain_piece base (Code items) = plain_items base 0 items"

fun enc_piece :: "u32 \<Rightarrow> piece \<Rightarrow> bytes" where
  "enc_piece base (Data b) = put_le 4 tagData @ put_le 4 (word_of_nat (length b) :: u32) @ b"
| "enc_piece base (Code items) =
     put_le 4 tagEXE @ put_le 4 (word_of_nat (length (plain_items base 0 items)) :: u32)
     @ put_le 4 (word_of_nat (length (enc_exe base items)) :: u32) @ enc_exe base items"

fun piece_ok :: "u32 \<Rightarrow> u32 \<Rightarrow> piece \<Rightarrow> bool" where
  "piece_ok chunk base (Data b) \<longleftrightarrow> length b \<le> unat chunk"
| "piece_ok chunk base (Code items) \<longleftrightarrow> list_all item_ok items \<and>
     length (plain_items base 0 items) \<le> 0x800000 \<and> length (enc_exe base items) \<le> 0xA00400"

definition next_base :: "u32 \<Rightarrow> piece \<Rightarrow> u32" where
  "next_base base p = rebase (base + word_of_nat (length (plain_piece base p)))"

fun plain_pieces :: "u32 \<Rightarrow> piece list \<Rightarrow> bytes" where
  "plain_pieces base [] = []"
| "plain_pieces base (p # ps) = plain_piece base p @ plain_pieces (next_base base p) ps"

fun enc_pieces :: "u32 \<Rightarrow> piece list \<Rightarrow> bytes" where
  "enc_pieces base [] = []"
| "enc_pieces base (p # ps) = enc_piece base p @ enc_pieces (next_base base p) ps"

fun pieces_ok :: "u32 \<Rightarrow> u32 \<Rightarrow> piece list \<Rightarrow> bool" where
  "pieces_ok chunk base [] \<longleftrightarrow> True"
| "pieces_ok chunk base (p # ps) \<longleftrightarrow> piece_ok chunk base p \<and> pieces_ok chunk (next_base base p) ps"

lemma data_piece:
  assumes "length b \<le> unat chunk"
  shows "data_chunk chunk tagData (put_le 4 (word_of_nat (length b) :: u32) @ b @ src) = Inr (b, src)"
proof -
  have u: "unat (word_of_nat (length b) :: u32) = length b"
    by (rule unat_of_nat_small) (rule order_le_less_trans [OF assms], rule unsigned_less)
  then have "\<not> chunk < word_of_nat (length b)" using assms by (simp add: word_less_nat_alt)
  then show ?thesis by (simp add: data_chunk_def u readFull_eq_append)
qed

lemma code_piece:
  assumes "piece_ok chunk base (Code items)"
  shows "exe_chunk base (put_le 4 (word_of_nat (length (plain_items base 0 items)) :: u32)
      @ put_le 4 (word_of_nat (length (enc_exe base items)) :: u32) @ enc_exe base items @ src)
    = Inr (plain_items base 0 items, src)"
proof -
  let ?o = "word_of_nat (length (plain_items base 0 items)) :: u32"
  let ?i = "word_of_nat (length (enc_exe base items)) :: u32"
  have u: "unat ?o = length (plain_items base 0 items)" "unat ?i = length (enc_exe base items)"
    by (rule unat_of_nat_small; use assms in simp)+
  then have ok: "\<not> (defaultBlk < ?o \<or> defaultBlk + inSlack < ?i)"
    using assms by (simp add: word_less_nat_alt)
  have "unfilter (enc_exe base items) (length (plain_items base 0 items)) base = Some (plain_items base 0 items)"
    by (rule unfilter_enc_exe) (use assms in simp_all)
  then show ?thesis
    by (simp only: exe_chunk_def readFullU32_append mapErr_simps bindE.simps prod.case if_not_P [OF ok] u
      readFull_append option.case)
qed

lemma dispack_next_piece:
  assumes "piece_ok chunk base p"
  shows "dispack_next \<lparr>dp_src = enc_piece base p @ src, dp_chunk = chunk, dp_base = base\<rparr>
    = (Block (plain_piece base p), \<lparr>dp_src = src, dp_chunk = chunk, dp_base = next_base base p\<rparr>)"
proof -
  have ne: "enc_piece base p @ src \<noteq> []"
    by (cases p) (auto simp flip: length_0_conv)
  have "dispack_chunk \<lparr>dp_src = enc_piece base p @ src, dp_chunk = chunk, dp_base = base\<rparr>
    = Inr (plain_piece base p, \<lparr>dp_src = src, dp_chunk = chunk, dp_base = next_base base p\<rparr>)"
  proof (cases p)
    case (Data b)
    with assms show ?thesis by (simp add: dispack_chunk_def data_piece next_base_def)
  next
    case (Code items)
    have "isTag tagEXE" by code_simp
    with Code code_piece [OF assms [unfolded Code], of src] show ?thesis
      by (simp add: dispack_chunk_def next_base_def)
  qed
  with ne show ?thesis by (simp add: dispack_next_def)
qed

lemma dispack_drains:
  "pieces_ok chunk base ps \<Longrightarrow> drains dispack_next
    \<lparr>dp_src = enc_pieces base ps, dp_chunk = chunk, dp_base = base\<rparr> (plain_pieces base ps) Ended"
proof (induction ps arbitrary: base)
  case Nil
  have "dispack_next \<lparr>dp_src = [], dp_chunk = chunk, dp_base = base\<rparr>
      = (End, \<lparr>dp_src = [], dp_chunk = chunk, dp_base = base\<rparr>)" by (simp add: dispack_next_def)
  then show ?case by (simp add: drains_end)
next
  case (Cons p ps)
  then have "dispack_next \<lparr>dp_src = enc_pieces base (p # ps), dp_chunk = chunk, dp_base = base\<rparr>
      = (Block (plain_piece base p), \<lparr>dp_src = enc_pieces (next_base base p) ps, dp_chunk = chunk, dp_base = next_base base p\<rparr>)"
    by (simp add: dispack_next_piece)
  from drains_block [where nxt = dispack_next, OF this] Cons show ?case by simp
qed

text \<open>
  C12: a DisPack container decodes to the machine code its items stand for. The chunks may be
  data or code; in code, calls come back relative to where they stand, with the base address
  running on from chunk to chunk, whether a target is stored in full or as an index into the
  table of recent targets; and the reader may be read in any sizes.
\<close>

theorem dispack_reader_roundtrip:
  assumes "0 < chunk" "chunk \<le> defaultBlk" "pieces_ok chunk baseStart ps"
    "\<forall>n\<in>set ns. 0 < n" "length (plain_pieces baseStart ps) < length ns"
  shows "\<exists>r c r' c'. newDispack (put_le 4 chunk @ enc_pieces baseStart ps) = Inr (r, c) \<and>
    readMany dispack_next ns c r = Some (plain_pieces baseStart ps, Some ReadEOF, c', r')"
proof -
  let ?r = "\<lparr>dp_src = enc_pieces baseStart ps, dp_chunk = chunk, dp_base = baseStart\<rparr>"
  have "put_le 4 chunk @ enc_pieces baseStart ps \<noteq> []"
    by (simp flip: length_0_conv)
  then have "newDispack (put_le 4 chunk @ enc_pieces baseStart ps) = Inr (?r, newChunkbuf)"
    using assms(1,2) by (simp add: newDispack_def word_gt_0 not_less)
  with dispack.readMany_all [OF dispack_drains [OF assms(3)] assms(4,5)] show ?thesis by auto
qed

lemma dispack_reader_roundtrip_witness:
  "\<exists>r c r' c'. newDispack (put_le 4 (16 :: u32) @ enc_pieces baseStart [Data [7], Code [CallTo 0x40000001]]) = Inr (r, c) \<and>
    readMany dispack_next (replicate 7 5) c r = Some ([7, 0xe8, 0xfb, 0xff, 0xff, 0xff], Some ReadEOF, c', r')"
proof -
  have plain: "plain_pieces baseStart [Data [7], Code [CallTo 0x40000001]] = [7, 0xe8, 0xfb, 0xff, 0xff, 0xff]"
    by code_simp
  have "next_base baseStart (Data [7]) = 0x40000001" by code_simp
  moreover have "length (plain_items 0x40000001 0 [CallTo 0x40000001]) = 5"
    "length (enc_exe 0x40000001 [CallTo 0x40000001]) = 78" by code_simp+
  ultimately have "piece_ok 16 (next_base baseStart (Data [7])) (Code [CallTo 0x40000001])"
    by (simp only: piece_ok.simps) simp
  moreover have "piece_ok 16 baseStart (Data [7])" by code_simp
  ultimately have "pieces_ok 16 baseStart [Data [7], Code [CallTo 0x40000001]]" by (simp only: pieces_ok.simps simp_thms)
  from dispack_reader_roundtrip [OF _ _ this, of "replicate 7 5"] show ?thesis
    unfolding plain by (simp del: enc_pieces.simps)
qed

text \<open>
  C35: the unfilter never writes past the destination and never loses an entry of its target
  table: from any streams, the state it ends in extends the output it began with, within the
  destination, has spent the opcodes and still has its 256 targets.
\<close>

theorem unfilter_loop_bounds:
  assumes "unfilter_loop destEnd memStart s = Some s'" "length (dis_out s) \<le> destEnd"
    "length (funcTable s) = 256"
  shows "\<exists>w. dis_out s' = dis_out s @ w \<and> length (dis_out s') \<le> destEnd \<and>
    length (funcTable s') = 256 \<and> streams s' stOp = []"
  using unfilter_loop_forward [OF assms(1)] assms(2,3) by (auto simp: forward_def)

lemma unfilter_loop_bounds_witness:
  "\<exists>w. dis_out (coded [] [] [] [1, 9] (addMTF (replicate 256 0) 6) False) = [1 :: byte] @ w \<and> length [1 :: byte, 9] \<le> 2 \<and>
    length (funcTable (coded [] [] [] [1, 9] (addMTF (replicate 256 0) 6) False)) = 256 \<and>
    streams (coded [] [] [] [1, 9] (addMTF (replicate 256 0) 6) False) stOp = []"
proof -
  have "unfilter_loop 2 5 (coded [escape, 9] [] [] [1] (replicate 256 0) True)
      = Some (coded [] [] [] [1, 9] (addMTF (replicate 256 0) 6) False)"
    by (simp add: unfilter_loop.simps step_literal fresh_table_def)
  from unfilter_loop_bounds [OF this] show ?thesis by simp
qed

text \<open>
  A first chunk size of one to three bytes is accepted, and the first chunk without a tag
  then panics: there is no room for its first four bytes.
\<close>

theorem dispack_short_chunk_panics:
  fixes chunk tag :: u32
  assumes "0 < chunk" "chunk < 4" "\<not> isTag tag"
  shows "\<exists>r c. newDispack (put_le 4 chunk @ put_le 4 tag @ src) = Inr (r, c) \<and>
    dispack_next r = (Fail Panic, r)"
proof -
  have "chunk \<le> defaultBlk" using assms(2) by (rule order_less_imp_le [OF order_less_trans]) simp
  moreover have "put_le 4 chunk @ put_le 4 tag @ src \<noteq> []" "put_le 4 tag @ src \<noteq> []"
    by (simp_all flip: length_0_conv)
  moreover have "unat chunk < 4" using assms(2) by (simp add: word_less_nat_alt)
  moreover have "tag \<noteq> tagData" using assms(3) by (auto simp: isTag_def)
  ultimately show ?thesis
    using assms by (simp add: newDispack_def dispack_next_def dispack_chunk_def data_chunk_def word_gt_0 not_less)
qed

lemma dispack_short_chunk_panics_witness:
  "\<exists>r c. newDispack (put_le 4 (1 :: u32) @ put_le 4 (0 :: u32) @ [9]) = Inr (r, c) \<and>
    dispack_next r = (Fail Panic, r)"
proof -
  have "\<not> isTag 0" by code_simp
  from dispack_short_chunk_panics [OF _ _ this, of 1 "[9]"] show ?thesis by simp
qed

end
