(* ===== verification/Sparse.thy ===== *)
theory Sparse
  imports Prelude
begin

text \<open>
  Sparse replacement patches (\<open>reconstruct/x2/patch.go\<close>): a target size and records
  that each put up to 256 bytes at an offset of the resized file.
\<close>

datatype sparse_error = SparseEof | SparseLimit | SparseOutside

text \<open>
  \<open>copy(out[off:], p)\<close>: slicing past the end panics, and copying stops at the end.
\<close>

definition copy_at :: "bytes \<Rightarrow> nat \<Rightarrow> bytes \<Rightarrow> 'e fault + bytes" where
  "copy_at out off p =
     (if length out < off then Inl Panic
      else let w = take (length out - off) p
           in Inr (take off out @ w @ drop (off + length w) out))"

text \<open>The loop over the records.\<close>

function sparse_records :: "u64 \<Rightarrow> bytes \<Rightarrow> bytes \<Rightarrow> sparse_error fault + bytes" where
  "sparse_records sz out p =
     (if p = [] then Inr out
      else if length p < 9 then Inl (Error SparseEof)
      else
        let off = le_word (take 8 p) :: u64;
            n = (if p ! 8 = 0 then 256 else unat (p ! 8));
            p = drop 9 p
        in if length p < n then Inl (Error SparseEof)
           else if sz < off \<or> sz - off < word_of_nat n then Inl (Error SparseOutside)
           else bindE (copy_at out (unat off) (take n p)) (\<lambda>out. sparse_records sz out (drop n p)))"
  by pat_completeness auto
termination by (relation "measure (\<lambda>(sz, out, p). length p)") auto

declare sparse_records.simps [simp del]

text \<open>\<open>copy(out, old)\<close> into \<open>sz\<close> zeroed bytes.\<close>

definition resize :: "nat \<Rightarrow> bytes \<Rightarrow> bytes" where
  "resize n old = take n old @ replicate (n - length old) 0"

definition sparse_apply :: "bytes \<Rightarrow> bytes \<Rightarrow> sparse_error fault + bytes" where
  "sparse_apply old patch =
     (if length patch < 8 then Inl (Error SparseEof)
      else let sz = le_word (take 8 patch) :: u64 in
        if 0x40000000 < sz then Inl (Error SparseLimit)
        else sparse_records sz (resize (unat sz) old) (drop 8 patch))"

lemma length_resize [simp]: "length (resize n old) = n"
  by (simp add: resize_def)

section \<open>Never a panic\<close>

lemma sparse_records_result:
  assumes "length out = unat sz"
  shows "(\<exists>e. sparse_records sz out p = Inl (Error e)) \<or>
    (\<exists>w. sparse_records sz out p = Inr w \<and> length w = unat sz)"
  using assms
proof (induction sz out p rule: sparse_records.induct)
  case (1 sz out p)
  let ?off = "le_word (take 8 p) :: u64" and ?n = "if p ! 8 = 0 then 256 else unat (p ! 8)"
  let ?p = "drop 9 p"
  show ?case
  proof (cases "p = [] \<or> length p < 9 \<or> length ?p < ?n \<or> sz < ?off \<or> sz - ?off < word_of_nat ?n")
    case True
    with 1(2) show ?thesis by (subst sparse_records.simps, subst (2) sparse_records.simps) (auto simp: Let_def)
  next
    case False
    then have off: "unat ?off \<le> length out" using 1(2) by (simp add: word_le_nat_alt not_less)
    define w where "w = take (length out - unat ?off) (take ?n ?p)"
    define out' where "out' = take (unat ?off) out @ w @ drop (unat ?off + length w) out"
    have c: "copy_at out (unat ?off) (take ?n ?p) = Inr out'"
      using off by (simp add: copy_at_def w_def out'_def Let_def)
    have "length out' = unat sz" using off 1(2) by (auto simp: out'_def w_def)
    then have "(\<exists>e. sparse_records sz out' (drop ?n ?p) = Inl (Error e)) \<or>
        (\<exists>w. sparse_records sz out' (drop ?n ?p) = Inr w \<and> length w = unat sz)"
      by (intro 1(1) [OF _ _ refl refl refl _ _ c]) (use False in \<open>simp_all only: de_Morgan_disj not_False_eq_True\<close>)
    moreover have "sparse_records sz out p = sparse_records sz out' (drop ?n ?p)"
      using False by (subst sparse_records.simps) (simp only: Let_def c bindE.simps de_Morgan_disj simp_thms if_False)
    ultimately show ?thesis by simp
  qed
qed

text \<open>
  Applying any patch to any file neither panics nor leaves the target's bounds: it is an
  error, or a file of exactly the size the patch announces.
\<close>

theorem sparse_apply_result:
  "(\<exists>e. sparse_apply old patch = Inl (Error e)) \<or>
    (\<exists>w. sparse_apply old patch = Inr w \<and> length w = unat (le_word (take 8 patch) :: u64))"
  using sparse_records_result [of "resize (unat (le_word (take 8 patch) :: u64)) old" "le_word (take 8 patch)" "drop 8 patch"]
  by (simp add: sparse_apply_def Let_def)

section \<open>What a patch stands for\<close>

type_synonym replacement = "nat \<times> bytes"

definition enc_replacement :: "replacement \<Rightarrow> bytes" where
  "enc_replacement r = (case r of (off, w) \<Rightarrow>
     put_le 8 (word_of_nat off :: u64) @ [word_of_nat (length w)] @ w)"

definition enc_sparse :: "nat \<Rightarrow> replacement list \<Rightarrow> bytes" where
  "enc_sparse sz rs = put_le 8 (word_of_nat sz :: u64) @ concat (map enc_replacement rs)"

definition replacement_ok :: "nat \<Rightarrow> replacement \<Rightarrow> bool" where
  "replacement_ok sz r = (case r of (off, w) \<Rightarrow> 0 < length w \<and> length w \<le> 256 \<and> off + length w \<le> sz)"

definition replace_at :: "bytes \<Rightarrow> replacement \<Rightarrow> bytes" where
  "replace_at out r = (case r of (off, w) \<Rightarrow> take off out @ w @ drop (off + length w) out)"

lemma length_replace_at: "replacement_ok (length out) r \<Longrightarrow> length (replace_at out r) = length out"
  by (auto simp: replacement_ok_def replace_at_def)

lemma sparse_record_step:
  assumes "replacement_ok (length out) (off, w)" "length out \<le> 0x40000000"
  shows "sparse_records (word_of_nat (length out)) out (enc_replacement (off, w) @ p)
    = sparse_records (word_of_nat (length out)) (replace_at out (off, w)) p"
proof -
  let ?sz = "word_of_nat (length out) :: u64" and ?off = "word_of_nat off :: u64"
  let ?b = "word_of_nat (length w) :: byte"
  from assms have ok: "0 < length w" "length w \<le> 256" "off + length w \<le> length out"
    by (simp_all add: replacement_ok_def)
  have sz: "unat ?sz = length out" and off: "unat ?off = off" and n: "unat (word_of_nat (length w) :: u64) = length w"
    by (rule unat_of_nat_small; use ok assms(2) in simp)+
  have len: "(if ?b = 0 then 256 else unat ?b) = length w"
  proof (cases "length w = 256")
    case False
    then have "unat ?b = length w" using ok by (intro unat_of_nat_small) simp
    with ok(1) show ?thesis by (metis nat_neq_iff unat_0)
  qed simp
  have "?off \<le> ?sz" using ok by (simp add: word_le_nat_alt sz off)
  then have "unat (?sz - ?off) = length out - off" using sz off by (simp add: unat_sub)
  then have in_range: "\<not> (?sz < ?off \<or> ?sz - ?off < word_of_nat (length w))"
    using ok by (simp add: word_less_nat_alt sz off n)
  let ?p = "put_le 8 ?off @ [?b] @ w @ p"
  have fields: "take 8 ?p = put_le 8 ?off" "?p ! 8 = ?b" "drop 9 ?p = w @ p" "?p \<noteq> []" "\<not> length ?p < 9"
    by (simp_all add: nth_append flip: length_0_conv)
  have c: "copy_at out (unat ?off) (take (length w) (w @ p)) = Inr (replace_at out (off, w))"
    using ok by (simp add: copy_at_def replace_at_def off)
  have w: "\<not> length (w @ p) < length w" "drop (length w) (w @ p) = p" by simp_all
  have "sparse_records ?sz out ?p = sparse_records ?sz (replace_at out (off, w)) p"
    by (subst sparse_records.simps)
      (simp only: fields Let_def len le_word_put_le_u64 c bindE.simps in_range w simp_thms if_False)
  then show ?thesis by (simp add: enc_replacement_def)
qed

lemma sparse_records_decode:
  assumes "list_all (replacement_ok (length out)) rs" "length out \<le> 0x40000000"
  shows "sparse_records (word_of_nat (length out)) out (concat (map enc_replacement rs)) = Inr (foldl replace_at out rs)"
  using assms
proof (induction rs arbitrary: out)
  case Nil
  then show ?case by (simp add: sparse_records.simps)
next
  case (Cons r rs)
  obtain off w where r: "r = (off, w)" by (cases r)
  with Cons.prems have l: "length (replace_at out r) = length out" by (simp add: length_replace_at)
  have "sparse_records (word_of_nat (length out)) out (concat (map enc_replacement (r # rs)))
      = sparse_records (word_of_nat (length out)) (replace_at out r) (concat (map enc_replacement rs))"
    using sparse_record_step [of out off w] Cons.prems r by simp
  also have "\<dots> = Inr (foldl replace_at (replace_at out r) rs)"
    using Cons.IH [of "replace_at out r"] Cons.prems l by simp
  finally show ?case by simp
qed

lemma sparse_apply_decode:
  assumes "list_all (replacement_ok sz) rs" "sz \<le> 0x40000000"
  shows "sparse_apply old (enc_sparse sz rs) = Inr (foldl replace_at (resize sz old) rs)"
proof -
  have u: "unat (word_of_nat sz :: u64) = sz" by (rule unat_of_nat_small) (use assms(2) in simp)
  then have "\<not> 0x40000000 < (word_of_nat sz :: u64)" using assms(2) by (simp add: word_less_nat_alt)
  moreover have "take 8 (enc_sparse sz rs) = put_le 8 (word_of_nat sz :: u64)"
    "drop 8 (enc_sparse sz rs) = concat (map enc_replacement rs)" "\<not> length (enc_sparse sz rs) < 8"
    by (simp_all add: enc_sparse_def)
  moreover have "sparse_records (word_of_nat sz) (resize sz old) (concat (map enc_replacement rs))
      = Inr (foldl replace_at (resize sz old) rs)"
    using sparse_records_decode [of "resize sz old" rs] assms by simp
  ultimately show ?thesis by (simp add: sparse_apply_def Let_def u)
qed

text \<open>
  A patch with any list of records inside the target applies them in their order to the old
  file, cut or zero-padded to the target size; a later record overwrites an earlier one.
\<close>

theorem sparse_apply_replaces:
  assumes "list_all (replacement_ok sz) rs" "sz \<le> 0x40000000"
  shows "sparse_apply old (enc_sparse sz rs) = Inr (foldl replace_at (resize sz old) rs)"
  using assms by (rule sparse_apply_decode)

lemma sparse_apply_replaces_witness:
  "sparse_apply [1, 2] (enc_sparse 4 [(1, [7, 8]), (2, [9])])
    = Inr (foldl replace_at (resize 4 [1, 2]) [(1, [7, 8]), (2, [9])])"
  by (rule sparse_apply_replaces) (simp_all add: replacement_ok_def)

lemma replace_bytes:
  "k \<le> length new \<Longrightarrow> length out = length new \<Longrightarrow>
    foldl replace_at out (map (\<lambda>i. (i, [new ! i])) [0..<k]) = take k new @ drop k out"
proof (induction k)
  case 0
  then show ?case by simp
next
  case (Suc k)
  then show ?case
    by (simp add: replace_at_def take_Suc_conv_app_nth min_def)
qed

text \<open>
  The format is complete: for any old and new file up to 1 GiB there is a patch that turns
  the one into the other.
\<close>

theorem sparse_complete:
  assumes "length new \<le> 0x40000000"
  shows "\<exists>patch. sparse_apply old patch = Inr new"
proof
  let ?rs = "map (\<lambda>i. (i, [new ! i])) [0..<length new]"
  have "list_all (replacement_ok (length new)) ?rs"
    by (auto simp: list_all_iff replacement_ok_def)
  with assms show "sparse_apply old (enc_sparse (length new) ?rs) = Inr new"
    by (simp only: sparse_apply_decode) (simp add: replace_bytes)
qed

lemma sparse_complete_witness: "\<exists>patch. sparse_apply [1, 2, 3] patch = Inr [4, 2 :: byte]"
  using sparse_complete [of "[4, 2]" "[1, 2, 3]"] by simp

end
