(* ===== verification/Rtpatch.thy ===== *)
theory Rtpatch
  imports Prelude
begin

text \<open>
  RTPatch 9.00 updates (\<open>reconstruct/x3\<close>): the parser of a patch file into records
  (\<open>parse.go\<close>) and the interpreter of a record's delta instructions (\<open>apply.go\<close>).

  The cursor keeps its first failure and reads zeros from then on, as in the code; names are
  lists of code points. The context's cancellation is not modelled.
\<close>

datatype rt_error =
    RtEof | Oversized | Unterminated
  | BadHeader | TooManyRecords | TooManyDirs | CountMismatch | BadRecord u16 | BadOptions u16
  | BadDirIndex | BadMode | BadPath | ExcessRecords
  | SourceMismatch | TargetLimit | TargetMismatch
  | GapOutside | CopyOutside | DeltaOutside | MissingSelect | Incomplete | BadSelect
  | FillOutside | BadDeltaCount | ZeroOutside | BadTemplate | UnknownOp byte

section \<open>The cursor\<close>

record cursor =
  c_data :: bytes
  c_err :: "rt_error option"

definition rtake :: "nat \<Rightarrow> cursor \<Rightarrow> bytes \<times> cursor" where
  "rtake n r =
     (if c_err r \<noteq> None then ([], r)
      else if length (c_data r) < n then ([], r\<lparr>c_err := Some RtEof\<rparr>)
      else (take n (c_data r), r\<lparr>c_data := drop n (c_data r)\<rparr>))"

definition rbyte :: "cursor \<Rightarrow> byte \<times> cursor" where
  "rbyte r = (let (b, r) = rtake 1 r in (if b = [] then 0 else hd b, r))"

definition ru16 :: "cursor \<Rightarrow> u16 \<times> cursor" where
  "ru16 r = (let (b, r) = rtake 2 r in (if b = [] then 0 else le_word b, r))"

definition ru32 :: "cursor \<Rightarrow> u32 \<times> cursor" where
  "ru32 r = (let (b, r) = rtake 4 r in (if b = [] then 0 else le_word b, r))"

text \<open>The length of a variable-length integer: the ones from bit 6 down.\<close>

function vli_scan :: "byte \<Rightarrow> byte \<Rightarrow> nat \<Rightarrow> nat \<times> byte" where
  "vli_scan b mk count =
     (if mk \<noteq> 0 \<and> b AND mk \<noteq> 0 then vli_scan b (drop_bit 1 mk) (count + 1)
      else (count, mk))"
  by pat_completeness auto
termination
proof (relation "measure (\<lambda>(b, mk, count). unat mk)")
  fix b mk :: byte and count
  assume "mk \<noteq> 0 \<and> b AND mk \<noteq> 0"
  then have "0 < unat mk" by (simp add: unat_gt_0)
  then show "((b, drop_bit 1 mk, count + 1), b, mk, count) \<in> measure (\<lambda>(b, mk, count). unat mk)"
    by (simp add: unat_drop)
qed simp

declare vli_scan.simps [simp del]

fun vli_bytes :: "nat \<Rightarrow> nat \<Rightarrow> int \<Rightarrow> cursor \<Rightarrow> int \<times> cursor" where
  "vli_bytes 0 i n r = (n, r)"
| "vli_bytes (Suc k) i n r =
     (let (b, r) = rbyte r in vli_bytes k (i + 1) (n OR push_bit (8 * i) (uint b)) r)"

definition rvli :: "cursor \<Rightarrow> int \<times> cursor" where
  "rvli r =
     (let (b, r) = rbyte r; (count, mk) = vli_scan b 64 0 in
      if 4 < count then (0, r\<lparr>c_err := Some Oversized\<rparr>)
      else let (n, r) = vli_bytes count 0 (push_bit (8 * count) (uint (b AND (mk - 1)))) r
           in (if b AND 128 \<noteq> 0 then - n else n, r))"

text \<open>The OEM code page of the installer's file names, as code points.\<close>

definition cp866 :: "nat list" where
  "cp866 = [
     1040, 1041, 1042, 1043, 1044, 1045, 1046, 1047, 1048, 1049, 1050, 1051, 1052, 1053, 1054, 1055,
     1056, 1057, 1058, 1059, 1060, 1061, 1062, 1063, 1064, 1065, 1066, 1067, 1068, 1069, 1070, 1071,
     1072, 1073, 1074, 1075, 1076, 1077, 1078, 1079, 1080, 1081, 1082, 1083, 1084, 1085, 1086, 1087,
     9617, 9618, 9619, 9474, 9508, 9569, 9570, 9558, 9557, 9571, 9553, 9559, 9565, 9564, 9563, 9488,
     9492, 9524, 9516, 9500, 9472, 9532, 9566, 9567, 9562, 9556, 9577, 9574, 9568, 9552, 9580, 9575,
     9576, 9572, 9573, 9561, 9560, 9554, 9555, 9579, 9578, 9496, 9484, 9608, 9604, 9612, 9616, 9600,
     1088, 1089, 1090, 1091, 1092, 1093, 1094, 1095, 1096, 1097, 1098, 1099, 1100, 1101, 1102, 1103,
     1025, 1105, 1028, 1108, 1031, 1111, 1038, 1118, 176, 8729, 183, 8730, 8470, 164, 9632, 160]"

definition rt_char :: "byte \<Rightarrow> nat" where
  "rt_char c = (if c < 128 then unat c else cp866 ! (unat c - 128))"

definition rtext :: "cursor \<Rightarrow> nat list \<times> cursor" where
  "rtext r =
     (let (n8, r) = rbyte r;
          (n, r) = (if n8 = 255 then (let (w, r) = ru16 r in (unat w, r)) else (unat n8, r))
      in if n = 0 then ([], r)
         else let (b, r) = rtake n r in
           if b = [] then ([], r)
           else if b ! (n - 1) \<noteq> 0 then ([], r\<lparr>c_err := Some Unterminated\<rparr>)
           else (map rt_char (take (n - 1) b), r))"

record fileVersion =
  fv_name :: "nat list"
  fv_size :: u32
  fv_w1 :: u32
  fv_w2 :: u32

definition rversion :: "cursor \<Rightarrow> fileVersion \<times> cursor" where
  "rversion r =
     (let (b, r) = rtake 24 r in
      if c_err r \<noteq> None then (\<lparr>fv_name = [], fv_size = 0, fv_w1 = 0, fv_w2 = 0\<rparr>, r)
      else
        let (_, r) = rtake 2 r;
            (w1, r) = ru32 r;
            (w2, r) = ru32 r;
            (_, r) = rtake 8 r;
            (name, r) = rtext r
        in (\<lparr>fv_name = name, fv_size = le_word (take 4 (drop 16 b)),
             fv_w1 = w1 AND 0x7fffffff, fv_w2 = w2 AND 0x3fffffff\<rparr>, r))"

section \<open>The records\<close>

record rt_record =
  rt_source :: "nat list"
  rt_target :: "nat list"
  rt_old :: fileVersion
  rt_new :: fileVersion
  rt_code :: bytes

text \<open>
  \<open>fs.ValidPath\<close>: unrooted, slash-separated, no empty, dot or dot-dot element, but the path
  that is a single dot. Code points: 46 is a dot, 47 a slash, 92 a backslash, 58 a colon.
\<close>

fun split_slash :: "nat list \<Rightarrow> nat list list" where
  "split_slash [] = [[]]"
| "split_slash (c # cs) =
     (if c = 47 then [] # split_slash cs
      else case split_slash cs of [] \<Rightarrow> [[c]] | e # es \<Rightarrow> (c # e) # es)"

definition valid_path :: "nat list \<Rightarrow> bool" where
  "valid_path name \<longleftrightarrow> name = [46] \<or> (\<forall>e\<in>set (split_slash name). e \<noteq> [] \<and> e \<noteq> [46] \<and> e \<noteq> [46, 46])"

definition rt_filePath :: "nat list \<Rightarrow> rt_error + nat list" where
  "rt_filePath name =
     (let name = map (\<lambda>c. if c = 92 then 47 else c) name in
      if \<not> valid_path name \<or> 58 \<in> set name \<or> 0 \<in> set name then Inl BadPath else Inr name)"

text \<open>The directory prefix of a record.\<close>

definition record_dir :: "u16 \<Rightarrow> nat list list \<Rightarrow> cursor \<Rightarrow> rt_error + (nat list \<times> cursor)" where
  "record_dir opts dirs r =
     (if opts AND 0xc0 \<noteq> 0 then
        let (short, r) = rvli r; (long, r) = rvli r in
        if short < 0 \<or> long < 0 \<or> int (length dirs) \<le> short \<or> int (length dirs) \<le> long then Inl BadDirIndex
        else Inr (dirs ! nat long @ [47], r)
      else Inr ([], r))"

text \<open>A record behind its directory: metadata, the two file versions, the instructions.\<close>

definition parse_body :: "nat list \<Rightarrow> cursor \<Rightarrow> rt_error + (rt_record \<times> cursor)" where
  "parse_body dir r =
     (let (_, r) = rtake 10 r;
          (mode, r) = ru16 r;
          (srcCount, r) = rvli r;
          (dstCount, r) = rvli r;
          (original, r) = ru32 r;
          (stored, r) = ru32 r
      in if mode \<noteq> 9 \<or> original \<noteq> stored \<or> srcCount \<noteq> 1 \<or> dstCount \<noteq> 1 then Inl BadMode
         else
           let (old, r) = rversion r;
               (target, r) = rversion r;
               (code, r) = rtake (unat stored) r
           in case c_err r of
                Some e \<Rightarrow> Inl e
              | None \<Rightarrow>
                  bindE (rt_filePath (dir @ fv_name old)) (\<lambda>sourceName.
                  bindE (rt_filePath (dir @ fv_name target)) (\<lambda>targetName.
                  Inr (\<lparr>rt_source = sourceName, rt_target = targetName, rt_old = old,
                        rt_new = target, rt_code = code\<rparr>, r))))"

text \<open>One record, its header word read.\<close>

definition parse_record :: "u16 \<Rightarrow> nat list list \<Rightarrow> u16 \<Rightarrow> cursor \<Rightarrow> rt_error + (rt_record \<times> cursor)" where
  "parse_record options dirs header r =
     (if header \<noteq> 0x4441 \<and> header \<noteq> 0x4443 then Inl (BadRecord header)
      else
        let (opts, r) = (if header AND 2 \<noteq> 0 then ru16 r else (options, r)) in
        if opts \<noteq> 0x208 \<and> opts \<noteq> 0x288 then Inl (BadOptions opts)
        else bindE (record_dir opts dirs r) (\<lambda>(dir, r). parse_body dir r))"

text \<open>The directories, then the records up to the end mark.\<close>

fun read_dirs :: "nat \<Rightarrow> cursor \<Rightarrow> nat list list \<times> cursor" where
  "read_dirs 0 r = ([], r)"
| "read_dirs (Suc k) r =
     (let (d, r) = rtext r; (ds, r) = read_dirs k r in (d # ds, r))"

text \<open>No operation gives data back to the cursor, or forgets a failure.\<close>

definition eats :: "cursor \<Rightarrow> cursor \<Rightarrow> bool" where
  "eats r r' \<longleftrightarrow> length (c_data r') \<le> length (c_data r) \<and> (c_err r \<noteq> None \<longrightarrow> c_err r' \<noteq> None)"

named_theorems eats_intros "reads of the cursor"

lemma eats_refl [simp, intro]: "eats r r" by (simp add: eats_def)

lemma eats_trans: "eats r r' \<Longrightarrow> eats r' r'' \<Longrightarrow> eats r r''" by (auto simp: eats_def)

lemma eats_err [eats_intros]: "eats r r' \<Longrightarrow> eats r (r'\<lparr>c_err := Some e\<rparr>)" by (simp add: eats_def)

lemma rtake_eats: "eats r (snd (rtake n r))" by (simp add: eats_def rtake_def)

lemma read_eats [eats_intros]:
  assumes "eats r0 r"
  shows "eats r0 (snd (rtake n r))" "eats r0 (snd (rbyte r))" "eats r0 (snd (ru16 r))" "eats r0 (snd (ru32 r))"
  using eats_trans [OF assms rtake_eats] by (simp_all add: rbyte_def ru16_def ru32_def split_beta Let_def)

lemma vli_bytes_eats [eats_intros]: "eats r0 r \<Longrightarrow> eats r0 (snd (vli_bytes k i n r))"
proof (induction k arbitrary: i n r)
  case (Suc k)
  then show ?case by (simp add: split_beta Let_def read_eats)
qed simp

lemma rvli_eats [eats_intros]: "eats r0 r \<Longrightarrow> eats r0 (snd (rvli r))"
  by (simp add: rvli_def split_beta Let_def) (auto intro: eats_intros)

lemma rtext_eats [eats_intros]: "eats r0 r \<Longrightarrow> eats r0 (snd (rtext r))"
  by (simp add: rtext_def split_beta Let_def) (auto intro!: eats_intros)

lemma rversion_eats [eats_intros]: "eats r0 r \<Longrightarrow> eats r0 (snd (rversion r))"
  by (simp add: rversion_def split_beta Let_def) (auto intro!: eats_intros)

lemma record_dir_eats: "record_dir opts dirs r = Inr (d, r') \<Longrightarrow> eats r r'"
  by (auto simp: record_dir_def split_beta Let_def intro!: eats_intros split: if_splits)

lemma parse_body_eats:
  assumes "parse_body dir r = Inr (x, r')"
  shows "eats r r' \<and> c_err r' = None"
proof -
  let ?r = "snd (ru32 (snd (ru32 (snd (rvli (snd (rvli (snd (ru16 (snd (rtake 10 r)))))))))))"
  let ?n = "unat (fst (ru32 (snd (ru32 (snd (rvli (snd (rvli (snd (ru16 (snd (rtake 10 r))))))))))))"
  have "r' = snd (rtake ?n (snd (rversion (snd (rversion ?r))))) \<and> c_err r' = None"
    using assms unfolding parse_body_def Let_def split_beta
    by (auto simp: bindE_eq_Inr split: if_splits option.splits)
  moreover have "eats r (snd (rtake ?n (snd (rversion (snd (rversion ?r))))))"
    by (intro eats_intros eats_refl)
  ultimately show ?thesis by metis
qed

lemma parse_record_eats:
  assumes "parse_record options dirs header r = Inr (x, r')"
  shows "eats r r' \<and> c_err r' = None"
proof -
  obtain opts r1 where 1: "(if header AND 2 \<noteq> 0 then ru16 r else (options, r)) = (opts, r1)"
    by fastforce
  with assms obtain d r2 where 2: "record_dir opts dirs r1 = Inr (d, r2)" "parse_body d r2 = Inr (x, r')"
    unfolding parse_record_def 1 by (auto simp: bindE_eq_Inr split: if_splits)
  have "eats r r1" using 1 read_eats(3) [OF eats_refl, of r] by (auto split: if_splits)
  with record_dir_eats [OF 2(1)] parse_body_eats [OF 2(2)] show ?thesis by (blast intro: eats_trans)
qed

lemma ru16_eats_word: "fst (ru16 r) \<noteq> 0 \<Longrightarrow> length (c_data (snd (ru16 r))) < length (c_data r)"
  by (auto simp: ru16_def rtake_def split: if_splits)

function parse_records :: "u16 \<Rightarrow> nat \<Rightarrow> nat list list \<Rightarrow> rt_record list \<Rightarrow> cursor \<Rightarrow> rt_error + rt_record list" where
  "parse_records options count dirs records r =
     (case c_err r of
        Some e \<Rightarrow> Inl e
      | None \<Rightarrow>
          let (header, r') = ru16 r in
          if header = 0x1000 then
            (case c_err r' of
               Some e \<Rightarrow> Inl e
             | None \<Rightarrow> if c_data r' \<noteq> [] \<or> length records \<noteq> count then Inl CountMismatch else Inr records)
          else bindE (parse_record options dirs header r') (\<lambda>(x, r'').
            if count < length (records @ [x]) then Inl ExcessRecords
            else parse_records options count dirs (records @ [x]) r''))"
  by pat_completeness auto
termination
proof (relation "measure (\<lambda>(options, count, dirs, records, r). length (c_data r))")
  fix options count dirs records r z header r' p x r''
  assume "z = ru16 r" "(header, r') = z" "header \<noteq> 0x1000"
    and p: "parse_record options dirs header r' = Inr p" "(x, r'') = p"
  then have z: "fst (ru16 r) = header" "snd (ru16 r) = r'" by (metis fst_conv snd_conv)+
  have "parse_record options dirs header r' = Inr (x, r'')" using p by simp
  moreover from this have "header \<noteq> 0" by (auto simp: parse_record_def)
  ultimately show "((options, count, dirs, records @ [x], r''), options, count, dirs, records, r)
      \<in> measure (\<lambda>(options, count, dirs, records, r). length (c_data r))"
    using ru16_eats_word [of r] parse_record_eats z by (fastforce simp: eats_def)
qed simp

definition rt_parse :: "bytes \<Rightarrow> rt_error + rt_record list" where
  "rt_parse data =
     (let (h, r) = rtake 40 \<lparr>c_data = data, c_err = None\<rparr> in
      case c_err r of
        Some e \<Rightarrow> Inl e
      | None \<Rightarrow>
          if take 2 h \<noteq> str ''K*'' \<or> (le_word (take 2 (drop 2 h)) :: u16) \<noteq> 0x384 \<or>
             (le_word (take 2 (drop 4 h)) :: u16) \<noteq> 0x82e4 \<or> (le_word (take 4 (drop 6 h)) :: u32) \<noteq> 0x10000
          then Inl BadHeader
          else
            let options = le_word (take 2 (drop 10 h)) :: u16;
                count = le_word (take 4 (drop 32 h)) :: u32
            in if 0x10000 < count then Inl TooManyRecords
               else let (n, r) = ru16 r in
                 if 4096 < n then Inl TooManyDirs
                 else let (dirs, r) = read_dirs (unat n) r in
                   parse_records options (unat count) dirs [] r)"

declare parse_records.simps [simp del]


section \<open>Checksums\<close>

text \<open>The two rolling checksums: rotations by one byte of 31 and of 30 bits.\<close>

definition rt_sum1 :: "u32 \<Rightarrow> byte \<Rightarrow> u32" where
  "rt_sum1 a c = (let x = a XOR ucast c in (push_bit 8 x OR drop_bit 23 x) AND 0x7fffffff)"

definition rt_sum2 :: "u32 \<Rightarrow> byte \<Rightarrow> u32" where
  "rt_sum2 b c = (let y = b XOR ucast c in (push_bit 8 y OR drop_bit 22 y) AND 0x3fffffff)"

definition rt_checksum :: "bytes \<Rightarrow> u32 \<times> u32" where
  "rt_checksum data = (foldl rt_sum1 0 data, foldl rt_sum2 0 data)"

section \<open>The instructions\<close>

record rt =
  rt_cur :: cursor
  rt_out :: bytes
  rt_pos :: int
  rt_poke :: int
  rt_gaps :: "(int \<times> int) list"
  rt_templates :: "(int \<times> int) list"
  rt_selected :: bool

datatype rt_step = Done bytes | More rt

definition bound :: "int \<Rightarrow> int \<Rightarrow> nat \<Rightarrow> bool" where
  "bound off n sz \<longleftrightarrow> 0 \<le> off \<and> 0 \<le> n \<and> off \<le> int sz \<and> n \<le> int sz - off"

definition rt_fail :: "rt_error \<Rightarrow> rt \<Rightarrow> rt" where
  "rt_fail e s = s\<lparr>rt_cur := (rt_cur s)\<lparr>c_err := Some e\<rparr>\<rparr>"

definition on_cursor :: "(cursor \<Rightarrow> 'a \<times> cursor) \<Rightarrow> rt \<Rightarrow> 'a \<times> rt" where
  "on_cursor f s = (let (v, c) = f (rt_cur s) in (v, s\<lparr>rt_cur := c\<rparr>))"

text \<open>
  Writing \<open>w\<close> at \<open>off\<close>, and reading \<open>n\<close> bytes from it; outside the slice, Go panics.
\<close>

definition put_slice :: "int \<Rightarrow> bytes \<Rightarrow> bytes \<Rightarrow> 'e fault + bytes" where
  "put_slice off w out =
     (if 0 \<le> off \<and> off + int (length w) \<le> int (length out)
      then Inr (take (nat off) out @ w @ drop (nat off + length w) out) else Inl Panic)"

definition get_slice :: "int \<Rightarrow> int \<Rightarrow> bytes \<Rightarrow> 'e fault + bytes" where
  "get_slice off n out =
     (if 0 \<le> off \<and> 0 \<le> n \<and> off + n \<le> int (length out) then Inr (take (nat n) (drop (nat off) out))
      else Inl Panic)"

definition rt_gap :: "int \<Rightarrow> rt \<Rightarrow> rt" where
  "rt_gap n s =
     (if \<not> bound (rt_pos s) n (length (rt_out s)) then rt_fail GapOutside s
      else if 0 < n then s\<lparr>rt_gaps := rt_gaps s @ [(rt_pos s, n)], rt_pos := rt_pos s + n\<rparr> else s)"

definition copy_source :: "bytes \<Rightarrow> int \<times> int \<Rightarrow> rt \<Rightarrow> rt_error fault + rt" where
  "copy_source old sp s =
     (case sp of (off, n) \<Rightarrow>
        if \<not> bound off n (length old) \<or> \<not> bound (rt_pos s) n (length (rt_out s))
        then Inr (rt_fail CopyOutside s)
        else bindE (get_slice off n old) (\<lambda>w.
             bindE (put_slice (rt_pos s) w (rt_out s)) (\<lambda>out.
             Inr (s\<lparr>rt_out := out, rt_pos := rt_pos s + n\<rparr>))))"

definition rt_delta :: "int \<Rightarrow> nat \<Rightarrow> u32 \<Rightarrow> rt \<Rightarrow> rt_error fault + rt" where
  "rt_delta seek width val s =
     (let poke = rt_poke s + seek; s = s\<lparr>rt_poke := poke\<rparr> in
      if \<not> bound poke (int width) (length (rt_out s)) then Inr (rt_fail DeltaOutside s)
      else bindE (get_slice poke (int width) (rt_out s)) (\<lambda>w.
           bindE (put_slice poke (put_le width ((le_word w :: u32) + val)) (rt_out s)) (\<lambda>out.
           Inr (s\<lparr>rt_out := out\<rparr>))))"

text \<open>Opcodes 1 to 6: a gap for the first three, then \<open>n\<close> bytes of a repeated pattern.\<close>

definition op_fill :: "byte \<Rightarrow> rt \<Rightarrow> rt_error fault + rt" where
  "op_fill op s =
     (let s = (if op \<le> 3 then (let (n, s) = on_cursor rvli s in rt_gap n s) else s);
          width = [4, 2, 1] ! ((unat op - 1) mod 3);
          (pat, s) = on_cursor (rtake width) s;
          (n, s) = on_cursor rvli s
      in if c_err (rt_cur s) \<noteq> None then Inr s
         else if \<not> bound (rt_pos s) n (length (rt_out s)) then Inl (Error FillOutside)
         else if 0 < n \<and> length pat < width then Inl Panic
         else bindE (put_slice (rt_pos s) (map (\<lambda>i. pat ! (i mod width)) [0..<nat n]) (rt_out s)) (\<lambda>out.
           Inr (s\<lparr>rt_out := out, rt_pos := rt_pos s + n\<rparr>)))"

text \<open>Opcodes 7 to 10 and 16: additions of one value, or for opcode 10 of one each, at seeks.\<close>

fun delta_loop :: "nat \<Rightarrow> bool \<Rightarrow> nat \<Rightarrow> u32 \<Rightarrow> rt \<Rightarrow> rt_error fault + rt" where
  "delta_loop 0 each width val s = Inr s"
| "delta_loop (Suc k) each width val s =
     (if c_err (rt_cur s) \<noteq> None then Inr s
      else
        let (seek, s) = on_cursor rvli s;
            (val, s) = (if each then (let (b, s) = on_cursor rbyte s in (ucast b, s)) else (val, s))
        in bindE (rt_delta seek width val s) (\<lambda>s. delta_loop k each width val s))"

fun read_value :: "nat \<Rightarrow> nat \<Rightarrow> u32 \<Rightarrow> rt \<Rightarrow> u32 \<times> rt" where
  "read_value 0 i val s = (val, s)"
| "read_value (Suc k) i val s =
     (let (b, s) = on_cursor rbyte s in read_value k (i + 1) (val OR push_bit (8 * i) (ucast b)) s)"

definition op_deltas :: "byte \<Rightarrow> rt \<Rightarrow> rt_error fault + rt" where
  "op_deltas op s =
     (let s = s\<lparr>rt_poke := 0\<rparr>;
          width = (if op = 7 then 4 else if op = 8 then 2 else 1);
          (val, s) = (if op \<noteq> 10 then read_value width 0 0 s else (0, s));
          (n, s) = on_cursor rvli s
      in if n < 0 \<or> int (length (c_data (rt_cur s))) < n then Inl (Error BadDeltaCount)
         else delta_loop (nat n) (op = 10) width val s)"

definition op_zero :: "byte \<Rightarrow> rt \<Rightarrow> rt_error fault + rt" where
  "op_zero op s =
     (let s = (if op = 0xb then (let (n, s) = on_cursor rvli s in rt_gap n s) else s);
          (n, s) = on_cursor rvli s
      in if \<not> bound (rt_pos s) n (length (rt_out s)) then Inl (Error ZeroOutside)
         else bindE (put_slice (rt_pos s) (replicate (nat n) 0) (rt_out s)) (\<lambda>out.
           Inr (s\<lparr>rt_out := out, rt_pos := rt_pos s + n\<rparr>)))"

definition op_template :: "bytes \<Rightarrow> byte \<Rightarrow> rt \<Rightarrow> rt_error fault + rt" where
  "op_template old op s =
     (let s = (if op = 0xd then (let (n, s) = on_cursor rvli s in rt_gap n s) else s);
          (i, s) = on_cursor rvli s
      in if i < 0 \<or> int (length (rt_templates s)) \<le> i then Inl (Error BadTemplate)
         else copy_source old (rt_templates s ! nat i) s)"

text \<open>Opcode 18: a last gap to the end, then the literal bytes of all gaps.\<close>

fun flush_gaps :: "(int \<times> int) list \<Rightarrow> rt \<Rightarrow> rt_error fault + rt" where
  "flush_gaps [] s = Inr s"
| "flush_gaps ((off, n) # gs) s =
     (let (b, s) = on_cursor (rtake (nat n)) s in
      if c_err (rt_cur s) \<noteq> None then Inr s
      else bindE (put_slice off b (rt_out s)) (\<lambda>out. flush_gaps gs (s\<lparr>rt_out := out\<rparr>)))"

definition op_flush :: "rt \<Rightarrow> rt_error fault + rt" where
  "op_flush s =
     (let s = rt_gap (int (length (rt_out s)) - rt_pos s) s in
      bindE (flush_gaps (rt_gaps s) s) (\<lambda>s. Inr (s\<lparr>rt_gaps := []\<rparr>)))"

definition op_copy :: "bytes \<Rightarrow> byte \<Rightarrow> rt \<Rightarrow> rt_error fault + rt" where
  "op_copy old op s =
     (let s = (if op = 0x13 then (let (n, s) = on_cursor rvli s in rt_gap n s) else s);
          (off, s) = on_cursor rvli s;
          (n, s) = on_cursor rvli s
      in copy_source old (off, n) s)"

definition rt_op :: "bytes \<Rightarrow> byte \<Rightarrow> rt \<Rightarrow> rt_error fault + rt_step" where
  "rt_op old op s =
     (if \<not> rt_selected s \<and> op \<noteq> 0x15 then Inl (Error MissingSelect)
      else if op = 0x16 then
        (if c_data (rt_cur s) \<noteq> [] \<or> rt_gaps s \<noteq> [] \<or> rt_pos s \<noteq> int (length (rt_out s))
         then Inl (Error Incomplete) else Inr (Done (rt_out s)))
      else if op = 0x15 then
        (if rt_selected s then Inl (Error BadSelect)
         else let (n, s) = on_cursor rvli s in
           if n \<noteq> 0 then Inl (Error BadSelect) else Inr (More (s\<lparr>rt_selected := True\<rparr>)))
      else bindE
        (if 1 \<le> op \<and> op \<le> 6 then op_fill op s
         else if 7 \<le> op \<and> op \<le> 10 \<or> op = 0x10 then op_deltas op s
         else if op = 0x11 then
           (let (seek, s) = on_cursor rvli s; (b, s) = on_cursor rbyte s in rt_delta seek 1 (ucast b) s)
         else if op = 0xb \<or> op = 0xc then op_zero op s
         else if op = 0xd \<or> op = 0xe then op_template old op s
         else if op = 0xf then
           (let (off, s) = on_cursor rvli s; (n, s) = on_cursor rvli s
            in Inr (s\<lparr>rt_templates := rt_templates s @ [(off, n)]\<rparr>))
         else if op = 0x12 then op_flush s
         else if op = 0x13 \<or> op = 0x14 then op_copy old op s
         else Inl (Error (UnknownOp op)))
        (\<lambda>s. Inr (More s)))"


section \<open>Instructions stay inside the target\<close>

text \<open>
  The interpreter's invariant: the position and every gap lie inside the target. Under it no
  instruction panics.
\<close>

definition rt_ok :: "rt \<Rightarrow> bool" where
  "rt_ok s \<longleftrightarrow> 0 \<le> rt_pos s \<and> rt_pos s \<le> int (length (rt_out s)) \<and>
     (\<forall>(off, n) \<in> set (rt_gaps s). 0 \<le> off \<and> 0 < n \<and> off + n \<le> int (length (rt_out s)))"

definition rt_follows :: "rt \<Rightarrow> rt \<Rightarrow> bool" where
  "rt_follows s0 s \<longleftrightarrow> eats (rt_cur s0) (rt_cur s) \<and> length (rt_out s) = length (rt_out s0) \<and> (rt_ok s0 \<longrightarrow> rt_ok s)"

definition rt_safe :: "rt \<Rightarrow> rt_error fault + rt \<Rightarrow> bool" where
  "rt_safe s0 r = (case r of Inl e \<Rightarrow> rt_ok s0 \<longrightarrow> e \<noteq> Panic | Inr s \<Rightarrow> rt_follows s0 s)"

named_theorems rt_intros "instructions stay inside the target"

lemma rt_follows_refl [simp, intro]: "rt_follows s s" by (simp add: rt_follows_def)

lemma rt_follows_trans: "rt_follows s s' \<Longrightarrow> rt_follows s' s'' \<Longrightarrow> rt_follows s s''"
  by (auto simp: rt_follows_def intro: eats_trans)

lemma rt_safe_results [rt_intros]:
  "rt_safe s0 (Inl (Error e))"
  "rt_follows s0 s \<Longrightarrow> rt_safe s0 (Inr s)"
  by (simp_all add: rt_safe_def)

lemma rt_safe_bind [rt_intros]:
  "rt_safe s0 m \<Longrightarrow> (\<And>s. rt_follows s0 s \<Longrightarrow> rt_safe s0 (f s)) \<Longrightarrow> rt_safe s0 (bindE m f)"
  by (cases m) (auto simp: rt_safe_def)

lemma rt_safe_if [rt_intros]:
  "(b \<Longrightarrow> rt_safe s0 m) \<Longrightarrow> (\<not> b \<Longrightarrow> rt_safe s0 m') \<Longrightarrow> rt_safe s0 (if b then m else m')"
  by simp

lemma rt_follows_if [rt_intros]:
  "(b \<Longrightarrow> rt_follows s0 s) \<Longrightarrow> (\<not> b \<Longrightarrow> rt_follows s0 t) \<Longrightarrow> rt_follows s0 (if b then s else t)"
  by simp

lemma rt_follows_cursor:
  "rt_follows s0 s \<Longrightarrow> eats (rt_cur s) c \<Longrightarrow> rt_follows s0 (s\<lparr>rt_cur := c\<rparr>)"
  by (auto simp: rt_follows_def rt_ok_def intro: eats_trans)

lemma rt_follows_read [rt_intros]:
  assumes "rt_follows s0 s"
  shows "rt_follows s0 (snd (on_cursor rvli s))" "rt_follows s0 (snd (on_cursor rbyte s))"
    "rt_follows s0 (snd (on_cursor (rtake n) s))" "rt_follows s0 (rt_fail e s)"
  by (auto simp: on_cursor_def rt_fail_def split_beta Let_def intro!: rt_follows_cursor assms eats_intros)

lemma rt_follows_gap [rt_intros]: "rt_follows s0 s \<Longrightarrow> rt_follows s0 (rt_gap n s)"
  unfolding rt_gap_def
  by (rule rt_intros | assumption)+ (auto simp: rt_follows_def rt_ok_def bound_def)

lemma rt_follows_fields [rt_intros]:
  "rt_follows s0 s \<Longrightarrow> rt_follows s0 (s\<lparr>rt_poke := p\<rparr>)"
  "rt_follows s0 s \<Longrightarrow> rt_follows s0 (s\<lparr>rt_templates := ts\<rparr>)"
  "rt_follows s0 s \<Longrightarrow> rt_follows s0 (s\<lparr>rt_selected := b\<rparr>)"
  "rt_follows s0 s \<Longrightarrow> rt_follows s0 (s\<lparr>rt_gaps := []\<rparr>)"
  by (auto simp: rt_follows_def rt_ok_def)

text \<open>Writes inside the target succeed and keep its length.\<close>

lemma put_slice_ok:
  "0 \<le> off \<Longrightarrow> off + int (length w) \<le> int (length out) \<Longrightarrow>
    \<exists>out'. put_slice off w out = Inr out' \<and> length out' = length out"
  by (auto simp: put_slice_def)

lemma get_slice_ok:
  "0 \<le> off \<Longrightarrow> 0 \<le> n \<Longrightarrow> off + n \<le> int (length out) \<Longrightarrow>
    \<exists>w. get_slice off n out = Inr w \<and> length w = nat n"
  by (auto simp: get_slice_def min_def)

lemma rt_follows_out:
  "rt_follows s0 s \<Longrightarrow> length out = length (rt_out s) \<Longrightarrow> rt_follows s0 (s\<lparr>rt_out := out\<rparr>)"
  by (auto simp: rt_follows_def rt_ok_def)

lemma rt_follows_advance:
  "rt_follows s0 s \<Longrightarrow> length out = length (rt_out s) \<Longrightarrow> bound (rt_pos s) n (length (rt_out s)) \<Longrightarrow>
    rt_follows s0 (s\<lparr>rt_out := out, rt_pos := rt_pos s + n\<rparr>)"
  by (auto simp: rt_follows_def rt_ok_def bound_def)

lemma copy_source_safe [rt_intros]:
  assumes "rt_follows s0 s"
  shows "rt_safe s0 (copy_source old sp s)"
proof (cases sp)
  case (Pair off n)
  show ?thesis
  proof (cases "bound off n (length old) \<and> bound (rt_pos s) n (length (rt_out s))")
    case True
    then have b: "0 \<le> off" "0 \<le> n" "off + n \<le> int (length old)"
      "0 \<le> rt_pos s" "rt_pos s + n \<le> int (length (rt_out s))"
      by (simp_all add: bound_def)
    from get_slice_ok [OF b(1-3)] obtain w where w: "get_slice off n old = (Inr w :: rt_error fault + bytes)" "length w = nat n"
      by blast
    with b(2,5) have "rt_pos s + int (length w) \<le> int (length (rt_out s))" by simp
    from put_slice_ok [OF b(4) this] obtain out where
      "put_slice (rt_pos s) w (rt_out s) = (Inr out :: rt_error fault + bytes)" "length out = length (rt_out s)" by blast
    with w True Pair assms show ?thesis by (simp add: copy_source_def rt_safe_def rt_follows_advance)
  next
    case False
    with Pair assms show ?thesis by (auto simp: copy_source_def intro!: rt_intros)
  qed
qed

lemma rt_delta_safe [rt_intros]:
  assumes "rt_follows s0 s"
  shows "rt_safe s0 (rt_delta seek width v s)"
proof (cases "bound (rt_poke s + seek) (int width) (length (rt_out s))")
  case True
  then have b: "0 \<le> rt_poke s + seek" "rt_poke s + seek + int width \<le> int (length (rt_out s))"
    by (simp_all add: bound_def)
  from get_slice_ok [OF b(1) _ b(2)] obtain w where w: "get_slice (rt_poke s + seek) (int width) (rt_out s) = (Inr w :: rt_error fault + bytes)"
    by auto
  from put_slice_ok [OF b(1), of "put_le width ((le_word w :: u32) + v)"] b(2) obtain out where
    "put_slice (rt_poke s + seek) (put_le width ((le_word w :: u32) + v)) (rt_out s) = (Inr out :: rt_error fault + bytes)"
    "length out = length (rt_out s)" by auto
  with w True assms show ?thesis
    by (auto simp: rt_delta_def rt_safe_def Let_def intro!: rt_follows_out rt_intros)
next
  case False
  with assms show ?thesis by (auto simp: rt_delta_def intro!: rt_intros)
qed

lemma rtake_length: "c_err (snd (rtake n r)) = None \<Longrightarrow> length (fst (rtake n r)) = n"
  by (auto simp: rtake_def split: if_splits)

lemma rvli_sticky: "c_err (snd (rvli r)) = None \<Longrightarrow> c_err r = None"
  using rvli_eats [OF eats_refl, of r] by (auto simp: eats_def)

lemma rt_write_safe:
  assumes "rt_follows s0 s" "bound (rt_pos s) n (length (rt_out s))" "length w = nat n"
  shows "rt_safe s0 (bindE (put_slice (rt_pos s) w (rt_out s)) (\<lambda>out.
    Inr (s\<lparr>rt_out := out, rt_pos := rt_pos s + n\<rparr>)))"
proof -
  have "0 \<le> rt_pos s" "rt_pos s + int (length w) \<le> int (length (rt_out s))"
    using assms(2,3) by (simp_all add: bound_def)
  from put_slice_ok [OF this] obtain out where
    "put_slice (rt_pos s) w (rt_out s) = (Inr out :: rt_error fault + bytes)" "length out = length (rt_out s)"
    by blast
  with assms show ?thesis by (simp add: rt_safe_def rt_follows_advance)
qed

lemma gap_read_follows [rt_intros]:
  "rt_follows s0 s \<Longrightarrow> rt_follows s0 (case on_cursor rvli s of (n, s) \<Rightarrow> rt_gap n s)"
  by (simp add: split_beta rt_intros)

lemma op_fill_safe [rt_intros]:
  assumes "rt_follows s0 s"
  shows "rt_safe s0 (op_fill op s)"
proof -
  define s1 where "s1 = (if op \<le> 3 then (case on_cursor rvli s of (n, s) \<Rightarrow> rt_gap n s) else s)"
  define width where "width = [4, 2, 1 :: nat] ! ((unat op - 1) mod 3)"
  define s2 where "s2 = snd (on_cursor (rtake width) s1)"
  define s3 where "s3 = snd (on_cursor rvli s2)"
  define pat where "pat = fst (on_cursor (rtake width) s1)"
  define n where "n = fst (on_cursor rvli s2)"
  have s3: "rt_follows s0 s3"
    unfolding s3_def s2_def s1_def by (intro rt_intros assms)
  have pat: "length pat = width" if "c_err (rt_cur s3) = None"
  proof -
    have "c_err (snd (rvli (snd (rtake width (rt_cur s1))))) = None"
      using that by (simp add: s3_def s2_def on_cursor_def split_beta Let_def)
    from rtake_length [OF rvli_sticky [OF this]] show ?thesis
      by (simp add: pat_def on_cursor_def split_beta Let_def)
  qed
  have eq: "op_fill op s =
     (if c_err (rt_cur s3) \<noteq> None then Inr s3
      else if \<not> bound (rt_pos s3) n (length (rt_out s3)) then Inl (Error FillOutside)
      else if 0 < n \<and> length pat < width then Inl Panic
      else bindE (put_slice (rt_pos s3) (map (\<lambda>i. pat ! (i mod width)) [0..<nat n]) (rt_out s3)) (\<lambda>out.
        Inr (s3\<lparr>rt_out := out, rt_pos := rt_pos s3 + n\<rparr>)))"
    by (simp only: op_fill_def Let_def split_beta s3_def s2_def s1_def pat_def n_def width_def)
  show ?thesis unfolding eq
    using pat s3 by (auto intro!: rt_intros rt_write_safe)
qed

lemma rt_follows_snd [rt_intros]:
  "rt_follows s0 s \<Longrightarrow> rt_follows s0 (snd (a, s))"
  "(b \<Longrightarrow> rt_follows s0 (snd x)) \<Longrightarrow> (\<not> b \<Longrightarrow> rt_follows s0 (snd y)) \<Longrightarrow> rt_follows s0 (snd (if b then x else y))"
  by simp_all

lemma delta_loop_safe [rt_intros]: "rt_follows s0 s \<Longrightarrow> rt_safe s0 (delta_loop k each width v s)"
proof (induction k arbitrary: v s)
  case 0
  then show ?case by (simp add: rt_intros)
next
  case (Suc k)
  show ?case
    unfolding delta_loop.simps Let_def split_beta by (intro rt_intros Suc)
qed

lemma read_value_follows [rt_intros]: "rt_follows s0 s \<Longrightarrow> rt_follows s0 (snd (read_value k i v s))"
proof (induction k arbitrary: i v s)
  case (Suc k)
  then show ?case by (simp add: split_beta Let_def rt_intros)
qed simp

lemma op_deltas_safe [rt_intros]:
  assumes "rt_follows s0 s"
  shows "rt_safe s0 (op_deltas op s)"
  unfolding op_deltas_def Let_def split_beta
  by (intro rt_intros assms)

lemma op_zero_safe [rt_intros]:
  assumes "rt_follows s0 s"
  shows "rt_safe s0 (op_zero op s)"
  unfolding op_zero_def Let_def split_beta
  by (intro rt_intros rt_write_safe assms) simp_all

lemma op_template_safe [rt_intros]:
  assumes "rt_follows s0 s"
  shows "rt_safe s0 (op_template old op s)"
  unfolding op_template_def Let_def split_beta
  by (intro rt_intros assms)

lemma op_copy_safe [rt_intros]:
  assumes "rt_follows s0 s"
  shows "rt_safe s0 (op_copy old op s)"
  unfolding op_copy_def Let_def split_beta
  by (intro rt_intros assms)

lemma flush_gaps_safe:
  assumes "rt_follows s0 s"
    "rt_ok s0 \<Longrightarrow> \<forall>(off, n)\<in>set gs. 0 \<le> off \<and> 0 < n \<and> off + n \<le> int (length (rt_out s))"
  shows "rt_safe s0 (flush_gaps gs s)"
  using assms
proof (induction gs arbitrary: s)
  case Nil
  then show ?case by (simp add: rt_intros)
next
  case (Cons g gs)
  obtain off n where g: "g = (off, n)" by (cases g)
  define b where "b = fst (on_cursor (rtake (nat n)) s)"
  define s1 where "s1 = snd (on_cursor (rtake (nat n)) s)"
  have s1: "rt_follows s0 s1" unfolding s1_def by (intro rt_intros Cons.prems)
  have out: "rt_out s1 = rt_out s" by (simp add: s1_def on_cursor_def split_beta Let_def)
  have eq: "flush_gaps (g # gs) s = (if c_err (rt_cur s1) \<noteq> None then Inr s1
      else bindE (put_slice off b (rt_out s1)) (\<lambda>out. flush_gaps gs (s1\<lparr>rt_out := out\<rparr>)))"
    by (simp only: g flush_gaps.simps Let_def split_beta b_def s1_def)
  show ?case
  proof (cases "c_err (rt_cur s1) = None \<and> rt_ok s0")
    case False
    have "rt_safe s0 (bindE (put_slice off b (rt_out s1)) (\<lambda>out. flush_gaps gs (s1\<lparr>rt_out := out\<rparr>)))" if "\<not> rt_ok s0"
    proof (cases "put_slice off b (rt_out s1) :: rt_error fault + bytes")
      case (Inl e)
      with that show ?thesis by (simp add: rt_safe_def)
    next
      case (Inr w)
      then have "length w = length (rt_out s1)" by (auto simp: put_slice_def split: if_splits)
      with Inr that s1 Cons.IH [of "s1\<lparr>rt_out := w\<rparr>"] show ?thesis by (simp add: rt_follows_out)
    qed
    with False s1 eq show ?thesis by (auto intro: rt_intros)
  next
    case True
    then have "length b = nat n"
      using rtake_length by (simp add: b_def s1_def on_cursor_def split_beta Let_def)
    with True Cons.prems(2) g out have "0 \<le> off" "off + int (length b) \<le> int (length (rt_out s1))" by auto
    from put_slice_ok [OF this] obtain w where
      w: "put_slice off b (rt_out s1) = (Inr w :: rt_error fault + bytes)" "length w = length (rt_out s1)" by blast
    have "rt_safe s0 (flush_gaps gs (s1\<lparr>rt_out := w\<rparr>))"
      by (rule Cons.IH) (use w s1 out Cons.prems(2) in \<open>auto simp: rt_follows_out\<close>)
    with True w eq show ?thesis by simp
  qed
qed

lemma op_flush_safe [rt_intros]:
  assumes "rt_follows s0 s"
  shows "rt_safe s0 (op_flush s)"
proof -
  define s1 where "s1 = rt_gap (int (length (rt_out s)) - rt_pos s) s"
  have s1: "rt_follows s0 s1" unfolding s1_def by (intro rt_intros assms)
  have "rt_safe s0 (flush_gaps (rt_gaps s1) s1)"
    by (rule flush_gaps_safe [OF s1]) (use s1 in \<open>auto simp: rt_follows_def rt_ok_def\<close>)
  then show ?thesis unfolding op_flush_def Let_def s1_def [symmetric] by (intro rt_intros)
qed

definition step_safe :: "rt \<Rightarrow> rt_error fault + rt_step \<Rightarrow> bool" where
  "step_safe s0 r = (case r of
      Inl e \<Rightarrow> rt_ok s0 \<longrightarrow> e \<noteq> Panic
    | Inr (Done w) \<Rightarrow> length w = length (rt_out s0)
    | Inr (More s) \<Rightarrow> rt_follows s0 s)"

lemma step_safe_more: "rt_safe s0 m \<Longrightarrow> step_safe s0 (bindE m (\<lambda>s. Inr (More s)))"
  by (cases m) (auto simp: rt_safe_def step_safe_def)

lemma step_safe_results:
  "step_safe s0 (Inl (Error e))"
  "rt_follows s0 s \<Longrightarrow> step_safe s0 (Inr (Done (rt_out s)))"
  "rt_follows s0 s \<Longrightarrow> step_safe s0 (Inr (More s))"
  "(b \<Longrightarrow> step_safe s0 r) \<Longrightarrow> (\<not> b \<Longrightarrow> step_safe s0 r') \<Longrightarrow> step_safe s0 (if b then r else r')"
  by (simp_all add: step_safe_def rt_follows_def)

lemma rt_op_safe:
  assumes "rt_follows s0 s"
  shows "step_safe s0 (rt_op old op s)"
  unfolding rt_op_def Let_def split_beta
  by (intro step_safe_results step_safe_more rt_intros assms)

section \<open>The loop\<close>

definition rt_step :: "bytes \<Rightarrow> rt \<Rightarrow> rt_error fault + rt_step" where
  "rt_step old s =
     (let (op, s) = on_cursor rbyte s in
      if c_err (rt_cur s) \<noteq> None then Inr (More s) else rt_op old op s)"

lemma rt_step_safe: "step_safe s (rt_step old s)"
  unfolding rt_step_def Let_def split_beta
  by (intro step_safe_results rt_op_safe rt_intros rt_follows_refl)

lemma rt_step_eats:
  assumes "rt_step old s = Inr (More s')" "c_err (rt_cur s') = None"
  shows "length (c_data (rt_cur s')) < length (c_data (rt_cur s))"
proof -
  define s1 where "s1 = snd (on_cursor rbyte s)"
  from assms have none: "c_err (rt_cur s1) = None"
    and op: "rt_op old (fst (on_cursor rbyte s)) s1 = Inr (More s')"
    by (auto simp: rt_step_def split_beta Let_def s1_def split: if_splits)
  have "length (c_data (rt_cur s1)) < length (c_data (rt_cur s))"
    using none by (auto simp: s1_def on_cursor_def rbyte_def rtake_def split_beta Let_def split: if_splits)
  moreover have "step_safe s1 (Inr (More s'))"
    using rt_op_safe [OF rt_follows_refl, of s1 old "fst (on_cursor rbyte s)"] op by simp
  ultimately show ?thesis by (auto simp: step_safe_def rt_follows_def eats_def)
qed

function rt_loop :: "bytes \<Rightarrow> rt \<Rightarrow> rt_error fault + bytes" where
  "rt_loop old s =
     (case c_err (rt_cur s) of
        Some e \<Rightarrow> Inl (Error e)
      | None \<Rightarrow>
          (case rt_step old s of
             Inl e \<Rightarrow> Inl e
           | Inr (Done w) \<Rightarrow> Inr w
           | Inr (More s') \<Rightarrow> rt_loop old s'))"
  by pat_completeness auto
termination
proof (relation "measure (\<lambda>(old, s). if c_err (rt_cur s) = None then Suc (length (c_data (rt_cur s))) else 0)")
  fix old s st s'
  assume "c_err (rt_cur s) = None" "rt_step old s = Inr st" "st = More s'"
  then show "((old, s'), old, s) \<in> measure (\<lambda>(old, s). if c_err (rt_cur s) = None then Suc (length (c_data (rt_cur s))) else 0)"
    using rt_step_eats [of old s s'] by auto
qed simp

declare rt_loop.simps [simp del]

definition applyCode :: "bytes \<Rightarrow> bytes \<Rightarrow> nat \<Rightarrow> rt_error fault + bytes" where
  "applyCode old code sz =
     rt_loop old \<lparr>rt_cur = \<lparr>c_data = code, c_err = None\<rparr>, rt_out = replicate sz 0, rt_pos = 0,
       rt_poke = 0, rt_gaps = [], rt_templates = [], rt_selected = False\<rparr>"

text \<open>\<open>Record.Apply\<close>: the source is checked, then the result.\<close>

definition rt_apply :: "rt_record \<Rightarrow> bytes \<Rightarrow> rt_error fault + bytes" where
  "rt_apply r old =
     (if length old \<noteq> unat (fv_size (rt_old r)) \<or>
         rt_checksum old \<noteq> (fv_w1 (rt_old r), fv_w2 (rt_old r)) then Inl (Error SourceMismatch)
      else if 0x40000000 < fv_size (rt_new r) then Inl (Error TargetLimit)
      else bindE (applyCode old (rt_code r) (unat (fv_size (rt_new r)))) (\<lambda>out.
        if rt_checksum out \<noteq> (fv_w1 (rt_new r), fv_w2 (rt_new r)) then Inl (Error TargetMismatch)
        else Inr out))"

lemma rt_loop_safe:
  "rt_ok s \<Longrightarrow> case rt_loop old s of Inl e \<Rightarrow> e \<noteq> Panic | Inr w \<Rightarrow> length w = length (rt_out s)"
proof (induction old s rule: rt_loop.induct)
  case (1 old s)
  note safe = rt_step_safe [of s old]
  show ?case
  proof (cases "c_err (rt_cur s)")
    case (Some e)
    then show ?thesis by (simp add: rt_loop.simps [of old s])
  next
    case None
    show ?thesis
    proof (cases "rt_step old s")
      case (Inl e)
      with None safe 1(2) show ?thesis by (auto simp: rt_loop.simps [of old s] step_safe_def)
    next
      case (Inr st)
      show ?thesis
      proof (cases st)
        case (Done w)
        with Inr None safe show ?thesis by (simp add: rt_loop.simps [of old s] step_safe_def)
      next
        case (More s')
        with Inr safe have "rt_follows s s'" by (simp add: step_safe_def)
        with 1 None Inr More show ?thesis
          by (simp add: rt_loop.simps [of old s] rt_follows_def split: sum.splits)
      qed
    qed
  qed
qed

text \<open>
  C31: applying a record to any file, with any instructions, returns and never panics; a result
  has exactly the target size and both of the target's checksums, and the source had the size
  and both checksums the record names.
\<close>

theorem rt_apply_checked:
  "case rt_apply r old of
     Inl e \<Rightarrow> e \<noteq> Panic
   | Inr w \<Rightarrow> length w = unat (fv_size (rt_new r)) \<and> length w \<le> 0x40000000 \<and>
       rt_checksum w = (fv_w1 (rt_new r), fv_w2 (rt_new r)) \<and>
       length old = unat (fv_size (rt_old r)) \<and> rt_checksum old = (fv_w1 (rt_old r), fv_w2 (rt_old r))"
proof -
  let ?s = "\<lparr>rt_cur = \<lparr>c_data = rt_code r, c_err = None\<rparr>, rt_out = replicate (unat (fv_size (rt_new r))) 0, rt_pos = 0,
       rt_poke = 0, rt_gaps = [], rt_templates = [], rt_selected = False\<rparr>"
  have "rt_ok ?s" by (simp add: rt_ok_def)
  from rt_loop_safe [OF this, of old] have
    "case applyCode old (rt_code r) (unat (fv_size (rt_new r))) of
       Inl e \<Rightarrow> e \<noteq> Panic | Inr w \<Rightarrow> length w = unat (fv_size (rt_new r))"
    by (simp add: applyCode_def split: sum.splits)
  moreover have "fv_size (rt_new r) \<le> 0x40000000 \<Longrightarrow> unat (fv_size (rt_new r)) \<le> 0x40000000"
    by (simp add: word_le_nat_alt)
  ultimately show ?thesis
    by (cases "applyCode old (rt_code r) (unat (fv_size (rt_new r)))") (auto simp: rt_apply_def not_less)
qed

section \<open>A changed byte changes the checksum\<close>

definition rot8_inv :: "u32 \<Rightarrow> u32" where
  "rot8_inv r = (drop_bit 8 r OR push_bit 23 r) AND 0x7fffffff"

lemma mask31: "(0x7fffffff :: u32) = mask 31"
  by (simp add: mask_eq_exp_minus_1)

lemma rot8_inverse:
  assumes "x AND 0x7fffffff = (x :: u32)"
  shows "rot8_inv ((push_bit 8 x OR drop_bit 23 x) AND 0x7fffffff) = x"
proof (rule bit_word_eqI)
  fix n
  assume n: "n < LENGTH(32)"
  have top: "\<not> bit x 31"
  proof
    assume "bit x 31"
    then have "bit (x AND mask 31) 31" using assms by (simp add: mask31)
    then show False by (simp add: bit_simps)
  qed
  have hi: "\<not> bit x (31 + n)"
    using top bit_imp_le_length [of x "31 + n"] by (cases n) auto
  have "n < 8 \<or> 8 \<le> n \<and> n < 23 \<or> 23 \<le> n \<and> n < 31 \<or> n = 31" using n by auto
  then show "bit (rot8_inv ((push_bit 8 x OR drop_bit 23 x) AND 0x7fffffff)) n = bit x n"
    unfolding rot8_inv_def mask31 using top hi
    by (auto simp: bit_simps not_le)
qed

text \<open>So a step is injective in the accumulator, and in the byte.\<close>

lemma rt_sum1_masked: "rt_sum1 a c AND 0x7fffffff = rt_sum1 a c"
  by (simp add: rt_sum1_def Let_def and.assoc)

lemma xor_byte_masked:
  assumes "a AND 0x7fffffff = (a :: u32)"
  shows "(a XOR ucast (c :: byte)) AND 0x7fffffff = a XOR ucast c"
proof -
  have "ucast c AND 0x7fffffff = (ucast c :: u32)"
    unfolding mask31 by (rule bit_word_eqI) (auto simp: bit_simps dest: bit_imp_le_length)
  with assms show ?thesis by (simp only: bit.conj_xor_distrib2)
qed

lemma rt_sum1_inj:
  assumes "a AND 0x7fffffff = a" "b AND 0x7fffffff = b" "rt_sum1 a c = rt_sum1 b d"
  shows "a XOR ucast c = b XOR ucast d"
proof -
  have "rot8_inv (rt_sum1 a c) = a XOR ucast c" "rot8_inv (rt_sum1 b d) = b XOR ucast d"
    unfolding rt_sum1_def Let_def by (rule rot8_inverse, rule xor_byte_masked, rule assms)+
  with assms(3) show ?thesis by simp
qed

lemma rt_sum1_fold_inj:
  "a AND 0x7fffffff = a \<Longrightarrow> b AND 0x7fffffff = b \<Longrightarrow> foldl rt_sum1 a w = foldl rt_sum1 b w \<Longrightarrow> a = b"
proof (induction w arbitrary: a b)
  case (Cons c w)
  have "rt_sum1 a c = rt_sum1 b c"
    by (rule Cons.IH) (use Cons.prems in \<open>simp_all add: rt_sum1_masked\<close>)
  from rt_sum1_inj [OF Cons.prems(1,2) this] show ?case
    by (simp only: xor_cancel)
qed simp

lemma rt_sum1_fold_masked: "a AND 0x7fffffff = a \<Longrightarrow> foldl rt_sum1 a w AND 0x7fffffff = foldl rt_sum1 a w"
  by (induction w arbitrary: a) (simp_all add: rt_sum1_masked)

text \<open>
  The first checksum of an RTPatch file version detects every change of a single byte,
  wherever it is in the file and whatever surrounds it.
\<close>

theorem rt_checksum_detects:
  assumes "x \<noteq> y"
  shows "rt_checksum (u @ [x] @ v) \<noteq> rt_checksum (u @ [y] @ v)"
proof
  let ?a = "foldl rt_sum1 0 u"
  assume "rt_checksum (u @ [x] @ v) = rt_checksum (u @ [y] @ v)"
  then have "foldl rt_sum1 (rt_sum1 ?a x) v = foldl rt_sum1 (rt_sum1 ?a y) v"
    by (simp only: rt_checksum_def foldl_append foldl.simps prod.inject)
  then have eq: "rt_sum1 ?a x = rt_sum1 ?a y"
    by (rule rt_sum1_fold_inj [OF rt_sum1_masked rt_sum1_masked])
  have "?a AND 0x7fffffff = ?a" by (rule rt_sum1_fold_masked) (rule bit.conj_zero_left)
  from rt_sum1_inj [OF this this eq] have "?a XOR ucast x = ?a XOR ucast y" .
  with assms show False by (simp only: xor_cancel ucast_byte_eq)
qed

lemma rt_checksum_detects_witness: "rt_checksum ([1] @ [2] @ [3]) \<noteq> rt_checksum ([1] @ [4] @ [3])"
  by (rule rt_checksum_detects) simp

section \<open>The format: integers\<close>

definition vli_width :: "nat \<Rightarrow> nat" where
  "vli_width m = (if m < 2 ^ 6 then 0 else if m < 2 ^ 13 then 1 else if m < 2 ^ 20 then 2
     else if m < 2 ^ 27 then 3 else 4)"

definition vli_first :: "bool \<Rightarrow> nat \<Rightarrow> nat \<Rightarrow> byte" where
  "vli_first neg k hi = word_of_nat ((if neg then 128 else 0) + [0, 64, 96, 112, 120] ! k + hi)"

definition enc_vli :: "int \<Rightarrow> bytes" where
  "enc_vli n =
     (let m = nat \<bar>n\<bar>; k = vli_width m
      in vli_first (n < 0) k (m div 256 ^ k) # put_le k (word_of_nat m :: u64))"

lemma vli_first_scan_all:
  "list_all (\<lambda>neg. list_all (\<lambda>k. list_all (\<lambda>hi.
     (let b = vli_first neg k hi; (count, mk) = vli_scan b 64 0
      in count = k \<and> b AND (mk - 1) = word_of_nat hi \<and> ((b AND 128 \<noteq> 0) = neg)))
     [0..<2 ^ (6 - k)]) [0..<5]) [False, True]"
  by code_simp

lemma vli_first_scan:
  assumes "k \<le> 4" "hi < 2 ^ (6 - k)"
  obtains mk where "vli_scan (vli_first neg k hi) 64 0 = (k, mk)"
    "vli_first neg k hi AND (mk - 1) = word_of_nat hi" "(vli_first neg k hi AND 128 \<noteq> 0) = neg"
proof -
  have "neg \<in> set [False, True]" "k \<in> set [0..<5]" "hi \<in> set [0..<2 ^ (6 - k)]" using assms by auto
  with vli_first_scan_all have "let b = vli_first neg k hi; (count, mk) = vli_scan b 64 0
      in count = k \<and> b AND (mk - 1) = word_of_nat hi \<and> ((b AND 128 \<noteq> 0) = neg)"
    by (simp only: list_all_iff)
  then show ?thesis using that by (auto simp: Let_def split: prod.splits)
qed

abbreviation fresh_cursor :: "bytes \<Rightarrow> cursor" where
  "fresh_cursor w \<equiv> \<lparr>c_data = w, c_err = None\<rparr>"

lemma rtake_fresh [simp]: "n = length w \<Longrightarrow> rtake n (fresh_cursor (w @ ws)) = (w, fresh_cursor ws)"
  by (simp add: rtake_def)

lemma rbyte_fresh [simp]: "rbyte (fresh_cursor (b # ws)) = (b, fresh_cursor ws)"
  by (simp add: rbyte_def rtake_def)

lemma or_shift_int: "x < 2 ^ n \<Longrightarrow> int x OR push_bit n (int y) = int (x + 2 ^ n * y)"
  by (simp only: or_shift_nat [symmetric] of_nat_or_eq of_nat_push_bit)

lemma vli_bytes_fresh:
  "vli_bytes (length w) i n (fresh_cursor (w @ ws)) = (n OR push_bit (8 * i) (int (le_nat w)), fresh_cursor ws)"
proof (induction w arbitrary: i n)
  case Nil
  then show ?case by simp
next
  case (Cons b w)
  have "unat b < 2 ^ 8" using unat_byte_less [of b] by simp
  then have "int (le_nat (b # w)) = uint b OR push_bit 8 (int (le_nat w))"
    using or_shift_int [of "unat b" 8 "le_nat w"] by (simp add: mult.commute)
  then have "push_bit (8 * i) (int (le_nat (b # w)))
      = push_bit (8 * i) (uint b) OR push_bit (8 * (i + 1)) (int (le_nat w))"
    by (simp add: push_bit_or add.commute)
  moreover have "length (b # w) = Suc (length w)" by simp
  ultimately show ?case
    by (simp only: append_Cons vli_bytes.simps rbyte_fresh Let_def prod.case or.assoc Cons.IH)
qed

lemma rvli_enc_vli:
  assumes "\<bar>n\<bar> < 2 ^ 34"
  shows "rvli (fresh_cursor (enc_vli n @ ws)) = (n, fresh_cursor ws)"
proof -
  define m where "m = nat \<bar>n\<bar>"
  define k where "k = vli_width m"
  define hi where "hi = m div 256 ^ k"
  have m: "m < 2 ^ 34" using assms by (simp add: m_def nat_less_iff)
  have k: "k \<le> 4" by (simp add: k_def vli_width_def)
  have hi: "hi < 2 ^ (6 - k)"
    using m unfolding hi_def k_def vli_width_def by (auto simp: less_mult_imp_div_less)
  from vli_first_scan [OF k hi] obtain mk where mk:
    "vli_scan (vli_first (n < 0) k hi) 64 0 = (k, mk)"
    "vli_first (n < 0) k hi AND (mk - 1) = word_of_nat hi" "(vli_first (n < 0) k hi AND 128 \<noteq> 0) = (n < 0)"
    by blast
  have "hi < 2 ^ 8" using hi by (rule order_less_le_trans) (rule power_increasing, simp_all)
  then have u: "uint (word_of_nat hi :: byte) = int hi"
    using unat_of_nat_small [of hi, where 'w = 8] by (simp only: uint_nat len_num1 len_bit0 mult_1_right) simp
  have "unat (word_of_nat m :: u64) = m" by (rule unat_of_nat_small) (use m in simp)
  then have le: "le_nat (put_le k (word_of_nat m :: u64)) = m mod 256 ^ k"
    by (simp add: le_nat_put_le)
  have "(256 :: nat) ^ k = 2 ^ (8 * k)" by (simp add: power_mult)
  then have "m mod 256 ^ k < 2 ^ (8 * k)" and split: "m mod 256 ^ k + 2 ^ (8 * k) * hi = m"
    by (simp_all add: hi_def)
  then have "push_bit (8 * k) (int hi) OR int (m mod 256 ^ k) = int m"
    using or_shift_int [of "m mod 256 ^ k" "8 * k" hi] by (simp add: or.commute)
  then have b: "vli_bytes k 0 (push_bit (8 * k) (int hi)) (fresh_cursor (put_le k (word_of_nat m :: u64) @ ws))
      = (int m, fresh_cursor ws)"
    using vli_bytes_fresh [of "put_le k (word_of_nat m :: u64)" 0 "push_bit (8 * k) (int hi)" ws] by (simp add: le)
  have enc: "enc_vli n = vli_first (n < 0) k hi # put_le k (word_of_nat m :: u64)"
    by (simp add: enc_vli_def m_def k_def hi_def Let_def)
  have "(if n < 0 then - int m else int m) = n" by (auto simp: m_def)
  then show ?thesis
    using k mk b by (simp add: rvli_def enc u)
qed

text \<open>
  Every integer below 17179869184 in size, of either sign, is read back from its
  variable-length form, and the reader stops right behind it.
\<close>

theorem rvli_roundtrip:
  assumes "\<bar>n\<bar> < 2 ^ 34"
  shows "rvli (fresh_cursor (enc_vli n @ ws)) = (n, fresh_cursor ws)"
  using assms by (rule rvli_enc_vli)

lemma rvli_roundtrip_witness: "rvli (fresh_cursor (enc_vli (- 70000) @ [5])) = (- 70000, fresh_cursor [5])"
  by (rule rvli_roundtrip) simp

section \<open>The format: a program as pieces of the target\<close>

text \<open>
  A target put together from literal bytes, slices of the source, repeated patterns and runs of
  zeros. Literals are gaps; their bytes follow opcode 18 all together.
\<close>

datatype rt_piece = Lit bytes | Src nat nat | Pat bytes nat | Zeros nat

fun piece_plain :: "bytes \<Rightarrow> rt_piece \<Rightarrow> bytes" where
  "piece_plain old (Lit w) = w"
| "piece_plain old (Src off n) = take n (drop off old)"
| "piece_plain old (Pat w n) = map (\<lambda>i. w ! (i mod length w)) [0..<n]"
| "piece_plain old (Zeros n) = replicate n 0"

fun piece_blank :: "bytes \<Rightarrow> rt_piece \<Rightarrow> bytes" where
  "piece_blank old (Lit w) = replicate (length w) 0"
| "piece_blank old p = piece_plain old p"

fun piece_code :: "rt_piece \<Rightarrow> bytes" where
  "piece_code (Lit w) = 0x0b # enc_vli (int (length w)) @ enc_vli 0"
| "piece_code (Src off n) = 0x14 # enc_vli (int off) @ enc_vli (int n)"
| "piece_code (Pat w n) = (if length w = 4 then 4 else if length w = 2 then 5 else 6) # w @ enc_vli (int n)"
| "piece_code (Zeros n) = 0x0c # enc_vli (int n)"

fun piece_lit :: "rt_piece \<Rightarrow> bytes" where
  "piece_lit (Lit w) = w"
| "piece_lit _ = []"

fun piece_legal :: "bytes \<Rightarrow> rt_piece \<Rightarrow> bool" where
  "piece_legal old (Lit w) \<longleftrightarrow> True"
| "piece_legal old (Src off n) \<longleftrightarrow> off + n \<le> length old"
| "piece_legal old (Pat w n) \<longleftrightarrow> length w = 1 \<or> length w = 2 \<or> length w = 4"
| "piece_legal old (Zeros n) \<longleftrightarrow> True"

definition enc_program :: "rt_piece list \<Rightarrow> bytes" where
  "enc_program ps = [0x15] @ enc_vli 0 @ concat (map piece_code ps)
     @ [0x12] @ concat (map piece_lit ps) @ [0x16]"

definition target_of :: "bytes \<Rightarrow> rt_piece list \<Rightarrow> bytes" where
  "target_of old ps = concat (map (piece_plain old) ps)"

definition blank_of :: "bytes \<Rightarrow> rt_piece list \<Rightarrow> bytes" where
  "blank_of old ps = concat (map (piece_blank old) ps)"

fun gaps_of :: "bytes \<Rightarrow> nat \<Rightarrow> rt_piece list \<Rightarrow> (int \<times> int) list" where
  "gaps_of old pos [] = []"
| "gaps_of old pos (p # ps) =
     (case p of Lit w \<Rightarrow> if w = [] then [] else [(int pos, int (length w))] | _ \<Rightarrow> [])
     @ gaps_of old (pos + length (piece_plain old p)) ps"

lemma length_piece_blank [simp]: "length (piece_blank old p) = length (piece_plain old p)"
  by (cases p) auto

lemma length_blank_of: "length (blank_of old ps) = length (target_of old ps)"
  by (induction ps) (auto simp: blank_of_def target_of_def)

lemma gaps_of_append:
  "gaps_of old pos (ps @ qs) = gaps_of old pos ps @ gaps_of old (pos + length (target_of old ps)) qs"
  by (induction ps arbitrary: pos) (auto simp: target_of_def add.assoc)

text \<open>The interpreter's state in the middle of a program.\<close>

definition mid :: "bytes \<Rightarrow> bytes \<Rightarrow> nat \<Rightarrow> rt_piece list \<Rightarrow> rt" where
  "mid old code sz ps = \<lparr>rt_cur = fresh_cursor code,
     rt_out = blank_of old ps @ replicate (sz - length (target_of old ps)) 0,
     rt_pos = int (length (target_of old ps)), rt_poke = 0, rt_gaps = gaps_of old 0 ps,
     rt_templates = [], rt_selected = True\<rparr>"

lemma on_cursor_mid:
  "f (fresh_cursor code) = (v, fresh_cursor code') \<Longrightarrow>
    on_cursor f (mid old code sz ps) = (v, mid old code' sz ps)"
  by (simp add: on_cursor_def mid_def)

lemma put_slice_middle:
  "length w = length v \<Longrightarrow> put_slice (int (length A)) w (A @ v @ B) = Inr (A @ w @ B)"
  by (simp add: put_slice_def)

lemma enc_vli_small [simp]: "rvli (fresh_cursor (enc_vli (int n) @ ws)) = (int n, fresh_cursor ws)" if "n < 2 ^ 34"
  using that by (intro rvli_enc_vli) simp

lemma enc_vli_zero [simp]: "rvli (fresh_cursor (enc_vli 0 @ ws)) = (0, fresh_cursor ws)"
  by (rule rvli_enc_vli) simp

lemma target_of_snoc: "target_of old (ps @ [p]) = target_of old ps @ piece_plain old p"
  by (simp add: target_of_def)

lemma blank_of_snoc: "blank_of old (ps @ [p]) = blank_of old ps @ piece_blank old p"
  by (simp add: blank_of_def)

text \<open>Writing the plain bytes of a piece at the position.\<close>

lemma mid_write:
  assumes "length (target_of old (ps @ [p])) \<le> sz" "\<And>w. p \<noteq> Lit w"
  shows "put_slice (int (length (target_of old ps))) (piece_plain old p) (rt_out (mid old code sz ps))
      = (Inr (rt_out (mid old code sz (ps @ [p]))) :: rt_error fault + bytes)"
    and "mid old code sz (ps @ [p]) = mid old code sz ps
      \<lparr>rt_out := rt_out (mid old code sz (ps @ [p])),
       rt_pos := int (length (target_of old ps)) + int (length (piece_plain old p))\<rparr>"
proof -
  let ?n = "length (piece_plain old p)"
  have "sz - length (target_of old ps) = ?n + (sz - length (target_of old (ps @ [p])))"
    using assms(1) by (simp add: target_of_snoc)
  then have out: "rt_out (mid old code sz ps)
      = blank_of old ps @ replicate ?n 0 @ replicate (sz - length (target_of old (ps @ [p]))) 0"
    by (simp add: mid_def replicate_add)
  have nolit: "\<exists>a b. p = Src a b \<or> p = Zeros b \<or> (\<exists>w. p = Pat w b)"
  proof (cases p)
    case (Lit w)
    with assms(2) show ?thesis by blast
  qed auto
  then have blank: "piece_blank old p = piece_plain old p" by auto
  show "put_slice (int (length (target_of old ps))) (piece_plain old p) (rt_out (mid old code sz ps))
      = (Inr (rt_out (mid old code sz (ps @ [p]))) :: rt_error fault + bytes)"
    unfolding out length_blank_of [symmetric]
    by (subst put_slice_middle) (simp_all add: mid_def blank_of_snoc blank target_of_snoc length_blank_of)
  show "mid old code sz (ps @ [p]) = mid old code sz ps
      \<lparr>rt_out := rt_out (mid old code sz (ps @ [p])),
       rt_pos := int (length (target_of old ps)) + int (length (piece_plain old p))\<rparr>"
    using nolit by (elim exE disjE) (simp_all add: mid_def target_of_snoc gaps_of_append)
qed

lemma mid_fields [simp]:
  "c_err (rt_cur (mid old code sz ps)) = None"
  "c_data (rt_cur (mid old code sz ps)) = code"
  "rt_pos (mid old code sz ps) = int (length (target_of old ps))"
  "rt_selected (mid old code sz ps) = True"
  "rt_gaps (mid old code sz ps) = gaps_of old 0 ps"
  by (simp_all add: mid_def)

lemma mid_length: "length (target_of old ps) \<le> sz \<Longrightarrow> length (rt_out (mid old code sz ps)) = sz"
  by (simp add: mid_def length_blank_of)

lemma mid_bound:
  "length (target_of old ps) + n \<le> sz \<Longrightarrow> bound (int (length (target_of old ps))) (int n) (length (rt_out (mid old code sz ps)))"
  by (simp add: mid_length bound_def)


lemma put_slice_nil: "0 \<le> off \<Longrightarrow> off \<le> int (length out) \<Longrightarrow> put_slice off [] out = Inr out"
  by (simp add: put_slice_def)

lemma mid_gap:
  assumes "length (target_of old (ps @ [Lit w])) \<le> sz"
  shows "rt_gap (int (length w)) (mid old code sz ps) = mid old code sz (ps @ [Lit w])"
proof -
  have "sz - length (target_of old ps) = length w + (sz - length (target_of old (ps @ [Lit w])))"
    using assms by (simp add: target_of_snoc)
  then have "rt_out (mid old code sz (ps @ [Lit w])) = rt_out (mid old code sz ps)"
    by (simp add: mid_def blank_of_snoc replicate_add)
  moreover have "bound (int (length (target_of old ps))) (int (length w)) (length (rt_out (mid old code sz ps)))"
    using assms by (intro mid_bound) (simp add: target_of_snoc)
  ultimately show ?thesis
    by (simp add: rt_gap_def) (auto simp: mid_def target_of_snoc gaps_of_append)
qed

lemma rt_step_mid:
  "rt_step old (mid old (op # code) sz ps) = rt_op old op (mid old code sz ps)"
  by (simp add: rt_step_def on_cursor_mid [where f = rbyte, OF rbyte_fresh])

lemma piece_step:
  assumes "piece_legal old p" "length (target_of old (ps @ [p])) \<le> sz" "sz \<le> 0x40000000" "length old \<le> 0x40000000"
  shows "rt_step old (mid old (piece_code p @ code) sz ps) = Inr (More (mid old code sz (ps @ [p])))"
proof (cases p)
  case (Lit w)
  then have small: "length w < 2 ^ 34" using assms(2,3) by (simp add: target_of_snoc)
  let ?m = "mid old code sz (ps @ [p])"
  have b: "bound (rt_pos ?m) 0 (length (rt_out ?m))" using assms(2) by (simp add: mid_length bound_def)
  have p: "put_slice (rt_pos ?m) [] (rt_out ?m) = (Inr (rt_out ?m) :: rt_error fault + bytes)"
    using assms(2) by (intro put_slice_nil) (simp_all add: mid_length)
  have "on_cursor rvli (mid old (enc_vli (int (length w)) @ enc_vli 0 @ code) sz ps)
      = (int (length w), mid old (enc_vli 0 @ code) sz ps)"
    by (rule on_cursor_mid) (rule enc_vli_small, rule small)
  moreover have "rt_gap (int (length w)) (mid old (enc_vli 0 @ code) sz ps) = mid old (enc_vli 0 @ code) sz (ps @ [p])"
    using assms(2) Lit by (simp add: mid_gap)
  moreover have "on_cursor rvli (mid old (enc_vli 0 @ code) sz (ps @ [p])) = (0, ?m)"
    by (rule on_cursor_mid) simp
  moreover have "?m\<lparr>rt_out := rt_out ?m, rt_pos := rt_pos ?m + 0\<rparr> = ?m" by simp
  ultimately have "op_zero 0xb (mid old (enc_vli (int (length w)) @ enc_vli 0 @ code) sz ps) = Inr ?m"
    using b p by (simp add: op_zero_def Let_def)
  then show ?thesis using Lit by (simp add: rt_step_mid rt_op_def)
next
  case (Src off n)
  with assms have n: "off + n \<le> length old" "off < 2 ^ 34" "n < 2 ^ 34" by auto
  have len: "length (piece_plain old p) = n" using Src n by simp
  note w = mid_write [OF assms(2), unfolded len]
  have "on_cursor rvli (mid old (enc_vli (int off) @ enc_vli (int n) @ code) sz ps)
      = (int off, mid old (enc_vli (int n) @ code) sz ps)"
    by (rule on_cursor_mid) (rule enc_vli_small, use n in simp)
  moreover have "on_cursor rvli (mid old (enc_vli (int n) @ code) sz ps) = (int n, mid old code sz ps)"
    by (rule on_cursor_mid) (rule enc_vli_small, use n in simp)
  moreover have "copy_source old (int off, int n) (mid old code sz ps) = Inr (mid old code sz (ps @ [p]))"
  proof -
    have "bound (int (length (target_of old ps))) (int n) (length (rt_out (mid old code sz ps)))"
      using assms(2) Src n by (intro mid_bound) (simp add: target_of_snoc)
    moreover have "bound (int off) (int n) (length old)" using n by (simp add: bound_def)
    moreover have "get_slice (int off) (int n) old = (Inr (piece_plain old p) :: rt_error fault + bytes)"
      using n Src by (simp add: get_slice_def)
    ultimately show ?thesis using w(1) w(2) Src by (simp add: copy_source_def)
  qed
  ultimately have "op_copy old 0x14 (mid old (enc_vli (int off) @ enc_vli (int n) @ code) sz ps)
      = Inr (mid old code sz (ps @ [p]))"
    by (simp add: op_copy_def Let_def)
  then show ?thesis using Src by (simp add: rt_step_mid rt_op_def)
next
  case (Zeros n)
  with assms have n: "n < 2 ^ 34" by (simp add: target_of_snoc)
  have len: "length (piece_plain old p) = n" using Zeros by simp
  note w = mid_write [OF assms(2), unfolded len]
  have "on_cursor rvli (mid old (enc_vli (int n) @ code) sz ps) = (int n, mid old code sz ps)"
    by (rule on_cursor_mid) (rule enc_vli_small, use n in simp)
  moreover have "bound (int (length (target_of old ps))) (int n) (length (rt_out (mid old code sz ps)))"
    using assms(2) Zeros by (intro mid_bound) (simp add: target_of_snoc)
  ultimately have "op_zero 0xc (mid old (enc_vli (int n) @ code) sz ps) = Inr (mid old code sz (ps @ [p]))"
    using w(1) w(2) Zeros by (simp add: op_zero_def Let_def)
  then show ?thesis using Zeros by (simp add: rt_step_mid rt_op_def)
next
  case (Pat v n)
  with assms have n: "n < 2 ^ 34" by (simp add: target_of_snoc)
  have len: "length (piece_plain old p) = n" using Pat by simp
  note w = mid_write [OF assms(2), unfolded len]
  have b: "bound (int (length (target_of old ps))) (int n) (length (rt_out (mid old code sz ps)))"
    using assms(2) Pat by (intro mid_bound) (simp add: target_of_snoc)
  have vn: "on_cursor rvli (mid old (enc_vli (int n) @ code) sz ps) = (int n, mid old code sz ps)"
    by (rule on_cursor_mid) (rule enc_vli_small, use n in simp)
  have tk: "on_cursor (rtake (length v)) (mid old (v @ enc_vli (int n) @ code) sz ps)
      = (v, mid old (enc_vli (int n) @ code) sz ps)"
    by (rule on_cursor_mid) simp
  have op: "op_fill op (mid old (v @ enc_vli (int n) @ code) sz ps) = Inr (mid old code sz (ps @ [p]))"
    if "\<not> op \<le> 3" "[4, 2, 1] ! ((unat op - 1) mod 3) = length v" for op
    using that(1) b w(1) w(2) Pat unfolding op_fill_def Let_def that(2) by (simp add: tk vn)
  consider "length v = 4" | "length v = 2" | "length v = 1" using assms(1) Pat by auto
  then show ?thesis
  proof cases
    case 1
    then have "op_fill 4 (mid old (v @ enc_vli (int n) @ code) sz ps) = Inr (mid old code sz (ps @ [p]))"
      by (intro op) simp_all
    with 1 Pat show ?thesis by (simp add: rt_step_mid rt_op_def)
  next
    case 2
    then have "op_fill 5 (mid old (v @ enc_vli (int n) @ code) sz ps) = Inr (mid old code sz (ps @ [p]))"
      by (intro op) simp_all
    with 2 Pat show ?thesis by (simp add: rt_step_mid rt_op_def)
  next
    case 3
    then have "op_fill 6 (mid old (v @ enc_vli (int n) @ code) sz ps) = Inr (mid old code sz (ps @ [p]))"
      by (intro op) simp_all
    with 3 Pat show ?thesis by (simp add: rt_step_mid rt_op_def)
  qed
qed

lemma rt_loop_more:
  "c_err (rt_cur s) = None \<Longrightarrow> rt_step old s = Inr (More s') \<Longrightarrow> rt_loop old s = rt_loop old s'"
  by (subst rt_loop.simps) simp

lemma pieces_loop:
  assumes "list_all (piece_legal old) qs" "length (target_of old (ps @ qs)) \<le> sz"
    "sz \<le> 0x40000000" "length old \<le> 0x40000000"
  shows "rt_loop old (mid old (concat (map piece_code qs) @ code) sz ps) = rt_loop old (mid old code sz (ps @ qs))"
  using assms
proof (induction qs arbitrary: ps)
  case Nil
  then show ?case by simp
next
  case (Cons q qs)
  have fits: "length (target_of old (ps @ [q])) \<le> sz"
    using Cons.prems(2) by (simp add: target_of_def)
  have "rt_loop old (mid old (concat (map piece_code (q # qs)) @ code) sz ps)
      = rt_loop old (mid old (concat (map piece_code qs) @ code) sz (ps @ [q]))"
    using piece_step [OF _ fits, of "concat (map piece_code qs) @ code"] Cons.prems
    by (intro rt_loop_more) simp_all
  also have "\<dots> = rt_loop old (mid old code sz ((ps @ [q]) @ qs))"
    by (rule Cons.IH) (use Cons.prems in simp_all)
  finally show ?case by simp
qed

lemma flush_gaps_pieces:
  "rt_cur s = fresh_cursor (concat (map piece_lit ps) @ rest) \<Longrightarrow> rt_out s = A @ blank_of old ps @ B \<Longrightarrow>
    length A = pos \<Longrightarrow>
    flush_gaps (gaps_of old pos ps) s
      = Inr (s\<lparr>rt_cur := fresh_cursor rest, rt_out := A @ target_of old ps @ B\<rparr>)"
proof (induction ps arbitrary: s A pos)
  case Nil
  then show ?case by (simp add: blank_of_def target_of_def)
next
  case (Cons p ps)
  show ?case
  proof (cases "\<exists>w. p = Lit w \<and> w \<noteq> []")
    case True
    then obtain w where p: "p = Lit w" "w \<noteq> []" by blast
    let ?s = "s\<lparr>rt_cur := fresh_cursor (concat (map piece_lit ps) @ rest), rt_out := (A @ w) @ blank_of old ps @ B\<rparr>"
    have rd: "on_cursor (rtake (length w)) s = (w, s\<lparr>rt_cur := fresh_cursor (concat (map piece_lit ps) @ rest)\<rparr>)"
      using Cons.prems(1) p by (simp add: on_cursor_def)
    have "put_slice (int (length A)) w (A @ replicate (length w) 0 @ (blank_of old ps @ B))
        = (Inr (A @ w @ blank_of old ps @ B) :: rt_error fault + bytes)"
      by (rule put_slice_middle) simp
    then have "flush_gaps (gaps_of old pos (p # ps)) s = flush_gaps (gaps_of old (pos + length w) ps) ?s"
      using Cons.prems p by (simp add: rd blank_of_def)
    also have "\<dots> = Inr (?s\<lparr>rt_cur := fresh_cursor rest, rt_out := (A @ w) @ target_of old ps @ B\<rparr>)"
      by (rule Cons.IH) (use Cons.prems in simp_all)
    finally show ?thesis using p by (simp add: target_of_def)
  next
    case False
    then have "piece_blank old p = piece_plain old p" "piece_lit p = []"
      "(case p of Lit w \<Rightarrow> if w = [] then [] else [(int pos, int (length w))] | _ \<Rightarrow> []) = []"
      by (cases p; simp)+
    then show ?thesis
      using Cons.IH [of s "A @ piece_plain old p" "pos + length (piece_plain old p)"] Cons.prems
      by (simp add: blank_of_def target_of_def)
  qed
qed

lemma applyCode_program:
  assumes "list_all (piece_legal old) ps" "length (target_of old ps) \<le> 0x40000000" "length old \<le> 0x40000000"
  shows "applyCode old (enc_program ps) (length (target_of old ps)) = Inr (target_of old ps)"
proof -
  let ?sz = "length (target_of old ps)"
  let ?tail = "[0x12] @ concat (map piece_lit ps) @ [0x16]"
  let ?code = "concat (map piece_code ps) @ ?tail"
  define s0 where "s0 = \<lparr>rt_cur = fresh_cursor (enc_vli 0 @ ?code), rt_out = replicate ?sz 0, rt_pos = 0,
    rt_poke = 0, rt_gaps = [], rt_templates = [], rt_selected = False\<rparr>"
  have "applyCode old (enc_program ps) ?sz = rt_loop old (s0\<lparr>rt_cur := fresh_cursor (0x15 # enc_vli 0 @ ?code)\<rparr>)"
    by (simp add: applyCode_def enc_program_def s0_def)
  also have "\<dots> = rt_loop old (mid old ?code ?sz [])"
    by (rule rt_loop_more)
      (simp_all add: rt_step_def rt_op_def on_cursor_def s0_def mid_def target_of_def blank_of_def)
  also have "\<dots> = rt_loop old (mid old ?tail ?sz ps)"
    using pieces_loop [of old ps "[]" ?sz ?tail] assms by simp
  also have "\<dots> = rt_loop old ((mid old [0x16] ?sz ps)\<lparr>rt_out := target_of old ps, rt_gaps := []\<rparr>)"
  proof (rule rt_loop_more)
    let ?m = "mid old (concat (map piece_lit ps) @ [0x16]) ?sz ps"
    have "rt_gap (int (length (rt_out ?m)) - rt_pos ?m) ?m = ?m"
      by (simp add: mid_length rt_gap_def bound_def)
    moreover have "flush_gaps (gaps_of old 0 ps) ?m
        = Inr (?m\<lparr>rt_cur := fresh_cursor [0x16], rt_out := [] @ target_of old ps @ []\<rparr>)"
      by (rule flush_gaps_pieces) (simp_all add: mid_def)
    ultimately have "op_flush ?m = Inr ((mid old [0x16] ?sz ps)\<lparr>rt_out := target_of old ps, rt_gaps := []\<rparr>)"
      by (simp add: op_flush_def Let_def) (simp add: mid_def)
    then show "rt_step old (mid old ?tail ?sz ps)
        = Inr (More ((mid old [0x16] ?sz ps)\<lparr>rt_out := target_of old ps, rt_gaps := []\<rparr>))"
      by (simp add: rt_step_mid rt_op_def)
  qed simp
  also have "\<dots> = Inr (target_of old ps)"
    by (subst rt_loop.simps) (simp add: rt_step_def rt_op_def on_cursor_def mid_def rbyte_fresh [of _ "[]", simplified])
  finally show ?thesis .
qed

text \<open>
  C10: the instruction interpreter computes what the instructions mean: a program made of
  literals, slices of the source, patterns and zero runs rebuilds exactly the concatenation of
  those pieces, with every literal delivered to its gap by the flush at the end.
\<close>

theorem rt_program_meaning:
  assumes "list_all (piece_legal old) ps" "length (target_of old ps) \<le> 0x40000000" "length old \<le> 0x40000000"
  shows "applyCode old (enc_program ps) (length (target_of old ps)) = Inr (target_of old ps)"
  using assms by (rule applyCode_program)

lemma rt_program_meaning_witness:
  "applyCode [1, 2, 3] (enc_program [Lit [9, 8], Src 1 2, Pat [5, 6] 3, Zeros 1]) 8
    = Inr [9, 8, 2, 3, 5, 6, 5, 0]"
proof -
  let ?ps = "[Lit [9, 8], Src 1 2, Pat [5, 6] 3, Zeros 1]"
  have t: "target_of [1, 2, 3] ?ps = [9, 8, 2, 3, 5, 6, 5, 0]" by code_simp
  have l: "length (target_of [1, 2, 3] ?ps) = 8" by code_simp
  have "applyCode [1, 2, 3] (enc_program ?ps) (length (target_of [1, 2, 3] ?ps)) = Inr (target_of [1, 2, 3] ?ps)"
    by (rule rt_program_meaning; (simp only: l)?; simp)
  then show ?thesis unfolding l unfolding t .
qed

end
