(* ===== verification/I3d.thy ===== *)
theory I3d
  imports Prelude
begin

text \<open>
  The Giants shapes cipher (\<open>reconstruct/i3d\<close>): a container of records whose payloads are
  XORed with a Salsa-like keystream. The 4096 key words of the embedded \<open>keyconst.bin\<close> are a
  parameter.
\<close>

datatype i3d_error = I3dEmpty | I3dTruncatedRecord | I3dTruncatedPayload

section \<open>The keystream\<close>

definition rol :: "u32 \<Rightarrow> nat \<Rightarrow> u32" where
  "rol v k = push_bit k v OR drop_bit (32 - k) v"

definition ror :: "u32 \<Rightarrow> nat \<Rightarrow> u32" where
  "ror v k = drop_bit k v OR push_bit (32 - k) v"

definition xor_at :: "nat \<Rightarrow> u32 \<Rightarrow> u32 list \<Rightarrow> u32 list" where
  "xor_at i x key = key[i := key ! i XOR x]"

definition shuffle1 :: "nat \<Rightarrow> nat \<Rightarrow> nat \<Rightarrow> nat \<Rightarrow> u32 list \<Rightarrow> u32 list" where
  "shuffle1 i1 i2 i3 i4 key =
     (let key = xor_at i3 (rol (key ! i2 + key ! i1) 7) key;
          key = xor_at i4 (rol (key ! i3 + key ! i1) 9) key;
          key = xor_at i2 (rol (key ! i3 + key ! i4) 13) key
      in xor_at i1 (ror (key ! i2 + key ! i4) 14) key)"

definition shuffle2 :: "nat \<Rightarrow> nat \<Rightarrow> nat \<Rightarrow> nat \<Rightarrow> u32 list \<Rightarrow> u32 list" where
  "shuffle2 i1 i2 i3 i4 key =
     (let key = xor_at i3 (rol (key ! i2 + key ! i1) 7) key;
          key = xor_at i4 (rol (key ! i2 + key ! i3) 9) key;
          key = xor_at i1 (rol (key ! i3 + key ! i4) 13) key
      in xor_at i2 (ror (key ! i4 + key ! i1) 14) key)"

definition i3d_round :: "u32 list \<Rightarrow> u32 list" where
  "i3d_round key =
     (let key = shuffle1 0x0 0xC 0x4 0x8 key;
          key = shuffle1 0x5 0x1 0x9 0xD key;
          key = shuffle1 0xA 0x6 0xE 0x2 key;
          key = shuffle1 0xF 0xB 0x3 0x7 key;
          key = shuffle2 0x3 0x0 0x1 0x2 key;
          key = shuffle2 0x4 0x5 0x6 0x7 key;
          key = shuffle1 0xA 0x9 0xB 0x8 key
      in shuffle2 0xE 0xF 0xC 0xD key)"

definition with_counter :: "u32 list \<Rightarrow> u64 \<Rightarrow> u32 list" where
  "with_counter key ctr = key[8 := ucast ctr, 9 := ucast (drop_bit 32 ctr)]"

definition keystream_block :: "u32 list \<Rightarrow> u32 list" where
  "keystream_block key = map2 (+) key ((i3d_round ^^ 10) key)"

text \<open>\<open>decryptBlocks\<close>, sixteen words at a time; \<open>buf[i+j]\<close> past the end panics.\<close>

function decryptBlocks :: "u32 list \<Rightarrow> u64 \<Rightarrow> u32 list \<Rightarrow> i3d_error fault + u32 list" where
  "decryptBlocks key ctr buf =
     (if buf = [] then Inr []
      else if length buf < 16 then Inl Panic
      else bindE (decryptBlocks key (ctr + 1) (drop 16 buf)) (\<lambda>rest.
        Inr (map2 (XOR) (take 16 buf) (keystream_block (with_counter key ctr)) @ rest)))"
  by pat_completeness auto
termination by (relation "measure (\<lambda>(key, ctr, buf). length buf)") auto

declare decryptBlocks.simps [simp del]

definition roundUp :: "nat \<Rightarrow> nat \<Rightarrow> nat" where
  "roundUp n to = (if n mod to = 0 then n else n + (to - n mod to))"

definition i3d_decrypt :: "u32 list \<Rightarrow> bytes \<Rightarrow> u64 \<Rightarrow> i3d_error fault + bytes" where
  "i3d_decrypt key buf blockIndex =
     (if buf = [] then Inr []
      else
        let n = roundUp (length buf) 64;
            padded = buf @ replicate (n - length buf) 0
        in bindE (decryptBlocks key blockIndex (words32 (n div 4) padded)) (\<lambda>ws.
           Inr (take (length buf) (concat (map (put_le 4) ws)))))"

section \<open>The container\<close>

definition newDecryptor :: "u32 list \<Rightarrow> byte \<Rightarrow> i3d_error fault + u32 list" where
  "newDecryptor keyConst seed =
     (let off = unat seed * 16 in
      if length keyConst < off + 16 then Inl Panic
      else Inr ((take 16 (drop off keyConst))[8 := 0, 9 := 0]))"

function i3d_records :: "u32 list \<Rightarrow> bytes \<Rightarrow> i3d_error fault + bytes" where
  "i3d_records key rest =
     (if rest = [] then Inr []
      else if length rest < 8 then Inl (Error I3dTruncatedRecord)
      else
        let idx = le_word (take 4 rest) :: u32;
            sz = le_word (take 4 (drop 4 rest)) :: u32;
            rest = drop 8 rest
        in if length rest < unat sz then Inl (Error I3dTruncatedPayload)
           else bindE (i3d_decrypt key (take (unat sz) rest) (ucast idx)) (\<lambda>payload.
                bindE (i3d_records key (drop (unat sz) rest)) (\<lambda>out.
                Inr (put_le 4 idx @ put_le 4 sz @ payload @ out))))"
  by pat_completeness auto
termination by (relation "measure (\<lambda>(key, rest). length rest)") auto

declare i3d_records.simps [simp del]

definition i3d_apply :: "u32 list \<Rightarrow> bytes \<Rightarrow> i3d_error fault + bytes" where
  "i3d_apply keyConst inp =
     (case inp of [] \<Rightarrow> Inl (Error I3dEmpty)
      | seed # rest \<Rightarrow>
          bindE (newDecryptor keyConst seed) (\<lambda>key.
          bindE (i3d_records key rest) (\<lambda>out. Inr (seed # out))))"

section \<open>Decryption is XOR with a stream of its own\<close>

text \<open>The keystream as bytes, for \<open>k\<close> blocks.\<close>

fun keystream :: "u32 list \<Rightarrow> u64 \<Rightarrow> nat \<Rightarrow> bytes" where
  "keystream key ctr 0 = []"
| "keystream key ctr (Suc k) =
     concat (map (put_le 4) (keystream_block (with_counter key ctr))) @ keystream key (ctr + 1) k"

lemma length_xor_at [simp]: "length (xor_at i x key) = length key"
  by (simp add: xor_at_def)

lemma length_shuffle [simp]:
  "length (shuffle1 i1 i2 i3 i4 key) = length key"
  "length (shuffle2 i1 i2 i3 i4 key) = length key"
  by (simp_all only: shuffle1_def shuffle2_def Let_def length_xor_at)

lemma length_i3d_round [simp]: "length (i3d_round key) = length key"
  by (simp only: i3d_round_def Let_def length_shuffle)

lemma length_keystream_block: "length key = 16 \<Longrightarrow> length (keystream_block (with_counter key ctr)) = 16"
proof -
  have "length ((i3d_round ^^ k) key) = length key" for k key by (induction k) auto
  then show "length key = 16 \<Longrightarrow> ?thesis" by (simp add: keystream_block_def with_counter_def)
qed

lemma length_keystream: "length key = 16 \<Longrightarrow> length (keystream key ctr k) = 64 * k"
  by (induction k arbitrary: ctr) (simp_all add: length_keystream_block length_concat_put_le)

lemma concat_put_xor:
  "length ws = length ks \<Longrightarrow> concat (map (put_le 4) (map2 (XOR) ws ks))
    = map2 (XOR) (concat (map (put_le 4) ws)) (concat (map (put_le 4) (ks :: u32 list)))"
proof (induction ws ks rule: list_induct2)
  case (Cons w ws k ks)
  then show ?case by (simp add: put_le_xor zip_append del: put_le.simps)
qed simp

lemma put_words32:
  "length bs = 4 * n \<Longrightarrow> concat (map (put_le 4) (words32 n bs)) = bs"
proof (induction n arbitrary: bs)
  case (Suc n)
  have "put_le 4 (le_word (take 4 bs) :: u32) = take 4 bs"
    by (rule put_le_le_word) (use Suc.prems in simp_all)
  with Suc show ?case by simp
qed simp

lemma length_words32 [simp]: "length (words32 n bs) = n"
  by (induction n arbitrary: bs) auto

lemma decryptBlocks_xor:
  assumes "length key = 16" "length buf = 16 * k"
  shows "\<exists>ws. decryptBlocks key ctr buf = Inr ws \<and> concat (map (put_le 4) ws)
    = map2 (XOR) (concat (map (put_le 4) buf)) (keystream key ctr k)"
  using assms(2)
proof (induction k arbitrary: buf ctr)
  case 0
  then show ?case by (simp add: decryptBlocks.simps)
next
  case (Suc k)
  let ?K = "keystream_block (with_counter key ctr)"
  have K: "length ?K = 16" by (rule length_keystream_block) (rule assms(1))
  have "length (drop 16 buf) = 16 * k" using Suc.prems by simp
  from Suc.IH [OF this, of "ctr + 1"] obtain ws where
    ws: "decryptBlocks key (ctr + 1) (drop 16 buf) = Inr ws"
      "concat (map (put_le 4) ws) = map2 (XOR) (concat (map (put_le 4) (drop 16 buf))) (keystream key (ctr + 1) k)"
    by blast
  have "buf \<noteq> []" "\<not> length buf < 16" using Suc.prems by auto
  then have "decryptBlocks key ctr buf = Inr (map2 (XOR) (take 16 buf) ?K @ ws)"
    using ws(1) by (subst decryptBlocks.simps) simp
  moreover have "concat (map (put_le 4) buf) = concat (map (put_le 4) (take 16 buf)) @ concat (map (put_le 4) (drop 16 buf))"
    by (simp only: concat_append [symmetric] map_append [symmetric] append_take_drop_id)
  moreover have "concat (map (put_le 4) (map2 (XOR) (take 16 buf) ?K))
      = map2 (XOR) (concat (map (put_le 4) (take 16 buf))) (concat (map (put_le 4) ?K))"
    by (rule concat_put_xor) (use K Suc.prems in simp)
  ultimately show ?case
    using ws(2) K Suc.prems by (simp add: zip_append length_concat_put_le)
qed

lemma i3d_decrypt_xor:
  assumes "length key = 16"
  shows "\<exists>k. length buf \<le> 64 * k \<and> i3d_decrypt key buf ix = Inr (map2 (XOR) buf (keystream key ix k)) \<and>
    k = (length buf + 63) div 64"
proof (cases "buf = []")
  case True
  then show ?thesis by (simp add: i3d_decrypt_def)
next
  case False
  define k where "k = (length buf + 63) div 64"
  have n: "roundUp (length buf) 64 = 64 * k"
  proof (cases "length buf mod 64 = 0")
    case True
    then obtain q where "length buf = 64 * q" by (auto simp: mod_eq_0_iff_dvd)
    then show ?thesis by (simp add: roundUp_def k_def)
  next
    case False
    obtain q r where qr: "length buf = 64 * q + r" "r < 64" "r \<noteq> 0"
      using False by (metis mult_div_mod_eq mod_less_divisor zero_less_numeral)
    then have "length buf mod 64 = r" "(length buf + 63) div 64 = q + 1" by auto
    with qr show ?thesis by (simp add: roundUp_def k_def)
  qed
  then have le: "length buf \<le> 64 * k" by (metis roundUp_def le_add1 order_refl)
  let ?padded = "buf @ replicate (64 * k - length buf) 0"
  have len: "length ?padded = 4 * (16 * k)" using le by simp
  from decryptBlocks_xor [OF assms, of "words32 (16 * k) ?padded" k ix] obtain ws where
    ws: "decryptBlocks key ix (words32 (16 * k) ?padded) = Inr ws"
      "concat (map (put_le 4) ws) = map2 (XOR) (concat (map (put_le 4) (words32 (16 * k) ?padded))) (keystream key ix k)"
    by auto
  have "concat (map (put_le 4) (words32 (16 * k) ?padded)) = ?padded"
    by (rule put_words32) (rule len)
  then have "take (length buf) (concat (map (put_le 4) ws))
      = map2 (XOR) (take (length buf) ?padded) (take (length buf) (keystream key ix k))"
    using ws(2) by (simp add: take_map take_zip)
  also have "\<dots> = map2 (XOR) buf (keystream key ix k)"
  proof -
    have "zip buf ks = zip buf (take (length buf) ks)" for ks :: bytes
      by (induction buf arbitrary: ks) (auto split: list.splits simp: zip_Cons1)
    then show ?thesis by (metis append_eq_conv_conj append_take_drop_id take_append diff_is_0_eq' order_refl take_0 append_Nil2 take_all)
  qed
  finally have "i3d_decrypt key buf ix = Inr (map2 (XOR) buf (keystream key ix k))"
    using False ws(1) by (simp add: i3d_decrypt_def n Let_def)
  with le k_def show ?thesis by blast
qed

lemma i3d_decrypt_twice:
  assumes "length key = 16"
  shows "\<exists>w. i3d_decrypt key buf ix = Inr w \<and> length w = length buf \<and> i3d_decrypt key w ix = Inr buf"
proof -
  from i3d_decrypt_xor [OF assms, of buf ix] obtain k where
    k: "length buf \<le> 64 * k" "i3d_decrypt key buf ix = Inr (map2 (XOR) buf (keystream key ix k))"
      "k = (length buf + 63) div 64" by blast
  let ?w = "map2 (XOR) buf (keystream key ix k)"
  have len: "length ?w = length buf" using k(1) assms by (simp add: length_keystream)
  from i3d_decrypt_xor [OF assms, of ?w ix] have
    "i3d_decrypt key ?w ix = Inr (map2 (XOR) ?w (keystream key ix k))"
    unfolding len k(3) [symmetric] by blast
  also have "map2 (XOR) ?w (keystream key ix k) = buf"
    by (rule map2_xor_twice) (use k(1) assms in \<open>simp add: length_keystream\<close>)
  finally show ?thesis using k(2) len by blast
qed

lemma take_append_exact: "length xs = n \<Longrightarrow> take n (xs @ ys) = xs \<and> drop n (xs @ ys) = ys"
  by simp

lemma i3d_records_twice:
  "length key = 16 \<Longrightarrow> i3d_records key rest = Inr out \<Longrightarrow> length out = length rest \<and> i3d_records key out = Inr rest"
proof (induction key rest arbitrary: out rule: i3d_records.induct)
  case (1 key rest)
  show ?case
  proof (cases "rest = []")
    case True
    with 1(3) show ?thesis by (simp add: i3d_records.simps [of key "[]"])
  next
    case False
    let ?idx = "le_word (take 4 rest) :: u32" and ?sz = "le_word (take 4 (drop 4 rest)) :: u32"
    let ?body = "take (unat ?sz) (drop 8 rest)" and ?tail = "drop (unat ?sz) (drop 8 rest)"
    from 1(3) False obtain payload out' where h: "\<not> length rest < 8" "\<not> length (drop 8 rest) < unat ?sz"
      "i3d_decrypt key ?body (ucast ?idx) = Inr payload" "i3d_records key ?tail = Inr out'"
      "out = put_le 4 ?idx @ put_le 4 ?sz @ payload @ out'"
      by (subst (asm) i3d_records.simps) (auto simp only: Let_def bindE_eq_Inr if_Inl_eq_Inr sum.inject if_False)
    have p: "length payload = length ?body" "i3d_decrypt key payload (ucast ?idx) = Inr ?body"
    proof -
      from i3d_decrypt_twice [OF 1(2), of ?body "ucast ?idx"]
      obtain w where w: "i3d_decrypt key ?body (ucast ?idx) = Inr w \<and> length w = length ?body \<and>
        i3d_decrypt key w (ucast ?idx) = Inr ?body" by (rule exE)
      then have "w = payload" using h(3) by (simp only: sum.inject)
      with w show "length payload = length ?body" "i3d_decrypt key payload (ucast ?idx) = Inr ?body" by simp_all
    qed
    have body: "length ?body = unat ?sz" using h(2) by simp
    have IH: "length out' = length ?tail" "i3d_records key out' = Inr ?tail"
      using 1(1) [OF False h(1) refl refl refl h(2) h(3) 1(2) h(4)] by auto
    have four: "put_le 4 ?idx = take 4 rest" "put_le 4 ?sz = take 4 (drop 4 rest)"
      by (rule put_le_le_word; use h(1) in simp)+
    have rest: "take 4 rest @ take 4 (drop 4 rest) @ ?body @ ?tail = rest"
    proof -
      have "drop 8 rest = drop 4 (drop 4 rest)" by simp
      then show ?thesis by (simp only: append_take_drop_id)
    qed
    have fields: "le_word (take 4 out) = ?idx" "le_word (take 4 (drop 4 out)) = ?sz" "drop 8 out = payload @ out'"
      "out \<noteq> []" "\<not> length out < 8"
      by (simp_all add: h(5) flip: length_0_conv)
    have "i3d_records key out = Inr (put_le 4 ?idx @ put_le 4 ?sz @ ?body @ ?tail)"
      using p body IH(2) by (subst i3d_records.simps) (simp add: fields Let_def)
    moreover have "length out = length rest"
      using p(1) body IH(1) h(1,2) by (simp add: h(5))
    ultimately show ?thesis by (simp only: four rest)
  qed
qed

text \<open>
  C30: the cipher is its own inverse on whole containers, for every key table: what a container
  is turned into is turned back into it, byte for byte, with payloads of any length.
\<close>

theorem i3d_involution:
  assumes "length keyConst = 4096" "i3d_apply keyConst inp = Inr out"
  shows "i3d_apply keyConst out = Inr inp \<and> length out = length inp"
proof -
  from assms(2) obtain seed rest key out' where
    h: "inp = seed # rest" "newDecryptor keyConst seed = Inr key" "i3d_records key rest = Inr out'" "out = seed # out'"
    by (auto simp: i3d_apply_def bindE_eq_Inr split: list.splits)
  have "unat seed < 256" by (rule unat_byte_less)
  then have "length key = 16" using h(2) assms(1) by (auto simp: newDecryptor_def Let_def split: if_splits)
  from i3d_records_twice [OF this h(3)] h show ?thesis by (simp add: i3d_apply_def)
qed

lemma i3d_involution_witness:
  "i3d_apply (replicate 4096 0) (7 # put_le 4 (2 :: u32) @ put_le 4 (0 :: u32)) = Inr (7 # put_le 4 (2 :: u32) @ put_le 4 (0 :: u32))
   \<and> length (7 # put_le 4 (2 :: u32) @ put_le 4 (0 :: u32)) = length (7 # put_le 4 (2 :: u32) @ put_le 4 (0 :: u32))"
proof -
  let ?in = "7 # put_le 4 (2 :: u32) @ put_le 4 (0 :: u32)"
  have "newDecryptor (replicate 4096 0) 7 = Inr (replicate 16 0)"
    by (simp add: newDecryptor_def) code_simp
  moreover have "i3d_records (replicate 16 0) (put_le 4 (2 :: u32) @ put_le 4 (0 :: u32)) = Inr (put_le 4 (2 :: u32) @ put_le 4 (0 :: u32))"
    by code_simp
  ultimately have "i3d_apply (replicate 4096 0) ?in = Inr ?in"
    by (simp add: i3d_apply_def)
  with i3d_involution [of "replicate 4096 0" ?in ?in] show ?thesis by simp
qed

lemma i3d_records_no_panic:
  "length key = 16 \<Longrightarrow> i3d_records key rest \<noteq> Inl Panic"
proof (induction key rest rule: i3d_records.induct)
  case (1 key rest)
  let ?idx = "le_word (take 4 rest) :: u32" and ?sz = "le_word (take 4 (drop 4 rest)) :: u32"
  let ?body = "take (unat ?sz) (drop 8 rest)" and ?tail = "drop (unat ?sz) (drop 8 rest)"
  from i3d_decrypt_twice [OF 1(2), of ?body "ucast ?idx"] obtain w where
    w: "i3d_decrypt key ?body (ucast ?idx) = Inr w" by blast
  show ?case
  proof (cases "rest = [] \<or> length rest < 8 \<or> length (drop 8 rest) < unat ?sz")
    case True
    then show ?thesis by (subst i3d_records.simps) (auto simp: Let_def)
  next
    case False
    then have f: "rest \<noteq> []" "\<not> length rest < 8" "\<not> length (drop 8 rest) < unat ?sz" by auto
    from 1(1) [OF f(1,2) refl refl refl f(3) w 1(2)] have "i3d_records key ?tail \<noteq> Inl Panic" .
    then show ?thesis
      using f w by (subst i3d_records.simps) (simp only: Let_def if_False bindE.simps bindE_eq_Inl simp_thms, auto)
  qed
qed

text \<open>
  No container makes the cipher panic: with the full key table every input gives an error
  or a result, and the errors are the three the code names.
\<close>

theorem i3d_no_panic:
  assumes "length keyConst = 4096"
  shows "i3d_apply keyConst inp \<noteq> Inl Panic"
proof (cases inp)
  case (Cons seed rest)
  have "unat seed < 256" by (rule unat_byte_less)
  then obtain key where "newDecryptor keyConst seed = Inr key" "length key = 16"
    using assms by (auto simp: newDecryptor_def Let_def)
  then show ?thesis using Cons i3d_records_no_panic [of key rest]
    by (auto simp: i3d_apply_def bindE_eq_Inl)
qed (simp add: i3d_apply_def)

lemma i3d_no_panic_witness: "i3d_apply (replicate 4096 0) [1, 2, 3] \<noteq> Inl Panic"
  by (rule i3d_no_panic) simp

end
