(* ===== verification/Farm.thy ===== *)
theory Farm
  imports Prelude "HOL-Library.List_Lexorder" "HOL-Library.Multiset"
begin

text \<open>
  Giants Engine packs (\<open>reconstruct/x4\<close>): the tables of the DES variant (\<open>tables.go\<close>), its key
  schedule and block cipher with the RC4 whitening (\<open>cipher.go\<close>), and the packing of a
  directory (\<open>pack.go\<close>, \<open>pad8\<close> of \<open>xxtea.go\<close>).
\<close>

section \<open>Tables\<close>

definition linearizeSbox :: "byte list list \<Rightarrow> byte list" where
  "linearizeSbox sb = map (\<lambda>i. sb ! (2 * (i div 32) + i mod 2) ! (i div 2 mod 16)) [0..<64]"

definition desSboxes :: "byte list list" where
  "desSboxes = [
     linearizeSbox [
       [14, 4, 13, 1, 2, 15, 11, 8, 3, 10, 6, 12, 5, 9, 0, 7],
       [0, 15, 7, 4, 14, 2, 13, 1, 10, 6, 12, 11, 9, 5, 3, 8],
       [4, 1, 14, 8, 13, 6, 2, 11, 15, 12, 9, 7, 3, 10, 5, 0],
       [15, 12, 8, 2, 4, 9, 1, 7, 5, 11, 3, 14, 10, 0, 6, 13]],
     linearizeSbox [
       [15, 1, 8, 14, 6, 11, 3, 4, 9, 7, 2, 13, 12, 0, 5, 10],
       [3, 13, 4, 7, 15, 2, 8, 14, 12, 0, 1, 10, 6, 9, 11, 5],
       [0, 14, 7, 11, 10, 4, 13, 1, 5, 8, 12, 6, 9, 3, 2, 15],
       [13, 8, 10, 1, 3, 15, 4, 2, 11, 6, 7, 12, 0, 5, 14, 9]],
     linearizeSbox [
       [10, 0, 9, 14, 6, 3, 15, 5, 1, 13, 12, 7, 11, 4, 2, 8],
       [13, 7, 0, 9, 3, 4, 6, 10, 2, 8, 5, 14, 12, 11, 15, 1],
       [13, 6, 4, 9, 8, 15, 3, 0, 11, 1, 2, 12, 5, 10, 14, 7],
       [1, 10, 13, 0, 6, 9, 8, 7, 4, 15, 14, 3, 11, 5, 2, 12]],
     linearizeSbox [
       [7, 13, 14, 3, 0, 6, 9, 10, 1, 2, 8, 5, 11, 12, 4, 15],
       [13, 8, 11, 5, 6, 15, 0, 3, 4, 7, 2, 12, 1, 10, 14, 9],
       [10, 6, 9, 0, 12, 11, 7, 13, 15, 1, 3, 14, 5, 2, 8, 4],
       [3, 15, 0, 6, 10, 1, 13, 8, 9, 4, 5, 11, 12, 7, 2, 14]],
     linearizeSbox [
       [2, 12, 4, 1, 7, 10, 11, 6, 8, 5, 3, 15, 13, 0, 14, 9],
       [14, 11, 2, 12, 4, 7, 13, 1, 5, 0, 15, 10, 3, 9, 8, 6],
       [4, 2, 1, 11, 10, 13, 7, 8, 15, 9, 12, 5, 6, 3, 0, 14],
       [11, 8, 12, 7, 1, 14, 2, 13, 6, 15, 0, 9, 10, 4, 5, 3]],
     linearizeSbox [
       [12, 1, 10, 15, 9, 2, 6, 8, 0, 13, 3, 4, 14, 7, 5, 11],
       [10, 15, 4, 2, 7, 12, 9, 5, 6, 1, 13, 14, 0, 11, 3, 8],
       [9, 14, 15, 5, 2, 8, 12, 3, 7, 0, 4, 10, 1, 13, 11, 6],
       [4, 3, 2, 12, 9, 5, 15, 10, 11, 14, 1, 7, 6, 0, 8, 13]],
     linearizeSbox [
       [4, 11, 2, 14, 15, 0, 8, 13, 3, 12, 9, 7, 5, 10, 6, 1],
       [13, 0, 11, 7, 4, 9, 1, 10, 14, 3, 5, 12, 2, 15, 8, 6],
       [1, 4, 11, 13, 12, 3, 7, 14, 10, 15, 6, 8, 0, 5, 9, 2],
       [6, 11, 13, 8, 1, 4, 10, 7, 9, 5, 0, 15, 14, 2, 3, 12]],
     linearizeSbox [
       [13, 2, 8, 4, 6, 15, 11, 1, 10, 9, 3, 14, 5, 0, 12, 7],
       [1, 15, 13, 8, 10, 3, 7, 4, 12, 5, 6, 11, 0, 14, 9, 2],
       [7, 11, 4, 1, 9, 12, 14, 2, 0, 6, 10, 13, 15, 3, 5, 8],
       [2, 1, 14, 7, 4, 10, 8, 13, 15, 12, 9, 0, 3, 5, 6, 11]]]"

definition customPbox :: "nat list" where
  "customPbox = [
     23, 15, 9, 1, 19, 4, 5, 14, 8, 16, 2, 20, 6, 12, 22, 31,
     24, 18, 7, 29, 28, 3, 21, 13, 0, 26, 10, 25, 27, 30, 17, 11]"

definition sboxOrder :: "nat list" where
  "sboxOrder = [1, 0, 2, 3, 4, 5, 7, 6]"

definition buildFusedSP :: "nat \<Rightarrow> u32 list" where
  "buildFusedSP slot =
     (let sb = desSboxes ! (sboxOrder ! slot); base = slot * 4
      in map (\<lambda>i. foldl (\<lambda>out b.
             if (sb ! i) AND push_bit (3 - b) 1 \<noteq> 0 then out OR push_bit (customPbox ! (base + b)) 1 else out)
           0 [0..<4]) [0..<64])"

definition buildSbox7 :: "u32 list" where
  "buildSbox7 = map (\<lambda>i :: nat.
     (let val = (if odd i then 1 else 0);
          val = (if odd (i div 4) then val OR push_bit 8 1 else val);
          val = (if odd (i div 16) then val OR push_bit 16 1 else val)
      in if odd (i div 64) then val OR push_bit 24 1 else val)) [0..<86]"

definition buildSbox8 :: "u32 list" where
  "buildSbox8 = map (\<lambda>i :: nat.
     (let val = (if odd i then push_bit 24 1 else 0);
          val = (if odd (i div 2) then val OR push_bit 16 1 else val);
          val = (if odd (i div 4) then val OR push_bit 8 1 else val)
      in if odd (i div 8) then val OR 1 else val)) [0..<16]"

definition desPC1 :: "nat list" where
  "desPC1 = [
     57, 49, 41, 33, 25, 17, 9, 1, 58, 50, 42, 34, 26, 18, 10, 2,
     59, 51, 43, 35, 27, 19, 11, 3, 60, 52, 44, 36,
     63, 55, 47, 39, 31, 23, 15, 7, 62, 54, 46, 38, 30, 22, 14, 6,
     61, 53, 45, 37, 29, 21, 13, 5, 28, 20, 12, 4]"

definition desPC2 :: "nat list" where
  "desPC2 = [
     14, 17, 11, 24, 1, 5, 3, 28, 15, 6, 21, 10, 23, 19, 12, 4, 26, 8, 16, 7, 27, 20, 13, 2,
     41, 52, 31, 37, 47, 55, 30, 40, 51, 45, 33, 48, 44, 49, 39, 56, 34, 53, 46, 42, 50, 36, 29, 32]"

definition desRot :: "nat list" where
  "desRot = [1, 1, 2, 2, 2, 2, 2, 2, 1, 2, 2, 2, 2, 2, 2, 1]"

section \<open>The key schedule\<close>

record farmCipher =
  subkeys :: "u32 list"
  fc_sbox :: "byte list"

definition swap_at :: "nat \<Rightarrow> nat \<Rightarrow> 'a list \<Rightarrow> 'a list" where
  "swap_at i j s = s[i := s ! j, j := s ! i]"

text \<open>RC4's key scheduling over the 16 key bytes, its third and fourth word first.\<close>

definition rc4_schedule :: "u32 list \<Rightarrow> byte list" where
  "rc4_schedule key =
     (let sched = put_le 4 (key ! 2) @ put_le 4 (key ! 3) @ put_le 4 (key ! 0) @ put_le 4 (key ! 1)
      in fst (foldl (\<lambda>(s, j) i.
           (let j = j + s ! i + sched ! (i mod 16) in (swap_at i (unat j) s, j)))
         (map word_of_nat [0..<256], 0 :: byte) [0..<256]))"

definition rot28 :: "nat \<Rightarrow> u32 \<Rightarrow> u32" where
  "rot28 rot c = (push_bit rot c OR drop_bit (28 - rot) c) AND 0x0fffffff"

definition key_bit :: "bytes \<Rightarrow> nat \<Rightarrow> u64" where
  "key_bit key64 n = ucast (drop_bit (7 - (n - 1) mod 8) (key64 ! ((n - 1) div 8)) AND 1)"

definition cd_bit :: "u64 \<Rightarrow> nat \<Rightarrow> byte" where
  "cd_bit combined pos = ucast (drop_bit (56 - pos) combined AND 1)"

text \<open>The two subkeys of a round: eight groups of six of the 56 bits.\<close>

definition round_keys :: "u64 \<Rightarrow> u32 list" where
  "round_keys combined =
     (let six = map (\<lambda>g. foldl (\<lambda>s p. push_bit 1 s OR cd_bit combined p) 0 (take 6 (drop (6 * g) desPC2))) [0..<8];
          quad = (\<lambda>i. push_bit 24 (ucast (six ! i)) OR push_bit 16 (ucast (six ! (i + 1)))
            OR push_bit 8 (ucast (six ! (i + 2))) OR ucast (six ! (i + 3)))
      in [quad 0, quad 4])"

definition des_schedule :: "u32 list \<Rightarrow> u32 list" where
  "des_schedule key =
     (let key64 = put_le 4 (key ! 0) @ put_le 4 (key ! 1);
          cd = foldl (\<lambda>cd pos. push_bit 1 cd OR key_bit key64 pos) 0 desPC1;
          c28 = ucast (drop_bit 28 cd) AND 0x0fffffff;
          d28 = ucast cd AND 0x0fffffff
      in snd (foldl (\<lambda>((c28, d28), ks) rot.
           (let c28 = rot28 rot c28; d28 = rot28 rot d28;
                combined = push_bit 28 (ucast c28) OR ucast d28
            in ((c28, d28), ks @ round_keys combined))) ((c28, d28), []) desRot))"

definition newFarmCipher :: "u32 list \<Rightarrow> farmCipher" where
  "newFarmCipher key = \<lparr>subkeys = des_schedule key, fc_sbox = rc4_schedule key\<rparr>"

section \<open>One block\<close>

definition initialPerm :: "bytes \<Rightarrow> u32 \<times> u32" where
  "initialPerm block =
     (foldl (\<lambda>e i. push_bit 1 e OR buildSbox7 ! unat (block ! i AND 0x55))
        (buildSbox7 ! unat (block ! 7 AND 0x55)) [6, 5, 4, 3, 2, 1, 0],
      foldl (\<lambda>e i. push_bit 1 e OR buildSbox7 ! unat (drop_bit 1 (block ! i) AND 0x55))
        (buildSbox7 ! unat (drop_bit 1 (block ! 7) AND 0x55)) [6, 5, 4, 3, 2, 1, 0])"

definition spread :: "u32 \<Rightarrow> u32 \<Rightarrow> nat list \<Rightarrow> u32" where
  "spread l r shifts = foldl (\<lambda>x shift.
     (let x = push_bit 1 x OR buildSbox8 ! unat (drop_bit shift l AND 0xf)
      in push_bit 1 x OR buildSbox8 ! unat (drop_bit shift r AND 0xf))) 0 shifts"

definition finalPerm :: "u32 \<Rightarrow> u32 \<Rightarrow> bytes" where
  "finalPerm l r =
     (let ecx = spread l r [24, 16, 8, 0]; eax = spread l r [28, 20, 12, 4]
      in [ucast (drop_bit 24 ecx), ucast (drop_bit 16 ecx), ucast (drop_bit 8 ecx), ucast ecx,
          ucast (drop_bit 24 eax), ucast (drop_bit 16 eax), ucast (drop_bit 8 eax), ucast eax])"

definition feistelRound :: "u32 \<Rightarrow> u32 \<Rightarrow> u32 \<Rightarrow> u32" where
  "feistelRound r ka kb =
     (let rrot = drop_bit 15 r OR push_bit 17 r;
          idx9 = drop_bit 12 (drop_bit 12 ka XOR rrot) AND 0x3f;
          idx10 = drop_bit 8 (drop_bit 8 ka XOR rrot) AND 0x3f;
          idx11 = drop_bit 4 (drop_bit 4 ka XOR rrot) AND 0x3f;
          idx12 = (ka XOR rrot) AND 0x3f;
          spa = buildFusedSP 0 ! unat idx9 OR buildFusedSP 1 ! unat idx10
            OR buildFusedSP 2 ! unat idx11 OR buildFusedSP 3 ! unat idx12;
          idx13 = drop_bit 11 (drop_bit 13 kb XOR r) AND 0x3f;
          idx14 = drop_bit 7 (drop_bit 9 kb XOR r) AND 0x3f;
          idx15 = drop_bit 3 (drop_bit 5 kb XOR r) AND 0x3f;
          idx16 = (drop_bit 16 rrot XOR kb) AND 0x3f;
          spb = buildFusedSP 4 ! unat idx13 OR buildFusedSP 5 ! unat idx14
            OR buildFusedSP 6 ! unat idx15 OR buildFusedSP 7 ! unat idx16
      in spa OR spb)"

definition feistel :: "farmCipher \<Rightarrow> nat \<Rightarrow> bool \<Rightarrow> u32 \<times> u32 \<Rightarrow> u32 \<times> u32" where
  "feistel c rounds forward ab =
     foldl (\<lambda>(a, b) i.
       (let keyIdx = (if forward then 2 * i else 2 * (rounds - 1) - 2 * i);
            f = feistelRound b (subkeys c ! keyIdx) (subkeys c ! (keyIdx + 1))
        in (b, a XOR f))) ab [0..<rounds]"

text \<open>
  The RC4 variant: four steps from \<open>j = 0\<close>, then four steps more with \<open>j\<close> taken from the
  state and not advanced in the first of them.
\<close>

definition rc4_step :: "bool \<Rightarrow> byte list \<times> byte \<times> bytes \<Rightarrow> nat \<Rightarrow> byte list \<times> byte \<times> bytes" where
  "rc4_step advance st i =
     (case st of (s, j, ks) \<Rightarrow>
       (let j = (if advance \<or> 1 < i then j + s ! i else j);
            s = swap_at i (unat j) s
        in (s, j, ks @ [s ! unat (s ! i + s ! unat j)])))"

definition rc4Keystream :: "byte list \<Rightarrow> byte list \<times> bytes" where
  "rc4Keystream s =
     (let (s, j, ks) = foldl (rc4_step True) (s, 0, []) [1, 2, 3, 4];
          (s, j, ks) = foldl (rc4_step False) (s, s ! 1, ks) [1, 2, 3, 4]
      in (s, ks))"

definition rc4Halves :: "byte list \<Rightarrow> byte list \<times> u32 \<times> u32" where
  "rc4Halves s = (let (s, ks) = rc4Keystream s in (s, le_word (take 4 ks), le_word (take 4 (drop 4 ks))))"

definition blockParams :: "nat \<Rightarrow> nat \<times> bool" where
  "blockParams pos =
     (let cycle = pos mod 34 in
      if cycle \<le> 31 then ((cycle + 2) div 2, (cycle + 1) mod 2 = 0)
      else if cycle = 32 then (0, False)
      else (0, True))"

section \<open>Buffers\<close>

definition encrypt_block :: "farmCipher \<Rightarrow> nat \<Rightarrow> byte list \<Rightarrow> bytes \<Rightarrow> bytes \<times> byte list" where
  "encrypt_block c pos sb block =
     (let (rounds, useRC4) = blockParams pos;
          (a, b) = initialPerm block;
          (sb, a, b) = (if useRC4 then (let (sb, d1, d2) = rc4Halves sb in (sb, a XOR d1, b XOR d2)) else (sb, a, b));
          (a, b) = feistel c rounds True (a, b)
      in (finalPerm a b, sb))"

definition decrypt_block :: "farmCipher \<Rightarrow> nat \<Rightarrow> byte list \<Rightarrow> bytes \<Rightarrow> bytes \<times> byte list" where
  "decrypt_block c pos sb block =
     (let (rounds, useRC4) = blockParams pos;
          (a, b) = initialPerm block;
          (a, b) = feistel c rounds False (a, b);
          (sb, a, b) = (if useRC4 then (let (sb, d1, d2) = rc4Halves sb in (sb, a XOR d2, b XOR d1)) else (sb, a, b))
      in (finalPerm a b, sb))"

text \<open>The loop over the whole blocks; bytes behind the last one stay.\<close>

fun crypt_blocks :: "(nat \<Rightarrow> byte list \<Rightarrow> bytes \<Rightarrow> bytes \<times> byte list) \<Rightarrow> nat \<Rightarrow> nat \<Rightarrow> byte list \<Rightarrow> bytes \<Rightarrow> bytes" where
  "crypt_blocks f 0 pos sb buf = buf"
| "crypt_blocks f (Suc n) pos sb buf =
     (let (w, sb) = f pos sb (take 8 buf) in w @ crypt_blocks f n (pos + 1) sb (drop 8 buf))"

definition farm_encrypt :: "farmCipher \<Rightarrow> bytes \<Rightarrow> bytes" where
  "farm_encrypt c buf = crypt_blocks (encrypt_block c) (length buf div 8) 0 (fc_sbox c) buf"

definition farm_decrypt :: "farmCipher \<Rightarrow> bytes \<Rightarrow> bytes" where
  "farm_decrypt c buf = crypt_blocks (decrypt_block c) (length buf div 8) 0 (fc_sbox c) buf"

definition pad8 :: "bytes \<Rightarrow> bytes" where
  "pad8 inp =
     (let n = length inp; p = (n + 7) div 8 * 8; out = inp @ replicate (p - n) 0
      in if n < p then out[p - 1 := word_of_nat (p - n)] else out)"

definition defarm :: "u32 list \<Rightarrow> bytes \<Rightarrow> bytes" where
  "defarm key buf = farm_encrypt (newFarmCipher key) buf"

definition encryptBody :: "bytes \<Rightarrow> u32 list \<Rightarrow> bytes" where
  "encryptBody data key = defarm key (pad8 data)"

section \<open>Packing a directory\<close>

record pack_file =
  Name :: bytes
  Data :: bytes

datatype pack_error = UnsupportedVersion bytes bytes

definition farm_keys :: "u32 list list" where
  "farm_keys = [
     [0x022DBB1E, 0x22EC2A94, 0x1B0C37E7, 0x2501A594],
     [0x23F0EA64, 0x317FAC94, 0x1B0C37E7, 0x2501A594],
     [0x30D0D6B6, 0x14B281C4, 0x2F28AC14, 0x29F53CB9]]"

definition Key :: "bytes \<Rightarrow> bytes \<Rightarrow> pack_error + u32 list" where
  "Key major minor =
     (if major \<noteq> str ''02'' then Inl (UnsupportedVersion major minor)
      else if minor = str ''01'' then Inr (farm_keys ! 1)
      else if minor = str ''02'' then Inr (farm_keys ! 2)
      else Inl (UnsupportedVersion major minor))"

text \<open>
  Go compares strings bytewise, as the lexicographic order of byte lists does. \<open>sort.Slice\<close> is
  some sort by that order: a stable one is taken here, which makes a difference only for files of
  the same name. The writer takes everything.
\<close>

definition PackTo :: "pack_file list \<Rightarrow> bytes \<Rightarrow> bytes \<Rightarrow> pack_error + bytes" where
  "PackTo files major minor =
     bindE (Key major minor) (\<lambda>key. Inr (concat (map (\<lambda>f. encryptBody (Data f) key) (sort_key Name files))))"

section \<open>The permutations are inverse up to the swap of halves\<close>

lemma all_bytes: "(\<forall>b :: byte. P b) \<longleftrightarrow> list_all (\<lambda>n. P (word_of_nat n)) [0..<256]"
proof
  assume l: "list_all (\<lambda>n. P (word_of_nat n)) [0..<256]"
  show "\<forall>b. P b"
  proof
    fix b :: byte
    have "unat b \<in> set [0..<256]" using unat_byte_less [of b] by simp
    with l have "P (word_of_nat (unat b))" unfolding list_all_iff by blast
    then show "P b" by simp
  qed
qed (simp add: list_all_iff)

lemma sbox7_all:
  "list_all (\<lambda>n. let b = word_of_nat n :: byte in buildSbox7 ! unat (b AND 0x55)
     = ucast (b AND 1) OR push_bit 8 (ucast (drop_bit 2 b AND 1)) OR push_bit 16 (ucast (drop_bit 4 b AND 1))
       OR push_bit 24 (ucast (drop_bit 6 b AND 1))) [0..<256]"
  by code_simp

lemma sbox7_eq:
  "buildSbox7 ! unat (b AND 0x55)
     = ucast (b AND 1) OR push_bit 8 (ucast (drop_bit 2 b AND 1)) OR push_bit 16 (ucast (drop_bit 4 b AND 1))
       OR push_bit 24 (ucast (drop_bit 6 b AND 1))" for b :: byte
proof -
  have "\<forall>b :: byte. buildSbox7 ! unat (b AND 0x55)
     = ucast (b AND 1) OR push_bit 8 (ucast (drop_bit 2 b AND 1)) OR push_bit 16 (ucast (drop_bit 4 b AND 1))
       OR push_bit 24 (ucast (drop_bit 6 b AND 1))"
    unfolding all_bytes using sbox7_all by (simp only: Let_def)
  then show ?thesis by blast
qed

lemma sbox8_all:
  "list_all (\<lambda>n. let x = word_of_nat n :: u32 in buildSbox8 ! n
     = push_bit 24 (x AND 1) OR push_bit 16 (drop_bit 1 x AND 1) OR push_bit 8 (drop_bit 2 x AND 1)
       OR (drop_bit 3 x AND 1)) [0..<16]"
  by code_simp

lemma sbox8_eq:
  "buildSbox8 ! unat (x AND 0xf)
     = push_bit 24 (x AND 1) OR push_bit 16 (drop_bit 1 x AND 1) OR push_bit 8 (drop_bit 2 x AND 1)
       OR (drop_bit 3 x AND 1)" for x :: u32
proof -
  have "(0xf :: u32) = mask 4" by (simp add: mask_eq_exp_minus_1)
  then have "unat (x AND 0xf) = unat x mod 2 ^ 4" by (rule unat_and_numeral)
  then have n: "unat (x AND 0xf) \<in> set [0..<16]" by simp
  have "buildSbox8 ! unat (x AND 0xf)
     = push_bit 24 ((x AND 0xf) AND 1) OR push_bit 16 (drop_bit 1 (x AND 0xf) AND 1) OR push_bit 8 (drop_bit 2 (x AND 0xf) AND 1)
       OR (drop_bit 3 (x AND 0xf) AND 1)"
    using bspec [OF sbox8_all [unfolded list_all_iff Let_def] n] by simp
  moreover have "drop_bit k (x AND 0xf) AND 1 = drop_bit k x AND 1" if "k < 4" for k
    using that by (intro bit_word_eqI) (auto simp: bit_simps bit_1_iff \<open>(0xf :: u32) = mask 4\<close>)
  from this [of 0] this [of 1] this [of 2] this [of 3] have
    "(x AND 0xf) AND 1 = x AND 1" "drop_bit 1 (x AND 0xf) AND 1 = drop_bit 1 x AND 1"
    "drop_bit 2 (x AND 0xf) AND 1 = drop_bit 2 x AND 1" "drop_bit 3 (x AND 0xf) AND 1 = drop_bit 3 x AND 1"
    by simp_all
  ultimately show ?thesis by (simp only:)
qed

lemma nat_cases8: "i < 8 \<Longrightarrow> i = 0 \<or> i = 1 \<or> i = 2 \<or> i = 3 \<or> i = 4 \<or> i = 5 \<or> i = 6 \<or> i = (7 :: nat)"
  by auto

lemma nat_cases4: "m < 4 \<Longrightarrow> m = 0 \<or> m = 1 \<or> m = 2 \<or> m = (3 :: nat)"
  by auto

lemma below32:
  fixes P :: "nat \<Rightarrow> bool"
  assumes "list_all P [0, 1, 2, 3, 4, 5, 6, 7, 8, 9, 10, 11, 12, 13, 14, 15, 16, 17, 18, 19, 20, 21, 22, 23, 24, 25, 26, 27, 28, 29, 30, 31]"
  shows "\<forall>n < 32. P n"
proof -
  have "[0..<32] = [0, 1, 2, 3, 4, 5, 6, 7, 8, 9, 10, 11, 12, 13, 14, 15, 16, 17, 18, 19, 20, 21, 22, 23, 24, 25, 26, 27, 28, 29, 30, 31 :: nat]" by code_simp
  then have "list_all P [0..<32]" using assms by simp
  then show ?thesis by (simp add: list_all_iff)
qed

lemma bit_sbox7:
  "bit (buildSbox7 ! unat (b AND 0x55)) n \<longleftrightarrow> n < 32 \<and> n mod 8 = 0 \<and> bit b (n div 4)" for b :: byte
proof (cases "n < 32")
  case True
  have all: "\<forall>n < 32. bit (buildSbox7 ! unat (b AND 0x55)) n \<longleftrightarrow> n < 32 \<and> n mod 8 = 0 \<and> bit b (n div 4)"
    unfolding sbox7_eq by (rule below32, simp only: list.pred_inject, intro conjI TrueI; simp add: bit_simps bit_1_iff)
  show ?thesis by (rule all [rule_format, OF True])
next
  case False
  then show ?thesis using bit_imp_le_length [of "buildSbox7 ! unat (b AND 0x55)" n] by auto
qed

lemma bit_sbox8:
  "bit (buildSbox8 ! unat (x AND 0xf)) n \<longleftrightarrow> n < 32 \<and> n mod 8 = 0 \<and> bit x (3 - n div 8)" for x :: u32
proof (cases "n < 32")
  case True
  have all: "\<forall>n < 32. bit (buildSbox8 ! unat (x AND 0xf)) n \<longleftrightarrow> n < 32 \<and> n mod 8 = 0 \<and> bit x (3 - n div 8)"
    unfolding sbox8_eq by (rule below32, simp only: list.pred_inject, intro conjI TrueI; simp add: bit_simps bit_1_iff)
  show ?thesis by (rule all [rule_format, OF True])
next
  case False
  then show ?thesis using bit_imp_le_length [of "buildSbox8 ! unat (x AND 0xf)" n] by auto
qed

text \<open>Eight words of one bit per byte, shifted over each other.\<close>

lemma shift_or_bit:
  "bit (push_bit 1 e OR x) n \<longleftrightarrow> 0 < n \<and> n < 32 \<and> bit e (n - 1) \<or> bit x n" for e x :: u32
  by (auto simp only: bit_or_iff bit_push_bit_iff bit_imp_le_length possible_bit_word) (use bit_imp_le_length in \<open>auto simp: Suc_le_eq\<close>)

lemma interleave_bit:
  fixes f :: "nat \<Rightarrow> u32"
  assumes f: "\<And>j n. bit (f j) n \<longleftrightarrow> n < 32 \<and> n mod 8 = 0 \<and> P j (n div 8)"
    and "i < 8" "m < 4"
  shows "bit (foldl (\<lambda>e i. push_bit 1 e OR f i) (f 7) [6, 5, 4, 3, 2, 1, 0]) (8 * m + i) = P i m"
  unfolding foldl.simps shift_or_bit f
  using nat_cases8 [OF assms(2)] nat_cases4 [OF assms(3)]
  by (elim disjE; simp)

lemma initialPerm_bit:
  assumes "i < 8" "m < 4"
  shows "bit (fst (initialPerm block)) (8 * m + i) = bit (block ! i) (2 * m)" (is ?even)
    and "bit (snd (initialPerm block)) (8 * m + i) = bit (block ! i) (2 * m + 1)" (is ?odd)
proof -
  have e: "n div 4 = 2 * (n div 8)" if "n mod 8 = 0" for n :: nat
    using that by presburger
  have "bit (foldl (\<lambda>e i. push_bit 1 e OR (\<lambda>i. buildSbox7 ! unat (block ! i AND 0x55)) i)
      ((\<lambda>i. buildSbox7 ! unat (block ! i AND 0x55)) 7) [6, 5, 4, 3, 2, 1, 0]) (8 * m + i)
    = (\<lambda>i m. bit (block ! i) (2 * m)) i m"
    by (rule interleave_bit) (use assms in \<open>auto simp: bit_sbox7 e\<close>)
  then show ?even unfolding initialPerm_def fst_conv .
  have "bit (foldl (\<lambda>e i. push_bit 1 e OR (\<lambda>i. buildSbox7 ! unat (drop_bit 1 (block ! i) AND 0x55)) i)
      ((\<lambda>i. buildSbox7 ! unat (drop_bit 1 (block ! i) AND 0x55)) 7) [6, 5, 4, 3, 2, 1, 0]) (8 * m + i)
    = (\<lambda>i m. bit (block ! i) (2 * m + 1)) i m"
    by (rule interleave_bit) (use assms in \<open>auto simp: bit_sbox7 e bit_drop_bit_eq\<close>)
  then show ?odd unfolding initialPerm_def snd_conv .
qed


lemma spread_fold:
  "spread l r [s3, s2, s1, s0] = foldl (\<lambda>e i. push_bit 1 e OR
     (\<lambda>i. buildSbox8 ! unat (drop_bit ([s0, s0, s1, s1, s2, s2, s3, s3] ! i) (if odd i then l else r) AND 0xf)) i)
     ((\<lambda>i. buildSbox8 ! unat (drop_bit ([s0, s0, s1, s1, s2, s2, s3, s3] ! i) (if odd i then l else r) AND 0xf)) 7)
     [6, 5, 4, 3, 2, 1, 0]"
  by (simp add: spread_def Let_def)

text \<open>\<open>spread\<close> takes the nibbles at the shifts apart: the bits of \<open>r\<close> go to even places.\<close>

lemma spread_bit:
  assumes "i < 8" "m < 4"
  shows "bit (spread l r [s3, s2, s1, s0]) (8 * m + i)
    = bit (if odd i then l else r) ([s0, s0, s1, s1, s2, s2, s3, s3] ! i + (3 - m))"
  unfolding spread_fold
  by (rule interleave_bit [where P = "\<lambda>i m. bit (if odd i then l else r) ([s0, s0, s1, s1, s2, s2, s3, s3] ! i + (3 - m))"])
     (use assms in \<open>auto simp: bit_sbox8 bit_drop_bit_eq\<close>)

lemma finalPerm_length [simp]: "length (finalPerm l r) = 8"
  by (simp add: finalPerm_def Let_def)

lemma finalPerm_bit:
  assumes "j < 8" "k < 8"
  shows "bit (finalPerm l r ! j) k = bit (if odd k then l else r) (8 * (k div 2) + j)"
proof -
  have at: "[0, 0, 8, 8, 16, 16, 24, 24] ! k = 8 * (k div 2)" "[4, 4, 12, 12, 20, 20, 28, 28] ! k = 8 * (k div 2) + 4"
    using nat_cases8 [OF assms(2)] by (elim disjE; simp)+
  have lo: "bit (spread l r [24, 16, 8, 0]) (8 * m + k) = bit (if odd k then l else r) (8 * (k div 2) + (3 - m))" if "m < 4" for m
    using spread_bit [OF assms(2) that, of l r 24 16 8 0] unfolding at .
  have hi: "bit (spread l r [28, 20, 12, 4]) (8 * m + k) = bit (if odd k then l else r) (8 * (k div 2) + 4 + (3 - m))" if "m < 4" for m
    using spread_bit [OF assms(2) that, of l r 28 20 12 4] unfolding at .
  from nat_cases8 [OF assms(1)] assms(2) lo [of 0] lo [of 1] lo [of 2] lo [of 3] hi [of 0] hi [of 1] hi [of 2] hi [of 3]
  show ?thesis
    unfolding finalPerm_def Let_def
    by (elim disjE; simp add: bit_ucast_iff bit_drop_bit_eq ac_simps)
qed

lemma word_bits_eq:
  "(\<And>m i. m < 4 \<Longrightarrow> i < 8 \<Longrightarrow> bit a (8 * m + i) = bit b (8 * m + i)) \<Longrightarrow> a = b" for a b :: u32
proof (rule bit_word_eqI)
  fix n assume a: "\<And>m i. m < 4 \<Longrightarrow> i < 8 \<Longrightarrow> bit a (8 * m + i) = bit b (8 * m + i)" "n < LENGTH(32)"
  have "bit a (8 * (n div 8) + n mod 8) = bit b (8 * (n div 8) + n mod 8)" using a(2) by (intro a(1)) auto
  then show "bit a n = bit b n" by simp
qed

lemma initial_final: "initialPerm (finalPerm l r) = (r, l)"
proof -
  have "fst (initialPerm (finalPerm l r)) = r"
    by (rule word_bits_eq) (simp add: initialPerm_bit finalPerm_bit)
  moreover have "snd (initialPerm (finalPerm l r)) = l"
    by (rule word_bits_eq) (simp add: initialPerm_bit finalPerm_bit)
  ultimately show ?thesis by (simp add: prod_eq_iff)
qed

lemma final_initial:
  assumes "length x = 8"
  shows "finalPerm (snd (initialPerm x)) (fst (initialPerm x)) = x"
proof (rule nth_equalityI)
  fix j assume "j < length (finalPerm (snd (initialPerm x)) (fst (initialPerm x)))"
  then have j: "j < 8" by simp
  show "finalPerm (snd (initialPerm x)) (fst (initialPerm x)) ! j = x ! j"
  proof (rule bit_word_eqI)
    fix k assume "k < LENGTH(8)"
    then have k: "k < 8" "k div 2 < 4" by simp_all
    show "bit (finalPerm (snd (initialPerm x)) (fst (initialPerm x)) ! j) k = bit (x ! j) k"
      by (cases "odd k") (simp_all add: finalPerm_bit [OF j k(1)] initialPerm_bit [OF j k(2)])
  qed
qed (simp add: assms)

section \<open>The Feistel network\<close>

text \<open>A round of the network is undone, with the halves exchanged, by the same round.\<close>

definition feistel_step :: "farmCipher \<Rightarrow> u32 \<times> u32 \<Rightarrow> nat \<Rightarrow> u32 \<times> u32" where
  "feistel_step c ab i = (snd ab, fst ab XOR feistelRound (snd ab) (subkeys c ! (2 * i)) (subkeys c ! (2 * i + 1)))"

lemma feistel_step_undo:
  "feistel_step c (prod.swap (feistel_step c ab i)) i = prod.swap ab"
  by (cases ab) (simp add: feistel_step_def prod.swap_def xor.assoc)

lemma feistel_rev:
  "foldl (feistel_step c) (prod.swap (foldl (feistel_step c) ab is)) (rev is) = prod.swap ab"
  by (induction "is" arbitrary: ab) (simp_all add: feistel_step_undo)

lemma feistel_forward: "feistel c n True ab = foldl (feistel_step c) ab [0..<n]"
  unfolding feistel_def by (rule foldl_cong) (simp_all add: feistel_step_def case_prod_beta Let_def)

lemma feistel_backward: "feistel c n False ab = foldl (feistel_step c) ab (rev [0..<n])"
proof -
  have r: "rev [0..<n] = map (\<lambda>i. n - 1 - i) [0..<n]"
    by (rule nth_equalityI) (simp_all add: rev_nth)
  have "feistel c n False ab = foldl (\<lambda>x i. feistel_step c x (n - 1 - i)) ab [0..<n]"
    unfolding feistel_def
    by (rule foldl_cong) (simp_all add: feistel_step_def case_prod_beta Let_def diff_mult_distrib2)
  then show ?thesis unfolding r foldl_map by simp
qed

lemma feistel_inverse: "feistel c n False (prod.swap (feistel c n True ab)) = prod.swap ab"
  unfolding feistel_forward feistel_backward by (rule feistel_rev)

lemma feistel_inverse': "feistel c n True (prod.swap (feistel c n False ab)) = prod.swap ab"
  using feistel_rev [of c ab "rev [0..<n]"] unfolding feistel_forward feistel_backward by simp

section \<open>Blocks and buffers\<close>

lemma encrypt_block_length [simp]: "length (fst (encrypt_block c pos sb x)) = 8"
  by (simp add: encrypt_block_def Let_def split: prod.splits)

lemma decrypt_block_length [simp]: "length (fst (decrypt_block c pos sb x)) = 8"
  by (simp add: decrypt_block_def Let_def split: prod.splits)

lemma swap_xor_xor: "(fst x XOR a XOR a, snd x XOR b XOR b) = x" for x :: "u32 \<times> u32"
  by simp

text \<open>Decryption undoes encryption block for block, and the RC4 state moves on the same way.\<close>

lemma decrypt_encrypt_block:
  assumes "length x = 8"
  shows "decrypt_block c pos sb (fst (encrypt_block c pos sb x)) = (x, snd (encrypt_block c pos sb x))"
proof -
  obtain rounds rc where bp: "blockParams pos = (rounds, rc)" by fastforce
  obtain sb' d1 d2 where h: "rc4Halves sb = (sb', d1, d2)" by (metis prod_cases3)
  obtain e o' where ip: "initialPerm x = (e, o')" by fastforce
  have fi: "finalPerm o' e = x" using final_initial [OF assms] by (simp add: ip)
  let ?w = "if rc then (e XOR d1, o' XOR d2) else (e, o')"
  obtain p q where f: "feistel c rounds True ?w = (p, q)" by fastforce
  have enc: "encrypt_block c pos sb x = (finalPerm p q, if rc then sb' else sb)"
    using f by (simp add: encrypt_block_def bp ip h split: if_splits)
  have "feistel c rounds False (q, p) = prod.swap ?w"
    using feistel_inverse [of c rounds ?w] unfolding f by simp
  then show ?thesis
    unfolding enc
    by (cases rc) (simp_all add: decrypt_block_def bp h initial_final fi xor.assoc)
qed

lemma encrypt_decrypt_block:
  assumes "length x = 8"
  shows "encrypt_block c pos sb (fst (decrypt_block c pos sb x)) = (x, snd (decrypt_block c pos sb x))"
proof -
  obtain rounds rc where bp: "blockParams pos = (rounds, rc)" by fastforce
  obtain sb' d1 d2 where h: "rc4Halves sb = (sb', d1, d2)" by (metis prod_cases3)
  obtain e o' where ip: "initialPerm x = (e, o')" by fastforce
  have fi: "finalPerm o' e = x" using final_initial [OF assms] by (simp add: ip)
  obtain p q where f: "feistel c rounds False (e, o') = (p, q)" by fastforce
  let ?w = "if rc then (p XOR d2, q XOR d1) else (p, q)"
  have dec: "decrypt_block c pos sb x = (finalPerm (fst ?w) (snd ?w), if rc then sb' else sb)"
    using f by (simp add: decrypt_block_def bp ip h)
  have "feistel c rounds True (q, p) = (o', e)"
    using feistel_inverse' [of c rounds "(e, o')"] unfolding f by simp
  then show ?thesis
    unfolding dec
    by (cases rc) (simp_all add: encrypt_block_def bp h initial_final fi xor.assoc)
qed

lemma crypt_blocks_length:
  assumes "\<And>pos sb x. length (fst (f pos sb x)) = 8" "8 * n \<le> length buf"
  shows "length (crypt_blocks f n pos sb buf) = length buf"
  using assms(2)
proof (induction n arbitrary: pos sb buf)
  case (Suc n)
  obtain w sb' where f: "f pos sb (take 8 buf) = (w, sb')" by fastforce
  have "length w = 8" using assms(1) [of pos sb "take 8 buf"] f by simp
  with Suc show ?case by (simp add: f)
qed simp

lemma crypt_blocks_inverse:
  assumes "\<And>pos sb x. length (fst (f pos sb x)) = 8"
    and "\<And>pos sb x. length x = 8 \<Longrightarrow> g pos sb (fst (f pos sb x)) = (x, snd (f pos sb x))"
    and "8 * n \<le> length buf"
  shows "crypt_blocks g n pos sb (crypt_blocks f n pos sb buf) = buf"
  using assms(3)
proof (induction n arbitrary: pos sb buf)
  case (Suc n)
  obtain w sb' where f: "f pos sb (take 8 buf) = (w, sb')" by fastforce
  have w: "length w = 8" using assms(1) [of pos sb "take 8 buf"] f by simp
  have g: "g pos sb w = (take 8 buf, sb')" using assms(2) [of "take 8 buf" pos sb] Suc.prems f by simp
  have "crypt_blocks g n (pos + 1) sb' (crypt_blocks f n (pos + 1) sb' (drop 8 buf)) = drop 8 buf"
    using Suc.prems by (intro Suc.IH) simp
  then show ?case by (simp add: f g w)
qed simp

text \<open>
  C29: the block cipher of the Giants packs is a bijection for every key: decryption with the same
  cipher value gives back every buffer, whatever its length (bytes behind the last whole block
  are left alone by both), across the 34-block cycle of round counts and the RC4 whitening.
\<close>

theorem farm_roundtrip: "farm_decrypt c (farm_encrypt c buf) = buf"
proof -
  have l: "8 * (length buf div 8) \<le> length buf" by simp
  have "length (farm_encrypt c buf) = length buf"
    unfolding farm_encrypt_def by (rule crypt_blocks_length [OF encrypt_block_length l])
  then show ?thesis
    unfolding farm_decrypt_def by (simp add: farm_encrypt_def crypt_blocks_inverse [OF encrypt_block_length decrypt_encrypt_block l])
qed

text \<open>
  Encryption undoes decryption as well, so every file is the encryption of exactly one
  buffer of its length.
\<close>

theorem farm_surjective: "farm_encrypt c (farm_decrypt c buf) = buf"
proof -
  have l: "8 * (length buf div 8) \<le> length buf" by simp
  have "length (farm_decrypt c buf) = length buf"
    unfolding farm_decrypt_def by (rule crypt_blocks_length [OF decrypt_block_length l])
  then show ?thesis
    unfolding farm_encrypt_def by (simp add: farm_decrypt_def crypt_blocks_inverse [OF decrypt_block_length encrypt_decrypt_block l])
qed

lemma farm_encrypt_length [simp]: "length (farm_encrypt c buf) = length buf"
  unfolding farm_encrypt_def by (rule crypt_blocks_length [OF encrypt_block_length]) simp

lemma pad8_length: "length (pad8 x) = (length x + 7) div 8 * 8"
proof -
  have "length x \<le> (length x + 7) div 8 * 8" by presburger
  then show ?thesis by (simp add: pad8_def Let_def)
qed

lemma pad8_prefix: "take (length x) (pad8 x) = x"
  by (auto simp: pad8_def Let_def intro!: nth_equalityI)

text \<open>
  A pack of files with different names does not depend on the order in which the directory
  was listed: a permutation of the files gives the same bytes.
\<close>

theorem pack_order_independent:
  assumes "mset files = mset files'" "distinct (map Name files)"
  shows "PackTo files major minor = PackTo files' major minor"
proof -
  have i: "inj_on Name (set files)" using assms(2) by (simp add: distinct_map)
  have "sort_key Name files = sort_key Name files'"
  proof (rule properties_for_sort_key)
    show "mset (sort_key Name files') = mset files" by (simp add: assms(1))
    show "sorted (map Name (sort_key Name files'))" by simp
    have s: "set files' = set files" using assms(1) by (metis set_mset_mset)
    fix k assume "k \<in> set (sort_key Name files')"
    then have k: "k \<in> set files" using s by simp
    have eq: "filter (\<lambda>x. Name x = Name k) xs = replicate (count (mset xs) k) k"
      if "set xs = set files" for xs
    proof -
      have "filter (\<lambda>x. Name x = Name k) xs = filter (\<lambda>x. x = k) xs"
        using that i k by (intro filter_cong) (auto dest: inj_onD)
      then show ?thesis by (simp add: replicate_count_mset_eq_filter_eq eq_commute [of _ k])
    qed
    from s show "filter (\<lambda>x. Name k = Name x) (sort_key Name files') = filter (\<lambda>x. Name k = Name x) files"
      using eq [of "sort_key Name files'"] eq [of files] assms(1) by (simp add: eq_commute)
  qed
  then show ?thesis by (simp add: PackTo_def)
qed

lemma pack_order_independent_witness:
  "PackTo [\<lparr>Name = str ''a'', Data = [1]\<rparr>, \<lparr>Name = str ''b'', Data = []\<rparr>] (str ''02'') (str ''01'')
   = PackTo [\<lparr>Name = str ''b'', Data = []\<rparr>, \<lparr>Name = str ''a'', Data = [1]\<rparr>] (str ''02'') (str ''01'')"
  by (rule pack_order_independent) (simp_all add: str_def)

end
