(* ===== verification/Base128.thy ===== *)
theory Base128
  imports Prelude
begin

text \<open>
  The digits of the base-128 integers that VCDIFF and HDiffPatch write most significant first:
  all but the last are marked in their top bit.
\<close>

definition more_digit :: "nat \<Rightarrow> byte" where
  "more_digit k = word_of_nat (128 + k)"

definition last_digit :: "nat \<Rightarrow> byte" where
  "last_digit k = word_of_nat k"

lemma digit_bits:
  assumes "k < 128"
  shows "unat (more_digit k AND 127) = k" "\<not> more_digit k < 128"
    and "unat (last_digit k AND 127) = k" "last_digit k < 128"
proof -
  have m: "(127 :: byte) = mask 7" by (simp add: mask_eq_exp_minus_1)
  have u: "unat (more_digit k) = 128 + k" "unat (last_digit k) = k"
    unfolding more_digit_def last_digit_def using assms by (intro unat_of_nat_small; simp)+
  show "unat (more_digit k AND 127) = k" "unat (last_digit k AND 127) = k"
    unfolding unat_and_numeral [OF m] u using assms by simp_all
  show "\<not> more_digit k < 128" "last_digit k < 128"
    unfolding word_less_nat_alt u using assms by simp_all
qed

lemma push_digit:
  assumes "unat (b :: byte) = k" "k < 128"
  shows "push_bit 7 (word_of_nat m) OR ucast b = (word_of_nat (128 * m + k) :: 'w::len word)"
proof -
  have "k OR push_bit 7 m = 128 * m + k"
    using or_shift_nat [of k 7 m] assms(2) by simp
  then have "(word_of_nat (128 * m + k) :: 'w word) = word_of_nat k OR push_bit 7 (word_of_nat m)"
    by (metis of_nat_or_eq push_bit_of_nat)
  then show ?thesis using assms(1) by (metis or.commute of_nat_unat)
qed

text \<open>The overflow masks stop a value that has no room for seven more bits.\<close>

lemma and_high_zero:
  assumes "x < 2 ^ k" "take_bit k oflow = (0 :: 'w::len word)"
  shows "word_of_nat x AND oflow = 0"
proof -
  have "take_bit k (word_of_nat x :: 'w word) = word_of_nat x"
    by (metis assms(1) of_nat_take_bit take_bit_nat_eq_self)
  then have "word_of_nat x AND oflow = take_bit k (word_of_nat x) AND oflow" by simp
  also have "\<dots> = word_of_nat x AND take_bit k oflow" by (metis and.assoc and.commute take_bit_eq_mask)
  finally show ?thesis using assms(2) by simp
qed

lemma word_of_nat_drop_zero: "x < 2 ^ k \<Longrightarrow> k \<le> LENGTH('w) \<Longrightarrow> drop_bit k (word_of_nat x :: 'w::len word) = 0"
proof -
  assume "x < 2 ^ k" "k \<le> LENGTH('w)"
  then have "x < 2 ^ LENGTH('w)" by (meson order_less_le_trans one_le_numeral power_increasing)
  then have "unat (drop_bit k (word_of_nat x :: 'w word)) = x div 2 ^ k" by (simp only: unat_drop unat_of_nat_small)
  then show ?thesis using \<open>x < 2 ^ k\<close> by (simp add: unsigned_eq_0_iff)
qed

end
