(* ===== verification/Vcdiff.thy ===== *)
theory Vcdiff
  imports Base128
begin

text \<open>
  VCDIFF patches (\<open>reconstruct/xdelta\<close>): the code table, integers, address cache, window
  envelopes and instructions of \<open>decode.go\<close>, the in-memory \<open>Apply\<close> of \<open>patch.go\<close> and the two
  writers. The old file and the patch are byte lists; a reader of a byte list fails only at its
  end. The standard library's Adler-32 is defined from its documentation.
\<close>

section \<open>Errors and state\<close>

datatype vcd_error =
    EmptyPatch | UnexpectedEOF | Overflow | UnsupportedHeader | InvalidWindowFlags | TargetNotImplemented
  | CopyWindowOverflow | HardWindowSize | TargetWindowOverflow | InvalidDelta | EncodingLength
  | SourceRequired | ChecksumMismatch | ShortWrite | OffsetOverflow | WrongWindowLength | ExtraData
  | ExtraAddress | AddressTooLarge | SizeTooLarge | AddressUnderflow | DataUnderflow | SourceTooShort
  | NonSequential | TargetSize | MemoryLimit | InvalidInteger | EmptyTarget

record codeEntry =
  t1 :: byte
  s1 :: byte
  t2 :: byte
  s2 :: byte

record halfInst =
  h_typ :: byte
  h_size :: u32
  h_addr :: u32

record addrCache =
  near :: "u32 list"
  same :: "u32 list"
  nextSlot :: nat

record window =
  winInd :: byte
  cpyLen :: u32
  cpyOff :: u64
  tgtLen :: u32
  w_adler :: u32
  w_data :: bytes
  w_inst :: bytes
  w_addr :: bytes

definition opNoop :: byte where "opNoop = 0"
definition opAdd :: byte where "opAdd = 1"
definition opRun :: byte where "opRun = 2"
definition opCpy :: byte where "opCpy = 3"

definition nearModes :: nat where "nearModes = 4"
definition sameModes :: nat where "sameModes = 3"
definition cpyModes :: nat where "cpyModes = 2 + nearModes + sameModes"

definition u32Oflow :: u64 where "u32Oflow = 0xfe000000"
definition u64Oflow :: u64 where "u64Oflow = 0xfe00000000000000"

section \<open>The code table\<close>

definition entry :: "byte \<Rightarrow> nat \<Rightarrow> byte \<Rightarrow> nat \<Rightarrow> codeEntry" where
  "entry a m b n = \<lparr>t1 = a, s1 = word_of_nat m, t2 = b, s2 = word_of_nat n\<rparr>"

definition cpy :: "nat \<Rightarrow> byte" where
  "cpy mode = opCpy + word_of_nat mode"

text \<open>The loops of \<open>buildCodeTable\<close> in their order; each appends the entries it fills.\<close>

definition buildCodeTable :: "codeEntry list" where
  "buildCodeTable =
     [entry opRun 0 opNoop 0, entry opAdd 0 opNoop 0]
     @ map (\<lambda>n. entry opAdd n opNoop 0) [1..<18]
     @ concat (map (\<lambda>mode. entry (cpy mode) 0 opNoop 0 # map (\<lambda>n. entry (cpy mode) n opNoop 0) [4..<4 + 15]) [0..<cpyModes])
     @ concat (map (\<lambda>mode.
         let top = (if mode < 2 + nearModes then 6 else 4 :: nat)
         in concat (map (\<lambda>add. map (\<lambda>n. entry opAdd add (cpy mode) n) [4..<top + 1]) [1..<5])) [0..<cpyModes])
     @ map (\<lambda>mode. entry (cpy mode) 4 opAdd 1) [0..<cpyModes]"

definition codeTable :: "codeEntry list" where
  "codeTable = buildCodeTable"

section \<open>Integers\<close>

text \<open>
  The cursor over the patch is the list of the bytes from its offset on: reading past the end
  leaves an error and no cursor.
\<close>

definition c_readFull :: "nat \<Rightarrow> bytes \<Rightarrow> vcd_error + bytes \<times> bytes" where
  "c_readFull n c = (if length c < n then Inl UnexpectedEOF else Inr (take n c, drop n c))"

fun c_uint :: "u64 \<Rightarrow> u64 \<Rightarrow> bytes \<Rightarrow> vcd_error + u64 \<times> bytes" where
  "c_uint oflow val [] = Inl UnexpectedEOF"
| "c_uint oflow val (b # c) =
     (if val AND oflow \<noteq> 0 then Inl Overflow
      else (let val = push_bit 7 val OR ucast (b AND 127) in
        if b < 128 then Inr (val, c) else c_uint oflow val c))"

definition c_u8 :: "bytes \<Rightarrow> vcd_error + byte \<times> bytes" where
  "c_u8 c = bindE (c_readFull 1 c) (\<lambda>(bs, c). Inr (hd bs, c))"

definition c_u32 :: "bytes \<Rightarrow> vcd_error + u32 \<times> bytes" where
  "c_u32 c = bindE (c_uint u32Oflow 0 c) (\<lambda>(v, c). Inr (ucast v, c))"

definition c_u64 :: "bytes \<Rightarrow> vcd_error + u64 \<times> bytes" where
  "c_u64 c = c_uint u64Oflow 0 c"

text \<open>\<open>readU32\<close> reads from a section in memory and counts the bytes it used.\<close>

fun readU32_loop :: "u32 \<Rightarrow> nat \<Rightarrow> bytes \<Rightarrow> vcd_error + u32 \<times> nat" where
  "readU32_loop val i [] = Inl UnexpectedEOF"
| "readU32_loop val i (b # bs) =
     (if val AND ucast u32Oflow \<noteq> 0 then Inl Overflow
      else (let val = push_bit 7 val OR ucast (b AND 127) in
        if b < 128 then Inr (val, i + 1) else readU32_loop val (i + 1) bs))"

definition vcd_readU32 :: "bytes \<Rightarrow> vcd_error + u32 \<times> nat" where
  "vcd_readU32 b = readU32_loop 0 0 b"

definition sizeof32 :: "u32 \<Rightarrow> u32" where
  "sizeof32 n =
     (if n < push_bit 7 1 then 1
      else if n < push_bit 14 1 then 2
      else if n < push_bit 21 1 then 3
      else if n < push_bit 28 1 then 4
      else 5)"

section \<open>Envelopes\<close>

definition asHeader :: "vcd_error + 'a \<Rightarrow> vcd_error + 'a" where
  "asHeader m = (case m of Inl e \<Rightarrow> Inl (if e = UnexpectedEOF then UnsupportedHeader else e) | Inr r \<Rightarrow> Inr r)"

definition readHeader :: "bytes \<Rightarrow> vcd_error + bytes" where
  "readHeader c =
     bindE (asHeader (c_readFull 4 c)) (\<lambda>(magic, c).
       if magic \<noteq> [0xd6, 0xc3, 0xc4, 0] then Inl UnsupportedHeader
       else bindE (asHeader (c_u8 c)) (\<lambda>(ind, c).
         if ind AND NOT 4 \<noteq> 0 \<or> ind AND 1 \<noteq> 0 \<or> ind AND 2 \<noteq> 0 then Inl UnsupportedHeader
         else if ind AND 4 = 0 then Inr c
         else bindE (c_u32 c) (\<lambda>(n, c).
           if unat n > length c then Inl UnexpectedEOF else Inr (drop (unat n) c))))"

definition readSource :: "byte \<Rightarrow> bytes \<Rightarrow> vcd_error + (u32 \<times> u64) \<times> bytes" where
  "readSource ind c =
     (if ind AND 1 \<noteq> 0 then
        bindE (c_u32 c) (\<lambda>(n, c).
          bindE (c_u64 c) (\<lambda>(off, c).
            if (ucast n :: u64) > NOT 0 - off then Inl CopyWindowOverflow else Inr ((n, off), c)))
      else Inr ((0, 0), c))"

definition readAdler :: "byte \<Rightarrow> bytes \<Rightarrow> vcd_error + u32 \<times> bytes" where
  "readAdler ind c =
     (if ind AND 4 \<noteq> 0 then bindE (c_readFull 4 c) (\<lambda>(sum, c). Inr (be_word sum, c)) else Inr (0, c))"

definition wantLen :: "byte \<Rightarrow> u32 \<Rightarrow> u32 \<Rightarrow> u32 \<Rightarrow> u32 \<Rightarrow> u64" where
  "wantLen ind tgt dataLen instLen addrLen =
     1 + ucast (sizeof32 tgt + sizeof32 dataLen + sizeof32 instLen + sizeof32 addrLen)
     + (ucast dataLen + ucast instLen + ucast addrLen)
     + (if ind AND 4 \<noteq> 0 then 4 else 0)"

definition readWindow :: "bytes \<Rightarrow> vcd_error + window \<times> bytes" where
  "readWindow c =
     bindE (c_u8 c) (\<lambda>(ind, c).
       if ind AND NOT 7 \<noteq> 0 \<or> ind AND 3 = 3 then Inl InvalidWindowFlags
       else if ind AND 2 \<noteq> 0 then Inl TargetNotImplemented
       else bindE (readSource ind c) (\<lambda>((clen, off), c).
       bindE (c_u32 c) (\<lambda>(encLen, c).
       bindE (c_u32 c) (\<lambda>(tgt, c).
         if tgt > push_bit 26 1 then Inl HardWindowSize
         else if (ucast clen :: u64) > ucast (NOT 0 :: u32) - ucast tgt then Inl TargetWindowOverflow
         else bindE (c_u8 c) (\<lambda>(del, c).
           if del \<noteq> 0 then Inl InvalidDelta
           else bindE (c_u32 c) (\<lambda>(dataLen, c).
           bindE (c_u32 c) (\<lambda>(instLen, c).
           bindE (c_u32 c) (\<lambda>(addrLen, c).
           bindE (readAdler ind c) (\<lambda>(adler, c).
             if (ucast encLen :: u64) \<noteq> wantLen ind tgt dataLen instLen addrLen then Inl EncodingLength
             else if unat (ucast dataLen + ucast instLen + ucast addrLen :: u64) > length c then Inl UnexpectedEOF
             else bindE (c_readFull (unat dataLen) c) (\<lambda>(d, c).
             bindE (c_readFull (unat instLen) c) (\<lambda>(i, c).
             bindE (c_readFull (unat addrLen) c) (\<lambda>(a, c).
               Inr (\<lparr>winInd = ind, cpyLen = clen, cpyOff = off, tgtLen = tgt, w_adler = adler,
                     w_data = d, w_inst = i, w_addr = a\<rparr>, c)))))))))))))"

section \<open>Addresses\<close>

definition emptyCache :: addrCache where
  "emptyCache = \<lparr>near = replicate nearModes 0, same = replicate (sameModes * 256) 0, nextSlot = 0\<rparr>"

definition cache_update :: "u32 \<Rightarrow> addrCache \<Rightarrow> addrCache" where
  "cache_update val cache =
     \<lparr>near = (near cache)[nextSlot cache := val],
      same = (same cache)[unat val mod (sameModes * 256) := val],
      nextSlot = (nextSlot cache + 1) mod nearModes\<rparr>"

text \<open>The address, the bytes used, and the cache with the address entered.\<close>

definition decodeAddress :: "addrCache \<Rightarrow> u32 \<Rightarrow> nat \<Rightarrow> bytes \<Rightarrow> vcd_error fault + u32 \<times> nat \<times> addrCache" where
  "decodeAddress cache here mode addr =
     bindE
       (if mode < 2 + nearModes then
          (case vcd_readU32 addr of
             Inl e \<Rightarrow> Inl (Error e)
           | Inr (val, n) \<Rightarrow>
               if mode = 0 then Inr (val, n)
               else if mode = 1 then Inr (here - val, n)
               else bindE (idx (near cache) (mode - 2)) (\<lambda>base. Inr (val + base, n)))
        else
          (case addr of
             [] \<Rightarrow> Inl (Error AddressUnderflow)
           | b # _ \<Rightarrow>
               if mode - (2 + nearModes) \<ge> sameModes then Inl (Error AddressUnderflow)
               else bindE (idx (same cache) ((mode - (2 + nearModes)) * 256 + unat b)) (\<lambda>val. Inr (val, 1))))
       (\<lambda>(val, n). Inr (val, n, cache_update val cache))"

section \<open>Instructions\<close>

text \<open>
  The indices into the instruction and address section are kept as what is left of the sections;
  \<open>here\<close> is the address of the next target byte.
\<close>

record parse =
  here :: u32
  p_inst :: bytes
  p_addr :: bytes
  p_cache :: addrCache

definition parseSize :: "halfInst \<Rightarrow> parse \<Rightarrow> vcd_error fault + halfInst \<times> parse" where
  "parseSize h p =
     (if h_size h = 0 then
        (case vcd_readU32 (p_inst p) of
           Inl e \<Rightarrow> Inl (Error e)
         | Inr (sz, n) \<Rightarrow> Inr (h\<lparr>h_size := sz\<rparr>, p\<lparr>p_inst := drop n (p_inst p)\<rparr>))
      else Inr (h, p))"

definition parseAddr :: "u32 \<Rightarrow> halfInst \<Rightarrow> parse \<Rightarrow> vcd_error fault + halfInst \<times> parse" where
  "parseAddr clen h p =
     (if h_typ h \<ge> opCpy then
        bindE (decodeAddress (p_cache p) (here p) (unat (h_typ h - opCpy)) (p_addr p)) (\<lambda>(a, n, cache).
          if a \<ge> here p then Inl (Error AddressTooLarge)
          else if a < clen \<and> unat a + unat (h_size h) > unat clen then Inl (Error SizeTooLarge)
          else Inr (h\<lparr>h_addr := a\<rparr>, p\<lparr>p_addr := drop n (p_addr p), p_cache := cache\<rparr>))
      else Inr (h, p))"

definition parseHalf :: "u32 \<Rightarrow> u32 \<Rightarrow> halfInst \<Rightarrow> parse \<Rightarrow> vcd_error fault + halfInst \<times> parse" where
  "parseHalf clen maxPos h p =
     bindE (parseSize h p) (\<lambda>(h, p).
     bindE (parseAddr clen h p) (\<lambda>(h, p).
       if unat (here p) + unat (h_size h) > unat maxPos then Inl (Error SizeTooLarge)
       else Inr (h, p\<lparr>here := here p + h_size h\<rparr>)))"

text \<open>
  The target buffer is kept as the bytes written so far, what is behind them is still zero; the
  second component is the rest of the data section.
\<close>

definition buf_at :: "window \<Rightarrow> bytes \<Rightarrow> nat \<Rightarrow> vcd_error fault + byte" where
  "buf_at w out i =
     (if i < length out then Inr (out ! i) else if i < unat (tgtLen w) then Inr 0 else Inl Panic)"

fun copy_within :: "window \<Rightarrow> nat \<Rightarrow> nat \<Rightarrow> bytes \<Rightarrow> vcd_error fault + bytes" where
  "copy_within w src 0 out = Inr out"
| "copy_within w src (Suc n) out = bindE (buf_at w out src) (\<lambda>b. copy_within w (src + 1) n (out @ [b]))"

definition copy_old :: "window \<Rightarrow> bytes \<Rightarrow> u32 \<Rightarrow> nat \<Rightarrow> vcd_error fault + bytes" where
  "copy_old w old a n =
     (let pos = cpyOff w + ucast a; e = pos + word_of_nat n in
      if e < pos \<or> pos > drop_bit 1 (NOT 0) \<or> unat e > length old then Inl (Error SourceTooShort)
      else Inr (take n (drop (unat pos) old)))"

definition outputHalf :: "window \<Rightarrow> bytes \<Rightarrow> halfInst \<Rightarrow> bytes \<times> bytes \<Rightarrow> vcd_error fault + bytes \<times> bytes" where
  "outputHalf w old h od =
     (case od of (out, dat) \<Rightarrow>
       (let n = unat (h_size h) in
        if n > unat (tgtLen w) - length out then Inl (Error SizeTooLarge)
        else if h_typ h = opRun then
          (case dat of [] \<Rightarrow> Inl (Error DataUnderflow) | b # dat \<Rightarrow> Inr (out @ replicate n b, dat))
        else if h_typ h = opAdd then
          (if n > length dat then Inl (Error DataUnderflow) else Inr (out @ take n dat, drop n dat))
        else if h_addr h < cpyLen w then
          (if n = 0 then Inr (out, dat) else bindE (copy_old w old (h_addr h) n) (\<lambda>bs. Inr (out @ bs, dat)))
        else bindE (copy_within w (unat (h_addr h - cpyLen w)) n out) (\<lambda>out. Inr (out, dat))))"

definition parse_if :: "u32 \<Rightarrow> u32 \<Rightarrow> halfInst \<Rightarrow> parse \<Rightarrow> vcd_error fault + halfInst \<times> parse" where
  "parse_if clen maxPos h p = (if h_typ h \<noteq> opNoop then parseHalf clen maxPos h p else Inr (h, p))"

definition output_if :: "window \<Rightarrow> bytes \<Rightarrow> halfInst \<Rightarrow> bytes \<times> bytes \<Rightarrow> vcd_error fault + bytes \<times> bytes" where
  "output_if w old h od = (if h_typ h \<noteq> opNoop then outputHalf w old h od else Inr od)"

text \<open>
  One turn of the loop of \<open>emitWindow\<close>: no half is pending when a turn begins, so the turn reads
  an opcode, parses its halves and puts both out.
\<close>

definition emit_turn :: "window \<Rightarrow> bytes \<Rightarrow> byte \<Rightarrow> parse \<Rightarrow> bytes \<times> bytes \<Rightarrow> vcd_error fault + parse \<times> bytes \<times> bytes" where
  "emit_turn w old op p od =
     bindE (idx codeTable (unat op)) (\<lambda>e.
     bindE (parse_if (cpyLen w) (cpyLen w + tgtLen w) \<lparr>h_typ = t1 e, h_size = ucast (s1 e), h_addr = 0\<rparr> p) (\<lambda>(h1, p).
     bindE (parse_if (cpyLen w) (cpyLen w + tgtLen w) \<lparr>h_typ = t2 e, h_size = ucast (s2 e), h_addr = 0\<rparr> p) (\<lambda>(h2, p).
     bindE (output_if w old h1 od) (\<lambda>od.
     bindE (output_if w old h2 od) (\<lambda>od. Inr (p, od))))))"

lemma parseHalf_inst: "parseHalf clen m h p = Inr (h', p') \<Longrightarrow> length (p_inst p') \<le> length (p_inst p)"
  by (auto simp: parseHalf_def parseSize_def parseAddr_def res_simps split: if_splits sum.splits prod.splits)

lemma parse_if_inst: "parse_if clen m h p = Inr (h', p') \<Longrightarrow> length (p_inst p') \<le> length (p_inst p)"
  by (auto simp: parse_if_def dest: parseHalf_inst split: if_splits)

lemma emit_turn_inst: "emit_turn w old op p od = Inr (p', od') \<Longrightarrow> length (p_inst p') \<le> length (p_inst p)"
  by (fastforce simp: emit_turn_def res_simps dest: parse_if_inst split: prod.splits)

function emit_loop :: "window \<Rightarrow> bytes \<Rightarrow> parse \<Rightarrow> bytes \<times> bytes \<Rightarrow> vcd_error fault + parse \<times> bytes \<times> bytes" where
  "emit_loop w old p od =
     (case p_inst p of
        [] \<Rightarrow> Inr (p, od)
      | op # rest \<Rightarrow> bindE (emit_turn w old op (p\<lparr>p_inst := rest\<rparr>) od) (\<lambda>(p, od). emit_loop w old p od))"
  by pat_completeness auto
termination
  by (relation "measure (\<lambda>(w, old, p, od). length (p_inst p))") (auto dest!: emit_turn_inst)

declare emit_loop.simps [simp del]

definition emitWindow :: "window \<Rightarrow> bytes \<Rightarrow> vcd_error fault + bytes" where
  "emitWindow w old =
     bindE (emit_loop w old \<lparr>here = cpyLen w, p_inst = w_inst w, p_addr = w_addr w, p_cache = emptyCache\<rparr>
              ([], w_data w)) (\<lambda>(p, out, dat).
       if length out \<noteq> unat (tgtLen w) then Inl (Error WrongWindowLength)
       else if dat \<noteq> [] then Inl (Error ExtraData)
       else if p_addr p \<noteq> [] then Inl (Error ExtraAddress)
       else Inr out)"

section \<open>Streams\<close>

text \<open>Adler-32, as Go's \<open>hash/adler32\<close> documents it: two sums modulo 65521.\<close>

definition adler32 :: "bytes \<Rightarrow> u32" where
  "adler32 bs =
     (let (a, b) = foldl (\<lambda>(a, b) x. (let a = (a + unat x) mod 65521 in (a, (b + a) mod 65521))) (1, 0) bs
      in word_of_nat (65536 * b + a))"

definition decode_window :: "window \<Rightarrow> bytes \<Rightarrow> vcd_error fault + bytes" where
  "decode_window w old =
     (if winInd w AND 1 \<noteq> 0 \<and> old = [] then Inl (Error SourceRequired)
      else bindE (emitWindow w old) (\<lambda>buf.
        if winInd w AND 4 \<noteq> 0 \<and> adler32 buf \<noteq> w_adler w then Inl (Error ChecksumMismatch) else Inr buf))"

lemma c_uint_length: "c_uint oflow v c = Inr (x, c') \<Longrightarrow> length c' < length c"
  by (induction oflow v c rule: c_uint.induct) (auto simp: Let_def split: if_splits)

lemma c_u32_length: "c_u32 c = Inr (x, c') \<Longrightarrow> length c' < length c"
  by (auto simp: c_u32_def res_simps dest: c_uint_length)

lemma c_readFull_length: "c_readFull n c = Inr (x, c') \<Longrightarrow> length c = n + length c' \<and> length x = n"
  by (auto simp: c_readFull_def split: if_splits)

lemma c_u8_length: "c_u8 c = Inr (x, c') \<Longrightarrow> length c' < length c"
  by (auto simp: c_u8_def res_simps dest: c_readFull_length)

lemma readSource_length: "readSource ind c = Inr (x, c') \<Longrightarrow> length c' \<le> length c"
  by (fastforce simp: readSource_def c_u64_def res_simps split: if_splits prod.splits dest: c_uint_length c_u32_length)

lemma readAdler_length: "readAdler ind c = Inr (x, c') \<Longrightarrow> length c' \<le> length c"
  by (auto simp: readAdler_def res_simps split: if_splits dest: c_readFull_length)

lemma readWindow_length:
  assumes "readWindow c = Inr (w, c')"
  shows "length c' < length c"
  using assms unfolding readWindow_def
  by (auto simp: res_simps split: if_splits prod.splits
      dest!: c_u8_length c_u32_length readSource_length readAdler_length c_readFull_length)

text \<open>
  The windows of a patch, each written at the position behind the last. The writer is a parameter:
  \<open>write p pos s\<close> is \<open>WriteAt\<close> and returns the number of bytes it took.
\<close>

function apply_windows ::
  "(bytes \<Rightarrow> nat \<Rightarrow> 's \<Rightarrow> vcd_error fault + nat \<times> 's) \<Rightarrow> bytes \<Rightarrow> nat \<Rightarrow> bytes \<Rightarrow> 's \<Rightarrow> vcd_error fault + 's" where
  "apply_windows write old outPos c s =
     (if c = [] then Inr s
      else case readWindow c of
        Inl e \<Rightarrow> Inl (Error e)
      | Inr (w, c') \<Rightarrow>
          bindE (decode_window w old) (\<lambda>buf.
          bindE (if buf = [] then Inr s
                 else bindE (write buf outPos s) (\<lambda>(n, s). if n \<noteq> length buf then Inl (Error ShortWrite) else Inr s)) (\<lambda>s.
            if outPos > 2 ^ 63 - 1 - length buf then Inl (Error OffsetOverflow)
            else apply_windows write old (outPos + length buf) c' s)))"
  by pat_completeness auto
termination
  by (relation "measure (\<lambda>(write, old, outPos, c, s). length c)") (auto dest: readWindow_length)

declare apply_windows.simps [simp del]

definition ApplyStream ::
  "(bytes \<Rightarrow> nat \<Rightarrow> 's \<Rightarrow> vcd_error fault + nat \<times> 's) \<Rightarrow> bytes \<Rightarrow> bytes \<Rightarrow> 's \<Rightarrow> vcd_error fault + 's" where
  "ApplyStream write old diff s =
     (if diff = [] then Inl (Error EmptyPatch)
      else case readHeader diff of
        Inl e \<Rightarrow> Inl (Error e)
      | Inr c \<Rightarrow> apply_windows write old 0 c s)"

text \<open>The writer of \<open>Apply\<close>: a buffer of fixed size and the number of bytes written.\<close>

record sliceAt =
  sl_buf :: bytes
  sl_n :: nat

definition slice_write :: "bytes \<Rightarrow> nat \<Rightarrow> sliceAt \<Rightarrow> vcd_error fault + nat \<times> sliceAt" where
  "slice_write p pos s =
     (if pos \<noteq> sl_n s then Inl (Error NonSequential)
      else if pos > length (sl_buf s) \<or> length p > length (sl_buf s) - pos then Inl (Error TargetSize)
      else Inr (length p, \<lparr>sl_buf = take pos (sl_buf s) @ p @ drop (pos + length p) (sl_buf s), sl_n = sl_n s + length p\<rparr>))"

text \<open>\<open>SeqWriter\<close> over a writer that takes everything.\<close>

record seqWriter =
  sq_out :: bytes
  sq_off :: nat

definition seq_write :: "bytes \<Rightarrow> nat \<Rightarrow> seqWriter \<Rightarrow> vcd_error fault + nat \<times> seqWriter" where
  "seq_write p pos s =
     (if pos \<noteq> sq_off s then Inl (Error NonSequential)
      else Inr (length p, \<lparr>sq_out = sq_out s @ p, sq_off = sq_off s + length p\<rparr>))"

section \<open>Apply\<close>

fun ts_read :: "nat \<Rightarrow> nat \<Rightarrow> bytes \<Rightarrow> vcd_error + nat \<times> bytes" where
  "ts_read 0 n p = Inl InvalidInteger"
| "ts_read (Suc k) n [] = Inl UnexpectedEOF"
| "ts_read (Suc k) n (b # p) =
     (let n = n * 128 + unat (b AND 127) in
      if n > 2 ^ 30 then Inl MemoryLimit
      else if b < 128 then Inr (n, p) else ts_read k n p)"

lemma ts_read_length: "ts_read k n p = Inr (m, p') \<Longrightarrow> length p' < length p"
  by (induction k n p rule: ts_read.induct) (auto simp: Let_def split: if_splits)

definition ts_source :: "byte \<Rightarrow> bytes \<Rightarrow> vcd_error + bytes" where
  "ts_source flags diff =
     (if flags AND 3 \<noteq> 0 then
        bindE (ts_read 5 0 diff) (\<lambda>(_, diff). bindE (ts_read 5 0 diff) (\<lambda>(_, diff). Inr diff))
      else Inr diff)"

lemma ts_source_length: "ts_source flags p = Inr p' \<Longrightarrow> length p' \<le> length p"
  by (fastforce simp: ts_source_def res_simps split: if_splits prod.splits dest: ts_read_length)

function ts_windows :: "nat \<Rightarrow> bytes \<Rightarrow> vcd_error + nat" where
  "ts_windows tot [] = (if tot = 0 then Inl EmptyTarget else Inr tot)"
| "ts_windows tot (flags # diff) =
     (if flags AND NOT 7 \<noteq> 0 \<or> flags AND 3 = 3 then Inl InvalidWindowFlags
      else bindE (ts_source flags diff) (\<lambda>diff'.
           bindE (ts_read 5 0 diff') (\<lambda>(n, rest).
             if n > length rest then Inl UnexpectedEOF
             else bindE (ts_read 5 0 (take n rest)) (\<lambda>(sz, _).
               if sz > 2 ^ 30 - tot then Inl MemoryLimit
               else ts_windows (tot + sz) (drop n rest)))))"
  by pat_completeness auto
termination
  by (relation "measure (\<lambda>(tot, p). length p)") (auto dest!: ts_source_length ts_read_length)

definition targetSize :: "bytes \<Rightarrow> vcd_error + nat" where
  "targetSize diff =
     (if length diff < 5 \<or> take 4 diff \<noteq> [0xd6, 0xc3, 0xc4, 0] \<or> diff ! 4 AND NOT 4 \<noteq> 0 then Inl UnsupportedHeader
      else if diff ! 4 AND 4 \<noteq> 0 then
        bindE (ts_read 5 0 (drop 5 diff)) (\<lambda>(n, diff).
          if n > length diff then Inl UnexpectedEOF else ts_windows 0 (drop n diff))
      else ts_windows 0 (drop 5 diff))"

definition Apply :: "bytes \<Rightarrow> bytes \<Rightarrow> vcd_error fault + bytes" where
  "Apply old diff =
     (case targetSize diff of
        Inl e \<Rightarrow> Inl (Error e)
      | Inr n \<Rightarrow>
          bindE (ApplyStream slice_write old diff \<lparr>sl_buf = replicate n 0, sl_n = 0\<rparr>) (\<lambda>s.
            if sl_n s \<noteq> n then Inl (Error TargetSize) else Inr (sl_buf s)))"

section \<open>Nothing panics, and sizes are kept\<close>

definition good_cache :: "addrCache \<Rightarrow> bool" where
  "good_cache c \<longleftrightarrow> length (near c) = nearModes \<and> length (same c) = sameModes * 256 \<and> nextSlot c < nearModes"

lemma good_cache_empty [simp]: "good_cache emptyCache"
  by (simp add: good_cache_def emptyCache_def nearModes_def)

lemma good_cache_update [simp]: "good_cache c \<Longrightarrow> good_cache (cache_update v c)"
  by (simp add: good_cache_def cache_update_def nearModes_def)

lemma length_codeTable: "length codeTable = 256"
  by code_simp

lemma decodeAddress_returns:
  assumes "good_cache c"
  shows "returns (\<lambda>(a, n, c'). good_cache c') (decodeAddress c hr mode addr)"
  unfolding decodeAddress_def
proof (rule returns_bind [where P = "\<lambda>_. True"])
  have s: "(mode - (2 + nearModes)) * 256 + unat (b :: byte) < sameModes * 256"
    if "\<not> mode - (2 + nearModes) \<ge> sameModes" for b
    using that unat_byte_less [of b] by (simp add: nearModes_def sameModes_def)
  show "returns (\<lambda>_. True) (if mode < 2 + nearModes then
          (case vcd_readU32 addr of
             Inl e \<Rightarrow> Inl (Error e)
           | Inr (val, n) \<Rightarrow>
               if mode = 0 then Inr (val, n)
               else if mode = 1 then Inr (hr - val, n)
               else bindE (idx (near c) (mode - 2)) (\<lambda>base. Inr (val + base, n)))
        else
          (case addr of
             [] \<Rightarrow> Inl (Error AddressUnderflow)
           | b # _ \<Rightarrow>
               if mode - (2 + nearModes) \<ge> sameModes then Inl (Error AddressUnderflow)
               else bindE (idx (same c) ((mode - (2 + nearModes)) * 256 + unat b)) (\<lambda>val. Inr (val, 1))))"
    using assms s
    by (auto simp: good_cache_def idx_def nearModes_def split: sum.split list.split)
qed (use assms in auto)

definition half_ok :: "u32 \<Rightarrow> u32 \<Rightarrow> halfInst \<Rightarrow> bool" where
  "half_ok clen hr h \<longleftrightarrow> (h_typ h \<ge> opCpy \<longrightarrow> h_addr h < hr \<and>
     (h_addr h < clen \<longrightarrow> unat (h_addr h) + unat (h_size h) \<le> unat clen))"

definition parse_ok :: "u32 \<Rightarrow> parse \<Rightarrow> nat \<Rightarrow> bool" where
  "parse_ok clen p n \<longleftrightarrow> good_cache (p_cache p) \<and> unat (here p) = unat clen + n"

lemma parseSize_returns:
  "returns (\<lambda>(h', p'). h_typ h' = h_typ h \<and> here p' = here p \<and> p_cache p' = p_cache p) (parseSize h p)"
  by (auto simp: parseSize_def split: sum.split)

lemma parseAddr_returns:
  assumes "good_cache (p_cache p)"
  shows "returns (\<lambda>(h', p'). h_typ h' = h_typ h \<and> h_size h' = h_size h \<and> here p' = here p \<and> good_cache (p_cache p')
    \<and> half_ok clen (here p) h') (parseAddr clen h p)"
  unfolding parseAddr_def
proof (rule returns_if)
  show "returns (\<lambda>(h', p'). h_typ h' = h_typ h \<and> h_size h' = h_size h \<and> here p' = here p \<and> good_cache (p_cache p')
      \<and> half_ok clen (here p) h') (bindE (decodeAddress (p_cache p) (here p) (unat (h_typ h - opCpy)) (p_addr p)) (\<lambda>(a, n, cache).
          if a \<ge> here p then Inl (Error AddressTooLarge)
          else if a < clen \<and> unat a + unat (h_size h) > unat clen then Inl (Error SizeTooLarge)
          else Inr (h\<lparr>h_addr := a\<rparr>, p\<lparr>p_addr := drop n (p_addr p), p_cache := cache\<rparr>)))"
    by (rule returns_bind [OF decodeAddress_returns [OF assms]]) (auto simp: half_ok_def split: prod.splits)
qed (auto simp: half_ok_def assms)

lemma parseHalf_returns:
  assumes "parse_ok clen p n"
  shows "returns (\<lambda>(h', p'). h_typ h' = h_typ h \<and> half_ok clen (here p) h' \<and> parse_ok clen p' (n + unat (h_size h')))
    (parseHalf clen maxPos h p)"
  unfolding parseHalf_def
proof (rule returns_bind [OF parseSize_returns], clarify)
  fix h1 :: halfInst and p1 :: parse assume 1: "h_typ h1 = h_typ h" "here p1 = here p" "p_cache p1 = p_cache p"
  have g: "good_cache (p_cache p1)" using assms 1 by (simp add: parse_ok_def)
  show "returns (\<lambda>(h', p'). h_typ h' = h_typ h \<and> half_ok clen (here p) h' \<and> parse_ok clen p' (n + unat (h_size h')))
    (bindE (parseAddr clen h1 p1) (\<lambda>(h, p). if unat maxPos < unat (here p) + unat (h_size h) then Inl (Error SizeTooLarge)
       else Inr (h, p\<lparr>here := here p + h_size h\<rparr>)))"
  proof (rule returns_bind [OF parseAddr_returns [OF g, where clen = clen]], clarify)
    fix h2 :: halfInst and p2 :: parse assume 2: "h_typ h2 = h_typ h1" "here p2 = here p1" "good_cache (p_cache p2)" "half_ok clen (here p1) h2"
    show "returns (\<lambda>(h', p'). h_typ h' = h_typ h \<and> half_ok clen (here p) h' \<and> parse_ok clen p' (n + unat (h_size h')))
      (if unat maxPos < unat (here p2) + unat (h_size h2) then Inl (Error SizeTooLarge)
       else Inr (h2, p2\<lparr>here := here p2 + h_size h2\<rparr>))"
    proof (rule returns_if)
      assume "\<not> unat maxPos < unat (here p2) + unat (h_size h2)"
      then have "unat (here p2) + unat (h_size h2) < 2 ^ LENGTH(32)"
        using unat_u32_less [of maxPos] by simp
      then have "unat (here p2 + h_size h2) = unat (here p2) + unat (h_size h2)" by (rule unat_add_lem [THEN iffD1])
      then show "returns (\<lambda>(h', p'). h_typ h' = h_typ h \<and> half_ok clen (here p) h' \<and> parse_ok clen p' (n + unat (h_size h')))
          (Inr (h2, p2\<lparr>here := here p2 + h_size h2\<rparr>))"
        using assms 1 2 by (simp add: parse_ok_def)
    qed simp
  qed
qed

lemma parse_if_returns:
  assumes "parse_ok clen p n"
  shows "returns (\<lambda>(h', p'). h_typ h' = h_typ h \<and> half_ok clen (here p) h'
      \<and> parse_ok clen p' (n + (if h_typ h = opNoop then 0 else unat (h_size h'))))
    (parse_if clen maxPos h p)"
proof (cases "h_typ h = opNoop")
  case True
  then show ?thesis using assms by (auto simp: parse_if_def half_ok_def opNoop_def opCpy_def)
next
  case False
  then show ?thesis
    using parseHalf_returns [OF assms, of h maxPos] by (auto simp: parse_if_def elim!: returns_mono)
qed

lemma copy_within_returns:
  "n = 0 \<or> src < length out \<Longrightarrow> returns (\<lambda>out'. length out' = length out + n) (copy_within w src n out)"
proof (induction n arbitrary: src out)
  case (Suc n)
  have "returns (\<lambda>out'. length out' = length (out @ [out ! src]) + n) (copy_within w (src + 1) n (out @ [out ! src]))"
    using Suc.prems by (intro Suc.IH) auto
  then show ?case using Suc.prems by (simp add: buf_at_def)
qed simp

lemma copy_old_length:
  assumes "copy_old w old a n = Inr bs" "n < 2 ^ 32"
  shows "length bs = n"
proof -
  let ?pos = "cpyOff w + ucast a"
  have e: "\<not> ?pos + word_of_nat n < ?pos" "unat (?pos + word_of_nat n) \<le> length old" "bs = take n (drop (unat ?pos) old)"
    using assms(1) by (auto simp: copy_old_def Let_def split: if_splits)
  have "unat (word_of_nat n :: u64) = n" by (rule unat_of_nat_small) (use assms(2) in simp)
  then have "unat (?pos + word_of_nat n) = unat ?pos + n"
    using e(1) by (metis unat_plus_simple not_less)
  with e show ?thesis by simp
qed

lemma outputHalf_returns:
  assumes "half_ok (cpyLen w) hr h" "unat hr = unat (cpyLen w) + length out" "length out \<le> unat (tgtLen w)"
    and "h_typ h \<noteq> opNoop"
  shows "returns (\<lambda>(out', dat'). length out' = length out + unat (h_size h) \<and> length out' \<le> unat (tgtLen w))
    (outputHalf w old h (out, dat))"
proof -
  have c: "h_typ h = opRun \<or> h_typ h = opAdd \<or> opCpy \<le> h_typ h"
  proof -
    have "opCpy \<le> h_typ h" if "\<not> unat (h_typ h) < 3"
      using that unfolding opCpy_def word_le_nat_alt by simp
    moreover have "h_typ h = 2 \<or> h_typ h = 1 \<or> h_typ h = 0" if "unat (h_typ h) < 3"
    proof -
      have "unat (h_typ h) = unat (2 :: byte) \<or> unat (h_typ h) = unat (1 :: byte) \<or> unat (h_typ h) = unat (0 :: byte)"
        using that by auto
      then show ?thesis using unsigned_word_eqI by blast
    qed
    ultimately show ?thesis using assms(4) by (auto simp: opRun_def opAdd_def opNoop_def)
  qed
  have z: "returns (\<lambda>bs. length bs = unat (h_size h)) (copy_old w old (h_addr h) (unat (h_size h)))"
    unfolding returns_iff
  proof (intro conjI allI impI)
    show "copy_old w old (h_addr h) (unat (h_size h)) \<noteq> Inl Panic" by (simp add: copy_old_def Let_def)
    fix bs assume "copy_old w old (h_addr h) (unat (h_size h)) = Inr bs"
    then show "length bs = unat (h_size h)" by (rule copy_old_length) (use unat_u32_less [of "h_size h"] in simp)
  qed
  show ?thesis
  proof (cases "h_typ h = opRun \<or> h_typ h = opAdd")
    case True
    then show ?thesis using assms(3) by (auto simp: outputHalf_def Let_def opRun_def opAdd_def split: list.split)
  next
    case False
    with c have cp: "opCpy \<le> h_typ h" by simp
    show ?thesis
    proof (cases "h_addr h < cpyLen w")
      case True
      then show ?thesis using False assms(3)
        by (auto simp: outputHalf_def Let_def intro!: returns_if returns_bind [OF z])
    next
      case f: False
      have "unat (h_addr h - cpyLen w) = unat (h_addr h) - unat (cpyLen w)"
        using f by (intro unat_sub) (simp add: not_less)
      moreover have "unat (h_addr h) < unat hr" using assms(1) cp by (simp add: half_ok_def word_less_nat_alt)
      ultimately have "unat (h_size h) = 0 \<or> unat (h_addr h - cpyLen w) < length out"
        using f assms(2) by (auto simp: word_less_nat_alt)
      from copy_within_returns [OF this, of w] show ?thesis
        using False f assms(3)
        by (auto simp: outputHalf_def Let_def intro!: returns_if elim!: returns_bind)
    qed
  qed
qed

lemma output_if_returns:
  assumes "half_ok (cpyLen w) hr h" "unat hr = unat (cpyLen w) + length out" "length out \<le> unat (tgtLen w)"
  shows "returns (\<lambda>(out', dat'). length out' = length out + (if h_typ h = opNoop then 0 else unat (h_size h))
      \<and> length out' \<le> unat (tgtLen w)) (output_if w old h (out, dat))"
  using outputHalf_returns [OF assms, of old dat] assms(3) by (simp add: output_if_def)

lemma emit_turn_returns:
  assumes "parse_ok (cpyLen w) p (length out)" "length out \<le> unat (tgtLen w)"
  shows "returns (\<lambda>(p', out', dat'). parse_ok (cpyLen w) p' (length out') \<and> length out' \<le> unat (tgtLen w))
    (emit_turn w old op p (out, dat))"
  unfolding emit_turn_def
proof (rule returns_bind [OF returns_idx [where Q = "\<lambda>_. True"]])
  show "unat op < length codeTable" using unat_byte_less [of op] by (simp add: length_codeTable)
  fix e :: codeEntry
  let ?h1 = "\<lparr>h_typ = t1 e, h_size = ucast (s1 e), h_addr = 0\<rparr> :: halfInst"
  let ?h2 = "\<lparr>h_typ = t2 e, h_size = ucast (s2 e), h_addr = 0\<rparr> :: halfInst"
  let ?Q = "\<lambda>(p' :: parse, out', dat' :: bytes). parse_ok (cpyLen w) p' (length out') \<and> length out' \<le> unat (tgtLen w)"
  show "returns ?Q
     (bindE (parse_if (cpyLen w) (cpyLen w + tgtLen w) ?h1 p) (\<lambda>(h1, p).
     bindE (parse_if (cpyLen w) (cpyLen w + tgtLen w) ?h2 p) (\<lambda>(h2, p).
     bindE (output_if w old h1 (out, dat)) (\<lambda>od.
     bindE (output_if w old h2 od) (\<lambda>od. Inr (p, od))))))"
  proof (rule returns_bind [OF parse_if_returns [OF assms(1)]], clarify)
    fix h1 :: halfInst and p1 :: parse
    assume 1: "half_ok (cpyLen w) (here p) h1"
      "parse_ok (cpyLen w) p1 (length out + (if h_typ ?h1 = opNoop then 0 else unat (h_size h1)))" "h_typ h1 = h_typ ?h1"
    show "returns ?Q
       (bindE (parse_if (cpyLen w) (cpyLen w + tgtLen w) ?h2 p1) (\<lambda>(h2, p).
       bindE (output_if w old h1 (out, dat)) (\<lambda>od.
       bindE (output_if w old h2 od) (\<lambda>od. Inr (p, od)))))"
    proof (rule returns_bind [OF parse_if_returns [OF 1(2)]], clarify)
      fix h2 :: halfInst and p2 :: parse
      assume 2: "half_ok (cpyLen w) (here p1) h2" "h_typ h2 = h_typ ?h2"
        "parse_ok (cpyLen w) p2 (length out + (if h_typ ?h1 = opNoop then 0 else unat (h_size h1))
           + (if h_typ ?h2 = opNoop then 0 else unat (h_size h2)))"
      have u: "unat (here p) = unat (cpyLen w) + length out" using assms(1) by (simp add: parse_ok_def)
      show "returns ?Q (bindE (output_if w old h1 (out, dat)) (\<lambda>od. bindE (output_if w old h2 od) (\<lambda>od. Inr (p2, od))))"
      proof (rule returns_bind [OF output_if_returns [OF 1(1) u assms(2)]], clarify)
        fix out1 dat1 :: bytes
        assume 3: "length out1 = length out + (if h_typ h1 = opNoop then 0 else unat (h_size h1))"
          "length out1 \<le> unat (tgtLen w)"
        have u1: "unat (here p1) = unat (cpyLen w) + length out1" using 1 3 by (simp add: parse_ok_def)
        show "returns ?Q (bindE (output_if w old h2 (out1, dat1)) (\<lambda>od. Inr (p2, od)))"
          by (rule returns_bind [OF output_if_returns [OF 2(1) u1 3(2)]]) (use 1 2 3 in auto)
      qed
    qed
  qed
qed simp

lemma emit_loop_returns:
  assumes "parse_ok (cpyLen w) p (length (fst od))" "length (fst od) \<le> unat (tgtLen w)"
  shows "returns (\<lambda>(p', out', dat'). length out' \<le> unat (tgtLen w)) (emit_loop w old p od)"
  using assms
proof (induction w old p od rule: emit_loop.induct)
  case (1 w old p od)
  obtain out dat where od: "od = (out, dat)" by fastforce
  show ?case
  proof (cases "p_inst p")
    case Nil
    then show ?thesis using 1 by (simp add: emit_loop.simps od)
  next
    case (Cons op rest)
    have p: "parse_ok (cpyLen w) (p\<lparr>p_inst := rest\<rparr>) (length out)" using 1 by (simp add: od parse_ok_def)
    have "returns (\<lambda>(p', out', dat'). length out' \<le> unat (tgtLen w))
      (bindE (emit_turn w old op (p\<lparr>p_inst := rest\<rparr>) (out, dat)) (\<lambda>(p, od). emit_loop w old p od))"
      by (rule returns_bind [OF emit_turn_returns [OF p]])
        (use 1(1) [OF Cons] 1(3) in \<open>auto simp: od\<close>)
    then show ?thesis using Cons by (subst emit_loop.simps) (simp add: od)
  qed
qed

lemma emitWindow_returns: "returns (\<lambda>out. length out = unat (tgtLen w)) (emitWindow w old)"
  unfolding emitWindow_def
  by (rule returns_bind [OF emit_loop_returns]) (auto simp: parse_ok_def)

lemma decode_window_returns: "returns (\<lambda>out. length out = unat (tgtLen w)) (decode_window w old)"
  unfolding decode_window_def
  by (rule returns_if, simp, rule returns_bind [OF emitWindow_returns]) simp

section \<open>Writers\<close>

text \<open>
  What the decoder needs of a writer, and what it promises: it writes every window at the end of
  what is written. \<open>room s k\<close> says that \<open>k\<close> more bytes fit.
\<close>

locale target_writer =
  fixes wr :: "bytes \<Rightarrow> nat \<Rightarrow> 's \<Rightarrow> vcd_error fault + nat \<times> 's"
    and written :: "'s \<Rightarrow> bytes"
    and good :: "'s \<Rightarrow> bool"
    and room :: "'s \<Rightarrow> nat \<Rightarrow> bool"
  assumes appends: "good s \<Longrightarrow> wr p (length (written s)) s = Inr (n, s') \<Longrightarrow>
      good s' \<and> written s' = written s @ p"
    and refuses: "good s \<Longrightarrow> wr p (length (written s)) s \<noteq> Inl Panic"
    and accepts: "good s \<Longrightarrow> room s (length p + k) \<Longrightarrow>
      \<exists>s'. wr p (length (written s)) s = Inr (length p, s') \<and> room s' k"

text \<open>The windows of a patch behind its header, decoded one after the other.\<close>

inductive windows_of :: "bytes \<Rightarrow> bytes \<Rightarrow> bytes list \<Rightarrow> bool" for old where
  windows_end: "windows_of old [] []"
| windows_more: "c \<noteq> [] \<Longrightarrow> readWindow c = Inr (w, c') \<Longrightarrow> decode_window w old = Inr buf \<Longrightarrow>
    windows_of old c' bufs \<Longrightarrow> windows_of old c (buf # bufs)"

text \<open>One window put out: nothing is written for an empty one.\<close>

definition put_window ::
  "(bytes \<Rightarrow> nat \<Rightarrow> 's \<Rightarrow> vcd_error fault + nat \<times> 's) \<Rightarrow> bytes \<Rightarrow> nat \<Rightarrow> 's \<Rightarrow> vcd_error fault + 's" where
  "put_window write buf outPos s =
     (if buf = [] then Inr s
      else bindE (write buf outPos s) (\<lambda>(n, s). if n \<noteq> length buf then Inl (Error ShortWrite) else Inr s))"

lemma apply_windows_Nil [simp]: "apply_windows wr old pos [] s = Inr s"
  by (simp add: apply_windows.simps)

lemma apply_windows_more:
  "c \<noteq> [] \<Longrightarrow> readWindow c = Inr (w, c') \<Longrightarrow>
   apply_windows wr old pos c s = bindE (decode_window w old) (\<lambda>buf.
     bindE (put_window wr buf pos s) (\<lambda>s.
       if pos > 2 ^ 63 - 1 - length buf then Inl (Error OffsetOverflow)
       else apply_windows wr old (pos + length buf) c' s))"
  by (subst apply_windows.simps) (simp add: put_window_def)

context target_writer
begin

lemma put_window_returns:
  "good s \<Longrightarrow> returns (\<lambda>s'. good s' \<and> written s' = written s @ buf) (put_window wr buf (length (written s)) s)"
  using appends [of s buf] refuses [of s buf]
  by (auto simp: put_window_def returns_iff res_simps split: prod.splits)

lemma writes_windows:
  "good s \<Longrightarrow> returns (\<lambda>s'. good s' \<and> (\<exists>bufs. windows_of old c bufs \<and> written s' = written s @ concat bufs))
     (apply_windows wr old (length (written s)) c s)"
proof (induction "length c" arbitrary: c s rule: less_induct)
  case less
  show ?case
  proof (cases "c = []")
    case True
    then show ?thesis using less.prems by (auto intro: windows_end exI [of _ "[]"])
  next
    case c: False
    show ?thesis
    proof (cases "readWindow c")
      case (Inl e)
      then show ?thesis using c by (subst apply_windows.simps) simp
    next
      case (Inr r)
      obtain w c' where r: "readWindow c = Inr (w, c')" using Inr by (cases r) simp
      note l = readWindow_length [OF r]
      show ?thesis
        unfolding apply_windows_more [OF c r]
      proof (rule returns_bind [OF decode_window_returns], rule returns_bind [OF put_window_returns [OF less.prems]],
          rule returns_if)
        fix buf s1
        assume d: "decode_window w old = Inr buf" and 1: "good s1 \<and> written s1 = written s @ buf"
        have "returns (\<lambda>s'. good s' \<and> (\<exists>bufs. windows_of old c' bufs \<and> written s' = written s1 @ concat bufs))
          (apply_windows wr old (length (written s1)) c' s1)"
          using l 1 by (intro less.hyps) auto
        moreover have "length (written s1) = length (written s) + length buf" using 1 by simp
        ultimately have "returns (\<lambda>s'. good s' \<and> (\<exists>bufs. windows_of old c' bufs \<and> written s' = written s1 @ concat bufs))
          (apply_windows wr old (length (written s) + length buf) c' s1)" by (simp only:)
        then show "returns (\<lambda>s'. good s' \<and> (\<exists>bufs. windows_of old c bufs \<and> written s' = written s @ concat bufs))
          (apply_windows wr old (length (written s) + length buf) c' s1)"
          by (rule returns_mono)
            (use 1 windows_more [OF c r d] in \<open>clarsimp, metis concat.simps(2)\<close>)
      qed simp
    qed
  qed
qed

lemma windows_written:
  "windows_of old c bufs \<Longrightarrow> good s \<Longrightarrow> room s (length (concat bufs)) \<Longrightarrow>
   length (written s) + length (concat bufs) < 2 ^ 63 \<Longrightarrow>
   \<exists>s'. apply_windows wr old (length (written s)) c s = Inr s' \<and> good s' \<and> written s' = written s @ concat bufs"
proof (induction arbitrary: s rule: windows_of.induct)
  case (windows_more c w c' buf bufs)
  have "\<exists>s1. put_window wr buf (length (written s)) s = Inr s1 \<and> room s1 (length (concat bufs))"
  proof (cases "buf = []")
    case False
    then show ?thesis using accepts [of s buf "length (concat bufs)"] windows_more.prems
      by (auto simp: put_window_def)
  qed (use windows_more.prems in \<open>simp add: put_window_def\<close>)
  then obtain s1 where s1: "put_window wr buf (length (written s)) s = Inr s1" "room s1 (length (concat bufs))" by blast
  have g: "good s1" "written s1 = written s @ buf"
    using put_window_returns [OF windows_more.prems(1), of buf] s1 by simp_all
  have "\<exists>s'. apply_windows wr old (length (written s1)) c' s1 = Inr s' \<and> good s' \<and> written s' = written s1 @ concat bufs"
    using g s1 windows_more.prems(3) by (intro windows_more.IH) auto
  then show ?case
    using windows_more.prems(3) windows_more.hyps s1 g
    by (simp add: apply_windows_more [OF windows_more.hyps(1,2)])
qed simp

end

text \<open>Both writers of the source are such writers.\<close>

interpretation slice: target_writer slice_write "\<lambda>s. take (sl_n s) (sl_buf s)" "\<lambda>s. length (sl_buf s) = n \<and> sl_n s \<le> n"
  "\<lambda>s k. sl_n s + k \<le> n" for n
  by unfold_locales (auto simp: slice_write_def split: if_splits)

interpretation seq: target_writer seq_write sq_out "\<lambda>s. sq_off s = length (sq_out s)" "\<lambda>s k. True"
  by unfold_locales (auto simp: seq_write_def split: if_splits)

lemma ApplyStream_returns:
  assumes "target_writer wr written good room" "good s" "written s = []"
  shows "returns (\<lambda>s'. good s' \<and> (\<exists>c bufs. readHeader diff = Inr c \<and> windows_of old c bufs \<and> written s' = concat bufs))
    (ApplyStream wr old diff s)"
proof (cases "diff = [] \<or> (\<exists>e. readHeader diff = Inl e)")
  case False
  then obtain c where c: "diff \<noteq> []" "readHeader diff = Inr c" by (cases "readHeader diff") auto
  then show ?thesis
    using target_writer.writes_windows [OF assms(1,2), of old c] assms(3)
    by (auto simp: ApplyStream_def elim!: returns_mono)
qed (auto simp: ApplyStream_def)

lemma ts_windows_bound: "ts_windows tot p = Inr n \<Longrightarrow> tot \<le> 2 ^ 30 \<Longrightarrow> n \<le> 2 ^ 30 \<and> n \<noteq> 0"
  by (induction tot p rule: ts_windows.induct) (auto simp: res_simps split: if_splits prod.splits)

lemma targetSize_bound: "targetSize p = Inr n \<Longrightarrow> n \<le> 2 ^ 30 \<and> n \<noteq> 0"
  by (auto simp: targetSize_def res_simps split: if_splits prod.splits dest: ts_windows_bound)

lemma Apply_returns:
  "returns (\<lambda>out. targetSize diff = Inr (length out) \<and>
     (\<exists>c bufs. readHeader diff = Inr c \<and> windows_of old c bufs \<and> out = concat bufs)) (Apply old diff)"
proof (cases "targetSize diff")
  case (Inr n)
  let ?s = "\<lparr>sl_buf = replicate n 0, sl_n = 0\<rparr> :: sliceAt"
  have "returns (\<lambda>s'. (length (sl_buf s') = n \<and> sl_n s' \<le> n) \<and> (\<exists>c bufs. readHeader diff = Inr c \<and> windows_of old c bufs
      \<and> take (sl_n s') (sl_buf s') = concat bufs)) (ApplyStream slice_write old diff ?s)"
    by (rule ApplyStream_returns [OF slice.target_writer_axioms]) simp_all
  then have "returns (\<lambda>out. length out = n \<and> (\<exists>c bufs. readHeader diff = Inr c \<and> windows_of old c bufs \<and> out = concat bufs))
    (bindE (ApplyStream slice_write old diff ?s) (\<lambda>s. if sl_n s \<noteq> n then Inl (Error TargetSize) else Inr (sl_buf s)))"
    by (rule returns_bind, intro returns_if) auto
  then show ?thesis using Inr by (auto simp: Apply_def elim!: returns_mono)
qed (simp add: Apply_def)

text \<open>
  C34: applying a patch in memory never panics (the copies stay inside the target buffer and the
  address caches, whatever the patch says), and a result is the concatenation of the windows the
  patch holds, with exactly the size found by the scan that allocated it, at most 1 GiB.
\<close>

theorem xdelta_apply_safe:
  "case Apply old diff of
     Inl e \<Rightarrow> e \<noteq> Panic
   | Inr out \<Rightarrow> targetSize diff = Inr (length out) \<and> length out \<le> 2 ^ 30 \<and>
       (\<exists>c bufs. readHeader diff = Inr c \<and> windows_of old c bufs \<and> out = concat bufs)"
  using Apply_returns [of diff old] targetSize_bound [of diff]
  by (auto simp: returns_def split: sum.split_asm)

text \<open>
  C36: the in-memory and the streaming decoder agree: what \<open>Apply\<close> returns, \<open>ApplyStream\<close> writes
  in order to a sequential writer.
\<close>

theorem xdelta_stream_agrees:
  assumes "Apply old diff = Inr out"
  shows "ApplyStream seq_write old diff \<lparr>sq_out = [], sq_off = 0\<rparr> = Inr \<lparr>sq_out = out, sq_off = length out\<rparr>"
proof -
  from Apply_returns [of diff old] assms obtain c bufs where
    c: "targetSize diff = Inr (length out)" "readHeader diff = Inr c" "windows_of old c bufs" "out = concat bufs"
    by (auto simp: returns_def)
  have l: "length out \<le> 2 ^ 30" using targetSize_bound [OF c(1)] by simp
  have d: "diff \<noteq> []" using c(1) by (auto simp: targetSize_def)
  obtain s' where "apply_windows seq_write old 0 c \<lparr>sq_out = [], sq_off = 0\<rparr> = Inr s'"
    "sq_off s' = length (sq_out s')" "sq_out s' = out"
    using seq.windows_written [OF c(3), of "\<lparr>sq_out = [], sq_off = 0\<rparr>"] l c(4) by auto
  then show ?thesis using d c(2) by (cases s') (simp add: ApplyStream_def)
qed

section \<open>Writing integers\<close>

text \<open>RFC 3284's integers: base 128, most significant digit first, all but the last marked.\<close>

fun vcd_hi :: "nat \<Rightarrow> bytes" where
  "vcd_hi n = (if n = 0 then [] else vcd_hi (n div 128) @ [more_digit (n mod 128)])"

declare vcd_hi.simps [simp del]

definition vcd_int :: "nat \<Rightarrow> bytes" where
  "vcd_int n = vcd_hi (n div 128) @ [last_digit (n mod 128)]"

text \<open>The cursor's reader takes digit after digit as long as the value has room for one more.\<close>

lemma c_uint_hi:
  assumes "\<And>x. x < B \<Longrightarrow> word_of_nat x AND oflow = 0" "n < B"
  shows "c_uint oflow 0 (vcd_hi n @ c) = c_uint oflow (word_of_nat n) c"
  using assms(2)
proof (induction n arbitrary: c rule: vcd_hi.induct)
  case (1 n)
  show ?case
  proof (cases "n = 0")
    case False
    note d = digit_bits [of "n mod 128"]
    have n: "128 * (n div 128) + n mod 128 = n" by simp
    have "c_uint oflow 0 (vcd_hi n @ c) = c_uint oflow (word_of_nat (n div 128)) (more_digit (n mod 128) # c)"
      using 1 False by (subst vcd_hi.simps) simp
    also have "\<dots> = c_uint oflow (word_of_nat n) c"
      using d assms(1) [of "n div 128"] 1(2) push_digit [OF d(1), where 'w = 64 and m = "n div 128"]
      by (simp add: n)
    finally show ?thesis .
  qed (simp add: vcd_hi.simps)
qed

lemma c_uint_int:
  assumes "\<And>x. x < B \<Longrightarrow> word_of_nat x AND oflow = 0" "n div 128 < B"
  shows "c_uint oflow 0 (vcd_int n @ c) = Inr (word_of_nat n, c)"
proof -
  note d = digit_bits [of "n mod 128"]
  have n: "128 * (n div 128) + n mod 128 = n" by simp
  show ?thesis
    unfolding vcd_int_def
    using d assms(1) [OF assms(2)] push_digit [OF d(3), where 'w = 64 and m = "n div 128"]
    by (simp add: c_uint_hi [of B, OF assms] n)
qed

lemma u32Oflow_and: "x < 2 ^ 25 \<Longrightarrow> word_of_nat x AND u32Oflow = 0"
  by (rule and_high_zero [of _ 25]) (simp_all add: u32Oflow_def take_bit_eq_mask mask_eq_exp_minus_1)

lemma u64Oflow_and: "x < 2 ^ 57 \<Longrightarrow> word_of_nat x AND u64Oflow = 0"
  by (rule and_high_zero [of _ 57]) (simp_all add: u64Oflow_def take_bit_eq_mask mask_eq_exp_minus_1)

lemma ucast_down_up: "ucast (ucast v :: u64) = (v :: u32)"
  by (rule bit_word_eqI) (simp add: bit_simps)

lemma c_u32_int [simp]: "c_u32 (vcd_int (unat v) @ c) = Inr (v, c)"
proof -
  have "unat v div 128 < 2 ^ 25" using unat_u32_less [of v] by simp
  from c_uint_int [OF u32Oflow_and this, of c] show ?thesis
    by (simp add: c_u32_def ucast_down_up)
qed

lemma c_u64_int [simp]: "c_u64 (vcd_int (unat v) @ c) = Inr (v, c)"
proof -
  have "unat v div 128 < 2 ^ 57" using unat_u64_less [of v] by simp
  from c_uint_int [OF u64Oflow_and this, of c] show ?thesis
    by (simp add: c_u64_def)
qed

text \<open>The reader of a section in memory and the cursor's reader are the same function.\<close>

lemma oflow_narrow: "ucast (val AND ucast u32Oflow) = (ucast val AND u32Oflow :: u64)" for val :: u32
  by (rule bit_word_eqI) (auto simp: bit_simps u32Oflow_def dest: bit_imp_le_length)

lemma oflow_zero_iff: "(val AND ucast u32Oflow = 0) \<longleftrightarrow> (ucast val AND u32Oflow = (0 :: u64))" for val :: u32
  unfolding oflow_narrow [symmetric] by (metis ucast_down_up ucast_0)

lemma oflow_zero_bound:
  assumes "val AND ucast u32Oflow = 0"
  shows "unat (val :: u32) < 2 ^ 25"
proof -
  have "(ucast u32Oflow :: u32) = NOT (mask 25)" unfolding u32Oflow_def by (simp add: mask_eq_exp_minus_1)
  with assms have z: "val AND NOT (mask 25) = 0" by simp
  have "val AND mask 25 = val"
  proof (rule bit_word_eqI)
    fix n assume "n < LENGTH(32)"
    then have "\<not> (bit val n \<and> 25 \<le> n)" using arg_cong [OF z, of "\<lambda>w. bit w n"] by (auto simp: bit_simps)
    then show "bit (val AND mask 25) n = bit val n" using \<open>n < LENGTH(32)\<close> by (auto simp: bit_simps)
  qed
  then have "unat val = unat val mod 2 ^ 25" by (metis unat_and_mask)
  moreover have "unat val mod 2 ^ 25 < 2 ^ 25" by simp
  ultimately show ?thesis by (simp only:)
qed

lemma readU32_loop_uint:
  "readU32_loop val i bs = (case c_uint u32Oflow (ucast val) bs of
     Inl e \<Rightarrow> Inl e | Inr (v, c) \<Rightarrow> Inr (ucast v, i + (length bs - length c)))"
proof (induction bs arbitrary: val i)
  case (Cons b bs)
  show ?case
  proof (cases "val AND ucast u32Oflow = 0")
    case True
    have z: "ucast val AND u32Oflow = 0" using True oflow_zero_iff by blast
    define k where "k = unat (b AND 127)"
    have m: "(127 :: byte) = mask 7" by (simp add: mask_eq_exp_minus_1)
    have k: "unat (b AND 127) = k" "k < 128" unfolding k_def unat_and_numeral [OF m] by simp_all
    have v: "(128 * unat val + k) < 2 ^ 32" using oflow_zero_bound [OF True] k(2) by simp
    let ?v = "push_bit 7 val OR ucast (b AND 127)"
    have 1: "?v = word_of_nat (128 * unat val + k)"
      using push_digit [OF k, where 'w = 32 and m = "unat val"] by simp
    have 2: "push_bit 7 (ucast val) OR ucast (b AND 127) = (word_of_nat (128 * unat val + k) :: u64)"
      using push_digit [OF k, where 'w = 64 and m = "unat val"] by simp
    have 3: "ucast ?v = (push_bit 7 (ucast val) OR ucast (b AND 127) :: u64)"
    proof -
      have "unat (word_of_nat (128 * unat val + k) :: u32) = 128 * unat val + k"
        by (rule unat_of_nat_small) (use v in simp)
      then show ?thesis unfolding 1 2 by (metis of_nat_unat)
    qed
    show ?thesis
    proof (cases "b < 128")
      case True
      then show ?thesis using z \<open>val AND ucast u32Oflow = 0\<close> 3 by (simp flip: 3 add: ucast_down_up)
    next
      case False
      then show ?thesis using z \<open>val AND ucast u32Oflow = 0\<close> Cons.IH [of ?v "i + 1"] c_uint_length
        by (fastforce simp: 3 Let_def split: sum.split)
    qed
  next
    case False
    then show ?thesis using oflow_zero_iff by (simp add: oflow_zero_iff)
  qed
qed simp

lemma vcd_readU32_int [simp]:
  "vcd_readU32 (vcd_int (unat v) @ bs) = Inr (v, length (vcd_int (unat v)))"
proof -
  have "unat v div 128 < 2 ^ 25" using unat_u32_less [of v] by simp
  from c_uint_int [OF u32Oflow_and this, of bs] show ?thesis
    by (simp add: vcd_readU32_def readU32_loop_uint ucast_down_up)
qed

lemma length_vcd_hi:
  "length (vcd_hi n) \<le> k \<longleftrightarrow> n < 128 ^ k"
proof (induction k arbitrary: n)
  case 0
  then show ?case by (subst vcd_hi.simps) simp
next
  case (Suc k)
  show ?case
  proof (cases "n = 0")
    case False
    then have "length (vcd_hi n) = Suc (length (vcd_hi (n div 128)))" by (subst vcd_hi.simps) simp
    then show ?thesis using Suc by (simp add: div_less_iff_less_mult mult.commute)
  qed (simp add: vcd_hi.simps)
qed

text \<open>\<open>sizeof32\<close> is the length of the integer.\<close>

lemma sizeof32_int: "unat (sizeof32 v) = length (vcd_int (unat v))"
proof -
  define l where "l = length (vcd_hi (unat v div 128))"
  have l: "l \<le> k \<longleftrightarrow> unat v div 128 < 128 ^ k" for k unfolding l_def by (rule length_vcd_hi)
  have "l \<le> 4" unfolding l using unat_u32_less [of v] by simp
  then have c: "l = 0 \<or> l = 1 \<or> l = 2 \<or> l = 3 \<or> l = 4" by linarith
  have "v < push_bit 7 1 \<longleftrightarrow> l \<le> 0" "v < push_bit 14 1 \<longleftrightarrow> l \<le> 1"
    "v < push_bit 21 1 \<longleftrightarrow> l \<le> 2" "v < push_bit 28 1 \<longleftrightarrow> l \<le> 3"
    unfolding l by (simp_all add: word_less_nat_alt div_less_iff_less_mult div_eq_0_iff)
  then have "unat (sizeof32 v) = Suc l"
    unfolding sizeof32_def using c by (elim disjE) (simp_all only:, simp_all)
  then show ?thesis by (simp add: vcd_int_def l_def)
qed

section \<open>Instructions and their meaning\<close>

text \<open>
  What an encoder has: bytes to add, a run, a copy from the address space that holds the source
  segment and behind it the target as far as it is built (with the address mode it chose).
\<close>

datatype vinst = VAdd bytes | VRun byte u32 | VCopy u32 nat u32

fun ilen :: "vinst \<Rightarrow> nat" where
  "ilen (VAdd d) = length d"
| "ilen (VRun b n) = unat n"
| "ilen (VCopy a mode n) = unat n"

fun ityp :: "vinst \<Rightarrow> byte" where
  "ityp (VAdd d) = opAdd"
| "ityp (VRun b n) = opRun"
| "ityp (VCopy a mode n) = cpy mode"

text \<open>A copy takes its bytes one by one, so it can read what it has just written.\<close>

fun append_from :: "nat \<Rightarrow> nat \<Rightarrow> bytes \<Rightarrow> bytes" where
  "append_from a 0 u = u"
| "append_from a (Suc n) u = append_from (a + 1) n (u @ [u ! a])"

fun build :: "vinst \<Rightarrow> bytes \<Rightarrow> bytes" where
  "build (VAdd d) u = u @ d"
| "build (VRun b n) u = u @ replicate (unat n) b"
| "build (VCopy a mode n) u = append_from (unat a) (unat n) u"

text \<open>The encoder's sections, and its own copy of the position and the address cache.\<close>

definition enc_addr :: "addrCache \<Rightarrow> u32 \<Rightarrow> nat \<Rightarrow> u32 \<Rightarrow> bytes" where
  "enc_addr cache hr mode a =
     (if mode = 0 then vcd_int (unat a)
      else if mode = 1 then vcd_int (unat (hr - a))
      else if mode < 6 then vcd_int (unat (a - near cache ! (mode - 2)))
      else [word_of_nat (unat a mod 256)])"

definition addr_mode_ok :: "addrCache \<Rightarrow> nat \<Rightarrow> u32 \<Rightarrow> bool" where
  "addr_mode_ok cache mode a \<longleftrightarrow> mode < 9 \<and> (6 \<le> mode \<longrightarrow> same cache ! ((mode - 6) * 256 + unat a mod 256) = a)"

fun inst_ok :: "u32 \<Rightarrow> u32 \<times> addrCache \<Rightarrow> vinst \<Rightarrow> bool" where
  "inst_ok clen (hr, cache) (VAdd d) \<longleftrightarrow> True"
| "inst_ok clen (hr, cache) (VRun b n) \<longleftrightarrow> True"
| "inst_ok clen (hr, cache) (VCopy a mode n) \<longleftrightarrow>
     addr_mode_ok cache mode a \<and> a < hr \<and> (a < clen \<longrightarrow> unat a + unat n \<le> unat clen)"

fun enc_data :: "vinst \<Rightarrow> bytes" where
  "enc_data (VAdd d) = d"
| "enc_data (VRun b n) = [b]"
| "enc_data (VCopy a mode n) = []"

fun enc_addrs :: "u32 \<times> addrCache \<Rightarrow> vinst \<Rightarrow> bytes" where
  "enc_addrs (hr, cache) (VCopy a mode n) = enc_addr cache hr mode a"
| "enc_addrs st i = []"

fun enc_next :: "u32 \<times> addrCache \<Rightarrow> vinst \<Rightarrow> u32 \<times> addrCache" where
  "enc_next (hr, cache) (VCopy a mode n) = (hr + n, cache_update a cache)"
| "enc_next (hr, cache) i = (hr + word_of_nat (ilen i), cache)"

text \<open>The explicit size, where the entry of the opcode has none.\<close>

definition enc_size :: "byte \<Rightarrow> vinst \<Rightarrow> bytes" where
  "enc_size s i = (if s = 0 then vcd_int (ilen i) else [])"

text \<open>An opcode with its one or two instructions, matching its entry of the code table.\<close>

definition fits :: "byte \<Rightarrow> byte \<Rightarrow> vinst \<Rightarrow> bool" where
  "fits typ s i \<longleftrightarrow> typ = ityp i \<and> (s = 0 \<or> unat s = ilen i) \<and> ilen i < 2 ^ 32"

lemma unat_cpy: "mode < 9 \<Longrightarrow> unat (cpy mode) = 3 + mode"
proof -
  assume "mode < 9"
  then have "unat (word_of_nat mode :: byte) = mode" by (intro unat_of_nat_small) simp
  moreover from this \<open>mode < 9\<close> have "unat (3 :: byte) + unat (word_of_nat mode :: byte) < 2 ^ LENGTH(8)" by simp
  ultimately show ?thesis unfolding cpy_def opCpy_def by (subst unat_add_lem [THEN iffD1]) simp_all
qed

lemma op_less: "\<not> opCpy \<le> opAdd" "\<not> opCpy \<le> opRun"
  by (simp_all add: opCpy_def opAdd_def opRun_def word_le_nat_alt)

lemma cpy_sub: "mode < 9 \<Longrightarrow> unat (cpy mode - opCpy) = mode"
  unfolding cpy_def by (simp add: unat_of_nat_small)

lemma ityp_cpy: "mode < 9 \<Longrightarrow> opCpy \<le> cpy mode \<and> cpy mode \<noteq> opNoop \<and> cpy mode \<noteq> opRun \<and> cpy mode \<noteq> opAdd"
  using unat_cpy [of mode] by (auto simp: opCpy_def opNoop_def opRun_def opAdd_def word_le_nat_alt)

lemma ityp_noop: "inst_ok clen st i \<Longrightarrow> ityp i \<noteq> opNoop"
proof (cases i)
  case (VCopy a mode n)
  assume "inst_ok clen st i"
  then have "mode < 9" using VCopy by (cases st) (simp add: addr_mode_ok_def)
  then show ?thesis using VCopy ityp_cpy [of mode] by simp
qed (simp_all add: opAdd_def opRun_def opNoop_def)

lemma decodeAddress_enc:
  assumes "good_cache cache" "addr_mode_ok cache mode a"
  shows "decodeAddress cache hr mode (enc_addr cache hr mode a @ ra) = Inr (a, length (enc_addr cache hr mode a), cache_update a cache)"
proof -
  have m: "mode < 9" using assms(2) by (simp add: addr_mode_ok_def)
  have b: "unat (word_of_nat (unat a mod 256) :: byte) = unat a mod 256" by (rule unat_of_nat_small) simp
  consider "mode = 0" | "mode = 1" | "2 \<le> mode" "mode < 6" | "6 \<le> mode" by linarith
  then show ?thesis
  proof cases
    case 3
    then have "mode - 2 < length (near cache)" using assms(1) by (simp add: good_cache_def nearModes_def)
    with 3 show ?thesis by (simp add: decodeAddress_def enc_addr_def nearModes_def idx_def)
  next
    case 4
    have "unat a mod 256 < 256" by simp
    then have "(mode - 6) * 256 + unat a mod 256 < length (same cache)"
      using 4 m assms(1) by (simp add: good_cache_def sameModes_def)
    then show ?thesis using 4 m b assms(2)
      by (simp add: decodeAddress_def enc_addr_def nearModes_def sameModes_def idx_def addr_mode_ok_def)
  qed (simp_all add: decodeAddress_def enc_addr_def nearModes_def)
qed

definition half_of :: "byte \<Rightarrow> vinst \<Rightarrow> halfInst" where
  "half_of typ i = \<lparr>h_typ = typ, h_size = word_of_nat (ilen i), h_addr = (case i of VCopy a mode n \<Rightarrow> a | _ \<Rightarrow> 0)\<rparr>"

lemma parseSize_enc:
  assumes "fits typ s i" "p_inst p = enc_size s i @ ri"
  shows "parseSize \<lparr>h_typ = typ, h_size = ucast s, h_addr = 0\<rparr> p
    = Inr (\<lparr>h_typ = typ, h_size = word_of_nat (ilen i), h_addr = 0\<rparr>, p\<lparr>p_inst := ri\<rparr>)"
proof (cases "s = 0")
  case True
  have u: "unat (word_of_nat (ilen i) :: u32) = ilen i" using assms(1) by (intro unat_of_nat_small) (simp add: fits_def)
  have "vcd_readU32 (p_inst p) = Inr (word_of_nat (ilen i), length (vcd_int (ilen i)))"
    using vcd_readU32_int [of "word_of_nat (ilen i)" ri] assms(2) True unfolding u by (simp add: enc_size_def)
  then show ?thesis using True assms(2) by (simp add: parseSize_def enc_size_def)
next
  case False
  have u: "unat (ucast s :: u32) = unat s" by (rule unat_ucast_small) (use unat_byte_less [of s] in simp)
  have z: "(ucast s :: u32) \<noteq> 0" using False u by (metis unat_eq_zero)
  have "(ucast s :: u32) = word_of_nat (ilen i)" using assms(1) False by (metis fits_def of_nat_unat)
  then show ?thesis using False z assms(2) by (simp add: parseSize_def enc_size_def)
qed

lemma parse_enc:
  assumes "fits typ s i" "p_inst p = enc_size s i @ ri" "p_addr p = enc_addrs (here p, p_cache p) i @ ra"
    and "inst_ok clen (here p, p_cache p) i" "good_cache (p_cache p)" "unat (here p) + ilen i \<le> unat maxPos"
  shows "parse_if clen maxPos \<lparr>h_typ = typ, h_size = ucast s, h_addr = 0\<rparr> p = Inr (half_of typ i,
    \<lparr>here = fst (enc_next (here p, p_cache p) i), p_inst = ri, p_addr = ra, p_cache = snd (enc_next (here p, p_cache p) i)\<rparr>)"
proof -
  have n: "typ \<noteq> opNoop" using ityp_noop [OF assms(4)] assms(1) by (simp add: fits_def)
  have u: "unat (word_of_nat (ilen i) :: u32) = ilen i" using assms(1) by (intro unat_of_nat_small) (simp add: fits_def)
  let ?h = "\<lparr>h_typ = typ, h_size = word_of_nat (ilen i), h_addr = 0\<rparr> :: halfInst"
  have "parseAddr clen ?h (p\<lparr>p_inst := ri\<rparr>) = Inr (half_of typ i,
      p\<lparr>p_inst := ri, p_addr := ra, p_cache := snd (enc_next (here p, p_cache p) i)\<rparr>)"
  proof (cases i)
    case (VCopy a mode n)
    then have m: "mode < 9" "a < here p" "a < clen \<longrightarrow> unat a + unat n \<le> unat clen" "addr_mode_ok (p_cache p) mode a"
      using assms(4) by (simp_all add: addr_mode_ok_def)
    have "typ = cpy mode" using assms(1) VCopy by (simp add: fits_def)
    then show ?thesis
      using VCopy m assms(3) ityp_cpy [OF m(1)]
      by (auto simp: parseAddr_def half_of_def cpy_sub decodeAddress_enc [OF assms(5) m(4)] not_le)
  qed (use assms(1,3) in \<open>simp_all add: parseAddr_def half_of_def fits_def op_less\<close>)
  moreover have "fst (enc_next (here p, p_cache p) i) = here p + word_of_nat (ilen i)" by (cases i) simp_all
  ultimately show ?thesis
    using n u assms(6) by (simp add: parse_if_def parseHalf_def parseSize_enc [OF assms(1,2)] half_of_def)
qed

text \<open>The meaning over the source segment and the target, and what the decoder puts out.\<close>

lemma append_from_prefix: "\<exists>v. length v = n \<and> append_from a n u = u @ v"
proof (induction n arbitrary: a u)
  case (Suc n)
  obtain v where "length v = n" "append_from (a + 1) n (u @ [u ! a]) = (u @ [u ! a]) @ v" using Suc by blast
  then show ?case by (intro exI [of _ "(u ! a) # v"]) simp
qed simp

lemma build_prefix: "\<exists>v. length v = ilen i \<and> build i u = u @ v"
  using append_from_prefix by (cases i) auto

definition grow :: "bytes \<Rightarrow> vinst \<Rightarrow> bytes \<Rightarrow> bytes" where
  "grow seg i out = drop (length seg) (build i (seg @ out))"

lemma grow_build: "build i (seg @ out) = seg @ grow seg i out"
  using build_prefix [of i "seg @ out"] by (auto simp: grow_def)

lemma grow_length [simp]: "length (grow seg i out) = length out + ilen i"
  using build_prefix [of i "seg @ out"] by (auto simp: grow_def)

lemma append_from_seg:
  "a + n \<le> length seg \<Longrightarrow> append_from a n (seg @ out) = seg @ out @ take n (drop a seg)"
proof (induction n arbitrary: a out)
  case (Suc n)
  then have "append_from (a + 1) n (seg @ out @ [seg ! a]) = seg @ (out @ [seg ! a]) @ take n (drop (a + 1) seg)"
    using Suc.IH [of "a + 1" "out @ [seg ! a]"] by simp
  moreover have "take (Suc n) (drop a seg) = seg ! a # take n (drop (Suc a) seg)"
    using Suc.prems by (simp add: Cons_nth_drop_Suc [symmetric])
  ultimately show ?case using Suc.prems by (simp add: nth_append)
qed simp

lemma copy_within_enc:
  "n = 0 \<or> a < length out \<Longrightarrow> copy_within w a n out = Inr (drop (length seg) (append_from (length seg + a) n (seg @ out)))"
proof (induction n arbitrary: a out)
  case (Suc n)
  then have "copy_within w (a + 1) n (out @ [out ! a])
    = Inr (drop (length seg) (append_from (length seg + (a + 1)) n (seg @ out @ [out ! a])))"
    by (intro Suc.IH) auto
  then show ?case using Suc.prems by (simp add: buf_at_def)
qed simp

definition segment :: "window \<Rightarrow> bytes \<Rightarrow> bytes" where
  "segment w old = take (unat (cpyLen w)) (drop (unat (cpyOff w)) old)"

definition source_ok :: "window \<Rightarrow> bytes \<Rightarrow> bool" where
  "source_ok w old \<longleftrightarrow> (cpyLen w = 0 \<or> unat (cpyOff w) + unat (cpyLen w) \<le> length old) \<and> length old < 2 ^ 63"

lemma segment_length: "source_ok w old \<Longrightarrow> length (segment w old) = unat (cpyLen w)"
  by (auto simp: segment_def source_ok_def)

lemma copy_old_enc:
  assumes "source_ok w old" "a < cpyLen w" "unat a + n \<le> unat (cpyLen w)"
  shows "copy_old w old a n = Inr (take n (drop (unat a) (segment w old)))"
proof -
  have b: "unat (cpyOff w) + unat (cpyLen w) \<le> length old" "length old < 2 ^ 63"
    using assms(1,2) by (auto simp: source_ok_def)
  have a: "unat (ucast a :: u64) = unat a" by (rule unat_ucast_small) (use unat_u32_less [of a] in simp)
  have n: "unat (word_of_nat n :: u64) = n" by (rule unat_of_nat_small) (use assms(3) b in simp)
  have p: "unat (cpyOff w + ucast a) = unat (cpyOff w) + unat a"
    using b assms(3) a by (subst unat_add_lem [THEN iffD1]) auto
  have e: "unat (cpyOff w + ucast a + word_of_nat n) = unat (cpyOff w) + unat a + n"
    using b assms(3) n p by (subst unat_add_lem [THEN iffD1]) auto
  have "unat (drop_bit 1 (NOT 0) :: u64) = 2 ^ 63 - 1" by (simp add: mask_eq_exp_minus_1)
  then have c: "\<not> (cpyOff w + ucast a + word_of_nat n < cpyOff w + ucast a \<or> cpyOff w + ucast a > drop_bit 1 (NOT 0)
      \<or> unat (cpyOff w + ucast a + word_of_nat n) > length old)"
    using b assms(3) unfolding word_less_nat_alt p e by linarith
  have "take n (drop (unat (cpyOff w + ucast a)) old) = take n (drop (unat a) (segment w old))"
    using assms(3) unfolding p segment_def by (simp add: drop_take add.commute min_absorb1)
  then show ?thesis using c unfolding copy_old_def Let_def by simp
qed

lemma output_enc:
  assumes "source_ok w old" "fits typ s i" "inst_ok (cpyLen w) (hr, cache) i"
    and "unat hr = unat (cpyLen w) + length out" "length out + ilen i \<le> unat (tgtLen w)"
  shows "output_if w old (half_of typ i) (out, enc_data i @ rd) = Inr (grow (segment w old) i out, rd)"
proof -
  have u: "unat (word_of_nat (ilen i) :: u32) = ilen i" using assms(2) by (intro unat_of_nat_small) (simp add: fits_def)
  have t: "typ = ityp i" "typ \<noteq> opNoop" using assms(2) ityp_noop [OF assms(3)] by (simp_all add: fits_def)
  have l: "\<not> unat (tgtLen w) - length out < ilen i" using assms(5) by linarith
  show ?thesis
  proof (cases i)
    case (VCopy a mode n)
    then have m: "mode < 9" "a < hr" "a < cpyLen w \<longrightarrow> unat a + unat n \<le> unat (cpyLen w)"
      using assms(3) by (simp_all add: addr_mode_ok_def)
    note ty = ityp_cpy [OF m(1)]
    note sl = segment_length [OF assms(1)]
    have o: "output_if w old (half_of typ i) (out, rd) =
        (if a < cpyLen w then
          (if unat n = 0 then Inr (out, rd) else bindE (copy_old w old a (unat n)) (\<lambda>bs. Inr (out @ bs, rd)))
        else bindE (copy_within w (unat (a - cpyLen w)) (unat n) out) (\<lambda>out. Inr (out, rd)))"
      using VCopy ty t l by (simp add: output_if_def outputHalf_def half_of_def)
    show ?thesis
    proof (cases "a < cpyLen w")
      case True
      then have "grow (segment w old) i out = out @ take (unat n) (drop (unat a) (segment w old))"
        using VCopy m(3) by (simp add: grow_def append_from_seg sl)
      then show ?thesis using o VCopy True copy_old_enc [OF assms(1) True] m(3) by simp
    next
      case False
      then have s: "unat (a - cpyLen w) = unat a - unat (cpyLen w)" by (intro unat_sub) simp
      have "unat a - unat (cpyLen w) < length out" "unat (cpyLen w) \<le> unat a"
        using m(2) False assms(4) by (auto simp: word_less_nat_alt)
      then show ?thesis using o VCopy False
        by (simp add: s grow_def copy_within_enc [where seg = "segment w old"] sl)
    qed
  next
    case (VAdd d)
    then show ?thesis using t l u by (simp add: output_if_def outputHalf_def half_of_def opAdd_def opRun_def grow_def)
  next
    case (VRun b n)
    then show ?thesis using t l u by (simp add: output_if_def outputHalf_def half_of_def grow_def)
  qed
qed

section \<open>Windows and patches as an encoder writes them\<close>

type_synonym vop = "byte \<times> vinst \<times> vinst option"

definition insts_of :: "vop \<Rightarrow> vinst list" where
  "insts_of o' = (case o' of (op, i, j) \<Rightarrow> i # (case j of None \<Rightarrow> [] | Some j \<Rightarrow> [j]))"

definition op_fits :: "vop \<Rightarrow> bool" where
  "op_fits o' = (case o' of (op, i, j) \<Rightarrow> (let e = codeTable ! unat op in
     fits (t1 e) (s1 e) i \<and> (case j of None \<Rightarrow> t2 e = opNoop | Some j \<Rightarrow> fits (t2 e) (s2 e) j)))"

definition op_tail :: "vop \<Rightarrow> bytes" where
  "op_tail o' = (case o' of (op, i, j) \<Rightarrow> (let e = codeTable ! unat op in
     enc_size (s1 e) i @ (case j of None \<Rightarrow> [] | Some j \<Rightarrow> enc_size (s2 e) j)))"

fun addrs :: "u32 \<times> addrCache \<Rightarrow> vinst list \<Rightarrow> bytes" where
  "addrs st [] = []"
| "addrs st (i # is) = enc_addrs st i @ addrs (enc_next st i) is"

fun insts_ok :: "u32 \<Rightarrow> u32 \<times> addrCache \<Rightarrow> vinst list \<Rightarrow> bool" where
  "insts_ok clen st [] \<longleftrightarrow> True"
| "insts_ok clen st (i # is) \<longleftrightarrow> inst_ok clen st i \<and> insts_ok clen (enc_next st i) is"

definition all_insts :: "vop list \<Rightarrow> vinst list" where
  "all_insts ops = concat (map insts_of ops)"

definition inst_section :: "vop list \<Rightarrow> bytes" where
  "inst_section ops = concat (map (\<lambda>o'. fst o' # op_tail o') ops)"

lemma addrs_append: "addrs st (is @ js) = addrs st is @ addrs (foldl enc_next st is) js"
  by (induction "is" arbitrary: st) auto

lemma insts_ok_append: "insts_ok clen st (is @ js) \<longleftrightarrow> insts_ok clen st is \<and> insts_ok clen (foldl enc_next st is) js"
  by (induction "is" arbitrary: st) auto

lemma good_cache_next: "good_cache (snd st) \<Longrightarrow> good_cache (snd (enc_next st i))"
  by (cases st; cases i) simp_all

lemma here_next:
  assumes "unat (fst st) + ilen i < 2 ^ 32"
  shows "unat (fst (enc_next st i)) = unat (fst st) + ilen i"
proof -
  have n: "fst (enc_next st i) = fst st + word_of_nat (ilen i)" by (cases st; cases i) simp_all
  have "unat (word_of_nat (ilen i) :: u32) = ilen i" using assms by (intro unat_of_nat_small) simp
  then show ?thesis using assms unfolding n by (subst unat_add_lem [THEN iffD1]) simp_all
qed

definition p_at :: "u32 \<times> addrCache \<Rightarrow> bytes \<Rightarrow> bytes \<Rightarrow> parse" where
  "p_at st ri ra = \<lparr>here = fst st, p_inst = ri, p_addr = ra, p_cache = snd st\<rparr>"

lemma parse_at:
  assumes "fits typ s i" "inst_ok clen st i" "good_cache (snd st)" "unat (fst st) + ilen i \<le> unat maxPos"
  shows "parse_if clen maxPos \<lparr>h_typ = typ, h_size = ucast s, h_addr = 0\<rparr> (p_at st (enc_size s i @ ri) (enc_addrs st i @ ra))
    = Inr (half_of typ i, p_at (enc_next st i) ri ra)"
  using parse_enc [OF assms(1), where p = "p_at st (enc_size s i @ ri) (enc_addrs st i @ ra)" and ri = ri and ra = ra
      and clen = clen and maxPos = maxPos] assms(2-)
  by (simp add: p_at_def)

lemma emit_turn_enc:
  assumes src: "source_ok w old" and "op_fits (op, i, j)" "good_cache (snd st)"
    and ok: "insts_ok (cpyLen w) st (insts_of (op, i, j))"
    and pos: "unat (fst st) = unat (cpyLen w) + length out"
    and fit: "length out + sum_list (map ilen (insts_of (op, i, j))) \<le> unat (tgtLen w)" "unat (cpyLen w) + unat (tgtLen w) < 2 ^ 32"
  shows "emit_turn w old op (p_at st (op_tail (op, i, j) @ ri) (addrs st (insts_of (op, i, j)) @ ra))
      (out, concat (map enc_data (insts_of (op, i, j))) @ rd)
    = Inr (p_at (foldl enc_next st (insts_of (op, i, j))) ri ra, fold (grow (segment w old)) (insts_of (op, i, j)) out, rd)"
proof -
  define en where "en = codeTable ! unat op"
  have e: "idx codeTable (unat op) = Inr en"
    using unat_byte_less [of op] by (simp add: idx_def length_codeTable en_def)
  have m: "unat (cpyLen w + tgtLen w) = unat (cpyLen w) + unat (tgtLen w)"
    using fit(2) by (subst unat_add_lem [THEN iffD1]) simp_all
  have i: "fits (t1 en) (s1 en) i" "inst_ok (cpyLen w) st i" "length out + ilen i \<le> unat (tgtLen w)"
    using assms(2) ok fit(1) by (simp_all add: op_fits_def insts_of_def en_def Let_def)
  have "inst_ok (cpyLen w) (fst st, snd st) i" using i(2) by simp
  note o1 = output_enc [OF src i(1) this pos i(3)]
  note p1 = parse_at [OF i(1,2) assms(3), of "cpyLen w + tgtLen w"]
  have l: "unat (fst st) + ilen i \<le> unat (cpyLen w + tgtLen w)" using pos i(3) m by simp
  show ?thesis
  proof (cases j)
    case None
    then have "t2 en = opNoop" using assms(2) by (simp add: op_fits_def en_def Let_def)
    then show ?thesis
      using None p1 [OF l] o1
      by (simp add: emit_turn_def e insts_of_def op_tail_def Let_def flip: en_def)
        (simp add: parse_if_def output_if_def)
  next
    case (Some k)
    let ?st = "enc_next st i"
    have k: "fits (t2 en) (s2 en) k" "inst_ok (cpyLen w) ?st k" "length (grow (segment w old) i out) + ilen k \<le> unat (tgtLen w)"
      using assms(2) ok fit(1) Some by (simp_all add: op_fits_def insts_of_def en_def Let_def)
    have h: "unat (fst ?st) = unat (cpyLen w) + length (grow (segment w old) i out)"
      using here_next [of st i] pos i(3) fit(2) by simp
    have l2: "unat (fst ?st) + ilen k \<le> unat (cpyLen w + tgtLen w)" using h k(3) m by simp
    have "inst_ok (cpyLen w) (fst ?st, snd ?st) k" using k(2) by simp
    note o2 = output_enc [OF src k(1) this h k(3)]
    note p2 = parse_at [OF k(1,2) good_cache_next [OF assms(3)] l2]
    show ?thesis
      using Some p1 [OF l] o1 p2 o2
      by (simp add: emit_turn_def e insts_of_def op_tail_def Let_def flip: en_def)
  qed
qed

lemma fold_grow_length: "length (fold (grow seg) is out) = length out + sum_list (map ilen is)"
  by (induction "is" arbitrary: out) simp_all

lemma here_nexts:
  "unat (fst st) + sum_list (map ilen is) < 2 ^ 32 \<Longrightarrow>
   unat (fst (foldl enc_next st is)) = unat (fst st) + sum_list (map ilen is)"
  by (induction "is" arbitrary: st) (simp_all add: here_next)

lemma good_cache_nexts: "good_cache (snd st) \<Longrightarrow> good_cache (snd (foldl enc_next st is))"
  by (induction "is" arbitrary: st) (simp_all add: good_cache_next)

lemma emit_loop_enc:
  assumes "source_ok w old" "unat (cpyLen w) + unat (tgtLen w) < 2 ^ 32"
  shows "list_all op_fits ops \<Longrightarrow> good_cache (snd st) \<Longrightarrow> insts_ok (cpyLen w) st (all_insts ops) \<Longrightarrow>
    unat (fst st) = unat (cpyLen w) + length out \<Longrightarrow>
    length out + sum_list (map ilen (all_insts ops)) \<le> unat (tgtLen w) \<Longrightarrow>
    emit_loop w old (p_at st (inst_section ops) (addrs st (all_insts ops))) (out, concat (map enc_data (all_insts ops)))
      = Inr (p_at (foldl enc_next st (all_insts ops)) [] [], fold (grow (segment w old)) (all_insts ops) out, [])"
proof (induction ops arbitrary: st out)
  case Nil
  then show ?case by (subst emit_loop.simps) (simp add: all_insts_def inst_section_def p_at_def)
next
  case (Cons o' ops)
  obtain op i j where o: "o' = (op, i, j)" by (cases o')
  let ?is = "insts_of o'"
  let ?st = "foldl enc_next st ?is" and ?out = "fold (grow (segment w old)) ?is out"
  have a: "all_insts (o' # ops) = ?is @ all_insts ops" "inst_section (o' # ops) = op # op_tail o' @ inst_section ops"
    by (simp_all add: all_insts_def inst_section_def o)
  have ok: "insts_ok (cpyLen w) st ?is" "insts_ok (cpyLen w) ?st (all_insts ops)"
    using Cons.prems(3) by (simp_all add: a insts_ok_append)
  have f: "length out + sum_list (map ilen ?is) \<le> unat (tgtLen w)" using Cons.prems(5) by (simp add: a)
  have turn: "emit_turn w old op (p_at st (op_tail o' @ inst_section ops) (addrs st ?is @ addrs ?st (all_insts ops)))
      (out, concat (map enc_data ?is) @ concat (map enc_data (all_insts ops)))
    = Inr (p_at ?st (inst_section ops) (addrs ?st (all_insts ops)), ?out, concat (map enc_data (all_insts ops)))"
    using Cons.prems(1) emit_turn_enc [OF assms(1) _ Cons.prems(2) ok(1) [unfolded o] Cons.prems(4) f [unfolded o] assms(2)]
    by (simp add: o)
  have h: "unat (fst ?st) = unat (cpyLen w) + length ?out"
    using Cons.prems(4,5) assms(2) by (simp add: here_nexts fold_grow_length a)
  have "emit_loop w old (p_at ?st (inst_section ops) (addrs ?st (all_insts ops))) (?out, concat (map enc_data (all_insts ops)))
      = Inr (p_at (foldl enc_next ?st (all_insts ops)) [] [], fold (grow (segment w old)) (all_insts ops) ?out, [])"
    using Cons.prems(1,5) by (intro Cons.IH ok h good_cache_nexts Cons.prems(2)) (simp_all add: a fold_grow_length)
  then show ?case
    using turn by (subst emit_loop.simps) (simp add: a addrs_append p_at_def)
qed

text \<open>
  A window: its source segment (length and offset) if it has one, whether it is checksummed, and
  its operations.
\<close>

record vwin =
  vw_src :: "(u32 \<times> u64) option"
  vw_check :: bool
  vw_ops :: "vop list"

definition vw_len :: "vwin \<Rightarrow> u32" where
  "vw_len v = (case vw_src v of None \<Rightarrow> 0 | Some (clen, off) \<Rightarrow> clen)"

definition vw_off :: "vwin \<Rightarrow> u64" where
  "vw_off v = (case vw_src v of None \<Rightarrow> 0 | Some (clen, off) \<Rightarrow> off)"

definition vw_flags :: "vwin \<Rightarrow> byte" where
  "vw_flags v = (if vw_src v = None then 0 else 1) OR (if vw_check v then 4 else 0)"

definition vw_target :: "bytes \<Rightarrow> vwin \<Rightarrow> bytes" where
  "vw_target old v =
     fold (grow (take (unat (vw_len v)) (drop (unat (vw_off v)) old))) (all_insts (vw_ops v)) []"

definition vw_data :: "vwin \<Rightarrow> bytes" where
  "vw_data v = concat (map enc_data (all_insts (vw_ops v)))"

definition vw_addrs :: "vwin \<Rightarrow> bytes" where
  "vw_addrs v = addrs (vw_len v, emptyCache) (all_insts (vw_ops v))"

definition vw_sections :: "vwin \<Rightarrow> bytes" where
  "vw_sections v = vw_data v @ inst_section (vw_ops v) @ vw_addrs v"

definition vw_body :: "bytes \<Rightarrow> vwin \<Rightarrow> bytes" where
  "vw_body old v =
     vcd_int (length (vw_target old v)) @ 0 # vcd_int (length (vw_data v)) @ vcd_int (length (inst_section (vw_ops v)))
     @ vcd_int (length (vw_addrs v))
     @ (if vw_check v then rev (put_le 4 (adler32 (vw_target old v))) else []) @ vw_sections v"

definition vw_bytes :: "bytes \<Rightarrow> vwin \<Rightarrow> bytes" where
  "vw_bytes old v =
     vw_flags v # (case vw_src v of None \<Rightarrow> [] | Some (clen, off) \<Rightarrow> vcd_int (unat clen) @ vcd_int (unat off))
     @ vcd_int (length (vw_body old v)) @ vw_body old v"

definition vw_ok :: "bytes \<Rightarrow> vwin \<Rightarrow> bool" where
  "vw_ok old v \<longleftrightarrow>
     (case vw_src v of None \<Rightarrow> True | Some (clen, off) \<Rightarrow> old \<noteq> [] \<and> unat off + unat clen \<le> length old \<and> unat off + unat clen \<le> 2 ^ 30)
     \<and> list_all op_fits (vw_ops v) \<and> insts_ok (vw_len v) (vw_len v, emptyCache) (all_insts (vw_ops v))
     \<and> length (vw_target old v) \<le> 2 ^ 26 \<and> length (vw_body old v) \<le> 2 ^ 30"

definition vw_window :: "bytes \<Rightarrow> vwin \<Rightarrow> window" where
  "vw_window old v =
     \<lparr>winInd = vw_flags v, cpyLen = vw_len v, cpyOff = vw_off v, tgtLen = word_of_nat (length (vw_target old v)),
      w_adler = (if vw_check v then adler32 (vw_target old v) else 0),
      w_data = vw_data v, w_inst = inst_section (vw_ops v), w_addr = vw_addrs v\<rparr>"

lemma vw_flags_bits:
  "vw_flags v AND NOT 7 = 0" "vw_flags v AND 3 \<noteq> 3" "vw_flags v AND 2 = 0"
  "(vw_flags v AND 1 \<noteq> 0) = (vw_src v \<noteq> None)" "(vw_flags v AND 4 \<noteq> 0) = vw_check v"
  "(vw_flags v AND 3 \<noteq> 0) = (vw_src v \<noteq> None)"
  by (simp_all add: vw_flags_def)

lemma c_u8_Cons [simp]: "c_u8 (b # c) = Inr (b, c)"
  by (simp add: c_u8_def c_readFull_def)

lemma c_readFull_append [simp]: "length b = n \<Longrightarrow> c_readFull n (b @ c) = Inr (b, c)"
  by (simp add: c_readFull_def)

lemma c_u32_len:
  assumes "n < 2 ^ 32"
  shows "c_u32 (vcd_int n @ c) = Inr (word_of_nat n, c)"
proof -
  have "unat (word_of_nat n :: u32) = n" using assms by (intro unat_of_nat_small) simp
  then show ?thesis using c_u32_int [of "word_of_nat n" c] by simp
qed

lemma wide_len: "n < 2 ^ 32 \<Longrightarrow> (ucast (word_of_nat n :: u32) :: u64) = word_of_nat n"
proof -
  assume "n < 2 ^ 32"
  then have "unat (word_of_nat n :: u32) = n" by (intro unat_of_nat_small) simp
  then show ?thesis by (metis of_nat_unat)
qed

lemma sizeof32_len:
  assumes "n < 2 ^ 32"
  shows "sizeof32 (word_of_nat n) = word_of_nat (length (vcd_int n))" "length (vcd_int n) \<le> 5"
proof -
  have n: "unat (word_of_nat n :: u32) = n" using assms by (intro unat_of_nat_small) simp
  have "word_of_nat (unat (sizeof32 (word_of_nat n))) = (word_of_nat (length (vcd_int n)) :: u32)"
    unfolding sizeof32_int n by simp
  then show "sizeof32 (word_of_nat n) = word_of_nat (length (vcd_int n))" by simp
  have "length (vcd_hi (n div 128)) \<le> 4" unfolding length_vcd_hi using assms by simp
  then show "length (vcd_int n) \<le> 5" by (simp add: vcd_int_def)
qed

lemma wantLen_enc:
  assumes "t < 2 ^ 32" "d < 2 ^ 32" "i < 2 ^ 32" "a < 2 ^ 32"
  shows "wantLen ind (word_of_nat t) (word_of_nat d) (word_of_nat i) (word_of_nat a)
    = word_of_nat (1 + (length (vcd_int t) + length (vcd_int d) + length (vcd_int i) + length (vcd_int a)) + (d + i + a)
        + (if ind AND 4 \<noteq> 0 then 4 else 0))"
proof -
  have "length (vcd_int t) + length (vcd_int d) + length (vcd_int i) + length (vcd_int a) < 2 ^ 32"
    using sizeof32_len(2) [OF assms(1)] sizeof32_len(2) [OF assms(2)] sizeof32_len(2) [OF assms(3)] sizeof32_len(2) [OF assms(4)]
    by simp
  note w = wide_len [OF this, unfolded of_nat_add]
  show ?thesis
    unfolding wantLen_def sizeof32_len(1) [OF assms(1)] sizeof32_len(1) [OF assms(2)] sizeof32_len(1) [OF assms(3)]
      sizeof32_len(1) [OF assms(4)] w wide_len [OF assms(2)] wide_len [OF assms(3)] wide_len [OF assms(4)] of_nat_add
    by (cases "ind AND 4 \<noteq> 0") (simp_all only: of_nat_add if_True if_False not_True_eq_False of_nat_1 of_nat_numeral of_nat_0, simp_all)
qed

lemma readSource_enc:
  assumes "vw_ok old v"
  shows "readSource (vw_flags v) ((case vw_src v of None \<Rightarrow> [] | Some (clen, off) \<Rightarrow> vcd_int (unat clen) @ vcd_int (unat off)) @ c)
    = Inr ((vw_len v, vw_off v), c)"
proof (cases "vw_src v")
  case None
  then show ?thesis using vw_flags_bits(4) [of v] by (simp add: readSource_def vw_len_def vw_off_def)
next
  case (Some s)
  obtain clen off where s: "s = (clen, off)" by fastforce
  have b: "unat off + unat clen \<le> 1073741824" using assms Some s by (simp add: vw_ok_def)
  have "unat (NOT 0 - off) = unat (NOT 0 :: u64) - unat off"
    by (rule unat_sub) simp
  moreover have "unat (ucast clen :: u64) = unat clen"
    by (rule unat_ucast_small) (use unat_u32_less [of clen] in simp)
  moreover have "(NOT 0 :: u64) = 18446744073709551615" by code_simp
  then have "unat (NOT 0 :: u64) = 18446744073709551615" by (simp only:) simp
  ultimately have "\<not> NOT 0 - off < (ucast clen :: u64)" using b unfolding word_less_nat_alt by arith
  then show ?thesis
    using vw_flags_bits(4) [of v] Some s
    by (simp add: readSource_def vw_len_def vw_off_def)
qed

lemma readAdler_enc:
  "readAdler (vw_flags v) ((if vw_check v then rev (put_le 4 x) else []) @ c) = Inr (if vw_check v then x else 0, c)"
  using vw_flags_bits(5) [of v] by (simp add: readAdler_def be_word_def)

lemma vw_lengths:
  assumes "vw_ok old v"
  shows "length (vw_target old v) \<le> 2 ^ 26" "length (vw_data v) + length (inst_section (vw_ops v)) + length (vw_addrs v) \<le> 2 ^ 30"
    "unat (vw_len v) \<le> 2 ^ 30"
proof -
  show "length (vw_target old v) \<le> 2 ^ 26" using assms by (simp add: vw_ok_def)
  show "length (vw_data v) + length (inst_section (vw_ops v)) + length (vw_addrs v) \<le> 2 ^ 30"
    using assms by (simp add: vw_ok_def vw_body_def vw_sections_def)
  show "unat (vw_len v) \<le> 2 ^ 30" using assms by (auto simp: vw_ok_def vw_len_def split: option.splits prod.splits)
qed

lemma readWindow_enc:
  assumes "vw_ok old v"
  shows "readWindow (vw_bytes old v @ c) = Inr (vw_window old v, c)"
proof -
  let ?t = "length (vw_target old v)" and ?d = "length (vw_data v)" and ?i = "length (inst_section (vw_ops v))"
    and ?a = "length (vw_addrs v)" and ?b = "length (vw_body old v)"
  note l = vw_lengths [OF assms]
  have lt: "?t < 2 ^ 32" "?d < 2 ^ 32" "?i < 2 ^ 32" "?a < 2 ^ 32" using l by simp_all
  have lb: "?b < 2 ^ 32" using assms by (simp add: vw_ok_def)
  have ut: "unat (word_of_nat ?t :: u32) = ?t" by (rule unat_of_nat_small) (use lt in simp)
  have t: "\<not> push_bit 26 1 < (word_of_nat ?t :: u32)"
    using l(1) unfolding word_less_nat_alt ut by simp
  have m: "(ucast (NOT 0 :: u32) :: u64) = 4294967295" by code_simp
  have "unat (word_of_nat ?t :: u64) = ?t" by (rule unat_of_nat_small) (use lt in simp)
  then have "unat (ucast (NOT 0 :: u32) - (word_of_nat ?t :: u64)) = 4294967295 - ?t"
    unfolding m using l(1) by (subst unat_sub) (simp_all add: word_le_nat_alt)
  moreover have "unat (ucast (vw_len v) :: u64) = unat (vw_len v)"
    by (rule unat_ucast_small) (use unat_u32_less [of "vw_len v"] in simp)
  ultimately have w: "\<not> ucast (NOT 0 :: u32) - (ucast (word_of_nat ?t :: u32)) < (ucast (vw_len v) :: u64)"
    unfolding wide_len [OF lt(1)] word_less_nat_alt using l by simp
  have blen: "?b = 1 + (length (vcd_int ?t) + length (vcd_int ?d) + length (vcd_int ?i) + length (vcd_int ?a)) + (?d + ?i + ?a)
      + (if vw_flags v AND 4 \<noteq> 0 then 4 else 0)"
    unfolding vw_flags_bits(5) by (simp add: vw_body_def vw_sections_def)
  have want: "\<not> (ucast (word_of_nat ?b :: u32) \<noteq> wantLen (vw_flags v) (word_of_nat ?t) (word_of_nat ?d) (word_of_nat ?i) (word_of_nat ?a))"
    unfolding wide_len [OF lb] wantLen_enc [OF lt] blen [symmetric] by simp
  have "unat (word_of_nat (?d + ?i + ?a) :: u64) = ?d + ?i + ?a" by (rule unat_of_nat_small) (use l in simp)
  then have sum: "unat (ucast (word_of_nat ?d :: u32) + ucast (word_of_nat ?i :: u32) + ucast (word_of_nat ?a :: u32) :: u64) = ?d + ?i + ?a"
    unfolding wide_len [OF lt(2)] wide_len [OF lt(3)] wide_len [OF lt(4)] by simp
  have u: "unat (word_of_nat ?d :: u32) = ?d" "unat (word_of_nat ?i :: u32) = ?i" "unat (word_of_nat ?a :: u32) = ?a"
    by (rule unat_of_nat_small, use lt in simp)+
  show ?thesis
    unfolding readWindow_def vw_bytes_def append_Cons append_assoc c_u8_Cons bindE.simps case_prod_conv readSource_enc [OF assms]
      c_u32_len [OF lb]
    using t w want sum
    by (simp add: vw_flags_bits vw_flags_bits(1) [simplified] vw_body_def vw_sections_def c_u32_len [OF lt(1)] c_u32_len [OF lt(2)] c_u32_len [OF lt(3)]
        c_u32_len [OF lt(4)] readAdler_enc u vw_window_def del: of_nat_add)
qed

lemma vw_window_fields [simp]:
  "winInd (vw_window old v) = vw_flags v" "cpyLen (vw_window old v) = vw_len v" "cpyOff (vw_window old v) = vw_off v"
  "tgtLen (vw_window old v) = word_of_nat (length (vw_target old v))"
  "w_adler (vw_window old v) = (if vw_check v then adler32 (vw_target old v) else 0)"
  "w_data (vw_window old v) = vw_data v" "w_inst (vw_window old v) = inst_section (vw_ops v)"
  "w_addr (vw_window old v) = vw_addrs v"
  by (simp_all add: vw_window_def)

lemma decode_window_enc:
  assumes "vw_ok old v" "length old < 2 ^ 63"
  shows "decode_window (vw_window old v) old = Inr (vw_target old v)"
proof -
  let ?w = "vw_window old v"
  note l = vw_lengths [OF assms(1)]
  have t: "unat (word_of_nat (length (vw_target old v)) :: u32) = length (vw_target old v)"
    by (rule unat_of_nat_small) (use l in simp)
  have s: "source_ok ?w old" using assms
    by (auto simp: source_ok_def vw_ok_def vw_len_def vw_off_def split: option.splits)
  have seg: "fold (grow (segment ?w old)) (all_insts (vw_ops v)) [] = vw_target old v"
    by (simp add: segment_def vw_target_def)
  have small: "unat (cpyLen ?w) + unat (tgtLen ?w) < 2 ^ 32" using l by (simp add: t)
  have len: "length (vw_target old v) = sum_list (map ilen (all_insts (vw_ops v)))"
    by (simp add: vw_target_def fold_grow_length)
  have "emit_loop ?w old (p_at (vw_len v, emptyCache) (inst_section (vw_ops v)) (addrs (vw_len v, emptyCache) (all_insts (vw_ops v))))
      ([], concat (map enc_data (all_insts (vw_ops v))))
    = Inr (p_at (foldl enc_next (vw_len v, emptyCache) (all_insts (vw_ops v))) [] [],
        fold (grow (segment ?w old)) (all_insts (vw_ops v)) [], [])"
    by (rule emit_loop_enc [OF s small]) (use assms(1) in \<open>simp_all add: vw_ok_def t len [symmetric]\<close>)
  then have "emitWindow ?w old = Inr (vw_target old v)"
    unfolding seg by (simp add: emitWindow_def p_at_def vw_addrs_def vw_data_def t)
  moreover have "vw_src v \<noteq> None \<longrightarrow> old \<noteq> []" using assms(1) by (auto simp: vw_ok_def)
  ultimately show ?thesis
    using vw_flags_bits(4,5) [of v] by (auto simp: decode_window_def)
qed

lemma windows_of_enc:
  "list_all (vw_ok old) vs \<Longrightarrow> length old < 2 ^ 63 \<Longrightarrow>
   windows_of old (concat (map (vw_bytes old) vs)) (map (vw_target old) vs)"
proof (induction vs)
  case (Cons v vs)
  then have "readWindow (concat (map (vw_bytes old) (v # vs))) = Inr (vw_window old v, concat (map (vw_bytes old) vs))"
    by (simp add: readWindow_enc)
  moreover have "concat (map (vw_bytes old) (v # vs)) \<noteq> []" by (simp add: vw_bytes_def)
  ultimately show ?case using Cons by (auto intro!: windows_more decode_window_enc)
qed (simp add: windows_end)

text \<open>The scan of the envelopes finds the same sizes.\<close>

lemma ts_read_hi:
  "n \<le> 2 ^ 23 \<Longrightarrow> length (vcd_hi n) \<le> k \<Longrightarrow> ts_read k 0 (vcd_hi n @ c) = ts_read (k - length (vcd_hi n)) n c"
proof (induction n arbitrary: k c rule: vcd_hi.induct)
  case (1 n)
  show ?case
  proof (cases "n = 0")
    case False
    note d = digit_bits [of "n mod 128", simplified]
    have h: "vcd_hi n = vcd_hi (n div 128) @ [more_digit (n mod 128)]" using False by (subst vcd_hi.simps) simp
    obtain m where m: "k - length (vcd_hi (n div 128)) = Suc m" using 1(3) unfolding h by (cases "k - length (vcd_hi (n div 128))") auto
    have "ts_read k 0 (vcd_hi n @ c) = ts_read (k - length (vcd_hi (n div 128))) (n div 128) (more_digit (n mod 128) # c)"
      using 1 False unfolding h by simp
    moreover have "k - length (vcd_hi n) = m" using m unfolding h by simp
    moreover have "ts_read (Suc m) (n div 128) (more_digit (n mod 128) # c) = ts_read m n c"
      using d 1(2) by simp
    ultimately show ?thesis by (simp only: m)
  qed (simp add: vcd_hi.simps)
qed

lemma ts_read_int [simp]:
  assumes "n \<le> 2 ^ 30"
  shows "ts_read 5 0 (vcd_int n @ c) = Inr (n, c)"
proof -
  note d = digit_bits [of "n mod 128", simplified]
  have n: "n div 128 \<le> 2 ^ 23" using assms by simp
  have "length (vcd_hi (n div 128)) \<le> 4" unfolding length_vcd_hi using n by simp
  then obtain m where m: "5 - length (vcd_hi (n div 128)) = Suc m" by (cases "5 - length (vcd_hi (n div 128))") auto
  have "ts_read 5 0 (vcd_int n @ c) = ts_read (Suc m) (n div 128) (last_digit (n mod 128) # c)"
    using \<open>length (vcd_hi (n div 128)) \<le> 4\<close> by (simp add: vcd_int_def ts_read_hi [OF n] m)
  then show ?thesis using d assms by simp
qed

lemma ts_source_enc:
  assumes "vw_ok old v"
  shows "ts_source (vw_flags v) ((case vw_src v of None \<Rightarrow> [] | Some (clen, off) \<Rightarrow> vcd_int (unat clen) @ vcd_int (unat off)) @ c) = Inr c"
  using assms vw_flags_bits(6) [of v]
  by (cases "vw_src v") (auto simp: ts_source_def vw_ok_def)

lemma ts_windows_enc:
  "list_all (vw_ok old) vs \<Longrightarrow> tot + length (concat (map (vw_target old) vs)) \<le> 2 ^ 30 \<Longrightarrow>
   0 < tot + length (concat (map (vw_target old) vs)) \<Longrightarrow>
   ts_windows tot (concat (map (vw_bytes old) vs)) = Inr (tot + length (concat (map (vw_target old) vs)))"
proof (induction vs arbitrary: tot)
  case (Cons v vs)
  let ?t = "length (vw_target old v)" and ?b = "length (vw_body old v)"
  have v: "vw_ok old v" using Cons.prems by simp
  have b: "?b \<le> 2 ^ 30" "?t \<le> 2 ^ 26" using v by (simp_all add: vw_ok_def)
  obtain r where r: "vw_body old v = vcd_int ?t @ r" by (simp add: vw_body_def)
  have room: "\<not> 2 ^ 30 - tot < ?t" using Cons.prems(2) by simp
  have "ts_windows tot (concat (map (vw_bytes old) (v # vs))) = ts_windows (tot + ?t) (concat (map (vw_bytes old) vs))"
    using b room vw_flags_bits(1) [of v, simplified] vw_flags_bits(2) [of v]
    by (simp add: vw_bytes_def ts_source_enc [OF v]) (simp add: r)
  then show ?case using Cons by (simp add: add.assoc)
qed simp

lemma slice_windows:
  assumes "windows_of old c bufs" "length (concat bufs) = n" "n \<le> 2 ^ 30"
  shows "\<exists>s'. apply_windows slice_write old 0 c \<lparr>sl_buf = replicate n 0, sl_n = 0\<rparr> = Inr s'
    \<and> sl_n s' = n \<and> sl_buf s' = concat bufs"
proof -
  let ?s = "\<lparr>sl_buf = replicate n 0, sl_n = 0\<rparr>"
  have "\<exists>s'. apply_windows slice_write old (length (take (sl_n ?s) (sl_buf ?s))) c ?s = Inr s'
    \<and> (length (sl_buf s') = n \<and> sl_n s' \<le> n) \<and> take (sl_n s') (sl_buf s') = take (sl_n ?s) (sl_buf ?s) @ concat bufs"
    by (rule slice.windows_written [OF assms(1)]) (simp_all only: sliceAt.simps length_replicate assms(2) take_0 list.size add_0, use assms(3) in simp_all)
  then obtain s' where s': "apply_windows slice_write old 0 c ?s = Inr s'" "length (sl_buf s') = n" "sl_n s' \<le> n"
    "take (sl_n s') (sl_buf s') = concat bufs" by (auto simp del: length_concat)
  have "sl_n s' = n" using arg_cong [OF s'(4), of length] s'(2,3) unfolding assms(2) by simp
  then show ?thesis using s' by auto
qed

text \<open>A whole patch, with or without application data in its header.\<close>

definition enc_patch :: "bytes \<Rightarrow> bytes option \<Rightarrow> vwin list \<Rightarrow> bytes" where
  "enc_patch old app vs =
     [0xd6, 0xc3, 0xc4, 0] @ (case app of None \<Rightarrow> [0] | Some a \<Rightarrow> 4 # vcd_int (length a) @ a)
     @ concat (map (vw_bytes old) vs)"

lemma Apply_enc_patch:
  assumes "list_all (vw_ok old) vs" "length old < 2 ^ 63" "\<forall>a. app = Some a \<longrightarrow> length a \<le> 2 ^ 30"
    and "0 < length (concat (map (vw_target old) vs))" "length (concat (map (vw_target old) vs)) \<le> 2 ^ 30"
  shows "Apply old (enc_patch old app vs) = Inr (concat (map (vw_target old) vs))"
proof -
  let ?n = "length (concat (map (vw_target old) vs))"
  have hd: "readHeader (enc_patch old app vs) = Inr (concat (map (vw_bytes old) vs))"
  proof (cases app)
    case (Some a)
    have "unat (word_of_nat (length a) :: u32) = length a"
      by (rule unat_of_nat_small) (use assms(3) Some in simp)
    then show ?thesis using assms(3) Some
      by (simp add: readHeader_def enc_patch_def c_readFull_def asHeader_def c_u32_len)
  qed (simp add: readHeader_def enc_patch_def c_readFull_def asHeader_def)
  have w: "ts_windows 0 (concat (map (vw_bytes old) vs)) = Inr ?n"
    using ts_windows_enc [OF assms(1), of 0] assms(4,5) by simp
  have ts: "targetSize (enc_patch old app vs) = Inr ?n"
  proof (cases app)
    case (Some a)
    then show ?thesis using assms(3) w by (simp add: targetSize_def enc_patch_def)
  qed (use w in \<open>simp add: targetSize_def enc_patch_def\<close>)
  have "enc_patch old app vs \<noteq> []" by (simp add: enc_patch_def)
  then show ?thesis
    using slice_windows [OF windows_of_enc [OF assms(1,2)] refl assms(5)]
    by (auto simp add: Apply_def ts ApplyStream_def hd simp del: length_concat)
qed

text \<open>
  C11: a patch decodes to what it means. For every old file and every list of windows, with any
  opcodes of the code table, any address modes and any overlapping copies, the patch file an
  encoder writes for them (source segments, section lengths, Adler-32 sums and application data
  included) is applied to the concatenation of the targets the instructions describe.
\<close>

theorem xdelta_roundtrip:
  assumes "list_all (vw_ok old) vs" "length old < 2 ^ 63" "\<forall>a. app = Some a \<longrightarrow> length a \<le> 2 ^ 30"
    and "0 < length (concat (map (vw_target old) vs))" "length (concat (map (vw_target old) vs)) \<le> 2 ^ 30"
  shows "Apply old (enc_patch old app vs) = Inr (concat (map (vw_target old) vs))"
  using assms by (rule Apply_enc_patch)

text \<open>
  A window with a source copy, a run, an addition, a copy that overlaps what it writes (bytes 7 and
  8, repeated) and an opcode of two instructions.
\<close>

definition sample_window :: vwin where
  "sample_window = \<lparr>vw_src = Some (5, 0), vw_check = True, vw_ops =
     [(20, VCopy 0 0 4, None), (0, VRun 9 3, None), (3, VAdd [7, 8], None), (19, VCopy 12 0 5, None),
      (163, VAdd [1], Some (VCopy 0 0 4))]\<rparr>"

lemma sample_target: "vw_target [1, 2, 3, 4, 5] sample_window = [1, 2, 3, 4, 9, 9, 9, 7, 8, 7, 8, 7, 8, 7, 1, 1, 2, 3, 4]"
  by code_simp

lemma sample_sections:
  "vw_data sample_window = [9, 7, 8, 1]" "vw_addrs sample_window = [0, 12, 0]"
  "inst_section (vw_ops sample_window) = [20, 0, 3, 3, 19, 5, 163]"
  by code_simp+

lemma sample_entries:
  "codeTable ! 20 = entry (cpy 0) 4 opNoop 0" "codeTable ! 0 = entry opRun 0 opNoop 0"
  "codeTable ! 3 = entry opAdd 2 opNoop 0" "codeTable ! 19 = entry (cpy 0) 0 opNoop 0"
  "codeTable ! 163 = entry opAdd 1 (cpy 0) 4"
  by code_simp+

lemma sample_fits: "list_all op_fits (vw_ops sample_window)"
  by (simp add: sample_window_def op_fits_def sample_entries) (simp add: fits_def entry_def)

lemma sample_ok: "insts_ok 5 (5, emptyCache) (all_insts (vw_ops sample_window))"
  by code_simp

lemma sample_vw_ok: "vw_ok [1, 2, 3, 4, 5] sample_window"
proof -
  have w: "vw_src sample_window = Some (5, 0)" "vw_len sample_window = 5"
    by (simp_all add: sample_window_def vw_len_def)
  have l: "length (vcd_int (length (vw_target [1, 2, 3, 4, 5] sample_window))) \<le> 5"
    "length (vcd_int (length (vw_data sample_window))) \<le> 5"
    "length (vcd_int (length (inst_section (vw_ops sample_window)))) \<le> 5"
    "length (vcd_int (length (vw_addrs sample_window))) \<le> 5"
    by (rule sizeof32_len(2), simp add: sample_target sample_sections)+
  have "length (vw_body [1, 2, 3, 4, 5] sample_window) \<le> 25 + length (vw_sections sample_window)"
    using l unfolding vw_body_def by simp
  then have "length (vw_body [1, 2, 3, 4, 5] sample_window) \<le> 2 ^ 30"
    by (simp add: vw_sections_def sample_sections)
  then show ?thesis
    unfolding vw_ok_def w sample_target using sample_fits sample_ok by simp
qed

lemma xdelta_roundtrip_witness:
  "Apply [1, 2, 3, 4, 5] (enc_patch [1, 2, 3, 4, 5] (Some [65]) [sample_window])
     = Inr [1, 2, 3, 4, 9, 9, 9, 7, 8, 7, 8, 7, 8, 7, 1, 1, 2, 3, 4]"
  using xdelta_roundtrip [of "[1, 2, 3, 4, 5]" "[sample_window]" "Some [65]"] sample_vw_ok by (simp add: sample_target)

lemma sample_apply:
  "Apply [1, 2, 3, 4, 5] (enc_patch [1, 2, 3, 4, 5] None [sample_window])
     = Inr [1, 2, 3, 4, 9, 9, 9, 7, 8, 7, 8, 7, 8, 7, 1, 1, 2, 3, 4]"
  using Apply_enc_patch [of "[1, 2, 3, 4, 5]" "[sample_window]" None] sample_vw_ok by (simp add: sample_target)

lemma xdelta_stream_agrees_witness:
  "ApplyStream seq_write [1, 2, 3, 4, 5] (enc_patch [1, 2, 3, 4, 5] None [sample_window]) \<lparr>sq_out = [], sq_off = 0\<rparr>
     = Inr \<lparr>sq_out = [1, 2, 3, 4, 9, 9, 9, 7, 8, 7, 8, 7, 8, 7, 1, 1, 2, 3, 4], sq_off = 19\<rparr>"
  using xdelta_stream_agrees [OF sample_apply] by simp

text \<open>
  The two integer readers are one function: reading a 32-bit integer from a section in memory
  gives the value, the error and the number of bytes the cursor's reader gives at those bytes.
\<close>

theorem integer_readers_agree:
  "vcd_readU32 bs = (case c_u32 bs of Inl e \<Rightarrow> Inl e | Inr (v, c) \<Rightarrow> Inr (v, length bs - length c))"
  by (simp add: vcd_readU32_def readU32_loop_uint c_u32_def split: sum.split)

text \<open>
  The code table is RFC 3284's default table: 256 entries, of which each has a first
  instruction; every addition of 1 to 17 bytes, every copy of 4 to 18 bytes in each of the nine
  modes and the pairs of a short addition and a short copy have their opcodes at the places the
  RFC's table gives them.
\<close>

theorem code_table_rfc3284:
  "length codeTable = 256 \<and>
   codeTable ! 0 = entry opRun 0 opNoop 0 \<and>
   list_all (\<lambda>n. codeTable ! (1 + n) = entry opAdd n opNoop 0) [0..<18] \<and>
   list_all (\<lambda>m. codeTable ! (19 + 16 * m) = entry (cpy m) 0 opNoop 0) [0..<9] \<and>
   list_all (\<lambda>m. list_all (\<lambda>n. codeTable ! (19 + 16 * m + (n - 3)) = entry (cpy m) n opNoop 0) [4..<19]) [0..<9] \<and>
   list_all (\<lambda>m. list_all (\<lambda>a. list_all (\<lambda>n.
     codeTable ! (163 + 12 * m + 3 * (a - 1) + (n - 4)) = entry opAdd a (cpy m) n) [4..<7]) [1..<5]) [0..<6] \<and>
   list_all (\<lambda>m. list_all (\<lambda>a. codeTable ! (235 + 4 * (m - 6) + (a - 1)) = entry opAdd a (cpy m) 4) [1..<5]) [6..<9] \<and>
   list_all (\<lambda>m. codeTable ! (247 + m) = entry (cpy m) 4 opAdd 1) [0..<9]"
  by code_simp

end
