(* ===== verification/Hdiff.thy ===== *)
theory Hdiff
  imports Base128
begin

text \<open>
  HDIFF13 patches (\<open>reconstruct/x5/decode.go\<close>): tagged integers, the header, the sections, the
  covers and the run-length coded difference that is added to what the covers copy.
\<close>

section \<open>Integers\<close>

datatype x5_error = X5MemoryLimit | X5Header | X5Corrupt

fun unpack_loop :: "u64 \<Rightarrow> bytes \<Rightarrow> x5_error + u64 \<times> bytes" where
  "unpack_loop value [] = Inl X5Corrupt"
| "unpack_loop value (code # b) =
     (if drop_bit 57 value \<noteq> 0 then Inl X5Corrupt
      else (let value = push_bit 7 value OR ucast (code AND 0x7f) in
        if code AND 0x80 = 0 then Inr (value, b) else unpack_loop value b))"

definition unpackTag :: "nat \<Rightarrow> bytes \<Rightarrow> x5_error + u64 \<times> bytes" where
  "unpackTag tagBits b =
     (case b of
        [] \<Rightarrow> Inl X5Corrupt
      | code # b \<Rightarrow>
          if tagBits > 7 then Inl X5Corrupt
          else (let low = 7 - tagBits; value = ucast code AND (push_bit low 1 - 1) in
            if code AND push_bit low 1 = 0 then Inr (value, b) else unpack_loop value b))"

section \<open>Header and sections\<close>

record hdiff13 =
  newSize :: u64
  oldSize :: u64
  coverCount :: u64
  coverSize :: u64
  compCover :: u64
  rleCtrlSize :: u64
  compRleCtrl :: u64
  rleCodeSize :: u64
  compRleCode :: u64
  newDiffSize :: u64
  compNewDiff :: u64
  compressType :: bytes

text \<open>The name up to its NUL, looked for in the first \<open>k\<close> bytes.\<close>

fun read_name :: "nat \<Rightarrow> bytes \<Rightarrow> x5_error + bytes \<times> bytes" where
  "read_name 0 b = Inl X5Header"
| "read_name (Suc k) [] = Inl X5Header"
| "read_name (Suc k) (c # b) =
     (if c = 0 then Inr ([], b) else bindE (read_name k b) (\<lambda>(s, b). Inr (c # s, b)))"

definition hd_readCString :: "bytes \<Rightarrow> nat \<Rightarrow> x5_error + bytes \<times> bytes" where
  "hd_readCString b maxLen = read_name (maxLen + 1) b"

definition hd_field :: "bytes \<Rightarrow> x5_error + u64 \<times> bytes" where
  "hd_field b = (case unpackTag 0 b of Inl e \<Rightarrow> Inl X5Header | Inr r \<Rightarrow> Inr r)"

text \<open>The header, and what is behind it (the source keeps the offset \<open>headEnd\<close>).\<close>

definition readHDiff13 :: "bytes \<Rightarrow> x5_error + hdiff13 \<times> bytes" where
  "readHDiff13 diff =
     (if length diff < 8 \<or> take 8 diff \<noteq> str ''HDIFF13&'' then Inl X5Header
      else bindE (hd_readCString (drop 8 diff) 256) (\<lambda>(comp, rest).
        bindE (readN hd_field 11 rest) (\<lambda>(f, rest).
          Inr (\<lparr>newSize = f ! 0, oldSize = f ! 1, coverCount = f ! 2, coverSize = f ! 3, compCover = f ! 4,
                rleCtrlSize = f ! 5, compRleCtrl = f ! 6, rleCodeSize = f ! 7, compRleCode = f ! 8,
                newDiffSize = f ! 9, compNewDiff = f ! 10, compressType = comp\<rparr>, rest))))"

definition take_section :: "u64 \<Rightarrow> bytes \<Rightarrow> x5_error + bytes \<times> bytes" where
  "take_section n rest = (if unat n > length rest then Inl X5Corrupt else Inr (take (unat n) rest, drop (unat n) rest))"

definition sliceSections :: "hdiff13 \<Rightarrow> bytes \<Rightarrow> x5_error + bytes \<times> bytes \<times> bytes \<times> bytes" where
  "sliceSections head rest =
     bindE (take_section (coverSize head) rest) (\<lambda>(cover, rest).
     bindE (take_section (rleCtrlSize head) rest) (\<lambda>(rleCtrl, rest).
     bindE (take_section (rleCodeSize head) rest) (\<lambda>(rleCode, rest).
     bindE (take_section (newDiffSize head) rest) (\<lambda>(lit, rest).
       if rest \<noteq> [] then Inl X5Corrupt else Inr (cover, rleCtrl, rleCode, lit)))))"

section \<open>The difference\<close>

record rleDec =
  ctrl :: bytes
  code :: bytes
  setLen :: u64
  setVal :: byte
  copyLen :: u64

definition rle_done :: "rleDec \<Rightarrow> bool" where
  "rle_done d \<longleftrightarrow> setLen d = 0 \<and> copyLen d = 0 \<and> ctrl d = [] \<and> code d = []"

text \<open>The next control byte, when neither a set nor a copy run is pending.\<close>

definition next_run :: "rleDec \<Rightarrow> x5_error + rleDec" where
  "next_run d =
     (case ctrl d of
        [] \<Rightarrow> Inl X5Corrupt
      | c # _ \<Rightarrow>
          bindE (unpackTag 2 (ctrl d)) (\<lambda>(len, rest).
            if len = NOT 0 then Inl X5Corrupt
            else (let typ' = drop_bit 6 c; len = len + 1; d = d\<lparr>ctrl := rest\<rparr> in
              if typ' = 0 then Inr (d\<lparr>setLen := len, setVal := 0\<rparr>)
              else if typ' = 1 then Inr (d\<lparr>setLen := len, setVal := 255\<rparr>)
              else if typ' = 2 then
                (case code d of [] \<Rightarrow> Inl X5Corrupt | v # code' \<Rightarrow> Inr (d\<lparr>setVal := v, code := code', setLen := len\<rparr>))
              else Inr (d\<lparr>copyLen := len\<rparr>))))"

lemma unpack_loop_length: "unpack_loop v b = Inr (x, b') \<Longrightarrow> length b' < length b"
  by (induction v b rule: unpack_loop.induct) (auto simp: Let_def split: if_splits)

lemma unpackTag_length: "unpackTag t b = Inr (x, b') \<Longrightarrow> length b' < length b"
  by (auto simp: unpackTag_def Let_def split: list.splits if_splits dest!: unpack_loop_length)

lemma next_run_ctrl: "next_run d = Inr d' \<Longrightarrow> length (ctrl d') < length (ctrl d)"
  by (cases "code d") (auto simp: next_run_def Let_def res_simps split: list.split_asm if_split_asm prod.split_asm dest!: unpackTag_length)

text \<open>
  \<open>consume n dst\<close> steps the decoder over \<open>n\<close> bytes and adds them to \<open>dst\<close>, or to nothing
  over a literal (\<open>dst\<close> is nil then). The third argument holds the part of \<open>dst\<close> that is done.
\<close>

definition add_step :: "(nat \<Rightarrow> bytes \<Rightarrow> bytes) \<Rightarrow> nat \<Rightarrow> bytes option \<Rightarrow> bytes \<Rightarrow> x5_error fault + bytes option \<times> bytes" where
  "add_step f step dst acc =
     (case dst of
        None \<Rightarrow> Inr (None, acc)
      | Some bs \<Rightarrow> if step > length bs then Inl Panic else Inr (Some (drop step bs), acc @ f step (take step bs)))"

function consume :: "nat \<Rightarrow> bytes option \<Rightarrow> bytes \<Rightarrow> rleDec \<Rightarrow> x5_error fault + bytes \<times> rleDec" where
  "consume n dst acc d =
     (if n = 0 then Inr (acc @ (case dst of None \<Rightarrow> [] | Some bs \<Rightarrow> bs), d)
      else if setLen d > 0 then
        (let step = min (unat (setLen d)) n in
         bindE (add_step (\<lambda>k. map (\<lambda>x. x + setVal d)) step dst acc) (\<lambda>(dst, acc).
           consume (n - step) dst acc (d\<lparr>setLen := setLen d - word_of_nat step\<rparr>)))
      else if copyLen d > 0 then
        (let step = min (unat (copyLen d)) n in
         if step > length (code d) then Inl (Error X5Corrupt)
         else bindE (add_step (\<lambda>k bs. map2 (+) bs (take k (code d))) step dst acc) (\<lambda>(dst, acc).
           consume (n - step) dst acc (d\<lparr>code := drop step (code d), copyLen := copyLen d - word_of_nat step\<rparr>)))
      else (case next_run d of Inl e \<Rightarrow> Inl (Error e) | Inr d' \<Rightarrow> consume n dst acc d'))"
  by pat_completeness auto
termination
proof (relation "measures [\<lambda>(n, dst, acc, d). n, \<lambda>(n, dst, acc, d). length (ctrl d)]", goal_cases)
  case 1 show ?case by simp
next
  case (2 n dst acc d)
  then have "0 < unat (setLen d)" by (simp add: unat_gt_0 word_neq_0_conv)
  with 2 show ?case by simp
next
  case (3 n dst acc d)
  then have "0 < unat (copyLen d)" by (simp add: unat_gt_0 word_neq_0_conv)
  with 3 show ?case by simp
next
  case (4 n dst acc d)
  then show ?case by (auto dest: next_run_ctrl)
qed

declare consume.simps [simp del]

section \<open>Covers\<close>

definition addOverflow :: "u64 \<Rightarrow> u64 \<Rightarrow> bool" where
  "addOverflow a b \<longleftrightarrow> a > NOT 0 - b"

text \<open>
  The state of the loop: the bytes written (the rest of the target buffer is still zero), what
  is left of the literals and of the covers, the decoder, and where the last cover ended.
\<close>

record covers =
  c_out :: bytes
  c_lit :: bytes
  c_rle :: rleDec
  c_cover :: bytes
  oldBack :: u64
  newBack :: u64

definition corrupt :: "x5_error fault + 'a \<Rightarrow> x5_error fault + 'a" where
  "corrupt m = (case m of Inl (Error e) \<Rightarrow> Inl (Error X5Corrupt) | _ \<Rightarrow> m)"

definition sub_slice :: "'a list \<Rightarrow> nat \<Rightarrow> nat \<Rightarrow> x5_error fault + 'a list" where
  "sub_slice xs i j = (if i \<le> j \<and> j \<le> length xs then Inr (take (j - i) (drop i xs)) else Inl Panic)"

text \<open>The literals up to position \<open>newPos\<close>, over which the decoder steps.\<close>

definition fill_gap :: "nat \<Rightarrow> nat \<Rightarrow> covers \<Rightarrow> x5_error fault + covers" where
  "fill_gap newLen newPos s =
     (let gap = newPos - length (c_out s) in
      if gap > length (c_lit s) then Inl (Error X5Corrupt)
      else if newPos > newLen then Inl Panic
      else bindE (corrupt (consume gap None [] (c_rle s))) (\<lambda>(_, rle).
        Inr (s\<lparr>c_out := c_out s @ take gap (c_lit s), c_lit := drop gap (c_lit s), c_rle := rle\<rparr>)))"

definition read_cover :: "bytes \<Rightarrow> x5_error + (byte \<times> u64 \<times> u64 \<times> u64) \<times> bytes" where
  "read_cover cover =
     (case cover of
        [] \<Rightarrow> Inl X5Corrupt
      | c # _ \<Rightarrow>
          bindE (unpackTag 1 cover) (\<lambda>(incOld, rest).
          bindE (unpackTag 0 rest) (\<lambda>(gapLen, rest).
          bindE (unpackTag 0 rest) (\<lambda>(coverLen, rest).
            Inr ((drop_bit 7 c, incOld, gapLen, coverLen), rest)))))"

definition old_pos :: "byte \<Rightarrow> u64 \<Rightarrow> u64 \<Rightarrow> x5_error + u64" where
  "old_pos sign bk inc =
     (if sign = 0 then (if addOverflow bk inc then Inl X5Corrupt else Inr (bk + inc))
      else if inc > bk then Inl X5Corrupt
      else Inr (bk - inc))"

definition copy_cover :: "bytes \<Rightarrow> nat \<Rightarrow> u64 \<Rightarrow> u64 \<Rightarrow> covers \<Rightarrow> x5_error fault + covers" where
  "copy_cover old newLen oldPos coverLen s =
     (let n = unat coverLen in
      if length (c_out s) + n > newLen then Inl Panic
      else bindE (sub_slice old (unat oldPos) (unat oldPos + n)) (\<lambda>dst.
           bindE (corrupt (consume n (Some dst) [] (c_rle s))) (\<lambda>(dst, rle).
             Inr (s\<lparr>c_out := c_out s @ dst, c_rle := rle\<rparr>))))"

definition cover_turn :: "bytes \<Rightarrow> u64 \<Rightarrow> covers \<Rightarrow> x5_error fault + covers" where
  "cover_turn old newLen s =
     (case read_cover (c_cover s) of
        Inl e \<Rightarrow> Inl (Error e)
      | Inr ((sign, incOld, gapLen, coverLen), rest) \<Rightarrow>
          (case old_pos sign (oldBack s) incOld of
             Inl e \<Rightarrow> Inl (Error e)
           | Inr oldPos \<Rightarrow>
               if addOverflow (newBack s) gapLen then Inl (Error X5Corrupt)
               else (let newPos = newBack s + gapLen; wrote = word_of_nat (length (c_out s)) in
                 if newPos > newLen \<or> coverLen > newLen - newPos \<or> newPos < wrote then Inl (Error X5Corrupt)
                 else if unat oldPos > length old \<or> unat coverLen > length old - unat oldPos then Inl (Error X5Corrupt)
                 else bindE (if newPos > wrote then fill_gap (unat newLen) (unat newPos) s else Inr s) (\<lambda>s.
                      bindE (copy_cover old (unat newLen) oldPos coverLen s) (\<lambda>s.
                        if addOverflow oldPos coverLen \<or> addOverflow newPos coverLen then Inl (Error X5Corrupt)
                        else Inr (s\<lparr>c_cover := rest, oldBack := oldPos + coverLen, newBack := newPos + coverLen\<rparr>))))))"

fun cover_loop :: "bytes \<Rightarrow> u64 \<Rightarrow> nat \<Rightarrow> covers \<Rightarrow> x5_error fault + covers" where
  "cover_loop old newLen 0 s = Inr s"
| "cover_loop old newLen (Suc k) s = bindE (cover_turn old newLen s) (cover_loop old newLen k)"

definition finish_covers :: "u64 \<Rightarrow> covers \<Rightarrow> x5_error fault + bytes" where
  "finish_covers newLen s =
     (if c_cover s \<noteq> [] then Inl (Error X5Corrupt)
      else bindE (if length (c_out s) < unat newLen then fill_gap (unat newLen) (unat newLen) s else Inr s) (\<lambda>s.
        if c_lit s \<noteq> [] \<or> \<not> rle_done (c_rle s) \<or> length (c_out s) \<noteq> unat newLen then Inl (Error X5Corrupt)
        else Inr (c_out s)))"

definition applyCovers :: "bytes \<Rightarrow> hdiff13 \<Rightarrow> bytes \<Rightarrow> bytes \<Rightarrow> bytes \<Rightarrow> bytes \<Rightarrow> x5_error fault + bytes" where
  "applyCovers old head cover rleCtrl rleCode lit =
     bindE (cover_loop old (newSize head) (unat (coverCount head))
       \<lparr>c_out = [], c_lit = lit, c_rle = \<lparr>ctrl = rleCtrl, code = rleCode, setLen = 0, setVal = 0, copyLen = 0\<rparr>,
        c_cover = cover, oldBack = 0, newBack = 0\<rparr>) (finish_covers (newSize head))"

text \<open>Apply; a cancelled context ends the source's loops early and is not modelled.\<close>

definition hdiff_apply :: "bytes \<Rightarrow> bytes \<Rightarrow> x5_error fault + bytes" where
  "hdiff_apply old diff =
     (if length old > 2 ^ 30 \<or> length diff > 2 ^ 30 then Inl (Error X5MemoryLimit)
      else case readHDiff13 diff of
        Inl e \<Rightarrow> Inl (Error e)
      | Inr (head, rest) \<Rightarrow>
          if unat (oldSize head) \<noteq> length old \<or> compressType head \<noteq> [] then Inl (Error X5Header)
          else if newSize head = 0 \<or> unat (newSize head) > 2 ^ 30
              \<or> length old + length diff + unat (newSize head) > 2 * 2 ^ 30 - 64 * 2 ^ 20 then Inl (Error X5Header)
          else if compCover head \<noteq> 0 \<or> compRleCtrl head \<noteq> 0 \<or> compRleCode head \<noteq> 0 \<or> compNewDiff head \<noteq> 0
          then Inl (Error X5Corrupt)
          else (case sliceSections head rest of
              Inl e \<Rightarrow> Inl (Error e)
            | Inr (cover, rleCtrl, rleCode, lit) \<Rightarrow> applyCovers old head cover rleCtrl rleCode lit))"

section \<open>Nothing panics, and sizes are kept\<close>

lemma add_step_returns:
  assumes "\<And>bs. length bs = step \<Longrightarrow> length (f step bs) = step"
    and "case dst of None \<Rightarrow> True | Some bs \<Rightarrow> step \<le> length bs"
  shows "returns (\<lambda>(dst', acc'). case dst of None \<Rightarrow> dst' = None \<and> acc' = acc
      | Some bs \<Rightarrow> dst' = Some (drop step bs) \<and> length acc' = length acc + step) (add_step f step dst acc)"
  using assms by (auto simp: add_step_def split: option.split)

lemma consume_0: "consume 0 dst acc d = Inr (acc @ (case dst of None \<Rightarrow> [] | Some bs \<Rightarrow> bs), d)"
  by (subst consume.simps) simp

lemma consume_set:
  "n \<noteq> 0 \<Longrightarrow> setLen d > 0 \<Longrightarrow> step = min (unat (setLen d)) n \<Longrightarrow>
   consume n dst acc d = bindE (add_step (\<lambda>k. map (\<lambda>x. x + setVal d)) step dst acc) (\<lambda>(dst, acc).
     consume (n - step) dst acc (d\<lparr>setLen := setLen d - word_of_nat step\<rparr>))"
  by (subst consume.simps) (simp add: Let_def)

lemma consume_copy:
  "n \<noteq> 0 \<Longrightarrow> \<not> setLen d > 0 \<Longrightarrow> copyLen d > 0 \<Longrightarrow> step = min (unat (copyLen d)) n \<Longrightarrow>
   consume n dst acc d = (if step > length (code d) then Inl (Error X5Corrupt)
     else bindE (add_step (\<lambda>k bs. map2 (+) bs (take k (code d))) step dst acc) (\<lambda>(dst, acc).
       consume (n - step) dst acc (d\<lparr>code := drop step (code d), copyLen := copyLen d - word_of_nat step\<rparr>)))"
  by (subst consume.simps) (simp add: Let_def)

lemma consume_next:
  "n \<noteq> 0 \<Longrightarrow> \<not> setLen d > 0 \<Longrightarrow> \<not> copyLen d > 0 \<Longrightarrow>
   consume n dst acc d = (case next_run d of Inl e \<Rightarrow> Inl (Error e) | Inr d' \<Rightarrow> consume n dst acc d')"
  by (subst consume.simps) simp

lemma consume_returns:
  "(case dst of None \<Rightarrow> True | Some bs \<Rightarrow> length bs = n) \<Longrightarrow>
   returns (\<lambda>(bs', d'). length bs' = length acc + (case dst of None \<Rightarrow> 0 | Some bs \<Rightarrow> length bs)) (consume n dst acc d)"
proof (induction n dst acc d rule: consume.induct)
  case (1 n dst acc d)
  consider "n = 0" | "n \<noteq> 0" "setLen d > 0" | "n \<noteq> 0" "\<not> setLen d > 0" "copyLen d > 0"
    | "n \<noteq> 0" "\<not> setLen d > 0" "\<not> copyLen d > 0" by blast
  then show ?case
  proof cases
    case 1
    then show ?thesis by (auto simp: consume_0 split: option.split)
  next
    case 2
    let ?step = "min (unat (setLen d)) n"
    have ok: "case dst of None \<Rightarrow> True | Some bs \<Rightarrow> ?step \<le> length bs" using "1.prems" by (auto split: option.splits)
    show ?thesis
      unfolding consume_set [OF 2 refl]
    proof (rule returns_bind [OF add_step_returns [OF _ ok]])
      fix x assume "add_step (\<lambda>k. map (\<lambda>x. x + setVal d)) ?step dst acc = Inr x" and "case x of (dst', acc') \<Rightarrow> case dst of None \<Rightarrow> dst' = None \<and> acc' = acc
          | Some bs \<Rightarrow> dst' = Some (drop ?step bs) \<and> length acc' = length acc + ?step"
      then show "returns (\<lambda>(bs', d'). length bs' = length acc + (case dst of None \<Rightarrow> 0 | Some bs \<Rightarrow> length bs))
        (case x of (dst, acc) \<Rightarrow> consume (n - ?step) dst acc (d\<lparr>setLen := setLen d - word_of_nat ?step\<rparr>))"
        using "1.prems" ok "1.IH"(1) [OF 2 refl, of x "fst x" "snd x"]
        by (auto split: option.splits elim!: returns_mono)
    qed simp
  next
    case 3
    let ?step = "min (unat (copyLen d)) n"
    have ok: "case dst of None \<Rightarrow> True | Some bs \<Rightarrow> ?step \<le> length bs" using "1.prems" by (auto split: option.splits)
    show ?thesis
      unfolding consume_copy [OF 3 refl]
    proof (rule returns_if, simp, rule returns_bind [OF add_step_returns [OF _ ok]])
      fix x assume l: "\<not> length (code d) < ?step"
        and "add_step (\<lambda>k bs. map2 (+) bs (take k (code d))) ?step dst acc = Inr x" and "case x of (dst', acc') \<Rightarrow> case dst of None \<Rightarrow> dst' = None \<and> acc' = acc
          | Some bs \<Rightarrow> dst' = Some (drop ?step bs) \<and> length acc' = length acc + ?step"
      then show "returns (\<lambda>(bs', d'). length bs' = length acc + (case dst of None \<Rightarrow> 0 | Some bs \<Rightarrow> length bs))
        (case x of (dst, acc) \<Rightarrow> consume (n - ?step) dst acc
          (d\<lparr>code := drop ?step (code d), copyLen := copyLen d - word_of_nat ?step\<rparr>))"
        using "1.prems" ok "1.IH"(2) [OF 3 refl l, of x "fst x" "snd x"]
        by (auto split: option.splits elim!: returns_mono)
    qed auto
  next
    case 4
    then show ?thesis using "1.IH"(3) [OF 4] "1.prems" by (cases "next_run d") (simp_all add: consume_next)
  qed
qed

lemma corrupt_returns [simp]: "returns Q (corrupt m) \<longleftrightarrow> returns Q m"
  by (auto simp: corrupt_def returns_def split: sum.split fault.split)

lemma fill_gap_returns:
  assumes "length (c_out s) \<le> newPos" "newPos \<le> newLen"
  shows "returns (\<lambda>s'. length (c_out s') = newPos) (fill_gap newLen newPos s)"
  unfolding fill_gap_def Let_def using assms
  by (auto intro!: returns_intros returns_bind [OF corrupt_returns [THEN iffD2, OF consume_returns]])

lemma copy_cover_returns:
  assumes "length (c_out s) + unat coverLen \<le> newLen" "unat oldPos + unat coverLen \<le> length old"
  shows "returns (\<lambda>s'. length (c_out s') = length (c_out s) + unat coverLen) (copy_cover old newLen oldPos coverLen s)"
  unfolding copy_cover_def Let_def sub_slice_def using assms
  by (auto intro!: returns_bind [OF corrupt_returns [THEN iffD2, OF consume_returns]])

lemma cover_turn_returns:
  assumes "length (c_out s) \<le> unat newLen"
  shows "returns (\<lambda>s'. length (c_out s') \<le> unat newLen) (cover_turn old newLen s)"
proof (cases "read_cover (c_cover s)")
  case (Inr r)
  obtain sign incOld gapLen coverLen rest where r: "r = ((sign, incOld, gapLen, coverLen), rest)" by (metis prod_cases4 surj_pair)
  let ?newPos = "newBack s + gapLen" and ?wrote = "word_of_nat (length (c_out s)) :: u64"
  have w: "unat ?wrote = length (c_out s)"
    by (rule unat_of_nat_small) (use assms unat_u64_less [of newLen] in simp)
  show ?thesis
  proof (cases "old_pos sign (oldBack s) incOld")
    case o: (Inr oldPos)
    show ?thesis
      unfolding cover_turn_def Inr r sum.case prod.case o Let_def
    proof (rule returns_if, simp, rule returns_if, simp, rule returns_if, simp)
      assume a: "\<not> (newLen < ?newPos \<or> newLen - ?newPos < coverLen \<or> ?newPos < ?wrote)"
        and b: "\<not> (length old < unat oldPos \<or> length old - unat oldPos < unat coverLen)"
      have l: "length (c_out s) \<le> unat ?newPos" using a unfolding word_less_nat_alt w by simp
      have n: "unat ?newPos + unat coverLen \<le> unat newLen"
      proof -
        have "unat (newLen - ?newPos) = unat newLen - unat ?newPos" using a by (intro unat_sub) (simp only: not_less de_Morgan_disj)
        then show ?thesis using a unfolding word_less_nat_alt by arith
      qed
      have f: "returns (\<lambda>s'. length (c_out s') = unat ?newPos)
        (if ?wrote < ?newPos then fill_gap (unat newLen) (unat ?newPos) s else Inr s)"
        using l n by (auto intro!: returns_if fill_gap_returns simp: word_less_nat_alt w)
      show "returns (\<lambda>s'. length (c_out s') \<le> unat newLen)
        (bindE (if ?wrote < ?newPos then fill_gap (unat newLen) (unat ?newPos) s else Inr s) (\<lambda>s.
          bindE (copy_cover old (unat newLen) oldPos coverLen s) (\<lambda>s.
            if addOverflow oldPos coverLen \<or> addOverflow ?newPos coverLen then Inl (Error X5Corrupt)
            else Inr (s\<lparr>c_cover := rest, oldBack := oldPos + coverLen, newBack := ?newPos + coverLen\<rparr>))))"
        by (rule returns_bind [OF f], rule returns_bind [OF copy_cover_returns], use b n in \<open>auto intro!: returns_if\<close>)
    qed
  qed (simp add: cover_turn_def Inr r)
qed (simp add: cover_turn_def)

lemma cover_loop_returns:
  "length (c_out s) \<le> unat newLen \<Longrightarrow> returns (\<lambda>s'. length (c_out s') \<le> unat newLen) (cover_loop old newLen k s)"
  by (induction k arbitrary: s) (auto intro!: returns_bind [OF cover_turn_returns])

lemma finish_covers_returns:
  "length (c_out s) \<le> unat newLen \<Longrightarrow> returns (\<lambda>out. length out = unat newLen) (finish_covers newLen s)"
  unfolding finish_covers_def
  by (auto intro!: returns_if returns_bind [OF fill_gap_returns])

lemma applyCovers_returns:
  "returns (\<lambda>out. length out = unat (newSize head)) (applyCovers old head cover rc rd lit)"
  unfolding applyCovers_def by (rule returns_bind [OF cover_loop_returns]) (auto intro: finish_covers_returns)

text \<open>
  Applying an HDIFF13 patch never panics: every slice of the old file, the literals and the
  target the covers ask for is inside its bounds, the decoder never runs past what it is given to
  add to, and a result has the size the header announces.
\<close>

theorem hdiff_apply_safe:
  "case hdiff_apply old diff of
     Inl e \<Rightarrow> e \<noteq> Panic
   | Inr out \<Rightarrow> \<exists>head rest. readHDiff13 diff = Inr (head, rest) \<and> unat (oldSize head) = length old \<and>
       length out = unat (newSize head) \<and> 0 < length out \<and> length out \<le> 2 ^ 30"
proof -
  have z: "0 < unat v" if "v \<noteq> 0" for v :: u64 using that by (simp add: unat_gt_0)
  have "returns (\<lambda>out. \<exists>head rest. readHDiff13 diff = Inr (head, rest) \<and> unat (oldSize head) = length old \<and>
       length out = unat (newSize head) \<and> 0 < length out \<and> length out \<le> 2 ^ 30) (hdiff_apply old diff)"
    unfolding hdiff_apply_def
    by (auto intro!: returns_if returns_mono [OF applyCovers_returns] split: sum.split prod.split dest: z)
  then show ?thesis unfolding returns_def .
qed

section \<open>Writing integers\<close>

lemma div128_less: "\<not> v < 2 ^ n \<Longrightarrow> v div 128 < (v :: nat)"
  by (cases "v = 0") simp_all

text \<open>The first byte holds the tag, the mark of a continuation and the first digit of \<open>low\<close> bits.\<close>

function tag_hi :: "nat \<Rightarrow> nat \<Rightarrow> nat \<Rightarrow> bytes" where
  "tag_hi low h0 v =
     (if v < 2 ^ low then [word_of_nat (h0 + 2 ^ low + v)] else tag_hi low h0 (v div 128) @ [more_digit (v mod 128)])"
  by pat_completeness auto
termination
proof (relation "measure (\<lambda>(low, h0, v). v)", goal_cases)
  case (2 low h0 v)
  then show ?case by (simp add: div128_less)
qed simp

declare tag_hi.simps [simp del]

definition packTag :: "nat \<Rightarrow> nat \<Rightarrow> nat \<Rightarrow> bytes" where
  "packTag tagBits tg v =
     (if v < 2 ^ (7 - tagBits) then [word_of_nat (tg * 2 ^ (8 - tagBits) + v)]
      else tag_hi (7 - tagBits) (tg * 2 ^ (8 - tagBits)) (v div 128) @ [last_digit (v mod 128)])"

lemma unat_drop_mod:
  fixes code :: byte
  shows "bit code n \<longleftrightarrow> odd (unat code div 2 ^ n)"
proof -
  have "bit (unat code) n = bit code n" by (auto simp: bit_unsigned_iff dest: bit_imp_le_length)
  then show ?thesis by (simp add: bit_iff_odd)
qed

lemma first_byte:
  fixes code :: byte
  assumes "t \<le> 2" "tg < 2 ^ t" "v < 2 ^ (7 - t)" "c \<le> 1"
    and "code = (word_of_nat (tg * 2 ^ (8 - t) + c * 2 ^ (7 - t) + v) :: byte)"
  shows "(code AND push_bit (7 - t) 1 = 0) = (c = 0)"
    and "ucast code AND (push_bit (7 - t) 1 - 1) = (word_of_nat v :: u64)"
    and "0 < t \<Longrightarrow> drop_bit (8 - t) code = word_of_nat tg"
proof -
  have t: "t = 0 \<or> t = 1 \<or> t = 2" using assms(1) by linarith
  have c: "c = 0 \<or> c = 1" using assms(4) by linarith
  have small: "tg * 2 ^ (8 - t) + c * 2 ^ (7 - t) + v < 256" using t c assms(2,3) by (elim disjE) auto
  then have u: "unat code = tg * 2 ^ (8 - t) + c * 2 ^ (7 - t) + v"
    unfolding assms(5) by (intro unat_of_nat_small) simp
  have "unat code div 2 ^ (7 - t) = 2 * tg + c" unfolding u using t assms(3) by (elim disjE) simp_all
  then have "bit code (7 - t) \<longleftrightarrow> c = 1" unfolding unat_drop_mod using c by auto
  then show "(code AND push_bit (7 - t) 1 = 0) = (c = 0)"
    using c by (auto simp: bit_iff_and_push_bit_not_eq_0)
  have m: "push_bit (7 - t) 1 - 1 = (mask (7 - t) :: u64)" by (simp add: mask_eq_exp_minus_1 push_bit_eq_mult)
  have uc: "unat (ucast code :: u64) = unat code" by (rule unat_ucast_small) (use unat_byte_less [of code] in simp)
  have "tg * 2 ^ (8 - t) + c * 2 ^ (7 - t) + v = v + 2 ^ (7 - t) * (2 * tg + c)"
    using t by (elim disjE) (simp_all add: algebra_simps)
  then have "unat code mod 2 ^ (7 - t) = v" unfolding u using assms(3) by simp
  then have "unat (ucast code AND (push_bit (7 - t) 1 - 1) :: u64) = v" unfolding m unat_and_mask uc .
  then show "ucast code AND (push_bit (7 - t) 1 - 1) = (word_of_nat v :: u64)"
    by (metis of_nat_unat ucast_id)
  assume "0 < t"
  have "unat code div 2 ^ (8 - t) = tg" unfolding u using t c assms(3) by (elim disjE) simp_all
  then have "unat (drop_bit (8 - t) code) = tg" unfolding unat_drop .
  then show "drop_bit (8 - t) code = word_of_nat tg" by (metis of_nat_unat ucast_id)
qed

lemma digit_mark:
  assumes "k < 128"
  shows "more_digit k AND 128 \<noteq> 0" "last_digit k AND 128 = 0"
proof -
  have p: "(128 :: byte) = push_bit 7 1" by (simp add: push_bit_eq_mult)
  have u: "unat (more_digit k) = 128 + k" "unat (last_digit k) = k"
    unfolding more_digit_def last_digit_def using assms by (intro unat_of_nat_small; simp)+
  have "(128 + k) div 128 = Suc 0" using assms by (simp add: div_add_self1)
  then have "bit (more_digit k) 7" "\<not> bit (last_digit k) 7" unfolding unat_drop_mod u using assms by simp_all
  then show "more_digit k AND 128 \<noteq> 0" "last_digit k AND 128 = 0"
    unfolding p by (simp_all only: bit_iff_and_push_bit_not_eq_0 simp_thms)
qed

lemma unpack_loop_more:
  assumes "m < 2 ^ 57" "k < 128"
  shows "unpack_loop (word_of_nat m) (more_digit k # c) = unpack_loop (word_of_nat (128 * m + k)) c"
    and "unpack_loop (word_of_nat m) (last_digit k # c) = Inr (word_of_nat (128 * m + k), c)"
  using assms word_of_nat_drop_zero [OF assms(1), where 'w = 64] digit_mark [OF assms(2)]
    push_digit [OF digit_bits(1) [OF assms(2)] assms(2), where 'w = 64]
    push_digit [OF digit_bits(3) [OF assms(2)] assms(2), where 'w = 64]
  by simp_all

lemma unpackTag_hi:
  assumes "t \<le> 2" "tg < 2 ^ t"
  shows "v < 2 ^ 57 \<Longrightarrow> unpackTag t (tag_hi (7 - t) (tg * 2 ^ (8 - t)) v @ c) = unpack_loop (word_of_nat v) c"
proof (induction v arbitrary: c rule: less_induct)
  case (less v)
  show ?case
  proof (cases "v < 2 ^ (7 - t)")
    case True
    then show ?thesis
      using first_byte [OF assms True, of 1, OF _ refl] assms(1)
      by (subst tag_hi.simps) (simp add: unpackTag_def Let_def del: of_nat_add of_nat_mult)
  next
    case False
    have v: "v div 128 < v" by (rule div128_less [OF False])
    have n: "128 * (v div 128) + v mod 128 = v" by simp
    have "unpackTag t (tag_hi (7 - t) (tg * 2 ^ (8 - t)) v @ c)
        = unpack_loop (word_of_nat (v div 128)) (more_digit (v mod 128) # c)"
      using less.IH [OF v, of "more_digit (v mod 128) # c"] less.prems False by (subst tag_hi.simps) simp
    then show ?thesis using unpack_loop_more(1) [of "v div 128" "v mod 128" c] less.prems by (simp add: n del: of_nat_add of_nat_mult)
  qed
qed

lemma unpackTag_pack:
  assumes "t \<le> 2" "tg < 2 ^ t" "v < 2 ^ 64"
  shows "unpackTag t (packTag t tg v @ c) = Inr (word_of_nat v, c)"
proof (cases "v < 2 ^ (7 - t)")
  case True
  then show ?thesis
    using first_byte [OF assms(1,2) True, of 0, OF _ refl] assms(1)
    by (simp add: packTag_def unpackTag_def Let_def del: of_nat_add of_nat_mult)
next
  case False
  have n: "128 * (v div 128) + v mod 128 = v" by simp
  have v: "v div 128 < 2 ^ 57" using assms(3) by simp
  show ?thesis
    using False unpackTag_hi [OF assms(1,2) v] unpack_loop_more(2) [OF v, of "v mod 128"]
    by (simp add: packTag_def n del: of_nat_add of_nat_mult)
qed

lemma packTag_first:
  assumes "1 \<le> t" "t \<le> 2" "tg < 2 ^ t"
  shows "\<exists>b bs. packTag t tg v = b # bs \<and> drop_bit (8 - t) b = word_of_nat tg"
proof (cases "v < 2 ^ (7 - t)")
  case True
  then show ?thesis
    using first_byte(3) [OF assms(2,3) True, of 0, OF _ refl] assms(1)
    by (simp add: packTag_def del: of_nat_add of_nat_mult)
next
  case False
  have "\<exists>b bs. tag_hi (7 - t) (tg * 2 ^ (8 - t)) w = b # bs \<and> drop_bit (8 - t) b = word_of_nat tg" for w
  proof (induction w rule: less_induct)
    case (less w)
    show ?case
    proof (cases "w < 2 ^ (7 - t)")
      case True
      then show ?thesis
        using first_byte(3) [OF assms(2,3) True, of 1, OF _ refl] assms(1)
        by (subst tag_hi.simps) (simp del: of_nat_add of_nat_mult)
    next
      case f: False
      from less.IH [OF div128_less [OF f]] f show ?thesis by (subst tag_hi.simps) auto
    qed
  qed
  from this [of "v div 128"] show ?thesis using False by (auto simp: packTag_def)
qed

section \<open>Runs and what the decoder makes of them\<close>

text \<open>The difference as runs: zeros, 255s, one byte repeated, bytes as they are; none is empty.\<close>

datatype run = Zeros nat | Ones nat | Same byte nat | Raw bytes

fun run_bytes :: "run \<Rightarrow> bytes" where
  "run_bytes (Zeros n) = replicate n 0"
| "run_bytes (Ones n) = replicate n 255"
| "run_bytes (Same b n) = replicate n b"
| "run_bytes (Raw bs) = bs"

fun run_ctrl :: "run \<Rightarrow> bytes" where
  "run_ctrl (Zeros n) = packTag 2 0 (n - 1)"
| "run_ctrl (Ones n) = packTag 2 1 (n - 1)"
| "run_ctrl (Same b n) = packTag 2 2 (n - 1)"
| "run_ctrl (Raw bs) = packTag 2 3 (length bs - 1)"

fun run_code :: "run \<Rightarrow> bytes" where
  "run_code (Zeros n) = []"
| "run_code (Ones n) = []"
| "run_code (Same b n) = [b]"
| "run_code (Raw bs) = bs"

definition run_ok :: "run \<Rightarrow> bool" where
  "run_ok r \<longleftrightarrow> run_bytes r \<noteq> [] \<and> length (run_bytes r) < 2 ^ 64"

definition expand :: "run list \<Rightarrow> bytes" where
  "expand rs = concat (map run_bytes rs)"

text \<open>
  A decoder that has \<open>pre\<close> pending and the runs \<open>rs\<close> before it.
\<close>

definition dec_at :: "bytes \<Rightarrow> run list \<Rightarrow> rleDec \<Rightarrow> bool" where
  "dec_at pre rs d \<longleftrightarrow> list_all run_ok rs \<and> ctrl d = concat (map run_ctrl rs) \<and>
     (copyLen d = 0 \<and> pre = replicate (unat (setLen d)) (setVal d) \<and> code d = concat (map run_code rs)
      \<or> setLen d = 0 \<and> unat (copyLen d) = length pre \<and> code d = pre @ concat (map run_code rs))"

lemma next_run_dec:
  assumes "dec_at [] (r # rs) d" "setLen d = 0" "copyLen d = 0"
  shows "\<exists>d'. next_run d = Inr d' \<and> dec_at (run_bytes r) rs d' \<and> ctrl d' = concat (map run_ctrl rs)"
proof -
  let ?n = "length (run_bytes r)"
  have ok: "run_ok r" "list_all run_ok rs" using assms(1) by (simp_all add: dec_at_def)
  have n: "0 < ?n" "?n < 2 ^ 64" using ok(1) by (auto simp: run_ok_def)
  have un: "unat (word_of_nat (?n - 1) :: u64) = ?n - 1" by (rule unat_of_nat_small) (use n in simp)
  have m: "(NOT 0 :: u64) = 18446744073709551615" by code_simp
  have nz: "(word_of_nat (?n - 1) :: u64) \<noteq> NOT 0"
  proof
    assume "(word_of_nat (?n - 1) :: u64) = NOT 0"
    then have "?n - 1 = unat (18446744073709551615 :: u64)" using un unfolding m by (simp only:)
    then have "?n - 1 = 18446744073709551615" by simp
    then show False using n by simp
  qed
  have w: "word_of_nat (?n - 1) + 1 = (word_of_nat ?n :: u64)" 
  proof -
    have "?n = Suc (?n - 1)" using n(1) by simp
    then show ?thesis by (metis of_nat_Suc add.commute)
  qed
  have wn: "unat (word_of_nat ?n :: u64) = ?n" by (rule unat_of_nat_small) (use n in simp)
  obtain k where k: "k < 4" "run_ctrl r = packTag 2 k (?n - 1)"
    "k = (case r of Zeros _ \<Rightarrow> 0 | Ones _ \<Rightarrow> 1 | Same _ _ \<Rightarrow> 2 | Raw _ \<Rightarrow> 3)" by (cases r) auto
  obtain b bs where b: "packTag 2 k (?n - 1) = b # bs" "drop_bit 6 b = word_of_nat k"
    using packTag_first [of 2 k "?n - 1"] k(1) by auto
  have c: "ctrl d = b # (bs @ concat (map run_ctrl rs))" using assms(1) k b by (simp add: dec_at_def)
  have u: "unpackTag 2 (ctrl d) = Inr (word_of_nat (?n - 1), concat (map run_ctrl rs))"
    using unpackTag_pack [of 2 k "?n - 1" "concat (map run_ctrl rs)"] k(1) n(2) b(1) unfolding c by simp
  have cd: "code d = concat (map run_code (r # rs))" using assms by (simp add: dec_at_def)
  show ?thesis
    using u c b(2) nz w wn k cd assms(2,3) ok(2)
    by (cases r) (simp_all add: next_run_def dec_at_def)
qed

lemma add_step_some:
  "step \<le> length bs \<Longrightarrow> add_step f step (Some bs) acc = Inr (Some (drop step bs), acc @ f step (take step bs))"
  by (simp add: add_step_def)

lemma map2_plus_replicate: "map2 (+) bs (replicate (length bs) v) = map (\<lambda>x. x + v) bs"
  by (induction bs) simp_all

lemma map2_take_split:
  "length xs = length ys \<Longrightarrow> map2 f xs ys = map2 f (take k xs) (take k ys) @ map2 f (drop k xs) (drop k ys)"
  by (metis append_take_drop_id zip_append length_take length_drop map_append)

lemma take_split: "k \<le> n \<Longrightarrow> take n xs = take k xs @ take (n - k) (drop k xs)"
  by (metis take_add le_add_diff_inverse)

text \<open>
  Over \<open>n\<close> bytes the decoder adds the next \<open>n\<close> bytes of the expanded runs, and stands behind
  them.
\<close>

lemma u64_sub_nat: "k \<le> unat v \<Longrightarrow> unat (v - word_of_nat k) = unat v - k" for v :: u64
proof -
  assume k: "k \<le> unat v"
  then have "unat (word_of_nat k :: u64) = k" by (intro unat_of_nat_small) (use unat_u64_less [of v] in simp)
  then show ?thesis using k by (subst unat_sub) (simp_all add: word_le_nat_alt)
qed

lemma consume_some:
  "dec_at pre rs d \<Longrightarrow> n \<le> length (pre @ expand rs) \<Longrightarrow> length bs = n \<Longrightarrow>
   \<exists>d' pre' rs'. consume n (Some bs) acc d = Inr (acc @ map2 (+) bs (take n (pre @ expand rs)), d')
     \<and> dec_at pre' rs' d' \<and> pre' @ expand rs' = drop n (pre @ expand rs)"
proof (induction n "Some bs" acc d arbitrary: pre rs bs rule: consume.induct)
  case (1 n acc d)
  define stream where "stream = pre @ expand rs"
  consider "n = 0" | "n \<noteq> 0" "setLen d > 0" | "n \<noteq> 0" "\<not> setLen d > 0" "copyLen d > 0"
    | "n \<noteq> 0" "\<not> setLen d > 0" "\<not> copyLen d > 0" by blast
  then show ?case
  proof cases
    case 1
    then show ?thesis using "1.prems" by (auto simp: consume_0)
  next
    case 2
    have z: "setLen d \<noteq> 0" using 2(2) by auto
    have p: "pre = replicate (unat (setLen d)) (setVal d)" using "1.prems"(1) z by (auto simp: dec_at_def)
    obtain s where s: "s = min (unat (setLen d)) n" "s \<le> n" "s \<le> unat (setLen d)" "s \<le> length pre" "s \<le> length bs"
      using "1.prems"(3) by (simp add: p)
    let ?acc = "acc @ map (\<lambda>x. x + setVal d) (take s bs)"
    have at: "dec_at (drop s pre) rs (d\<lparr>setLen := setLen d - word_of_nat s\<rparr>)"
      using "1.prems"(1) z p u64_sub_nat [OF s(3)] by (auto simp: dec_at_def)
    have add: "add_step (\<lambda>k. map (\<lambda>x. x + setVal d)) s (Some bs) acc = Inr (Some (drop s bs), ?acc)"
      by (rule add_step_some [OF s(5)])
    have v: "map (\<lambda>x. x + setVal d) (take s bs) = map2 (+) (take s bs) (take s stream)"
      using map2_plus_replicate [of "take s bs" "setVal d"] s(3,5) by (simp add: p stream_def min_absorb1)
    have rest: "drop s pre @ expand rs = drop s stream" using s(4) by (simp add: stream_def)
    have ih: "\<exists>d' pre' rs'. consume (n - s) (Some (drop s bs)) ?acc (d\<lparr>setLen := setLen d - word_of_nat s\<rparr>)
        = Inr (?acc @ map2 (+) (drop s bs) (take (n - s) (drop s stream)), d')
      \<and> dec_at pre' rs' d' \<and> pre' @ expand rs' = drop (n - s) (drop s stream)"
      unfolding rest [symmetric]
      by (rule "1.hyps"(1) [OF 2 s(1) add refl at])
        (use "1.prems"(2,3) s(2) rest in \<open>simp_all add: stream_def\<close>)
    have "?acc @ map2 (+) (drop s bs) (take (n - s) (drop s stream)) = acc @ map2 (+) bs (take n stream)"
      unfolding v using "1.prems"(2,3) s(2) map2_take_split [of bs "take n stream" "(+)" s]
      by (simp add: stream_def [symmetric] drop_take min_absorb1)
    then show ?thesis
      using ih s(2) unfolding consume_set [OF 2 s(1)] add by (simp add: stream_def [symmetric])
  next
    case 3
    have z: "copyLen d \<noteq> 0" "setLen d = 0" using 3(2,3) by (auto simp: word_greater_zero_iff)
    have p: "unat (copyLen d) = length pre" "code d = pre @ concat (map run_code rs)"
      using "1.prems"(1) z by (auto simp: dec_at_def)
    obtain s where s: "s = min (unat (copyLen d)) n" "s \<le> n" "s \<le> unat (copyLen d)" "s \<le> length pre" "s \<le> length bs"
      using "1.prems"(3) by (simp add: p)
    have l: "\<not> length (code d) < s" using s(4) by (simp add: p)
    let ?acc = "acc @ map2 (+) (take s bs) (take s (code d))"
    have at: "dec_at (drop s pre) rs (d\<lparr>code := drop s (code d), copyLen := copyLen d - word_of_nat s\<rparr>)"
      using "1.prems"(1) z p s(4) u64_sub_nat [OF s(3)] by (auto simp: dec_at_def)
    have add: "add_step (\<lambda>k bs. map2 (+) bs (take k (code d))) s (Some bs) acc = Inr (Some (drop s bs), ?acc)"
      by (rule add_step_some [OF s(5)])
    have v: "take s (code d) = take s stream" using s(4) by (simp add: p stream_def)
    have rest: "drop s pre @ expand rs = drop s stream" using s(4) by (simp add: stream_def)
    have ih: "\<exists>d' pre' rs'. consume (n - s) (Some (drop s bs)) ?acc
        (d\<lparr>code := drop s (code d), copyLen := copyLen d - word_of_nat s\<rparr>)
        = Inr (?acc @ map2 (+) (drop s bs) (take (n - s) (drop s stream)), d')
      \<and> dec_at pre' rs' d' \<and> pre' @ expand rs' = drop (n - s) (drop s stream)"
      unfolding rest [symmetric]
      by (rule "1.hyps"(2) [OF 3 s(1) l add refl at])
        (use "1.prems"(2,3) s(2) rest in \<open>simp_all add: stream_def\<close>)
    have "?acc @ map2 (+) (drop s bs) (take (n - s) (drop s stream)) = acc @ map2 (+) bs (take n stream)"
      unfolding v using "1.prems"(2,3) s(2) map2_take_split [of bs "take n stream" "(+)" s]
      by (simp add: stream_def [symmetric] drop_take min_absorb1)
    then show ?thesis
      using ih s(2) l unfolding consume_copy [OF 3 s(1)] add by (simp add: stream_def [symmetric])
  next
    case 4
    have z: "setLen d = 0" "copyLen d = 0" using 4(2,3) by (auto simp: word_greater_zero_iff)
    then have pre: "pre = []" using "1.prems"(1) by (auto simp: dec_at_def)
    then obtain r rs1 where r: "rs = r # rs1" using "1.prems"(2) 4(1) by (cases rs) (auto simp: expand_def)
    obtain d1 where d1: "next_run d = Inr d1" "dec_at (run_bytes r) rs1 d1"
      using next_run_dec [of r rs1 d] "1.prems"(1) z pre r by auto
    have e: "run_bytes r @ expand rs1 = pre @ expand rs" by (simp add: pre r expand_def)
    show ?thesis
      using "1.hyps"(3) [OF 4 d1] "1.prems"(2,3) unfolding e by (simp add: consume_next [OF 4] d1)
  qed
qed

text \<open>Over a literal the decoder moves on by as many bytes and adds nothing.\<close>

lemma consume_none:
  "consume n (Some bs) acc d = Inr (out, d') \<Longrightarrow> length bs = n \<Longrightarrow> consume n None acc' d = Inr (acc', d')"
proof (induction n "Some bs" acc d arbitrary: bs acc' rule: consume.induct)
  case (1 n acc d)
  consider "n = 0" | "n \<noteq> 0" "setLen d > 0" | "n \<noteq> 0" "\<not> setLen d > 0" "copyLen d > 0"
    | "n \<noteq> 0" "\<not> setLen d > 0" "\<not> copyLen d > 0" by blast
  then show ?case
  proof cases
    case 1
    then show ?thesis using "1.prems" by (auto simp: consume_0)
  next
    case 2
    define s where s: "s = min (unat (setLen d)) n"
    have add: "add_step (\<lambda>k. map (\<lambda>x. x + setVal d)) s (Some bs) acc
        = Inr (Some (drop s bs), acc @ map (\<lambda>x. x + setVal d) (take s bs))"
      by (rule add_step_some) (use "1.prems"(2) in \<open>simp add: s\<close>)
    show ?thesis
      using "1.hyps"(1) [OF 2 s add refl] "1.prems"
      unfolding consume_set [OF 2 s] add by (simp add: add_step_def)
  next
    case 3
    define s where s: "s = min (unat (copyLen d)) n"
    have add: "add_step (\<lambda>k bs. map2 (+) bs (take k (code d))) s (Some bs) acc
        = Inr (Some (drop s bs), acc @ map2 (+) (take s bs) (take s (code d)))"
      by (rule add_step_some) (use "1.prems"(2) in \<open>simp add: s\<close>)
    have l: "\<not> length (code d) < s" using "1.prems"(1) unfolding consume_copy [OF 3 s] by (auto split: if_splits)
    show ?thesis
      using "1.hyps"(2) [OF 3 s l add refl] "1.prems" l
      unfolding consume_copy [OF 3 s] add by (simp add: add_step_def)
  next
    case 4
    then show ?thesis
      using "1.hyps"(3) [OF 4] "1.prems" by (cases "next_run d") (simp_all add: consume_next [OF 4])
  qed
qed

section \<open>Patches and what they mean\<close>

text \<open>
  A cover: the literals before it, where in the old file it starts and how long it is. The target
  is the literals and, under the covers, the old bytes plus the difference, which runs over the
  whole target; \<open>tail\<close> is what is behind the last cover.
\<close>

type_synonym cov = "bytes \<times> nat \<times> nat"

fun hd_target :: "bytes \<Rightarrow> bytes \<Rightarrow> cov list \<Rightarrow> bytes \<Rightarrow> bytes" where
  "hd_target old dif [] tail = tail"
| "hd_target old dif ((g, p, n) # cs) tail =
     g @ map2 (+) (take n (drop p old)) (take n (drop (length g) dif))
       @ hd_target old (drop (length g + n) dif) cs tail"

fun enc_covers :: "nat \<Rightarrow> cov list \<Rightarrow> bytes" where
  "enc_covers bk [] = []"
| "enc_covers bk ((g, p, n) # cs) =
     (if bk \<le> p then packTag 1 0 (p - bk) else packTag 1 1 (bk - p))
     @ packTag 0 0 (length g) @ packTag 0 0 n @ enc_covers (p + n) cs"

definition cov_size :: "cov list \<Rightarrow> nat" where
  "cov_size cs = sum_list (map (\<lambda>(g, p, n). length g + n) cs)"

definition covs_ok :: "bytes \<Rightarrow> cov list \<Rightarrow> bool" where
  "covs_ok old cs \<longleftrightarrow> list_all (\<lambda>(g, p, n). p + n \<le> length old) cs"

lemma corrupt_Inr [simp]: "corrupt (Inr x) = Inr x"
  by (simp add: corrupt_def)

lemma fill_gap_enc:
  assumes "dec_at pre rs (c_rle s)" "c_lit s = g @ lits" "length g \<le> length (pre @ expand rs)"
    and "length (c_out s) + length g \<le> newLen"
  shows "\<exists>d pre' rs'. fill_gap newLen (length (c_out s) + length g) s
      = Inr (s\<lparr>c_out := c_out s @ g, c_lit := lits, c_rle := d\<rparr>)
    \<and> dec_at pre' rs' d \<and> pre' @ expand rs' = drop (length g) (pre @ expand rs)"
proof -
  obtain d pre' rs' where d: "consume (length g) (Some g) [] (c_rle s) = Inr ([] @ map2 (+) g (take (length g) (pre @ expand rs)), d)"
    "dec_at pre' rs' d" "pre' @ expand rs' = drop (length g) (pre @ expand rs)"
    using consume_some [OF assms(1,3) refl, of "[]"] by auto
  have "consume (length g) None [] (c_rle s) = Inr ([], d)" by (rule consume_none [OF d(1)]) simp
  then show ?thesis using assms(2,4) d(2,3) by (auto simp: fill_gap_def)
qed

lemma copy_cover_enc:
  assumes "dec_at pre rs (c_rle s)" "unat n \<le> length (pre @ expand rs)"
    and "length (c_out s) + unat n \<le> newLen" "unat p + unat n \<le> length old"
  shows "\<exists>d pre' rs'. copy_cover old newLen p n s
      = Inr (s\<lparr>c_out := c_out s @ map2 (+) (take (unat n) (drop (unat p) old)) (take (unat n) (pre @ expand rs)), c_rle := d\<rparr>)
    \<and> dec_at pre' rs' d \<and> pre' @ expand rs' = drop (unat n) (pre @ expand rs)"
proof -
  let ?dst = "take (unat n) (drop (unat p) old)"
  have l: "length ?dst = unat n" using assms(4) by simp
  obtain d pre' rs' where d: "consume (unat n) (Some ?dst) [] (c_rle s) = Inr ([] @ map2 (+) ?dst (take (unat n) (pre @ expand rs)), d)"
    "dec_at pre' rs' d" "pre' @ expand rs' = drop (unat n) (pre @ expand rs)"
    using consume_some [OF assms(1,2) l, of "[]"] by blast
  then show ?thesis using assms(3,4)
    by (auto simp: copy_cover_def sub_slice_def Let_def simp del: take_append drop_append)
qed

lemma small_word: "n \<le> 2 ^ 40 \<Longrightarrow> unat (word_of_nat n :: u64) = n"
  by (rule unat_of_nat_small) simp

lemma read_cover_enc:
  assumes "p \<le> 2 ^ 40" "bk \<le> 2 ^ 40" "length g \<le> 2 ^ 40" "n \<le> 2 ^ 40"
  shows "read_cover (enc_covers bk ((g, p, n) # cs)) = Inr ((if bk \<le> p then 0 else 1,
    word_of_nat (if bk \<le> p then p - bk else bk - p), word_of_nat (length g), word_of_nat n), enc_covers (p + n) cs)"
proof -
  let ?tg = "if bk \<le> p then 0 else 1 :: nat" and ?v = "if bk \<le> p then p - bk else bk - p"
  have e: "enc_covers bk ((g, p, n) # cs)
      = packTag 1 ?tg ?v @ packTag 0 0 (length g) @ packTag 0 0 n @ enc_covers (p + n) cs"
    by simp
  have "\<exists>b bs. packTag 1 ?tg ?v = b # bs \<and> drop_bit (8 - 1) b = word_of_nat ?tg"
    by (rule packTag_first) simp_all
  then obtain b bs where b: "packTag 1 ?tg ?v = b # bs" "drop_bit (8 - 1) b = word_of_nat ?tg" by blast
  let ?t2 = "packTag 0 0 n @ enc_covers (p + n) cs"
  have "unpackTag 1 (packTag 1 ?tg ?v @ packTag 0 0 (length g) @ ?t2) = Inr (word_of_nat ?v, packTag 0 0 (length g) @ ?t2)"
    by (rule unpackTag_pack) (use assms in auto)
  then have u1: "unpackTag 1 (b # (bs @ packTag 0 0 (length g) @ ?t2)) = Inr (word_of_nat ?v, packTag 0 0 (length g) @ ?t2)"
    unfolding b(1) append_Cons .
  have u2: "unpackTag 0 (packTag 0 0 (length g) @ ?t2) = Inr (word_of_nat (length g), ?t2)"
    by (rule unpackTag_pack) (use assms in auto)
  have u3: "unpackTag 0 ?t2 = Inr (word_of_nat n, enc_covers (p + n) cs)"
    by (rule unpackTag_pack) (use assms in auto)
  have s: "drop_bit 7 b = (if bk \<le> p then 0 else 1)" using b(2) by (simp split: if_splits)
  show ?thesis
    unfolding e b(1) append_Cons read_cover_def list.case u1 bindE.simps prod.case u2 u3 s ..
qed

lemma not_addOverflow: "unat a + unat b < 2 ^ 64 \<Longrightarrow> \<not> addOverflow a b"
proof -
  assume l: "unat a + unat b < 2 ^ 64"
  have m: "(NOT 0 :: u64) = 18446744073709551615" by code_simp
  have "unat (18446744073709551615 - b) = 18446744073709551615 - unat b"
    by (subst unat_sub) (use unat_u64_less [of b] in \<open>simp_all add: word_le_nat_alt\<close>)
  then show ?thesis using l unfolding addOverflow_def m word_less_nat_alt by simp
qed

lemma old_pos_enc:
  assumes "p \<le> 2 ^ 40" "bk \<le> 2 ^ 40"
  shows "old_pos (if bk \<le> p then 0 else 1) (word_of_nat bk) (word_of_nat (if bk \<le> p then p - bk else bk - p))
    = Inr (word_of_nat p)"
proof (cases "bk \<le> p")
  case True
  have "\<not> addOverflow (word_of_nat bk) (word_of_nat (p - bk))"
    by (rule not_addOverflow) (use assms in \<open>simp add: small_word\<close>)
  moreover have "word_of_nat bk + word_of_nat (p - bk) = (word_of_nat p :: u64)"
    using True by (metis of_nat_add le_add_diff_inverse)
  ultimately show ?thesis using True by (simp add: old_pos_def)
next
  case False
  have "\<not> (word_of_nat bk :: u64) < word_of_nat (bk - p)"
    using assms by (simp add: word_less_nat_alt small_word)
  moreover have "word_of_nat bk - word_of_nat (bk - p) = (word_of_nat p :: u64)"
    using False by (simp add: of_nat_diff)
  ultimately show ?thesis using False by (simp add: old_pos_def)
qed

lemma cover_turn_enc:
  assumes "dec_at pre rs (c_rle s)" "c_lit s = g @ lits" "c_cover s = enc_covers bk ((g, p, n) # cs)"
    and "oldBack s = word_of_nat bk" "newBack s = word_of_nat (length (c_out s))"
    and "length g + n \<le> length (pre @ expand rs)" "length (c_out s) + length g + n \<le> unat newLen" "unat newLen \<le> 2 ^ 30"
    and "p + n \<le> length old" "length old \<le> 2 ^ 30" "bk \<le> 2 ^ 30"
  shows "\<exists>d pre' rs'. cover_turn old newLen s = Inr \<lparr>c_out = c_out s @ g @ map2 (+) (take n (drop p old)) (take n (drop (length g) (pre @ expand rs))),
      c_lit = lits, c_rle = d, c_cover = enc_covers (p + n) cs, oldBack = word_of_nat (p + n),
      newBack = word_of_nat (length (c_out s) + length g + n)\<rparr>
    \<and> dec_at pre' rs' d \<and> pre' @ expand rs' = drop (length g + n) (pre @ expand rs)"
proof -
  let ?w = "length (c_out s)" and ?g = "length g"
  have b: "p \<le> 2 ^ 40" "bk \<le> 2 ^ 40" "?g \<le> 2 ^ 40" "n \<le> 2 ^ 40" "?w \<le> 2 ^ 40" "?w + ?g \<le> 2 ^ 40" "p + n \<le> 2 ^ 40"
    using assms by simp_all
  have np: "word_of_nat ?w + word_of_nat ?g = (word_of_nat (?w + ?g) :: u64)" by simp
  have c: "\<not> (newLen < word_of_nat (?w + ?g) \<or> newLen - word_of_nat (?w + ?g) < word_of_nat n \<or> word_of_nat (?w + ?g) < (word_of_nat ?w :: u64))"
  proof -
    have "unat (newLen - word_of_nat (?w + ?g)) = unat newLen - (?w + ?g)" by (rule u64_sub_nat) (use assms(7) in simp)
    then show ?thesis using assms(7) b unfolding word_less_nat_alt small_word [OF b(5)] small_word [OF b(6)] small_word [OF b(4)] by simp
  qed
  have o: "\<not> (length old < unat (word_of_nat p :: u64) \<or> length old - unat (word_of_nat p :: u64) < unat (word_of_nat n :: u64))"
    using assms(9) unfolding small_word [OF b(1)] small_word [OF b(4)] by simp
  have lt: "(word_of_nat ?w < (word_of_nat (?w + ?g) :: u64)) = (g \<noteq> [])"
    unfolding word_less_nat_alt small_word [OF b(5)] small_word [OF b(6)] by simp
  have "\<exists>d pre' rs'. (if g \<noteq> [] then fill_gap (unat newLen) (?w + ?g) s else Inr s) = Inr (s\<lparr>c_out := c_out s @ g, c_lit := lits, c_rle := d\<rparr>)
      \<and> dec_at pre' rs' d \<and> pre' @ expand rs' = drop ?g (pre @ expand rs)"
  proof (cases "g = []")
    case True
    have "s = s\<lparr>c_out := c_out s @ g, c_lit := lits, c_rle := c_rle s\<rparr>" using True assms(2) by (cases s) simp
    then show ?thesis using True assms(1) by (metis drop_0 list.size(3))
  qed (use fill_gap_enc [OF assms(1,2)] assms(6,7) in auto)
  then obtain d1 pre1 rs1 where 1: "(if g \<noteq> [] then fill_gap (unat newLen) (?w + ?g) s else Inr s)
      = Inr (s\<lparr>c_out := c_out s @ g, c_lit := lits, c_rle := d1\<rparr>)"
    "dec_at pre1 rs1 d1" "pre1 @ expand rs1 = drop ?g (pre @ expand rs)" by blast
  let ?s = "s\<lparr>c_out := c_out s @ g, c_lit := lits, c_rle := d1\<rparr>"
  have "dec_at pre1 rs1 (c_rle ?s)" "unat (word_of_nat n :: u64) \<le> length (pre1 @ expand rs1)"
    "length (c_out ?s) + unat (word_of_nat n :: u64) \<le> unat newLen"
    "unat (word_of_nat p :: u64) + unat (word_of_nat n :: u64) \<le> length old"
    unfolding 1(3) small_word [OF b(4)] small_word [OF b(1)] using 1(2) assms(6,7,9) by simp_all
  from copy_cover_enc [OF this] obtain d2 pre2 rs2 where 2:
    "copy_cover old (unat newLen) (word_of_nat p) (word_of_nat n) ?s
      = Inr (?s\<lparr>c_out := c_out ?s @ map2 (+) (take n (drop p old)) (take n (drop ?g (pre @ expand rs))), c_rle := d2\<rparr>)"
    "dec_at pre2 rs2 d2" "pre2 @ expand rs2 = drop (?g + n) (pre @ expand rs)"
    unfolding 1(3) small_word [OF b(4)] small_word [OF b(1)] by (auto simp: add.commute simp del: take_append drop_append)
  have no: "\<not> addOverflow (word_of_nat p) (word_of_nat n)" "\<not> addOverflow (word_of_nat (?w + ?g)) (word_of_nat n)"
    "\<not> addOverflow (word_of_nat ?w) (word_of_nat ?g)"
    by (rule not_addOverflow, unfold small_word [OF b(1)] small_word [OF b(4)] small_word [OF b(6)] small_word [OF b(5)] small_word [OF b(3)],
        use b in simp)+
  have "cover_turn old newLen s = Inr (?s\<lparr>c_out := c_out ?s @ map2 (+) (take n (drop p old)) (take n (drop ?g (pre @ expand rs))),
      c_rle := d2, c_cover := enc_covers (p + n) cs, oldBack := word_of_nat p + word_of_nat n,
      newBack := word_of_nat (?w + ?g) + word_of_nat n\<rparr>)"
    unfolding cover_turn_def assms(3) read_cover_enc [OF b(1-4)] sum.case prod.case assms(4,5) old_pos_enc [OF b(1,2)] Let_def np
      if_not_P [OF c] if_not_P [OF o] if_not_P [OF no(3)] lt small_word [OF b(6)] 1(1) bindE.simps 2(1)
    using no(1,2) by simp
  then show ?thesis using 2(2,3) by (intro exI [of _ d2] exI [of _ pre2] exI [of _ rs2]) (simp add: add.assoc)
qed

lemma hd_target_length:
  "covs_ok old cs \<Longrightarrow> cov_size cs \<le> length dif \<Longrightarrow> length (hd_target old dif cs tail) = cov_size cs + length tail"
  by (induction old dif cs tail rule: hd_target.induct) (auto simp: covs_ok_def cov_size_def)

lemma cover_loop_enc:
  assumes "unat newLen \<le> 2 ^ 30" "length old \<le> 2 ^ 30"
  shows "dec_at pre rs (c_rle s) \<Longrightarrow> c_lit s = concat (map fst cs) @ tail \<Longrightarrow> c_cover s = enc_covers bk cs \<Longrightarrow>
    oldBack s = word_of_nat bk \<Longrightarrow> newBack s = word_of_nat (length (c_out s)) \<Longrightarrow>
    cov_size cs \<le> length (pre @ expand rs) \<Longrightarrow> length (c_out s) + cov_size cs \<le> unat newLen \<Longrightarrow>
    covs_ok old cs \<Longrightarrow> bk \<le> 2 ^ 30 \<Longrightarrow>
    \<exists>s' pre' rs'. cover_loop old newLen (length cs) s = Inr s' \<and> c_out s' @ tail = c_out s @ hd_target old (pre @ expand rs) cs tail
      \<and> length (c_out s') = length (c_out s) + cov_size cs \<and> c_lit s' = tail \<and> c_cover s' = []
      \<and> dec_at pre' rs' (c_rle s') \<and> pre' @ expand rs' = drop (cov_size cs) (pre @ expand rs)"
proof (induction cs arbitrary: s pre rs bk)
  case Nil
  then show ?case by (auto simp: cov_size_def)
next
  case (Cons c cs)
  obtain g p n where c: "c = (g, p, n)" by (cases c)
  have l: "c_lit s = g @ concat (map fst cs) @ tail" using Cons.prems(2) by (simp add: c)
  have z: "cov_size (c # cs) = length g + n + cov_size cs" by (simp add: cov_size_def c)
  have b: "length g + n \<le> length (pre @ expand rs)" "length (c_out s) + length g + n \<le> unat newLen" "p + n \<le> length old"
    "covs_ok old cs" "p + n \<le> 2 ^ 30"
    using Cons.prems(6-8) assms(2) z by (auto simp: c covs_ok_def)
  obtain d pre1 rs1 where 1: "cover_turn old newLen s = Inr \<lparr>c_out = c_out s @ g @ map2 (+) (take n (drop p old)) (take n (drop (length g) (pre @ expand rs))),
      c_lit = concat (map fst cs) @ tail, c_rle = d, c_cover = enc_covers (p + n) cs, oldBack = word_of_nat (p + n),
      newBack = word_of_nat (length (c_out s) + length g + n)\<rparr>" (is "_ = Inr ?s1")
    "dec_at pre1 rs1 d" "pre1 @ expand rs1 = drop (length g + n) (pre @ expand rs)"
    using cover_turn_enc [OF Cons.prems(1) l Cons.prems(3) [unfolded c] Cons.prems(4,5) b(1,2) assms(1) b(3) assms(2) Cons.prems(9)]
    by blast
  have o1: "length (c_out ?s1) = length (c_out s) + length g + n" using b(1,3) by simp
  have "\<exists>s' pre' rs'. cover_loop old newLen (length cs) ?s1 = Inr s' \<and> c_out s' @ tail = c_out ?s1 @ hd_target old (pre1 @ expand rs1) cs tail
      \<and> length (c_out s') = length (c_out ?s1) + cov_size cs \<and> c_lit s' = tail \<and> c_cover s' = []
      \<and> dec_at pre' rs' (c_rle s') \<and> pre' @ expand rs' = drop (cov_size cs) (pre1 @ expand rs1)"
  proof (rule Cons.IH)
    show "dec_at pre1 rs1 (c_rle ?s1)" using 1(2) by simp
    show "newBack ?s1 = word_of_nat (length (c_out ?s1))" unfolding o1 by simp
    show "cov_size cs \<le> length (pre1 @ expand rs1)" unfolding 1(3) using Cons.prems(6) z by simp
    show "length (c_out ?s1) + cov_size cs \<le> unat newLen" unfolding o1 using Cons.prems(7) z by simp
  qed (use b in simp_all)
  then obtain s' pre' rs' where s': "cover_loop old newLen (length cs) ?s1 = Inr s'"
    "c_out s' @ tail = c_out ?s1 @ hd_target old (pre1 @ expand rs1) cs tail"
    "length (c_out s') = length (c_out ?s1) + cov_size cs" "c_lit s' = tail" "c_cover s' = []"
    "dec_at pre' rs' (c_rle s')" "pre' @ expand rs' = drop (cov_size cs) (pre1 @ expand rs1)" by blast
  have d: "pre' @ expand rs' = drop (cov_size (c # cs)) (pre @ expand rs)"
    unfolding s'(7) 1(3) z drop_drop by (simp only: add.commute)
  show ?case
    by (intro exI [of _ s'] exI [of _ pre'] exI [of _ rs'])
      (use s'(1,2,4-6) s'(3) [unfolded o1] d z in \<open>simp add: 1(1,3) c del: take_append drop_append\<close>)
qed

lemma rle_done_dec: "dec_at pre rs d \<Longrightarrow> pre @ expand rs = [] \<Longrightarrow> rle_done d"
  by (cases rs) (auto simp: dec_at_def rle_done_def expand_def run_ok_def unsigned_eq_0_iff)

lemma finish_covers_enc:
  assumes "dec_at pre rs (c_rle s)" "c_lit s = tail" "c_cover s = []" "length (pre @ expand rs) = length tail"
    and "unat newLen = length (c_out s) + length tail"
  shows "finish_covers newLen s = Inr (c_out s @ tail)"
proof (cases "tail = []")
  case True
  then have "rle_done (c_rle s)" using rle_done_dec [OF assms(1)] assms(4) by simp
  then show ?thesis using assms True by (simp add: finish_covers_def)
next
  case False
  obtain d pre' rs' where d: "fill_gap (unat newLen) (length (c_out s) + length tail) s
      = Inr (s\<lparr>c_out := c_out s @ tail, c_lit := [], c_rle := d\<rparr>)"
    "dec_at pre' rs' d" "pre' @ expand rs' = drop (length tail) (pre @ expand rs)"
    using fill_gap_enc [OF assms(1), of tail "[]" "unat newLen"] assms(2,4,5) by auto
  have "rle_done d" using rle_done_dec [OF d(2)] d(3) assms(4) by (simp del: drop_append)
  then show ?thesis using assms(3,5) False d(1) by (simp add: finish_covers_def)
qed

text \<open>The patch file.\<close>

definition enc_hdiff :: "bytes \<Rightarrow> cov list \<Rightarrow> bytes \<Rightarrow> run list \<Rightarrow> bytes" where
  "enc_hdiff old cs tail rs =
     (let cover = enc_covers 0 cs; rc = concat (map run_ctrl rs); rd = concat (map run_code rs);
          lit = concat (map fst cs) @ tail
      in str ''HDIFF13&'' @ 0 # concat (map (packTag 0 0)
           [cov_size cs + length tail, length old, length cs, length cover, 0, length rc, 0, length rd, 0, length lit, 0])
         @ cover @ rc @ rd @ lit)"

lemma readN_pack:
  "list_all (\<lambda>v. v < 2 ^ 64) vs \<Longrightarrow>
   readN hd_field (length vs) (concat (map (packTag 0 0) vs) @ rest) = Inr (map word_of_nat vs, rest)"
  by (induction vs) (simp_all add: hd_field_def unpackTag_pack)

lemma packTag_not_empty: "packTag t tg v \<noteq> []"
  by (simp add: packTag_def)

lemma enc_covers_length: "length cs \<le> length (enc_covers bk cs)"
proof (induction cs arbitrary: bk)
  case (Cons c cs)
  obtain g p n where c: "c = (g, p, n)" by (cases c)
  have "1 \<le> length (packTag 0 0 n)" using packTag_not_empty [of 0 0 n] by (cases "packTag 0 0 n") simp_all
  then show ?case using Cons [of "p + n"] by (simp add: c)
qed simp

text \<open>
  C15: a patch decodes to what it means. For every old file, every list of covers (copies from
  anywhere in the old file, in any order, with literals between them) and every coding of the
  difference as runs, the HDIFF13 file that holds them is applied to the target they describe.
\<close>

theorem hdiff_roundtrip:
  assumes "covs_ok old cs" "list_all run_ok rs" "length (expand rs) = cov_size cs + length tail"
    and "0 < cov_size cs + length tail" "cov_size cs + length tail \<le> 2 ^ 30" "length old \<le> 2 ^ 30"
    and "length (enc_hdiff old cs tail rs) \<le> 2 ^ 30"
    and "length old + length (enc_hdiff old cs tail rs) + (cov_size cs + length tail) \<le> 2 * 2 ^ 30 - 64 * 2 ^ 20"
  shows "hdiff_apply old (enc_hdiff old cs tail rs) = Inr (hd_target old (expand rs) cs tail)"
proof -
  let ?n = "cov_size cs + length tail"
  define cover rc rd lit where secs: "cover = enc_covers 0 cs" "rc = concat (map run_ctrl rs)" "rd = concat (map run_code rs)"
    "lit = concat (map fst cs) @ tail"
  define vs where "vs = [?n, length old, length cs, length cover, 0, length rc, 0, length rd, 0, length lit, 0]"
  have enc: "enc_hdiff old cs tail rs = str ''HDIFF13&'' @ 0 # concat (map (packTag 0 0) vs) @ cover @ rc @ rd @ lit"
    by (simp add: enc_hdiff_def secs vs_def Let_def)
  have len: "length cover \<le> 2 ^ 30" "length rc \<le> 2 ^ 30" "length rd \<le> 2 ^ 30" "length lit \<le> 2 ^ 30"
    using assms(7) unfolding enc by simp_all
  have cnt: "length cs \<le> 2 ^ 30" using enc_covers_length [of cs 0] len(1) by (simp add: secs)
  have "list_all (\<lambda>v. v < 2 ^ 64) vs" unfolding vs_def using assms(5,6) cnt len by simp
  note rp = readN_pack [OF this, of "cover @ rc @ rd @ lit"]
  have "length vs = 11" by (simp add: vs_def)
  with rp have fields: "readN hd_field 11 (concat (map (packTag 0 0) vs) @ cover @ rc @ rd @ lit) = Inr (map word_of_nat vs, cover @ rc @ rd @ lit)"
    by (simp only:)
  define head where "head = \<lparr>newSize = word_of_nat ?n, oldSize = word_of_nat (length old), coverCount = word_of_nat (length cs),
      coverSize = word_of_nat (length cover), compCover = 0, rleCtrlSize = word_of_nat (length rc), compRleCtrl = 0,
      rleCodeSize = word_of_nat (length rd), compRleCode = 0, newDiffSize = word_of_nat (length lit), compNewDiff = 0,
      compressType = []\<rparr>"
  have rh: "readHDiff13 (enc_hdiff old cs tail rs) = Inr (head, cover @ rc @ rd @ lit)"
  proof -
    have "hd_readCString (0 # c) m = Inr ([], c)" for c m by (simp add: hd_readCString_def)
    then have "readHDiff13 (enc_hdiff old cs tail rs) = (let f = map word_of_nat vs in
        Inr (\<lparr>newSize = f ! 0, oldSize = f ! 1, coverCount = f ! 2, coverSize = f ! 3, compCover = f ! 4,
                rleCtrlSize = f ! 5, compRleCtrl = f ! 6, rleCodeSize = f ! 7, compRleCode = f ! 8,
                newDiffSize = f ! 9, compNewDiff = f ! 10, compressType = []\<rparr>, cover @ rc @ rd @ lit))"
      unfolding enc readHDiff13_def by (simp add: str_def fields Let_def)
    then show ?thesis by (simp add: vs_def head_def)
  qed
  have u: "unat (newSize head) = ?n" "unat (oldSize head) = length old" "unat (coverCount head) = length cs"
    "unat (coverSize head) = length cover" "unat (rleCtrlSize head) = length rc" "unat (rleCodeSize head) = length rd"
    "unat (newDiffSize head) = length lit"
    unfolding head_def hdiff13.simps by (rule small_word, use assms(5,6) cnt len in simp)+
  have ss: "sliceSections head (cover @ rc @ rd @ lit) = Inr (cover, rc, rd, lit)"
    by (simp add: sliceSections_def take_section_def u)
  let ?s = "\<lparr>c_out = [], c_lit = lit, c_rle = \<lparr>ctrl = rc, code = rd, setLen = 0, setVal = 0, copyLen = 0\<rparr>,
      c_cover = cover, oldBack = 0, newBack = 0\<rparr>"
  have "\<exists>s' pre' rs'. cover_loop old (newSize head) (length cs) ?s = Inr s'
      \<and> c_out s' @ tail = c_out ?s @ hd_target old ([] @ expand rs) cs tail
      \<and> length (c_out s') = length (c_out ?s) + cov_size cs \<and> c_lit s' = tail \<and> c_cover s' = []
      \<and> dec_at pre' rs' (c_rle s') \<and> pre' @ expand rs' = drop (cov_size cs) ([] @ expand rs)"
    by (rule cover_loop_enc [where bk = 0])
      (use assms(1-3,5,6) in \<open>simp_all add: u secs dec_at_def\<close>)
  then obtain s' pre' rs' where s': "cover_loop old (newSize head) (length cs) ?s = Inr s'"
    "c_out s' @ tail = hd_target old (expand rs) cs tail" "length (c_out s') = cov_size cs" "c_lit s' = tail" "c_cover s' = []"
    "dec_at pre' rs' (c_rle s')" "pre' @ expand rs' = drop (cov_size cs) (expand rs)" by auto
  have "length (pre' @ expand rs') = length tail" unfolding s'(7) using assms(3) by simp
  from finish_covers_enc [OF s'(6,4,5) this, of "newSize head"] s'(2,3)
  have "finish_covers (newSize head) s' = Inr (hd_target old (expand rs) cs tail)" by (simp add: u)
  then have ac: "applyCovers old head cover rc rd lit = Inr (hd_target old (expand rs) cs tail)"
    by (simp add: applyCovers_def u s'(1))
  have nz: "newSize head \<noteq> 0" using u(1) assms(4) by (metis unat_0 less_irrefl)
  show ?thesis
    unfolding hdiff_apply_def rh sum.case prod.case u ss ac using assms(5-8) nz by (simp add: head_def)
qed

text \<open>
  Two covers, the second behind the first in the target and before it in the old file, over a zero
  run, a repeated byte and raw bytes.
\<close>

definition sample_covs :: "cov list" where
  "sample_covs = [([1], 1, 2), ([], 0, 1)]"

definition sample_runs :: "run list" where
  "sample_runs = [Zeros 1, Same 5 2, Raw [7, 8]]"

lemma sample_hdiff:
  "length (enc_hdiff [10, 20, 30, 40] sample_covs [9] sample_runs) = 34"
  "expand sample_runs = [0, 5, 5, 7, 8]"
  "cov_size sample_covs = 4"
  "hd_target [10, 20, 30, 40] [0, 5, 5, 7, 8] sample_covs [9] = [1, 25, 35, 17, 9]"
  by code_simp+

lemma hdiff_roundtrip_witness:
  "hdiff_apply [10, 20, 30, 40] (enc_hdiff [10, 20, 30, 40] sample_covs [9] sample_runs) = Inr [1, 25, 35, 17, 9]"
proof -
  have "list_all run_ok sample_runs" by (simp add: sample_runs_def run_ok_def)
  moreover have "covs_ok [10, 20, 30, 40] sample_covs" by (simp add: sample_covs_def covs_ok_def)
  ultimately show ?thesis
    using hdiff_roundtrip [of "[10, 20, 30, 40]" sample_covs sample_runs "[9]"] by (simp add: sample_hdiff)
qed

end
