(* ===== verification/HdiffDir.thy ===== *)
theory HdiffDir
  imports Hdiff
begin

text \<open>
  HDIFF19 directory patches (\<open>reconstruct/x5n\<close>): the manifest parser of \<open>dir.go\<close>, the inner
  HDIFFSF20 stream of \<open>sf20.go\<close> and \<open>Apply\<close> of \<open>patch.go\<close>, which maps old files to new
  files. Its unchecked counts can panic, and the model keeps that.
\<close>

section \<open>Integers and strings\<close>

datatype x5n_error =
    X5nTruncated | X5nOverflow | X5nType | X5nUnsupported | X5nFlags | X5nCompressedHead | X5nChecksums
  | X5nHead | X5nExtern | X5nPaths | X5nIndex | X5nPathList | X5nLists | SF20Corrupt
  | X5nOldRef | X5nOldDir | X5nMissing | X5nOldSize | X5nNewSize | X5nNewRef | X5nNewFile | X5nNewFiles

fun uint_loop :: "u64 \<Rightarrow> bytes \<Rightarrow> x5n_error + u64 \<times> bytes" where
  "uint_loop value [] = Inl X5nTruncated"
| "uint_loop value (c0 # b) =
     (if drop_bit 57 value \<noteq> 0 then Inl X5nOverflow
      else (let value = push_bit 7 value OR ucast (c0 AND 0x7f) in
        if c0 AND 0x80 = 0 then Inr (value, b) else uint_loop value b))"

definition unpackUInt :: "bytes \<Rightarrow> x5n_error + u64 \<times> bytes" where
  "unpackUInt b =
     (case b of
        [] \<Rightarrow> Inl X5nTruncated
      | c0 # b \<Rightarrow>
          (let value = ucast (c0 AND 0x7f) in
           if c0 AND 0x80 = 0 then Inr (value, b) else uint_loop value b))"

definition sf_unpackTag :: "nat \<Rightarrow> bytes \<Rightarrow> x5n_error + u64 \<times> bytes" where
  "sf_unpackTag tagBits b =
     (case b of
        [] \<Rightarrow> Inl X5nTruncated
      | c0 # b \<Rightarrow>
          if tagBits > 7 then Inl X5nTruncated
          else (let low = 7 - tagBits; value = ucast c0 AND (push_bit low 1 - 1) in
            if c0 AND push_bit low 1 = 0 then Inr (value, b) else uint_loop value b))"

fun readType :: "byte \<Rightarrow> bytes \<Rightarrow> x5n_error + bytes \<times> bytes" where
  "readType e [] = Inl X5nType"
| "readType e (c # b) =
     (if c = e then Inr ([], b)
      else if c = 0 \<and> e \<noteq> 0 then Inl X5nType
      else bindE (readType e b) (\<lambda>(s, b). Inr (c # s, b)))"

fun inc_list :: "nat \<Rightarrow> u64 \<Rightarrow> u64 \<Rightarrow> bytes \<Rightarrow> x5n_error + nat list \<times> bytes" where
  "inc_list 0 prev limit b = Inr ([], b)"
| "inc_list (Suc k) prev limit b =
     bindE (unpackUInt b) (\<lambda>(inc, b).
       (let prev = prev + (1 + inc) in
        if prev \<ge> limit then Inl X5nIndex
        else bindE (inc_list k prev limit b) (\<lambda>(xs, b). Inr (unat prev # xs, b))))"

definition faulty :: "'e + 'a \<Rightarrow> 'e fault + 'a" where
  "faulty m = (case m of Inl e \<Rightarrow> Inl (Error e) | Inr r \<Rightarrow> Inr r)"

definition readIncList :: "u64 \<Rightarrow> u64 \<Rightarrow> bytes \<Rightarrow> x5n_error fault + nat list \<times> bytes" where
  "readIncList count limit b =
     (if \<not> makes 8 count then Inl Panic else faulty (inc_list (unat count) (NOT 0) limit b))"

text \<open>The strings of a block of NUL-terminated strings, and what is behind the last NUL.\<close>

fun split_nul :: "bytes \<Rightarrow> bytes \<Rightarrow> bytes list \<times> bytes" where
  "split_nul acc [] = ([], acc)"
| "split_nul acc (c # b) =
     (if c = 0 then (let (xs, r) = split_nul [] b in (acc # xs, r)) else split_nul (acc @ [c]) b)"

definition splitCStrings :: "bytes \<Rightarrow> u64 \<Rightarrow> x5n_error fault + bytes list" where
  "splitCStrings data n =
     (if \<not> makes 16 n then Inl Panic
      else (let (xs, r) = split_nul [] data in
        if r \<noteq> [] \<or> length xs \<noteq> unat n then Inl (Error X5nPathList) else Inr xs))"

section \<open>The manifest\<close>

record DirDiff =
  OldPaths :: "bytes list"
  NewPaths :: "bytes list"
  OldRefs :: "nat list"
  NewRefs :: "nat list"
  NewRefSizes :: "u64 list"
  OldRefSize :: u64
  NewRefSize :: u64
  Inner :: bytes

definition read_types :: "bytes \<Rightarrow> x5n_error + bytes" where
  "read_types data =
     bindE (readType 0x26 data) (\<lambda>(typ', rest).
       if typ' \<noteq> str ''HDIFF19'' then Inl X5nUnsupported
       else bindE (readType 0x26 rest) (\<lambda>(comp, rest).
         if comp \<noteq> [] then Inl X5nUnsupported
         else bindE (readType 0 rest) (\<lambda>(sum, rest).
           if sum \<noteq> str ''fadler64'' \<and> sum \<noteq> [] then Inl X5nUnsupported else Inr rest)))"

text \<open>
  The nineteen numbers of the head, read in four groups with the checks between them: the
  directory flags, the counts up to the size of the head, its compressed size, the checksums.
\<close>

definition head_numbers :: "bytes \<Rightarrow> x5n_error + u64 list \<times> bytes" where
  "head_numbers rest =
     bindE (readN unpackUInt 2 rest) (\<lambda>(dirs, rest).
       if dirs ! 0 > 1 \<or> dirs ! 1 > 1 then Inl X5nFlags
       else bindE (readN unpackUInt 16 rest) (\<lambda>(f, rest).
         if f ! 15 \<noteq> 0 then Inl X5nCompressedHead
         else bindE (unpackUInt rest) (\<lambda>(sums, rest).
           if unat (sums * 4) > length rest then Inl X5nChecksums
           else Inr (f, drop (unat (sums * 4)) rest))))"

definition split_head :: "u64 list \<Rightarrow> bytes \<Rightarrow> x5n_error + bytes \<times> bytes" where
  "split_head f rest =
     (let headSize = unat (f ! 14) in
      if headSize > length rest then Inl X5nHead
      else (let head = take headSize rest; rest = drop headSize rest; ext = unat (f ! 12 + f ! 13) in
        if ext > length rest then Inl X5nExtern else Inr (head, drop ext rest)))"

definition parse_lists :: "u64 list \<Rightarrow> bytes \<Rightarrow> bytes \<Rightarrow> x5n_error fault + DirDiff" where
  "parse_lists f head inner =
     (let oldPathCount = f ! 0; newPathCount = f ! 2; pathSum = unat (f ! 1 + f ! 3);
          oldRefCount = f ! 4; newRefCount = f ! 6 in
      if pathSum > length head then Inl (Error X5nPaths)
      else bindE (splitCStrings (take pathSum head) (oldPathCount + newPathCount)) (\<lambda>paths.
           bindE (readIncList oldRefCount oldPathCount (drop pathSum head)) (\<lambda>(oldRefs, cur).
           bindE (readIncList newRefCount newPathCount cur) (\<lambda>(newRefs, cur).
           bindE (if \<not> makes 8 newRefCount then Inl Panic else faulty (readN unpackUInt (unat newRefCount) cur)) (\<lambda>(sizes, cur).
             if f ! 8 \<noteq> 0 \<or> f ! 10 \<noteq> 0 then Inl (Error X5nLists)
             else if unat oldPathCount > length paths then Inl Panic
             else Inr \<lparr>OldPaths = take (unat oldPathCount) paths, NewPaths = drop (unat oldPathCount) paths,
                       OldRefs = oldRefs, NewRefs = newRefs, NewRefSizes = sizes,
                       OldRefSize = f ! 5, NewRefSize = f ! 7, Inner = inner\<rparr>)))))"

definition x5n_Parse :: "bytes \<Rightarrow> x5n_error fault + DirDiff" where
  "x5n_Parse data =
     (case bindE (read_types data) (\<lambda>rest. bindE (head_numbers rest) (\<lambda>(f, rest).
        bindE (split_head f rest) (\<lambda>(head, inner). Inr (f, head, inner)))) of
        Inl e \<Rightarrow> Inl (Error e)
      | Inr (f, head, inner) \<Rightarrow> parse_lists f head inner)"

definition isDirPath :: "bytes \<Rightarrow> bool" where
  "isDirPath name \<longleftrightarrow> name = [] \<or> last name = 0x2f"

section \<open>The difference of one step\<close>

record rle0 =
  r_code :: bytes
  len0 :: u64
  lenv :: u64
  need0 :: bool

definition rle0_reset :: "bytes \<Rightarrow> rle0" where
  "rle0_reset c = \<lparr>r_code = c, len0 = 0, lenv = 0, need0 = True\<rparr>"

definition rle0_next :: "rle0 \<Rightarrow> x5n_error + rle0" where
  "rle0_next r =
     (case unpackUInt (r_code r) of
        Inl e \<Rightarrow> Inl SF20Corrupt
      | Inr (v, rest) \<Rightarrow>
          if need0 r then Inr (r\<lparr>r_code := rest, need0 := False, len0 := v\<rparr>)
          else if unat v > length rest then Inl SF20Corrupt
          else Inr (r\<lparr>r_code := rest, need0 := True, lenv := v\<rparr>))"

lemma uint_loop_length: "uint_loop v b = Inr (x, b') \<Longrightarrow> length b' < length b"
  by (induction v b rule: uint_loop.induct) (auto simp: Let_def split: if_splits)

lemma unpackUInt_length: "unpackUInt b = Inr (x, b') \<Longrightarrow> length b' < length b"
  by (auto simp: unpackUInt_def Let_def split: list.splits if_splits dest!: uint_loop_length)

lemma rle0_next_code: "rle0_next r = Inr r' \<Longrightarrow> length (r_code r') < length (r_code r)"
  by (auto simp: rle0_next_def split: sum.split_asm if_split_asm dest!: unpackUInt_length)

text \<open>\<open>rle0_add dst r acc\<close>: the bytes still to add to, the decoder, and what is done.\<close>

function rle0_add :: "bytes \<Rightarrow> rle0 \<Rightarrow> bytes \<Rightarrow> x5n_error + bytes \<times> rle0" where
  "rle0_add dst r acc =
     (if dst = [] then Inr (acc, r)
      else if len0 r > 0 then
        (let n = min (unat (len0 r)) (length dst) in
         rle0_add (drop n dst) (r\<lparr>len0 := len0 r - word_of_nat n\<rparr>) (acc @ take n dst))
      else if lenv r > 0 then
        (let n = min (unat (lenv r)) (length dst) in
         if n > length (r_code r) then Inl SF20Corrupt
         else rle0_add (drop n dst) (r\<lparr>r_code := drop n (r_code r), lenv := lenv r - word_of_nat n\<rparr>)
                (acc @ map2 (+) (take n dst) (take n (r_code r))))
      else bindE (rle0_next r) (\<lambda>r'. rle0_add dst r' acc))"
  by pat_completeness auto
termination
proof (relation "measures [\<lambda>(dst, r, acc). length dst, \<lambda>(dst, r, acc). length (r_code r)]", goal_cases)
  case 1 show ?case by simp
next
  case (2 dst r acc)
  then have "0 < unat (len0 r)" by (simp add: unat_gt_0 word_neq_0_conv)
  with 2 show ?case by simp
next
  case (3 dst r acc)
  then have "0 < unat (lenv r)" by (simp add: unat_gt_0 word_neq_0_conv)
  with 3 show ?case by simp
next
  case (4 dst r acc)
  then show ?case by (auto dest: rle0_next_code)
qed

declare rle0_add.simps [simp del]

section \<open>HDIFFSF20\<close>

record sf20Head =
  sf_newSize :: u64
  sf_oldSize :: u64
  sf_coverCount :: u64
  stepMemSize :: u64
  uncompressed :: u64
  compressed :: u64

fun readLimited :: "byte \<Rightarrow> nat \<Rightarrow> bytes \<Rightarrow> x5n_error + bytes \<times> bytes" where
  "readLimited e 0 b = Inl SF20Corrupt"
| "readLimited e (Suc k) [] = Inl SF20Corrupt"
| "readLimited e (Suc k) (c # b) =
     (if c = e then Inr ([], b) else bindE (readLimited e k b) (\<lambda>(s, b). Inr (c # s, b)))"

definition sf_field :: "bytes \<Rightarrow> x5n_error + u64 \<times> bytes" where
  "sf_field b = (case unpackUInt b of Inl e \<Rightarrow> Inl SF20Corrupt | Inr r \<Rightarrow> Inr r)"

definition readSF20 :: "bytes \<Rightarrow> x5n_error + sf20Head \<times> bytes" where
  "readSF20 diff =
     bindE (readLimited 0x26 260 diff) (\<lambda>(name, rest).
       if name \<noteq> str ''HDIFFSF20'' then Inl SF20Corrupt
       else bindE (readLimited 0 260 rest) (\<lambda>(_, rest).
         bindE (readN sf_field 6 rest) (\<lambda>(f, rest).
           Inr (\<lparr>sf_newSize = f ! 0, sf_oldSize = f ! 1, sf_coverCount = f ! 2, stepMemSize = f ! 3,
                 uncompressed = f ! 4, compressed = f ! 5\<rparr>, rest))))"

text \<open>
  The state of the loops: the target so far, the body, the covers of the step, its decoder, how
  many covers are left, and where the last one ended.
\<close>

record sf20 =
  sf_out :: bytes
  sf_body :: bytes
  sf_covers :: bytes
  sf_rle :: rle0
  sf_left :: u64
  lastOld :: u64
  lastNew :: u64

definition sf_cover :: "bytes \<Rightarrow> x5n_error + (byte \<times> u64 \<times> u64 \<times> u64) \<times> bytes" where
  "sf_cover covers =
     (case covers of
        [] \<Rightarrow> Inl SF20Corrupt
      | c # _ \<Rightarrow>
          bindE (sf_unpackTag 1 covers) (\<lambda>(incOld, rest).
          bindE (unpackUInt rest) (\<lambda>(incNew, rest).
          bindE (unpackUInt rest) (\<lambda>(len, rest).
            Inr ((drop_bit 7 c, incOld, incNew, len), rest)))))"

definition sf_oldPos :: "byte \<Rightarrow> u64 \<Rightarrow> u64 \<Rightarrow> x5n_error + u64" where
  "sf_oldPos sign prev inc =
     (if sign = 0 then (if prev > NOT 0 - inc then Inl SF20Corrupt else Inr (prev + inc))
      else if inc > prev then Inl SF20Corrupt
      else Inr (prev - inc))"

definition toSF20 :: "x5n_error + 'a \<Rightarrow> x5n_error + 'a" where
  "toSF20 m = (case m of Inl e \<Rightarrow> Inl SF20Corrupt | Inr r \<Rightarrow> Inr r)"

lemma toSF20_eq_Inr [res_simps]: "toSF20 m = Inr x \<longleftrightarrow> m = Inr x"
  by (cases m) (simp_all add: toSF20_def)

text \<open>The literals of the gap, guarded by the body and by the size of the target.\<close>

definition sf_gap :: "u64 \<Rightarrow> u64 \<Rightarrow> sf20 \<Rightarrow> x5n_error fault + sf20" where
  "sf_gap newLen gap s =
     (let wrote = word_of_nat (length (sf_out s)) in
      if unat gap > length (sf_body s) \<or> wrote > 2 * 2 ^ 30 - gap then Inl (Error SF20Corrupt)
      else if wrote + gap > newLen then Inl (Error SF20Corrupt)
      else if length (sf_out s) + unat gap > unat newLen then Inl Panic
      else Inr (s\<lparr>sf_out := sf_out s @ take (unat gap) (sf_body s), sf_body := drop (unat gap) (sf_body s)\<rparr>))"

definition sf_copy :: "bytes \<Rightarrow> u64 \<Rightarrow> u64 \<Rightarrow> u64 \<Rightarrow> sf20 \<Rightarrow> x5n_error fault + sf20" where
  "sf_copy old newLen oldPos len s =
     (if len = 0 then (if sf_left s \<noteq> 0 then Inl (Error SF20Corrupt) else Inr s)
      else if unat oldPos > length old \<or> unat len > length old - unat oldPos then Inl (Error SF20Corrupt)
      else if length (sf_out s) > unat newLen \<or> len > newLen - word_of_nat (length (sf_out s)) then Inl (Error SF20Corrupt)
      else if length (sf_out s) + unat len > unat newLen \<or> unat oldPos + unat len > length old then Inl Panic
      else bindE (faulty (rle0_add (take (unat len) (drop (unat oldPos) old)) (sf_rle s) [])) (\<lambda>(dst, r).
        Inr (s\<lparr>sf_out := sf_out s @ dst, sf_rle := r\<rparr>)))"

definition sf_turn :: "bytes \<Rightarrow> u64 \<Rightarrow> sf20 \<Rightarrow> x5n_error fault + sf20" where
  "sf_turn old newLen s =
     (if sf_left s = 0 then Inl (Error SF20Corrupt)
      else case toSF20 (sf_cover (sf_covers s)) of
        Inl e \<Rightarrow> Inl (Error e)
      | Inr ((sign, incOld, incNew, len), rest) \<Rightarrow>
          (case sf_oldPos sign (lastOld s) incOld of
             Inl e \<Rightarrow> Inl (Error e)
           | Inr oldPos \<Rightarrow>
               if lastNew s > NOT 0 - incNew then Inl (Error SF20Corrupt)
               else (let newPos = lastNew s + incNew in
                 if newPos < lastNew s then Inl (Error SF20Corrupt)
                 else bindE (sf_gap newLen (newPos - lastNew s) (s\<lparr>sf_covers := rest, sf_left := sf_left s - 1\<rparr>)) (\<lambda>s.
                      bindE (sf_copy old newLen oldPos len s) (\<lambda>s.
                        if oldPos + len < oldPos \<or> newPos + len < newPos then Inl (Error SF20Corrupt)
                        else Inr (s\<lparr>lastOld := oldPos + len, lastNew := newPos + len\<rparr>))))))"

text \<open>The covers of a step, then the steps.\<close>

lemma sf_unpackTag_length: "sf_unpackTag t b = Inr (x, b') \<Longrightarrow> length b' < length b"
  by (auto simp: sf_unpackTag_def Let_def split: list.splits if_splits dest!: uint_loop_length)

lemma sf_cover_length: "sf_cover c = Inr (x, rest) \<Longrightarrow> length rest < length c"
  by (auto simp: sf_cover_def res_simps split: list.splits prod.splits
      dest!: sf_unpackTag_length unpackUInt_length)

lemma sf_gap_fields:
  "sf_gap newLen gap s = Inr s' \<Longrightarrow> sf_covers s' = sf_covers s \<and> length (sf_body s') \<le> length (sf_body s)"
  by (auto simp: sf_gap_def Let_def split: if_splits)

lemma sf_copy_fields:
  "sf_copy old newLen p n s = Inr s' \<Longrightarrow> sf_covers s' = sf_covers s \<and> sf_body s' = sf_body s"
  by (auto simp: sf_copy_def res_simps split: if_splits prod.splits)

lemma sf_turn_fields:
  assumes "sf_turn old newLen s = Inr s'"
  shows "length (sf_covers s') < length (sf_covers s) \<and> length (sf_body s') \<le> length (sf_body s)"
  using assms unfolding sf_turn_def toSF20_def
  by (auto simp: res_simps Let_def split: if_splits sum.splits prod.splits
      dest!: sf_gap_fields sf_copy_fields sf_cover_length)

function sf_step :: "bytes \<Rightarrow> u64 \<Rightarrow> sf20 \<Rightarrow> x5n_error fault + sf20" where
  "sf_step old newLen s = (if sf_covers s = [] then Inr s else bindE (sf_turn old newLen s) (sf_step old newLen))"
  by pat_completeness auto
termination
  by (relation "measure (\<lambda>(old, newLen, s). length (sf_covers s))") (auto dest: sf_turn_fields)

declare sf_step.simps [simp del]

lemma sf_step_body: "sf_step old newLen s = Inr s' \<Longrightarrow> length (sf_body s') \<le> length (sf_body s)"
proof (induction old newLen s rule: sf_step.induct)
  case (1 old newLen s)
  show ?case
  proof (cases "sf_covers s = []")
    case False
    then obtain s1 where "sf_turn old newLen s = Inr s1" "sf_step old newLen s1 = Inr s'"
      using "1.prems" by (subst (asm) sf_step.simps) (auto simp: res_simps)
    then show ?thesis using "1.IH" [OF False] sf_turn_fields by fastforce
  qed (use "1.prems" in \<open>simp add: sf_step.simps\<close>)
qed

definition sf_open :: "sf20Head \<Rightarrow> sf20 \<Rightarrow> x5n_error + sf20" where
  "sf_open head s =
     bindE (toSF20 (unpackUInt (sf_body s))) (\<lambda>(coverSz, rest).
     bindE (toSF20 (unpackUInt rest)) (\<lambda>(rleSz, rest).
       if coverSz > stepMemSize head \<or> rleSz > stepMemSize head \<or> coverSz + rleSz > stepMemSize head then Inl SF20Corrupt
       else if unat (coverSz + rleSz) > length rest then Inl SF20Corrupt
       else if coverSz = 0 then Inl SF20Corrupt
       else Inr (s\<lparr>sf_covers := take (unat coverSz) rest,
                   sf_rle := rle0_reset (take (unat (coverSz + rleSz) - unat coverSz) (drop (unat coverSz) rest)),
                   sf_body := drop (unat (coverSz + rleSz)) rest\<rparr>)))"

lemma sf_open_body: "sf_open head s = Inr s' \<Longrightarrow> length (sf_body s') < length (sf_body s)"
  by (auto simp: sf_open_def res_simps split: if_splits prod.splits dest!: unpackUInt_length)

function sf_steps :: "bytes \<Rightarrow> sf20Head \<Rightarrow> sf20 \<Rightarrow> x5n_error fault + sf20" where
  "sf_steps old head s =
     (if sf_left s = 0 then Inr s
      else case sf_open head s of
        Inl e \<Rightarrow> Inl (Error e)
      | Inr s' \<Rightarrow> bindE (sf_step old (sf_newSize head) s') (sf_steps old head))"
  by pat_completeness auto
termination
  by (relation "measure (\<lambda>(old, head, s). length (sf_body s))") (fastforce dest: sf_open_body sf_step_body)+

declare sf_steps.simps [simp del]

definition sf_checks :: "bytes \<Rightarrow> sf20Head \<Rightarrow> bytes \<Rightarrow> bool" where
  "sf_checks old head rest \<longleftrightarrow>
     unat (sf_oldSize head) = length old \<and> compressed head = 0 \<and> \<not> compressed head > uncompressed head
     \<and> \<not> (stepMemSize head > (if sf_newSize head \<ge> 16 * 2 ^ 20 then sf_newSize head else 16 * 2 ^ 20)
         \<or> stepMemSize head > uncompressed head)
     \<and> \<not> sf_newSize head > 2 * 2 ^ 30
     \<and> \<not> length rest < unat (uncompressed head)"

definition applySF20Bytes :: "bytes \<Rightarrow> bytes \<Rightarrow> x5n_error fault + bytes" where
  "applySF20Bytes old diff =
     (case readSF20 diff of
        Inl e \<Rightarrow> Inl (Error e)
      | Inr (head, rest) \<Rightarrow>
          if \<not> sf_checks old head rest then Inl (Error SF20Corrupt)
          else bindE (sf_steps old head
              \<lparr>sf_out = [], sf_body = take (unat (uncompressed head)) rest, sf_covers = [], sf_rle = rle0_reset [],
               sf_left = sf_coverCount head, lastOld = 0, lastNew = 0\<rparr>) (\<lambda>s.
            if sf_body s \<noteq> [] \<or> length (sf_out s) \<noteq> unat (sf_newSize head) then Inl (Error SF20Corrupt)
            else Inr (sf_out s)))"

definition applySF20 :: "bytes \<Rightarrow> bytes \<Rightarrow> x5n_error fault + bytes" where
  "applySF20 old diff =
     (case applySF20Bytes old diff of
        Inl Panic \<Rightarrow> Inl Panic | Inl (Error e) \<Rightarrow> Inl (Error SF20Corrupt) | Inr out \<Rightarrow> Inr out)"

section \<open>Apply\<close>

fun gather :: "(bytes \<Rightarrow> bytes option) \<Rightarrow> bytes list \<Rightarrow> nat list \<Rightarrow> x5n_error + bytes" where
  "gather files paths [] = Inr []"
| "gather files paths (i # is) =
     (if i \<ge> length paths then Inl X5nOldRef
      else if isDirPath (paths ! i) then Inl X5nOldDir
      else case files (paths ! i) of
        None \<Rightarrow> Inl X5nMissing
      | Some b \<Rightarrow> bindE (gather files paths is) (\<lambda>r. Inr (b @ r)))"

text \<open>
  The new files, cut from the plain bytes one behind the other. The offset and the size are
  64-bit integers: a size of 2 to the 63 and more is negative, and their sum can wrap.
\<close>

fun cut :: "bytes list \<Rightarrow> bytes \<Rightarrow> nat \<Rightarrow> (nat \<times> u64) list \<Rightarrow> (bytes \<Rightarrow> bytes option) \<Rightarrow>
    x5n_error fault + (bytes \<Rightarrow> bytes option)" where
  "cut paths plain off [] out = (if off \<noteq> length plain then Inl (Error X5nNewFiles) else Inr out)"
| "cut paths plain off ((i, sz) # rest) out =
     (if i \<ge> length paths then Inl (Error X5nNewRef)
      else if isDirPath (paths ! i) \<or> sint sz < 0 \<or> sint (word_of_nat off + sz) > int (length plain) then Inl (Error X5nNewFile)
      else if off + unat sz > length plain then Inl Panic
      else cut paths plain (off + unat sz) rest (out(paths ! i \<mapsto> take (unat sz) (drop off plain))))"

definition x5n_Apply :: "(bytes \<Rightarrow> bytes option) \<Rightarrow> bytes \<Rightarrow> x5n_error fault + (bytes \<Rightarrow> bytes option)" where
  "x5n_Apply files diff =
     bindE (x5n_Parse diff) (\<lambda>info.
       if \<not> makes 1 (OldRefSize info) then Inl Panic
       else bindE (faulty (gather files (OldPaths info) (OldRefs info))) (\<lambda>old.
         if length old \<noteq> unat (OldRefSize info) then Inl (Error X5nOldSize)
         else bindE (applySF20 old (Inner info)) (\<lambda>plain.
           if length plain \<noteq> unat (NewRefSize info) then Inl (Error X5nNewSize)
           else cut (NewPaths info) plain 0 (zip (NewRefs info) (NewRefSizes info)) Map.empty)))"

section \<open>Nothing in the stream panics\<close>

lemma faulty_returns [simp]: "returns Q (faulty m) \<longleftrightarrow> (\<forall>x. m = Inr x \<longrightarrow> Q x)"
  by (cases m) (simp_all add: faulty_def)

lemma rle0_add_done: "rle0_add [] r acc = Inr (acc, r)"
  by (subst rle0_add.simps) simp

lemma rle0_add_zeros:
  "dst \<noteq> [] \<Longrightarrow> len0 r > 0 \<Longrightarrow> n = min (unat (len0 r)) (length dst) \<Longrightarrow>
   rle0_add dst r acc = rle0_add (drop n dst) (r\<lparr>len0 := len0 r - word_of_nat n\<rparr>) (acc @ take n dst)"
  by (subst rle0_add.simps) (simp add: Let_def)

lemma rle0_add_raw:
  "dst \<noteq> [] \<Longrightarrow> \<not> len0 r > 0 \<Longrightarrow> lenv r > 0 \<Longrightarrow> n = min (unat (lenv r)) (length dst) \<Longrightarrow>
   rle0_add dst r acc = (if n > length (r_code r) then Inl SF20Corrupt
     else rle0_add (drop n dst) (r\<lparr>r_code := drop n (r_code r), lenv := lenv r - word_of_nat n\<rparr>)
            (acc @ map2 (+) (take n dst) (take n (r_code r))))"
  by (subst rle0_add.simps) (simp add: Let_def)

lemma rle0_add_next:
  "dst \<noteq> [] \<Longrightarrow> \<not> len0 r > 0 \<Longrightarrow> \<not> lenv r > 0 \<Longrightarrow>
   rle0_add dst r acc = bindE (rle0_next r) (\<lambda>r'. rle0_add dst r' acc)"
  by (subst rle0_add.simps) simp

lemma rle0_add_length: "rle0_add dst r acc = Inr (out, r') \<Longrightarrow> length out = length acc + length dst"
proof (induction dst r acc rule: rle0_add.induct)
  case (1 dst r acc)
  consider "dst = []" | "dst \<noteq> []" "len0 r > 0" | "dst \<noteq> []" "\<not> len0 r > 0" "lenv r > 0"
    | "dst \<noteq> []" "\<not> len0 r > 0" "\<not> lenv r > 0" by blast
  then show ?case
  proof cases
    case 1
    then show ?thesis using "1.prems" by (simp add: rle0_add_done)
  next
    case 2
    then show ?thesis using "1.IH"(1) [OF 2 refl] "1.prems" by (auto simp: rle0_add_zeros [OF 2 refl])
  next
    case 3
    then show ?thesis using "1.IH"(2) [OF 3 refl] "1.prems"
      by (auto simp: rle0_add_raw [OF 3 refl] split: if_splits)
  next
    case 4
    then show ?thesis using "1.IH"(3) [OF 4] "1.prems" by (auto simp: rle0_add_next [OF 4] res_simps)
  qed
qed

lemma sf_gap_returns:
  assumes "length (sf_out s) \<le> unat newLen" "unat newLen \<le> 2 ^ 31" "length (sf_body s) < 2 ^ 63"
  shows "returns (\<lambda>s'. length (sf_out s') \<le> unat newLen) (sf_gap newLen gap s)"
proof (cases "unat gap > length (sf_body s)")
  case False
  have w: "unat (word_of_nat (length (sf_out s)) :: u64) = length (sf_out s)" by (rule u64_small) (use assms in simp)
  have "unat (word_of_nat (length (sf_out s)) + gap) = length (sf_out s) + unat gap"
    using False assms w by (subst unat_add_lem [THEN iffD1]) simp_all
  then show ?thesis using False by (auto simp: sf_gap_def Let_def word_less_nat_alt intro!: returns_if)
qed (simp add: sf_gap_def Let_def)

lemma sf_copy_returns:
  assumes "length (sf_out s) \<le> unat newLen" "unat newLen \<le> 2 ^ 31"
  shows "returns (\<lambda>s'. length (sf_out s') \<le> unat newLen) (sf_copy old newLen p n s)"
proof -
  have w: "unat (newLen - word_of_nat (length (sf_out s))) = unat newLen - length (sf_out s)"
    by (rule u64_sub_nat [OF assms(1)])
  show ?thesis
    unfolding sf_copy_def
    using assms(1) by (auto intro!: returns_if returns_bind [where P = "\<lambda>(dst, r). length dst \<le> unat newLen - length (sf_out s)"]
        simp: word_less_nat_alt w dest!: rle0_add_length)
qed

lemma sf_turn_returns:
  assumes "length (sf_out s) \<le> unat newLen" "unat newLen \<le> 2 ^ 31" "length (sf_body s) < 2 ^ 63"
  shows "returns (\<lambda>s'. length (sf_out s') \<le> unat newLen) (sf_turn old newLen s)"
  unfolding sf_turn_def
  using assms
  by (auto intro!: returns_if returns_bind [OF sf_gap_returns] returns_bind [OF sf_copy_returns] simp: Let_def
      split: sum.split prod.split)

lemma sf_step_returns:
  "length (sf_out s) \<le> unat newLen \<Longrightarrow> unat newLen \<le> 2 ^ 31 \<Longrightarrow> length (sf_body s) < 2 ^ 63 \<Longrightarrow>
   returns (\<lambda>s'. length (sf_out s') \<le> unat newLen) (sf_step old newLen s)"
proof (induction old newLen s rule: sf_step.induct)
  case (1 old newLen s)
  show ?case
  proof (cases "sf_covers s = []")
    case False
    have "returns (\<lambda>s'. length (sf_out s') \<le> unat newLen) (bindE (sf_turn old newLen s) (sf_step old newLen))"
      by (rule returns_bind [OF sf_turn_returns [OF "1.prems"]])
        (use "1.IH" [OF False] "1.prems" in \<open>fastforce dest: sf_turn_fields\<close>)
    then show ?thesis using False by (subst sf_step.simps) simp
  qed (use "1.prems" in \<open>simp add: sf_step.simps\<close>)
qed

lemma sf_open_out: "sf_open head s = Inr s' \<Longrightarrow> sf_out s' = sf_out s"
  by (auto simp: sf_open_def res_simps split: if_splits prod.splits)

lemma sf_steps_returns:
  "length (sf_out s) \<le> unat (sf_newSize head) \<Longrightarrow> unat (sf_newSize head) \<le> 2 ^ 31 \<Longrightarrow> length (sf_body s) < 2 ^ 63 \<Longrightarrow>
   returns (\<lambda>s'. length (sf_out s') \<le> unat (sf_newSize head)) (sf_steps old head s)"
proof (induction old head s rule: sf_steps.induct)
  case (1 old head s)
  show ?case
  proof (cases "sf_left s = 0")
    case False
    show ?thesis
    proof (cases "sf_open head s")
      case (Inl e)
      then show ?thesis using False by (subst sf_steps.simps) simp
    next
      case (Inr s1)
      have b: "length (sf_out s1) \<le> unat (sf_newSize head)" "length (sf_body s1) < 2 ^ 63"
        using sf_open_out [OF Inr] sf_open_body [OF Inr] "1.prems" by simp_all
      have "returns (\<lambda>s'. length (sf_out s') \<le> unat (sf_newSize head))
          (bindE (sf_step old (sf_newSize head) s1) (sf_steps old head))"
        by (rule returns_bind [OF sf_step_returns [OF b(1) "1.prems"(2) b(2)]])
          (use "1.IH" [OF False Inr] "1.prems" b in \<open>fastforce dest: sf_step_body\<close>)
      then show ?thesis using False Inr by (subst sf_steps.simps) simp
    qed
  qed (use "1.prems" in \<open>simp add: sf_steps.simps\<close>)
qed

text \<open>
  Applying an HDIFFSF20 stream never panics, whatever its steps and covers ask for (slices in
  Go have fewer than 2 to the 63 bytes), and a result has the announced size, at most 2 GiB.
\<close>

theorem sf20_safe:
  assumes "length diff < 2 ^ 63"
  shows "case applySF20 old diff of
     Inl e \<Rightarrow> e = Error SF20Corrupt
   | Inr out \<Rightarrow> \<exists>head rest. readSF20 diff = Inr (head, rest) \<and> length out = unat (sf_newSize head) \<and> length out \<le> 2 ^ 31"
proof -
  have limited: "readLimited e k b = Inr (x, b') \<Longrightarrow> length b' \<le> length b" for e k b x b'
    by (induction e k b arbitrary: x b' rule: readLimited.induct) (fastforce simp: res_simps split: if_splits)+
  have "readN sf_field k b = Inr (x, b') \<Longrightarrow> length b' \<le> length b" for k b x b'
    by (induction k arbitrary: b x b') (fastforce simp: res_simps sf_field_def dest: unpackUInt_length split: sum.splits)+
  note head = limited this
  have "returns (\<lambda>out. \<exists>head rest. readSF20 diff = Inr (head, rest) \<and> length out = unat (sf_newSize head) \<and> length out \<le> 2 ^ 31)
    (applySF20Bytes old diff)"
  proof (cases "readSF20 diff")
    case (Inr r)
    obtain head rest where r: "readSF20 diff = Inr (head, rest)" using Inr by (cases r) simp
    have "length rest \<le> length diff" using r
      unfolding readSF20_def by (auto simp: res_simps split: if_splits dest!: head)
    moreover have "unat (sf_newSize head) \<le> 2 ^ 31" if "sf_checks old head rest"
      using that by (simp add: sf_checks_def word_less_nat_alt)
    ultimately show ?thesis using assms
      unfolding applySF20Bytes_def r
      by (auto intro!: returns_if returns_bind [OF sf_steps_returns])
  qed (simp add: applySF20Bytes_def)
  then show ?thesis
    by (auto simp: applySF20_def returns_def split: sum.splits fault.splits)
qed

lemma sf20_safe_witness:
  "case applySF20 [10, 20] (str ''HDIFFSF20'') of
     Inl e \<Rightarrow> e = Error SF20Corrupt
   | Inr out \<Rightarrow> \<exists>head rest. readSF20 (str ''HDIFFSF20'') = Inr (head, rest) \<and> length out = unat (sf_newSize head) \<and> length out \<le> 2 ^ 31"
  by (rule sf20_safe) (simp add: str_def)

section \<open>The integers are those of HDIFF13\<close>

lemma uint_loop_unpack: "unpack_loop v b = Inr r \<Longrightarrow> uint_loop v b = Inr r"
  by (induction v b rule: unpack_loop.induct) (auto simp: Let_def split: if_splits)

lemma sf_unpackTag_unpack: "unpackTag tg b = Inr r \<Longrightarrow> sf_unpackTag tg b = Inr r"
  by (auto simp: unpackTag_def sf_unpackTag_def Let_def uint_loop_unpack split: list.splits if_splits)

lemma unpackUInt_tag: "unpackUInt b = sf_unpackTag 0 b"
proof -
  have m: "(push_bit 7 1 - 1 :: u64) = mask 7" by (simp add: mask_eq_exp_minus_1 push_bit_eq_mult)
  have b: "(127 :: byte) = mask 7" "(push_bit 7 1 :: byte) = 128" by (simp_all add: mask_eq_exp_minus_1 push_bit_eq_mult)
  have "(ucast (c AND 127) :: u64) = ucast c AND mask 7" for c :: byte
    unfolding b by (rule bit_word_eqI) (auto simp: bit_simps)
  then show ?thesis by (cases b) (simp_all add: unpackUInt_def sf_unpackTag_def Let_def m b(2) del: push_bit_of_1)
qed

lemma unpackUInt_pack [simp]: "v < 2 ^ 64 \<Longrightarrow> unpackUInt (packTag 0 0 v @ c) = Inr (word_of_nat v, c)"
  unfolding unpackUInt_tag by (rule sf_unpackTag_unpack) (rule unpackTag_pack, simp_all)

section \<open>The stream and what it means\<close>

text \<open>The difference of a step: zeros and raw bytes by turns.\<close>

type_synonym pairs = "(nat \<times> bytes) list"

definition pairs_bytes :: "pairs \<Rightarrow> bytes" where
  "pairs_bytes ps = concat (map (\<lambda>(z, raw). replicate z 0 @ raw) ps)"

definition enc_pairs :: "pairs \<Rightarrow> bytes" where
  "enc_pairs ps = concat (map (\<lambda>(z, raw). packTag 0 0 z @ packTag 0 0 (length raw) @ raw) ps)"

definition pairs_ok :: "pairs \<Rightarrow> bool" where
  "pairs_ok ps \<longleftrightarrow> list_all (\<lambda>(z, raw). z < 2 ^ 64 \<and> length raw < 2 ^ 64) ps"

text \<open>The decoder stands before \<open>dif\<close>: between pairs, in the zeros of one, or in its raw bytes.\<close>

definition rle0_at :: "bytes \<Rightarrow> rle0 \<Rightarrow> bool" where
  "rle0_at dif r \<longleftrightarrow> (\<exists>ps. pairs_ok ps \<and>
     (need0 r \<and> len0 r = 0 \<and> (\<exists>raw. unat (lenv r) = length raw \<and> r_code r = raw @ enc_pairs ps \<and> dif = raw @ pairs_bytes ps)
      \<or> \<not> need0 r \<and> lenv r = 0 \<and> (\<exists>raw. length raw < 2 ^ 64 \<and> r_code r = packTag 0 0 (length raw) @ raw @ enc_pairs ps
          \<and> dif = replicate (unat (len0 r)) 0 @ raw @ pairs_bytes ps)))"

lemma rle0_at_raw:
  "pairs_ok ps \<Longrightarrow> need0 r \<Longrightarrow> len0 r = 0 \<Longrightarrow> unat (lenv r) = length raw \<Longrightarrow> r_code r = raw @ enc_pairs ps \<Longrightarrow>
   dif = raw @ pairs_bytes ps \<Longrightarrow> rle0_at dif r"
  by (auto simp: rle0_at_def)

lemma rle0_reset_at: "pairs_ok ps \<Longrightarrow> rle0_at (pairs_bytes ps) (rle0_reset (enc_pairs ps))"
  by (auto simp: rle0_at_def rle0_reset_def)

lemma rle0_next_at:
  assumes "rle0_at dif r" "len0 r = 0" "lenv r = 0" "dif \<noteq> []"
  shows "\<exists>r'. rle0_next r = Inr r' \<and> rle0_at dif r'"
proof (cases "need0 r")
  case True
  then obtain ps where ps: "pairs_ok ps" "r_code r = enc_pairs ps" "dif = pairs_bytes ps"
    using assms(1,3) by (auto simp: rle0_at_def)
  obtain z raw ps' where c: "ps = (z, raw) # ps'" using assms(4) ps(3) by (cases ps) (auto simp: pairs_bytes_def)
  have ok: "z < 2 ^ 64" "length raw < 2 ^ 64" "pairs_ok ps'" using ps(1) by (simp_all add: c pairs_ok_def)
  have e: "r_code r = packTag 0 0 z @ packTag 0 0 (length raw) @ raw @ enc_pairs ps'"
    "dif = replicate z 0 @ raw @ pairs_bytes ps'"
    using ps by (simp_all add: c enc_pairs_def pairs_bytes_def)
  show ?thesis
    using True ok assms(3) by (auto simp: rle0_next_def e(1) rle0_at_def u64_small e(2))
next
  case False
  then obtain ps raw where ps: "pairs_ok ps" "length raw < 2 ^ 64" "r_code r = packTag 0 0 (length raw) @ raw @ enc_pairs ps"
    "dif = raw @ pairs_bytes ps"
    using assms(1,2) by (auto simp: rle0_at_def)
  then show ?thesis using False assms(2) by (auto simp: rle0_next_def rle0_at_def u64_small)
qed

lemma rle0_add_at:
  "rle0_at dif r \<Longrightarrow> length dst \<le> length dif \<Longrightarrow>
   \<exists>r'. rle0_add dst r acc = Inr (acc @ map2 (+) dst (take (length dst) dif), r') \<and> rle0_at (drop (length dst) dif) r'"
proof (induction dst r acc arbitrary: dif rule: rle0_add.induct)
  case (1 dst r acc)
  consider "dst = []" | "dst \<noteq> []" "len0 r > 0" | "dst \<noteq> []" "\<not> len0 r > 0" "lenv r > 0"
    | "dst \<noteq> []" "\<not> len0 r > 0" "\<not> lenv r > 0" by blast
  then show ?case
  proof cases
    case 1
    then show ?thesis using "1.prems" by (simp add: rle0_add_done)
  next
    case 2
    obtain n where n: "n = min (unat (len0 r)) (length dst)" "n \<le> unat (len0 r)" "n \<le> length dst" by simp
    have "len0 r \<noteq> 0" using 2(2) by auto
    then obtain ps raw where ps: "pairs_ok ps" "\<not> need0 r" "lenv r = 0" "length raw < 2 ^ 64"
      "r_code r = packTag 0 0 (length raw) @ raw @ enc_pairs ps" "dif = replicate (unat (len0 r)) 0 @ raw @ pairs_bytes ps"
      using "1.prems"(1) by (auto simp: rle0_at_def)
    have "drop n dif = replicate (unat (len0 r) - n) 0 @ raw @ pairs_bytes ps" using n(2) by (simp add: ps(6))
    then have at: "rle0_at (drop n dif) (r\<lparr>len0 := len0 r - word_of_nat n\<rparr>)"
      using ps u64_sub_nat [OF n(2)] by (auto simp: rle0_at_def)
    have z: "take n dst = map2 (+) (take n dst) (take n dif)"
      using map2_plus_replicate [of "take n dst" 0] n by (simp add: ps(6) min_absorb1)
    have "map2 (+) dst (take (length dst) dif) = map2 (+) (take n dst) (take n dif)
        @ map2 (+) (drop n dst) (take (length (drop n dst)) (drop n dif))"
      using map2_take_split [of dst "take (length dst) dif" "(+)" n] "1.prems"(2) n(3) by (simp add: drop_take min_absorb1)
    moreover have "\<exists>r'. rle0_add (drop n dst) (r\<lparr>len0 := len0 r - word_of_nat n\<rparr>) (acc @ take n dst)
        = Inr ((acc @ take n dst) @ map2 (+) (drop n dst) (take (length (drop n dst)) (drop n dif)), r')
      \<and> rle0_at (drop (length (drop n dst)) (drop n dif)) r'"
      by (rule "1.IH"(1) [OF 2 n(1) at]) (use "1.prems"(2) in simp)
    ultimately show ?thesis using n(3) z unfolding rle0_add_zeros [OF 2 n(1)] by (simp add: ac_simps)
  next
    case 3
    obtain n where n: "n = min (unat (lenv r)) (length dst)" "n \<le> unat (lenv r)" "n \<le> length dst" by simp
    have "lenv r \<noteq> 0" using 3(3) by auto
    then obtain ps raw where ps: "pairs_ok ps" "need0 r" "len0 r = 0" "unat (lenv r) = length raw"
      "r_code r = raw @ enc_pairs ps" "dif = raw @ pairs_bytes ps"
      using "1.prems"(1) by (auto simp: rle0_at_def)
    have l: "\<not> length (r_code r) < n" "take n (r_code r) = take n dif" using n(2) by (simp_all add: ps)
    have at: "rle0_at (drop n dif) (r\<lparr>r_code := drop n (r_code r), lenv := lenv r - word_of_nat n\<rparr>)"
      by (rule rle0_at_raw [where ps = ps and raw = "drop n raw"]) (use ps u64_sub_nat [OF n(2)] n(2) in simp_all)
    have "map2 (+) dst (take (length dst) dif) = map2 (+) (take n dst) (take n dif)
        @ map2 (+) (drop n dst) (take (length (drop n dst)) (drop n dif))"
      using map2_take_split [of dst "take (length dst) dif" "(+)" n] "1.prems"(2) n(3) by (simp add: drop_take min_absorb1)
    moreover have "\<exists>r'. rle0_add (drop n dst) (r\<lparr>r_code := drop n (r_code r), lenv := lenv r - word_of_nat n\<rparr>)
          (acc @ map2 (+) (take n dst) (take n (r_code r)))
        = Inr ((acc @ map2 (+) (take n dst) (take n (r_code r))) @ map2 (+) (drop n dst) (take (length (drop n dst)) (drop n dif)), r')
      \<and> rle0_at (drop (length (drop n dst)) (drop n dif)) r'"
      by (rule "1.IH"(2) [OF 3 n(1) l(1) at]) (use "1.prems"(2) in simp)
    ultimately show ?thesis using n(3) l unfolding rle0_add_raw [OF 3 n(1)] by (simp add: ac_simps)
  next
    case 4
    have z: "len0 r = 0" "lenv r = 0" using 4(2,3) by (auto simp: word_greater_zero_iff)
    have "dif \<noteq> []" using 4(1) "1.prems"(2) by (cases dif) auto
    then obtain r' where r: "rle0_next r = Inr r'" "rle0_at dif r'" using rle0_next_at [OF "1.prems"(1) z] by blast
    then show ?thesis using "1.IH"(3) [OF 4 r(1,2) "1.prems"(2)] by (simp add: rle0_add_next [OF 4])
  qed
qed

lemma sf_cover_read: "read_cover c = Inr r \<Longrightarrow> sf_cover c = Inr r"
proof -
  assume r: "read_cover c = Inr r"
  obtain b bs where c: "c = b # bs" using r by (cases c) (simp_all add: read_cover_def)
  obtain x1 r1 x2 r2 x3 r3 where u: "unpackTag 1 c = Inr (x1, r1)" "unpackTag 0 r1 = Inr (x2, r2)" "unpackTag 0 r2 = Inr (x3, r3)"
    "r = ((drop_bit 7 b, x1, x2, x3), r3)"
    using r by (auto simp: c read_cover_def res_simps)
  have "sf_unpackTag 1 c = Inr (x1, r1)" "unpackUInt r1 = Inr (x2, r2)" "unpackUInt r2 = Inr (x3, r3)"
    unfolding unpackUInt_tag by (rule sf_unpackTag_unpack, rule u)+
  then show ?thesis by (simp add: sf_cover_def c u(4))
qed

lemma sf_oldPos_old_pos: "old_pos sg bk inc = Inr r \<Longrightarrow> sf_oldPos sg bk inc = Inr r"
  by (auto simp: old_pos_def sf_oldPos_def addOverflow_def split: if_splits)

text \<open>Covers of one step, as they are in the target; the difference runs over the covers only.\<close>

fun step_target :: "bytes \<Rightarrow> bytes \<Rightarrow> cov list \<Rightarrow> bytes" where
  "step_target old dif [] = []"
| "step_target old dif ((g, p, n) # cs) =
     g @ map2 (+) (take n (drop p old)) (take n dif) @ step_target old (drop n dif) cs"

definition cov_need :: "cov list \<Rightarrow> nat" where
  "cov_need cs = sum_list (map (\<lambda>(g, p, n). n) cs)"

text \<open>Only the very last cover may be empty; \<open>m\<close> covers follow the step.\<close>

fun last_empty :: "nat \<Rightarrow> cov list \<Rightarrow> bool" where
  "last_empty m [] \<longleftrightarrow> True"
| "last_empty m ((g, p, n) # cs) \<longleftrightarrow> (n = 0 \<longrightarrow> cs = [] \<and> m = 0) \<and> last_empty m cs"

fun last_end :: "nat \<Rightarrow> cov list \<Rightarrow> nat" where
  "last_end bk [] = bk"
| "last_end bk ((g, p, n) # cs) = last_end (p + n) cs"

lemma sf_turn_enc:
  assumes "rle0_at dif (sf_rle s)" "sf_covers s = enc_covers bk ((g, p, n) # cs)" "sf_body s = g @ body"
    and "sf_left s = word_of_nat (Suc k)" "lastOld s = word_of_nat bk" "lastNew s = word_of_nat (length (sf_out s))"
    and "n \<le> length dif" "length (sf_out s) + length g + n \<le> unat newLen" "unat newLen \<le> 2 ^ 31"
    and "p + n \<le> length old" "length old \<le> 2 ^ 31" "bk \<le> 2 ^ 31" "n = 0 \<longrightarrow> k = 0" "k \<le> 2 ^ 31"
  shows "\<exists>r. sf_turn old newLen s = Inr \<lparr>sf_out = sf_out s @ g @ map2 (+) (take n (drop p old)) (take n dif),
      sf_body = body, sf_covers = enc_covers (p + n) cs, sf_rle = r, sf_left = word_of_nat k,
      lastOld = word_of_nat (p + n), lastNew = word_of_nat (length (sf_out s) + length g + n)\<rparr>
    \<and> rle0_at (drop n dif) r"
proof -
  let ?w = "length (sf_out s)" and ?g = "length g"
  have b: "p \<le> 2 ^ 40" "bk \<le> 2 ^ 40" "?g \<le> 2 ^ 40" "n \<le> 2 ^ 40" "?w \<le> 2 ^ 40" "?w + ?g \<le> 2 ^ 40" "p + n \<le> 2 ^ 40"
    "?w + ?g + n \<le> 2 ^ 40" "Suc k \<le> 2 ^ 40"
    using assms by simp_all
  note sw = small_word [OF b(1)] small_word [OF b(3)] small_word [OF b(4)] small_word [OF b(5)] small_word [OF b(6)]
    small_word [OF b(7)] small_word [OF b(8)] small_word [OF b(9)]
  have cv: "toSF20 (sf_cover (sf_covers s)) = Inr ((if bk \<le> p then 0 else 1,
    word_of_nat (if bk \<le> p then p - bk else bk - p), word_of_nat ?g, word_of_nat n), enc_covers (p + n) cs)"
    unfolding assms(2) toSF20_eq_Inr by (rule sf_cover_read [OF read_cover_enc [OF b(1-4)]])
  have op: "sf_oldPos (if bk \<le> p then 0 else 1) (lastOld s) (word_of_nat (if bk \<le> p then p - bk else bk - p)) = Inr (word_of_nat p)"
    unfolding assms(5) by (rule sf_oldPos_old_pos [OF old_pos_enc [OF b(1,2)]])
  have no: "\<not> NOT 0 - (word_of_nat ?g :: u64) < word_of_nat ?w"
    using not_addOverflow [of "word_of_nat ?w" "word_of_nat ?g"] b unfolding addOverflow_def sw by simp
  have left: "sf_left s \<noteq> 0" "sf_left s - 1 = word_of_nat k"
    using sw(8) unfolding assms(4) by (metis unat_0 nat.distinct(1)) simp
  have sum: "word_of_nat ?w + word_of_nat ?g = (word_of_nat (?w + ?g) :: u64)"
    "word_of_nat p + word_of_nat n = (word_of_nat (p + n) :: u64)"
    "word_of_nat (?w + ?g) + word_of_nat n = (word_of_nat (?w + ?g + n) :: u64)" by simp_all
  have lt: "\<not> word_of_nat (?w + ?g) < (word_of_nat ?w :: u64)" "\<not> word_of_nat (p + n) < (word_of_nat p :: u64)"
    "\<not> word_of_nat (?w + ?g + n) < (word_of_nat (?w + ?g) :: u64)"
    unfolding word_less_nat_alt sw by simp_all
  have gw: "word_of_nat (?w + ?g) - word_of_nat ?w = (word_of_nat ?g :: u64)" by simp
  let ?s = "s\<lparr>sf_covers := enc_covers (p + n) cs, sf_left := word_of_nat k\<rparr>"
  have "\<not> (2 * 2 ^ 30 - (word_of_nat ?g :: u64) < word_of_nat ?w)"
  proof -
    have "unat (2 * 2 ^ 30 - (word_of_nat ?g :: u64)) = 2 ^ 31 - ?g"
      using assms(8,9) sw(2) by (subst unat_sub) (simp_all add: word_le_nat_alt)
    then show ?thesis using assms(8,9) unfolding word_less_nat_alt sw by simp
  qed
  moreover have "\<not> newLen < word_of_nat (?w + ?g)" unfolding word_less_nat_alt sw using assms(8) by simp
  ultimately have gap: "sf_gap newLen (word_of_nat ?g) ?s = Inr (?s\<lparr>sf_out := sf_out s @ g, sf_body := body\<rparr>)"
    unfolding sf_gap_def Let_def using assms(3,8) by (simp add: sw sum(1) del: of_nat_add)
  let ?s1 = "?s\<lparr>sf_out := sf_out s @ g, sf_body := body\<rparr>"
  have "length (take n (drop p old)) = n" using assms(10) by simp
  note add = rle0_add_at [OF assms(1), of "take n (drop p old)" "[]", unfolded this, OF assms(7)]
  obtain r where r: "rle0_add (take n (drop p old)) (sf_rle s) [] = Inr ([] @ map2 (+) (take n (drop p old)) (take n dif), r)"
    "rle0_at (drop n dif) r"
    using add by blast
  have nz: "(word_of_nat n = (0 :: u64)) = (n = 0)"
  proof
    assume "word_of_nat n = (0 :: u64)"
    then have "unat (0 :: u64) = n" using sw(3) by (simp only:)
    then show "n = 0" by simp
  qed simp
  have cp: "\<exists>r'. sf_copy old newLen (word_of_nat p) (word_of_nat n) ?s1
      = Inr (?s1\<lparr>sf_out := sf_out ?s1 @ map2 (+) (take n (drop p old)) (take n dif), sf_rle := r'\<rparr>) \<and> rle0_at (drop n dif) r'"
  proof (cases "n = 0")
    case True
    then show ?thesis using assms(1,13) by (auto simp: sf_copy_def intro!: exI [of _ "sf_rle s"])
  next
    case False
    have "unat (newLen - word_of_nat (?w + ?g)) = unat newLen - (?w + ?g)" by (rule u64_sub_nat) (use assms(8) in simp)
    then have "\<not> newLen - word_of_nat (?w + ?g) < word_of_nat n" unfolding word_less_nat_alt sw using assms(8) by simp
    moreover have "\<not> length old - p < n" using assms(10) by simp
    ultimately show ?thesis using False r assms(8,10)
      by (intro exI [of _ r]) (simp add: sf_copy_def nz sw faulty_def del: of_nat_add)
  qed
  then obtain r' where r': "sf_copy old newLen (word_of_nat p) (word_of_nat n) ?s1
      = Inr (?s1\<lparr>sf_out := sf_out ?s1 @ map2 (+) (take n (drop p old)) (take n dif), sf_rle := r'\<rparr>)" "rle0_at (drop n dif) r'" by blast
  have "sf_turn old newLen s = Inr (?s1\<lparr>sf_out := sf_out ?s1 @ map2 (+) (take n (drop p old)) (take n dif), sf_rle := r',
      lastOld := word_of_nat (p + n), lastNew := word_of_nat (?w + ?g + n)\<rparr>)"
    unfolding sf_turn_def if_not_P [OF left(1)] cv sum.case prod.case op assms(6) if_not_P [OF no] Let_def sum(1) if_not_P [OF lt(1)]
      left(2) gw gap bindE.simps r'(1) sum(2,3)
    using lt(2,3) by (simp del: of_nat_add)
  then show ?thesis using r'(2) by (intro exI [of _ r']) simp
qed

lemma step_target_length:
  "covs_ok old cs \<Longrightarrow> cov_need cs \<le> length dif \<Longrightarrow> length (step_target old dif cs) = cov_size cs"
  by (induction old dif cs rule: step_target.induct) (auto simp: covs_ok_def cov_size_def cov_need_def)

lemma sf_step_enc:
  assumes "unat newLen \<le> 2 ^ 31" "length old \<le> 2 ^ 31"
  shows "rle0_at dif (sf_rle s) \<Longrightarrow> sf_covers s = enc_covers bk cs \<Longrightarrow> sf_body s = concat (map fst cs) @ body \<Longrightarrow>
    sf_left s = word_of_nat (length cs + m) \<Longrightarrow> lastOld s = word_of_nat bk \<Longrightarrow>
    lastNew s = word_of_nat (length (sf_out s)) \<Longrightarrow> cov_need cs \<le> length dif \<Longrightarrow>
    length (sf_out s) + cov_size cs \<le> unat newLen \<Longrightarrow> covs_ok old cs \<Longrightarrow> bk \<le> 2 ^ 31 \<Longrightarrow> last_empty m cs \<Longrightarrow>
    length cs + m \<le> 2 ^ 31 \<Longrightarrow>
    \<exists>s'. sf_step old newLen s = Inr s' \<and> sf_out s' = sf_out s @ step_target old dif cs \<and> sf_body s' = body
      \<and> sf_left s' = word_of_nat m \<and> lastOld s' = word_of_nat (last_end bk cs)
      \<and> lastNew s' = word_of_nat (length (sf_out s'))"
proof (induction cs arbitrary: s dif bk)
  case Nil
  then show ?case by (subst sf_step.simps) simp
next
  case (Cons c cs)
  obtain g p n where c: "c = (g, p, n)" by (cases c)
  have z: "cov_size (c # cs) = length g + n + cov_size cs" "cov_need (c # cs) = n + cov_need cs"
    by (simp_all add: cov_size_def cov_need_def c)
  have b: "sf_body s = g @ concat (map fst cs) @ body" "sf_left s = word_of_nat (Suc (length cs + m))" "n \<le> length dif"
    "length (sf_out s) + length g + n \<le> unat newLen" "p + n \<le> length old" "n = 0 \<longrightarrow> length cs + m = 0" "length cs + m \<le> 2 ^ 31"
    "covs_ok old cs" "p + n \<le> 2 ^ 31" "last_empty m cs"
    using Cons.prems(3,4,7-9,11,12) assms(2) z by (auto simp: c covs_ok_def)
  obtain r where 1: "sf_turn old newLen s = Inr \<lparr>sf_out = sf_out s @ g @ map2 (+) (take n (drop p old)) (take n dif),
      sf_body = concat (map fst cs) @ body, sf_covers = enc_covers (p + n) cs, sf_rle = r, sf_left = word_of_nat (length cs + m),
      lastOld = word_of_nat (p + n), lastNew = word_of_nat (length (sf_out s) + length g + n)\<rparr>" (is "_ = Inr ?s1")
    "rle0_at (drop n dif) r"
    using sf_turn_enc [OF Cons.prems(1) Cons.prems(2) [unfolded c] b(1,2) Cons.prems(5,6) b(3,4) assms(1) b(5) assms(2) Cons.prems(10) b(6,7)]
    by blast
  have o1: "length (sf_out ?s1) = length (sf_out s) + length g + n" using b(3,5) by simp
  have "\<exists>s'. sf_step old newLen ?s1 = Inr s' \<and> sf_out s' = sf_out ?s1 @ step_target old (drop n dif) cs \<and> sf_body s' = body
      \<and> sf_left s' = word_of_nat m \<and> lastOld s' = word_of_nat (last_end (p + n) cs)
      \<and> lastNew s' = word_of_nat (length (sf_out s'))"
  proof (rule Cons.IH)
    show "rle0_at (drop n dif) (sf_rle ?s1)" using 1(2) by simp
    show "lastNew ?s1 = word_of_nat (length (sf_out ?s1))" unfolding o1 by simp
    show "cov_need cs \<le> length (drop n dif)" using Cons.prems(7) z by simp
    show "length (sf_out ?s1) + cov_size cs \<le> unat newLen" unfolding o1 using Cons.prems(8) z by simp
  qed (use b in simp_all)
  moreover have "sf_covers s \<noteq> []" using Cons.prems(2) enc_covers_length [of "c # cs" bk] by auto
  ultimately show ?case by (subst sf_step.simps) (simp add: 1(1) c)
qed

text \<open>Steps, each with its covers and its difference.\<close>

type_synonym step = "cov list \<times> pairs"

definition enc_step :: "nat \<Rightarrow> step \<Rightarrow> bytes" where
  "enc_step bk st =
     (case st of (cs, ps) \<Rightarrow>
       packTag 0 0 (length (enc_covers bk cs)) @ packTag 0 0 (length (enc_pairs ps))
       @ enc_covers bk cs @ enc_pairs ps @ concat (map fst cs))"

fun enc_steps :: "nat \<Rightarrow> step list \<Rightarrow> bytes" where
  "enc_steps bk [] = []"
| "enc_steps bk (st # sts) = enc_step bk st @ enc_steps (last_end bk (fst st)) sts"

definition sf_target :: "bytes \<Rightarrow> step list \<Rightarrow> bytes" where
  "sf_target old sts = concat (map (\<lambda>(cs, ps). step_target old (pairs_bytes ps) cs) sts)"

definition n_covers :: "step list \<Rightarrow> nat" where
  "n_covers sts = sum_list (map (\<lambda>(cs, ps). length cs) sts)"

fun steps_ok :: "bytes \<Rightarrow> nat \<Rightarrow> nat \<Rightarrow> step list \<Rightarrow> bool" where
  "steps_ok old mem bk [] \<longleftrightarrow> True"
| "steps_ok old mem bk ((cs, ps) # sts) \<longleftrightarrow>
     cs \<noteq> [] \<and> covs_ok old cs \<and> pairs_ok ps \<and> cov_need cs \<le> length (pairs_bytes ps)
     \<and> length (enc_covers bk cs) + length (enc_pairs ps) \<le> mem \<and> last_empty (n_covers sts) cs
     \<and> steps_ok old mem (last_end bk cs) sts"

lemma last_end_bound: "covs_ok old cs \<Longrightarrow> bk \<le> 2 ^ 31 \<Longrightarrow> length old \<le> 2 ^ 31 \<Longrightarrow> last_end bk cs \<le> 2 ^ 31"
  by (induction bk cs rule: last_end.induct) (auto simp: covs_ok_def)

lemma sf_open_enc:
  assumes "sf_body s = enc_step bk (cs, ps) @ rest" "cs \<noteq> []"
    and "length (enc_covers bk cs) + length (enc_pairs ps) \<le> unat (stepMemSize head)" "unat (stepMemSize head) \<le> 2 ^ 40"
  shows "sf_open head s = Inr (s\<lparr>sf_covers := enc_covers bk cs, sf_rle := rle0_reset (enc_pairs ps),
      sf_body := concat (map fst cs) @ rest\<rparr>)"
proof -
  let ?c = "length (enc_covers bk cs)" and ?r = "length (enc_pairs ps)"
  have l: "?c \<le> 2 ^ 40" "?r \<le> 2 ^ 40" "?c + ?r \<le> 2 ^ 40" "?c < 2 ^ 64" "?r < 2 ^ 64" using assms(3,4) by simp_all
  note sw = small_word [OF l(1)] small_word [OF l(2)] small_word [OF l(3)]
  have s: "word_of_nat ?c + word_of_nat ?r = (word_of_nat (?c + ?r) :: u64)" by simp
  have "0 < ?c" using enc_covers_length [of cs bk] assms(2) by (cases cs) auto
  then have nz: "word_of_nat ?c \<noteq> (0 :: u64)" using sw(1) by (metis unat_0 less_irrefl)
  have m: "\<not> (stepMemSize head < word_of_nat ?c \<or> stepMemSize head < word_of_nat ?r \<or> stepMemSize head < word_of_nat (?c + ?r))"
    unfolding word_less_nat_alt sw using assms(3) by simp
  have "unpackUInt (sf_body s) = Inr (word_of_nat ?c, packTag 0 0 ?r @ enc_covers bk cs @ enc_pairs ps @ concat (map fst cs) @ rest)"
    unfolding assms(1) enc_step_def prod.case append_assoc by (rule unpackUInt_pack [OF l(4)])
  moreover have "unpackUInt (packTag 0 0 ?r @ enc_covers bk cs @ enc_pairs ps @ concat (map fst cs) @ rest)
      = Inr (word_of_nat ?r, enc_covers bk cs @ enc_pairs ps @ concat (map fst cs) @ rest)"
    by (rule unpackUInt_pack [OF l(5)])
  ultimately show ?thesis
    unfolding sf_open_def toSF20_def using m nz by (simp add: s sw del: of_nat_add)
qed

lemma sf_steps_enc:
  assumes "unat (sf_newSize head) \<le> 2 ^ 31" "length old \<le> 2 ^ 31" "unat (stepMemSize head) \<le> 2 ^ 40"
  shows "steps_ok old (unat (stepMemSize head)) bk sts \<Longrightarrow> sf_body s = enc_steps bk sts \<Longrightarrow>
    sf_left s = word_of_nat (n_covers sts) \<Longrightarrow> lastOld s = word_of_nat bk \<Longrightarrow>
    lastNew s = word_of_nat (length (sf_out s)) \<Longrightarrow> length (sf_out s) + length (sf_target old sts) \<le> unat (sf_newSize head) \<Longrightarrow>
    bk \<le> 2 ^ 31 \<Longrightarrow> n_covers sts \<le> 2 ^ 31 \<Longrightarrow>
    \<exists>s'. sf_steps old head s = Inr s' \<and> sf_out s' = sf_out s @ sf_target old sts \<and> sf_body s' = []"
proof (induction sts arbitrary: s bk)
  case Nil
  then show ?case by (subst sf_steps.simps) (simp add: n_covers_def sf_target_def)
next
  case (Cons st sts)
  obtain cs ps where st: "st = (cs, ps)" by fastforce
  have ok: "cs \<noteq> []" "covs_ok old cs" "pairs_ok ps" "cov_need cs \<le> length (pairs_bytes ps)"
    "length (enc_covers bk cs) + length (enc_pairs ps) \<le> unat (stepMemSize head)" "last_empty (n_covers sts) cs"
    "steps_ok old (unat (stepMemSize head)) (last_end bk cs) sts"
    using Cons.prems(1) by (simp_all add: st)
  have t: "sf_target old (st # sts) = step_target old (pairs_bytes ps) cs @ sf_target old sts"
    "n_covers (st # sts) = length cs + n_covers sts" by (simp_all add: sf_target_def n_covers_def st)
  have tl: "length (step_target old (pairs_bytes ps) cs) = cov_size cs" by (rule step_target_length [OF ok(2,4)])
  have body: "sf_body s = enc_step bk (cs, ps) @ enc_steps (last_end bk cs) sts" using Cons.prems(2) by (simp add: st)
  let ?s1 = "s\<lparr>sf_covers := enc_covers bk cs, sf_rle := rle0_reset (enc_pairs ps),
      sf_body := concat (map fst cs) @ enc_steps (last_end bk cs) sts\<rparr>"
  have o: "sf_open head s = Inr ?s1" by (rule sf_open_enc [OF body ok(1,5) assms(3)])
  have "\<exists>s'. sf_step old (sf_newSize head) ?s1 = Inr s' \<and> sf_out s' = sf_out ?s1 @ step_target old (pairs_bytes ps) cs
      \<and> sf_body s' = enc_steps (last_end bk cs) sts
      \<and> sf_left s' = word_of_nat (n_covers sts) \<and> lastOld s' = word_of_nat (last_end bk cs)
      \<and> lastNew s' = word_of_nat (length (sf_out s'))"
    by (rule sf_step_enc [OF assms(1,2)])
      (use Cons.prems ok t tl rle0_reset_at [OF ok(3)] in simp_all)
  then obtain s2 where s2: "sf_step old (sf_newSize head) ?s1 = Inr s2" "sf_out s2 = sf_out s @ step_target old (pairs_bytes ps) cs"
    "sf_body s2 = enc_steps (last_end bk cs) sts" "sf_left s2 = word_of_nat (n_covers sts)"
    "lastOld s2 = word_of_nat (last_end bk cs)" "lastNew s2 = word_of_nat (length (sf_out s2))" by auto
  have "\<exists>s'. sf_steps old head s2 = Inr s' \<and> sf_out s' = sf_out s2 @ sf_target old sts \<and> sf_body s' = []"
    by (rule Cons.IH [OF ok(7) s2(3-6)])
      (use Cons.prems(6,7,8) t s2(2) last_end_bound [OF ok(2) Cons.prems(7) assms(2)] in simp_all)
  moreover have "sf_left s \<noteq> 0"
  proof -
    have "unat (sf_left s) = length cs + n_covers sts"
      unfolding Cons.prems(3) t(2) by (rule small_word) (use Cons.prems(8) t in simp)
    then show ?thesis using ok(1) by (cases cs) auto
  qed
  ultimately show ?case by (subst sf_steps.simps) (simp add: o s2(1,2) t)
qed

definition enc_sf20 :: "bytes \<Rightarrow> nat \<Rightarrow> step list \<Rightarrow> bytes" where
  "enc_sf20 old mem sts =
     str ''HDIFFSF20'' @ [0x26, 0] @ concat (map (packTag 0 0)
       [length (sf_target old sts), length old, n_covers sts, mem, length (enc_steps 0 sts), 0]) @ enc_steps 0 sts"

definition sf20_ok :: "bytes \<Rightarrow> nat \<Rightarrow> step list \<Rightarrow> bool" where
  "sf20_ok old mem sts \<longleftrightarrow>
     steps_ok old mem 0 sts \<and> length (sf_target old sts) \<le> 2 ^ 31 \<and> length old \<le> 2 ^ 31 \<and> n_covers sts \<le> 2 ^ 31
     \<and> mem \<le> max (16 * 2 ^ 20) (length (sf_target old sts)) \<and> mem \<le> length (enc_steps 0 sts)
     \<and> length (enc_steps 0 sts) \<le> 2 ^ 40"

lemma readN_packs:
  assumes "\<And>v c. v < 2 ^ 64 \<Longrightarrow> rd (packTag 0 0 v @ c) = Inr (word_of_nat v, c)"
  shows "list_all (\<lambda>v. v < 2 ^ 64) vs \<Longrightarrow>
    readN rd (length vs) (concat (map (packTag 0 0) vs) @ rest) = Inr (map word_of_nat vs, rest)"
  by (induction vs) (simp_all add: assms)

lemma sf_field_pack: "v < 2 ^ 64 \<Longrightarrow> sf_field (packTag 0 0 v @ c) = Inr (word_of_nat v, c)"
  by (simp add: sf_field_def)

lemma readLimited_str:
  "e \<notin> set s \<Longrightarrow> length s < k \<Longrightarrow> readLimited e k (s @ e # c) = Inr (s, c)"
proof (induction s arbitrary: k)
  case Nil
  then show ?case by (cases k) simp_all
next
  case (Cons x s)
  then show ?case by (cases k) auto
qed

lemma applySF20_enc:
  assumes "sf20_ok old mem sts"
  shows "applySF20 old (enc_sf20 old mem sts) = Inr (sf_target old sts)"
proof -
  let ?t = "length (sf_target old sts)" and ?b = "length (enc_steps 0 sts)"
  define vs where "vs = [?t, length old, n_covers sts, mem, ?b, 0]"
  have l: "?t \<le> 2 ^ 40" "length old \<le> 2 ^ 40" "n_covers sts \<le> 2 ^ 40" "mem \<le> 2 ^ 40" "?b \<le> 2 ^ 40"
    using assms by (simp_all add: sf20_ok_def)
  note sw = small_word [OF l(1)] small_word [OF l(2)] small_word [OF l(3)] small_word [OF l(4)] small_word [OF l(5)]
  have "list_all (\<lambda>v. v < 2 ^ 64) vs" unfolding vs_def using l by simp
  note rp = readN_packs [OF sf_field_pack this, of "enc_steps 0 sts"]
  have "length vs = 6" by (simp add: vs_def)
  with rp have fields: "readN sf_field 6 (concat (map (packTag 0 0) vs) @ enc_steps 0 sts) = Inr (map word_of_nat vs, enc_steps 0 sts)"
    by (simp only:)
  have name: "readLimited 0x26 260 (str ''HDIFFSF20'' @ 0x26 # c) = Inr (str ''HDIFFSF20'', c)" for c
    by (rule readLimited_str) (simp_all add: str_def)
  have comp: "readLimited 0 260 (0 # c) = Inr ([], c)" for c
    using readLimited_str [of 0 "[]" 260 c] by simp
  define head where "head = \<lparr>sf_newSize = word_of_nat ?t, sf_oldSize = word_of_nat (length old), sf_coverCount = word_of_nat (n_covers sts),
      stepMemSize = word_of_nat mem, uncompressed = word_of_nat ?b, compressed = 0\<rparr>"
  have enc: "enc_sf20 old mem sts = str ''HDIFFSF20'' @ 0x26 # 0 # concat (map (packTag 0 0) vs) @ enc_steps 0 sts"
    by (simp add: enc_sf20_def vs_def)
  have rd: "readSF20 (enc_sf20 old mem sts) = Inr (head, enc_steps 0 sts)"
    unfolding enc readSF20_def name bindE.simps prod.case comp fields by (simp add: head_def vs_def)
  have u: "unat (sf_newSize head) = ?t" "unat (sf_oldSize head) = length old" "unat (sf_coverCount head) = n_covers sts"
    "unat (stepMemSize head) = mem" "unat (uncompressed head) = ?b"
    unfolding head_def sf20Head.simps sw by simp_all
  have big: "unat (if sf_newSize head \<ge> 16 * 2 ^ 20 then sf_newSize head else 16 * 2 ^ 20) = max (16 * 2 ^ 20) ?t"
    using u(1) by (simp add: word_le_nat_alt max_def)
  have checks: "sf_checks old head (enc_steps 0 sts)"
    unfolding sf_checks_def word_less_nat_alt big u using assms by (auto simp: sf20_ok_def head_def le_max_iff_disj)
  obtain s' where s': "sf_steps old head \<lparr>sf_out = [], sf_body = enc_steps 0 sts, sf_covers = [], sf_rle = rle0_reset [],
      sf_left = sf_coverCount head, lastOld = 0, lastNew = 0\<rparr> = Inr s'" "sf_out s' = sf_target old sts" "sf_body s' = []"
  proof -
    have "\<exists>s'. sf_steps old head \<lparr>sf_out = [], sf_body = enc_steps 0 sts, sf_covers = [], sf_rle = rle0_reset [],
      sf_left = sf_coverCount head, lastOld = 0, lastNew = 0\<rparr> = Inr s' \<and> sf_out s' = [] @ sf_target old sts \<and> sf_body s' = []"
      using sf_steps_enc [of head old 0 sts "\<lparr>sf_out = [], sf_body = enc_steps 0 sts, sf_covers = [], sf_rle = rle0_reset [],
        sf_left = sf_coverCount head, lastOld = 0, lastNew = 0\<rparr>"] assms l
      by (simp add: u sf20_ok_def) (simp add: head_def)
    then show ?thesis using that by auto
  qed
  have "applySF20Bytes old (enc_sf20 old mem sts) = Inr (sf_target old sts)"
    by (simp add: applySF20Bytes_def rd checks u s')
  then show ?thesis by (simp add: applySF20_def)
qed

section \<open>The manifest and what it means\<close>

fun enc_incs :: "nat \<Rightarrow> nat list \<Rightarrow> bytes" where
  "enc_incs k [] = []"
| "enc_incs k (i # is) = packTag 0 0 (i - k) @ enc_incs (i + 1) is"

definition rising :: "nat list \<Rightarrow> nat \<Rightarrow> bool" where
  "rising is n \<longleftrightarrow> sorted_wrt (<) is \<and> (\<forall>i \<in> set is. i < n)"

lemma inc_list_enc:
  "sorted_wrt (<) is \<Longrightarrow> \<forall>i \<in> set is. k \<le> i \<and> i < n \<Longrightarrow> n \<le> 2 ^ 40 \<Longrightarrow>
   inc_list (length is) (word_of_nat k - 1) (word_of_nat n) (enc_incs k is @ c) = Inr (is, c)"
proof (induction "is" arbitrary: k)
  case (Cons i "is")
  have i: "k \<le> i" "i < n" using Cons.prems(2) by simp_all
  have w: "word_of_nat k - 1 + (1 + word_of_nat (i - k)) = (word_of_nat i :: u64)" using i(1) by (simp add: of_nat_diff)
  have b: "unat (word_of_nat i :: u64) = i" "unat (word_of_nat n :: u64) = n"
    using i Cons.prems(3) by (auto intro!: small_word)
  have "\<not> (word_of_nat n :: u64) \<le> word_of_nat i" unfolding word_le_nat_alt b using i(2) by simp
  moreover have "inc_list (length is) (word_of_nat i) (word_of_nat n) (enc_incs (i + 1) is @ c) = Inr (is, c)"
  proof -
    have "(word_of_nat (i + 1) :: u64) - 1 = word_of_nat i" by simp
    moreover have "inc_list (length is) (word_of_nat (i + 1) - 1) (word_of_nat n) (enc_incs (i + 1) is @ c) = Inr (is, c)"
      using Cons.prems by (intro Cons.IH) auto
    ultimately show ?thesis by (simp only:)
  qed
  moreover have "unpackUInt (packTag 0 0 (i - k) @ enc_incs (i + 1) is @ c) = Inr (word_of_nat (i - k), enc_incs (i + 1) is @ c)"
    by (rule unpackUInt_pack) (use i Cons.prems(3) in simp)
  ultimately show ?case
    unfolding list.size add_0_right enc_incs.simps append_assoc
    using w by (simp add: b Let_def del: of_nat_add unpackUInt_pack)
qed simp

lemma split_nul_enc: "0 \<notin> set p \<Longrightarrow> split_nul acc (p @ 0 # c) = ((acc @ p) # fst (split_nul [] c), snd (split_nul [] c))"
  by (induction p arbitrary: acc) (auto simp: split_beta)

definition enc_paths :: "bytes list \<Rightarrow> bytes" where
  "enc_paths ps = concat (map (\<lambda>p. p @ [0]) ps)"

lemma split_nul_paths: "\<forall>p \<in> set ps. 0 \<notin> set p \<Longrightarrow> split_nul [] (enc_paths ps) = (ps, [])"
  by (induction ps) (simp_all add: enc_paths_def split_nul_enc)

text \<open>A directory patch: the paths on both sides, which of them are changed files, and the stream.\<close>

record dpatch =
  d_old :: "bytes list"
  d_new :: "bytes list"
  d_oldRefs :: "nat list"
  d_newRefs :: "nat list"
  d_sizes :: "nat list"
  d_oldSize :: nat
  d_inner :: bytes

definition enc_head :: "dpatch \<Rightarrow> bytes" where
  "enc_head d = enc_paths (d_old d) @ enc_paths (d_new d) @ enc_incs 0 (d_oldRefs d) @ enc_incs 0 (d_newRefs d)
     @ concat (map (packTag 0 0) (d_sizes d))"

definition enc_numbers :: "dpatch \<Rightarrow> nat list" where
  "enc_numbers d = [length (d_old d), length (enc_paths (d_old d)), length (d_new d), length (enc_paths (d_new d)),
     length (d_oldRefs d), d_oldSize d, length (d_newRefs d), sum_list (d_sizes d), 0, 0, 0, 0, 0, 0, length (enc_head d), 0]"

definition enc_dpatch :: "dpatch \<Rightarrow> bytes" where
  "enc_dpatch d = str ''HDIFF19&&'' @ [0] @ concat (map (packTag 0 0) [1, 1]) @ concat (map (packTag 0 0) (enc_numbers d))
     @ packTag 0 0 0 @ enc_head d @ d_inner d"

definition dpatch_ok :: "dpatch \<Rightarrow> bool" where
  "dpatch_ok d \<longleftrightarrow> (\<forall>p \<in> set (d_old d @ d_new d). 0 \<notin> set p) \<and> rising (d_oldRefs d) (length (d_old d))
     \<and> rising (d_newRefs d) (length (d_new d)) \<and> length (d_sizes d) = length (d_newRefs d)
     \<and> length (enc_head d) \<le> 2 ^ 40 \<and> d_oldSize d \<le> 2 ^ 40 \<and> sum_list (d_sizes d) \<le> 2 ^ 40"

lemma enc_paths_length: "length ps \<le> length (enc_paths ps)"
  by (induction ps) (simp_all add: enc_paths_def)

lemma packTag_length: "1 \<le> length (packTag t tg v)"
  using packTag_not_empty [of t tg v] by (cases "packTag t tg v") simp_all

lemma enc_incs_length: "length is \<le> length (enc_incs k is)"
proof (induction "is" arbitrary: k)
  case (Cons i "is")
  show ?case using add_mono [OF packTag_length [of 0 0 "i - k"] Cons [of "i + 1"]] by simp
qed simp

lemma readIncList_enc:
  assumes "rising is n" "n \<le> 2 ^ 40" "length is \<le> 2 ^ 40"
  shows "readIncList (word_of_nat (length is)) (word_of_nat n) (enc_incs 0 is @ c) = Inr (is, c)"
proof -
  have m: "(NOT 0 :: u64) = word_of_nat 0 - 1" by simp
  have "inc_list (length is) (word_of_nat 0 - 1) (word_of_nat n) (enc_incs 0 is @ c) = Inr (is, c)"
    by (rule inc_list_enc) (use assms in \<open>auto simp: rising_def\<close>)
  then show ?thesis
    unfolding readIncList_def m makes_def using assms(3) by (simp add: small_word faulty_def del: of_nat_0)
qed

lemma read_types_enc: "read_types (str ''HDIFF19&&'' @ 0 # c) = Inr c"
  by (simp add: read_types_def str_def)

lemma x5n_Parse_enc:
  assumes "dpatch_ok d"
  shows "x5n_Parse (enc_dpatch d) = Inr \<lparr>OldPaths = d_old d, NewPaths = d_new d, OldRefs = d_oldRefs d, NewRefs = d_newRefs d,
    NewRefSizes = map word_of_nat (d_sizes d), OldRefSize = word_of_nat (d_oldSize d),
    NewRefSize = word_of_nat (sum_list (d_sizes d)), Inner = d_inner d\<rparr>"
proof -
  define vs where "vs = enc_numbers d"
  have len: "length (enc_head d) \<le> 2 ^ 40" "length (enc_paths (d_old d)) \<le> 2 ^ 40" "length (enc_paths (d_new d)) \<le> 2 ^ 40"
    "length (enc_incs 0 (d_oldRefs d)) \<le> 2 ^ 40" "length (enc_incs 0 (d_newRefs d)) \<le> 2 ^ 40"
    using assms by (simp_all add: dpatch_ok_def enc_head_def)
  have cnt: "length (d_old d) \<le> 2 ^ 40" "length (d_new d) \<le> 2 ^ 40" "length (d_oldRefs d) \<le> 2 ^ 40" "length (d_newRefs d) \<le> 2 ^ 40"
    using enc_paths_length [of "d_old d"] enc_paths_length [of "d_new d"] enc_incs_length [of "d_oldRefs d" 0]
      enc_incs_length [of "d_newRefs d" 0] len by linarith+
  have paths: "length (enc_paths (d_old d)) + length (enc_paths (d_new d)) \<le> 2 ^ 40" "length (d_old d) + length (d_new d) \<le> 2 ^ 40"
    using assms enc_paths_length [of "d_old d"] enc_paths_length [of "d_new d"] by (simp_all add: dpatch_ok_def enc_head_def)
  have sz: "d_oldSize d \<le> 2 ^ 40" "sum_list (d_sizes d) \<le> 2 ^ 40" using assms by (simp_all add: dpatch_ok_def)
  have ok: "list_all (\<lambda>v. v < 2 ^ 64) vs" unfolding vs_def enc_numbers_def using len cnt sz by simp
  have l16: "length vs = 16" by (simp add: vs_def enc_numbers_def)
  let ?rest = "packTag 0 0 0 @ enc_head d @ d_inner d"
  have r2: "readN unpackUInt 2 (concat (map (packTag 0 0) [1, 1]) @ concat (map (packTag 0 0) vs) @ ?rest)
      = Inr ([1, 1], concat (map (packTag 0 0) vs) @ ?rest)"
  proof -
    have "Suc 0 < 2 ^ 64" by simp
    from unpackUInt_pack [OF this] have "unpackUInt (packTag 0 0 (Suc 0) @ c) = Inr (1, c)" for c by simp
    then show ?thesis by (simp add: numeral_2_eq_2)
  qed
  have r16: "readN unpackUInt 16 (concat (map (packTag 0 0) vs) @ ?rest) = Inr (map word_of_nat vs, ?rest)"
    using readN_packs [OF unpackUInt_pack ok, of ?rest] unfolding l16 by blast
  have u0: "unpackUInt ?rest = Inr (0, enc_head d @ d_inner d)" using unpackUInt_pack [of 0 "enc_head d @ d_inner d"] by simp
  have v15: "map word_of_nat vs ! 15 = (0 :: u64)" by (simp add: vs_def enc_numbers_def)
  have hn: "head_numbers (concat (map (packTag 0 0) [1, 1]) @ concat (map (packTag 0 0) vs) @ ?rest)
      = Inr (map word_of_nat vs, enc_head d @ d_inner d)"
    unfolding head_numbers_def r2 bindE.simps prod.case r16 v15 u0 by simp
  have uh: "unat (word_of_nat (length (enc_head d)) :: u64) = length (enc_head d)" by (rule small_word [OF len(1)])
  have sh: "split_head (map word_of_nat vs) (enc_head d @ d_inner d) = Inr (enc_head d, d_inner d)"
    unfolding split_head_def Let_def by (simp add: vs_def enc_numbers_def uh)
  have parts: "x5n_Parse (enc_dpatch d) = parse_lists (map word_of_nat vs) (enc_head d) (d_inner d)"
    unfolding x5n_Parse_def enc_dpatch_def vs_def [symmetric] using hn sh
    by (simp add: read_types_enc)
  have f: "map word_of_nat vs ! 0 = (word_of_nat (length (d_old d)) :: u64)"
    "map word_of_nat vs ! 1 + map word_of_nat vs ! 3 = (word_of_nat (length (enc_paths (d_old d)) + length (enc_paths (d_new d))) :: u64)"
    "map word_of_nat vs ! 2 = (word_of_nat (length (d_new d)) :: u64)"
    "map word_of_nat vs ! 0 + map word_of_nat vs ! 2 = (word_of_nat (length (d_old d) + length (d_new d)) :: u64)"
    "map word_of_nat vs ! 4 = (word_of_nat (length (d_oldRefs d)) :: u64)" "map word_of_nat vs ! 5 = (word_of_nat (d_oldSize d) :: u64)"
    "map word_of_nat vs ! 6 = (word_of_nat (length (d_newRefs d)) :: u64)" "map word_of_nat vs ! 7 = (word_of_nat (sum_list (d_sizes d)) :: u64)"
    "map word_of_nat vs ! 8 = (0 :: u64)" "map word_of_nat vs ! 10 = (0 :: u64)"
    by (simp_all add: vs_def enc_numbers_def)
  have pl: "enc_paths (d_old d) @ enc_paths (d_new d) = enc_paths (d_old d @ d_new d)" by (simp add: enc_paths_def)
  have sp: "splitCStrings (enc_paths (d_old d @ d_new d)) (word_of_nat (length (d_old d) + length (d_new d))) = Inr (d_old d @ d_new d)"
    using split_nul_paths [of "d_old d @ d_new d"] assms small_word [OF paths(2)] paths(2)
    by (simp add: splitCStrings_def makes_def dpatch_ok_def del: of_nat_add)
  have hd: "enc_head d = enc_paths (d_old d @ d_new d) @ enc_incs 0 (d_oldRefs d) @ enc_incs 0 (d_newRefs d)
      @ concat (map (packTag 0 0) (d_sizes d))" by (simp add: enc_head_def pl [symmetric])
  have lp: "length (enc_paths (d_old d)) + length (enc_paths (d_new d)) = length (enc_paths (d_old d @ d_new d))"
    by (simp add: pl [symmetric])
  have up: "unat (word_of_nat (length (enc_paths (d_old d @ d_new d))) :: u64) = length (enc_paths (d_old d @ d_new d))"
    using paths(1) unfolding lp by (rule small_word)
  have i1: "readIncList (word_of_nat (length (d_oldRefs d))) (word_of_nat (length (d_old d))) (enc_incs 0 (d_oldRefs d) @ c) = Inr (d_oldRefs d, c)" for c
    by (rule readIncList_enc) (use assms cnt in \<open>simp_all add: dpatch_ok_def\<close>)
  have i2: "readIncList (word_of_nat (length (d_newRefs d))) (word_of_nat (length (d_new d))) (enc_incs 0 (d_newRefs d) @ c) = Inr (d_newRefs d, c)" for c
    by (rule readIncList_enc) (use assms cnt in \<open>simp_all add: dpatch_ok_def\<close>)
  have "list_all (\<lambda>v. v < 2 ^ 64) (d_sizes d)"
    using sz(2) member_le_sum_list [of _ "d_sizes d"] unfolding list_all_iff by (fastforce intro: order_le_less_trans)
  then have rs: "readN unpackUInt (length (d_newRefs d)) (concat (map (packTag 0 0) (d_sizes d))) = Inr (map word_of_nat (d_sizes d), [])"
    using readN_packs [OF unpackUInt_pack, of "d_sizes d" "[]"] assms by (simp add: dpatch_ok_def)
  have uo: "unat (word_of_nat (length (d_old d)) :: u64) = length (d_old d)" "unat (word_of_nat (length (d_newRefs d)) :: u64) = length (d_newRefs d)"
    by (rule small_word [OF cnt(1)], rule small_word [OF cnt(4)])
  show ?thesis
    unfolding parts parse_lists_def Let_def f lp up hd makes_def uo
    using cnt by (simp add: sp [unfolded of_nat_add] i1 i2 rs faulty_def uo)
qed

lemma gather_enc:
  "\<forall>i \<in> set is. i < length paths \<and> \<not> isDirPath (paths ! i) \<and> files (paths ! i) \<noteq> None \<Longrightarrow>
   gather files paths is = Inr (concat (map (\<lambda>i. the (files (paths ! i))) is))"
  by (induction "is") auto

lemma cut_enc:
  "\<forall>i \<in> set is. i < length paths \<and> \<not> isDirPath (paths ! i) \<Longrightarrow> length is = length pieces \<Longrightarrow>
   length pre + length (concat pieces) \<le> 2 ^ 40 \<Longrightarrow>
   cut paths (pre @ concat pieces) (length pre) (zip is (map (\<lambda>p. word_of_nat (length p)) pieces)) out
     = Inr (out(map ((!) paths) is [\<mapsto>] pieces))"
proof (induction "is" arbitrary: pieces pre out)
  case (Cons i "is")
  then obtain p ps where p: "pieces = p # ps" by (cases pieces) auto
  have l: "length p \<le> 2 ^ 40" "length pre + length p \<le> 2 ^ 40" using Cons.prems(3) by (simp_all add: p)
  have s: "sint (word_of_nat (length p) :: u64) = int (length p)"
    "sint (word_of_nat (length pre) + word_of_nat (length p) :: u64) = int (length pre + length p)"
    using sint_small [of "length p"] sint_small [of "length pre + length p"] l by simp_all
  have "cut paths ((pre @ p) @ concat ps) (length (pre @ p)) (zip is (map (\<lambda>p. word_of_nat (length p)) ps))
      (out(paths ! i \<mapsto> p)) = Inr ((out(paths ! i \<mapsto> p))(map ((!) paths) is [\<mapsto>] ps))"
    using Cons.prems by (intro Cons.IH) (simp_all add: p)
  then show ?case
    using Cons.prems(1) small_word [OF l(1)] by (simp add: p s)
qed simp

text \<open>
  C16: a directory patch decodes to what it means. For any two directories, any choice of changed
  files on both sides and any stream of steps, covers and differences over the old files one behind
  the other, the patch an encoder writes is applied to the map that gives every new file its part
  of the target.
\<close>

theorem x5n_roundtrip:
  assumes "dpatch_ok d" "sf20_ok old mem sts" "d_inner d = enc_sf20 old mem sts"
    and "\<forall>i \<in> set (d_oldRefs d). \<not> isDirPath (d_old d ! i) \<and> files (d_old d ! i) \<noteq> None"
    and "old = concat (map (\<lambda>i. the (files (d_old d ! i))) (d_oldRefs d))" "d_oldSize d = length old"
    and "\<forall>i \<in> set (d_newRefs d). \<not> isDirPath (d_new d ! i)"
    and "concat pieces = sf_target old sts" "d_sizes d = map length pieces"
  shows "x5n_Apply files (enc_dpatch d) = Inr [map ((!) (d_new d)) (d_newRefs d) [\<mapsto>] pieces]"
proof -
  have g: "gather files (d_old d) (d_oldRefs d) = Inr old"
    unfolding assms(5) by (rule gather_enc) (use assms(1,4) in \<open>auto simp: dpatch_ok_def rising_def\<close>)
  have lo: "length old \<le> 2 ^ 40" using assms(1,6) by (simp add: dpatch_ok_def)
  have ls: "sum_list (map length pieces) = length (sf_target old sts)" unfolding assms(8) [symmetric] length_concat ..
  have lt: "length (sf_target old sts) \<le> 2 ^ 40" using assms(1,9) ls by (simp add: dpatch_ok_def)
  have u: "unat (word_of_nat (length old) :: u64) = length old"
    "unat (word_of_nat (length (sf_target old sts)) :: u64) = length (sf_target old sts)"
    by (rule small_word [OF lo], rule small_word [OF lt])
  have c: "cut (d_new d) ([] @ concat pieces) (length ([] :: bytes)) (zip (d_newRefs d) (map (\<lambda>p. word_of_nat (length p)) pieces)) Map.empty
      = Inr (Map.empty(map ((!) (d_new d)) (d_newRefs d) [\<mapsto>] pieces))"
    by (rule cut_enc [of "d_newRefs d" "d_new d" pieces "[]" Map.empty])
      (use assms(1,7,8,9) lt in \<open>auto simp: dpatch_ok_def rising_def simp flip: length_concat\<close>)
  have "applySF20 old (d_inner d) = Inr (sf_target old sts)" unfolding assms(3) by (rule applySF20_enc [OF assms(2)])
  then show ?thesis
    unfolding x5n_Apply_def x5n_Parse_enc [OF assms(1)] bindE.simps DirDiff.simps assms(6,9) g makes_def u ls
    using c lo by (simp add: faulty_def u assms(8) comp_def)
qed

text \<open>
  Two steps over one changed file, the second with a difference that is a run of zeros and a last
  cover with nothing but new bytes, cut into two files of a directory.
\<close>

definition sample_steps :: "step list" where
  "sample_steps = [([([1], 1, 2)], [(0, [5, 5])]), ([([], 0, 1), ([9], 1, 0)], [(1, [])])]"

definition sample_dpatch :: dpatch where
  "sample_dpatch = \<lparr>d_old = [[], [97]], d_new = [[], [97], [98]], d_oldRefs = [1], d_newRefs = [1, 2],
     d_sizes = [3, 2], d_oldSize = 4, d_inner = enc_sf20 [10, 20, 30, 40] 8 sample_steps\<rparr>"

lemma sample_x5n:
  "sf_target [10, 20, 30, 40] sample_steps = [1, 25, 35, 10, 9]"
  "length (enc_steps 0 sample_steps) = 21" "n_covers sample_steps = 3" "length (enc_head sample_dpatch) = 13"
  by code_simp+

lemma x5n_roundtrip_witness:
  "x5n_Apply [[97] \<mapsto> [10, 20, 30, 40]] (enc_dpatch sample_dpatch) = Inr [[97] \<mapsto> [1, 25, 35], [98] \<mapsto> [10, 9]]"
proof -
  have "dpatch_ok sample_dpatch"
    unfolding dpatch_ok_def sample_x5n by (simp add: sample_dpatch_def rising_def)
  moreover have "steps_ok [10, 20, 30, 40] 8 0 sample_steps"
    unfolding sample_steps_def by (simp add: covs_ok_def pairs_ok_def pairs_bytes_def cov_need_def) code_simp
  then have "sf20_ok [10, 20, 30, 40] 8 sample_steps" unfolding sf20_ok_def sample_x5n by simp
  ultimately show ?thesis
    using x5n_roundtrip [of sample_dpatch "[10, 20, 30, 40]" 8 sample_steps "[[97] \<mapsto> [10, 20, 30, 40]]" "[[1, 25, 35], [10, 9]]"]
    unfolding sample_x5n by (simp add: sample_dpatch_def isDirPath_def)
qed

text \<open>
  A patch of thirty bytes can take the whole program down: the number of changed old files is
  used to make a slice before anything is known about it, and every number above 2 to the 45
  panics.
\<close>

theorem x5n_count_panics:
  assumes "2 ^ 45 < c" "c < 2 ^ 64"
  shows "x5n_Apply files (str ''HDIFF19&&'' @ [0] @ concat (map (packTag 0 0)
    ([1, 1] @ [0, 0, 0, 0, c, 0, 0, 0, 0, 0, 0, 0, 0, 0, 0, 0] @ [0]))) = Inl Panic"
proof -
  define vs where "vs = [0, 0, 0, 0, c, 0, 0, 0, 0, 0, 0, 0, 0, 0, 0, 0]"
  have l16: "length vs = 16" and ok: "list_all (\<lambda>v. v < 2 ^ 64) vs" using assms(2) by (simp_all add: vs_def)
  have "list_all (\<lambda>v. v < 2 ^ 64) [1, 1 :: nat]" by simp
  from readN_packs [OF unpackUInt_pack this, of "concat (map (packTag 0 0) vs) @ packTag 0 0 0"]
  have r2: "readN unpackUInt (length [1, 1 :: nat]) (concat (map (packTag 0 0) [1, 1]) @ concat (map (packTag 0 0) vs) @ packTag 0 0 0)
      = Inr (map word_of_nat [1, 1], concat (map (packTag 0 0) vs) @ packTag 0 0 0)" .
  have l2: "2 = length [1, 1 :: nat]" by simp
  have r16: "readN unpackUInt 16 (concat (map (packTag 0 0) vs) @ packTag 0 0 0) = Inr (map word_of_nat vs, packTag 0 0 0)"
    using readN_packs [OF unpackUInt_pack ok, of "packTag 0 0 0"] unfolding l16 by blast
  have u0: "unpackUInt (packTag 0 0 0) = Inr (0, [])" using unpackUInt_pack [of 0 "[]"] by simp
  have f: "map word_of_nat vs ! 15 = (0 :: u64)" "map word_of_nat vs ! 4 = (word_of_nat c :: u64)"
    "k \<in> {0, 1, 2, 3, 12, 13, 14} \<Longrightarrow> map word_of_nat vs ! k = (0 :: u64)" for k
    by (auto simp: vs_def)
  have hn: "head_numbers (concat (map (packTag 0 0) [1, 1]) @ concat (map (packTag 0 0) vs) @ packTag 0 0 0) = Inr (map word_of_nat vs, [])"
    unfolding head_numbers_def l2 r2 bindE.simps prod.case r16 f(1) u0 by simp
  have "x5n_Parse (str ''HDIFF19&&'' @ 0 # concat (map (packTag 0 0) [1, 1]) @ concat (map (packTag 0 0) vs) @ packTag 0 0 0)
      = parse_lists (map word_of_nat vs) [] []"
    unfolding x5n_Parse_def read_types_enc bindE.simps hn prod.case split_head_def by (simp add: f)
  also have "\<dots> = Inl Panic"
    using assms u64_small [OF assms(2)] unfolding parse_lists_def Let_def f(2)
    by (simp add: f splitCStrings_def makes_def readIncList_def)
  finally show ?thesis by (simp add: x5n_Apply_def vs_def)
qed

lemma x5n_count_panics_witness:
  "x5n_Apply Map.empty (str ''HDIFF19&&'' @ [0] @ concat (map (packTag 0 0)
    ([1, 1] @ [0, 0, 0, 0, 2 ^ 50, 0, 0, 0, 0, 0, 0, 0, 0, 0, 0, 0] @ [0]))) = Inl Panic"
  by (rule x5n_count_panics) simp_all

end
