(* ===== verification/Gostrings.thy ===== *)
theory Gostrings
  imports Prelude
begin

text \<open>
  What the program uses of Go's packages \<open>strings\<close> and \<open>path\<close>, over strings as bytes in UTF-8:
  \<open>Split\<close>, \<open>Join\<close> and \<open>Cut\<close> at a separator of one byte, \<open>TrimSpace\<close>, \<open>ToLower\<close> as far as it is
  compared with ASCII names, \<open>Contains\<close>, \<open>path.Clean\<close>, \<open>path.Join\<close> and \<open>path.Base\<close>.
\<close>

section \<open>Separators\<close>

fun split_on :: "byte \<Rightarrow> bytes \<Rightarrow> bytes list" where
  "split_on sep [] = [[]]"
| "split_on sep (c # b) =
     (if c = sep then [] # split_on sep b
      else (case split_on sep b of [] \<Rightarrow> [[c]] | p # ps \<Rightarrow> (c # p) # ps))"

fun join_on :: "byte \<Rightarrow> bytes list \<Rightarrow> bytes" where
  "join_on sep [] = []"
| "join_on sep [p] = p"
| "join_on sep (p # ps) = p @ sep # join_on sep ps"

text \<open>\<open>strings.Cut\<close>, with the missing rest as the empty string.\<close>

fun cut_on :: "byte \<Rightarrow> bytes \<Rightarrow> bytes \<times> bytes" where
  "cut_on sep [] = ([], [])"
| "cut_on sep (c # b) = (if c = sep then ([], b) else (let (p, r) = cut_on sep b in (c # p, r)))"

lemma split_on_not_Nil [simp]: "split_on sep b \<noteq> []"
  by (induction b) (auto split: list.splits)

lemma split_on_token: "sep \<notin> set p \<Longrightarrow> split_on sep p = [p]"
  by (induction p) auto

lemma split_on_first: "sep \<notin> set p \<Longrightarrow> split_on sep (p @ sep # b) = p # split_on sep b"
  by (induction p) auto

lemma split_on_join: "ps \<noteq> [] \<Longrightarrow> \<forall>p \<in> set ps. sep \<notin> set p \<Longrightarrow> split_on sep (join_on sep ps) = ps"
  by (induction sep ps rule: join_on.induct) (auto simp: split_on_token split_on_first)

lemma split_on_parts: "p \<in> set (split_on sep b) \<Longrightarrow> sep \<notin> set p"
proof (induction b arbitrary: p)
  case (Cons c b)
  then show ?case by (cases "split_on sep b") (auto split: if_splits)
qed simp

lemma cut_on_join: "sep \<notin> set p \<Longrightarrow> cut_on sep (join_on sep (p # ps)) = (p, join_on sep ps)"
proof -
  assume p: "sep \<notin> set p"
  then have "cut_on sep p = (p, [])" "cut_on sep (p @ sep # b) = (p, b)" for b by (induction p) auto
  then show ?thesis by (cases ps) auto
qed

section \<open>Space\<close>

text \<open>
  The length of the space character at the front of a string, 0 if there is none: the ASCII ones
  and, in their UTF-8 form, the others of \<open>unicode.IsSpace\<close>. A string is trimmed at its front, then
  at its back, where the same characters are looked for in reverse.
\<close>

definition ascii_space :: "byte \<Rightarrow> bool" where
  "ascii_space c \<longleftrightarrow> c \<in> {0x09, 0x0a, 0x0b, 0x0c, 0x0d, 0x20}"

definition space2 :: "byte \<Rightarrow> byte \<Rightarrow> bool" where
  "space2 c d \<longleftrightarrow> c = 0xc2 \<and> (d = 0x85 \<or> d = 0xa0)"

definition space3 :: "byte \<Rightarrow> byte \<Rightarrow> byte \<Rightarrow> bool" where
  "space3 c d e \<longleftrightarrow>
     c = 0xe1 \<and> d = 0x9a \<and> e = 0x80
     \<or> c = 0xe2 \<and> d = 0x80 \<and> (0x80 \<le> e \<and> e \<le> 0x8a \<or> e \<in> {0xa8, 0xa9, 0xaf})
     \<or> c = 0xe2 \<and> d = 0x81 \<and> e = 0x9f
     \<or> c = 0xe3 \<and> d = 0x80 \<and> e = 0x80"

fun space_front :: "bytes \<Rightarrow> nat" where
  "space_front (c # d # e # s) =
     (if ascii_space c then 1 else if space2 c d then 2 else if space3 c d e then 3 else 0)"
| "space_front [c, d] = (if ascii_space c then 1 else if space2 c d then 2 else 0)"
| "space_front [c] = (if ascii_space c then 1 else 0)"
| "space_front [] = 0"

fun space_back :: "bytes \<Rightarrow> nat" where
  "space_back (e # d # c # s) =
     (if ascii_space e then 1 else if space2 d e then 2 else if space3 c d e then 3 else 0)"
| "space_back [d, c] = (if ascii_space d then 1 else if space2 c d then 2 else 0)"
| "space_back [c] = (if ascii_space c then 1 else 0)"
| "space_back [] = 0"

text \<open>Dropping space characters from one end, for either way of finding them.\<close>

function trim_by :: "(bytes \<Rightarrow> nat) \<Rightarrow> bytes \<Rightarrow> bytes" where
  "trim_by sp s = (if sp s = 0 \<or> s = [] then s else trim_by sp (drop (sp s) s))"
  by pat_completeness auto
termination by (relation "measure (\<lambda>(sp, s). length s)") auto

declare trim_by.simps [simp del]

definition trimSpace :: "bytes \<Rightarrow> bytes" where
  "trimSpace s = rev (trim_by space_back (rev (trim_by space_front s)))"

lemma trim_by_done: "trim_by sp s = [] \<or> sp (trim_by sp s) = 0"
proof (induction sp s rule: trim_by.induct)
  case (1 sp s)
  then show ?case by (cases "sp s = 0 \<or> s = []") (auto simp: trim_by.simps [of sp s])
qed

lemma trim_by_same: "s = [] \<or> sp s = 0 \<Longrightarrow> trim_by sp s = s"
  by (subst trim_by.simps) auto

lemma trim_by_suffix: "\<exists>pre. s = pre @ trim_by sp s"
proof (induction sp s rule: trim_by.induct)
  case (1 sp s)
  show ?case
  proof (cases "sp s = 0 \<or> s = []")
    case False
    with 1 obtain pre where "drop (sp s) s = pre @ trim_by sp (drop (sp s) s)" by blast
    then have "s = (take (sp s) s @ pre) @ trim_by sp (drop (sp s) s)" by (metis append.assoc append_take_drop_id)
    moreover have "trim_by sp s = trim_by sp (drop (sp s) s)" using False by (simp add: trim_by.simps [of sp s])
    ultimately show ?thesis by metis
  qed (auto simp: trim_by_same)
qed

text \<open>A prefix of a string that starts with no space starts with none.\<close>

lemma space_front_prefix: "space_front (s @ t) = 0 \<Longrightarrow> space_front s = 0"
proof (cases s rule: space_front.cases)
  case (2 c d)
  then show "space_front (s @ t) = 0 \<Longrightarrow> ?thesis" by (cases t) (auto split: if_splits)
next
  case (3 c)
  then show "space_front (s @ t) = 0 \<Longrightarrow> ?thesis" by (cases t rule: space_front.cases) (auto split: if_splits)
qed auto

lemma trimSpace_idem: "trimSpace (trimSpace s) = trimSpace s"
proof -
  let ?f = "trim_by space_front s"
  let ?t = "trim_by space_back (rev ?f)"
  obtain pre where "rev ?f = pre @ ?t" using trim_by_suffix by blast
  then have f: "?f = rev ?t @ rev pre" by (metis rev_append rev_rev_ident)
  have "rev ?t = [] \<or> space_front (rev ?t) = 0"
  proof (cases "?f = []")
    case False
    then have "space_front ?f = 0" using trim_by_done [of space_front s] by auto
    then show ?thesis using f space_front_prefix by metis
  qed (use f in simp)
  then have "trim_by space_front (rev ?t) = rev ?t" by (rule trim_by_same)
  moreover have "trim_by space_back ?t = ?t" using trim_by_done [of space_back "rev ?f"] by (intro trim_by_same) auto
  ultimately show ?thesis by (simp add: trimSpace_def)
qed

section \<open>Case\<close>

text \<open>
  \<open>strings.ToLower\<close> for comparisons with ASCII strings: upper-case ASCII letters, and the two other
  characters whose lower case is an ASCII letter, U+0130 and U+212A. Every other character keeps
  bytes that no ASCII string has, as its lower case does.
\<close>

fun toLower :: "bytes \<Rightarrow> bytes" where
  "toLower (c # d # e # s) =
     (if 0x41 \<le> c \<and> c \<le> 0x5a then (c + 0x20) # toLower (d # e # s)
      else if c = 0xc4 \<and> d = 0xb0 then 0x69 # toLower (e # s)
      else if c = 0xe2 \<and> d = 0x84 \<and> e = 0xaa then 0x6b # toLower s
      else c # toLower (d # e # s))"
| "toLower [c, d] =
     (if 0x41 \<le> c \<and> c \<le> 0x5a then (c + 0x20) # toLower [d]
      else if c = 0xc4 \<and> d = 0xb0 then [0x69]
      else c # toLower [d])"
| "toLower [c] = (if 0x41 \<le> c \<and> c \<le> 0x5a then [c + 0x20] else [c])"
| "toLower [] = []"

fun hasPrefix :: "bytes \<Rightarrow> bytes \<Rightarrow> bool" where
  "hasPrefix s [] \<longleftrightarrow> True"
| "hasPrefix [] (p # ps) \<longleftrightarrow> False"
| "hasPrefix (c # s) (p # ps) \<longleftrightarrow> c = p \<and> hasPrefix s ps"

fun contains :: "bytes \<Rightarrow> bytes \<Rightarrow> bool" where
  "contains [] p \<longleftrightarrow> p = []"
| "contains (c # s) p \<longleftrightarrow> hasPrefix (c # s) p \<or> contains s p"

lemma hasPrefix_iff: "hasPrefix s p \<longleftrightarrow> take (length p) s = p"
  by (induction s p rule: hasPrefix.induct) auto

section \<open>Paths\<close>

text \<open>
  \<open>path.Clean\<close> walks over the components with the cleaned ones before them: empty ones and dots
  are dropped, and two dots take the last one away unless it is itself two dots, or there is none.
\<close>

definition dotdot :: bytes where
  "dotdot = [0x2e, 0x2e]"

definition clean_step :: "bool \<Rightarrow> bytes list \<Rightarrow> bytes \<Rightarrow> bytes list" where
  "clean_step rooted done p =
     (if p = [] \<or> p = [0x2e] then done
      else if p = dotdot then
        (if done \<noteq> [] \<and> last done \<noteq> dotdot then butlast done
         else if rooted then done else done @ [dotdot])
      else done @ [p])"

definition path_clean :: "bytes \<Rightarrow> bytes" where
  "path_clean p =
     (let rooted = (p \<noteq> [] \<and> hd p = 0x2f);
          out = (if rooted then [0x2f] else []) @ join_on 0x2f (foldl (clean_step rooted) [] (split_on 0x2f p))
      in if out = [] then [0x2e] else out)"

definition path_join :: "bytes \<Rightarrow> bytes \<Rightarrow> bytes" where
  "path_join dir name =
     (if dir = [] \<and> name = [] then []
      else if dir = [] then path_clean name
      else path_clean (dir @ 0x2f # name))"

definition path_base :: "bytes \<Rightarrow> bytes" where
  "path_base p =
     (if p = [] then [0x2e]
      else let q = rev (dropWhile (\<lambda>c. c = 0x2f) (rev p)) in if q = [] then [0x2f] else last (split_on 0x2f q))"

text \<open>Clean components stay as they are, and a plain path is its own clean form.\<close>

definition plain_part :: "bytes \<Rightarrow> bool" where
  "plain_part p \<longleftrightarrow> p \<noteq> [] \<and> p \<noteq> [0x2e] \<and> p \<noteq> dotdot \<and> 0x2f \<notin> set p"

lemma clean_plain: "\<forall>p \<in> set ps. plain_part p \<Longrightarrow> foldl (clean_step r) done ps = done @ ps"
  by (induction ps arbitrary: "done") (simp_all add: clean_step_def plain_part_def)

lemma join_on_Nil: "join_on sep ps = [] \<longleftrightarrow> ps = [] \<or> ps = [[]]"
  by (induction sep ps rule: join_on.induct) auto

lemma path_clean_plain:
  assumes "ps \<noteq> []" "\<forall>p \<in> set ps. plain_part p"
  shows "path_clean (join_on 0x2f ps) = join_on 0x2f ps"
proof -
  have s: "split_on 0x2f (join_on 0x2f ps) = ps"
    by (rule split_on_join) (use assms in \<open>auto simp: plain_part_def\<close>)
  obtain p ps' where p: "ps = p # ps'" using assms(1) by (cases ps) auto
  then have "p \<noteq> []" "hd p \<noteq> 0x2f" using assms(2) by (auto simp: plain_part_def) (metis hd_in_set)
  then have h: "join_on 0x2f ps \<noteq> []" "hd (join_on 0x2f ps) \<noteq> 0x2f"
    unfolding p by (cases ps', simp_all)+
  then show ?thesis unfolding path_clean_def Let_def s clean_plain [OF assms(2)] by simp
qed

lemma join_on_snoc: "ps \<noteq> [] \<Longrightarrow> join_on sep (ps @ [p]) = join_on sep ps @ sep # p"
  by (induction sep ps rule: join_on.induct) auto

lemma path_join_plain:
  assumes "ps \<noteq> []" "\<forall>p \<in> set ps. plain_part p" "plain_part name"
  shows "path_join (join_on 0x2f ps) name = join_on 0x2f ps @ 0x2f # name"
proof -
  have "join_on 0x2f ps \<noteq> []" using assms by (auto simp: join_on_Nil plain_part_def)
  moreover have "path_clean (join_on 0x2f (ps @ [name])) = join_on 0x2f (ps @ [name])"
    by (rule path_clean_plain) (use assms in auto)
  ultimately show ?thesis using join_on_snoc [OF assms(1)] by (simp add: path_join_def)
qed

end
