(* ===== verification/Fourx4.thy ===== *)
theory Fourx4
  imports Chunkbuf Gostrings
begin

text \<open>
  The 4x4 multiplexer (\<open>stream/fourx4/reader.go\<close>): the options in its method string, the framing
  of its blocks, and the concurrent decoder. One goroutine reads the blocks, \<open>n\<close> goroutines decode
  them, and the caller of \<open>Read\<close> puts their results back in order. The goroutines are a step
  relation: every step is one channel operation or one return of the code, and a \<open>select\<close> whose
  cases are both ready takes either. The inner method is a parameter.
\<close>

section \<open>The method string\<close>

datatype 'e fx_error =
    BadMem | BadInt | NoInner | NilReader | NilInner | FxVersion u32 | FxVersionRead io_error
  | FxHeader io_error | FxTooLarge | FxBlock io_error | FxInner "'e option" | FxOpen 'e | FxClosed

definition is_digit :: "byte \<Rightarrow> bool" where
  "is_digit c \<longleftrightarrow> 0x30 \<le> c \<and> c \<le> 0x39"

definition trim_eq :: "bytes \<Rightarrow> bytes" where
  "trim_eq s = (case s of [] \<Rightarrow> [] | c # r \<Rightarrow> if c = 0x3d then r else s)"

definition add_digit :: "u64 \<Rightarrow> byte \<Rightarrow> u64" where
  "add_digit n c = n * 10 + ucast (c - 0x30)"

fun int_loop :: "u64 \<Rightarrow> bytes \<Rightarrow> 'e fx_error + u64" where
  "int_loop n [] = Inr n"
| "int_loop n (c # s) = (if \<not> is_digit c then Inl BadInt else int_loop (add_digit n c) s)"

definition parseInt :: "bytes \<Rightarrow> 'e fx_error + u64" where
  "parseInt s = (if trim_eq s = [] then Inl BadInt else int_loop 0 (trim_eq s))"

definition parseMem :: "bytes \<Rightarrow> 'e fx_error + u64" where
  "parseMem s =
     (let s = trim_eq s in
      if s = [] \<or> \<not> is_digit (hd s) then Inl BadMem
      else
        let n = foldl add_digit 0 (takeWhile is_digit s);
            suf = (case dropWhile is_digit s of [] \<Rightarrow> 0x5e | c # _ \<Rightarrow> c)
        in if suf = 0x62 then Inr n
           else if suf = 0x6b then Inr (n * 1024)
           else if suf = 0x6d then Inr (n * 1024 * 1024)
           else if suf = 0x67 then Inr (n * 1024 * 1024 * 1024)
           else if suf = 0x5e then (if n \<ge> 64 then Inl BadMem else Inr (push_bit (unat n) 1))
           else Inl BadMem)"

definition is4x4Opt :: "bytes \<Rightarrow> bool" where
  "is4x4Opt p \<longleftrightarrow>
     (case p of [] \<Rightarrow> False | c # r \<Rightarrow> is_digit c \<or> (case r of [] \<Rightarrow> False | d # _ \<Rightarrow> is_digit d))"

text \<open>Called on tokens that are options, hence not empty.\<close>

definition skip4x4Opt :: "bytes \<Rightarrow> 'e fx_error + unit" where
  "skip4x4Opt p =
     (if hd p = 0x62 then bindE (parseMem (tl p)) (\<lambda>_. Inr ())
      else if hd p = 0x74 \<or> hd p = 0x69 then bindE (parseInt (tl p)) (\<lambda>_. Inr ())
      else if hd p = 0x72 then Inr ()
      else (case parseInt p of
              Inr _ \<Rightarrow> Inr ()
            | Inl (_ :: 'e fx_error) \<Rightarrow> bindE (parseMem p) (\<lambda>_. Inr ())))"

fun inner_loop :: "bytes list \<Rightarrow> 'e fx_error + bytes \<times> bytes" where
  "inner_loop [] = Inl NoInner"
| "inner_loop (p # ps) =
     (if p = [] then inner_loop ps
      else if \<not> is4x4Opt p then
        (let (name, rest) = cut_on 0x3a (join_on 0x3a (p # ps)) in
         if name = [] then Inl NoInner else Inr (name, rest))
      else bindE (skip4x4Opt p) (\<lambda>_. inner_loop ps))"

definition parseInner :: "bytes \<Rightarrow> 'e fx_error + bytes \<times> bytes" where
  "parseInner params = (if params = [] then Inl NoInner else inner_loop (split_on 0x3a params))"

text \<open>The number of workers; \<open>procs\<close> stands for \<open>runtime.GOMAXPROCS(0)\<close>. \<open>int\<close> has 64 bits.\<close>

definition thread_opt :: "int \<Rightarrow> bytes \<Rightarrow> int" where
  "thread_opt n p =
     (case p of
        c # d # r \<Rightarrow>
          if c = 0x74 \<and> is_digit d then
            (case parseInt (d # r) of
               Inr v \<Rightarrow> if v > 0 then sint v else n
             | Inl (_ :: unit fx_error) \<Rightarrow> n)
          else n
      | _ \<Rightarrow> n)"

definition parseThreads :: "int \<Rightarrow> bytes \<Rightarrow> int" where
  "parseThreads procs params = max 1 (foldl thread_opt procs (split_on 0x3a params))"

section \<open>Framing\<close>

record job =
  j_seq :: nat
  j_in :: bytes
  j_outSize :: u32
  j_stored :: bool

record 'e fx_block =
  b_seq :: nat
  b_res :: "'e fx_error + bytes"

definition storedOut :: u32 where
  "storedOut = NOT 0"

text \<open>The version word; a stream with no byte at all is at its end.\<close>

definition readVersion :: "bytes \<Rightarrow> 'e fx_error + bool \<times> bytes" where
  "readVersion src =
     (case readFull 4 src of
        Inl EOF \<Rightarrow> Inr (True, src)
      | Inl e \<Rightarrow> Inl (FxVersionRead e)
      | Inr (b, src') \<Rightarrow> (let v = le_word b in if v \<noteq> 0 then Inl (FxVersion v) else Inr (False, src')))"

datatype 'e job_read = JobEnd | JobFail "'e fx_error" | Job job bytes

definition readJob :: "nat \<Rightarrow> bytes \<Rightarrow> 'e job_read" where
  "readJob sq src =
     (case readFull 8 src of
        Inl EOF \<Rightarrow> JobEnd
      | Inl e \<Rightarrow> JobFail (FxHeader e)
      | Inr (hdr, src') \<Rightarrow>
          (let outSize = le_word (take 4 hdr); inSize = le_word (drop 4 hdr) :: u32 in
           if inSize > 0x7fffffff \<or> outSize \<noteq> storedOut \<and> outSize > 0x7fffffff then JobFail FxTooLarge
           else (case readFull (unat inSize) src' of
              Inl e \<Rightarrow> JobFail (FxBlock e)
            | Inr (inp, src'') \<Rightarrow>
                Job \<lparr>j_seq = sq, j_in = inp, j_outSize = outSize, j_stored = (outSize = storedOut)\<rparr> src'')))"

text \<open>
  The inner method: an error when it is opened, or the bytes its reader yields and the error it
  ends with, where \<open>None\<close> is the plain end.
\<close>

type_synonym 'e inner = "bytes \<Rightarrow> 'e + bytes \<times> 'e option"

definition fx_decode :: "'e inner \<Rightarrow> job \<Rightarrow> 'e fx_error + bytes" where
  "fx_decode inner j =
     (if j_stored j then Inr (j_in j)
      else (case inner (j_in j) of
          Inl e \<Rightarrow> Inl (FxOpen e)
        | Inr (stream, end) \<Rightarrow>
            if length stream < unat (j_outSize j) then Inl (FxInner end)
            else Inr (take (unat (j_outSize j)) stream)))"

section \<open>The goroutines\<close>

text \<open>
  The reading goroutine reads a block, offers it to the workers, or has an error to deliver; a
  worker waits for a block or has a result to deliver. \<open>WGone\<close> and \<open>PStopped\<close> have returned; the
  channel \<open>jobs\<close> is closed when the reading goroutine has stopped.
\<close>

datatype 'e producer = PReading | POffering job | PFailing "'e fx_error" | PStopped

datatype 'e worker = WWaiting | WDelivering "'e fx_block" | WGone

datatype 'e fx_end = FxEOF | FxErr "'e fx_error"

record 'e fx =
  f_src :: bytes
  f_prod :: "'e producer"
  f_seq :: nat
  f_jobs :: "job list"
  f_workers :: "'e worker list"
  f_results :: "'e fx_block list"
  f_closed :: bool
  f_group :: bool
  f_ctx :: bool
  f_hold :: "nat \<Rightarrow> bytes option"
  f_want :: nat
  f_out :: "bytes list"
  f_fin :: "'e fx_end option"

definition fx_launch :: "nat \<Rightarrow> bytes \<Rightarrow> 'e fx" where
  "fx_launch n src =
     \<lparr>f_src = src, f_prod = PReading, f_seq = 0, f_jobs = [], f_workers = replicate n WWaiting, f_results = [],
      f_closed = False, f_group = False, f_ctx = False, f_hold = Map.empty, f_want = 0, f_out = [], f_fin = None\<rparr>"

text \<open>The context of the group is done when its parent is, or when a goroutine returned an error.\<close>

abbreviation fx_done :: "'e fx \<Rightarrow> bool" where
  "fx_done s \<equiv> f_ctx s \<or> f_group s"

abbreviation room :: "'e fx \<Rightarrow> bool" where
  "room s \<equiv> length (f_results s) < length (f_workers s)"

text \<open>\<open>take\<close>: a block that is held, or a received one, which is returned or put aside.\<close>

definition take_held :: "bytes \<Rightarrow> 'e fx \<Rightarrow> 'e fx" where
  "take_held out s = s\<lparr>f_hold := (f_hold s)(f_want s := None), f_want := f_want s + 1, f_out := f_out s @ [out]\<rparr>"

definition take_result :: "'e fx_block \<Rightarrow> 'e fx \<Rightarrow> 'e fx" where
  "take_result b s =
     (case b_res b of
        Inl e \<Rightarrow> s\<lparr>f_fin := Some (FxErr e)\<rparr>
      | Inr out \<Rightarrow>
          if b_seq b = f_want s then s\<lparr>f_want := f_want s + 1, f_out := f_out s @ [out]\<rparr>
          else s\<lparr>f_hold := (f_hold s)(b_seq b \<mapsto> out)\<rparr>)"

definition after_delivery :: "'e fx_block \<Rightarrow> 'e worker" where
  "after_delivery b = (if isl (b_res b) then WGone else WWaiting)"

inductive fx_step :: "'e inner \<Rightarrow> 'e fx \<Rightarrow> 'e fx \<Rightarrow> bool" for inner where
  read_job: "f_prod s = PReading \<Longrightarrow> readJob (f_seq s) (f_src s) = (Job j src' :: 'e job_read) \<Longrightarrow>
    fx_step inner s (s\<lparr>f_src := src', f_prod := POffering j\<rparr>)"
| read_end: "f_prod s = PReading \<Longrightarrow> readJob (f_seq s) (f_src s) = (JobEnd :: 'e job_read) \<Longrightarrow>
    fx_step inner s (s\<lparr>f_prod := PStopped\<rparr>)"
| read_fail: "f_prod s = PReading \<Longrightarrow> readJob (f_seq s) (f_src s) = JobFail e \<Longrightarrow>
    fx_step inner s (s\<lparr>f_prod := PFailing e\<rparr>)"
| offer: "f_prod s = POffering j \<Longrightarrow> f_jobs s = [] \<Longrightarrow>
    fx_step inner s (s\<lparr>f_jobs := [j], f_prod := PReading, f_seq := f_seq s + 1\<rparr>)"
| offer_done: "f_prod s = POffering j \<Longrightarrow> fx_done s \<Longrightarrow>
    fx_step inner s (s\<lparr>f_prod := PStopped, f_group := True\<rparr>)"
| fail_send: "f_prod s = PFailing e \<Longrightarrow> room s \<Longrightarrow>
    fx_step inner s (s\<lparr>f_results := f_results s @ [\<lparr>b_seq = f_seq s, b_res = Inl e\<rparr>], f_prod := PStopped, f_group := True\<rparr>)"
| fail_done: "f_prod s = PFailing e \<Longrightarrow> fx_done s \<Longrightarrow>
    fx_step inner s (s\<lparr>f_prod := PStopped, f_group := True\<rparr>)"
| receive: "k < length (f_workers s) \<Longrightarrow> f_workers s ! k = WWaiting \<Longrightarrow> f_jobs s = j # js \<Longrightarrow>
    fx_step inner s (s\<lparr>f_jobs := js,
      f_workers := (f_workers s)[k := WDelivering \<lparr>b_seq = j_seq j, b_res = fx_decode inner j\<rparr>]\<rparr>)"
| leave: "k < length (f_workers s) \<Longrightarrow> f_workers s ! k = WWaiting \<Longrightarrow> f_jobs s = [] \<Longrightarrow> f_prod s = PStopped \<Longrightarrow>
    fx_step inner s (s\<lparr>f_workers := (f_workers s)[k := WGone]\<rparr>)"
| deliver: "k < length (f_workers s) \<Longrightarrow> f_workers s ! k = WDelivering b \<Longrightarrow> room s \<Longrightarrow>
    fx_step inner s (s\<lparr>f_results := f_results s @ [b], f_workers := (f_workers s)[k := after_delivery b],
      f_group := f_group s \<or> isl (b_res b)\<rparr>)"
| deliver_done: "k < length (f_workers s) \<Longrightarrow> f_workers s ! k = WDelivering b \<Longrightarrow> fx_done s \<Longrightarrow>
    fx_step inner s (s\<lparr>f_workers := (f_workers s)[k := WGone], f_group := True\<rparr>)"
| close_results: "f_prod s = PStopped \<Longrightarrow> set (f_workers s) \<subseteq> {WGone} \<Longrightarrow> \<not> f_closed s \<Longrightarrow>
    fx_step inner s (s\<lparr>f_closed := True\<rparr>)"
| take_hold: "f_fin s = None \<Longrightarrow> f_hold s (f_want s) = Some out \<Longrightarrow> fx_step inner s (take_held out s)"
| take_receive: "f_fin s = None \<Longrightarrow> f_hold s (f_want s) = None \<Longrightarrow> f_results s = b # bs \<Longrightarrow>
    fx_step inner s (take_result b (s\<lparr>f_results := bs\<rparr>))"
| take_end: "f_fin s = None \<Longrightarrow> f_hold s (f_want s) = None \<Longrightarrow> f_results s = [] \<Longrightarrow> f_closed s \<Longrightarrow>
    fx_step inner s (s\<lparr>f_fin := Some FxEOF\<rparr>)"

text \<open>A run: steps of the program, and the cancellation of its context from outside.\<close>

definition cancel_ctx :: "'e fx \<Rightarrow> 'e fx" where
  "cancel_ctx s = s\<lparr>f_ctx := True\<rparr>"

inductive fx_reach :: "'e inner \<Rightarrow> nat \<Rightarrow> bytes \<Rightarrow> 'e fx \<Rightarrow> bool" for inner n src where
  reach_launch: "fx_reach inner n src (fx_launch n src)"
| reach_step: "fx_reach inner n src s \<Longrightarrow> fx_step inner s s' \<Longrightarrow> fx_reach inner n src s'"
| reach_cancel: "fx_reach inner n src s \<Longrightarrow> fx_reach inner n src (cancel_ctx s)"

section \<open>What the stream means\<close>

text \<open>The specification: the blocks one after the other, up to the end of the stream or its first error.\<close>

lemma readJob_shorter: "readJob k src = Job j src' \<Longrightarrow> length src' + 8 \<le> length src"
  by (auto simp: readJob_def Let_def res_simps split: sum.splits io_error.splits if_splits)

lemma readJob_seq: "readJob k src = Job j src' \<Longrightarrow> j_seq j = k"
  by (auto simp: readJob_def Let_def split: sum.splits io_error.splits if_splits)

function jobs_of :: "nat \<Rightarrow> bytes \<Rightarrow> job list \<times> 'e fx_error option" where
  "jobs_of k src =
     (case (readJob k src :: 'e job_read) of
        JobEnd \<Rightarrow> ([], None)
      | JobFail e \<Rightarrow> ([], Some e)
      | Job j src' \<Rightarrow> (let (js, e) = jobs_of (k + 1) src' in (j # js, e)))"
  by pat_completeness auto
termination by (relation "measure (\<lambda>(k, src). length src)") (auto dest: readJob_shorter)

declare jobs_of.simps [simp del]

fun decode_all :: "'e inner \<Rightarrow> job list \<Rightarrow> 'e fx_error + bytes list" where
  "decode_all inner [] = Inr []"
| "decode_all inner (j # js) = bindE (fx_decode inner j) (\<lambda>o1. bindE (decode_all inner js) (\<lambda>os. Inr (o1 # os)))"

definition sequential :: "'e inner \<Rightarrow> bytes \<Rightarrow> 'e fx_error + bytes list" where
  "sequential inner src =
     (case jobs_of 0 src of (js, e) \<Rightarrow>
        bindE (decode_all inner js) (\<lambda>os. case e of None \<Rightarrow> Inr os | Some e \<Rightarrow> Inl e))"

lemma decode_all_iff: "decode_all inner js = Inr os \<longleftrightarrow> map (fx_decode inner) js = map Inr os"
  by (induction js arbitrary: os) (auto simp: res_simps Cons_eq_map_conv)

lemma decode_all_no_fail:
  assumes "decode_all inner js = Inr os" "j \<in> set js"
  shows "\<not> isl (fx_decode inner j)"
proof -
  have "set (map (fx_decode inner) js) = set (map Inr os)" using assms(1) by (simp only: decode_all_iff)
  then have "fx_decode inner j \<in> Inr ` set os" using assms(2) by auto
  then show ?thesis by auto
qed

lemma jobs_of_seq:
  "i < length (fst (jobs_of k src :: _ \<times> 'a fx_error option)) \<Longrightarrow> j_seq (fst (jobs_of k src :: _ \<times> 'a fx_error option) ! i) = k + i"
proof (induction "length src" arbitrary: k src i rule: less_induct)
  case less
  show ?case
  proof (cases "readJob k src :: 'a job_read")
    case (Job j src')
    obtain js e where r: "jobs_of (k + 1) src' = (js, e :: 'a fx_error option)" by fastforce
    have "fst (jobs_of k src :: _ \<times> 'a fx_error option) = j # js" by (simp add: jobs_of.simps [of k src] Job r [simplified])
    moreover have "j_seq j = k" using Job by (rule readJob_seq)
    moreover have "length src' < length src" using readJob_shorter [OF Job] by simp
    then have "i' < length js \<Longrightarrow> j_seq (js ! i') = k + 1 + i'" for i' using less.hyps [of src' i' "k + 1"] r by simp
    ultimately show ?thesis using less.prems by (cases i) auto
  qed (use less.prems in \<open>auto simp: jobs_of.simps [of k src]\<close>)
qed

section \<open>Invariants\<close>

text \<open>
  The invariants of a run over the blocks \<open>J\<close> of its stream and its ending \<open>E\<close>: the reading
  goroutine stands at its place in \<open>J\<close>, and whatever is in the channels, with a worker or put
  aside is a block of \<open>J\<close> under its own number, or a failure of the stream.
\<close>

definition at_job :: "job list \<Rightarrow> 'e fx_error option \<Rightarrow> nat \<Rightarrow> bytes \<Rightarrow> bool" where
  "at_job J E k src \<longleftrightarrow> k \<le> length J \<and> jobs_of k src = (drop k J, E)"

definition inv_prod :: "job list \<Rightarrow> 'e fx_error option \<Rightarrow> 'e fx \<Rightarrow> bool" where
  "inv_prod J E s \<longleftrightarrow>
     (case f_prod s of
        PReading \<Rightarrow> at_job J E (f_seq s) (f_src s)
      | POffering j \<Rightarrow> f_seq s < length J \<and> j = J ! f_seq s \<and> at_job J E (f_seq s + 1) (f_src s)
      | PFailing e \<Rightarrow> E = Some e
      | PStopped \<Rightarrow> \<not> fx_done s \<longrightarrow> f_seq s = length J \<and> E = None)"

definition good_block :: "'e inner \<Rightarrow> job list \<Rightarrow> 'e fx_error option \<Rightarrow> 'e fx_block \<Rightarrow> bool" where
  "good_block inner J E b \<longleftrightarrow>
     b_seq b < length J \<and> b_res b = fx_decode inner (J ! b_seq b) \<or> (\<exists>e. E = Some e \<and> b_res b = Inl e)"

definition held_by :: "'e worker list \<Rightarrow> 'e fx_block set" where
  "held_by ws = {b. WDelivering b \<in> set ws}"

definition inv_blocks :: "'e inner \<Rightarrow> job list \<Rightarrow> 'e fx_error option \<Rightarrow> 'e fx \<Rightarrow> bool" where
  "inv_blocks inner J E s \<longleftrightarrow>
     (\<forall>j \<in> set (f_jobs s). j_seq j < length J \<and> j = J ! j_seq j)
     \<and> (\<forall>b \<in> held_by (f_workers s) \<union> set (f_results s). good_block inner J E b)
     \<and> (\<forall>k out. f_hold s k = Some out \<longrightarrow> k < length J \<and> fx_decode inner (J ! k) = Inr out)"

text \<open>What was returned, in order, and how the reading ended.\<close>

definition fails :: "'e inner \<Rightarrow> job list \<Rightarrow> 'e fx_error option \<Rightarrow> bool" where
  "fails inner J E \<longleftrightarrow> E \<noteq> None \<or> (\<exists>j \<in> set J. isl (fx_decode inner j))"

definition inv_out :: "'e inner \<Rightarrow> job list \<Rightarrow> 'e fx_error option \<Rightarrow> 'e fx \<Rightarrow> bool" where
  "inv_out inner J E s \<longleftrightarrow>
     f_want s \<le> length J \<and> map (fx_decode inner) (take (f_want s) J) = map Inr (f_out s)
     \<and> (\<forall>e. f_fin s = Some (FxErr e) \<longrightarrow> fails inner J E)"

text \<open>
  The group is only cancelled from inside when a failure is on its way to the reader or has
  reached it. Without a cancellation every block read and not returned is somewhere, and
  workers leave only after the last block.
\<close>

definition inv_group :: "'e fx \<Rightarrow> bool" where
  "inv_group s \<longleftrightarrow>
     (f_group s \<and> \<not> f_ctx s \<longrightarrow> (\<exists>b \<in> set (f_results s). isl (b_res b)) \<or> (\<exists>e. f_fin s = Some (FxErr e)))"

definition somewhere :: "'e fx \<Rightarrow> nat set" where
  "somewhere s = j_seq ` set (f_jobs s) \<union> b_seq ` (held_by (f_workers s) \<union> set (f_results s)) \<union> dom (f_hold s)"

definition inv_count :: "'e fx \<Rightarrow> bool" where
  "inv_count s \<longleftrightarrow>
     (\<not> fx_done s \<longrightarrow> {f_want s..<f_seq s} \<subseteq> somewhere s)
     \<and> (WGone \<in> set (f_workers s) \<longrightarrow> fx_done s \<or> f_prod s = PStopped \<and> f_jobs s = [])
     \<and> (f_closed s \<longrightarrow> f_prod s = PStopped \<and> set (f_workers s) \<subseteq> {WGone})
     \<and> (\<forall>b \<in> set (f_results s). isl (b_res b) \<longrightarrow> f_group s)"

definition inv_end :: "job list \<Rightarrow> 'e fx_error option \<Rightarrow> 'e fx \<Rightarrow> bool" where
  "inv_end J E s \<longleftrightarrow> (f_fin s = Some FxEOF \<longrightarrow> f_ctx s \<or> f_want s = length J \<and> E = None)"

text \<open>Workers are updated in place.\<close>

lemma held_by_update: "held_by (ws[k := w]) \<subseteq> held_by ws \<union> {b. w = WDelivering b}"
  unfolding held_by_def by (auto dest: set_update_subset_insert [THEN subsetD])

lemma held_by_keep:
  assumes "k < length ws" "b \<in> held_by ws" "ws ! k \<noteq> WDelivering b"
  shows "b \<in> held_by (ws[k := w])"
  using assms by (auto simp: held_by_def in_set_conv_nth) (metis nth_list_update_neq)

lemma held_by_new: "k < length ws \<Longrightarrow> b \<in> held_by (ws[k := WDelivering b])"
  by (simp add: held_by_def set_update_memI)

lemma held_by_nth: "k < length ws \<Longrightarrow> ws ! k = WDelivering b \<Longrightarrow> b \<in> held_by ws"
  unfolding held_by_def using nth_mem by fastforce

lemma gone_update: "WGone \<in> set (ws[k := w]) \<Longrightarrow> WGone \<in> set ws \<or> w = WGone"
  by (auto dest: set_update_subset_insert [THEN subsetD])

lemma at_job_Job:
  assumes "at_job J E k src" "readJob k src = (Job j src' :: 'e job_read)" "E = (E' :: 'e fx_error option)"
  shows "k < length J \<and> j = J ! k \<and> at_job J E (k + 1) src'"
proof -
  obtain js e where "jobs_of (k + 1) src' = (js, e :: 'e fx_error option)" by fastforce
  then have "drop k J = j # js" "e = E" "jobs_of (k + 1) src' = (js, E)"
    using assms by (auto simp: at_job_def jobs_of.simps [of k src])
  moreover from this have "k < length J" by (cases "k < length J") auto
  ultimately show ?thesis
    using Cons_nth_drop_Suc [of k J] by (auto simp: at_job_def)
qed

lemma inv_prod_step: "fx_step inner s s' \<Longrightarrow> inv_prod J E s \<Longrightarrow> inv_prod J E s'"
proof (induction rule: fx_step.induct)
  case (read_job s j src')
  then show ?case using at_job_Job [of J E "f_seq s" "f_src s" j src'] by (simp add: inv_prod_def)
next
  case (read_end s)
  then show ?case by (auto simp: inv_prod_def at_job_def jobs_of.simps [of "f_seq s" "f_src s"])
next
  case (read_fail s e)
  then show ?case by (auto simp: inv_prod_def at_job_def jobs_of.simps [of "f_seq s" "f_src s"])
qed (auto simp: inv_prod_def take_held_def take_result_def split: producer.splits sum.splits)

lemma inv_blocks_step:
  assumes "fx_step inner s s'" "inv_blocks inner J E s" "inv_prod J E s" "\<forall>i < length J. j_seq (J ! i) = i"
  shows "inv_blocks inner J E s'"
  using assms
proof (induction rule: fx_step.induct)
  case (fail_send s e)
  then show ?case by (auto simp: inv_blocks_def inv_prod_def good_block_def)
next
  case (receive k s j js)
  have "good_block inner J E \<lparr>b_seq = j_seq j, b_res = fx_decode inner j\<rparr>"
    using receive by (auto simp: inv_blocks_def good_block_def)
  with receive show ?case by (auto simp: inv_blocks_def dest!: held_by_update [THEN subsetD])
next
  case (deliver k s b)
  then have "good_block inner J E b" using held_by_nth [of k "f_workers s" b] by (auto simp: inv_blocks_def)
  with deliver show ?case
    by (auto simp: inv_blocks_def after_delivery_def dest!: held_by_update [THEN subsetD] split: if_splits)
next
  case (take_receive s b bs)
  have g: "good_block inner J E b" using take_receive by (simp add: inv_blocks_def)
  have "b_seq b < length J \<and> fx_decode inner (J ! b_seq b) = Inr out" if "b_res b = Inr out" for out
    using g that by (auto simp: good_block_def)
  with take_receive show ?case by (auto simp: inv_blocks_def take_result_def split: sum.splits)
qed (auto simp: inv_blocks_def inv_prod_def take_held_def dest!: held_by_update [THEN subsetD])

lemma take_emit:
  assumes "inv_out inner J E s" "f_want s < length J" "fx_decode inner (J ! f_want s) = Inr out"
  shows "Suc (f_want s) \<le> length J \<and> map (fx_decode inner) (take (Suc (f_want s)) J) = map Inr (f_out s @ [out])"
  using assms by (simp add: inv_out_def take_Suc_conv_app_nth)

lemma inv_out_step:
  assumes "fx_step inner s s'" "inv_out inner J E s" "inv_blocks inner J E s"
  shows "inv_out inner J E s'"
  using assms
proof (induction rule: fx_step.induct)
  case (take_hold s out)
  then have "f_want s < length J" "fx_decode inner (J ! f_want s) = Inr out" by (auto simp: inv_blocks_def)
  from take_emit [OF take_hold.prems(1) this] take_hold show ?case by (simp add: inv_out_def take_held_def)
next
  case (take_receive s b bs)
  have g: "good_block inner J E b" using take_receive by (simp add: inv_blocks_def)
  show ?case
  proof (cases "b_res b")
    case (Inl e)
    with g have "fails inner J E" by (auto simp: good_block_def fails_def in_set_conv_nth) (metis isl_def nth_mem)
    with Inl take_receive show ?thesis by (simp add: inv_out_def take_result_def)
  next
    case (Inr out)
    with g have "b_seq b < length J" "fx_decode inner (J ! b_seq b) = Inr out" by (auto simp: good_block_def)
    with Inr take_emit [OF take_receive.prems(1), of out] take_receive show ?thesis
      by (auto simp: inv_out_def take_result_def)
  qed
qed (auto simp: inv_out_def)

lemma inv_group_step: "fx_step inner s s' \<Longrightarrow> inv_group s \<Longrightarrow> inv_group s'"
  by (induction rule: fx_step.induct) (auto simp: inv_group_def take_held_def take_result_def split: sum.splits)

lemma tail_covered: "{w..<q} \<subseteq> A \<Longrightarrow> A \<subseteq> insert w B \<Longrightarrow> {w + 1..<q} \<subseteq> B" for w q :: nat
proof
  fix x assume a: "{w..<q} \<subseteq> A" "A \<subseteq> insert w B" "x \<in> {w + 1..<q}"
  then have "x \<in> {w..<q}" "x \<noteq> w" by simp_all
  with a(1,2) have "x \<in> insert w B" "x \<noteq> w" by blast+
  then show "x \<in> B" by simp
qed

lemma inv_count_step:
  assumes "fx_step inner s s'" "inv_count s" "inv_prod J E s" "\<forall>i < length J. j_seq (J ! i) = i"
  shows "inv_count s'"
  using assms
proof (induction rule: fx_step.induct)
  case (offer s j)
  then have "j_seq j = f_seq s" by (simp add: inv_prod_def)
  then have "somewhere (s\<lparr>f_jobs := [j], f_prod := PReading, f_seq := f_seq s + 1\<rparr>) = insert (f_seq s) (somewhere s)"
    using offer.hyps by (auto simp: somewhere_def)
  moreover have "{f_want s..<f_seq s + 1} \<subseteq> insert (f_seq s) {f_want s..<f_seq s}" by auto
  ultimately show ?case using offer by (auto simp: inv_count_def)
next
  case (receive k s j js)
  let ?b = "\<lparr>b_seq = j_seq j, b_res = fx_decode inner j\<rparr>"
  have "held_by (f_workers s) \<subseteq> held_by ((f_workers s)[k := WDelivering ?b])"
    using receive.hyps by (auto intro!: held_by_keep)
  moreover have "?b \<in> held_by ((f_workers s)[k := WDelivering ?b])" by (rule held_by_new [OF receive.hyps(1)])
  ultimately have "somewhere s \<subseteq> somewhere (s\<lparr>f_jobs := js, f_workers := (f_workers s)[k := WDelivering ?b]\<rparr>)"
    using receive.hyps by (auto simp: somewhere_def) (metis fx_block.select_convs(1) image_eqI Un_iff)+
  moreover have "WWaiting \<in> set (f_workers s)" using receive.hyps nth_mem by metis
  then have "\<not> set (f_workers s) \<subseteq> {WGone}" by auto
  ultimately show ?case using receive by (auto simp: inv_count_def dest!: gone_update dest: subset_trans)
next
  case (leave k s)
  have "held_by (f_workers s) \<subseteq> held_by ((f_workers s)[k := WGone])"
    using leave.hyps by (auto intro!: held_by_keep)
  then have "somewhere s \<subseteq> somewhere (s\<lparr>f_workers := (f_workers s)[k := WGone]\<rparr>)" by (auto simp: somewhere_def)
  moreover have "WWaiting \<in> set (f_workers s)" using leave.hyps nth_mem by metis
  then have "\<not> set (f_workers s) \<subseteq> {WGone}" by auto
  ultimately show ?case using leave by (auto simp: inv_count_def dest: subset_trans)
next
  case (deliver k s b)
  let ?ws = "(f_workers s)[k := after_delivery b]"
  let ?s = "s\<lparr>f_results := f_results s @ [b], f_workers := ?ws, f_group := f_group s \<or> isl (b_res b)\<rparr>"
  have "held_by (f_workers s) \<subseteq> insert b (held_by ?ws)"
    using deliver.hyps by (auto intro!: held_by_keep)
  then have m: "somewhere s \<subseteq> somewhere ?s" by (auto simp: somewhere_def)
  have "WDelivering b \<in> set (f_workers s)" using deliver.hyps nth_mem by metis
  then have c: "\<not> f_closed s" using deliver.prems(1) by (auto simp: inv_count_def)
  have "WGone \<in> set ?ws \<longrightarrow> WGone \<in> set (f_workers s) \<or> isl (b_res b)"
    by (auto simp: after_delivery_def dest: gone_update)
  moreover define t where "t = ?s"
  moreover have "f_want t = f_want s" "f_seq t = f_seq s" "f_workers t = ?ws" "f_ctx t = f_ctx s" "f_closed t = f_closed s"
    "f_group t \<longleftrightarrow> f_group s \<or> isl (b_res b)" "f_prod t = f_prod s" "f_jobs t = f_jobs s" by (simp_all add: t_def)
  ultimately have "inv_count t" using deliver.prems(1) m c by (auto simp: inv_count_def)
  then show ?case by (simp add: t_def)
next
  case (deliver_done k s b)
  have "WDelivering b \<in> set (f_workers s)" using deliver_done.hyps nth_mem by metis
  then have "\<not> set (f_workers s) \<subseteq> {WGone}" by auto
  with deliver_done show ?case by (auto simp: inv_count_def)
next
  case (take_hold s out)
  have "somewhere s \<subseteq> insert (f_want s) (somewhere (take_held out s))" by (auto simp: somewhere_def take_held_def)
  from tail_covered [OF _ this, of "f_seq s"] take_hold show ?case by (auto simp: inv_count_def take_held_def)
next
  case (take_receive s b bs)
  show ?case
  proof (cases "b_res b")
    case (Inl e)
    then have "f_group s" using take_receive by (auto simp: inv_count_def)
    with Inl take_receive show ?thesis by (auto simp: inv_count_def take_result_def)
  next
    case (Inr out)
    let ?s = "take_result b (s\<lparr>f_results := bs\<rparr>)"
    have "b_seq b = f_want s \<Longrightarrow> somewhere s \<subseteq> insert (f_want s) (somewhere ?s)"
      "b_seq b \<noteq> f_want s \<Longrightarrow> somewhere s \<subseteq> somewhere ?s"
      using take_receive.hyps Inr by (auto simp: somewhere_def take_result_def)
    moreover note tail_covered [of "f_want s" "f_seq s" "somewhere s" "somewhere ?s"]
    ultimately show ?thesis using take_receive Inr
      by (cases "b_seq b = f_want s") (auto simp: inv_count_def take_result_def)
  qed
qed (auto simp: inv_count_def somewhere_def)

lemma inv_end_step:
  assumes "fx_step inner s s'" "inv_end J E s" "inv_count s" "inv_prod J E s" "inv_group s" "inv_out inner J E s"
    "f_workers s \<noteq> []"
  shows "inv_end J E s'"
  using assms
proof (induction rule: fx_step.induct)
  case (take_end s)
  show ?case
  proof (cases "f_ctx s")
    case False
    then have nd: "\<not> fx_done s" using take_end by (auto simp: inv_group_def)
    have stop: "f_prod s = PStopped" "set (f_workers s) \<subseteq> {WGone}" using take_end by (auto simp: inv_count_def)
    then have "WGone \<in> set (f_workers s)" using take_end.prems(6) by (cases "f_workers s") auto
    then have "f_jobs s = []" using nd take_end by (auto simp: inv_count_def)
    moreover have "held_by (f_workers s) = {}" using stop by (auto simp: held_by_def)
    ultimately have "{f_want s..<f_seq s} \<subseteq> dom (f_hold s)"
      using nd take_end by (auto simp: inv_count_def somewhere_def)
    then have "f_seq s \<le> f_want s" using take_end.hyps(2) by (meson atLeastLessThan_iff domIff linorder_not_le order_refl subsetD)
    moreover have "f_seq s = length J" "E = None" using nd stop take_end by (auto simp: inv_prod_def)
    ultimately show ?thesis using take_end by (simp add: inv_end_def inv_out_def)
  qed (simp add: inv_end_def)
qed (auto simp: inv_end_def take_held_def take_result_def split: sum.splits)

text \<open>All of them hold in every run.\<close>

definition fx_inv :: "'e inner \<Rightarrow> job list \<Rightarrow> 'e fx_error option \<Rightarrow> 'e fx \<Rightarrow> bool" where
  "fx_inv inner J E s \<longleftrightarrow>
     inv_prod J E s \<and> inv_blocks inner J E s \<and> inv_out inner J E s \<and> inv_group s \<and> inv_count s \<and> inv_end J E s"

lemma workers_length: "fx_step inner s s' \<Longrightarrow> length (f_workers s') = length (f_workers s)"
  by (induction rule: fx_step.induct) (auto simp: take_held_def take_result_def split: sum.splits)

lemma reach_workers: "fx_reach inner n src s \<Longrightarrow> length (f_workers s) = n"
  by (induction rule: fx_reach.induct) (auto simp: fx_launch_def cancel_ctx_def dest: workers_length)

lemma fx_inv_launch:
  assumes "jobs_of 0 src = (J, E)"
  shows "fx_inv inner J E (fx_launch n src)"
  using assms by (simp add: fx_inv_def fx_launch_def inv_prod_def at_job_def inv_blocks_def held_by_def inv_out_def
      inv_group_def inv_count_def inv_end_def)

lemma fx_inv_reach:
  fixes inner :: "'e inner"
  assumes "fx_reach inner n src s" "jobs_of 0 src = (J, E :: 'e fx_error option)" "0 < n"
  shows "fx_inv inner J E s"
  using assms
proof (induction rule: fx_reach.induct)
  case reach_launch
  then show ?case by (intro fx_inv_launch)
next
  case (reach_step s s')
  have q: "\<forall>i < length J. j_seq (J ! i) = i" using jobs_of_seq [of _ 0 src] reach_step.prems(1) by (metis add_0 fst_conv)
  have w: "f_workers s \<noteq> []" using reach_workers [OF reach_step.hyps(1)] reach_step.prems(2) by auto
  have i: "fx_inv inner J E s" using reach_step by simp
  with q w reach_step.hyps(2) show ?case
    unfolding fx_inv_def
    by (blast intro: inv_prod_step inv_blocks_step inv_out_step inv_group_step inv_count_step inv_end_step)
next
  case (reach_cancel s)
  then have "fx_inv inner J E s" by simp
  then show ?case
    by (auto simp: fx_inv_def cancel_ctx_def inv_prod_def inv_blocks_def inv_out_def inv_group_def inv_count_def inv_end_def
        somewhere_def split: producer.splits)
qed

section \<open>What every run delivers\<close>

lemma fx_eof_sequential:
  fixes inner :: "'e inner"
  assumes "fx_reach inner n src s" "0 < n" "f_fin s = Some FxEOF" "\<not> f_ctx s"
  shows "sequential inner src = Inr (f_out s)"
proof -
  obtain J E where J: "jobs_of 0 src = (J, E :: 'e fx_error option)" by fastforce
  note i = fx_inv_reach [OF assms(1) J assms(2)]
  have "f_want s = length J" "E = None" using i assms(3,4) by (auto simp: fx_inv_def inv_end_def)
  moreover have "map (fx_decode inner) (take (f_want s) J) = map Inr (f_out s)" using i by (simp add: fx_inv_def inv_out_def)
  ultimately show ?thesis using decode_all_iff [of inner J "f_out s"] by (simp add: sequential_def J)
qed

lemma fx_err_sequential:
  fixes inner :: "'e inner"
  assumes "fx_reach inner n src s" "0 < n" "f_fin s = Some (FxErr e)"
  shows "isl (sequential inner src)"
proof -
  obtain J E where J: "jobs_of 0 src = (J, E :: 'e fx_error option)" by fastforce
  have f: "fails inner J E" using fx_inv_reach [OF assms(1) J assms(2)] assms(3) by (auto simp: fx_inv_def inv_out_def)
  show ?thesis
  proof (cases "decode_all inner J")
    case (Inr os)
    then have "E \<noteq> None" using f decode_all_no_fail [OF Inr] by (auto simp: fails_def)
    then show ?thesis using Inr by (auto simp: sequential_def J)
  qed (simp add: sequential_def J)
qed

text \<open>
  C4: the concurrent decoder implements the sequential one. However the goroutines are scheduled, a
  run that ends at the end of the stream has returned exactly the blocks of the sequential decoder,
  unless its context was cancelled from outside, and one that ends with an error has an input on
  which the sequential decoder fails.
\<close>

theorem fx_refines:
  assumes "fx_reach inner n src s" "0 < n" "f_fin s = Some r"
  shows "case r of
     FxEOF \<Rightarrow> f_ctx s \<or> sequential inner src = Inr (f_out s)
   | FxErr e \<Rightarrow> isl (sequential inner src)"
  using assms fx_eof_sequential fx_err_sequential by (cases r) auto

text \<open>
  At every moment of every run, cancelled or not, the blocks returned so far are the first
  blocks of the stream, decoded, in their order.
\<close>

theorem fx_in_order:
  fixes inner :: "'e inner"
  assumes "fx_reach inner n src s" "0 < n"
  shows "map Inr (f_out s) = map (fx_decode inner) (take (length (f_out s)) (fst (jobs_of 0 src :: _ \<times> 'e fx_error option)))"
proof -
  obtain J E where J: "jobs_of 0 src = (J, E :: 'e fx_error option)" by fastforce
  have o: "f_want s \<le> length J" "map (fx_decode inner) (take (f_want s) J) = map Inr (f_out s)"
    using fx_inv_reach [OF assms(1) J assms(2)] by (simp_all add: fx_inv_def inv_out_def)
  from arg_cong [OF o(2), of length] o(1) have "length (f_out s) = f_want s" by simp
  with o(2) show ?thesis by (simp add: J)
qed

text \<open>No deadlock: some goroutine or the caller itself can go on.\<close>

lemma fx_progress:
  fixes inner :: "'e inner"
  assumes "fx_reach inner n src s" "0 < n" "f_fin s = None"
  shows "\<exists>s'. fx_step inner s s'"
proof -
  obtain J E where J: "jobs_of 0 src = (J, E :: 'e fx_error option)" by fastforce
  have ic: "inv_count s" using fx_inv_reach [OF assms(1) J assms(2)] by (simp add: fx_inv_def)
  have n: "length (f_workers s) = n" using assms(1) by (rule reach_workers)
  show ?thesis
  proof (cases "f_hold s (f_want s) \<noteq> None \<or> f_results s \<noteq> []")
    case True
    then show ?thesis using assms(3) by (cases "f_hold s (f_want s)") (auto simp: neq_Nil_conv intro: take_hold take_receive)
  next
    case idle: False
    then have room: "room s" using n assms(2) by simp
    consider (d) k b where "k < n" "f_workers s ! k = WDelivering b" | (w) k where "k < n" "f_workers s ! k = WWaiting"
      | (g) "set (f_workers s) \<subseteq> {WGone}"
      using n by (metis in_set_conv_nth insertCI subsetI worker.exhaust)
    then show ?thesis
    proof cases
      case d
      then show ?thesis using room n deliver [of k s b inner] by blast
    next
      case w
      show ?thesis
      proof (cases "f_jobs s")
        case (Cons j js)
        then show ?thesis using w n receive [of k s j js inner] by blast
      next
        case Nil
        show ?thesis
        proof (cases "f_prod s")
          case PReading
          then show ?thesis using read_job [of s _ _ inner] read_end [of s inner] read_fail [of s _ inner]
            by (cases "readJob (f_seq s) (f_src s) :: 'e job_read") blast+
        next
          case (POffering j)
          then show ?thesis using Nil offer [of s j inner] by blast
        next
          case (PFailing e)
          then show ?thesis using room fail_send [of s e inner] by blast
        next
          case PStopped
          then show ?thesis using w n Nil leave [of k s inner] by blast
        qed
      qed
    next
      case g
      then have "WGone \<in> set (f_workers s)" using n assms(2) by (cases "f_workers s") auto
      then have cases: "fx_done s \<or> f_prod s = PStopped" using ic by (auto simp: inv_count_def)
      show ?thesis
      proof (cases "f_prod s")
        case PReading
        then show ?thesis using read_job [of s _ _ inner] read_end [of s inner] read_fail [of s _ inner]
          by (cases "readJob (f_seq s) (f_src s) :: 'e job_read") blast+
      next
        case (POffering j)
        then show ?thesis using cases offer_done [of s j inner] by auto
      next
        case (PFailing e)
        then show ?thesis using room fail_send [of s e inner] by blast
      next
        case PStopped
        then show ?thesis
          using g idle assms(3) close_results [of s inner] take_end [of s inner] by (cases "f_closed s") auto
      qed
    qed
  qed
qed

section \<open>Every run ends\<close>

text \<open>What is left to do: the weight of everything that still has to move.\<close>

fun prod_left :: "'e producer \<Rightarrow> nat" where
  "prod_left PReading = 5"
| "prod_left (POffering j) = 11"
| "prod_left (PFailing e) = 4"
| "prod_left PStopped = 0"

fun worker_left :: "'e worker \<Rightarrow> nat" where
  "worker_left WWaiting = 1"
| "worker_left (WDelivering b) = 5"
| "worker_left WGone = 0"

definition workers_left :: "'e worker list \<Rightarrow> nat" where
  "workers_left ws = sum_list (map worker_left ws)"

definition fx_left :: "'e fx \<Rightarrow> nat" where
  "fx_left s =
     length (f_src s) + prod_left (f_prod s) + 5 * length (f_jobs s) + workers_left (f_workers s)
     + 3 * length (f_results s) + card (dom (f_hold s)) + (if f_closed s then 0 else 1) + (if f_fin s = None then 1 else 0)"

lemma workers_left_update:
  "k < length ws \<Longrightarrow> workers_left (ws[k := w]) + worker_left (ws ! k) = workers_left ws + worker_left w"
proof (induction ws arbitrary: k)
  case (Cons a ws)
  then show ?case by (cases k) (auto simp: workers_left_def)
qed simp

lemma fx_left_step:
  "fx_step inner s s' \<Longrightarrow> finite (dom (f_hold s)) \<Longrightarrow> finite (dom (f_hold s')) \<and> fx_left s' < fx_left s"
proof (induction rule: fx_step.induct)
  case (read_job s j src')
  then show ?case using readJob_shorter [OF read_job.hyps(2)] by (simp add: fx_left_def)
next
  case (receive k s j js)
  then show ?case using workers_left_update [OF receive.hyps(1), of "WDelivering \<lparr>b_seq = j_seq j, b_res = fx_decode inner j\<rparr>"]
    by (simp add: fx_left_def)
next
  case (leave k s)
  then show ?case using workers_left_update [OF leave.hyps(1), of WGone] by (simp add: fx_left_def)
next
  case (deliver k s b)
  then show ?case using workers_left_update [OF deliver.hyps(1), of "after_delivery b"]
    by (simp add: fx_left_def after_delivery_def split: if_splits)
next
  case (deliver_done k s b)
  then show ?case using workers_left_update [OF deliver_done.hyps(1), of WGone] by (simp add: fx_left_def)
next
  case (take_hold s out)
  then have "card (dom (f_hold s) - {f_want s}) < card (dom (f_hold s))"
    by (intro psubset_card_mono) auto
  moreover have "dom (\<lambda>a. if a = f_want s then None else f_hold s a) = dom (f_hold s) - {f_want s}"
    by (auto split: if_splits)
  ultimately show ?case using take_hold by (simp add: fx_left_def take_held_def)
next
  case (take_receive s b bs)
  have "card (insert (b_seq b) (dom (f_hold s))) \<le> Suc (card (dom (f_hold s)))" by (rule card_insert_le_m1) simp_all
  with take_receive show ?case by (simp add: fx_left_def take_result_def split: sum.splits)
qed (auto simp: fx_left_def)

text \<open>So a run that has not ended can go on to its end, without a cancellation.\<close>

lemma ctx_step: "fx_step inner s s' \<Longrightarrow> f_ctx s' = f_ctx s"
  by (induction rule: fx_step.induct) (auto simp: take_held_def take_result_def split: sum.splits)

lemma reach_finite: "fx_reach inner n src s \<Longrightarrow> finite (dom (f_hold s))"
  by (induction rule: fx_reach.induct) (auto simp: fx_launch_def cancel_ctx_def dest: fx_left_step)

lemma fx_completes:
  fixes inner :: "'e inner"
  assumes "fx_reach inner n src s" "0 < n"
  shows "\<exists>s'. (fx_step inner)\<^sup>*\<^sup>* s s' \<and> fx_reach inner n src s' \<and> f_fin s' \<noteq> None \<and> f_ctx s' = f_ctx s"
  using assms(1)
proof (induction "fx_left s" arbitrary: s rule: less_induct)
  case less
  show ?case
  proof (cases "f_fin s")
    case None
    then obtain s1 where s1: "fx_step inner s s1" using fx_progress [OF less.prems assms(2)] by blast
    then have "fx_reach inner n src s1" "fx_left s1 < fx_left s"
      using less.prems fx_left_step [OF s1 reach_finite [OF less.prems]] by (auto intro: reach_step)
    from less.hyps [OF this(2,1)] s1 ctx_step [OF s1] show ?thesis
      by (metis converse_rtranclp_into_rtranclp)
  qed (use less.prems in auto)
qed

text \<open>
  C25: liveness. As long as the caller has neither the end nor an error, some goroutine or the caller
  itself can go on, and steps of theirs alone lead to the end or to an error.
\<close>

theorem fx_live:
  assumes "fx_reach inner n src s" "0 < n" "f_fin s = None"
  shows "(\<exists>s'. fx_step inner s s') \<and> (\<exists>s'. (fx_step inner)\<^sup>*\<^sup>* s s' \<and> f_fin s' \<noteq> None \<and> f_ctx s' = f_ctx s)"
  using fx_progress [OF assms] fx_completes [OF assms(1,2)] by blast

lemma fx_live_witness:
  "(\<exists>s'. fx_step (\<lambda>c. Inr (c, None)) (fx_launch 2 [1] :: unit fx) s')
   \<and> (\<exists>s'. (fx_step (\<lambda>c. Inr (c, None)))\<^sup>*\<^sup>* (fx_launch 2 [1] :: unit fx) s' \<and> f_fin s' \<noteq> None
       \<and> f_ctx s' = f_ctx (fx_launch 2 [1] :: unit fx))"
  by (rule fx_live [OF reach_launch]) (simp_all add: fx_launch_def)

text \<open>A finished run exists for every input.\<close>

lemma fx_finished_run:
  assumes "0 < n"
  obtains s r where "fx_reach inner n src s" "f_fin s = Some r" "\<not> f_ctx s"
proof -
  have "\<not> f_ctx (fx_launch n src)" by (simp add: fx_launch_def)
  then show thesis using fx_completes [OF reach_launch [of inner n src] assms] that by auto
qed

text \<open>Runs with their steps counted; a cancellation from outside is not a step of the program.\<close>

inductive fx_run :: "'e inner \<Rightarrow> nat \<Rightarrow> bytes \<Rightarrow> nat \<Rightarrow> 'e fx \<Rightarrow> bool" for inner n src where
  run_launch: "fx_run inner n src 0 (fx_launch n src)"
| run_step: "fx_run inner n src k s \<Longrightarrow> fx_step inner s s' \<Longrightarrow> fx_run inner n src (k + 1) s'"
| run_cancel: "fx_run inner n src k s \<Longrightarrow> fx_run inner n src k (cancel_ctx s)"

lemma fx_run_reach: "fx_run inner n src k s \<Longrightarrow> fx_reach inner n src s"
  by (induction rule: fx_run.induct) (auto intro: fx_reach.intros)

lemma fx_reach_run: "fx_reach inner n src s \<Longrightarrow> \<exists>k. fx_run inner n src k s"
  by (induction rule: fx_reach.induct) (auto intro: fx_run.intros)

lemma fx_run_none: "fx_run inner n src k s \<Longrightarrow> k = 0 \<Longrightarrow> f_fin s = None"
  by (induction rule: fx_run.induct) (simp_all add: fx_launch_def cancel_ctx_def)

text \<open>
  C26: every run ends. Whatever the schedule and whenever the context is cancelled, \<open>n\<close> workers on
  a stream of \<open>m\<close> bytes make at most \<open>m + n + 7\<close> steps.
\<close>

theorem fx_terminates:
  assumes "fx_run inner n src k s"
  shows "k \<le> length src + n + 7"
proof -
  have "finite (dom (f_hold s)) \<and> k + fx_left s \<le> length src + n + 7" using assms
  proof (induction rule: fx_run.induct)
    case run_launch
    then show ?case by (simp add: fx_launch_def fx_left_def workers_left_def sum_list_replicate)
  next
    case (run_step k s s')
    then show ?case using fx_left_step [OF run_step.hyps(2)] by auto
  next
    case (run_cancel k s)
    then show ?case by (simp add: cancel_ctx_def fx_left_def)
  qed
  then show ?thesis by simp
qed

section \<open>Cancellation\<close>

lemma leave_all:
  assumes "fx_reach inner n src s" "f_jobs s = []" "f_prod s = PStopped" "f_workers s = replicate n WWaiting" "k \<le> n"
  shows "fx_reach inner n src (s\<lparr>f_workers := replicate k WGone @ replicate (n - k) WWaiting\<rparr>)"
  using assms(5)
proof (induction k)
  case 0
  then show ?case using assms(1,4) by (metis append_Nil diff_zero fx.surjective fx.update_convs(5) replicate_0)
next
  case (Suc k)
  let ?s = "s\<lparr>f_workers := replicate k WGone @ replicate (n - k) WWaiting\<rparr>"
  have e: "(f_workers ?s)[k := WGone] = replicate (Suc k) WGone @ replicate (n - Suc k) WWaiting"
  proof -
    have "n - k = Suc (n - Suc k)" using Suc.prems by simp
    then show ?thesis by (simp add: list_update_append replicate_app_Cons_same)
  qed
  have "fx_step inner ?s (?s\<lparr>f_workers := (f_workers ?s)[k := WGone]\<rparr>)"
    by (rule leave) (use Suc.prems assms in \<open>simp_all add: nth_append\<close>)
  moreover have "fx_reach inner n src ?s" using Suc by simp
  ultimately have "fx_reach inner n src (?s\<lparr>f_workers := (f_workers ?s)[k := WGone]\<rparr>)" by (blast intro: reach_step)
  then show ?case using e by simp
qed

text \<open>
  C37: a cancelled context looks like the end of the stream. For every stream that starts with a
  block and every number of workers there is a run in which the context is cancelled and the caller
  is told the end of the stream, with no error, before it has seen a single block.
\<close>

theorem fx_cancel_truncates:
  fixes inner :: "'e inner"
  assumes "0 < n" "readJob 0 src = (Job j src' :: 'e job_read)"
  shows "\<exists>s. fx_reach inner n src s \<and> f_fin s = Some FxEOF \<and> f_out s = [] \<and> sequential inner src \<noteq> Inr (f_out s)"
proof -
  let ?s0 = "fx_launch n src :: 'e fx"
  let ?s1 = "?s0\<lparr>f_src := src', f_prod := POffering j\<rparr>"
  let ?s2 = "cancel_ctx ?s1"
  let ?s3 = "?s2\<lparr>f_prod := PStopped, f_group := True\<rparr>"
  let ?s4 = "?s3\<lparr>f_workers := replicate n WGone @ replicate (n - n) WWaiting\<rparr>"
  let ?s5 = "?s4\<lparr>f_closed := True\<rparr>"
  let ?s6 = "?s5\<lparr>f_fin := Some FxEOF\<rparr>"
  have "fx_step inner ?s0 ?s1" by (rule read_job) (use assms(2) in \<open>simp_all add: fx_launch_def\<close>)
  then have "fx_reach inner n src ?s2" by (blast intro: fx_reach.intros)
  moreover have "fx_step inner ?s2 ?s3" by (rule offer_done [of _ j]) (simp_all add: cancel_ctx_def)
  ultimately have "fx_reach inner n src ?s3" by (rule reach_step)
  then have "fx_reach inner n src ?s4" by (rule leave_all) (simp_all add: fx_launch_def cancel_ctx_def)
  moreover have "fx_step inner ?s4 ?s5" by (rule close_results) (auto simp: fx_launch_def cancel_ctx_def)
  ultimately have "fx_reach inner n src ?s5" by (rule reach_step)
  moreover have "fx_step inner ?s5 ?s6" by (rule take_end) (simp_all add: fx_launch_def cancel_ctx_def)
  ultimately have "fx_reach inner n src ?s6" by (rule reach_step)
  moreover obtain js e where "jobs_of (0 + 1) src' = (js, e :: 'e fx_error option)" by fastforce
  then have "sequential inner src \<noteq> Inr []"
    using assms(2) by (auto simp: sequential_def jobs_of.simps [of 0 src] res_simps split: option.splits)
  ultimately show ?thesis by (intro exI [of _ ?s6]) (simp add: fx_launch_def cancel_ctx_def)
qed

section \<open>The reader\<close>

text \<open>
  \<open>NewReader\<close> parses the method string and reads the version word; its checks against nil
  arguments are not states of the model. \<open>Read\<close> is a pull loop over \<open>take\<close>, of the same shape as
  the one of \<open>internal/chunkbuf\<close>, and \<open>Close\<close> cancels the goroutines.
\<close>

definition fx_NewReader :: "bytes \<Rightarrow> bytes \<Rightarrow> 'e fx_error + (bytes \<times> bytes) \<times> 'e fx_error chunkbuf \<times> bytes" where
  "fx_NewReader params src =
     bindE (parseInner params) (\<lambda>method.
       bindE (readVersion src) (\<lambda>(eof, src'). Inr (method, newChunkbuf\<lparr>cb_eof := eof\<rparr>, src')))"

definition fx_Read ::
    "('s \<Rightarrow> 'e fx_error pulled \<times> 's) \<Rightarrow> nat \<Rightarrow> 'e fx_error chunkbuf \<Rightarrow> 's \<Rightarrow>
      (bytes \<times> 'e fx_error read_error option \<times> 'e fx_error chunkbuf \<times> 's) option" where
  "fx_Read tk n r s =
     (let drained = length (cb_buf r) \<le> cb_off r in
      if drained \<and> cb_err r \<noteq> None then Some ([], Some (ReadErr (the (cb_err r))), r, s)
      else if drained \<and> cb_eof r then Some ([], Some ReadEOF, r, s)
      else (case fill tk r s of
          None \<Rightarrow> None
        | Some (Some e, r, s) \<Rightarrow> Some ([], Some e, r, s)
        | Some (None, r, s) \<Rightarrow>
            (let p = take n (drop (cb_off r) (cb_buf r)) in Some (p, None, r\<lparr>cb_off := cb_off r + length p\<rparr>, s))))"

definition fx_Close :: "'e fx_error chunkbuf \<Rightarrow> 'e fx \<Rightarrow> 'e fx_error chunkbuf \<times> 'e fx" where
  "fx_Close r s = (r\<lparr>cb_err := Some FxClosed, cb_buf := []\<rparr>, cancel_ctx s)"

lemma fx_Read_chunkbuf: "fx_Read tk n r s = readChunkbuf tk n r s"
proof (cases "length (cb_buf r) \<le> cb_off r \<and> cb_err r = None \<and> cb_eof r")
  case True
  then show ?thesis by (simp add: fx_Read_def readChunkbuf_def fill.simps [of tk r s])
next
  case False
  then show ?thesis
    by (auto simp: fx_Read_def readChunkbuf_def Let_def split: option.splits)
qed

text \<open>The results of the calls of \<open>take\<close> in a run that has ended, as a source of blocks.\<close>

fun fx_source :: "bytes list \<times> 'e fx_end \<Rightarrow> 'e fx_error pulled \<times> (bytes list \<times> 'e fx_end)" where
  "fx_source (b # bs, r) = (Block b, (bs, r))"
| "fx_source ([], FxEOF) = (End, ([], FxEOF))"
| "fx_source ([], FxErr e) = (Fail e, ([], FxErr e))"

interpretation fourx4: block_source "fx_source :: bytes list \<times> 'e fx_end \<Rightarrow> _" "\<lambda>(bs, r). length bs"
proof
  fix s s' :: "bytes list \<times> 'e fx_end" and b
  assume "fx_source s = (Block b, s')"
  then show "(case s' of (bs, r) \<Rightarrow> length bs) < (case s of (bs, r) \<Rightarrow> length bs)"
    by (cases s rule: fx_source.cases) auto
qed

lemma fx_source_drains: "drains fx_source (bs, FxEOF) (concat bs) Ended"
  by (induction bs) (auto intro: drains.intros)

text \<open>The writer's side: blocks that are stored, and blocks in their compressed and plain form.\<close>

datatype fx_item = Stored bytes | Packed bytes bytes

fun write_item :: "fx_item \<Rightarrow> bytes" where
  "write_item (Stored p) = put_le 4 storedOut @ put_le 4 (word_of_nat (length p) :: u32) @ p"
| "write_item (Packed c p) = put_le 4 (word_of_nat (length p) :: u32) @ put_le 4 (word_of_nat (length c) :: u32) @ c"

fun plain :: "fx_item \<Rightarrow> bytes" where
  "plain (Stored p) = p"
| "plain (Packed c p) = p"

fun item_ok :: "'e inner \<Rightarrow> fx_item \<Rightarrow> bool" where
  "item_ok inner (Stored p) \<longleftrightarrow> length p < 2 ^ 31"
| "item_ok inner (Packed c p) \<longleftrightarrow> length c < 2 ^ 31 \<and> length p < 2 ^ 31 \<and> (\<exists>rest end. inner c = Inr (p @ rest, end))"

definition fx_write :: "fx_item list \<Rightarrow> bytes" where
  "fx_write items = put_le 4 (0 :: u32) @ concat (map write_item items)"

lemma readJob_item:
  assumes "item_ok inner i"
  shows "\<exists>j. readJob k (write_item i @ rest) = (Job j rest :: 'e job_read) \<and> fx_decode inner j = Inr (plain i)"
proof -
  have u: "unat (word_of_nat m :: u32) = m" "\<not> (word_of_nat m :: u32) > 0x7fffffff" "(word_of_nat m :: u32) \<noteq> storedOut"
    if "m < 2 ^ 31" for m
  proof -
    show w: "unat (word_of_nat m :: u32) = m" by (rule unat_of_nat_small) (use that in simp)
    show "\<not> (word_of_nat m :: u32) > 0x7fffffff" using that by (simp add: word_less_nat_alt w)
    have "storedOut = 4294967295" by code_simp
    from arg_cong [OF this, of unat] have "unat storedOut = 2 ^ 32 - 1" by simp
    then show "(word_of_nat m :: u32) \<noteq> storedOut" using w that by auto
  qed
  have rd: "readFull 8 (put_le 4 a @ put_le 4 b @ c) = Inr (put_le 4 a @ put_le 4 b, c)" for a b :: u32 and c
    using readFull_append [of "put_le 4 a @ put_le 4 b" c] by simp
  show ?thesis
  proof (cases i)
    case (Stored p)
    then have "length p < 2 ^ 31" using assms by simp
    with Stored rd show ?thesis by (simp add: readJob_def fx_decode_def u)
  next
    case (Packed c p)
    then obtain r e where "length c < 2 ^ 31" "length p < 2 ^ 31" "inner c = Inr (p @ r, e)" using assms by auto
    with Packed rd show ?thesis by (simp add: readJob_def fx_decode_def u)
  qed
qed

lemma jobs_of_items:
  fixes inner :: "'e inner"
  shows "list_all (item_ok inner) items \<Longrightarrow>
    \<exists>js. jobs_of k (concat (map write_item items)) = (js, None :: 'e fx_error option)
      \<and> decode_all inner js = Inr (map plain items)"
proof (induction items arbitrary: k)
  case Nil
  then show ?case by (simp add: jobs_of.simps readJob_def readFull_def)
next
  case (Cons i items)
  then obtain js where js: "jobs_of (k + 1) (concat (map write_item items)) = (js, None :: 'e fx_error option)"
    "decode_all inner js = Inr (map plain items)" by auto
  moreover obtain j where "readJob k (write_item i @ concat (map write_item items)) = (Job j (concat (map write_item items)) :: 'e job_read)"
    "fx_decode inner j = Inr (plain i)" using readJob_item Cons.prems by fastforce
  ultimately show ?case by (simp add: jobs_of.simps [of k])
qed

text \<open>
  C14: what a 4x4 writer packs is what every reader gets back. For every list of stored and
  compressed blocks, every number of workers, every schedule and whatever sizes the caller reads in:
  a run that is not cancelled ends at the end of the stream and has delivered the plain bytes.
\<close>

theorem fx_roundtrip:
  assumes "list_all (item_ok inner) items" "readVersion (fx_write items) = Inr (eof, src)"
    and "fx_reach inner n src s" "0 < n" "f_fin s = Some r" "\<not> f_ctx s"
    and "\<forall>m \<in> set ns. 0 < m" "length (concat (map plain items)) < length ns"
  shows "\<exists>r' s'. readMany fx_source ns newChunkbuf (f_out s, r) = Some (concat (map plain items), Some ReadEOF, r', s')"
proof -
  have src: "src = concat (map write_item items)"
    using assms(2) readFull_append [of "put_le 4 (0 :: u32)" "concat (map write_item items)"]
    by (simp add: readVersion_def fx_write_def)
  have seq: "sequential inner src = Inr (map plain items)"
    using jobs_of_items [OF assms(1), of 0] by (auto simp: src sequential_def)
  then have "r = FxEOF" using fx_err_sequential [OF assms(3,4)] assms(5) by (cases r) auto
  moreover from this have "f_out s = map plain items"
    using fx_eof_sequential [OF assms(3,4)] assms(5,6) seq by simp
  ultimately show ?thesis
    using fourx4.readMany_all [OF fx_source_drains assms(7), of "map plain items"] assms(8) by simp
qed

text \<open>A stored block, a compressed one behind it, and an inner method that drops the first byte.\<close>

definition sample_inner :: "unit inner" where
  "sample_inner c = (case c of [] \<Rightarrow> Inl () | _ # p \<Rightarrow> Inr (p, None))"

definition sample_items :: "fx_item list" where
  "sample_items = [Stored [7], Packed [0, 8, 9, 1] [8, 9]]"

lemma sample_items_ok: "list_all (item_ok sample_inner) sample_items"
  by (simp add: sample_items_def sample_inner_def)

lemma sample_version:
  "readVersion (fx_write sample_items) = Inr (False, concat (map write_item sample_items))"
  using readFull_append [of "put_le 4 (0 :: u32)" "concat (map write_item sample_items)"]
  by (simp add: readVersion_def fx_write_def)

lemma sample_plain: "map plain sample_items = [[7], [8, 9]]"
  by (simp add: sample_items_def)

lemma fx_roundtrip_witness:
  "\<exists>s r r' s'. fx_reach sample_inner 2 (concat (map write_item sample_items)) s \<and> f_fin s = Some r
     \<and> readMany fx_source [1, 1, 1, 1] newChunkbuf (f_out s, r) = Some ([7, 8, 9], Some ReadEOF, r', s')"
proof -
  obtain s r where s: "fx_reach sample_inner 2 (concat (map write_item sample_items)) s" "f_fin s = Some r" "\<not> f_ctx s"
    by (rule fx_finished_run [of 2]) simp
  from fx_roundtrip [OF sample_items_ok sample_version s(1) _ s(2,3), of "[1, 1, 1, 1]"] s(1,2) show ?thesis
    by (simp add: sample_plain) blast
qed

lemma fx_refines_witness:
  "\<exists>s r. fx_reach sample_inner 2 (concat (map write_item sample_items)) s \<and> f_fin s = Some r \<and> \<not> f_ctx s
     \<and> (case r of
          FxEOF \<Rightarrow> f_ctx s \<or> sequential sample_inner (concat (map write_item sample_items)) = Inr (f_out s)
        | FxErr e \<Rightarrow> isl (sequential sample_inner (concat (map write_item sample_items))))"
proof -
  obtain s r where s: "fx_reach sample_inner 2 (concat (map write_item sample_items)) s" "f_fin s = Some r" "\<not> f_ctx s"
    by (rule fx_finished_run [of 2]) simp
  from fx_refines [OF s(1) _ s(2)] s show ?thesis by (intro exI [of _ s] exI [of _ r]) simp
qed

lemma fx_in_order_witness:
  "\<exists>s r. fx_reach sample_inner 2 (concat (map write_item sample_items)) s \<and> f_fin s = Some r
     \<and> map Inr (f_out s) = map (fx_decode sample_inner)
         (take (length (f_out s)) (fst (jobs_of 0 (concat (map write_item sample_items)) :: _ \<times> unit fx_error option)))"
proof -
  obtain s r where s: "fx_reach sample_inner 2 (concat (map write_item sample_items)) s" "f_fin s = Some r" "\<not> f_ctx s"
    by (rule fx_finished_run [of 2]) simp
  from fx_in_order [OF s(1)] s show ?thesis by (intro exI [of _ s] exI [of _ r]) simp
qed

lemma fx_cancel_truncates_witness:
  "\<exists>s. fx_reach sample_inner 2 (concat (map write_item sample_items)) s \<and> f_fin s = Some FxEOF \<and> f_out s = []
     \<and> sequential sample_inner (concat (map write_item sample_items)) \<noteq> Inr (f_out s)"
proof -
  obtain j where "readJob 0 (write_item (Stored [7]) @ write_item (Packed [0, 8, 9, 1] [8, 9]))
      = (Job j (write_item (Packed [0, 8, 9, 1] [8, 9])) :: unit job_read)"
    using readJob_item [of sample_inner "Stored [7]"] by auto
  from fx_cancel_truncates [OF _ this] show ?thesis by (simp add: sample_items_def)
qed

section \<open>Options\<close>

text \<open>
  The options of the multiplexer are told from the inner method. Behind any number of its own
  options and empty tokens the first other token is the name of the inner method, and everything
  behind it, colons included, goes to that method untouched.
\<close>

theorem fx_options:
  assumes "\<forall>p \<in> set opts. p = [] \<or> is4x4Opt p \<and> skip4x4Opt p = (Inr () :: 'e fx_error + unit)"
    and "name \<noteq> []" "\<not> is4x4Opt name" "\<forall>p \<in> set (opts @ name # args). 0x3a \<notin> set p"
  shows "parseInner (join_on 0x3a (opts @ name # args)) = (Inr (name, join_on 0x3a args) :: 'e fx_error + bytes \<times> bytes)"
proof -
  have "join_on 0x3a (opts @ name # args) \<noteq> []"
    using assms(2) by (auto simp: join_on_Nil append_eq_Cons_conv)
  moreover have "inner_loop (opts @ name # args) = (Inr (name, join_on 0x3a args) :: 'e fx_error + bytes \<times> bytes)"
    using assms(1,4)
  proof (induction opts)
    case Nil
    then show ?case using assms(2,3) cut_on_join [of "0x3a" name args] by simp
  qed auto
  ultimately show ?thesis using split_on_join [of "opts @ name # args" "0x3a"] assms(4) by (simp add: parseInner_def)
qed

lemma fx_options_witness:
  "parseInner (join_on 0x3a ([str ''b128mb'', str ''t4''] @ str ''tor'' # [str ''5'', str ''c1''])) =
     (Inr (str ''tor'', join_on 0x3a [str ''5'', str ''c1'']) :: unit fx_error + bytes \<times> bytes)"
proof (rule fx_options)
  have "is4x4Opt (str ''b128mb'') \<and> skip4x4Opt (str ''b128mb'') = (Inr () :: unit fx_error + unit)"
    "is4x4Opt (str ''t4'') \<and> skip4x4Opt (str ''t4'') = (Inr () :: unit fx_error + unit)" by code_simp+
  then show "\<forall>p \<in> set [str ''b128mb'', str ''t4'']. p = [] \<or> is4x4Opt p \<and> skip4x4Opt p = (Inr () :: unit fx_error + unit)"
    by simp
  show "str ''tor'' \<noteq> []" "\<not> is4x4Opt (str ''tor'')" by code_simp+
  show "\<forall>p \<in> set ([str ''b128mb'', str ''t4''] @ str ''tor'' # [str ''5'', str ''c1'']). 0x3a \<notin> set p" by code_simp
qed

text \<open>A whole run of the sample, counted.\<close>

lemma fx_terminates_witness:
  "\<exists>k s. fx_run sample_inner 2 (concat (map write_item sample_items)) k s \<and> f_fin s \<noteq> None
     \<and> 0 < k \<and> k \<le> length (concat (map write_item sample_items)) + 2 + 7"
proof -
  obtain s r where s: "fx_reach sample_inner 2 (concat (map write_item sample_items)) s" "f_fin s = Some r" "\<not> f_ctx s"
    by (rule fx_finished_run [of 2]) auto
  then obtain k where k: "fx_run sample_inner 2 (concat (map write_item sample_items)) k s" using fx_reach_run by blast
  moreover have "0 < k" using fx_run_none [OF k] s(2) by (cases k) auto
  moreover have "f_fin s \<noteq> None" using s(2) by simp
  moreover note fx_terminates [OF k]
  ultimately show ?thesis by blast
qed

end
