(* ===== verification/Method.thy ===== *)
theory Method
  imports Gostrings
begin

text \<open>
  Compression methods (\<open>algo.go\<close>, \<open>method.go\<close>): the decompressors a FreeArc archive names, and
  its method strings, which are atoms joined by plus signs, the last of them decompressed first.
\<close>

section \<open>Algorithms\<close>

datatype algo =
    AlgoInvalid | AlgoStoring | AlgoLZMA | AlgoLZMA2 | AlgoSREP | Algo4x4 | AlgoRZW | AlgoRZS | AlgoMagic2
  | AlgoMPZZ | AlgoMPZ | AlgoDispack | AlgoDelta | AlgoREP | AlgoPPMD | AlgoPref | AlgoXT3U | AlgoXT2PNG | AlgoTOR

text \<open>\<open>String\<close>, the canonical name; the values of Go's type above the last constant print as invalid too.\<close>

fun algoName :: "algo \<Rightarrow> bytes" where
  "algoName AlgoInvalid = str ''invalid''"
| "algoName AlgoStoring = str ''storing''"
| "algoName AlgoLZMA = str ''lzma''"
| "algoName AlgoLZMA2 = str ''lzma2''"
| "algoName AlgoSREP = str ''srep''"
| "algoName Algo4x4 = str ''4x4''"
| "algoName AlgoRZW = str ''rzw''"
| "algoName AlgoRZS = str ''rzs''"
| "algoName AlgoMagic2 = str ''magic2''"
| "algoName AlgoMPZZ = str ''mpzz''"
| "algoName AlgoMPZ = str ''mpz''"
| "algoName AlgoDispack = str ''dispack''"
| "algoName AlgoDelta = str ''delta''"
| "algoName AlgoREP = str ''rep''"
| "algoName AlgoPPMD = str ''ppmd''"
| "algoName AlgoPref = str ''pref''"
| "algoName AlgoXT3U = str ''xt3u''"
| "algoName AlgoXT2PNG = str ''xt2png''"
| "algoName AlgoTOR = str ''tor''"

definition algoByName :: "(bytes \<times> algo) list" where
  "algoByName =
     [(str ''storing'', AlgoStoring), (str ''lzma'', AlgoLZMA), (str ''lzma2'', AlgoLZMA2), (str ''srep'', AlgoSREP),
      (str ''4x4'', Algo4x4), (str ''rzw'', AlgoRZW), (str ''rzwb'', AlgoRZW), (str ''rzs'', AlgoRZS),
      (str ''magic2'', AlgoMagic2), (str ''mpzz'', AlgoMPZZ), (str ''mpz'', AlgoMPZ), (str ''dispack'', AlgoDispack),
      (str ''dispack070'', AlgoDispack), (str ''delta'', AlgoDelta), (str ''rep'', AlgoREP), (str ''ppmd'', AlgoPPMD),
      (str ''pref'', AlgoPref), (str ''xt3u'', AlgoXT3U), (str ''xt2png'', AlgoXT2PNG), (str ''tor'', AlgoTOR)]"

definition known :: "algo \<Rightarrow> bool" where
  "known a \<longleftrightarrow> a \<noteq> AlgoInvalid"

definition parseAlgo :: "bytes \<Rightarrow> algo" where
  "parseAlgo name = (case map_of algoByName (toLower name) of Some a \<Rightarrow> a | None \<Rightarrow> AlgoInvalid)"

section \<open>Method strings\<close>

record atom =
  a_algo :: algo
  a_params :: bytes
  a_token :: bytes

type_synonym pipeline = "atom list"

definition atom_string :: "atom \<Rightarrow> bytes" where
  "atom_string a =
     (if a_token a \<noteq> [] then a_token a
      else if a_params a = [] then algoName (a_algo a)
      else algoName (a_algo a) @ 0x3a # a_params a)"

definition atom_known :: "atom \<Rightarrow> bool" where
  "atom_known a \<longleftrightarrow> known (a_algo a)"

definition pipeline_string :: "pipeline \<Rightarrow> bytes" where
  "pipeline_string p = (if p = [] then [] else join_on 0x2b (map atom_string p))"

definition pipeline_last :: "pipeline \<Rightarrow> atom" where
  "pipeline_last p = (if p = [] then \<lparr>a_algo = AlgoInvalid, a_params = [], a_token = []\<rparr> else last p)"

text \<open>The unique algorithms in the order of their first atoms.\<close>

definition seen_step :: "algo list \<Rightarrow> algo \<Rightarrow> algo list" where
  "seen_step out a = (if a \<in> set out then out else out @ [a])"

definition algos :: "pipeline \<Rightarrow> algo list" where
  "algos p = foldl seen_step [] (map a_algo p)"

definition parseAtom :: "bytes \<Rightarrow> atom" where
  "parseAtom s = (let (name, params) = cut_on 0x3a s in \<lparr>a_algo = parseAlgo name, a_params = params, a_token = s\<rparr>)"

definition parsePipeline :: "bytes \<Rightarrow> pipeline" where
  "parsePipeline s =
     (if s = [] then []
      else map parseAtom (filter (\<lambda>p. p \<noteq> []) (map trimSpace (split_on 0x2b s))))"

section \<open>Properties\<close>

lemma parseAtom_string: "s \<noteq> [] \<Longrightarrow> atom_string (parseAtom s) = s"
  by (simp add: parseAtom_def atom_string_def split_beta)

lemma set_trim: "set (trimSpace s) \<subseteq> set s"
proof -
  have "set (trim_by sp t) \<subseteq> set t" for sp t
    using trim_by_suffix [of t sp] by (metis Un_upper2 set_append)
  from this [of space_front s] this [of space_back "rev (trim_by space_front s)"] show ?thesis
    by (auto simp: trimSpace_def)
qed

text \<open>
  C33: printing and parsing a method string is stable. Whatever a method string is, with spaces,
  empty atoms and unknown methods in it, its parsed form prints to a string that parses to the same
  atoms again, tokens included.
\<close>

theorem pipeline_stable: "parsePipeline (pipeline_string (parsePipeline s)) = parsePipeline s"
proof (cases "parsePipeline s = []")
  case False
  let ?ts = "filter (\<lambda>p. p \<noteq> []) (map trimSpace (split_on 0x2b s))"
  have p: "parsePipeline s = map parseAtom ?ts" and ne: "?ts \<noteq> []"
    using False by (auto simp: parsePipeline_def split: if_splits)
  have t: "map atom_string (parsePipeline s) = ?ts"
    unfolding p map_map by (rule map_idI) (simp add: parseAtom_string)
  have plus: "\<forall>t \<in> set ?ts. 0x2b \<notin> set t"
  proof
    fix t assume "t \<in> set ?ts"
    then obtain q where "q \<in> set (split_on 0x2b s)" "t = trimSpace q" by auto
    from split_on_parts [OF this(1)] set_trim [of q] show "0x2b \<notin> set t" unfolding \<open>t = trimSpace q\<close> by (rule contra_subsetD [rotated])
  qed
  have "map trimSpace ?ts = ?ts" by (rule map_idI) (auto simp: trimSpace_idem)
  then have again: "filter (\<lambda>p. p \<noteq> []) (map trimSpace ?ts) = ?ts" by (simp only: filter_filter) simp
  have "pipeline_string (parsePipeline s) = join_on 0x2b ?ts" using False t by (simp add: pipeline_string_def)
  moreover have "join_on 0x2b ?ts \<noteq> []" using ne by (auto simp: join_on_Nil filter_eq_Cons_iff)
  moreover have "split_on 0x2b (join_on 0x2b ?ts) = ?ts" by (rule split_on_join [OF ne plus])
  ultimately show ?thesis unfolding p by (simp only: parsePipeline_def if_False again)
qed (simp add: pipeline_string_def, simp add: parsePipeline_def)

definition upper :: "bool \<Rightarrow> byte \<Rightarrow> byte" where
  "upper u c = (if u \<and> 0x61 \<le> c \<and> c \<le> 0x7a then c - 0x20 else c)"

lemma toLower_ascii: "\<forall>c \<in> set s. c < 0x80 \<Longrightarrow> toLower s = map (\<lambda>c. if 0x41 \<le> c \<and> c \<le> 0x5a then c + 0x20 else c) s"
  by (induction s rule: toLower.induct) auto

lemma lower_upper: "0x61 \<le> c \<and> c \<le> 0x7a \<or> 0x30 \<le> c \<and> c \<le> 0x39 \<Longrightarrow>
    upper u c < 0x80 \<and> (if 0x41 \<le> upper u c \<and> upper u c \<le> 0x5a then upper u c + 0x20 else upper u c) = c" for c :: byte
  by (auto simp: upper_def word_le_nat_alt word_less_nat_alt unat_sub)

lemma lower_upper_name:
  "length us = length n \<Longrightarrow> \<forall>c \<in> set n. 0x61 \<le> c \<and> c \<le> 0x7a \<or> 0x30 \<le> c \<and> c \<le> 0x39 \<Longrightarrow>
   toLower (map2 upper us n) = n"
proof -
  assume "length us = length n" "\<forall>c \<in> set n. 0x61 \<le> c \<and> c \<le> 0x7a \<or> 0x30 \<le> c \<and> c \<le> 0x39"
  then have "(\<forall>c \<in> set (map2 upper us n). c < 0x80)
      \<and> map (\<lambda>c. if 0x41 \<le> c \<and> c \<le> 0x5a then c + 0x20 else c) (map2 upper us n) = n"
  proof (induction us n rule: list_induct2)
    case (Cons u us c n)
    then show ?case using lower_upper [of c u] by simp
  qed simp
  then show ?thesis by (simp add: toLower_ascii)
qed

text \<open>
  The name of every known algorithm is parsed to that algorithm, in any mixture of upper and
  lower case letters.
\<close>

theorem algo_roundtrip:
  assumes "known a" "length us = length (algoName a)"
  shows "parseAlgo (map2 upper us (algoName a)) = a"
proof -
  have "\<forall>c \<in> set (algoName a). 0x61 \<le> c \<and> c \<le> 0x7a \<or> 0x30 \<le> c \<and> c \<le> 0x39"
    using assms(1) by (cases a; simp add: known_def; code_simp)
  with assms(2) have "toLower (map2 upper us (algoName a)) = algoName a" by (rule lower_upper_name)
  moreover have "map_of algoByName (algoName a) = Some a" using assms(1) by (cases a; simp add: known_def; code_simp)
  ultimately show ?thesis by (simp add: parseAlgo_def)
qed

lemma algo_roundtrip_witness: "parseAlgo (map2 upper [True, False, True, False] (algoName AlgoSREP)) = AlgoSREP"
proof (rule algo_roundtrip)
  show "known AlgoSREP" by (simp add: known_def)
  show "length [True, False, True, False] = length (algoName AlgoSREP)" by code_simp
qed

end
