(* ===== verification/Crc32.thy ===== *)
theory Crc32
  imports Prelude
begin

text \<open>
  CRC-32 of \<open>hash/crc32\<close> over a table made from a reflected polynomial, with the two polynomials
  of the program: the usual one and the one of \<open>arccrc.go\<close>, whose reflected form has its top bit
  clear, so that it is a code of 28 bits. Both detect every change of a single byte.
\<close>

definition crc_bit :: "u32 \<Rightarrow> u32 \<Rightarrow> u32" where
  "crc_bit poly crc = (if crc AND 1 = 1 then drop_bit 1 crc XOR poly else drop_bit 1 crc)"

definition makeTable :: "u32 \<Rightarrow> u32 list" where
  "makeTable poly = map (\<lambda>i. (crc_bit poly ^^ 8) (word_of_nat i)) [0..<256]"

definition crc_update :: "u32 \<Rightarrow> u32 \<Rightarrow> byte \<Rightarrow> u32" where
  "crc_update poly crc v = makeTable poly ! unat (ucast crc XOR v) XOR drop_bit 8 crc"

definition crc32 :: "u32 \<Rightarrow> bytes \<Rightarrow> u32" where
  "crc32 poly data = NOT (foldl (crc_update poly) (NOT 0) data)"

definition ieee :: u32 where
  "ieee = 0xedb88320"

definition fitgirl :: u32 where
  "fitgirl = 0x0895171b"

section \<open>The bits behind the table\<close>

lemma and_1_bit: "x AND 1 = 1 \<longleftrightarrow> bit x 0" for x :: u32
  by (metis and.commute and_one_eq bit_0 odd_iff_mod_2_eq_one)

lemma crc_bit_xor: "crc_bit poly (a XOR b) = crc_bit poly a XOR crc_bit poly b"
  unfolding crc_bit_def and_1_bit by (rule bit_eqI) (auto simp: bit_simps)

lemma crc_bits_xor: "(crc_bit poly ^^ n) (a XOR b) = (crc_bit poly ^^ n) a XOR (crc_bit poly ^^ n) b"
  by (induction n) (simp_all add: crc_bit_xor)

lemma crc_bits_high: "n \<le> 8 \<Longrightarrow> (crc_bit poly ^^ n) (push_bit 8 (drop_bit 8 a)) = push_bit (8 - n) (drop_bit 8 a)"
proof (induction n)
  case (Suc n)
  then have "(crc_bit poly ^^ Suc n) (push_bit 8 (drop_bit 8 a)) = crc_bit poly (push_bit (8 - n) (drop_bit 8 a))" by simp
  also have "\<dots> = push_bit (8 - Suc n) (drop_bit 8 a)"
    unfolding crc_bit_def and_1_bit using Suc.prems by (intro bit_eqI) (auto simp: bit_simps Suc_diff_Suc dest: bit_imp_le_length)
  finally show ?case .
qed simp

text \<open>One byte is eight steps of the shift register.\<close>

lemma crc_update_bits: "crc_update poly crc v = (crc_bit poly ^^ 8) (crc XOR ucast v)"
proof -
  let ?low = "ucast (ucast crc XOR v) :: u32"
  have "unat (ucast crc XOR v :: byte) < 256" by (rule unat_byte_less)
  moreover have "word_of_nat (unat (ucast crc XOR v :: byte)) = ?low" by simp
  ultimately have t: "makeTable poly ! unat (ucast crc XOR v :: byte) = (crc_bit poly ^^ 8) ?low"
    by (simp add: makeTable_def)
  have s: "crc XOR ucast v = ?low XOR push_bit 8 (drop_bit 8 crc)"
    by (rule bit_eqI) (auto simp: bit_simps)
  show ?thesis unfolding crc_update_def t s crc_bits_xor using crc_bits_high [of 8 poly crc] by simp
qed

lemma crc32_bits: "crc32 poly data = NOT (foldl (\<lambda>crc v. (crc_bit poly ^^ 8) (crc XOR ucast v)) (NOT 0) data)"
  unfolding crc32_def crc_update_bits ..

text \<open>Evaluating a checksum: the register is a numeral before each of the eight steps.\<close>

lemma crc_bit_num:
  "crc_bit poly (numeral x) = (if numeral x AND 1 = (1 :: u32) then drop_bit 1 (numeral x) XOR poly else drop_bit 1 (numeral x))"
  "crc_bit poly 0 = 0" "crc_bit poly 1 = poly"
  by (simp_all add: crc_bit_def)

lemma crc_bit_8: "(crc_bit poly ^^ 8) x = crc_bit poly (crc_bit poly (crc_bit poly (crc_bit poly
    (crc_bit poly (crc_bit poly (crc_bit poly (crc_bit poly x)))))))"
  by (simp add: numeral_eq_Suc)

lemma not_0_u32: "NOT 0 = (4294967295 :: u32)"
  by code_simp

lemmas crc_start = crc32_bits crc_bit_8 not_0_u32

section \<open>Detection\<close>

text \<open>The values a difference takes: all words, or those below 2 to the 28.\<close>

definition width :: "u32 \<Rightarrow> nat" where
  "width poly = (if poly = fitgirl then 28 else 32)"

lemma poly_cases: "ieee \<noteq> fitgirl" "bit ieee 31" "bit fitgirl 27" "\<not> bit fitgirl 28" "\<not> bit fitgirl 29" "\<not> bit fitgirl 30" "\<not> bit fitgirl 31"
  by (simp_all add: ieee_def fitgirl_def)

lemma bit_fitgirl_high: "28 \<le> n \<Longrightarrow> \<not> bit fitgirl n"
proof -
  assume "28 \<le> n"
  then have "n = 28 \<or> n = 29 \<or> n = 30 \<or> n = 31 \<or> 32 \<le> n" by linarith
  then show ?thesis using poly_cases bit_imp_le_length [of fitgirl n] by auto
qed

lemma crc_bit_nonzero:
  assumes "poly = ieee \<or> poly = fitgirl" "a \<noteq> 0" "\<forall>n \<ge> width poly. \<not> bit a n"
  shows "crc_bit poly a \<noteq> 0 \<and> (\<forall>n \<ge> width poly. \<not> bit (crc_bit poly a) n)"
proof
  let ?w = "width poly"
  have w: "0 < ?w" "?w \<le> 32" by (simp_all add: width_def)
  have top: "bit poly (?w - 1)" using assms(1) poly_cases by (auto simp: width_def)
  have high: "\<not> bit poly n" if "?w \<le> n" for n
    using that assms(1) bit_fitgirl_high bit_imp_le_length [of poly n] by (auto simp: width_def split: if_splits)
  show "crc_bit poly a \<noteq> 0"
  proof (cases "bit a 0")
    case True
    have "\<not> bit a ?w" using assms(3) by simp
    then have "bit (crc_bit poly a) (?w - 1)"
      using True top w unfolding crc_bit_def and_1_bit by (simp add: bit_simps)
    then show ?thesis by auto
  next
    case False
    obtain m where "bit a m" using assms(2) by (metis bit_eqI bit_0_eq bot_apply bot_bool_def)
    with False obtain k where "bit a (Suc k)" by (cases m) auto
    then have "bit (crc_bit poly a) k" using False unfolding crc_bit_def and_1_bit by (simp add: bit_simps)
    then show ?thesis by auto
  qed
  show "\<forall>n \<ge> ?w. \<not> bit (crc_bit poly a) n"
    using assms(3) high unfolding crc_bit_def and_1_bit by (auto simp: bit_simps)
qed

lemma crc_bits_nonzero:
  assumes "poly = ieee \<or> poly = fitgirl" "a \<noteq> 0" "\<forall>n \<ge> width poly. \<not> bit a n"
  shows "(crc_bit poly ^^ k) a \<noteq> 0 \<and> (\<forall>n \<ge> width poly. \<not> bit ((crc_bit poly ^^ k) a) n)"
  by (induction k) (use assms crc_bit_nonzero in auto)

lemma crc_diff:
  "foldl (crc_update poly) a xs XOR foldl (crc_update poly) b xs = (crc_bit poly ^^ (8 * length xs)) (a XOR b)"
proof (induction xs arbitrary: a b)
  case (Cons x xs)
  have "crc_update poly a x XOR crc_update poly b x = (crc_bit poly ^^ 8) (a XOR b)"
    unfolding crc_update_bits by (simp add: ac_simps flip: crc_bits_xor)
  then show ?case using Cons [of "crc_update poly a x" "crc_update poly b x"]
    by (simp add: funpow_add flip: funpow_swap1) (simp add: funpow_swap1 funpow_add numeral_eq_Suc)
qed simp

text \<open>A change of one byte changes the checksum, for both polynomials.\<close>

lemma crc32_detects:
  assumes "poly = ieee \<or> poly = fitgirl" "x \<noteq> y"
  shows "crc32 poly (xs @ x # ys) \<noteq> crc32 poly (xs @ y # ys)"
proof
  assume eq: "crc32 poly (xs @ x # ys) = crc32 poly (xs @ y # ys)"
  let ?c = "foldl (crc_update poly) (NOT 0) xs"
  let ?d = "ucast (x XOR y) :: u32"
  have "foldl (crc_update poly) (crc_update poly ?c x) ys = foldl (crc_update poly) (crc_update poly ?c y) ys"
    using eq by (simp add: crc32_def)
  then have "(crc_bit poly ^^ (8 * length ys)) (crc_update poly ?c x XOR crc_update poly ?c y) = 0"
    by (simp flip: crc_diff)
  moreover have "crc_update poly ?c x XOR crc_update poly ?c y = (crc_bit poly ^^ 8) ?d"
  proof -
    have "(?c XOR ucast x) XOR (?c XOR ucast y) = ?d" by (rule bit_eqI) (auto simp: bit_simps)
    then show ?thesis unfolding crc_update_bits by (simp flip: crc_bits_xor)
  qed
  ultimately have "(crc_bit poly ^^ (8 * length ys + 8)) ?d = 0" by (simp add: funpow_add)
  moreover have "?d \<noteq> 0"
  proof
    assume "?d = 0"
    then have "bit ?d n \<longleftrightarrow> False" for n by simp
    then have "bit (x XOR y) n \<longleftrightarrow> False" if "n < 8" for n using that by (simp add: bit_simps)
    then have "x XOR y = 0" by (intro bit_eqI) (auto dest: bit_imp_le_length)
    then have "(x XOR y) XOR y = y" by simp
    then show False using assms(2) by (simp only: xor.assoc xor_self_eq xor.right_neutral)
  qed
  moreover have "\<not> bit ?d n" if "width poly \<le> n" for n
    using that by (auto simp: bit_simps width_def split: if_splits dest: bit_imp_le_length)
  ultimately show False using crc_bits_nonzero [OF assms(1)] by blast
qed

end
