(* ===== verification/Arc.thy ===== *)
theory Arc
  imports Varint Chunkbuf Method Crc32
begin

text \<open>
  The structure of a FreeArc archive (\<open>arc.go\<close>, \<open>block.go\<close>, \<open>lzmaraw.go\<close>, the \<open>Volume\<close> of
  \<open>volume.go\<close>): the descriptor at the end of a volume, the footer it leads to, the control blocks the
  footer lists, and the members their directories hold. The LZMA decoder is a parameter. Counts the
  code trusts can panic, and the model keeps that.
\<close>

section \<open>Blocks\<close>

datatype BlockKind =
    BlockInvalid | BlockDescr | BlockHeader | BlockData | BlockDir | BlockFooter | BlockRecovery

definition blockKind :: "u64 \<Rightarrow> BlockKind" where
  "blockKind n =
     (if n = 0 then BlockDescr else if n = 1 then BlockHeader else if n = 2 then BlockData
      else if n = 3 then BlockDir else if n = 4 then BlockFooter else if n = 5 then BlockRecovery
      else BlockInvalid)"

fun kindString :: "BlockKind \<Rightarrow> bytes" where
  "kindString BlockDescr = str ''descr''"
| "kindString BlockHeader = str ''header''"
| "kindString BlockData = str ''data''"
| "kindString BlockDir = str ''dir''"
| "kindString BlockFooter = str ''footer''"
| "kindString BlockRecovery = str ''recovery''"
| "kindString BlockInvalid = str ''invalid''"

datatype 'e arc_error =
    NotArc | NoFooterDescr | ArcField varint_error | BadMagic | DescrCRC | FooterType BlockKind | FooterCompSize
  | FooterCRC | ArcSpan | ArcShort | LzmaOpen 'e | LzmaShort "'e option" | DirSpan | DirCRC | DirTruncated

definition arcMagic :: bytes where
  "arcMagic = [0x41, 0x72, 0x43, 1]"

record member =
  m_path :: bytes
  m_size :: u64
  m_pipe :: pipeline
  m_offset :: u64
  m_comp :: u64
  m_crc :: u32
  m_dir :: bool
  m_table :: "u32 option"

record volume =
  v_name :: bytes
  v_optional :: bool
  v_algos :: "algo list"
  v_members :: "member list"

text \<open>A CRC table is named by its polynomial.\<close>

record localDesc =
  ld_kind :: BlockKind
  ld_pipe :: pipeline
  ld_orig :: u64
  ld_csz :: u64
  ld_crc :: u32
  ld_table :: u32

text \<open>The position is a signed 64-bit integer.\<close>

record ctrlBlock =
  cb_kind :: BlockKind
  cb_pipe :: pipeline
  cb_pos :: u64
  cb_orig :: u64
  cb_csz :: u64
  cb_crc :: u32
  cb_table :: "u32 option"

section \<open>Reading at an offset\<close>

definition readAt :: "bytes \<Rightarrow> int \<Rightarrow> int \<Rightarrow> 'e arc_error fault + bytes" where
  "readAt ra off n =
     (if n < 0 \<or> off < 0 then Inl (Error ArcSpan)
      else if n > 2 ^ 48 then Inl Panic
      else if length ra < nat off + nat n then Inl (Error ArcShort)
      else Inr (take (nat n) (drop (nat off) ra)))"

definition lastSignature :: "bytes \<Rightarrow> nat option" where
  "lastSignature data =
     foldl (\<lambda>pos i. if take 4 (drop i data) = arcMagic then Some i else pos) None
       [length data - 4096..<length data - 3]"

definition lastSignatureAt :: "bytes \<Rightarrow> 'e arc_error fault + nat option" where
  "lastSignatureAt ra =
     (let n = min 4096 (length ra) in
      bindE (readAt ra (int (length ra - n)) (int n)) (\<lambda>buf.
        Inr (map_option (\<lambda>rel. length ra - n + rel) (lastSignature buf))))"

text \<open>
  \<open>rawLZMA1\<close>: the decoder is given the header the code makes up and the block; it is an error when
  it is opened, or the bytes it yields and the error it ends with. The output is made in between.
\<close>

type_synonym 'e lzma = "bytes \<Rightarrow> 'e + bytes \<times> 'e option"

definition rawLZMA1 :: "'e lzma \<Rightarrow> bytes \<Rightarrow> u64 \<Rightarrow> 'e arc_error fault + bytes" where
  "rawLZMA1 lz blob orig =
     (case lz (0x5d # put_le 4 (0x100000 :: u32) @ put_le 8 orig @ blob) of
        Inl e \<Rightarrow> Inl (Error (LzmaOpen e))
      | Inr (stream, end) \<Rightarrow>
          if \<not> makes 1 orig then Inl Panic
          else if length stream < unat orig then Inl (Error (LzmaShort end))
          else Inr (take (unat orig) stream))"

section \<open>Descriptors and control blocks\<close>

definition field :: "varint_error + 'a \<Rightarrow> 'e arc_error fault + 'a" where
  "field m = (case m of Inl e \<Rightarrow> Inl (Error (ArcField e)) | Inr x \<Rightarrow> Inr x)"

definition parseLocal :: "bytes \<Rightarrow> 'e arc_error fault + localDesc" where
  "parseLocal chunk =
     (if length chunk < 8 \<or> take 4 chunk \<noteq> arcMagic then Inl (Error BadMagic)
      else bindE (field (readPacked chunk 4)) (\<lambda>(typ', i).
      bindE (field (readCString chunk i)) (\<lambda>(comp, i).
      bindE (field (readPacked chunk i)) (\<lambda>(orig, i).
      bindE (field (readPacked chunk i)) (\<lambda>(csz, i).
      bindE (field (readU32 chunk i)) (\<lambda>(crc, i).
      bindE (field (readU32 chunk i)) (\<lambda>(want, _).
        (case find (\<lambda>poly. crc32 poly (take i chunk) = want) [ieee, fitgirl] of
           None \<Rightarrow> Inl (Error DescrCRC)
         | Some poly \<Rightarrow> Inr \<lparr>ld_kind = blockKind typ', ld_pipe = parsePipeline comp, ld_orig = orig, ld_csz = csz,
                              ld_crc = crc, ld_table = poly\<rparr>))))))))"

definition ctrl_block :: "bytes \<Rightarrow> u64 \<Rightarrow> nat \<Rightarrow> varint_error + ctrlBlock \<times> nat" where
  "ctrl_block footer footerPos i =
     bindE (readPacked footer i) (\<lambda>(typ', i).
     bindE (readCString footer i) (\<lambda>(comp, i).
     bindE (readPacked footer i) (\<lambda>(rel, i).
     bindE (readPacked footer i) (\<lambda>(orig, i).
     bindE (readPacked footer i) (\<lambda>(csz, i).
     bindE (readU32 footer i) (\<lambda>(crc, i).
       Inr (\<lparr>cb_kind = blockKind typ', cb_pipe = parsePipeline comp, cb_pos = footerPos - rel, cb_orig = orig,
             cb_csz = csz, cb_crc = crc, cb_table = None\<rparr>, i)))))))"

text \<open>A block takes 72 bytes, and as many are made as the footer announces.\<close>

definition parseControl :: "bytes \<Rightarrow> u64 \<Rightarrow> 'e arc_error fault + ctrlBlock list" where
  "parseControl footer footerPos =
     bindE (field (readPacked footer 0)) (\<lambda>(n, i).
       if \<not> makes 72 n then Inl Panic
       else bindE (field (readN (ctrl_block footer footerPos) (unat n) i)) (\<lambda>(bs, _). Inr bs))"

section \<open>Directories\<close>

text \<open>The columns of a directory, by solid block, by directory and by file.\<close>

record dirTable =
  t_nfiles :: "u64 list"
  t_comps :: "bytes list"
  t_offs :: "u64 list"
  t_cszs :: "u64 list"
  t_dirs :: "bytes list"
  t_names :: "bytes list"
  t_dnums :: "u64 list"
  t_sizes :: "u64 list"
  t_isdir :: bytes
  t_crcs :: "u32 list"

definition column :: "nat \<Rightarrow> (nat \<Rightarrow> varint_error + 'a \<times> nat) \<Rightarrow> u64 \<Rightarrow> nat \<Rightarrow> 'e arc_error fault + 'a list \<times> nat" where
  "column elem rd n i = (if \<not> makes elem n then Inl Panic else field (readN rd (unat n) i))"

text \<open>The number of files is summed in 64 bits, and its sign is not looked at before it is used.\<close>

definition readTable :: "bytes \<Rightarrow> 'e arc_error fault + dirTable" where
  "readTable raw =
     bindE (field (readPacked raw 0)) (\<lambda>(nb, i).
     bindE (column 8 (readPacked raw) nb i) (\<lambda>(nfiles, i).
     bindE (column 16 (readCString raw) nb i) (\<lambda>(comps, i).
     bindE (column 8 (readPacked raw) nb i) (\<lambda>(offs, i).
     bindE (column 8 (readPacked raw) nb i) (\<lambda>(cszs, i).
     bindE (field (readPacked raw i)) (\<lambda>(nd, i).
     bindE (column 16 (readCString raw) nd i) (\<lambda>(dirs, i).
     let total = sum_list nfiles in
     bindE (column 16 (readCString raw) total i) (\<lambda>(names, i).
     bindE (column 8 (readPacked raw) total i) (\<lambda>(dnums, i).
     bindE (column 8 (readPacked raw) total i) (\<lambda>(sizes, i).
     if i + 4 * unat total + unat total + 4 * unat total > length raw then Inl (Error DirTruncated)
     else bindE (column 4 (readU32 raw) total i) (\<lambda>(times, i).
     let isdir = take (unat total) (drop i raw); i = i + unat total in
     bindE (column 4 (readU32 raw) total i) (\<lambda>(crcs, i).
     if \<not> makes 80 total then Inl Panic
     else Inr \<lparr>t_nfiles = nfiles, t_comps = comps, t_offs = offs, t_cszs = cszs, t_dirs = dirs, t_names = names,
               t_dnums = dnums, t_sizes = sizes, t_isdir = isdir, t_crcs = crcs\<rparr>))))))))))))"

text \<open>One file of solid block \<open>bi\<close>; the columns are indexed with Go's checks.\<close>

definition member_at :: "dirTable \<Rightarrow> ctrlBlock \<Rightarrow> nat \<Rightarrow> nat \<Rightarrow> 'e arc_error fault + member" where
  "member_at t b bi k =
     bindE (idx (t_dnums t) k) (\<lambda>dnum.
     bindE (idx (t_names t) k) (\<lambda>name.
     bindE (idx (t_sizes t) k) (\<lambda>size'.
     bindE (idx (t_comps t) bi) (\<lambda>comp.
     bindE (idx (t_offs t) bi) (\<lambda>off.
     bindE (idx (t_cszs t) bi) (\<lambda>csz.
     bindE (idx (t_crcs t) k) (\<lambda>crc.
     bindE (idx (t_isdir t) k) (\<lambda>isdir.
       let dir = (if sint dnum \<ge> 0 \<and> sint dnum < int (length (t_dirs t)) then t_dirs t ! unat dnum else [])
       in Inr \<lparr>m_path = (if dir \<noteq> [] then path_join dir name else name), m_size = size', m_pipe = parsePipeline comp,
               m_offset = cb_pos b - off, m_comp = csz, m_crc = crc, m_dir = (isdir \<noteq> 0), m_table = cb_table b\<rparr>))))))))"

text \<open>\<open>for range nf\<close> runs not at all when \<open>nf\<close>, a signed integer, is negative.\<close>

fun block_members :: "dirTable \<Rightarrow> ctrlBlock \<Rightarrow> nat \<Rightarrow> nat \<Rightarrow> nat \<Rightarrow> 'e arc_error fault + member list" where
  "block_members t b bi 0 k = Inr []"
| "block_members t b bi (Suc n) k =
     bindE (member_at t b bi k) (\<lambda>m. bindE (block_members t b bi n (k + 1)) (\<lambda>ms. Inr (m # ms)))"

fun all_members :: "dirTable \<Rightarrow> ctrlBlock \<Rightarrow> u64 list \<Rightarrow> nat \<Rightarrow> nat \<Rightarrow> 'e arc_error fault + member list" where
  "all_members t b [] bi k = Inr []"
| "all_members t b (nf # nfs) bi k =
     bindE (block_members t b bi (nat (sint nf)) k) (\<lambda>ms.
     bindE (all_members t b nfs (bi + 1) (k + length ms)) (\<lambda>ms'. Inr (ms @ ms')))"

definition parseDir :: "'e lzma \<Rightarrow> bytes \<Rightarrow> ctrlBlock \<Rightarrow> 'e arc_error fault + member list" where
  "parseDir lz ra b =
     (if sint (cb_pos b) < 0 \<or> unat (cb_csz b) > length ra \<or> sint (cb_pos b + cb_csz b) > int (length ra)
      then Inl (Error DirSpan)
      else bindE (readAt ra (sint (cb_pos b)) (sint (cb_csz b))) (\<lambda>comp.
      bindE (rawLZMA1 lz comp (cb_orig b)) (\<lambda>raw.
        (case cb_table b of
           None \<Rightarrow> Inl (Error DirCRC)
         | Some poly \<Rightarrow>
             if crc32 poly raw \<noteq> cb_crc b then Inl (Error DirCRC)
             else bindE (readTable raw) (\<lambda>t. all_members t b (t_nfiles t) 0 0)))))"

section \<open>Volumes\<close>

definition mergeAlgos :: "pipeline list \<Rightarrow> algo list" where
  "mergeAlgos ps = foldl (\<lambda>out p. foldl seen_step out (filter known (algos p))) [] ps"

text \<open>The members of the directories, and the method strings of blocks and members as they come.\<close>

fun volume_blocks :: "'e lzma \<Rightarrow> bytes \<Rightarrow> u32 \<Rightarrow> ctrlBlock list \<Rightarrow> 'e arc_error fault + member list \<times> pipeline list" where
  "volume_blocks lz ra poly [] = Inr ([], [])"
| "volume_blocks lz ra poly (b # bs) =
     bindE (if cb_kind b \<noteq> BlockDir then Inr [] else parseDir lz ra (b\<lparr>cb_table := Some poly\<rparr>)) (\<lambda>ms.
     bindE (volume_blocks lz ra poly bs) (\<lambda>(ms', ps).
       Inr (ms @ ms', cb_pipe b # map m_pipe ms @ ps)))"

definition parseVolume :: "'e lzma \<Rightarrow> bytes \<Rightarrow> bytes \<Rightarrow> 'e arc_error fault + volume" where
  "parseVolume lz name data =
     (if length data < 4 \<or> take 4 data \<noteq> arcMagic then Inl (Error NotArc)
      else bindE (lastSignatureAt data) (\<lambda>pos.
        (case pos of
           None \<Rightarrow> Inl (Error NoFooterDescr)
         | Some pos \<Rightarrow>
             bindE (readAt data (int pos) (int (length data - pos))) (\<lambda>desc.
             bindE (parseLocal desc) (\<lambda>loc.
               if ld_kind loc \<noteq> BlockFooter then Inl (Error (FooterType (ld_kind loc)))
               else if unat (ld_csz loc) > pos then Inl (Error FooterCompSize)
               else let fpos = pos - unat (ld_csz loc) in
                 bindE (readAt data (int fpos) (int (unat (ld_csz loc)))) (\<lambda>comp.
                 bindE (rawLZMA1 lz comp (ld_orig loc)) (\<lambda>footer.
                   if crc32 (ld_table loc) footer \<noteq> ld_crc loc then Inl (Error FooterCRC)
                   else bindE (parseControl footer (word_of_nat fpos)) (\<lambda>blocks.
                     bindE (volume_blocks lz data (ld_table loc) blocks) (\<lambda>(ms, ps).
                       Inr \<lparr>v_name = name, v_optional = contains (toLower (path_base name)) (str ''optional''),
                            v_algos = mergeAlgos ps, v_members = ms\<rparr>)))))))))"

section \<open>Directories as FreeArc writes them\<close>

record arc_file =
  w_name :: bytes
  w_dnum :: u64
  w_size :: u64
  w_time :: u32
  w_isdir :: byte
  w_crc :: u32

record solid =
  so_comp :: bytes
  so_off :: u64
  so_csz :: u64
  so_files :: "arc_file list"

definition files_of :: "solid list \<Rightarrow> arc_file list" where
  "files_of ss = concat (map so_files ss)"

definition write_dir :: "bytes list \<Rightarrow> solid list \<Rightarrow> bytes" where
  "write_dir dirs ss =
     writePacked (word_of_nat (length ss))
     @ concat (map writePacked (map (\<lambda>s. word_of_nat (length (so_files s))) ss))
     @ concat (map writeCString (map so_comp ss))
     @ concat (map writePacked (map so_off ss))
     @ concat (map writePacked (map so_csz ss))
     @ writePacked (word_of_nat (length dirs))
     @ concat (map writeCString dirs)
     @ concat (map writeCString (map w_name (files_of ss)))
     @ concat (map writePacked (map w_dnum (files_of ss)))
     @ concat (map writePacked (map w_size (files_of ss)))
     @ concat (map writeU32 (map w_time (files_of ss)))
     @ map w_isdir (files_of ss)
     @ concat (map writeU32 (map w_crc (files_of ss)))"

text \<open>A directory has at least one file, and no name has a NUL in it.\<close>

definition dir_ok :: "bytes list \<Rightarrow> solid list \<Rightarrow> bool" where
  "dir_ok dirs ss \<longleftrightarrow>
     files_of ss \<noteq> [] \<and> length (files_of ss) \<le> 2 ^ 40 \<and> length ss \<le> 2 ^ 40 \<and> length dirs \<le> 2 ^ 40
     \<and> (\<forall>n \<in> set dirs \<union> set (map so_comp ss) \<union> set (map w_name (files_of ss)). 0 \<notin> set n)"

definition table_of :: "bytes list \<Rightarrow> solid list \<Rightarrow> dirTable" where
  "table_of dirs ss =
     \<lparr>t_nfiles = map (\<lambda>s. word_of_nat (length (so_files s))) ss, t_comps = map so_comp ss, t_offs = map so_off ss,
      t_cszs = map so_csz ss, t_dirs = dirs, t_names = map w_name (files_of ss), t_dnums = map w_dnum (files_of ss),
      t_sizes = map w_size (files_of ss), t_isdir = map w_isdir (files_of ss), t_crcs = map w_crc (files_of ss)\<rparr>"

lemma u64_count: "n \<le> 2 ^ 40 \<Longrightarrow> unat (word_of_nat n :: u64) = n"
  by (rule u64_small) simp

lemma sint_count: "n \<le> 2 ^ 40 \<Longrightarrow> sint (word_of_nat n :: u64) = int n"
  by (rule sint_small) simp

lemma packed_ok_slack: "3 \<le> n \<Longrightarrow> packed_ok v n"
  by (auto simp: packed_ok_def)

context wire
begin

lemma column_encs:
  assumes "raw = pre @ concat (map enc vs) @ post" "i = length pre" "n = word_of_nat (length vs)"
    and "length vs \<le> 2 ^ 40" "elem \<le> 80" "\<And>v. v \<in> set vs \<Longrightarrow> ok v (length post)"
  shows "column elem (dec raw) n i = Inr (vs, length (pre @ concat (map enc vs)))"
proof -
  have "elem * length vs \<le> 80 * 2 ^ 40" using assms(4,5) by (intro mult_mono) auto
  then have "makes elem n" using u64_count [OF assms(4)] by (simp add: makes_def assms(3))
  moreover have "readN (dec raw) (length vs) (length pre) = Inr (vs, length pre + length (concat (map enc vs)))"
    unfolding assms(1) by (rule readN_encs) (rule assms(6))
  ultimately show ?thesis by (simp add: column_def field_def assms(2,3) u64_count [OF assms(4)])
qed

lemma field_enc:
  assumes "raw = pre @ enc v @ post" "i = length pre" "ok v (length post)"
  shows "field (dec raw i) = Inr (v, length (pre @ enc v))"
  using dec_enc [OF assms(3), of pre] by (simp add: assms(1,2) field_def)

end

lemma sum_list_word: "sum_list (map (\<lambda>s. word_of_nat (f s)) xs) = (word_of_nat (sum_list (map f xs)) :: u64)"
  by (induction xs) simp_all

lemma readTable_write:
  assumes "dir_ok dirs ss"
  shows "readTable (write_dir dirs ss) = Inr (table_of dirs ss)"
proof -
  let ?f = "files_of ss"
  define A0 where "A0 = writePacked (word_of_nat (length ss))"
  define A1 where "A1 = concat (map writePacked (map (\<lambda>s. word_of_nat (length (so_files s))) ss))"
  define A2 where "A2 = concat (map writeCString (map so_comp ss))"
  define A3 where "A3 = concat (map writePacked (map so_off ss))"
  define A4 where "A4 = concat (map writePacked (map so_csz ss))"
  define A5 where "A5 = writePacked (word_of_nat (length dirs))"
  define A6 where "A6 = concat (map writeCString dirs)"
  define A7 where "A7 = concat (map writeCString (map w_name ?f))"
  define A8 where "A8 = concat (map writePacked (map w_dnum ?f))"
  define A9 where "A9 = concat (map writePacked (map w_size ?f))"
  define A10 where "A10 = concat (map writeU32 (map w_time ?f))"
  define A11 where "A11 = map w_isdir ?f"
  define A12 where "A12 = concat (map writeU32 (map w_crc ?f))"
  note A = A0_def A1_def A2_def A3_def A4_def A5_def A6_def A7_def A8_def A9_def A10_def A11_def A12_def
  define raw where "raw = write_dir dirs ss"
  have raw: "raw = A0 @ A1 @ A2 @ A3 @ A4 @ A5 @ A6 @ A7 @ A8 @ A9 @ A10 @ A11 @ A12"
    unfolding raw_def write_dir_def A ..
  have n: "length ss \<le> 2 ^ 40" "length dirs \<le> 2 ^ 40" "length ?f \<le> 2 ^ 40" "1 \<le> length ?f" using assms
    by (auto simp: dir_ok_def Suc_le_eq)
  have w32: "length (concat (map writeU32 vs)) = 4 * length vs" for vs by (induction vs) (simp_all add: writeU32_def)
  have tail: "length A10 = 4 * length ?f" "length A11 = length ?f" "length A12 = 4 * length ?f"
    by (simp_all add: A w32 del: map_map)
  have slack: "3 \<le> length (xs @ A10 @ A11 @ A12)" for xs using tail n(4) by simp
  have total: "sum_list (map (\<lambda>s. word_of_nat (length (so_files s))) ss) = (word_of_nat (length ?f) :: u64)"
    by (simp add: sum_list_word files_of_def length_concat comp_def)
  have names: "\<And>s. s \<in> set (map so_comp ss) \<Longrightarrow> 0 \<notin> set s" "\<And>s. s \<in> set dirs \<Longrightarrow> 0 \<notin> set s"
    "\<And>s. s \<in> set (map w_name ?f) \<Longrightarrow> 0 \<notin> set s" using assms unfolding dir_ok_def by blast+
  have r0: "field (readPacked raw 0) = Inr (word_of_nat (length ss), length A0)"
    using packed.field_enc [of raw "[]" "word_of_nat (length ss)" "A1 @ A2 @ A3 @ A4 @ A5 @ A6 @ A7 @ A8 @ A9 @ A10 @ A11 @ A12" 0]
      packed_ok_slack [OF slack [of "A1 @ A2 @ A3 @ A4 @ A5 @ A6 @ A7 @ A8 @ A9"]] raw by (simp add: A0_def)
  have r1: "column 8 (readPacked raw) (word_of_nat (length ss)) (length A0)
      = Inr (map (\<lambda>s. word_of_nat (length (so_files s))) ss, length (A0 @ A1))"
    unfolding A1_def by (rule packed.column_encs [where post = "A2 @ A3 @ A4 @ A5 @ A6 @ A7 @ A8 @ A9 @ A10 @ A11 @ A12"])
      (use n raw slack [of "A2 @ A3 @ A4 @ A5 @ A6 @ A7 @ A8 @ A9"] in \<open>simp_all add: A1_def packed_ok_slack\<close>)
  have r2: "column 16 (readCString raw) (word_of_nat (length ss)) (length (A0 @ A1)) = Inr (map so_comp ss, length ((A0 @ A1) @ A2))"
    unfolding A2_def by (rule cstring.column_encs [where post = "A3 @ A4 @ A5 @ A6 @ A7 @ A8 @ A9 @ A10 @ A11 @ A12"])
      (use n raw names in \<open>simp_all add: A2_def\<close>)
  have r3: "column 8 (readPacked raw) (word_of_nat (length ss)) (length ((A0 @ A1) @ A2)) = Inr (map so_off ss, length (((A0 @ A1) @ A2) @ A3))"
    unfolding A3_def by (rule packed.column_encs [where post = "A4 @ A5 @ A6 @ A7 @ A8 @ A9 @ A10 @ A11 @ A12"])
      (use n raw slack [of "A4 @ A5 @ A6 @ A7 @ A8 @ A9"] in \<open>simp_all add: A3_def packed_ok_slack\<close>)
  have r4: "column 8 (readPacked raw) (word_of_nat (length ss)) (length (((A0 @ A1) @ A2) @ A3))
      = Inr (map so_csz ss, length ((((A0 @ A1) @ A2) @ A3) @ A4))"
    unfolding A4_def by (rule packed.column_encs [where post = "A5 @ A6 @ A7 @ A8 @ A9 @ A10 @ A11 @ A12"])
      (use n raw slack [of "A5 @ A6 @ A7 @ A8 @ A9"] in \<open>simp_all add: A4_def packed_ok_slack\<close>)
  let ?p5 = "(((A0 @ A1) @ A2) @ A3) @ A4"
  have r5: "field (readPacked raw (length ?p5)) = Inr (word_of_nat (length dirs), length (?p5 @ A5))"
    unfolding A5_def by (rule packed.field_enc [where post = "A6 @ A7 @ A8 @ A9 @ A10 @ A11 @ A12"])
      (use raw slack [of "A6 @ A7 @ A8 @ A9"] in \<open>simp_all add: A5_def packed_ok_slack\<close>)
  have r6: "column 16 (readCString raw) (word_of_nat (length dirs)) (length (?p5 @ A5)) = Inr (dirs, length ((?p5 @ A5) @ A6))"
    unfolding A6_def by (rule cstring.column_encs [where post = "A7 @ A8 @ A9 @ A10 @ A11 @ A12"])
      (use n raw names in \<open>simp_all add: A6_def\<close>)
  let ?p7 = "(?p5 @ A5) @ A6"
  have r7: "column 16 (readCString raw) (word_of_nat (length ?f)) (length ?p7) = Inr (map w_name ?f, length (?p7 @ A7))"
    unfolding A7_def by (rule cstring.column_encs [where post = "A8 @ A9 @ A10 @ A11 @ A12"])
      (use n raw names in \<open>simp_all add: A7_def\<close>)
  have r8: "column 8 (readPacked raw) (word_of_nat (length ?f)) (length (?p7 @ A7)) = Inr (map w_dnum ?f, length ((?p7 @ A7) @ A8))"
    unfolding A8_def by (rule packed.column_encs [where post = "A9 @ A10 @ A11 @ A12"])
      (use n raw slack [of "A9"] in \<open>simp_all add: A8_def packed_ok_slack\<close>)
  have r9: "column 8 (readPacked raw) (word_of_nat (length ?f)) (length ((?p7 @ A7) @ A8)) = Inr (map w_size ?f, length (((?p7 @ A7) @ A8) @ A9))"
    unfolding A9_def by (rule packed.column_encs [where post = "A10 @ A11 @ A12"])
      (use n raw slack [of "[]"] in \<open>simp_all add: A9_def packed_ok_slack\<close>)
  let ?p10 = "((?p7 @ A7) @ A8) @ A9"
  have r10: "column 4 (readU32 raw) (word_of_nat (length ?f)) (length ?p10) = Inr (map w_time ?f, length (?p10 @ A10))"
    unfolding A10_def by (rule word32.column_encs [where post = "A11 @ A12"]) (use n raw in \<open>simp_all add: A10_def\<close>)
  have d: "take (length ?f) (drop (length (?p10 @ A10)) raw) = A11" by (simp add: raw tail flip: tail(2))
  have r12: "column 4 (readU32 raw) (word_of_nat (length ?f)) (length (?p10 @ A10) + length ?f)
      = Inr (map w_crc ?f, length ((?p10 @ A10 @ A11) @ A12))"
    unfolding A12_def by (rule word32.column_encs [where post = "[]"]) (use n raw tail in \<open>simp_all add: A12_def\<close>)
  have l: "length ?p10 + 4 * length ?f + length ?f + 4 * length ?f = length raw" by (simp add: raw tail)
  have m: "makes 80 (word_of_nat (length ?f))" using n by (simp add: makes_def u64_count)
  show ?thesis
    unfolding readTable_def raw_def [symmetric] r0 bindE.simps prod.case r1 r2 r3 r4 r5 r6 Let_def total r7 r8 r9 r10
      u64_count [OF n(3)] r12 l d
    using m by (simp add: table_of_def A11_def)
qed

text \<open>The members a directory means: each file in its directory, with what its solid block says.\<close>

definition dir_of :: "bytes list \<Rightarrow> u64 \<Rightarrow> bytes" where
  "dir_of dirs d = (if 0 \<le> sint d \<and> sint d < int (length dirs) then dirs ! unat d else [])"

definition member_of :: "bytes list \<Rightarrow> ctrlBlock \<Rightarrow> solid \<Rightarrow> arc_file \<Rightarrow> member" where
  "member_of dirs b so f =
     \<lparr>m_path = (if dir_of dirs (w_dnum f) \<noteq> [] then path_join (dir_of dirs (w_dnum f)) (w_name f) else w_name f),
      m_size = w_size f, m_pipe = parsePipeline (so_comp so), m_offset = cb_pos b - so_off so, m_comp = so_csz so,
      m_crc = w_crc f, m_dir = (w_isdir f \<noteq> 0), m_table = cb_table b\<rparr>"

definition dir_members :: "bytes list \<Rightarrow> ctrlBlock \<Rightarrow> solid list \<Rightarrow> member list" where
  "dir_members dirs b ss = concat (map (\<lambda>so. map (member_of dirs b so) (so_files so)) ss)"

lemma member_at_table:
  assumes "bi < length ss" "k < length (files_of ss)"
  shows "member_at (table_of dirs ss) b bi k = Inr (member_of dirs b (ss ! bi) (files_of ss ! k))"
  using assms by (simp add: member_at_def table_of_def idx_def member_of_def dir_of_def Let_def)

lemma block_members_table:
  assumes "bi < length ss" "files_of ss = pre @ fs @ post"
  shows "block_members (table_of dirs ss) b bi (length fs) (length pre)
    = (Inr (map (member_of dirs b (ss ! bi)) fs) :: 'e arc_error fault + member list)"
  using assms(2)
proof (induction fs arbitrary: pre)
  case (Cons f fs)
  have "member_at (table_of dirs ss) b bi (length pre) = (Inr (member_of dirs b (ss ! bi) f) :: 'e arc_error fault + member)"
    using member_at_table [OF assms(1), of "length pre"] Cons.prems by simp
  then show ?case using Cons.IH [of "pre @ [f]"] Cons.prems by simp
qed simp

lemma all_members_table:
  assumes "ss = done @ rest" "length (files_of ss) \<le> 2 ^ 40"
  shows "all_members (table_of dirs ss) b (map (\<lambda>s. word_of_nat (length (so_files s))) rest) (length done) (length (files_of done))
    = (Inr (dir_members dirs b rest) :: 'e arc_error fault + member list)"
  using assms(1)
proof (induction rest arbitrary: "done")
  case Nil
  then show ?case by (simp add: dir_members_def)
next
  case (Cons so rest)
  have f: "files_of ss = files_of done @ so_files so @ files_of rest" using Cons.prems by (simp add: files_of_def)
  then have "length (so_files so) \<le> 2 ^ 40" using assms(2) by simp
  then have n: "nat (sint (word_of_nat (length (so_files so)) :: u64)) = length (so_files so)" by (simp add: sint_count)
  have "block_members (table_of dirs ss) b (length done) (length (so_files so)) (length (files_of done))
      = (Inr (map (member_of dirs b so) (so_files so)) :: 'e arc_error fault + member list)"
    using block_members_table [OF _ f, of "length done"] Cons.prems by simp
  then show ?case
    using Cons.IH [of "done @ [so]"] Cons.prems n by (simp add: dir_members_def files_of_def)
qed

text \<open>What the LZMA decoder makes of a block that an encoder packed.\<close>

definition packs :: "'e lzma \<Rightarrow> bytes \<Rightarrow> bytes \<Rightarrow> bool" where
  "packs lz blob raw \<longleftrightarrow> length raw \<le> 2 ^ 40 \<and>
     (\<exists>rest end. lz (0x5d # put_le 4 (0x100000 :: u32) @ put_le 8 (word_of_nat (length raw) :: u64) @ blob) = Inr (raw @ rest, end))"

lemma rawLZMA1_packs: "packs lz blob raw \<Longrightarrow> rawLZMA1 lz blob (word_of_nat (length raw)) = Inr raw"
  by (auto simp: packs_def rawLZMA1_def makes_def u64_count)

lemma readAt_part: "off + n \<le> length ra \<Longrightarrow> n \<le> 2 ^ 48 \<Longrightarrow> readAt ra (int off) (int n) = Inr (take n (drop off ra))"
  by (simp add: readAt_def)

text \<open>A directory block in its place in the volume.\<close>

lemma parseDir_write:
  fixes lz :: "'e lzma"
  assumes "dir_ok dirs ss" "packs lz (take n (drop off ra)) (write_dir dirs ss)" "off + n \<le> length ra" "length ra \<le> 2 ^ 40"
    and "cb_pos b = word_of_nat off" "cb_csz b = word_of_nat n" "cb_orig b = word_of_nat (length (write_dir dirs ss))"
    and "cb_table b = Some poly" "cb_crc b = crc32 poly (write_dir dirs ss)"
  shows "parseDir lz ra b = Inr (dir_members dirs b ss)"
proof -
  have l: "off \<le> 2 ^ 40" "n \<le> 2 ^ 40" "off + n \<le> 2 ^ 40" using assms(3,4) by simp_all
  have s: "sint (cb_pos b) = int off" "unat (cb_csz b) = n" "sint (cb_csz b) = int n" "sint (cb_pos b + cb_csz b) = int (off + n)"
    using sint_count [OF l(3)] l by (simp_all add: assms(5,6) sint_count u64_count)
  have "readAt ra (int off) (int n) = (Inr (take n (drop off ra)) :: 'e arc_error fault + bytes)" by (rule readAt_part) (use assms(3) l in simp_all)
  then have "parseDir lz ra b = bindE (readTable (write_dir dirs ss)) (\<lambda>t. all_members t b (t_nfiles t) 0 0)"
    unfolding parseDir_def s assms(7) using assms(3) rawLZMA1_packs [OF assms(2)] by (simp add: assms(8,9))
  also have "\<dots> = Inr (dir_members dirs b ss)"
  proof -
    have t: "t_nfiles (table_of dirs ss) = map (\<lambda>s. word_of_nat (length (so_files s))) ss" by (simp add: table_of_def)
    have "length (files_of ss) \<le> 2 ^ 40" using assms(1) by (simp add: dir_ok_def)
    from all_members_table [of ss "[]" ss, OF _ this] show ?thesis
      unfolding readTable_write [OF assms(1)] bindE.simps t by (simp add: files_of_def)
  qed
  finally show ?thesis .
qed

section \<open>Volumes as FreeArc writes them\<close>

record arc_block =
  ab_type :: u64
  ab_comp :: bytes
  ab_pos :: nat
  ab_orig :: nat
  ab_csz :: nat
  ab_crc :: u32
  ab_dirs :: "bytes list"
  ab_solids :: "solid list"

definition write_ctrl :: "nat \<Rightarrow> arc_block \<Rightarrow> bytes" where
  "write_ctrl fpos a =
     writePacked (ab_type a) @ writeCString (ab_comp a) @ writePacked (word_of_nat fpos - word_of_nat (ab_pos a))
     @ writePacked (word_of_nat (ab_orig a)) @ writePacked (word_of_nat (ab_csz a)) @ writeU32 (ab_crc a)"

definition write_footer :: "nat \<Rightarrow> arc_block list \<Rightarrow> bytes" where
  "write_footer fpos as = writePacked (word_of_nat (length as)) @ concat (map (write_ctrl fpos) as)"

definition block_of :: "arc_block \<Rightarrow> ctrlBlock" where
  "block_of a =
     \<lparr>cb_kind = blockKind (ab_type a), cb_pipe = parsePipeline (ab_comp a), cb_pos = word_of_nat (ab_pos a),
      cb_orig = word_of_nat (ab_orig a), cb_csz = word_of_nat (ab_csz a), cb_crc = ab_crc a, cb_table = None\<rparr>"

lemma ctrl_block_write:
  assumes "0 \<notin> set (ab_comp a)" "footer = pre @ write_ctrl fpos a @ post"
  shows "ctrl_block footer (word_of_nat fpos) (length pre) = Inr (block_of a, length (pre @ write_ctrl fpos a))"
proof -
  define A where "A = writePacked (ab_type a)"
  define B where "B = writeCString (ab_comp a)"
  define C where "C = writePacked (word_of_nat fpos - word_of_nat (ab_pos a))"
  define D where "D = writePacked (word_of_nat (ab_orig a))"
  define E where "E = writePacked (word_of_nat (ab_csz a))"
  define F where "F = writeU32 (ab_crc a)"
  have f: "footer = pre @ A @ B @ C @ D @ E @ F @ post" and w: "write_ctrl fpos a = A @ B @ C @ D @ E @ F"
    unfolding assms(2) by (simp_all add: write_ctrl_def A_def B_def C_def D_def E_def F_def)
  have lF: "3 \<le> length F" by (simp add: F_def writeU32_def)
  have 1: "readPacked footer (length pre) = Inr (ab_type a, length pre + length A)"
    unfolding A_def by (rule packed.dec_enc_at [where post = "B @ C @ D @ E @ F @ post"])
      (use lF f in \<open>auto simp: A_def intro: packed_ok_slack\<close>)
  have 2: "readCString footer (length pre + length A) = Inr (ab_comp a, length pre + length A + length B)"
    unfolding B_def by (rule cstring.dec_enc_at [where pre = "pre @ A" and post = "C @ D @ E @ F @ post"])
      (use assms(1) f in \<open>simp_all add: B_def\<close>)
  have 3: "readPacked footer (length pre + length A + length B) = Inr (word_of_nat fpos - word_of_nat (ab_pos a), length pre + length A + length B + length C)"
    unfolding C_def by (rule packed.dec_enc_at [where pre = "pre @ A @ B" and post = "D @ E @ F @ post"])
      (use lF f in \<open>auto simp: C_def intro: packed_ok_slack\<close>)
  have 4: "readPacked footer (length pre + length A + length B + length C) = Inr (word_of_nat (ab_orig a), length pre + length A + length B + length C + length D)"
    unfolding D_def by (rule packed.dec_enc_at [where pre = "pre @ A @ B @ C" and post = "E @ F @ post"])
      (use lF f in \<open>auto simp: D_def intro: packed_ok_slack\<close>)
  have 5: "readPacked footer (length pre + length A + length B + length C + length D)
      = Inr (word_of_nat (ab_csz a), length pre + length A + length B + length C + length D + length E)"
    unfolding E_def by (rule packed.dec_enc_at [where pre = "pre @ A @ B @ C @ D" and post = "F @ post"])
      (use lF f in \<open>auto simp: E_def intro: packed_ok_slack\<close>)
  have 6: "readU32 footer (length pre + length A + length B + length C + length D + length E)
      = Inr (ab_crc a, length pre + length A + length B + length C + length D + length E + length F)"
    unfolding F_def by (rule word32.dec_enc_at [where pre = "pre @ A @ B @ C @ D @ E" and post = post])
      (use f in \<open>simp_all add: F_def\<close>)
  show ?thesis unfolding ctrl_block_def 1 2 3 4 5 6 bindE.simps prod.case w by (simp add: block_of_def)
qed

lemma ctrl_blocks_write:
  assumes "\<forall>a \<in> set as. 0 \<notin> set (ab_comp a)"
  shows "readN (ctrl_block (pre @ concat (map (write_ctrl fpos) as) @ post) (word_of_nat fpos)) (length as) (length pre)
    = Inr (map block_of as, length (pre @ concat (map (write_ctrl fpos) as)))"
  using assms
proof (induction as arbitrary: pre)
  case (Cons a as)
  have "ctrl_block (pre @ write_ctrl fpos a @ concat (map (write_ctrl fpos) as) @ post) (word_of_nat fpos) (length pre)
      = Inr (block_of a, length (pre @ write_ctrl fpos a))"
    by (rule ctrl_block_write) (use Cons.prems in simp_all)
  then show ?case using Cons.IH [of "pre @ write_ctrl fpos a"] Cons.prems by simp
qed simp

lemma write_ctrl_length: "4 \<le> length (write_ctrl fpos a)"
  by (simp add: write_ctrl_def writeU32_def)

lemma parseControl_write:
  assumes "\<forall>a \<in> set as. 0 \<notin> set (ab_comp a)" "length as \<le> 2 ^ 40"
  shows "parseControl (write_footer fpos as) (word_of_nat fpos) = Inr (map block_of as)"
proof -
  let ?n = "writePacked (word_of_nat (length as))"
  have "packed_ok (word_of_nat (length as)) (length (concat (map (write_ctrl fpos) as)))"
  proof (cases as)
    case Nil
    have "pack_width 0 = 1" by (simp add: pack_width_def)
    then show ?thesis by (simp add: Nil packed_ok_def)
  next
    case (Cons a as')
    then show ?thesis using write_ctrl_length [of fpos a] by (intro packed_ok_slack) simp
  qed
  then have "readPacked (write_footer fpos as) 0 = Inr (word_of_nat (length as), length ?n)"
    using packed.dec_enc [of "word_of_nat (length as)" "concat (map (write_ctrl fpos) as)" "[]"] by (simp add: write_footer_def)
  moreover have "makes 72 (word_of_nat (length as))" using assms(2) by (simp add: makes_def u64_count)
  moreover have "readN (ctrl_block (write_footer fpos as) (word_of_nat fpos)) (length as) (length ?n)
      = Inr (map block_of as, length (?n @ concat (map (write_ctrl fpos) as)))"
    using ctrl_blocks_write [OF assms(1), of ?n fpos "[]"] by (simp add: write_footer_def)
  ultimately show ?thesis by (simp add: parseControl_def field_def u64_count [OF assms(2)])
qed

definition desc_body :: "u64 \<Rightarrow> bytes \<Rightarrow> nat \<Rightarrow> nat \<Rightarrow> u32 \<Rightarrow> bytes" where
  "desc_body typ' mth orig csz crc =
     arcMagic @ writePacked typ' @ writeCString mth @ writePacked (word_of_nat orig) @ writePacked (word_of_nat csz) @ writeU32 crc"

definition write_desc :: "u32 \<Rightarrow> u64 \<Rightarrow> bytes \<Rightarrow> nat \<Rightarrow> nat \<Rightarrow> u32 \<Rightarrow> bytes" where
  "write_desc poly typ' mth orig csz crc =
     desc_body typ' mth orig csz crc @ writeU32 (crc32 poly (desc_body typ' mth orig csz crc))"

text \<open>The polynomial a descriptor was written with is found, unless its checksum is right by the other one too.\<close>

definition poly_ok :: "u32 \<Rightarrow> bytes \<Rightarrow> bool" where
  "poly_ok poly body \<longleftrightarrow> poly = ieee \<or> poly = fitgirl \<and> crc32 ieee body \<noteq> crc32 fitgirl body"

lemma find_poly: "poly_ok poly body \<Longrightarrow> find (\<lambda>p. crc32 p body = crc32 poly body) [ieee, fitgirl] = Some poly"
  by (auto simp: poly_ok_def)

lemma parseLocal_write:
  assumes "0 \<notin> set mth" "poly_ok poly (desc_body typ' mth orig csz crc)"
  shows "parseLocal (write_desc poly typ' mth orig csz crc)
    = Inr \<lparr>ld_kind = blockKind typ', ld_pipe = parsePipeline mth, ld_orig = word_of_nat orig, ld_csz = word_of_nat csz,
        ld_crc = crc, ld_table = poly\<rparr>"
proof -
  define A where "A = writePacked typ'"
  define B where "B = writeCString mth"
  define D where "D = writePacked (word_of_nat orig)"
  define E where "E = writePacked (word_of_nat csz)"
  define F where "F = writeU32 crc"
  let ?body = "desc_body typ' mth orig csz crc"
  define G where "G = writeU32 (crc32 poly ?body)"
  define chunk where "chunk = write_desc poly typ' mth orig csz crc"
  have body: "?body = arcMagic @ A @ B @ D @ E @ F" by (simp add: desc_body_def A_def B_def D_def E_def F_def)
  have c: "chunk = arcMagic @ A @ B @ D @ E @ F @ G" by (simp add: chunk_def write_desc_def body G_def)
  have m: "length arcMagic = 4" by (simp add: arcMagic_def)
  have lF: "length F = 4" "length G = 4" by (simp_all add: F_def G_def writeU32_def)
  have 1: "readPacked chunk 4 = Inr (typ', 4 + length A)"
    unfolding A_def by (rule packed.dec_enc_at [where pre = arcMagic and post = "B @ D @ E @ F @ G"])
      (use lF c m in \<open>auto simp: A_def intro: packed_ok_slack\<close>)
  have 2: "readCString chunk (4 + length A) = Inr (mth, 4 + length A + length B)"
    unfolding B_def by (rule cstring.dec_enc_at [where pre = "arcMagic @ A" and post = "D @ E @ F @ G"])
      (use assms(1) c m in \<open>simp_all add: B_def\<close>)
  have 3: "readPacked chunk (4 + length A + length B) = Inr (word_of_nat orig, 4 + length A + length B + length D)"
    unfolding D_def by (rule packed.dec_enc_at [where pre = "arcMagic @ A @ B" and post = "E @ F @ G"])
      (use lF c m in \<open>auto simp: D_def intro: packed_ok_slack\<close>)
  have 4: "readPacked chunk (4 + length A + length B + length D) = Inr (word_of_nat csz, 4 + length A + length B + length D + length E)"
    unfolding E_def by (rule packed.dec_enc_at [where pre = "arcMagic @ A @ B @ D" and post = "F @ G"])
      (use lF c m in \<open>auto simp: E_def intro: packed_ok_slack\<close>)
  have 5: "readU32 chunk (4 + length A + length B + length D + length E) = Inr (crc, 4 + length A + length B + length D + length E + length F)"
    unfolding F_def by (rule word32.dec_enc_at [where pre = "arcMagic @ A @ B @ D @ E" and post = G])
      (use c m in \<open>simp_all add: F_def\<close>)
  have lb: "4 + length A + length B + length D + length E + length F = length ?body" by (simp add: body m)
  have 6: "readU32 chunk (length ?body) = Inr (crc32 poly ?body, length ?body + length G)"
    unfolding G_def by (rule word32.dec_enc_at [where pre = ?body and post = "[]"]) (simp_all add: chunk_def write_desc_def)
  have t: "take (length ?body) chunk = ?body" by (simp add: chunk_def write_desc_def)
  have h: "\<not> (length chunk < 8 \<or> take 4 chunk \<noteq> arcMagic)" using c lF m by simp
  show ?thesis
    unfolding parseLocal_def chunk_def [symmetric] if_not_P [OF h] 1 2 3 4 5 lb 6 field_def sum.case bindE.simps prod.case t
      find_poly [OF assms(2)] by simp
qed

text \<open>The signature of the descriptor is the last one in the last 4096 bytes.\<close>

lemma foldl_last_match:
  assumes "k \<in> set is" "P k" "sorted is" "\<forall>i \<in> set is. k < i \<longrightarrow> \<not> P i" "distinct is"
  shows "foldl (\<lambda>pos i. if P i then Some i else pos) acc is = Some k"
  using assms
proof (induction "is" arbitrary: acc)
  case (Cons i "is")
  show ?case
  proof (cases "i = k")
    case True
    then have "\<forall>j \<in> set is. \<not> P j" using Cons.prems by (auto simp: less_le)
    then have "foldl (\<lambda>pos i. if P i then Some i else pos) a is = a" for a by (induction "is" arbitrary: a) auto
    then show ?thesis using True Cons.prems by simp
  qed (use Cons in auto)
qed simp

lemma lastSignature_desc:
  assumes "length desc \<le> 4096" "length front + length desc = n" "4 \<le> length desc" "take 4 desc = arcMagic"
    and "\<forall>i > 0. i + 4 \<le> length desc \<longrightarrow> take 4 (drop i desc) \<noteq> arcMagic"
    and "n \<le> 4096"
  shows "lastSignature (front @ desc) = Some (length front)"
  unfolding lastSignature_def
proof (rule foldl_last_match)
  show "length front \<in> set [length (front @ desc) - 4096..<length (front @ desc) - 3]" using assms(2,3,6) by simp
  show "take 4 (drop (length front) (front @ desc)) = arcMagic" using assms(4) by simp
  show "\<forall>i \<in> set [length (front @ desc) - 4096..<length (front @ desc) - 3]. length front < i \<longrightarrow> take 4 (drop i (front @ desc)) \<noteq> arcMagic"
  proof (intro ballI impI)
    fix i assume i: "i \<in> set [length (front @ desc) - 4096..<length (front @ desc) - 3]" "length front < i"
    then obtain j where j: "i = length front + j" "0 < j" using less_imp_add_positive by blast
    have "length front + j < length front + length desc - 3" using i j by simp
    then have "j + 4 \<le> length desc" using assms(3) by linarith
    then show "take 4 (drop i (front @ desc)) \<noteq> arcMagic" using assms(5) j by simp
  qed
qed simp_all

lemma lastSignatureAt_desc:
  assumes "length desc \<le> 4096" "4 \<le> length desc" "take 4 desc = arcMagic"
    and "\<forall>i > 0. i + 4 \<le> length desc \<longrightarrow> take 4 (drop i desc) \<noteq> arcMagic"
  shows "lastSignatureAt (front @ desc) = (Inr (Some (length front)) :: 'e arc_error fault + nat option)"
proof -
  let ?l = "length (front @ desc)"
  let ?n = "min 4096 ?l"
  let ?cut = "?l - ?n"
  have r: "readAt (front @ desc) (int ?cut) (int ?n) = (Inr (take ?n (drop ?cut (front @ desc))) :: 'e arc_error fault + bytes)"
    by (rule readAt_part) auto
  have c: "?cut \<le> length front" using assms(1) by simp
  have "?cut + ?n = ?l" "?l = length front + length desc" "length (drop ?cut front) = length front - ?cut"
    by (simp, simp, simp only: length_drop)
  then have l: "length (drop ?cut front) + length desc = ?n" using c by linarith
  have d: "drop ?cut (front @ desc) = drop ?cut front @ desc" using c by simp
  have t: "take ?n (drop ?cut (front @ desc)) = drop ?cut front @ desc"
    unfolding d by (rule take_all) (use l in \<open>simp only: length_append order_refl\<close>)
  have "lastSignature (drop ?cut front @ desc) = Some (length (drop ?cut front))"
    by (rule lastSignature_desc [OF assms(1) l assms(2,3,4)]) simp
  moreover have "?cut + length (drop ?cut front) = length front" using c by simp
  ultimately show ?thesis unfolding lastSignatureAt_def Let_def r bindE.simps t by (simp only: option.map)
qed

section \<open>Whole volumes\<close>

text \<open>
  A volume: what comes before the footer, with every directory block in its place there, the packed
  footer, and its descriptor.
\<close>

definition block_ok :: "'e lzma \<Rightarrow> u32 \<Rightarrow> bytes \<Rightarrow> arc_block \<Rightarrow> bool" where
  "block_ok lz poly data a \<longleftrightarrow> 0 \<notin> set (ab_comp a) \<and>
     (ab_type a = 3 \<longrightarrow>
        dir_ok (ab_dirs a) (ab_solids a) \<and> ab_pos a + ab_csz a \<le> length data
        \<and> packs lz (take (ab_csz a) (drop (ab_pos a) data)) (write_dir (ab_dirs a) (ab_solids a))
        \<and> ab_orig a = length (write_dir (ab_dirs a) (ab_solids a)) \<and> ab_crc a = crc32 poly (write_dir (ab_dirs a) (ab_solids a)))"

definition block_members_of :: "u32 \<Rightarrow> arc_block \<Rightarrow> member list" where
  "block_members_of poly a =
     (if ab_type a = 3 then dir_members (ab_dirs a) (block_of a\<lparr>cb_table := Some poly\<rparr>) (ab_solids a) else [])"

lemma kind_dir: "blockKind t = BlockDir \<longleftrightarrow> t = 3"
  by (simp add: blockKind_def)

lemma volume_blocks_write:
  assumes "\<forall>a \<in> set as. block_ok lz poly data a" "length data \<le> 2 ^ 40"
  shows "volume_blocks lz data poly (map block_of as)
    = Inr (concat (map (block_members_of poly) as),
        concat (map (\<lambda>a. parsePipeline (ab_comp a) # map m_pipe (block_members_of poly a)) as))"
  using assms(1)
proof (induction as)
  case (Cons a as)
  let ?b = "block_of a\<lparr>cb_table := Some poly\<rparr>"
  have "(if cb_kind (block_of a) \<noteq> BlockDir then Inr [] else parseDir lz data ?b) = Inr (block_members_of poly a)"
  proof (cases "ab_type a = 3")
    case True
    then have ok: "dir_ok (ab_dirs a) (ab_solids a)" "ab_pos a + ab_csz a \<le> length data"
      "packs lz (take (ab_csz a) (drop (ab_pos a) data)) (write_dir (ab_dirs a) (ab_solids a))"
      "ab_orig a = length (write_dir (ab_dirs a) (ab_solids a))" "ab_crc a = crc32 poly (write_dir (ab_dirs a) (ab_solids a))"
      using Cons.prems by (simp_all add: block_ok_def)
    have "parseDir lz data ?b = Inr (dir_members (ab_dirs a) ?b (ab_solids a))"
      by (rule parseDir_write [OF ok(1,3,2) assms(2)]) (simp_all add: block_of_def ok(4,5))
    then show ?thesis using True by (simp add: block_members_of_def block_of_def kind_dir)
  qed (simp add: block_members_of_def block_of_def kind_dir)
  moreover have "cb_pipe (block_of a) = parsePipeline (ab_comp a)" by (simp add: block_of_def)
  ultimately show ?case using Cons by simp
qed simp

lemma parseVolume_write:
  assumes "data = front @ fblob @ desc" "take 4 front = arcMagic" "length data \<le> 2 ^ 40"
    and "desc = write_desc poly 4 dmth (length footer) (length fblob) (crc32 poly footer)" "length desc \<le> 4096" "0 \<notin> set dmth"
    and "poly_ok poly (desc_body 4 dmth (length footer) (length fblob) (crc32 poly footer))"
    and "\<forall>i > 0. i + 4 \<le> length desc \<longrightarrow> take 4 (drop i desc) \<noteq> arcMagic"
    and "footer = write_footer (length front) as" "length as \<le> 2 ^ 40" "packs lz fblob footer"
    and "\<forall>a \<in> set as. block_ok lz poly data a"
  shows "parseVolume lz name data =
    Inr \<lparr>v_name = name, v_optional = contains (toLower (path_base name)) (str ''optional''),
         v_algos = mergeAlgos (concat (map (\<lambda>a. parsePipeline (ab_comp a) # map m_pipe (block_members_of poly a)) as)),
         v_members = concat (map (block_members_of poly) as)\<rparr>"
proof -
  have lm: "length arcMagic = 4" by (simp add: arcMagic_def)
  have front: "4 \<le> length front" using arg_cong [OF assms(2), of length] lm by simp
  have desc: "4 \<le> length desc" "take 4 desc = arcMagic"
    unfolding assms(4) write_desc_def desc_body_def using lm by simp_all
  have c1: "\<not> (length data < 4 \<or> take 4 data \<noteq> arcMagic)" using assms(1,2) front by simp
  have sig: "lastSignatureAt data = Inr (Some (length (front @ fblob)))"
    using lastSignatureAt_desc [OF assms(5) desc assms(8), of "front @ fblob"] by (simp add: assms(1))
  have r1: "readAt data (int (length (front @ fblob))) (int (length data - length (front @ fblob))) = Inr desc"
    using readAt_part [of "length (front @ fblob)" "length desc" data] assms(1,5) by simp
  have loc: "parseLocal desc = Inr \<lparr>ld_kind = BlockFooter, ld_pipe = parsePipeline dmth, ld_orig = word_of_nat (length footer),
      ld_csz = word_of_nat (length fblob), ld_crc = crc32 poly footer, ld_table = poly\<rparr>"
    unfolding assms(4) parseLocal_write [OF assms(6,7)] by (simp add: blockKind_def)
  have fl: "length fblob \<le> 2 ^ 40" using assms(1,3) by simp
  have f: "unat (word_of_nat (length fblob) :: u64) = length fblob" by (rule u64_count [OF fl])
  have r2: "readAt data (int (length front)) (int (length fblob)) = Inr fblob"
    using readAt_part [of "length front" "length fblob" data] assms(1) fl by simp
  have comps: "\<forall>a \<in> set as. 0 \<notin> set (ab_comp a)" using assms(12) by (simp add: block_ok_def)
  have ctrl: "parseControl footer (word_of_nat (length front)) = Inr (map block_of as)"
    unfolding assms(9) by (rule parseControl_write [OF comps assms(10)])
  have pos: "length (front @ fblob) - length fblob = length front" by simp
  show ?thesis
    unfolding parseVolume_def if_not_P [OF c1] sig bindE.simps option.case r1 loc localDesc.simps f
    using rawLZMA1_packs [OF assms(11)] volume_blocks_write [OF assms(12,3)]
    by (simp add: pos r2 ctrl)
qed

text \<open>
  C2: opening an archive finds what was packed into it. For any control blocks, directories and
  files, with either CRC polynomial and any LZMA packer that the decoder undoes, the volume that
  FreeArc writes is parsed to exactly the members of its directories, in their order, each with its
  path, size, methods, place and checksum, and to the algorithms its blocks and members name.
\<close>

theorem arc_roundtrip:
  assumes "data = front @ fblob @ desc" "take 4 front = arcMagic" "length data \<le> 2 ^ 40"
    and "desc = write_desc poly 4 dmth (length footer) (length fblob) (crc32 poly footer)" "length desc \<le> 4096" "0 \<notin> set dmth"
    and "poly_ok poly (desc_body 4 dmth (length footer) (length fblob) (crc32 poly footer))"
    and "\<forall>i > 0. i + 4 \<le> length desc \<longrightarrow> take 4 (drop i desc) \<noteq> arcMagic"
    and "footer = write_footer (length front) as" "length as \<le> 2 ^ 40" "packs lz fblob footer"
    and "\<forall>a \<in> set as. block_ok lz poly data a"
  shows "parseVolume lz name data =
    Inr \<lparr>v_name = name, v_optional = contains (toLower (path_base name)) (str ''optional''),
         v_algos = mergeAlgos (concat (map (\<lambda>a. parsePipeline (ab_comp a) # map m_pipe (block_members_of poly a)) as)),
         v_members = concat (map (block_members_of poly) as)\<rparr>"
  by (rule parseVolume_write [OF assms])

text \<open>A volume of one directory with one file in it, under a decoder that only drops its header.\<close>

definition sample_lz :: "unit lzma" where
  "sample_lz b = Inr (drop 13 b, None)"

definition sample_solid :: solid where
  "sample_solid = \<lparr>so_comp = str ''storing'', so_off = 3, so_csz = 3,
     so_files = [\<lparr>w_name = [97], w_dnum = 0, w_size = 3, w_time = 5, w_isdir = 0, w_crc = 1438416925\<rparr>]\<rparr>"

definition sample_raw :: bytes where
  "sample_raw = [2, 2, 115, 116, 111, 114, 105, 110, 103, 0, 6, 6, 2, 100, 0, 97, 0, 0, 6, 5, 0, 0, 0, 0, 29, 128, 188, 85]"

definition sample_block :: arc_block where
  "sample_block = \<lparr>ab_type = 3, ab_comp = str ''lzma'', ab_pos = 7, ab_orig = 28, ab_csz = 28, ab_crc = 3306751131,
     ab_dirs = [[100]], ab_solids = [sample_solid]\<rparr>"

definition sample_footer :: bytes where
  "sample_footer = [2, 6, 108, 122, 109, 97, 0, 56, 56, 56, 155, 4, 25, 197]"

definition sample_body :: bytes where
  "sample_body = [65, 114, 67, 1, 8, 108, 122, 109, 97, 0, 28, 28, 130, 159, 86, 49]"

definition sample_desc :: bytes where
  "sample_desc = [65, 114, 67, 1, 8, 108, 122, 109, 97, 0, 28, 28, 130, 159, 86, 49, 220, 46, 217, 243]"

definition sample_volume :: bytes where
  "sample_volume = (arcMagic @ [1, 2, 3] @ sample_raw) @ sample_footer @ sample_desc"

lemma sample_raw_write: "write_dir [[100]] [sample_solid] = sample_raw"
  by code_simp

lemma sample_footer_write: "write_footer 35 [sample_block] = sample_footer"
  by code_simp

lemma sample_body_write: "desc_body 4 (str ''lzma'') 14 14 827760514 = sample_body"
  by code_simp

lemma sample_crcs: "crc32 ieee sample_raw = 3306751131" "crc32 ieee sample_footer = 827760514" "crc32 ieee sample_body = 4091096796"
  unfolding crc_start ieee_def sample_raw_def sample_footer_def sample_body_def by (simp_all add: crc_bit_num)

lemma sample_desc_write: "write_desc ieee 4 (str ''lzma'') 14 14 827760514 = sample_desc"
proof -
  have "sample_body @ writeU32 4091096796 = sample_desc" by code_simp
  then show ?thesis by (simp add: write_desc_def sample_body_write sample_crcs)
qed

lemma sample_lengths: "length sample_raw = 28" "length sample_footer = 14" "length sample_desc = 20"
  by (simp_all add: sample_raw_def sample_footer_def sample_desc_def)

lemma sample_desc_magic: "\<forall>i > 0. i + 4 \<le> length sample_desc \<longrightarrow> take 4 (drop i sample_desc) \<noteq> arcMagic"
proof (intro allI impI)
  fix i assume i: "0 < i" "i + 4 \<le> length sample_desc"
  have "list_all (\<lambda>i. take 4 (drop i sample_desc) \<noteq> arcMagic) [1..<17]" by code_simp
  then show "take 4 (drop i sample_desc) \<noteq> arcMagic" using i by (simp only: list_all_iff set_upt sample_lengths) simp
qed

lemma sample_packs: "length raw \<le> 2 ^ 40 \<Longrightarrow> packs sample_lz raw raw"
  by (auto simp: packs_def sample_lz_def drop_Suc)

lemma sample_block_ok: "\<forall>a \<in> set [sample_block]. block_ok sample_lz ieee sample_volume a"
proof -
  have "take 28 (drop 7 sample_volume) = sample_raw"
    by (simp add: sample_volume_def arcMagic_def sample_lengths)
  moreover have "dir_ok [[100]] [sample_solid]" by (simp add: dir_ok_def files_of_def sample_solid_def str_def)
  ultimately show ?thesis
    using sample_packs [of sample_raw]
    by (simp add: block_ok_def sample_block_def sample_raw_write sample_crcs sample_lengths str_def)
      (simp add: sample_volume_def sample_lengths)
qed

lemma sample_facts:
  "take 4 (arcMagic @ [1, 2, 3] @ sample_raw) = arcMagic" "length sample_volume \<le> 2 ^ 40"
  "sample_desc = write_desc ieee 4 (str ''lzma'') (length sample_footer) (length sample_footer) (crc32 ieee sample_footer)"
  "length sample_desc \<le> 4096" "0 \<notin> set (str ''lzma'')"
  "poly_ok ieee (desc_body 4 (str ''lzma'') (length sample_footer) (length sample_footer) (crc32 ieee sample_footer))"
  "\<forall>i > 0. i + 4 \<le> length sample_desc \<longrightarrow> take 4 (drop i sample_desc) \<noteq> arcMagic"
  "sample_footer = write_footer (length (arcMagic @ [1, 2, 3] @ sample_raw)) [sample_block]"
  "length [sample_block] \<le> 2 ^ 40" "packs sample_lz sample_footer sample_footer"
proof -
  have f: "length (arcMagic @ [1, 2, 3] @ sample_raw) = 35" by (simp add: arcMagic_def sample_lengths)
  show "take 4 (arcMagic @ [1, 2, 3] @ sample_raw) = arcMagic" by (simp add: arcMagic_def)
  show "length sample_volume \<le> 2 ^ 40" by (simp add: sample_volume_def sample_lengths arcMagic_def)
  show "sample_desc = write_desc ieee 4 (str ''lzma'') (length sample_footer) (length sample_footer) (crc32 ieee sample_footer)"
    by (simp add: sample_lengths sample_crcs sample_desc_write)
  show "poly_ok ieee (desc_body 4 (str ''lzma'') (length sample_footer) (length sample_footer) (crc32 ieee sample_footer))"
    by (simp add: poly_ok_def)
  show "sample_footer = write_footer (length (arcMagic @ [1, 2, 3] @ sample_raw)) [sample_block]"
    unfolding f by (simp add: sample_footer_write)
  show "packs sample_lz sample_footer sample_footer" by (rule sample_packs) (simp add: sample_lengths)
qed (use sample_desc_magic in \<open>simp_all add: sample_lengths str_def\<close>)

lemma sample_members:
  "concat (map (block_members_of ieee) [sample_block]) =
     [\<lparr>m_path = str ''d/a'', m_size = 3, m_pipe = [\<lparr>a_algo = AlgoStoring, a_params = [], a_token = str ''storing''\<rparr>],
       m_offset = 4, m_comp = 3, m_crc = 1438416925, m_dir = False, m_table = Some ieee\<rparr>]"
  by code_simp

lemma sample_parse: "\<exists>v. parseVolume sample_lz name sample_volume = Inr v \<and> v_members v = concat (map (block_members_of ieee) [sample_block])"
  using parseVolume_write [OF sample_volume_def sample_facts sample_block_ok] by simp

lemma arc_roundtrip_witness:
  "\<exists>v. parseVolume sample_lz (str ''fg-01.bin'') sample_volume = Inr v
     \<and> map (\<lambda>m. (m_path m, m_size m, m_offset m)) (v_members v) = [(str ''d/a'', 3, 4)]"
  using arc_roundtrip [OF sample_volume_def sample_facts sample_block_ok, of "str ''fg-01.bin''"]
  unfolding sample_members by simp

section \<open>Damage\<close>

text \<open>
  C32: a directory with a wrong byte is refused. Whatever one byte of an unpacked directory is
  changed to, by a damaged volume or a decoder gone wrong, the checksum of its block no longer
  fits, with either polynomial.
\<close>

theorem arc_damage_refused:
  fixes lz :: "'e lzma"
  assumes "cb_table b = Some poly" "poly = ieee \<or> poly = fitgirl" "cb_crc b = crc32 poly (xs @ x # ys)" "x \<noteq> y"
    and "cb_pos b = word_of_nat off" "cb_csz b = word_of_nat n" "off + n \<le> length ra" "length ra \<le> 2 ^ 40"
    and "rawLZMA1 lz (take n (drop off ra)) (cb_orig b) = Inr (xs @ y # ys)"
  shows "parseDir lz ra b = Inl (Error DirCRC)"
proof -
  have l: "off \<le> 2 ^ 40" "n \<le> 2 ^ 40" "off + n \<le> 2 ^ 40" using assms(7,8) by simp_all
  have s: "sint (cb_pos b) = int off" "unat (cb_csz b) = n" "sint (cb_csz b) = int n" "sint (cb_pos b + cb_csz b) = int (off + n)"
    using sint_count [OF l(3)] l by (simp_all add: assms(5,6) sint_count u64_count)
  have "readAt ra (int off) (int n) = (Inr (take n (drop off ra)) :: 'e arc_error fault + bytes)" by (rule readAt_part) (use assms(7) l in simp_all)
  with crc32_detects [OF assms(2), of y x xs ys] assms(4) show ?thesis
    unfolding parseDir_def s using assms(7,9) by (simp add: assms(1,3))
qed

lemma arc_damage_refused_witness:
  "parseDir sample_lz (sample_raw[14 := 98]) (block_of (sample_block\<lparr>ab_pos := 0\<rparr>)\<lparr>cb_table := Some ieee\<rparr>) = Inl (Error DirCRC)"
proof (rule arc_damage_refused [where off = 0 and n = 28])
  show "cb_crc (block_of (sample_block\<lparr>ab_pos := 0\<rparr>)\<lparr>cb_table := Some ieee\<rparr>) = crc32 ieee (take 14 sample_raw @ 0 # drop 15 sample_raw)"
    using sample_crcs(1) by (simp add: block_of_def sample_block_def sample_raw_def)
  show "rawLZMA1 sample_lz (take 28 (drop 0 (sample_raw[14 := 98]))) (cb_orig (block_of (sample_block\<lparr>ab_pos := 0\<rparr>)\<lparr>cb_table := Some ieee\<rparr>))
      = Inr (take 14 sample_raw @ 98 # drop 15 sample_raw)"
    by (simp add: rawLZMA1_def sample_lz_def block_of_def sample_block_def makes_def sample_raw_def drop_Suc)
qed (simp_all add: block_of_def sample_block_def sample_lengths)

text \<open>
  The number of solid blocks a directory announces is trusted: a number above 2 to the 45 panics
  before anything else of the directory is looked at.
\<close>

theorem arc_count_panics:
  assumes "2 ^ 45 < unat v" "packed_ok v (length rest)"
  shows "readTable (writePacked v @ rest) = Inl Panic"
proof -
  have "readPacked (writePacked v @ rest) 0 = Inr (v, length (writePacked v))"
    using packed.dec_enc [OF assms(2), of "[]"] by simp
  moreover have "\<not> makes 8 v" using assms(1) by (simp add: makes_def)
  ultimately show ?thesis by (simp add: readTable_def field_def column_def)
qed

lemma arc_count_panics_witness: "readTable (writePacked (2 ^ 60) @ []) = Inl Panic"
  by (rule arc_count_panics) (simp_all add: packed_ok_def pack_width_def)

end
