(* ===== verification/Extract.thy ===== *)
theory Extract
  imports Arc "HOL-Library.Multiset"
begin

text \<open>
  The extraction of a volume (\<open>extract.go\<close>, \<open>decode.go\<close>, \<open>internal/pages\<close>, \<open>stream/storing\<close>): its members
  are grouped into solid blocks, a block is opened through its pipeline, the data of each member is read
  into pages, and a task per member writes and checks its file. What a decompressor yields from what it
  is given is a parameter. Tasks run one at a time, in any order: the program also runs them at once, which
  makes no difference while they write different files (two that write one file could mix their contents,
  which no order of the model does). A failed extraction is modelled by its error only, without the files
  that were written before it.
\<close>

section \<open>Pages\<close>

text \<open>What a reader still yields, and how it ends.\<close>

type_synonym 'e strm = "bytes \<times> 'e ending"

datatype 'e full_error = FullEOF | FullUnexpected | FullErr 'e

definition read_full :: "nat \<Rightarrow> 'e strm \<Rightarrow> 'e full_error + bytes \<times> 'e strm" where
  "read_full n = (\<lambda>(b, f).
     if n \<le> length b then Inr (take n b, (drop n b, f))
     else Inl (case f of Failed e \<Rightarrow> FullErr e | Ended \<Rightarrow> if b = [] then FullEOF else FullUnexpected))"

definition page_size :: nat where
  "page_size = 32 * 1024"

function pages_loop :: "nat \<Rightarrow> 'e strm \<Rightarrow> bytes list \<Rightarrow> 'e full_error + bytes list \<times> 'e strm" where
  "pages_loop left s chunks =
     (if left = 0 then Inr (chunks, s)
      else let chunk = min page_size left in
        bindE (read_full chunk s) (\<lambda>(p, s). pages_loop (left - chunk) s (chunks @ [p])))"
  by pat_completeness auto
termination by (relation "measure (\<lambda>(left, s, chunks). left)") (auto simp: page_size_def)

declare pages_loop.simps [simp del]

definition pages_read :: "int \<Rightarrow> 'e strm \<Rightarrow> 'e full_error + bytes list \<times> 'e strm" where
  "pages_read n s = (if n = 0 then Inr ([], s) else if n < 0 then Inl FullUnexpected else pages_loop (nat n) s [])"

text \<open>A reader of pages is the pages it has left, the first of them what is left of it.\<close>

fun pages_Read :: "nat \<Rightarrow> bytes list \<Rightarrow> bytes option \<times> bytes list" where
  "pages_Read k [] = (None, [])"
| "pages_Read k (c # cs) = (Some (take k c), if length c \<le> k then cs else drop k c # cs)"

text \<open>\<open>io.CopyBuffer\<close> with a buffer of 32 KiB: everything that is written until the end.\<close>

function copy_loop :: "bytes list \<Rightarrow> bytes" where
  "copy_loop cs = (case pages_Read page_size cs of (None, _) \<Rightarrow> [] | (Some p, cs') \<Rightarrow> p @ copy_loop cs')"
  by pat_completeness auto
termination
proof (relation "measure (\<lambda>cs. length cs + length (concat cs))", goal_cases)
  case (2 cs r p cs')
  then show ?case by (cases cs) (auto simp: page_size_def split: if_splits)
qed simp

declare copy_loop.simps [simp del]

section \<open>Pipelines\<close>

type_synonym 'e decoder = "atom \<Rightarrow> 'e strm \<Rightarrow> 'e + 'e strm"

type_synonym files = "bytes \<rightharpoonup> bytes"

datatype 'e ext_error =
    VolumeErr "'e arc_error fault" | MkdirErr bytes | UnknownEncoder | OpenErr 'e | SolidSpan
  | MemberErr bytes "'e full_error" | FinishErr "'e full_error" | ExtraData | CreateErr bytes | SizeErr bytes | CrcErr bytes

text \<open>\<open>storing.NewReader\<close> hands on the reader it is given.\<close>

definition storing_NewReader :: "'e strm \<Rightarrow> 'e strm" where
  "storing_NewReader r = r"

definition decodeAtom :: "'e decoder \<Rightarrow> atom \<Rightarrow> 'e strm \<Rightarrow> 'e ext_error + 'e strm" where
  "decodeAtom dec a s =
     (if a_algo a = AlgoStoring then Inr (storing_NewReader s)
      else if a_algo a \<in> {Algo4x4, AlgoSREP, AlgoLZMA, AlgoDelta, AlgoDispack, AlgoMPZZ, AlgoMPZ, AlgoRZW, AlgoRZS, AlgoMagic2,
          AlgoPref, AlgoXT3U, AlgoXT2PNG, AlgoTOR} then map_sum OpenErr id (dec a s)
      else Inl UnknownEncoder)"

text \<open>The last atom is opened first.\<close>

fun open_atoms :: "'e decoder \<Rightarrow> atom list \<Rightarrow> 'e strm \<Rightarrow> 'e ext_error + 'e strm" where
  "open_atoms dec [] s = Inr s"
| "open_atoms dec (a # as) s = bindE (decodeAtom dec a s) (open_atoms dec as)"

definition open_pipe :: "'e decoder \<Rightarrow> pipeline \<Rightarrow> 'e strm \<Rightarrow> 'e ext_error + 'e strm" where
  "open_pipe dec pipe = open_atoms dec (rev pipe)"

section \<open>Solid blocks\<close>

record group =
  g_pipe :: pipeline
  g_off :: u64
  g_csz :: u64
  g_files :: "member list"

type_synonym key = "bytes \<times> u64 \<times> u64"

definition member_key :: "member \<Rightarrow> key" where
  "member_key m = (pipeline_string (m_pipe m), m_offset m, m_comp m)"

definition group_step :: "key list \<times> (key \<rightharpoonup> group) \<Rightarrow> member \<Rightarrow> key list \<times> (key \<rightharpoonup> group)" where
  "group_step = (\<lambda>(order, by) m.
     if m_dir m then (order, by)
     else let k = member_key m in
       case by k of
         None \<Rightarrow> (order @ [k], by(k \<mapsto> \<lparr>g_pipe = m_pipe m, g_off = m_offset m, g_csz = m_comp m, g_files = [m]\<rparr>))
       | Some g \<Rightarrow> (order, by(k \<mapsto> g\<lparr>g_files := g_files g @ [m]\<rparr>)))"

definition groupSolids :: "member list \<Rightarrow> group list" where
  "groupSolids ms = (let (order, by) = foldl group_step ([], Map.empty) ms in map (\<lambda>k. the (by k)) order)"

text \<open>A section whose length is negative as a signed number is not limited.\<close>

definition section_of :: "bytes \<Rightarrow> u64 \<Rightarrow> u64 \<Rightarrow> bytes" where
  "section_of data off csz = (let b = drop (nat (sint off)) data in if sint csz < 0 then b else take (nat (sint csz)) b)"

type_synonym write_task = "member \<times> bytes list"

fun read_members :: "'e strm \<Rightarrow> member list \<Rightarrow> 'e ext_error + write_task list \<times> 'e strm" where
  "read_members s [] = Inr ([], s)"
| "read_members s (m # ms) =
     (case pages_read (sint (m_size m)) s of
        Inl e \<Rightarrow> Inl (MemberErr (m_path m) e)
      | Inr (buf, s) \<Rightarrow> bindE (read_members s ms) (\<lambda>(ts, s). Inr ((m, buf) # ts, s)))"

definition extractSolid :: "'e decoder \<Rightarrow> bytes \<Rightarrow> group \<Rightarrow> 'e ext_error + write_task list" where
  "extractSolid dec data g =
     (if g_files g = [] then Inr []
      else if g_pipe g = [] then Inl UnknownEncoder
      else if sint (g_off g) < 0 then Inl SolidSpan
      else bindE (open_pipe dec (g_pipe g) (section_of data (g_off g) (g_csz g), Ended)) (\<lambda>s.
           bindE (read_members s (g_files g)) (\<lambda>(ts, s).
           case read_full 1 s of
             Inr _ \<Rightarrow> Inl ExtraData
           | Inl FullEOF \<Rightarrow> Inr ts
           | Inl e \<Rightarrow> Inl (FinishErr e))))"

section \<open>Files\<close>

definition writeMember :: "(bytes \<Rightarrow> bool) \<Rightarrow> write_task \<Rightarrow> files \<Rightarrow> 'e ext_error + files" where
  "writeMember creates = (\<lambda>(m, buf) fs.
     if \<not> creates (m_path m) then Inl (CreateErr (m_path m))
     else let table = (case m_table m of None \<Rightarrow> ieee | Some t \<Rightarrow> t); b = copy_loop buf in
       if word_of_nat (length b) \<noteq> m_size m then Inl (SizeErr (m_path m))
       else if (m_table m \<noteq> None \<or> m_crc m \<noteq> 0) \<and> crc32 table b \<noteq> m_crc m then Inl (CrcErr (m_path m))
       else Inr (fs(m_path m \<mapsto> b)))"

fun run_writes :: "(bytes \<Rightarrow> bool) \<Rightarrow> write_task list \<Rightarrow> files \<Rightarrow> 'e ext_error + files" where
  "run_writes creates [] fs = Inr fs"
| "run_writes creates (t # ts) fs = bindE (writeMember creates t fs) (run_writes creates ts)"

fun extractSolids :: "'e decoder \<Rightarrow> bytes \<Rightarrow> group list \<Rightarrow> 'e ext_error + write_task list" where
  "extractSolids dec data [] = Inr []"
| "extractSolids dec data (g # gs) = bindE (extractSolid dec data g) (\<lambda>ts. bindE (extractSolids dec data gs) (\<lambda>us. Inr (ts @ us)))"

text \<open>
  \<open>mkdir\<close> and \<open>creates\<close> are the paths at which the destination makes directories and files; \<open>order\<close>
  is the order in which the tasks of all solid blocks run.
\<close>

definition extractVolumeAt :: "'e lzma \<Rightarrow> 'e decoder \<Rightarrow> (bytes \<Rightarrow> bool) \<Rightarrow> (bytes \<Rightarrow> bool) \<Rightarrow> (write_task list \<Rightarrow> write_task list)
    \<Rightarrow> bytes \<Rightarrow> bytes \<Rightarrow> files \<Rightarrow> 'e ext_error + bytes list \<times> files" where
  "extractVolumeAt lz dec mkdir creates order name data fs =
     (case parseVolume lz name data of
        Inl e \<Rightarrow> Inl (VolumeErr e)
      | Inr v \<Rightarrow>
          let dirs = map m_path (filter m_dir (v_members v)) in
          case find (\<lambda>d. \<not> mkdir d) dirs of
            Some d \<Rightarrow> Inl (MkdirErr d)
          | None \<Rightarrow> bindE (extractSolids dec data (groupSolids (v_members v))) (\<lambda>ts.
              bindE (run_writes creates (order ts) fs) (\<lambda>fs. Inr (dirs, fs))))"

section \<open>Pages hold what was read\<close>

lemma copy_loop_concat: "copy_loop cs = concat cs"
proof (induction cs rule: copy_loop.induct)
  case (1 cs)
  show ?case
  proof (cases cs)
    case Nil
    then show ?thesis by (simp add: copy_loop.simps)
  next
    case (Cons c cs')
    then have "copy_loop cs = take page_size c @ copy_loop (if length c \<le> page_size then cs' else drop page_size c # cs')"
      by (subst copy_loop.simps) simp
    also have "\<dots> = concat cs" using 1 Cons by auto
    finally show ?thesis .
  qed
qed

lemma pages_loop_ok: "left \<le> length b \<Longrightarrow>
    \<exists>cs. pages_loop left (b, f) chunks = Inr (cs, (drop left b, f)) \<and> concat cs = concat chunks @ take left b"
proof (induction left "(b, f)" chunks arbitrary: b rule: pages_loop.induct)
  case (1 left chunks)
  show ?case
  proof (cases "left = 0")
    case True
    then show ?thesis by (simp add: pages_loop.simps)
  next
    case False
    let ?n = "min page_size left"
    have r: "read_full ?n (b, f) = Inr (take ?n b, (drop ?n b, f))" using "1.prems" by (simp add: read_full_def)
    have "left - ?n \<le> length (drop ?n b)" using "1.prems" by simp
    from "1.hyps" [OF False refl r refl this] obtain cs where
      cs: "pages_loop (left - ?n) (drop ?n b, f) (chunks @ [take ?n b]) = Inr (cs, (drop (left - ?n) (drop ?n b), f))"
      "concat cs = concat (chunks @ [take ?n b]) @ take (left - ?n) (drop ?n b)" by blast
    have "take ?n b @ take (left - ?n) (drop ?n b) = take left b" by (simp flip: take_add)
    then show ?thesis using cs r False by (subst pages_loop.simps) (simp add: Let_def)
  qed
qed

lemma pages_loop_short: "length b < left \<Longrightarrow> \<exists>e. pages_loop left (b, f) chunks = Inl e"
proof (induction left "(b, f)" chunks arbitrary: b rule: pages_loop.induct)
  case (1 left chunks)
  let ?n = "min page_size left"
  have n: "left \<noteq> 0" using "1.prems" by simp
  show ?case
  proof (cases "?n \<le> length b")
    case True
    then have r: "read_full ?n (b, f) = Inr (take ?n b, (drop ?n b, f))" by (simp add: read_full_def)
    have "length (drop ?n b) < left - ?n" using "1.prems" True by simp
    from "1.hyps" [OF n refl r refl this] show ?thesis using r n by (subst pages_loop.simps) (simp add: Let_def)
  next
    case False
    then show ?thesis using n by (subst pages_loop.simps) (simp add: Let_def read_full_def)
  qed
qed

lemma pages_read_ok: "0 \<le> n \<Longrightarrow> nat n \<le> length b \<Longrightarrow>
    \<exists>cs. pages_read n (b, f) = Inr (cs, (drop (nat n) b, f)) \<and> concat cs = take (nat n) b"
  using pages_loop_ok [of "nat n" b f "[]"] by (cases "n = 0") (simp_all add: pages_read_def)

lemma pages_read_Inr:
  assumes "pages_read n (b, f) = Inr (cs, s)"
  shows "0 \<le> n \<and> nat n \<le> length b \<and> concat cs = take (nat n) b \<and> s = (drop (nat n) b, f)"
proof -
  have "0 \<le> n" using assms by (auto simp: pages_read_def split: if_splits)
  moreover have "nat n \<le> length b"
  proof (rule ccontr)
    assume "\<not> nat n \<le> length b"
    then have "length b < nat n" by simp
    from pages_loop_short [OF this, of f "[]"] assms \<open>0 \<le> n\<close> \<open>length b < nat n\<close> show False by (auto simp: pages_read_def split: if_splits)
  qed
  ultimately show ?thesis using pages_read_ok [of n b f] assms by auto
qed

text \<open>The contents of a task, and that they have the size the directory announces.\<close>

definition task_bytes :: "write_task \<Rightarrow> bytes" where
  "task_bytes t = concat (snd t)"

definition task_sized :: "write_task \<Rightarrow> bool" where
  "task_sized t \<longleftrightarrow> int (length (task_bytes t)) = sint (m_size (fst t))"

lemma read_members_Inr: "read_members (b, f) ms = Inr (ts, s) \<Longrightarrow>
    map fst ts = ms \<and> (\<forall>t \<in> set ts. task_sized t) \<and> snd s = f \<and> b = concat (map task_bytes ts) @ fst s"
proof (induction ms arbitrary: b ts)
  case (Cons m ms)
  obtain buf s1 where p: "pages_read (sint (m_size m)) (b, f) = Inr (buf, s1)"
    using Cons.prems by (auto split: sum.splits)
  note q = pages_read_Inr [OF p]
  obtain us where us: "read_members (drop (nat (sint (m_size m))) b, f) ms = Inr (us, s)" "ts = (m, buf) # us"
    using Cons.prems p q by (auto simp: res_simps)
  show ?case using Cons.IH [OF us(1)] q us(2) by (auto simp: task_sized_def task_bytes_def) (metis append_take_drop_id)
qed auto

lemma read_members_ok: "list_all2 (\<lambda>m b. int (length b) = sint (m_size m)) ms bs \<Longrightarrow>
    \<exists>ts. read_members (concat bs @ r, f) ms = Inr (ts, (r, f)) \<and> map fst ts = ms \<and> map task_bytes ts = bs"
proof (induction ms bs rule: list_all2_induct)
  case (Cons m ms c bs)
  have n: "0 \<le> sint (m_size m)" "nat (sint (m_size m)) = length c" using Cons(1) by linarith+
  from pages_read_ok [OF n(1), of "c @ concat bs @ r" f] obtain cs where
    cs: "pages_read (sint (m_size m)) (c @ concat bs @ r, f) = Inr (cs, (concat bs @ r, f))" "concat cs = c"
    by (auto simp: n(2))
  obtain ts where "read_members (concat bs @ r, f) ms = Inr (ts, (r, f))" "map fst ts = ms" "map task_bytes ts = bs"
    using Cons by auto
  then show ?case using cs by (intro exI [of _ "(m, cs) # ts"]) (simp add: task_bytes_def [of "(m, cs)"])
qed simp

section \<open>Solid blocks are the members with one key\<close>

definition plain_files :: "member list \<Rightarrow> member list" where
  "plain_files ms = filter (\<lambda>m. \<not> m_dir m) ms"

definition group_key :: "group \<Rightarrow> key" where
  "group_key g = (pipeline_string (g_pipe g), g_off g, g_csz g)"

definition grouped :: "member list \<Rightarrow> key list \<times> (key \<rightharpoonup> group) \<Rightarrow> bool" where
  "grouped ms = (\<lambda>(order, by). distinct order \<and> set order = member_key ` set (plain_files ms) \<and> dom by = set order
     \<and> (\<forall>k \<in> set order. g_files (the (by k)) = filter (\<lambda>m. member_key m = k) (plain_files ms) \<and> group_key (the (by k)) = k))"

lemma plain_files_snoc: "plain_files (ms @ [m]) = (if m_dir m then plain_files ms else plain_files ms @ [m])"
  by (simp add: plain_files_def)

lemma group_step_grouped: "grouped ms (order, by) \<Longrightarrow> grouped (ms @ [m]) (group_step (order, by) m)"
proof -
  assume a: "grouped ms (order, by)"
  let ?k = "member_key m"
  show ?thesis
  proof (cases "by ?k")
    case None
    then have k: "?k \<notin> set order" "?k \<notin> member_key ` set (plain_files ms)" using a by (auto simp: grouped_def)
    then have "filter (\<lambda>x. member_key x = ?k) (plain_files ms) = []" by (metis (mono_tags, lifting) filter_False imageI)
    moreover have gk: "group_key \<lparr>g_pipe = m_pipe m, g_off = m_offset m, g_csz = m_comp m, g_files = [m]\<rparr> = ?k"
      by (simp add: group_key_def member_key_def)
    moreover have "\<forall>k \<in> set order. k \<noteq> ?k" using k(1) by blast
    ultimately show ?thesis using a k None
      by (simp add: grouped_def group_step_def plain_files_snoc Let_def gk) metis
  next
    case (Some g)
    then have k: "?k \<in> set order" using a by (auto simp: grouped_def)
    moreover from this have "g_files g = filter (\<lambda>x. member_key x = ?k) (plain_files ms)" "group_key g = ?k"
    proof -
      have "g_files (the (by ?k)) = filter (\<lambda>x. member_key x = ?k) (plain_files ms) \<and> group_key (the (by ?k)) = ?k"
        using a k unfolding grouped_def by blast
      then show "g_files g = filter (\<lambda>x. member_key x = ?k) (plain_files ms)" "group_key g = ?k" using Some by simp_all
    qed
    ultimately show ?thesis using a Some
      by (simp add: grouped_def group_step_def plain_files_snoc Let_def group_key_def insert_absorb)
  qed
qed

lemma group_fold: "grouped ms (foldl group_step ([], Map.empty) ms)"
proof (induction ms rule: rev_induct)
  case (snoc m ms)
  obtain order "by" where "foldl group_step ([], Map.empty) ms = (order, by)" by force
  then show ?case using snoc group_step_grouped [of ms order "by" m] by simp
qed (simp add: grouped_def plain_files_def)

lemma sum_list_single: "distinct ks \<Longrightarrow> k \<in> set ks \<Longrightarrow> (\<Sum>j \<leftarrow> ks. if k = j then A else {#}) = A"
proof (induction ks)
  case (Cons j ks)
  have "k \<notin> set ks \<Longrightarrow> (\<Sum>j \<leftarrow> ks. if k = j then A else {#}) = {#}" by (induction ks) auto
  then show ?case using Cons by auto
qed simp

lemma mset_by_key: "distinct ks \<Longrightarrow> key ` set xs \<subseteq> set ks \<Longrightarrow> mset (concat (map (\<lambda>k. filter (\<lambda>x. key x = k) xs) ks)) = mset xs"
proof (induction xs)
  case (Cons x xs)
  have "mset (concat (map (\<lambda>k. filter (\<lambda>x. key x = k) (x # xs)) ks))
      = (\<Sum>k \<leftarrow> ks. (if key x = k then {#x#} else {#}) + mset (filter (\<lambda>x. key x = k) xs))"
    by (simp add: mset_concat o_def) (rule arg_cong [where f = sum_list], simp)
  also have "\<dots> = (\<Sum>k \<leftarrow> ks. if key x = k then {#x#} else {#}) + mset (concat (map (\<lambda>k. filter (\<lambda>x. key x = k) xs) ks))"
    by (simp add: sum_list_addf mset_concat o_def)
  also have "(\<Sum>k \<leftarrow> ks. if key x = k then {#x#} else {#}) = {#x#}"
    using Cons.prems by (simp add: sum_list_single)
  finally show ?case using Cons by simp
qed (simp add: mset_concat o_def)

lemma groupSolids_files:
  "mset (concat (map g_files (groupSolids ms))) = mset (plain_files ms)" "\<forall>g \<in> set (groupSolids ms). g_files g \<noteq> []"
proof -
  obtain order "by" where f: "foldl group_step ([], Map.empty) ms = (order, by)" by force
  have g: "distinct order" "set order = member_key ` set (plain_files ms)"
    "\<forall>k \<in> set order. g_files (the (by k)) = filter (\<lambda>m. member_key m = k) (plain_files ms)"
    using group_fold [of ms] unfolding grouped_def f by auto
  have "map g_files (groupSolids ms) = map (\<lambda>k. filter (\<lambda>m. member_key m = k) (plain_files ms)) order"
    using g(3) by (simp add: groupSolids_def f)
  then show "mset (concat (map g_files (groupSolids ms))) = mset (plain_files ms)"
    using mset_by_key [OF g(1), of member_key "plain_files ms"] g(2) by simp
  show "\<forall>g \<in> set (groupSolids ms). g_files g \<noteq> []" using g(2,3) by (auto simp: groupSolids_def f filter_empty_conv)
qed

section \<open>What an extraction leaves\<close>

text \<open>A solid block is read in full, and what its decompressors yield from it.\<close>

definition solid_yields :: "'e decoder \<Rightarrow> bytes \<Rightarrow> group \<Rightarrow> bytes \<Rightarrow> bool" where
  "solid_yields dec data g b \<longleftrightarrow> g_pipe g \<noteq> [] \<and> 0 \<le> sint (g_off g)
     \<and> open_pipe dec (g_pipe g) (section_of data (g_off g) (g_csz g), Ended) = Inr (b, Ended)"

text \<open>The contents \<open>cs\<close> of the members of the blocks, one after the other, are what the blocks yield.\<close>

fun solids_yield :: "'e decoder \<Rightarrow> bytes \<Rightarrow> group list \<Rightarrow> bytes list \<Rightarrow> bool" where
  "solids_yield dec data [] cs \<longleftrightarrow> cs = []"
| "solids_yield dec data (g # gs) cs \<longleftrightarrow>
     solid_yields dec data g (concat (take (length (g_files g)) cs)) \<and> solids_yield dec data gs (drop (length (g_files g)) cs)"

definition crc_fits :: "member \<Rightarrow> bytes \<Rightarrow> bool" where
  "crc_fits m b \<longleftrightarrow>
     (m_table m = None \<and> m_crc m = 0) \<or> crc32 (case m_table m of None \<Rightarrow> ieee | Some t \<Rightarrow> t) b = m_crc m"

definition member_size :: "member \<Rightarrow> bytes \<Rightarrow> bool" where
  "member_size m b \<longleftrightarrow> int (length b) = sint (m_size m)"

text \<open>The files of a volume in the order of its blocks; an order of the tasks; files written in turn.\<close>

definition block_files :: "member list \<Rightarrow> member list" where
  "block_files ms = concat (map g_files (groupSolids ms))"

definition an_order :: "(write_task list \<Rightarrow> write_task list) \<Rightarrow> bool" where
  "an_order order \<longleftrightarrow> (\<forall>ts. mset (order ts) = mset ts)"

definition written :: "(bytes \<times> bytes) list \<Rightarrow> files \<Rightarrow> files" where
  "written es fs = foldl (\<lambda>fs (p, b). fs(p \<mapsto> b)) fs es"

definition task_file :: "write_task \<Rightarrow> bytes \<times> bytes" where
  "task_file t = (m_path (fst t), task_bytes t)"

lemma task_sized_size: "task_sized t \<longleftrightarrow> member_size (fst t) (task_bytes t)"
  by (simp add: task_sized_def member_size_def)

lemma extractSolid_Inr:
  assumes "extractSolid dec data g = Inr ts" "g_files g \<noteq> []"
  shows "map fst ts = g_files g \<and> (\<forall>t \<in> set ts. task_sized t) \<and> solid_yields dec data g (concat (map task_bytes ts))"
proof -
  obtain b f us s where o: "g_pipe g \<noteq> []" "\<not> sint (g_off g) < 0" "open_pipe dec (g_pipe g) (section_of data (g_off g) (g_csz g), Ended) = Inr (b, f)"
    "read_members (b, f) (g_files g) = Inr (us, s)" "(case read_full 1 s of Inr _ \<Rightarrow> Inl ExtraData | Inl FullEOF \<Rightarrow> Inr us | Inl e \<Rightarrow> Inl (FinishErr e)) = Inr ts"
    using assms by (auto simp: extractSolid_def res_simps split: if_splits)
  have e: "us = ts" "s = ([], Ended)"
    using o(5) by (cases s; auto simp: read_full_def split: sum.splits full_error.splits if_splits ending.splits)+
  show ?thesis using read_members_Inr [OF o(4) [unfolded e]] o(1-3) by (auto simp: solid_yields_def)
qed

lemma extractSolid_ok:
  fixes dec :: "'e decoder"
  assumes "solid_yields dec data g (concat cs)" "list_all2 member_size (g_files g) cs"
  shows "\<exists>ts. extractSolid dec data g = Inr ts \<and> map fst ts = g_files g \<and> map task_bytes ts = cs"
proof -
  obtain ts where ts: "read_members (concat cs @ [], Ended :: 'e ending) (g_files g) = Inr (ts, ([], Ended))"
    "map fst ts = g_files g" "map task_bytes ts = cs"
    using read_members_ok [OF assms(2) [unfolded member_size_def], of "[]" Ended] by blast
  show ?thesis
  proof (cases "g_files g = []")
    case False
    have "extractSolid dec data g = Inr ts"
      using assms(1) ts(1) False by (simp add: extractSolid_def solid_yields_def read_full_def)
    then show ?thesis using ts by blast
  next
    case True
    then show ?thesis using assms(2) by (simp add: extractSolid_def)
  qed
qed

lemma extractSolids_Inr:
  "extractSolids dec data gs = Inr ts \<Longrightarrow> \<forall>g \<in> set gs. g_files g \<noteq> [] \<Longrightarrow>
   map fst ts = concat (map g_files gs) \<and> (\<forall>t \<in> set ts. task_sized t) \<and> solids_yield dec data gs (map task_bytes ts)"
proof (induction gs arbitrary: ts)
  case (Cons g gs)
  then obtain us vs where u: "extractSolid dec data g = Inr us" "extractSolids dec data gs = Inr vs" "ts = us @ vs"
    by (auto simp: res_simps)
  have e: "map fst us = g_files g" "\<forall>t \<in> set us. task_sized t" "solid_yields dec data g (concat (map task_bytes us))"
    using extractSolid_Inr [OF u(1)] Cons.prems(2) by auto
  have "length us = length (g_files g)" using e(1) by (metis length_map)
  then show ?case using e Cons.IH [OF u(2)] Cons.prems(2) by (auto simp: u(3))
qed simp

lemma extractSolids_ok:
  "solids_yield dec data gs cs \<Longrightarrow> list_all2 member_size (concat (map g_files gs)) cs \<Longrightarrow>
   \<exists>ts. extractSolids dec data gs = Inr ts \<and> map fst ts = concat (map g_files gs) \<and> map task_bytes ts = cs"
proof (induction gs arbitrary: cs)
  case (Cons g gs)
  let ?n = "length (g_files g)"
  have l: "list_all2 member_size (g_files g) (take ?n cs)" "list_all2 member_size (concat (map g_files gs)) (drop ?n cs)"
    using list_all2_takeI [OF Cons.prems(2), of ?n] list_all2_dropI [OF Cons.prems(2), of ?n] by simp_all
  obtain us where us: "extractSolid dec data g = Inr us" "map fst us = g_files g" "map task_bytes us = take ?n cs"
    using extractSolid_ok [OF _ l(1)] Cons.prems(1) by auto
  obtain vs where "extractSolids dec data gs = Inr vs" "map fst vs = concat (map g_files gs)" "map task_bytes vs = drop ?n cs"
    using Cons.IH [OF _ l(2)] Cons.prems(1) by auto
  then show ?case using us by (intro exI [of _ "us @ vs"]) simp
qed simp

lemma sized_word: "task_sized t \<Longrightarrow> word_of_nat (length (task_bytes t)) = m_size (fst t)"
proof -
  assume "task_sized t"
  then have "(of_int (int (length (task_bytes t))) :: u64) = of_int (sint (m_size (fst t)))" by (simp only: task_sized_def)
  then show ?thesis by simp
qed

lemma writeMember_eq: "task_sized t \<Longrightarrow> writeMember creates t fs =
   (if \<not> creates (m_path (fst t)) then Inl (CreateErr (m_path (fst t)))
    else if \<not> crc_fits (fst t) (task_bytes t) then Inl (CrcErr (m_path (fst t))) else Inr (written [task_file t] fs))"
  using sized_word [of t] by (cases t) (auto simp: writeMember_def Let_def copy_loop_concat task_bytes_def task_file_def written_def crc_fits_def)

lemma run_writes_iff: "\<forall>t \<in> set ts. task_sized t \<Longrightarrow>
   run_writes creates ts fs = Inr fs' \<longleftrightarrow>
     (\<forall>t \<in> set ts. creates (m_path (fst t)) \<and> crc_fits (fst t) (task_bytes t)) \<and> fs' = written (map task_file ts) fs"
proof (induction ts arbitrary: fs)
  case (Cons t ts)
  then show ?case by (auto simp: writeMember_eq written_def)
qed (auto simp: written_def)

lemma written_map_of: "distinct (map fst es) \<Longrightarrow> written es fs = fs ++ map_of es"
proof (induction es arbitrary: fs)
  case (Cons e es)
  have d: "distinct (map fst es)" using Cons.prems by simp
  have "map_of es (fst e) = None" using Cons.prems by (simp add: map_of_eq_None_iff)
  then have m: "fs(fst e \<mapsto> snd e) ++ map_of es = fs ++ map_of (e # es)" by (auto simp: fun_eq_iff map_add_def split: option.split)
  have "written (e # es) fs = written es (fs(fst e \<mapsto> snd e))" by (simp add: written_def case_prod_beta)
  then show ?case unfolding Cons.IH [OF d] m .
qed (simp add: written_def)

lemma written_order: "distinct (map fst es) \<Longrightarrow> mset es' = mset es \<Longrightarrow> written es' fs = written es fs"
proof -
  assume a: "distinct (map fst es)" "mset es' = mset es"
  then have "mset (map fst es') = mset (map fst es)" by (metis mset_map)
  then have d: "distinct (map fst es')" using a(1) mset_eq_imp_distinct_iff by blast
  have "set es' = set es" using a(2) by (metis set_mset_mset)
  then have "map_of es' = map_of es" using map_of_inject_set [OF d a(1)] by blast
  then show ?thesis using a(1) d by (simp add: written_map_of)
qed

lemma reorder: "mset es = mset (map f ts) \<Longrightarrow> \<exists>us. mset us = mset ts \<and> map f us = es"
proof -
  assume a: "mset es = mset (map f ts)"
  have "list_all2 (\<lambda>e t. e = f t) (map f ts) ts" by (simp add: list_all2_conv_all_nth)
  from list_all2_reorder_left_invariance [OF this a] obtain us where "list_all2 (\<lambda>e t. e = f t) es us" "mset us = mset ts" by blast
  moreover from this(1) have "map f us = es" by (simp add: list_all2_conv_all_nth list_eq_iff_nth_eq)
  ultimately show ?thesis by blast
qed

lemma extractVolumeAt_eq:
  fixes lz :: "'e lzma" and dec :: "'e decoder"
  assumes "parseVolume lz name data = Inr v"
  shows "extractVolumeAt lz dec mkdir creates order name data fs = Inr (dirs, fs') \<longleftrightarrow>
    dirs = map m_path (filter m_dir (v_members v)) \<and> list_all mkdir dirs
    \<and> (\<exists>ts. extractSolids dec data (groupSolids (v_members v)) = Inr ts \<and> run_writes creates (order ts) fs = (Inr fs' :: 'e ext_error + files))"
proof -
  have mk: "find (\<lambda>d. \<not> mkdir d) ds = None \<longleftrightarrow> list_all mkdir ds" for ds by (auto simp: find_None_iff list_all_iff)
  show ?thesis by (auto simp: extractVolumeAt_def assms(1) Let_def mk [symmetric] res_simps split: option.splits)
qed

text \<open>The tasks of the blocks are their members with contents that the blocks yield and that have the sizes of the members.\<close>

lemma extractSolids_iff:
  "extractSolids dec data (groupSolids ms) = Inr ts \<Longrightarrow>
     map fst ts = block_files ms \<and> (\<forall>t \<in> set ts. task_sized t) \<and> solids_yield dec data (groupSolids ms) (map task_bytes ts)"
  "solids_yield dec data (groupSolids ms) cs \<Longrightarrow> list_all2 member_size (block_files ms) cs \<Longrightarrow>
     \<exists>ts. extractSolids dec data (groupSolids ms) = Inr ts \<and> map fst ts = block_files ms \<and> map task_bytes ts = cs"
  using extractSolids_Inr [of dec data "groupSolids ms" ts] groupSolids_files(2) [of ms]
    extractSolids_ok [of dec data "groupSolids ms" cs] by (auto simp: block_files_def)

definition member_fits :: "(bytes \<Rightarrow> bool) \<Rightarrow> member \<Rightarrow> bytes \<Rightarrow> bool" where
  "member_fits creates m b \<longleftrightarrow> creates (m_path m) \<and> member_size m b \<and> crc_fits m b"

lemma tasks_fit: "list_all2 (member_fits creates) (map fst ts) (map task_bytes ts) \<longleftrightarrow>
    (\<forall>t \<in> set ts. task_sized t) \<and> (\<forall>t \<in> set ts. creates (m_path (fst t)) \<and> crc_fits (fst t) (task_bytes t))"
  by (induction ts) (auto simp: member_fits_def task_sized_size)

lemma task_files: "map task_file ts = zip (map m_path (map fst ts)) (map task_bytes ts)"
  by (induction ts) (simp_all add: task_file_def)

lemma extract_orders:
  fixes lz :: "'e lzma" and dec :: "'e decoder"
  assumes "parseVolume lz name data = Inr v" "an_order order" "an_order order'"
    and "extractVolumeAt lz dec mkdir creates order name data fs = (Inr (dirs, fs') :: 'e ext_error + bytes list \<times> files)"
  shows "\<exists>fs''. extractVolumeAt lz dec mkdir creates order' name data fs = Inr (dirs, fs'')
    \<and> (distinct (map m_path (plain_files (v_members v))) \<longrightarrow> fs'' = fs')"
proof -
  obtain ts where ts: "extractSolids dec data (groupSolids (v_members v)) = Inr ts"
      "run_writes creates (order ts) fs = (Inr fs' :: 'e ext_error + files)"
    and d: "dirs = map m_path (filter m_dir (v_members v)) \<and> list_all mkdir dirs"
    using assms(4) by (auto simp: extractVolumeAt_eq [OF assms(1)])
  note e = extractSolids_iff(1) [OF ts(1)]
  have ms: "mset (order ts) = mset ts" "mset (order' ts) = mset ts" using assms(2,3) by (simp_all add: an_order_def)
  then have set: "set (order ts) = set ts" "set (order' ts) = set ts" by (metis set_mset_mset)+
  have sized: "\<forall>t \<in> set (order ts). task_sized t" "\<forall>t \<in> set (order' ts). task_sized t" using e set by simp_all
  have fs': "fs' = written (map task_file (order ts)) fs" using ts(2) by (simp add: run_writes_iff [OF sized(1)])
  have "run_writes creates (order' ts) fs = (Inr (written (map task_file (order' ts)) fs) :: 'e ext_error + files)"
    using ts(2) set by (simp add: run_writes_iff [OF sized(1)] run_writes_iff [OF sized(2)])
  then have x: "extractVolumeAt lz dec mkdir creates order' name data fs
      = (Inr (dirs, written (map task_file (order' ts)) fs) :: 'e ext_error + bytes list \<times> files)"
    using ts(1) d by (auto simp: extractVolumeAt_eq [OF assms(1)])
  have "written (map task_file (order' ts)) fs = fs'" if p: "distinct (map m_path (plain_files (v_members v)))"
  proof -
    have "mset (map m_path (map fst (order ts))) = mset (map m_path (plain_files (v_members v)))"
      using e ms(1) groupSolids_files(1) [of "v_members v"] by (metis block_files_def mset_map)
    then have "distinct (map m_path (map fst (order ts)))" using p mset_eq_imp_distinct_iff by blast
    moreover have "map m_path (map fst (order ts)) = map fst (map task_file (order ts))" by (simp add: task_file_def)
    ultimately have "distinct (map fst (map task_file (order ts)))" by (simp only:)
    moreover have "mset (map task_file (order' ts)) = mset (map task_file (order ts))" using ms by (simp only: mset_map)
    ultimately show ?thesis unfolding fs' by (rule written_order)
  qed
  then show ?thesis using x by blast
qed

text \<open>
  C1: an extraction yields exactly what the directories describe. For every archive that can be opened
  and whatever its decompressors yield, some order of the tasks makes the extraction succeed with given
  files if and only if the directories and files can be made and there is a content for every member such
  that each solid block decompresses to the contents of its members one after the other and to nothing
  else, each content has the size and the checksum of its member, and the files are what is left when
  the contents are written to their paths one after the other, in some order; no other file changes. If
  it succeeds in one order of the tasks it succeeds in every order; it leaves the same files when no two
  members have the same path. (Nothing in the code refuses two members with one path: what is left there
  is then the content of the task that runs last.)
\<close>

theorem extract_exact:
  fixes lz :: "'e lzma" and dec :: "'e decoder"
  assumes "parseVolume lz name data = Inr v"
  shows "mset (block_files (v_members v)) = mset (plain_files (v_members v))
    \<and> ((\<exists>order. an_order order \<and> extractVolumeAt lz dec mkdir creates order name data fs = Inr (dirs, fs')) \<longleftrightarrow>
        dirs = map m_path (filter m_dir (v_members v)) \<and> list_all mkdir dirs
        \<and> (\<exists>cs es. list_all2 (member_fits creates) (block_files (v_members v)) cs
             \<and> solids_yield dec data (groupSolids (v_members v)) cs
             \<and> mset es = mset (zip (map m_path (block_files (v_members v))) cs) \<and> fs' = written es fs))
    \<and> (\<forall>order order'. an_order order \<longrightarrow> an_order order' \<longrightarrow>
        extractVolumeAt lz dec mkdir creates order name data fs = Inr (dirs, fs') \<longrightarrow>
        (\<exists>fs''. extractVolumeAt lz dec mkdir creates order' name data fs = Inr (dirs, fs'')
           \<and> (distinct (map m_path (plain_files (v_members v))) \<longrightarrow> fs'' = fs')))"
    (is "?perm \<and> (?l \<longleftrightarrow> ?d \<and> list_all mkdir dirs \<and> (\<exists>cs es. ?P cs es)) \<and> ?orders")
proof (intro conjI)
  let ?ms = "v_members v" and ?gs = "groupSolids (v_members v)"
  show ?perm unfolding block_files_def by (rule groupSolids_files(1))
  show ?orders using extract_orders [OF assms] by blast
  show "?l \<longleftrightarrow> ?d \<and> list_all mkdir dirs \<and> (\<exists>cs es. ?P cs es)"
  proof
    assume ?l
    then obtain order ts where o: "an_order order" "extractSolids dec data ?gs = Inr ts"
        "run_writes creates (order ts) fs = (Inr fs' :: 'e ext_error + files)" and d: "?d \<and> list_all mkdir dirs"
      by (auto simp: extractVolumeAt_eq [OF assms])
    note e = extractSolids_iff(1) [OF o(2)]
    have m: "mset (order ts) = mset ts" using o(1) by (simp add: an_order_def)
    then have s: "set (order ts) = set ts" by (metis set_mset_mset)
    then have sized: "\<forall>t \<in> set (order ts). task_sized t" using e by simp
    have w: "\<forall>t \<in> set ts. creates (m_path (fst t)) \<and> crc_fits (fst t) (task_bytes t)" "fs' = written (map task_file (order ts)) fs"
      using o(3) by (simp_all add: run_writes_iff [OF sized] s)
    have "?P (map task_bytes ts) (map task_file (order ts))"
      using e w tasks_fit [of creates ts] task_files [of ts] m by (metis mset_map)
    then show "?d \<and> list_all mkdir dirs \<and> (\<exists>cs es. ?P cs es)" using d by blast
  next
    assume r: "?d \<and> list_all mkdir dirs \<and> (\<exists>cs es. ?P cs es)"
    then obtain cs es where p: "?P cs es" by blast
    then have "list_all2 member_size (block_files ?ms) cs" by (auto simp: member_fits_def elim: list_all2_mono)
    then obtain ts where ts: "extractSolids dec data ?gs = Inr ts" "map fst ts = block_files ?ms" "map task_bytes ts = cs"
      using extractSolids_iff(2) p by blast
    obtain us where us: "mset us = mset ts" "map task_file us = es" using p reorder [of es task_file ts] ts by (auto simp: task_files)
    have "set us = set ts" using us(1) by (metis set_mset_mset)
    then have "run_writes creates us fs = (Inr fs' :: 'e ext_error + files)"
      using p tasks_fit [of creates ts] ts run_writes_iff [of us creates fs fs'] us(2) by auto
    then have "extractVolumeAt lz dec mkdir creates (\<lambda>xs. if xs = ts then us else xs) name data fs = (Inr (dirs, fs') :: 'e ext_error + bytes list \<times> files)"
      using r ts(1) by (auto simp: extractVolumeAt_eq [OF assms])
    moreover have "an_order (\<lambda>xs. if xs = ts then us else xs)" using us(1) by (simp add: an_order_def)
    ultimately show ?l by blast
  qed
qed

text \<open>The volume with one file in it, from its bytes to the file.\<close>

lemma sample_crc_fits: "crc32 ieee [1, 2, 3] = 1438416925"
  unfolding crc_start ieee_def by (simp add: crc_bit_num)

lemma sample_section: "section_of sample_volume 4 3 = [1, 2, 3]"
  by (simp add: section_of_def sample_volume_def arcMagic_def)

lemma extract_exact_witness:
  "extractVolumeAt sample_lz (\<lambda>_. Inr) (\<lambda>_. True) (\<lambda>_. True) rev (str ''fg-01.bin'') sample_volume Map.empty
    = Inr ([], [str ''d/a'' \<mapsto> [1, 2, 3]])"
proof -
  obtain v where v: "parseVolume sample_lz (str ''fg-01.bin'') sample_volume = Inr v"
    "v_members v = [\<lparr>m_path = str ''d/a'', m_size = 3, m_pipe = [\<lparr>a_algo = AlgoStoring, a_params = [], a_token = str ''storing''\<rparr>],
       m_offset = 4, m_comp = 3, m_crc = 1438416925, m_dir = False, m_table = Some ieee\<rparr>]"
    using sample_parse [of "str ''fg-01.bin''"] unfolding sample_members by blast
  note x = extract_exact [OF v(1), of "\<lambda>_. Inr" "\<lambda>_. True" "\<lambda>_. True" Map.empty "[]" "[str ''d/a'' \<mapsto> [1, 2, 3]]"]
  have b: "block_files (v_members v) = v_members v" by (simp add: v(2) block_files_def groupSolids_def group_step_def Let_def)
  have "list_all2 (member_fits (\<lambda>_. True)) (block_files (v_members v)) [[1, 2, 3]]"
    unfolding b by (simp add: v(2) member_fits_def member_size_def crc_fits_def sample_crc_fits)
  moreover have "solids_yield (\<lambda>_. Inr) sample_volume (groupSolids (v_members v)) [[1, 2, 3]]"
    by (simp add: v(2) groupSolids_def group_step_def Let_def solid_yields_def open_pipe_def decodeAtom_def storing_NewReader_def sample_section)
  moreover have "mset [(str ''d/a'', [1, 2, 3])] = mset (zip (map m_path (block_files (v_members v))) [[1, 2, 3]])"
    unfolding b by (simp add: v(2))
  moreover have "[str ''d/a'' \<mapsto> [1, 2, 3]] = written [(str ''d/a'', [1, 2, 3])] Map.empty" by (simp add: written_def)
  moreover have "[] = map m_path (filter m_dir (v_members v)) \<and> list_all (\<lambda>_. True) ([] :: bytes list)" by (simp add: v(2))
  ultimately obtain order where o: "an_order order"
    "extractVolumeAt sample_lz (\<lambda>_. Inr) (\<lambda>_. True) (\<lambda>_. True) order (str ''fg-01.bin'') sample_volume Map.empty
      = Inr ([], [str ''d/a'' \<mapsto> [1, 2, 3]])"
    using x [THEN conjunct2, THEN conjunct1, THEN iffD2] by blast
  have "an_order rev" by (simp add: an_order_def)
  moreover have "distinct (map m_path (plain_files (v_members v)))" by (simp add: v(2) plain_files_def)
  ultimately show ?thesis using x [THEN conjunct2, THEN conjunct2] o by blast
qed

end
