(* ===== verification/Schedule.thy ===== *)
theory Schedule
  imports Prelude "HOL-Library.Sublist"
begin

text \<open>
  The order of the commands of a recipe (\<open>reconstruct_schedule.go\<close>). Commands run concurrently; each
  is a leaf with the files it reads and writes, and waits for the earlier leaves \<open>fileDeps\<close> names. A
  leaf whose files are not known (\<open>glob\<close>) waits for all before it, and all after it wait for it.
\<close>

section \<open>Stamps\<close>

record leaf =
  l_reads :: "bytes list"
  l_writes :: "bytes list"
  l_glob :: bool

record stamps =
  lastWrite :: "bytes \<rightharpoonup> nat"
  lastUse :: "bytes \<rightharpoonup> nat"
  prior :: "nat list"
  unknown :: "nat list"

definition resetStamps :: stamps where
  "resetStamps = \<lparr>lastWrite = Map.empty, lastUse = Map.empty, prior = [], unknown = []\<rparr>"

text \<open>A map of Go gives 0 for a key it does not have, and 0 is not a task.\<close>

definition stamp :: "(bytes \<rightharpoonup> nat) \<Rightarrow> bytes \<Rightarrow> nat" where
  "stamp m p = (case m p of None \<Rightarrow> 0 | Some i \<Rightarrow> i)"

definition add_dep :: "nat list \<Rightarrow> nat \<Rightarrow> nat list" where
  "add_dep deps i = (if i \<noteq> 0 \<and> i \<notin> set deps then deps @ [i] else deps)"

definition fileDeps :: "stamps \<Rightarrow> leaf \<Rightarrow> nat list" where
  "fileDeps st l =
     (if l_glob l then prior st @ unknown st
      else foldl add_dep []
        (map (stamp (lastWrite st)) (l_reads l)
         @ concat (map (\<lambda>p. [stamp (lastWrite st) p, stamp (lastUse st) p]) (l_writes l))
         @ unknown st))"

definition recordLeaf :: "nat \<Rightarrow> leaf \<Rightarrow> stamps \<Rightarrow> stamps" where
  "recordLeaf i l st =
     (if l_glob l then st\<lparr>prior := prior st @ [i], unknown := unknown st @ [i]\<rparr>
      else st\<lparr>prior := prior st @ [i],
              lastUse := foldl (\<lambda>m p. m(p := None)) (foldl (\<lambda>m p. m(p \<mapsto> i)) (lastUse st) (l_reads l)) (l_writes l),
              lastWrite := foldl (\<lambda>m p. m(p \<mapsto> i)) (lastWrite st) (l_writes l)\<rparr>)"

text \<open>A task is a leaf with the number the task group gave it and those it waits for.\<close>

record task =
  t_id :: nat
  t_leaf :: leaf
  t_deps :: "nat list"

definition scheduleLeaf :: "stamps \<times> task list \<Rightarrow> nat \<times> leaf \<Rightarrow> stamps \<times> task list" where
  "scheduleLeaf = (\<lambda>(st, ts) (i, l).
     (recordLeaf i l st, ts @ [\<lparr>t_id = i, t_leaf = l, t_deps = fileDeps st l\<rparr>]))"

definition schedule :: "(nat \<times> leaf) list \<Rightarrow> task list" where
  "schedule ls = snd (foldl scheduleLeaf (resetStamps, []) ls)"

section \<open>What is ordered\<close>

text \<open>\<open>a\<close> comes directly before \<open>b\<close> when \<open>b\<close> waits for it.\<close>

definition waits :: "task list \<Rightarrow> (nat \<times> nat) set" where
  "waits ts = {(i, t_id t) |i t. t \<in> set ts \<and> i \<in> set (t_deps t)}"

definition writes_to :: "leaf \<Rightarrow> bytes \<Rightarrow> bool" where
  "writes_to l p \<longleftrightarrow> \<not> l_glob l \<and> p \<in> set (l_writes l)"

definition reads_from :: "leaf \<Rightarrow> bytes \<Rightarrow> bool" where
  "reads_from l p \<longleftrightarrow> \<not> l_glob l \<and> p \<in> set (l_reads l)"

lemma set_add_deps: "set (foldl add_dep deps is) = set deps \<union> (set is - {0})"
  by (induction "is" arbitrary: deps) (auto simp: add_dep_def)

lemma foldl_upd: "foldl (\<lambda>m p. m(p := v)) m ps = (\<lambda>p. if p \<in> set ps then v else m p)"
  by (induction ps arbitrary: m) auto

lemma fileDeps_set: "\<not> l_glob l \<Longrightarrow>
    set (fileDeps st l) = (stamp (lastWrite st) ` set (l_reads l) \<union> (\<Union>p \<in> set (l_writes l). {stamp (lastWrite st) p, stamp (lastUse st) p})
      \<union> set (unknown st)) - {0}"
  by (auto simp: fileDeps_def set_add_deps)

lemma waits_append: "waits (ts @ us) = waits ts \<union> waits us"
  by (auto simp: waits_def)

lemma waits_new: "w \<in> set (t_deps t) \<Longrightarrow> (w, t_id t) \<in> waits (ts @ [t])"
  by (auto simp: waits_def)

text \<open>What the stamps say of the leaves so far.\<close>

definition stamps_inv :: "stamps \<Rightarrow> task list \<Rightarrow> bool" where
  "stamps_inv st ts \<longleftrightarrow>
     prior st = map t_id ts
     \<and> unknown st = map t_id (filter (\<lambda>t. l_glob (t_leaf t)) ts)
     \<and> (\<forall>p. (\<forall>i. lastWrite st p = Some i \<longrightarrow> i \<in> t_id ` set ts) \<and> (\<forall>i. lastUse st p = Some i \<longrightarrow> i \<in> t_id ` set ts))
     \<and> (\<forall>k < length ts. \<forall>p. writes_to (t_leaf (ts ! k)) p \<longrightarrow>
          (\<exists>w. lastWrite st p = Some w \<and> (t_id (ts ! k), w) \<in> (waits ts)\<^sup>*))
     \<and> (\<forall>k < length ts. \<forall>p. reads_from (t_leaf (ts ! k)) p \<longrightarrow> (\<forall>m. k < m \<and> m < length ts \<longrightarrow> \<not> reads_from (t_leaf (ts ! m)) p) \<longrightarrow>
          lastUse st p = Some (t_id (ts ! k)) \<or> (\<exists>w. lastWrite st p = Some w \<and> (t_id (ts ! k), w) \<in> (waits ts)\<^sup>*))"

lemma dep_write: "\<not> l_glob l \<Longrightarrow> p \<in> set (l_reads l) \<union> set (l_writes l) \<Longrightarrow> lastWrite st p = Some w \<Longrightarrow> w \<noteq> 0 \<Longrightarrow>
    w \<in> set (fileDeps st l)"
  by (force simp: fileDeps_set stamp_def)

lemma dep_use: "writes_to l p \<Longrightarrow> lastUse st p = Some w \<Longrightarrow> w \<noteq> 0 \<Longrightarrow> w \<in> set (fileDeps st l)"
  by (force simp: fileDeps_set stamp_def writes_to_def)

lemma lastWrite_record: "lastWrite (recordLeaf i l st) p = (if writes_to l p then Some i else lastWrite st p)"
  by (simp add: recordLeaf_def foldl_upd writes_to_def)

lemma lastUse_record: "lastUse (recordLeaf i l st) p =
    (if writes_to l p then None else if reads_from l p then Some i else lastUse st p)"
  by (simp add: recordLeaf_def foldl_upd writes_to_def reads_from_def)

lemma stamps_inv_step:
  assumes inv: "stamps_inv st ts" and z: "0 \<notin> t_id ` set ts" and t: "t = \<lparr>t_id = i, t_leaf = l, t_deps = fileDeps st l\<rparr>"
  shows "stamps_inv (recordLeaf i l st) (ts @ [t])"
proof -
  let ?R = "waits ts" and ?R' = "waits (ts @ [t])"
  have new: "(w, i) \<in> ?R'" if "w \<in> set (fileDeps st l)" for w
    using waits_new [of w t ts] that by (simp add: t)
  have mono: "(a, b) \<in> ?R'\<^sup>*" if "(a, b) \<in> ?R\<^sup>*" for a b
    using that rtrancl_mono [of ?R ?R'] by (auto simp: waits_append)
  have step: "(a, i) \<in> ?R'\<^sup>*" if "(a, w) \<in> ?R\<^sup>*" "w \<in> set (fileDeps st l)" for a w
    using mono [OF that(1)] new [OF that(2)] by (rule rtrancl.rtrancl_into_rtrancl)
  have last: "w \<noteq> 0" if "lastWrite st p = Some w \<or> lastUse st p = Some w" for p w
    using inv z that unfolding stamps_inv_def by metis
  have old: "lastWrite st p = Some w \<Longrightarrow> (t_id (ts ! k), w) \<in> ?R\<^sup>* \<Longrightarrow>
      \<exists>w. lastWrite (recordLeaf i l st) p = Some w \<and> (t_id (ts ! k), w) \<in> ?R'\<^sup>*" for p w k
    using dep_write [of l p st w] last [of p w] step [of _ w] mono
    by (cases "writes_to l p") (auto simp: lastWrite_record writes_to_def)
  have W: "\<exists>w. lastWrite (recordLeaf i l st) p = Some w \<and> (t_id ((ts @ [t]) ! k), w) \<in> ?R'\<^sup>*"
    if k: "k < length (ts @ [t])" and wr: "writes_to (t_leaf ((ts @ [t]) ! k)) p" for k p
  proof (cases "k < length ts")
    case True
    then obtain w where "lastWrite st p = Some w" "(t_id (ts ! k), w) \<in> ?R\<^sup>*"
      using inv wr unfolding stamps_inv_def by (metis nth_append)
    from old [OF this] True show ?thesis by (simp add: nth_append)
  next
    case False
    then show ?thesis using k wr by (simp add: nth_append t lastWrite_record)
  qed
  have U: "lastUse (recordLeaf i l st) p = Some (t_id ((ts @ [t]) ! k))
      \<or> (\<exists>w. lastWrite (recordLeaf i l st) p = Some w \<and> (t_id ((ts @ [t]) ! k), w) \<in> ?R'\<^sup>*)"
    if k: "k < length (ts @ [t])" and rd: "reads_from (t_leaf ((ts @ [t]) ! k)) p"
      and no: "\<forall>m. k < m \<and> m < length (ts @ [t]) \<longrightarrow> \<not> reads_from (t_leaf ((ts @ [t]) ! m)) p" for k p
  proof (cases "k < length ts")
    case True
    have "\<not> reads_from l p" using no [rule_format, of "length ts"] True by (simp add: t)
    moreover have "\<forall>m. k < m \<and> m < length ts \<longrightarrow> \<not> reads_from (t_leaf (ts ! m)) p"
      using no by (metis less_SucI nth_append length_append_singleton)
    then have "lastUse st p = Some (t_id (ts ! k)) \<or> (\<exists>w. lastWrite st p = Some w \<and> (t_id (ts ! k), w) \<in> ?R\<^sup>*)"
      using inv rd True unfolding stamps_inv_def by (metis nth_append)
    ultimately show ?thesis
    proof (elim disjE exE conjE)
      assume u: "lastUse st p = Some (t_id (ts ! k))"
      show ?thesis
      proof (cases "writes_to l p")
        case w: True
        then have "(t_id (ts ! k), i) \<in> ?R'\<^sup>*" using new [OF dep_use [OF w u]] last u by blast
        then show ?thesis using w True by (simp add: lastWrite_record nth_append)
      qed (use u True \<open>\<not> reads_from l p\<close> in \<open>simp add: lastUse_record nth_append\<close>)
    qed (use old True in \<open>simp add: nth_append\<close>)
  next
    case False
    then show ?thesis using k rd by (simp add: nth_append t lastWrite_record lastUse_record)
  qed
  have "prior (recordLeaf i l st) = map t_id (ts @ [t])"
    "unknown (recordLeaf i l st) = map t_id (filter (\<lambda>t. l_glob (t_leaf t)) (ts @ [t]))"
    using inv by (simp_all add: stamps_inv_def recordLeaf_def t)
  moreover have "\<forall>p. (\<forall>w. lastWrite (recordLeaf i l st) p = Some w \<longrightarrow> w \<in> t_id ` set (ts @ [t]))
      \<and> (\<forall>w. lastUse (recordLeaf i l st) p = Some w \<longrightarrow> w \<in> t_id ` set (ts @ [t]))"
    using inv by (auto simp: stamps_inv_def lastWrite_record lastUse_record t)
  ultimately show ?thesis unfolding stamps_inv_def using W U by blast
qed

text \<open>
  The pairs of leaves the stamps are there for: one of them has unknown files, the later uses a file
  the earlier writes, or it writes one the earlier reads and no leaf between them reads.
\<close>

definition guarded :: "task list \<Rightarrow> nat \<Rightarrow> nat \<Rightarrow> bool" where
  "guarded ts i j \<longleftrightarrow>
     l_glob (t_leaf (ts ! i)) \<or> l_glob (t_leaf (ts ! j))
     \<or> (\<exists>p. writes_to (t_leaf (ts ! i)) p \<and> (reads_from (t_leaf (ts ! j)) p \<or> writes_to (t_leaf (ts ! j)) p))
     \<or> (\<exists>p. reads_from (t_leaf (ts ! i)) p \<and> writes_to (t_leaf (ts ! j)) p
          \<and> (\<forall>m. i < m \<and> m < j \<longrightarrow> \<not> reads_from (t_leaf (ts ! m)) p))"

lemma guarded_new:
  assumes inv: "stamps_inv st ts" and z: "0 \<notin> t_id ` set ts" and t: "t = \<lparr>t_id = n, t_leaf = l, t_deps = fileDeps st l\<rparr>"
    and i: "i < length ts" and g: "guarded (ts @ [t]) i (length ts)"
  shows "(t_id (ts ! i), n) \<in> (waits (ts @ [t]))\<^sup>+"
proof -
  let ?R = "waits ts" and ?R' = "waits (ts @ [t])"
  have new: "(w, n) \<in> ?R'" if "w \<in> set (fileDeps st l)" for w
    using waits_new [of w t ts] that by (simp add: t)
  have step: "(a, n) \<in> ?R'\<^sup>+" if "(a, w) \<in> ?R\<^sup>*" "w \<in> set (fileDeps st l)" for a w
  proof (rule rtrancl_into_trancl1)
    show "(a, w) \<in> ?R'\<^sup>*" using that(1) rtrancl_mono [of ?R ?R'] by (auto simp: waits_append)
    show "(w, n) \<in> ?R'" by (rule new [OF that(2)])
  qed
  have last: "w \<noteq> 0" if "lastWrite st p = Some w \<or> lastUse st p = Some w" for p w
    using inv z that unfolding stamps_inv_def by metis
  have nz: "t_id (ts ! i) \<noteq> 0" using z i by (metis image_eqI nth_mem)
  have written: "(t_id (ts ! i), n) \<in> ?R'\<^sup>+"
    if "lastWrite st p = Some w" "(t_id (ts ! i), w) \<in> ?R\<^sup>*" "reads_from l p \<or> writes_to l p" for p w
    using step [OF that(2)] dep_write [OF _ _ that(1)] last that by (auto simp: reads_from_def writes_to_def)
  consider (any) "l_glob l" | (glob) "\<not> l_glob l" "l_glob (t_leaf (ts ! i))"
    | (wr) p where "writes_to (t_leaf (ts ! i)) p" "reads_from l p \<or> writes_to l p"
    | (rd) p where "reads_from (t_leaf (ts ! i)) p" "writes_to l p"
        "\<forall>m. i < m \<and> m < length ts \<longrightarrow> \<not> reads_from (t_leaf (ts ! m)) p"
    using g i by (auto simp: guarded_def t nth_append)
  then show ?thesis
  proof cases
    case any
    then have "t_id (ts ! i) \<in> set (fileDeps st l)" using inv i by (auto simp: fileDeps_def stamps_inv_def)
    then show ?thesis using step by blast
  next
    case glob
    then have "t_id (ts ! i) \<in> set (unknown st)" using inv i by (auto simp: stamps_inv_def)
    then have "t_id (ts ! i) \<in> set (fileDeps st l)" using glob nz by (simp add: fileDeps_set)
    then show ?thesis using step by blast
  next
    case (wr p)
    then obtain w where "lastWrite st p = Some w" "(t_id (ts ! i), w) \<in> ?R\<^sup>*"
      using inv i unfolding stamps_inv_def by blast
    then show ?thesis using written wr(2) by blast
  next
    case (rd p)
    then have "lastUse st p = Some (t_id (ts ! i)) \<or> (\<exists>w. lastWrite st p = Some w \<and> (t_id (ts ! i), w) \<in> ?R\<^sup>*)"
      using inv i unfolding stamps_inv_def by blast
    then show ?thesis using written rd(2) step dep_use [OF rd(2)] last by blast
  qed
qed

lemma guarded_prefix: "j < length ts \<Longrightarrow> i < j \<Longrightarrow> guarded (ts @ us) i j \<longleftrightarrow> guarded ts i j"
  by (auto simp: guarded_def nth_append)

lemma schedule_facts:
  assumes "0 \<notin> fst ` set ls" "foldl scheduleLeaf (resetStamps, []) ls = (st, ts)"
  shows "stamps_inv st ts \<and> map t_id ts = map fst ls \<and> map t_leaf ts = map snd ls
    \<and> (\<forall>i j. i < j \<longrightarrow> j < length ts \<longrightarrow> guarded ts i j \<longrightarrow> (t_id (ts ! i), t_id (ts ! j)) \<in> (waits ts)\<^sup>+)
    \<and> (\<forall>j < length ts. set (t_deps (ts ! j)) \<subseteq> t_id ` set (take j ts))"
  using assms
proof (induction ls arbitrary: st ts rule: rev_induct)
  case Nil
  then show ?case by (auto simp: stamps_inv_def resetStamps_def)
next
  case (snoc x ls)
  obtain n l where x: "x = (n, l)" by force
  obtain st0 ts0 where s: "foldl scheduleLeaf (resetStamps, []) ls = (st0, ts0)" by force
  let ?t = "\<lparr>t_id = n, t_leaf = l, t_deps = fileDeps st0 l\<rparr>"
  have "scheduleLeaf (st0, ts0) (n, l) = (st, ts)" using snoc.prems(2) by (simp add: s x)
  then have st: "st = recordLeaf n l st0" and ts: "ts = ts0 @ [?t]" by (simp_all add: scheduleLeaf_def)
  have z: "0 \<notin> fst ` set ls" using snoc.prems(1) by auto
  note IH = snoc.IH [OF z s]
  then have inv: "stamps_inv st0 ts0" and ids: "map t_id ts0 = map fst ls" by blast+
  have z0: "0 \<notin> t_id ` set ts0" using z ids by (metis list.set_map)
  have mono: "(a, b) \<in> (waits ts)\<^sup>+" if "(a, b) \<in> (waits ts0)\<^sup>+" for a b
    using that trancl_mono [of _ "waits ts0" "waits ts"] by (auto simp: ts waits_append)
  have "(t_id (ts ! i), t_id (ts ! j)) \<in> (waits ts)\<^sup>+" if "i < j" "j < length ts" "guarded ts i j" for i j
  proof (cases "j = length ts0")
    case True
    with guarded_new [OF inv z0 refl, of i n l] that show ?thesis by (simp add: ts nth_append)
  next
    case False
    then have j: "j < length ts0" using that by (simp add: ts)
    then have "guarded ts0 i j" using that guarded_prefix by (simp add: ts)
    with IH j that have "(t_id (ts0 ! i), t_id (ts0 ! j)) \<in> (waits ts0)\<^sup>+" by blast
    then show ?thesis using mono j that by (simp add: ts nth_append)
  qed
  moreover have "set (fileDeps st0 l) \<subseteq> t_id ` set ts0"
  proof
    fix d assume d: "d \<in> set (fileDeps st0 l)"
    have w: "lastWrite st0 p = Some i \<or> lastUse st0 p = Some i \<Longrightarrow> i \<in> t_id ` set ts0" for p i
      using inv unfolding stamps_inv_def by metis
    have "prior st0 = map t_id ts0" "set (unknown st0) \<subseteq> t_id ` set ts0" using inv by (auto simp: stamps_inv_def)
    with d show "d \<in> t_id ` set ts0"
      by (cases "l_glob l") (auto simp: fileDeps_def fileDeps_set stamp_def set_add_deps split: option.splits intro: w)
  qed
  then have "\<forall>j < length ts. set (t_deps (ts ! j)) \<subseteq> t_id ` set (take j ts)"
    using IH by (auto simp: ts nth_append less_Suc_eq)
  ultimately show ?case
    using IH stamps_inv_step [OF inv z0 refl, of n l] by (simp add: st ts x)
qed

text \<open>
  The stamps order what they are there for. Whatever a recipe reads and writes, a leaf that uses
  a file an earlier leaf writes comes after it through the tasks it waits for, so does one that
  writes a file after its last reader, and so do all leaves before and after one with unknown files.
\<close>

theorem schedule_orders:
  assumes "0 \<notin> fst ` set ls" "i < j" "j < length ls" "guarded (schedule ls) i j"
  shows "(fst (ls ! i), fst (ls ! j)) \<in> (waits (schedule ls))\<^sup>+"
proof -
  obtain st ts where s: "foldl scheduleLeaf (resetStamps, []) ls = (st, ts)" by force
  then have ts: "schedule ls = ts" by (simp add: schedule_def)
  have ids: "map t_id ts = map fst ls" using schedule_facts [OF assms(1) s] by blast
  then have l: "length ts = length ls" by (metis length_map)
  have "t_id (ts ! k) = fst (ls ! k)" if "k < length ls" for k
    using ids l that by (metis nth_map)
  then show ?thesis using schedule_facts [OF assms(1) s] assms(2-4) l unfolding ts by (metis less_trans)
qed

text \<open>
  The tasks never wait in a circle. A task waits only for tasks made before it, so the tasks of
  every recipe can be run to the end.
\<close>

theorem schedule_acyclic:
  assumes "0 \<notin> fst ` set ls" "j < length ls"
  shows "set (t_deps (schedule ls ! j)) \<subseteq> fst ` set (take j ls)"
proof -
  obtain st ts where s: "foldl scheduleLeaf (resetStamps, []) ls = (st, ts)" by force
  then have ts: "schedule ls = ts" by (simp add: schedule_def)
  have ids: "map t_id ts = map fst ls" using schedule_facts [OF assms(1) s] by blast
  then have "t_id ` set (take j ts) = fst ` set (take j ls)" "j < length ts"
    using assms(2) by (metis list.set_map take_map, metis length_map)
  moreover have "\<forall>j < length ts. set (t_deps (ts ! j)) \<subseteq> t_id ` set (take j ts)" using schedule_facts [OF assms(1) s] by blast
  ultimately show ?thesis unfolding ts by metis
qed

section \<open>Running the tasks\<close>

text \<open>
  The task group starts a task when those it waits for have ended. A run is any such order of the
  tasks.
\<close>

definition legal_run :: "task list \<Rightarrow> task list \<Rightarrow> bool" where
  "legal_run ts run \<longleftrightarrow>
     distinct run \<and> set run = set ts \<and> (\<forall>us t vs. run = us @ t # vs \<longrightarrow> set (t_deps t) \<subseteq> t_id ` set us)"

text \<open>A leaf does what it declares: it changes only files it writes, from those it reads or writes.\<close>

type_synonym files = "bytes \<rightharpoonup> bytes"








text \<open>Copying and deleting a file, as leaves and as what they do.\<close>

definition copy_leaf :: "bytes \<Rightarrow> bytes \<Rightarrow> leaf" where
  "copy_leaf p q = \<lparr>l_reads = [p], l_writes = [q], l_glob = False\<rparr>"

definition del_leaf :: "bytes \<Rightarrow> leaf" where
  "del_leaf p = \<lparr>l_reads = [], l_writes = [p], l_glob = False\<rparr>"



text \<open>
  C39: a file that is read twice can be lost. When two leaves copy a file and a third deletes it, the
  third waits for the second only: the task group may run the first after it, which then finds no
  file, where the recipe has two copies.
\<close>

theorem schedule_loses_reader:
  assumes "distinct [p, q, r]" "distinct [0, i, j, k]" "s p = Some c"
    and "act i = (\<lambda>s. s(q := s p))" "act j = (\<lambda>s. s(r := s p))" "act k = (\<lambda>s. s(p := None))"
    and "ls = [(i, copy_leaf p q), (j, copy_leaf p r), (k, del_leaf p)]"
  shows "fold (\<lambda>(i, l). act i) ls s q = Some c
    \<and> (\<exists>run. legal_run (schedule ls) run \<and> fold (\<lambda>t. act (t_id t)) run s q = None)"
proof -
  let ?a = "\<lparr>t_id = i, t_leaf = copy_leaf p q, t_deps = []\<rparr>" and ?b = "\<lparr>t_id = j, t_leaf = copy_leaf p r, t_deps = []\<rparr>"
    and ?c = "\<lparr>t_id = k, t_leaf = del_leaf p, t_deps = [j]\<rparr>"
  have ts: "schedule ls = [?a, ?b, ?c]"
    using assms(1,2) by (auto simp: assms(7) schedule_def scheduleLeaf_def resetStamps_def fileDeps_def recordLeaf_def stamp_def
      add_dep_def copy_leaf_def del_leaf_def)
  have "legal_run (schedule ls) [?b, ?c, ?a]"
    unfolding legal_run_def ts using assms(2) by (auto simp: Cons_eq_append_conv)
  moreover have "fold (\<lambda>t. act (t_id t)) [?b, ?c, ?a] s q = None" using assms(1) by (simp add: assms(4-6))
  moreover have "fold (\<lambda>(i, l). act i) ls s q = Some c" using assms(1,3) by (auto simp: assms(4-7))
  ultimately show ?thesis by blast
qed

definition sample_act :: "nat \<Rightarrow> files \<Rightarrow> files" where
  "sample_act i s =
     (if i = 1 then s([98] := s [97]) else if i = 2 then s([99] := s [97]) else if i = 3 then s([97] := None) else s)"

lemma schedule_loses_reader_witness:
  "\<exists>run. legal_run (schedule [(1, copy_leaf [97] [98]), (2, copy_leaf [97] [99]), (3, del_leaf [97])]) run
     \<and> fold (\<lambda>t. sample_act (t_id t)) run [[97] \<mapsto> [1, 2]] [98] = None"
  by (rule conjunct2 [OF schedule_loses_reader [where c = "[1, 2]" and q = "[98]" and r = "[99]" and p = "[97]" and i = 1 and j = 2 and k = 3]])
    (simp_all add: sample_act_def fun_eq_iff)

lemma schedule_orders_witness:
  "(fst ([(1, copy_leaf [97] [98]), (2, copy_leaf [98] [99])] ! 0), fst ([(1, copy_leaf [97] [98]), (2, copy_leaf [98] [99])] ! 1))
     \<in> (waits (schedule [(1, copy_leaf [97] [98]), (2, copy_leaf [98] [99])]))\<^sup>+"
proof (rule schedule_orders)
  show "guarded (schedule [(1, copy_leaf [97] [98]), (2, copy_leaf [98] [99])]) 0 1"
    by (simp add: guarded_def schedule_def scheduleLeaf_def writes_to_def reads_from_def copy_leaf_def)
qed simp_all

lemma schedule_acyclic_witness:
  "set (t_deps (schedule [(7, copy_leaf [97] [98]), (9, copy_leaf [98] [99])] ! 1)) \<subseteq> fst ` set (take 1 [(7, copy_leaf [97] [98]), (9, copy_leaf [98] [99])])"
  by (rule schedule_acyclic) simp_all


end
