(* ===== verification/Operations.thy ===== *)
theory Operations
  imports Prelude
begin

text \<open>
  A record of an installer's script (\<open>Operation\<close> of \<open>setupdata/plan.go\<close>): what the reader of the
  scripts makes and the replay of the recipes works on. The paths keep the constants of the installer.
\<close>

record operation =
  op_kind :: bytes
  op_source :: bytes
  op_dest :: bytes
  op_filter :: bytes
  op_program :: bytes
  op_args :: bytes
  op_workdir :: bytes
  op_optional :: bool

end
