(* ===== verification/Recipe.thy ===== *)
theory Recipe
  imports Schedule Operations Gostrings
begin

text \<open>
  The text of a recipe and what it schedules (\<open>reconstruct_commands.go\<close>, \<open>reconstruct_plan.go\<close>,
  \<open>reconstruct_schedule.go\<close>): lines, commands and words, the paths inside the three namespaces, the
  files a command declares, and the leaves made of them. Joining and naming paths is done by a
  library outside the repository: \<open>lew_new\<close> and \<open>lew_name\<close> are parameters.
\<close>

section \<open>Characters\<close>

text \<open>The length of the UTF-8 character a string begins with, 0 if there is none.\<close>

definition cont :: "byte \<Rightarrow> byte \<Rightarrow> byte \<Rightarrow> bool" where
  "cont lo hi c \<longleftrightarrow> lo \<le> c \<and> c \<le> hi"

definition rune_len :: "bytes \<Rightarrow> nat" where
  "rune_len s =
     (case s of [] \<Rightarrow> 0
      | b # r \<Rightarrow>
          let lo = (if b = 0xe0 then 0xa0 else if b = 0xf0 then 0x90 else 0x80);
              hi = (if b = 0xed then 0x9f else if b = 0xf4 then 0x8f else 0xbf);
              n = (if b < 0x80 then 1 else if b < 0xc2 then 0 else if b < 0xe0 then 2 else if b < 0xf0 then 3
                   else if b < 0xf5 then 4 else 0)
          in if n \<le> 1 then n
             else if length r + 1 < n \<or> \<not> cont lo hi (hd r) \<or> \<not> list_all (cont 0x80 0xbf) (take (n - 2) (tl r)) then 0
             else n)"

text \<open>The characters a loop over a string sees; a byte that begins none is written back as U+FFFD.\<close>

function runes :: "bytes \<Rightarrow> bytes list" where
  "runes s =
     (if s = [] then []
      else if rune_len s = 0 then [0xef, 0xbf, 0xbd] # runes (tl s)
      else take (rune_len s) s # runes (drop (rune_len s) s))"
  by pat_completeness auto
termination by (relation "measure length") auto

declare runes.simps [simp del]

function valid_utf8 :: "bytes \<Rightarrow> bool" where
  "valid_utf8 s =
     (if s = [] then True else if rune_len s = 0 then False else valid_utf8 (drop (rune_len s) s))"
  by pat_completeness auto
termination by (relation "measure length") auto

declare valid_utf8.simps [simp del]

section \<open>Words and commands\<close>

datatype recipe_error =
    BadOperator bytes | OpenQuote | BadSeparator | BadPath bytes | LeavesRoot bytes | LeavesInstall bytes | ChangesRoot bytes
  | TooDeep | MissingCall | BadRun | BatchArgs | BadPack | BadSevenz | NotWritable bytes

fun words_loop :: "bytes list \<Rightarrow> bytes list \<Rightarrow> bytes \<Rightarrow> bool \<Rightarrow> bool \<Rightarrow> recipe_error + bytes list" where
  "words_loop [] out word quoted started =
     (if quoted then Inl OpenQuote else Inr (if started then out @ [word] else out))"
| "words_loop (c # cs) out word quoted started =
     (if c = str ''\"'' then words_loop cs out word (\<not> quoted) True
      else if (c = str '' '' \<or> c = [9]) \<and> \<not> quoted then
        (if started then words_loop cs (out @ [word]) [] quoted False else words_loop cs out word quoted started)
      else if \<not> quoted \<and> (\<exists>x \<in> set (str ''|<>^&''). c = [x]) then Inl (BadOperator c)
      else words_loop cs out (word @ c) quoted True)"

definition recipeWords :: "bytes \<Rightarrow> recipe_error + bytes list" where
  "recipeWords line = words_loop (runes line) [] [] False False"

text \<open>\<open>strings.ReplaceAll\<close> of a carriage return and line feed by a line feed.\<close>

fun crlf :: "bytes \<Rightarrow> bytes" where
  "crlf (c # d # s) = (if c = 13 \<and> d = 10 then 10 # crlf s else c # crlf (d # s))"
| "crlf s = s"

definition hasSuffix :: "bytes \<Rightarrow> bytes \<Rightarrow> bool" where
  "hasSuffix s p \<longleftrightarrow> hasPrefix (rev s) (rev p)"

text \<open>The parts of a line between double ampersands outside quotes, from \<open>start\<close> on.\<close>

function parts_loop :: "bytes \<Rightarrow> nat \<Rightarrow> nat \<Rightarrow> bool \<Rightarrow> bytes list \<Rightarrow> recipe_error + bytes list" where
  "parts_loop line start i quoted out =
     (if length line < i then (if quoted then Inl OpenQuote else Inr out)
      else
        let quoted = (if i < length line \<and> line ! i = 0x22 then \<not> quoted else quoted) in
        if i \<noteq> length line \<and> (quoted \<or> line ! i \<noteq> 0x26) then parts_loop line start (i + 1) quoted out
        else if i < length line \<and> (length line \<le> i + 1 \<or> line ! (i + 1) \<noteq> 0x26) then Inl BadSeparator
        else
          let part = trimSpace (take (i - start) (drop start line));
              out = (if part \<noteq> [] then out @ [part] else out)
          in if i < length line then parts_loop line (i + 2) (i + 2) quoted out
             else parts_loop line start (i + 1) quoted out)"
  by pat_completeness auto
termination by (relation "measure (\<lambda>(line, start, i, q, out). length line + 1 - i)") auto

declare parts_loop.simps [simp del]

definition strip_line :: "bytes \<Rightarrow> bytes" where
  "strip_line line =
     (let line = (if hasPrefix (toLower line) (str ''cmd /c '') then trimSpace (drop 7 line) else line);
          line = (if hasPrefix line (str ''\"\"'') \<and> hasSuffix line (str ''\"'') then butlast (drop 1 line) else line)
      in if hasPrefix line (str ''\"'') \<and> hasSuffix line (str ''\"'') \<and> count_list line 0x22 = 2 then butlast (drop 1 line)
         else line)"

fun commands_loop :: "bytes list \<Rightarrow> bytes list \<Rightarrow> recipe_error + bytes list" where
  "commands_loop [] out = Inr out"
| "commands_loop (line # lines) out =
     (let line = trimSpace line;
          line = (if hasPrefix line (str ''@'') then drop 1 line else line)
      in if line = [] \<or> hasPrefix line (str ''::'') \<or> hasPrefix (toLower line) (str ''rem '') then commands_loop lines out
         else bindE (parts_loop (strip_line line) 0 0 False out) (commands_loop lines))"

definition recipeCommands :: "bytes \<Rightarrow> recipe_error + bytes list" where
  "recipeCommands text = commands_loop (split_on 10 (crlf text)) []"

section \<open>Paths\<close>

definition slashes :: "bytes \<Rightarrow> bytes" where
  "slashes s = map (\<lambda>c. if c = 0x5c then 0x2f else c) s"

text \<open>\<open>fs.ValidPath\<close>\<close>

definition validPath :: "bytes \<Rightarrow> bool" where
  "validPath name \<longleftrightarrow>
     valid_utf8 name \<and> (name = str ''.'' \<or> list_all (\<lambda>e. e \<noteq> [] \<and> e \<noteq> str ''.'' \<and> e \<noteq> dotdot) (split_on 0x2f name))"

definition roots :: "bytes list" where
  "roots = [str ''app'', str ''tmp'', str ''src'']"

definition root_of :: "bytes \<Rightarrow> bytes" where
  "root_of name = fst (cut_on 0x2f name)"

text \<open>The namespace a name like \<open>{app}/x\<close> asks for.\<close>

definition braced :: "bytes \<Rightarrow> bytes option" where
  "braced name = find (\<lambda>root. let prefix = str ''{'' @ root @ str ''}'' in
     toLower name = prefix \<or> hasPrefix (toLower name) (prefix @ str ''/'')) roots"

definition virtualPath :: "(bytes list \<Rightarrow> bytes) \<Rightarrow> bytes \<Rightarrow> bytes \<Rightarrow> recipe_error + bytes" where
  "virtualPath lew_new name cwd =
     (let name = slashes name;
          expected = braced name;
          (name, cwd) = (case expected of None \<Rightarrow> (name, cwd)
            | Some root \<Rightarrow> (root @ str ''/'' @ dropWhile (\<lambda>c. c = 0x2f) (drop (length root + 2) name), []));
          name = (if name = [] then str ''.'' else name)
      in if (\<exists>c \<in> set name. c \<in> {0x3a, 0, 0x7b, 0x7d, 0x25}) \<or> hasPrefix name (str ''/'') then Inl (BadPath name)
         else
           let name = (if cwd \<noteq> [] then lew_new [cwd, name] else lew_new [name]); root = root_of name in
           if expected \<noteq> None \<and> Some root \<noteq> expected then Inl (LeavesRoot name)
           else if root \<notin> set roots then Inl (LeavesInstall name)
           else if cwd \<noteq> [] \<and> root \<noteq> root_of cwd then Inl (ChangesRoot name)
           else if \<not> validPath name then Inl (BadPath name)
           else Inr name)"

text \<open>The namespaces that can be written, with the path inside.\<close>

definition writable :: "bytes \<Rightarrow> recipe_error + bytes \<times> bytes" where
  "writable name =
     (let (root, rel) = cut_on 0x2f name
      in if root = str ''app'' \<or> root = str ''tmp'' then Inr (root, rel) else Inl (NotWritable name))"

section \<open>What a command declares\<close>

text \<open>
  \<open>strconv.Atoi\<close> as far as its errors go: an optional sign and at least one digit, and a value of 64 bits.
\<close>

definition atoi_ok :: "bytes \<Rightarrow> bool" where
  "atoi_ok s =
     (let neg = hasPrefix s (str ''-''); d = (if neg \<or> hasPrefix s (str ''+'') then drop 1 s else s);
          v = foldl (\<lambda>n c. 10 * n + (unat c - 48)) 0 d
      in d \<noteq> [] \<and> list_all (\<lambda>c. 48 \<le> c \<and> c \<le> 57) d \<and> (if neg then v \<le> 2 ^ 63 else v < 2 ^ 63))"

definition dashed :: "bytes \<Rightarrow> bool" where
  "dashed s \<longleftrightarrow> hasPrefix s (str ''-'')"

fun pack_files :: "bytes list \<Rightarrow> bytes list \<Rightarrow> recipe_error + bytes list" where
  "pack_files [] files = Inr files"
| "pack_files (arg # args) files =
     (if \<not> dashed arg then pack_files args (files @ [arg])
      else (case find (hasPrefix arg) [str ''-d'', str ''-fb'', str ''-lc'', str ''-lp'', str ''-pb''] of
              None \<Rightarrow> Inl BadPack
            | Some key \<Rightarrow> if atoi_ok (drop (length key) arg) then pack_files args files else Inl BadPack))"

definition packingOptions :: "bytes list \<Rightarrow> recipe_error + bytes \<times> bytes" where
  "packingOptions args =
     (if length args = 2 \<and> \<not> dashed (args ! 0) \<and> args ! 0 \<noteq> str ''e'' then Inr (args ! 0, args ! 1)
      else if args = [] \<or> hd args \<noteq> str ''e'' then Inl BadPack
      else bindE (pack_files (tl args) []) (\<lambda>files.
        if length files \<noteq> 2 then Inl BadPack else Inr (files ! 0, files ! 1)))"

fun sevenz_loop :: "bytes list \<Rightarrow> bytes \<Rightarrow> bytes list \<Rightarrow> recipe_error + bytes \<times> bytes list" where
  "sevenz_loop [] archive sources = (if archive = [] \<or> sources = [] then Inl BadSevenz else Inr (archive, sources))"
| "sevenz_loop (arg # args) archive sources =
     (if dashed arg then
        (if arg \<in> set (map str [''-ms=off'', ''-mtc=off'', ''-mtm=off'', ''-mta=off'']) \<or> hasPrefix arg (str ''-m0=lzma'')
         then sevenz_loop args archive sources else Inl BadSevenz)
      else if archive = [] then sevenz_loop args arg sources
      else sevenz_loop args archive (sources @ [arg]))"

definition sevenzArgs :: "bytes list \<Rightarrow> recipe_error + bytes \<times> bytes list" where
  "sevenzArgs args = (if args = [] \<or> hd args \<noteq> str ''a'' then Inl BadSevenz else sevenz_loop (tl args) [] [])"

definition wild :: "bytes \<Rightarrow> bool" where
  "wild s \<longleftrightarrow> (\<exists>c \<in> set s. c \<in> {0x2a, 0x3f, 0x5b})"

text \<open>Adding a file to what a command reads or writes, and doing so for a list.\<close>

definition add_file :: "(bytes list \<Rightarrow> bytes) \<Rightarrow> bytes \<Rightarrow> bytes \<times> bool \<Rightarrow> leaf \<Rightarrow> recipe_error + leaf" where
  "add_file lew_new cwd = (\<lambda>(s, write) l.
     bindE (virtualPath lew_new s cwd) (\<lambda>n.
       let l = l\<lparr>l_glob := l_glob l \<or> wild s\<rparr>
       in Inr (if write then l\<lparr>l_writes := l_writes l @ [n]\<rparr> else l\<lparr>l_reads := l_reads l @ [n]\<rparr>)))"

fun add_files :: "(bytes list \<Rightarrow> bytes) \<Rightarrow> bytes \<Rightarrow> (bytes \<times> bool) list \<Rightarrow> leaf \<Rightarrow> recipe_error + leaf" where
  "add_files lew_new cwd [] l = Inr l"
| "add_files lew_new cwd (f # fs) l = bindE (add_file lew_new cwd f l) (add_files lew_new cwd fs)"

definition stripFlags :: "bytes list \<Rightarrow> bytes list" where
  "stripFlags args = filter (\<lambda>s. \<not> hasPrefix s (str ''/'')) args"

definition names :: "char list list \<Rightarrow> bytes \<Rightarrow> bool" where
  "names ns name \<longleftrightarrow> name \<in> set (map str ns)"

definition recipeFiles :: "(bytes list \<Rightarrow> bytes) \<Rightarrow> bytes \<Rightarrow> bytes list \<Rightarrow> bytes \<Rightarrow> recipe_error + leaf" where
  "recipeFiles lew_new name w cwd =
     (let a = tl w; none = \<lparr>l_reads = [], l_writes = [], l_glob = False\<rparr>; any = none\<lparr>l_glob := True\<rparr>;
          add = add_files lew_new cwd
      in if names [''del'', ''erase'', ''rd'', ''rmdir''] name then
           add (map (\<lambda>s. (s, True)) (stripFlags a)) (if names [''rd'', ''rmdir''] name then any else none)
         else if names [''move'', ''ren'', ''rename''] name then
           let a = stripFlags a in
           if length a \<noteq> 2 then Inr none else add [(a ! 0, False), (a ! 0, True), (a ! 1, True)] none
         else if names [''copy''] name then
           let a = stripFlags a in
           if length a < 1 \<or> 2 < length a then Inr none
           else let parts = split_on 0x2b (a ! 0); dest = (if length a = 2 then a ! 1 else hd parts)
             in add (map (\<lambda>s. (s, False)) parts @ [(dest, True)]) none
         else if names [''fart.exe''] name then
           (if length a = 4 then bindE (add [(a ! 1, True)] none) (\<lambda>l. Inr (l\<lparr>l_reads := l_reads l @ l_writes l\<rparr>)) else Inr none)
         else if names [''fsb.exe''] name then
           (if length a = 2 then add [(a ! 0, False), (a ! 1, True)] none else Inr none)
         else if names [''x2.exe''] name then
           (if length a = 2 then add [(a ! 0, False), (a ! 1, False), (a ! 0, True)] none else Inr none)
         else if names [''7z.exe'', ''x4.exe'', ''x5n.exe''] name then Inr any
         else if names [''x5.exe'', ''hpatchz.exe''] name then
           let a = (if a \<noteq> [] \<and> hasPrefix (hd a) (str ''-s-'') then tl a else a) in
           if length a = 3 then add [(a ! 0, False), (a ! 1, False), (a ! 2, True)] none else Inr none
         else if names [''fgpack.exe''] name then
           (case packingOptions a of Inl _ \<Rightarrow> Inr none | Inr (source, dest) \<Rightarrow> add [(source, False), (dest, True)] none)
         else if names [''x.exe'', ''xdelta.exe'', ''xdelta3.exe''] name then Inr any
         else if names [''x3.exe''] name then
           (if length a = 1 then bindE (add [(a ! 0, False)] none) (\<lambda>l. Inr (l\<lparr>l_glob := True\<rparr>)) else Inr any)
         else if hasSuffix name (str ''.bat'') \<or> hasSuffix name (str ''.cmd'') then
           bindE (add [(w ! 0, False)] none) (\<lambda>l. Inr (l\<lparr>l_glob := True\<rparr>))
         else Inr none)"

section \<open>Scheduling a recipe\<close>

definition prog_name :: "(bytes \<Rightarrow> bytes) \<Rightarrow> bytes \<Rightarrow> bytes" where
  "prog_name lew_name program = toLower (lew_name (slashes program))"

fun opsMayWrite :: "(bytes list \<Rightarrow> bytes) \<Rightarrow> (bytes \<Rightarrow> bytes) \<Rightarrow> operation list \<Rightarrow> bytes \<Rightarrow> bool" where
  "opsMayWrite lew_new lew_name [] path \<longleftrightarrow> False"
| "opsMayWrite lew_new lew_name (op # ops) path \<longleftrightarrow>
     (if op_kind op \<noteq> str ''command'' then opsMayWrite lew_new lew_name ops path
      else let prog = prog_name lew_name (op_program op) in
        if names [''{cmd}'', ''cmd.exe'', ''run.exe'', ''x3.exe'', ''x.exe'', ''xdelta.exe'', ''xdelta3.exe'', ''x5n.exe'', ''x4.exe'', ''7z.exe''] prog
           \<or> hasSuffix prog (str ''.bat'') \<or> hasSuffix prog (str ''.cmd'') then True
        else (case recipeWords (op_args op) of Inl _ \<Rightarrow> True
          | Inr words \<Rightarrow> (case virtualPath lew_new (op_workdir op) [] of Inl _ \<Rightarrow> True
          | Inr cwd \<Rightarrow> (case recipeFiles lew_new prog (prog # words) cwd of Inl _ \<Rightarrow> True
          | Inr l \<Rightarrow> l_glob l
              \<or> (\<exists>w \<in> set (l_writes l). w = path \<or> (if hasPrefix w (str ''app/'') then drop 4 w else w) = path)
              \<or> opsMayWrite lew_new lew_name ops path))))"

definition laterMayWrite :: "(bytes list \<Rightarrow> bytes) \<Rightarrow> (bytes \<Rightarrow> bytes) \<Rightarrow> operation list \<Rightarrow> nat \<Rightarrow> bytes \<Rightarrow> bool" where
  "laterMayWrite lew_new lew_name ops opi path \<longleftrightarrow>
     (if length ops \<le> opi + 1 then False else opsMayWrite lew_new lew_name (drop (opi + 1) ops) path)"

definition leafLabel :: "bytes \<Rightarrow> bytes list \<Rightarrow> bytes list \<Rightarrow> bytes" where
  "leafLabel prog reads writes =
     (let focus = (if writes = [] then reads else writes)
      in if focus = [] then prog else prog @ str '' '' @ join_on 0x20 focus)"

text \<open>
  What scheduling sees of the outside: joined and named paths, the recipes that can be read now, and
  the number the task group gives to its next task.
\<close>

record env =
  e_new :: "bytes list \<Rightarrow> bytes"
  e_name :: "bytes \<Rightarrow> bytes"
  e_read :: "bytes \<Rightarrow> bytes option"
  e_id :: "nat \<Rightarrow> nat"

text \<open>The words of each task are kept with it, and whether it is a recipe to be expanded when it runs.\<close>

record sched =
  sc_stamps :: stamps
  sc_tasks :: "task list"
  sc_words :: "(bytes list \<times> bool) list"

definition new_sched :: sched where
  "new_sched = \<lparr>sc_stamps = resetStamps, sc_tasks = [], sc_words = []\<rparr>"

definition add_leaf :: "env \<Rightarrow> bytes list \<Rightarrow> bool \<Rightarrow> leaf \<Rightarrow> sched \<Rightarrow> sched" where
  "add_leaf e w ctl l st =
     (let (stm, ts) = scheduleLeaf (sc_stamps st, sc_tasks st) (e_id e (length (sc_tasks st)), l)
      in \<lparr>sc_stamps = stm, sc_tasks = ts, sc_words = sc_words st @ [(w, ctl)]\<rparr>)"

text \<open>The commands of a recipe one after the other, up to the first that fails.\<close>

fun cmd_loop :: "(bytes list \<Rightarrow> 's \<Rightarrow> 's \<times> recipe_error option) \<Rightarrow> bytes list \<Rightarrow> 's \<Rightarrow> 's \<times> recipe_error option" where
  "cmd_loop f [] st = (st, None)"
| "cmd_loop f (part # parts) st =
     (case recipeWords part of Inl err \<Rightarrow> (st, Some err)
      | Inr words \<Rightarrow>
          if words = [] then cmd_loop f parts st
          else (case f words st of (st', Some err) \<Rightarrow> (st', Some err) | (st', None) \<Rightarrow> cmd_loop f parts st'))"

definition recipe_lines :: "(bytes list \<Rightarrow> 's \<Rightarrow> 's \<times> recipe_error option) \<Rightarrow> bytes \<Rightarrow> 's \<Rightarrow> 's \<times> recipe_error option" where
  "recipe_lines f text st = (case recipeCommands text of Inl err \<Rightarrow> (st, Some err) | Inr cmds \<Rightarrow> cmd_loop f cmds st)"

text \<open>
  A command without its calls to itself: \<open>again\<close> runs the words after \<open>call\<close> and \<open>lines\<close> a recipe.
\<close>

definition words_step :: "env \<Rightarrow> (bytes list \<Rightarrow> sched \<Rightarrow> sched \<times> recipe_error option) \<Rightarrow> (bytes \<Rightarrow> sched \<Rightarrow> sched \<times> recipe_error option)
    \<Rightarrow> bytes \<Rightarrow> bytes list \<Rightarrow> sched \<Rightarrow> sched \<times> recipe_error option" where
  "words_step e again lines cwd w st =
     (let name = prog_name (e_name e) (hd w); a = tl w in
      if names [''echo'', ''rem'', ''flushfilecache.exe''] name then (st, None)
      else if names [''call''] name then (if a = [] then (st, Some MissingCall) else again a st)
      else if names [''run.exe''] name \<or> hasSuffix name (str ''.bat'') \<or> hasSuffix name (str ''.cmd'') then
        if names [''run.exe''] name \<and> length a \<noteq> 4 then (st, Some BadRun)
        else if \<not> names [''run.exe''] name \<and> a \<noteq> [] then (st, Some BatchArgs)
        else (case virtualPath (e_new e) (if names [''run.exe''] name then a ! 2 else hd w) cwd of
                Inl err \<Rightarrow> (st, Some err)
              | Inr resolved \<Rightarrow> (case e_read e resolved of
                  Some b \<Rightarrow> lines b st
                | None \<Rightarrow> (add_leaf e w True \<lparr>l_reads = [resolved], l_writes = [], l_glob = True\<rparr> st, None)))
      else (case recipeFiles (e_new e) name w cwd of
              Inl err \<Rightarrow> (st, Some err)
            | Inr l \<Rightarrow> (add_leaf e w False l st, None)))"

text \<open>
  The depth is counted down: a depth of \<open>d\<close> in the code is \<open>33 - d\<close> here, and there is nothing left
  where the code refuses a depth above 32.
\<close>

fun scheduleWords :: "env \<Rightarrow> bytes \<Rightarrow> nat \<Rightarrow> bytes list \<Rightarrow> sched \<Rightarrow> sched \<times> recipe_error option" where
  "scheduleWords e cwd 0 = (\<lambda>w st. if w = [] then (st, None) else (st, Some TooDeep))"
| "scheduleWords e cwd (Suc 0) = (\<lambda>w st.
     if w = [] then (st, None)
     else words_step e (scheduleWords e cwd 0) (\<lambda>_ st. (st, Some TooDeep)) cwd w st)"
| "scheduleWords e cwd (Suc (Suc n)) = (\<lambda>w st.
     if w = [] then (st, None)
     else words_step e (scheduleWords e cwd (Suc n)) (recipe_lines (scheduleWords e cwd n)) cwd w st)"

definition recipeLines :: "env \<Rightarrow> bytes \<Rightarrow> nat \<Rightarrow> bytes \<Rightarrow> sched \<Rightarrow> sched \<times> recipe_error option" where
  "recipeLines e cwd n text st =
     (case n of 0 \<Rightarrow> (st, Some TooDeep) | Suc m \<Rightarrow> recipe_lines (scheduleWords e cwd m) text st)"

text \<open>A recipe that could not be read when it was scheduled is expanded when its task runs.\<close>

definition expandRecipe :: "env \<Rightarrow> bytes \<Rightarrow> nat \<Rightarrow> bytes list \<Rightarrow> sched \<Rightarrow> sched \<times> recipe_error option" where
  "expandRecipe e cwd n w st =
     (case virtualPath (e_new e) (if names [''run.exe''] (prog_name (e_name e) (hd w)) then w ! 3 else hd w) cwd of
        Inl err \<Rightarrow> (st, Some err)
      | Inr resolved \<Rightarrow> (case e_read e resolved of
          None \<Rightarrow> (st, Some (BadPath resolved))
        | Some b \<Rightarrow> recipeLines e cwd (n - 1) b st))"

text \<open>A volume is optional when every record that extracts it is.\<close>

fun sourceComponents :: "(bytes list \<Rightarrow> bytes) \<Rightarrow> operation list \<Rightarrow> (bytes \<rightharpoonup> bool) \<Rightarrow> recipe_error + (bytes \<rightharpoonup> bool)" where
  "sourceComponents lew_new [] optional = Inr optional"
| "sourceComponents lew_new (op # ops) optional =
     (if op_kind op \<noteq> str ''extract'' then sourceComponents lew_new ops optional
      else bindE (virtualPath lew_new (op_source op) []) (\<lambda>source.
        if hasPrefix source (str ''src/'') then
          let name = drop 4 source;
              flag = (case optional name of None \<Rightarrow> op_optional op | Some previous \<Rightarrow> op_optional op \<and> previous)
          in sourceComponents lew_new ops (optional(name \<mapsto> flag))
        else sourceComponents lew_new ops optional))"

text \<open>Where moving a file puts it when the command runs.\<close>

definition move_dest :: "(bytes list \<Rightarrow> bytes) \<Rightarrow> (bytes \<Rightarrow> bytes) \<Rightarrow> (bytes \<Rightarrow> bytes) \<Rightarrow> bytes \<Rightarrow> bytes list \<Rightarrow> bytes \<Rightarrow> recipe_error + bytes \<times> bytes" where
  "move_dest lew_new lew_name lew_parent name a cwd =
     bindE (virtualPath lew_new (a ! 0) cwd) (\<lambda>source.
     bindE (virtualPath lew_new (a ! 1) cwd) (\<lambda>dest.
     bindE (if names [''ren'', ''rename''] name then virtualPath lew_new (a ! 1) (lew_parent source) else Inr dest) (\<lambda>dest.
       Inr (source, if hasSuffix (a ! 1) [0x5c] \<or> hasSuffix (a ! 1) (str ''/'') then lew_new [dest, lew_name source] else dest))))"

section \<open>Words are read back\<close>

lemma rune_len_bound: "rune_len s \<le> length s"
  by (auto simp: rune_len_def Let_def Suc_le_eq split: list.splits)

lemma rune_len_append: "rune_len a \<noteq> 0 \<Longrightarrow> rune_len (a @ b) = rune_len a"
proof (cases a)
  case (Cons c r)
  moreover assume "rune_len a \<noteq> 0"
  ultimately show ?thesis by (cases r) (auto simp: rune_len_def Let_def split: if_splits)
qed (simp add: rune_len_def)

lemma runes_append: "valid_utf8 a \<Longrightarrow> runes (a @ b) = runes a @ runes b"
proof (induction a rule: valid_utf8.induct)
  case (1 s)
  show ?case
  proof (cases "s = []")
    case False
    with "1.prems" have r: "rune_len s \<noteq> 0" "valid_utf8 (drop (rune_len s) s)"
      by (auto simp: valid_utf8.simps [of s] split: if_splits)
    with "1.IH" False have "runes (drop (rune_len s) s @ b) = runes (drop (rune_len s) s) @ runes b" by blast
    then show ?thesis
      using False r(1) rune_len_append [OF r(1)] rune_len_bound [of s]
      by (simp add: runes.simps [of "s @ b"] runes.simps [of s])
  qed (simp add: runes.simps [of "[]"])
qed

lemma concat_runes: "valid_utf8 a \<Longrightarrow> concat (runes a) = a"
proof (induction a rule: valid_utf8.induct)
  case (1 s)
  then show ?case
    by (cases "s = []") (auto simp: valid_utf8.simps [of s] runes.simps [of s] runes.simps [of "[]"] split: if_splits)
qed

lemma runes_ascii: "c < 0x80 \<Longrightarrow> runes (c # s) = [c] # runes s"
  by (simp add: runes.simps [of "c # s"] rune_len_def Let_def)

lemma words_loop_quoted:
  "\<forall>c \<in> set cs. c \<noteq> str ''\"'' \<Longrightarrow> words_loop (cs @ ds) out word True True = words_loop ds out (word @ concat cs) True True"
  by (induction cs arbitrary: word) auto

text \<open>A word in quotes; it may be empty and have spaces and operators in it.\<close>

definition quote :: "bytes \<Rightarrow> bytes" where
  "quote w = str ''\"'' @ w @ str ''\"''"

lemma words_loop_quote:
  assumes "valid_utf8 w" "0x22 \<notin> set w"
  shows "words_loop (runes (quote w @ s)) out [] False False = words_loop (runes s) out w False True"
proof -
  have "set (concat (runes w)) = set w" by (simp only: concat_runes [OF assms(1)])
  moreover have "[34] \<in> set (runes w) \<Longrightarrow> 34 \<in> set (concat (runes w))" by force
  ultimately have "\<forall>c \<in> set (runes w). c \<noteq> str ''\"''" using assms(2) by (auto simp: str_def)
  then show ?thesis
    using words_loop_quoted [of "runes w" "str ''\"'' # runes s" out "[]"] concat_runes [OF assms(1)]
    by (simp add: quote_def str_def runes_ascii runes_append [OF assms(1)])
qed

lemma words_loop_list:
  assumes "ws \<noteq> []" "\<forall>w \<in> set ws. valid_utf8 w \<and> 0x22 \<notin> set w"
  shows "words_loop (runes (join_on 0x20 (map quote ws))) out [] False False = Inr (out @ ws)"
  using assms
proof (induction ws arbitrary: out rule: list_nonempty_induct)
  case (single w)
  then show ?case using words_loop_quote [of w "[]" out] by (simp add: runes.simps [of "[]"])
next
  case (cons w ws)
  obtain v vs where v: "ws = v # vs" using cons.hyps by (cases ws) auto
  have "words_loop (runes (quote w @ 0x20 # join_on 0x20 (map quote ws))) out [] False False
      = words_loop (runes (join_on 0x20 (map quote ws))) (out @ [w]) [] False False"
    using words_loop_quote [of w "0x20 # join_on 0x20 (map quote ws)" out] cons.prems
    by (simp add: runes_ascii str_def)
  then show ?case using cons.IH [of "out @ [w]"] cons.prems by (simp add: v)
qed

text \<open>
  C24: words in quotes are read back. Any words of valid UTF-8 without a quote, empty ones and ones with
  spaces and operators in them too, put in quotes with spaces between them are the words of that line.
\<close>

theorem words_roundtrip:
  assumes "\<forall>w \<in> set ws. valid_utf8 w \<and> 0x22 \<notin> set w"
  shows "recipeWords (join_on 0x20 (map quote ws)) = Inr ws"
proof (cases "ws = []")
  case True
  then show ?thesis by (simp add: recipeWords_def runes.simps)
next
  case False
  from words_loop_list [OF this assms, of "[]"] show ?thesis by (simp add: recipeWords_def)
qed

lemma words_roundtrip_witness: "recipeWords (join_on 0x20 (map quote [str ''a & b'', [], [0xc3, 0xa9]])) = Inr [str ''a & b'', [], [0xc3, 0xa9]]"
  by (rule words_roundtrip) (simp add: str_def valid_utf8.simps rune_len_def cont_def)

section \<open>Paths stay inside\<close>

lemma cut_on_split: "fst (cut_on sep b) = hd (split_on sep b)"
  by (induction b) (auto split: list.splits prod.splits)

text \<open>
  C28: a path of a recipe stays inside the installation. Whatever a recipe names, and whatever the
  library that joins paths returns, an accepted path begins with one of the three namespaces and has no
  component that is empty or made of dots. It lies in the namespace that a name in braces begins with;
  without one it stays in the namespace of the working directory, when there is one.
\<close>

theorem virtualPath_safe:
  assumes "virtualPath lew_new name cwd = Inr p"
  shows "hd (split_on 0x2f p) \<in> set roots
    \<and> (\<forall>e \<in> set (split_on 0x2f p). plain_part e)
    \<and> (braced (slashes name) = None \<longrightarrow> cwd \<noteq> [] \<longrightarrow> hd (split_on 0x2f p) = hd (split_on 0x2f cwd))
    \<and> (\<forall>root. braced (slashes name) = Some root \<longrightarrow> hd (split_on 0x2f p) = root)"
proof -
  have dot: "root_of (str ''.'') \<notin> set roots" by code_simp
  have "root_of p \<in> set roots" "validPath p" and
    "braced (slashes name) = None \<longrightarrow> cwd \<noteq> [] \<longrightarrow> root_of p = root_of cwd"
    "\<forall>root. braced (slashes name) = Some root \<longrightarrow> root_of p = root"
    using assms by (auto simp: virtualPath_def Let_def split: if_splits option.splits)
  moreover from this(1,2) dot have "\<forall>e \<in> set (split_on 0x2f p). plain_part e"
    using split_on_parts [of _ "0x2f" p] by (auto simp: validPath_def list_all_iff plain_part_def str_def)
  ultimately show ?thesis by (simp add: root_of_def cut_on_split)
qed

text \<open>A library of paths that works as Go's own does.\<close>

definition go_new :: "bytes list \<Rightarrow> bytes" where
  "go_new ps = path_clean (join_on 0x2f ps)"

lemma virtualPath_safe_witness:
  "virtualPath go_new (str ''x/../y'') (str ''app/d'') = Inr (str ''app/d/y'')
   \<and> hd (split_on 0x2f (str ''app/d/y'')) = hd (split_on 0x2f (str ''app/d''))"
proof
  have b: "braced (slashes (str ''x/../y'')) = None" by code_simp
  show *: "virtualPath go_new (str ''x/../y'') (str ''app/d'') = Inr (str ''app/d/y'')"
    by code_simp
  show "hd (split_on 0x2f (str ''app/d/y'')) = hd (split_on 0x2f (str ''app/d''))"
    using virtualPath_safe [OF *] b by (simp add: str_def)
qed

section \<open>The tasks of a recipe\<close>

text \<open>What has been scheduled is the schedule of the leaves so far, with the numbers of the task group.\<close>

definition sched_ok :: "env \<Rightarrow> sched \<Rightarrow> bool" where
  "sched_ok e st \<longleftrightarrow>
     (sc_stamps st, sc_tasks st) = foldl scheduleLeaf (resetStamps, []) (map (\<lambda>t. (t_id t, t_leaf t)) (sc_tasks st))
     \<and> map t_id (sc_tasks st) = map (e_id e) [0..<length (sc_tasks st)]
     \<and> length (sc_words st) = length (sc_tasks st)"

definition keeps_sched :: "env \<Rightarrow> (sched \<Rightarrow> sched \<times> 'b) \<Rightarrow> bool" where
  "keeps_sched e f \<longleftrightarrow> (\<forall>st. sched_ok e st \<longrightarrow> sched_ok e (fst (f st)))"

lemma sched_ok_new: "sched_ok e new_sched"
  by (simp add: sched_ok_def new_sched_def)

lemma sched_ok_add: "sched_ok e st \<Longrightarrow> sched_ok e (add_leaf e w ctl l st)"
  by (auto simp: sched_ok_def add_leaf_def scheduleLeaf_def split: prod.splits)

lemma keeps_step:
  assumes "\<And>w. keeps_sched e (again w)" "\<And>b. keeps_sched e (lines b)"
  shows "keeps_sched e (words_step e again lines cwd w)"
  using assms unfolding keeps_sched_def words_step_def Let_def
  by (auto simp: sched_ok_add split: sum.splits option.splits)

lemma keeps_loop: "(\<And>w. keeps_sched e (f w)) \<Longrightarrow> sched_ok e st \<Longrightarrow> sched_ok e (fst (cmd_loop f parts st))"
proof (induction f parts st rule: cmd_loop.induct)
  case (2 f part parts st)
  have "sched_ok e (fst (f words st))" for words using "2.prems" by (simp add: keeps_sched_def)
  then show ?case
    using 2 by (auto split: sum.splits option.splits prod.splits) (metis fst_conv)+
qed simp

lemma keeps_lines: "(\<And>w. keeps_sched e (f w)) \<Longrightarrow> keeps_sched e (recipe_lines f text)"
  using keeps_loop by (auto simp: keeps_sched_def recipe_lines_def split: sum.splits)

lemma keeps_words: "keeps_sched e (scheduleWords e cwd n w)"
proof (induction n arbitrary: w rule: less_induct)
  case (less n)
  consider "n = 0" | "n = Suc 0" | m where "n = Suc (Suc m)" by (metis not0_implies_Suc)
  then show ?case
  proof cases
    case 1
    then show ?thesis by (simp add: keeps_sched_def)
  next
    case 2
    have "keeps_sched e (words_step e (scheduleWords e cwd 0) (\<lambda>_ st. (st, Some TooDeep)) cwd w)"
      by (rule keeps_step) (use less 2 in \<open>simp_all add: keeps_sched_def\<close>)
    then show ?thesis by (simp add: 2 keeps_sched_def)
  next
    case (3 m)
    have "keeps_sched e (words_step e (scheduleWords e cwd (Suc m)) (recipe_lines (scheduleWords e cwd m)) cwd w)"
      by (rule keeps_step) (use less 3 keeps_lines in simp_all)
    then show ?thesis by (simp add: 3 keeps_sched_def)
  qed
qed

lemma recipeLines_ok: "recipeLines e cwd n b new_sched = (st, err) \<Longrightarrow> sched_ok e st"
proof (cases n)
  case (Suc m)
  moreover assume "recipeLines e cwd n b new_sched = (st, err)"
  moreover have "sched_ok e (fst (recipe_lines (scheduleWords e cwd m) b new_sched))"
    using keeps_lines [OF keeps_words] sched_ok_new by (simp add: keeps_sched_def)
  ultimately show ?thesis by (simp add: recipeLines_def)
qed (use sched_ok_new in \<open>simp add: recipeLines_def\<close>)

text \<open>
  C19: the tasks of a recipe are ordered by what they write. Whatever the text of a recipe and of those it
  calls, and also when it is refused half-way, a task made so far waits, directly or through others, for
  every earlier one that writes a file it uses or writes, for every earlier one that was the last to use
  a file it writes, and for every earlier one when the files of one of the two are not known. It need not
  wait for a task that used a file it writes when a later task used the file too (\<open>recipe_loses_reader\<close>).
\<close>

theorem recipe_orders:
  assumes "0 \<notin> range (e_id e)" "recipeLines e cwd n text new_sched = (st, err)"
    and "i < j" "j < length (sc_tasks st)" "guarded (sc_tasks st) i j"
  shows "(e_id e i, e_id e j) \<in> (waits (sc_tasks st))\<^sup>+"
proof -
  let ?ls = "map (\<lambda>t. (t_id t, t_leaf t)) (sc_tasks st)"
  have ok: "sched_ok e st" by (rule recipeLines_ok [OF assms(2)])
  then have f: "foldl scheduleLeaf (resetStamps, []) ?ls = (sc_stamps st, sc_tasks st)" by (simp add: sched_ok_def)
  have ids: "t_id (sc_tasks st ! k) = e_id e k" if "k < length (sc_tasks st)" for k
  proof -
    have "map t_id (sc_tasks st) ! k = map (e_id e) [0..<length (sc_tasks st)] ! k" using ok by (simp add: sched_ok_def)
    then show ?thesis using that by simp
  qed
  have "fst ` set ?ls = t_id ` set (sc_tasks st)" by (simp add: image_image)
  also have "\<dots> = e_id e ` {0..<length (sc_tasks st)}"
    using ok unfolding sched_ok_def by (metis list.set_map set_upt)
  finally have z: "0 \<notin> fst ` set ?ls" using assms(1) by blast
  have "(t_id (sc_tasks st ! i), t_id (sc_tasks st ! j)) \<in> (waits (sc_tasks st))\<^sup>+"
    using schedule_facts [OF z f] assms(3-5) by blast
  then show ?thesis using ids [of i] ids [of j] assms(3,4) by simp
qed

section \<open>Renaming\<close>

text \<open>
  C40: renaming writes a file it does not declare. A name to rename to is looked up beside the file
  when the command runs and in the working directory when its files are declared; where the two
  differ, no other command waits for the file that is written.
\<close>

theorem ren_undeclared:
  assumes "stripFlags [s, d] = [s, d]" "\<not> wild s" "\<not> wild d" "\<not> hasSuffix d [0x5c]" "\<not> hasSuffix d (str ''/'')"
    and "virtualPath lew_new s cwd = Inr src" "virtualPath lew_new d cwd = Inr dst"
    and "virtualPath lew_new d (lew_parent src) = Inr real" "real \<noteq> src" "real \<noteq> dst"
  shows "(\<exists>l. recipeFiles lew_new (str ''ren'') [w, s, d] cwd = Inr l \<and> \<not> l_glob l \<and> real \<notin> set (l_writes l))
    \<and> move_dest lew_new lew_name lew_parent (str ''ren'') [s, d] cwd = Inr (src, real)"
proof
  have n: "\<not> names [''del'', ''erase'', ''rd'', ''rmdir''] (str ''ren'')" "names [''move'', ''ren'', ''rename''] (str ''ren'')"
    "names [''ren'', ''rename''] (str ''ren'')" by (simp_all add: names_def str_def)
  show "\<exists>l. recipeFiles lew_new (str ''ren'') [w, s, d] cwd = Inr l \<and> \<not> l_glob l \<and> real \<notin> set (l_writes l)"
    using assms by (simp add: recipeFiles_def Let_def n add_file_def)
  show "move_dest lew_new lew_name lew_parent (str ''ren'') [s, d] cwd = Inr (src, real)"
    using assms by (simp add: move_dest_def n)
qed

text \<open>The part of a path before its last slash.\<close>

definition go_parent :: "bytes \<Rightarrow> bytes" where
  "go_parent p = join_on 0x2f (butlast (split_on 0x2f p))"

lemma ren_undeclared_witness:
  "(\<exists>l. recipeFiles go_new (str ''ren'') [str ''ren'', str ''d/a'', str ''b''] (str ''app'') = Inr l
      \<and> \<not> l_glob l \<and> str ''app/d/b'' \<notin> set (l_writes l))
   \<and> move_dest go_new path_base go_parent (str ''ren'') [str ''d/a'', str ''b''] (str ''app'') = Inr (str ''app/d/a'', str ''app/d/b'')"
proof (rule ren_undeclared)
  show "virtualPath go_new (str ''d/a'') (str ''app'') = Inr (str ''app/d/a'')" by code_simp
  show "virtualPath go_new (str ''b'') (str ''app'') = Inr (str ''app/b'')" by code_simp
  have "go_parent (str ''app/d/a'') = str ''app/d''" by code_simp
  moreover have "virtualPath go_new (str ''b'') (str ''app/d'') = Inr (str ''app/d/b'')" by code_simp
  ultimately show "virtualPath go_new (str ''b'') (go_parent (str ''app/d/a'')) = Inr (str ''app/d/b'')" by simp
qed (code_simp+)

definition sample_env :: env where
  "sample_env = \<lparr>e_new = go_new, e_name = path_base, e_read = Map.empty, e_id = Suc\<rparr>"

lemma sample_tasks:
  "sc_tasks (fst (recipeLines sample_env (str ''app'') 33 (str ''copy a b && copy b c'') new_sched)) =
     [\<lparr>t_id = 1, t_leaf = copy_leaf (str ''app/a'') (str ''app/b''), t_deps = []\<rparr>,
      \<lparr>t_id = 2, t_leaf = copy_leaf (str ''app/b'') (str ''app/c''), t_deps = [1]\<rparr>]"
  by code_simp

lemma recipe_orders_witness:
  "(1, 2) \<in> (waits (sc_tasks (fst (recipeLines sample_env (str ''app'') 33 (str ''copy a b && copy b c'') new_sched))))\<^sup>+"
proof -
  have "(e_id sample_env 0, e_id sample_env 1)
      \<in> (waits (sc_tasks (fst (recipeLines sample_env (str ''app'') 33 (str ''copy a b && copy b c'') new_sched))))\<^sup>+"
  proof (rule recipe_orders)
    show "0 \<notin> range (e_id sample_env)" by (simp add: sample_env_def)
    show "recipeLines sample_env (str ''app'') 33 (str ''copy a b && copy b c'') new_sched =
        (fst (recipeLines sample_env (str ''app'') 33 (str ''copy a b && copy b c'') new_sched),
         snd (recipeLines sample_env (str ''app'') 33 (str ''copy a b && copy b c'') new_sched))"
      by simp
  qed (simp_all add: sample_tasks guarded_def writes_to_def reads_from_def copy_leaf_def)
  moreover have "e_id sample_env 0 = 1" "e_id sample_env 1 = 2" by (simp_all add: sample_env_def)
  ultimately show ?thesis by (simp only:)
qed

text \<open>Two copies of a file and its deletion: the deletion does not wait for the first copy.\<close>

lemma recipe_loses_reader:
  "map t_deps (sc_tasks (fst (recipeLines sample_env (str ''app'') 33
     (str ''copy a b'' @ [10] @ str ''copy a c'' @ [10] @ str ''del a'') new_sched))) = [[], [], [2]]"
  by code_simp

end
