(* ===== verification/Tools.thy ===== *)
theory Tools
  imports Gostrings
begin

text \<open>
  The tools recipes call (\<open>reconstruct_tool.go\<close>): a tool is known by the SHA-256 of its binary, and by
  its name only when that is not ambiguous. An unknown binary of a known name may be tried against
  the checksum of the file it makes. Encoders and MD5 are parameters.
\<close>

datatype 'e tool_error =
    UnknownHash | UnknownTool | MissingHash | NoEncoder | NoCodecMatched | ManyCodecsMatched | EncodeErr 'e

type_synonym 'e encoder = "bytes \<Rightarrow> bytes list \<Rightarrow> 'e + bytes"

record 'e codec =
  k_id :: bytes
  k_sha256 :: bytes
  k_names :: "bytes list"
  k_encode :: "'e encoder option"

record 'e toolset =
  byHash :: "bytes \<rightharpoonup> 'e codec"
  byName :: "bytes \<Rightarrow> 'e codec list"

definition tool_add :: "'e codec \<Rightarrow> 'e toolset \<Rightarrow> 'e toolset" where
  "tool_add c s =
     (let c = c\<lparr>k_sha256 := toLower (k_sha256 c)\<rparr>;
          s = (if k_sha256 c \<noteq> [] then s\<lparr>byHash := (byHash s)(k_sha256 c \<mapsto> c)\<rparr> else s)
      in foldl (\<lambda>s n. s\<lparr>byName := (byName s)(toLower n := byName s (toLower n) @ [c])\<rparr>) s (k_names c))"

definition tool_match :: "'e toolset \<Rightarrow> bytes \<Rightarrow> bytes \<Rightarrow> 'e tool_error + 'e codec" where
  "tool_match s name digest =
     (let name = toLower name; digest = toLower digest; list = byName s name in
      if digest \<noteq> [] then
        (case byHash s digest of
           Some c \<Rightarrow> Inr c
         | None \<Rightarrow> if 0 < length list then Inl UnknownHash else Inl UnknownTool)
      else if list = [] then Inl UnknownTool
      else let named = filter (\<lambda>c. k_sha256 c = []) list in
        if length named = 1 then Inr (named ! 0)
        else if length list = 1 then Inr (list ! 0)
        else Inl MissingHash)"

definition canonical :: "'e toolset \<Rightarrow> bytes \<Rightarrow> bytes \<Rightarrow> bytes" where
  "canonical s name digest =
     (case tool_match s name digest of
        Inl _ \<Rightarrow> name
      | Inr c \<Rightarrow> if k_names c = [] then name else toLower (k_names c ! 0))"

text \<open>The codecs of a name whose output has the wanted sum: how many, and the output of the last.\<close>

fun checksum_loop :: "(bytes \<Rightarrow> bytes) \<Rightarrow> bytes \<Rightarrow> bytes list \<Rightarrow> bytes \<Rightarrow> 'e codec list \<Rightarrow> bytes set \<Rightarrow> nat \<Rightarrow> bytes \<Rightarrow> nat \<times> bytes" where
  "checksum_loop md5 inp args want [] seen n win = (n, win)"
| "checksum_loop md5 inp args want (c # cs) seen n win =
     (case k_encode c of
        None \<Rightarrow> checksum_loop md5 inp args want cs seen n win
      | Some enc \<Rightarrow>
          if k_sha256 c = [] \<or> k_sha256 c \<in> seen then checksum_loop md5 inp args want cs seen n win
          else let seen = insert (k_sha256 c) seen in
            (case enc inp args of
               Inl _ \<Rightarrow> checksum_loop md5 inp args want cs seen n win
             | Inr out \<Rightarrow>
                 if md5 out \<noteq> want then checksum_loop md5 inp args want cs seen n win
                 else checksum_loop md5 inp args want cs seen (n + 1) out))"

definition runByChecksum :: "(bytes \<Rightarrow> bytes) \<Rightarrow> 'e toolset \<Rightarrow> bytes \<Rightarrow> bytes \<Rightarrow> bytes list \<Rightarrow> bytes \<Rightarrow> 'e tool_error + bytes" where
  "runByChecksum md5 s name inp args want =
     (let (n, win) = checksum_loop md5 inp args want (byName s (toLower name)) {} 0 []
      in if n = 0 then Inl NoCodecMatched else if 1 < n then Inl ManyCodecsMatched else Inr win)"

definition tool_run :: "(bytes \<Rightarrow> bytes) \<Rightarrow> 'e toolset \<Rightarrow> bytes \<Rightarrow> bytes \<Rightarrow> bytes \<Rightarrow> bytes list \<Rightarrow> bytes \<Rightarrow> 'e tool_error + bytes" where
  "tool_run md5 s name digest inp args want =
     (case tool_match s name digest of
        Inr c \<Rightarrow> (case k_encode c of
          None \<Rightarrow> Inl NoEncoder
        | Some enc \<Rightarrow> (case enc inp args of Inl e \<Rightarrow> Inl (EncodeErr e) | Inr out \<Rightarrow> Inr out))
      | Inl e \<Rightarrow> if e = UnknownHash \<and> want \<noteq> [] then runByChecksum md5 s name inp args want else Inl e)"

text \<open>The tools the program knows, over its two encoders.\<close>

definition plain_codec :: "char list \<Rightarrow> char list \<Rightarrow> char list list \<Rightarrow> 'e encoder option \<Rightarrow> 'e codec" where
  "plain_codec name sha ns enc = \<lparr>k_id = str name, k_sha256 = str sha, k_names = map str ns, k_encode = enc\<rparr>"

definition codecs :: "'e encoder \<Rightarrow> 'e encoder \<Rightarrow> 'e codec list" where
  "codecs lzma i3dEnc =
     [plain_codec ''lzma'' ''a95222984f60e3f5bea4099cab85868946523391b0e50d7f6dcc5e866d0b0dbd'' [''fgpack.exe''] (Some lzma),
      plain_codec ''lzma'' '''' [''fgpack.exe''] (Some lzma),
      plain_codec ''i3d'' ''eb9a914ff781bc2f088e70d1b99faca73d98a96325a4a154cf52b3b52a4f860a'' [''fgpack.exe''] (Some i3dEnc),
      plain_codec ''xdelta'' ''09763ca90c09a5f815a94527399b1f2a88685e9de462e2ff1bc5648d320e707a'' [''x.exe'', ''xdelta.exe'', ''xdelta3.exe''] None,
      plain_codec ''x2'' ''985f5ff185749eba4cf6d0ddf3458762667266be3838a10c4c1dfbb9ce91d8ea'' [''x2.exe''] None,
      plain_codec ''x3'' ''6484a5f0d82087f4c31218fc7e96c09abef6ff38cf0879ccd070fab947dc3573'' [''x3.exe''] None,
      plain_codec ''defarm'' ''7889aadec74fe2e4940a3dab081b8d560d7d751b0ed13cfc90b8986ca6ae084f'' [''x4.exe''] None,
      plain_codec ''x5'' ''342b579afeff5651e9c0c57a6d2e785f119655f170d106dd01dfb97162efe385'' [''x5.exe''] None,
      plain_codec ''x5n'' ''234168f765294a5db867163e639c9288f04f976976bdf80da29fbba9eae39917'' [''x5n.exe''] None,
      plain_codec ''fsb'' ''98d7c11a27dc7b0da976d5b01374e0359d92b2d3b5439c5d26bad70ec618d811'' [''fsb.exe''] None,
      plain_codec ''7z'' ''bfb34635f295df13ea1677c0d51d08fafd2da21a1c0bea252df6342d40e511a0'' [''7z.exe''] None,
      plain_codec ''fart'' ''c9ef35bed70ffa0981bafd0071185b56fdad8f9c97f3582a4dae9b420959fb97'' [''fart.exe''] None,
      plain_codec ''run'' ''3243562d5d0685b57bc237b24f254d1d18d6abcb1f8ddac2698c2d9208c76247'' [''run.exe''] None,
      plain_codec ''countdown'' ''3ebdeea17770bd829046903c58b4815e0efd952518b287c441166247def0b64c'' [''countdown.exe''] None,
      plain_codec ''oggre'' ''bd21153f84d1bc74dc2771baf4e91ebfe0c46df50e4ad79f8429a88784ced3cb'' [''oggre_dec.exe''] None,
      plain_codec ''xtool'' ''a1c80a60363e23d475e8ef6eeaec373c6529d6974f4f463d5a4cb4eae484a07c'' [''xtool.exe''] None,
      plain_codec ''xtool'' ''4e8d72aa273434767dc2ae3190758efe37d42c44c980a1ec76e97de08e4b7aa7'' [''xtool.exe''] None]"

definition newToolset :: "'e encoder \<Rightarrow> 'e encoder \<Rightarrow> 'e toolset" where
  "newToolset lzma i3dEnc = foldl (\<lambda>s c. tool_add c s) \<lparr>byHash = Map.empty, byName = (\<lambda>_. [])\<rparr> (codecs lzma i3dEnc)"

section \<open>What a tool may make\<close>

lemma checksum_loop_out:
  "checksum_loop md5 inp args want cs seen n win = (m, out) \<Longrightarrow>
   n \<le> m \<and> (m = n \<longrightarrow> out = win) \<and> (n < m \<longrightarrow> md5 out = want
     \<and> (\<exists>c \<in> set cs. \<exists>enc. k_encode c = Some enc \<and> k_sha256 c \<noteq> [] \<and> enc inp args = Inr out))"
proof (induction md5 inp args want cs seen n win rule: checksum_loop.induct)
  case (2 md5 inp args want c cs seen n win)
  show ?case
    using 2 by (fastforce simp: Let_def split: option.splits sum.splits if_splits)
qed simp

text \<open>
  An unknown binary is only trusted with a checksum. When the digest of a tool is not one of the
  known ones, an output comes from an encoder registered under the tool's name, and it has the sum
  the installation asks for.
\<close>

theorem tool_run_checked:
  assumes "toLower digest \<noteq> []" "byHash s (toLower digest) = None" "tool_run md5 s name digest inp args want = Inr out"
  shows "want \<noteq> [] \<and> md5 out = want
    \<and> (\<exists>c \<in> set (byName s (toLower name)). \<exists>enc. k_encode c = Some enc \<and> enc inp args = Inr out)"
proof -
  have r: "want \<noteq> []" "runByChecksum md5 s name inp args want = Inr out"
    using assms by (auto simp: tool_run_def tool_match_def Let_def split: if_splits)
  then obtain n where n: "checksum_loop md5 inp args want (byName s (toLower name)) {} 0 [] = (n, out)" "0 < n"
    by (auto simp: runByChecksum_def split: prod.splits if_splits)
  from checksum_loop_out [OF n(1)] n(2) r(1) show ?thesis by blast
qed

text \<open>One tool, which reverses its input, and a sum that is the first byte.\<close>

definition sample_tools :: "unit toolset" where
  "sample_tools =
     tool_add (plain_codec ''i3d'' ''eb'' [''fgpack.exe''] (Some (\<lambda>inp _. Inr (rev inp)))) \<lparr>byHash = Map.empty, byName = (\<lambda>_. [])\<rparr>"

lemma tool_run_checked_witness:
  "tool_run (take 1) sample_tools (str ''FGPACK.exe'') (str ''00'') [1, 2] [] [2] = Inr [2, 1] \<and> take 1 [2, 1] = ([2] :: bytes)"
proof -
  have r: "tool_run (take 1) sample_tools (str ''FGPACK.exe'') (str ''00'') [1, 2] [] [2] = Inr [2, 1]" by code_simp
  have "toLower (str ''00'') \<noteq> []" "byHash sample_tools (toLower (str ''00'')) = None" by code_simp+
  from tool_run_checked [OF this r] r show ?thesis by blast
qed

end
