(* ===== verification/Runs.thy ===== *)
theory Runs
  imports Prelude
begin

text \<open>
  What a call of a decoder comes to whose loops may not end: \<open>None\<close> when it never returns, an error
  when it reports failure, a panic, or a value.
\<close>

type_synonym 'a run = "(unit fault + 'a) option"

definition ret :: "'a \<Rightarrow> 'a run" where
  "ret x = Some (Inr x)"

definition fails :: "'a run" where
  "fails = Some (Inl (Error ()))"

definition panics :: "'a run" where
  "panics = Some (Inl Panic)"

definition bindR :: "'a run \<Rightarrow> ('a \<Rightarrow> 'b run) \<Rightarrow> 'b run" where
  "bindR m f = Option.bind m (\<lambda>r. case r of Inl e \<Rightarrow> Some (Inl e) | Inr x \<Rightarrow> f x)"

lemma bindR_simps [simp]: "bindR (ret x) f = f x" "bindR fails f = fails" "bindR panics f = panics" "bindR None f = None"
  by (simp_all add: bindR_def ret_def fails_def panics_def)

lemma ret_inject [simp]: "ret x = ret y \<longleftrightarrow> x = y"
  by (simp add: ret_def)

lemma bindR_mono [partial_function_mono]:
  assumes "mono_option F" "\<And>y. mono_option (\<lambda>f. G y f)"
  shows "mono_option (\<lambda>f. bindR (F f) (\<lambda>y. G y f))"
proof -
  have "mono_option (\<lambda>f. case r of Inl e \<Rightarrow> Some (Inl e) | Inr x \<Rightarrow> G x f)" for r
    using assms(2) by (cases r) (simp_all add: option.const_mono)
  then show ?thesis unfolding bindR_def by (rule bind_mono [OF assms(1)])
qed

end
