(* ===== verification/Srepmem.thy ===== *)
theory Srepmem
  imports Runs
begin

text \<open>
  The memory of the SREP decoder (the \<open>memMgr\<close> of \<open>stream/srep/future.go\<close>): chunks of 64 bytes, four
  for the number of the next chunk and 60 for data, in blocks of 16384. Chunk 0 is never used. Data
  is saved in chains of chunks, and the free chunks are a chain too.
\<close>

section \<open>The manager\<close>

record chunk =
  c_next :: nat
  c_data :: bytes

record memMgr =
  chunks :: "chunk list"
  firstFree :: nat
  used :: nat
  useful :: nat

definition newMemMgr :: "nat \<Rightarrow> memMgr" where
  "newMemMgr limit = \<lparr>chunks = [], firstFree = 0, used = 0, useful = (limit div 2 ^ 20 * 2 ^ 20 div 64 - 1) * 60\<rparr>"

definition mm_next :: "memMgr \<Rightarrow> nat \<Rightarrow> nat run" where
  "mm_next m i = (if i < length (chunks m) then ret (c_next (chunks m ! i)) else panics)"

definition setNext :: "nat \<Rightarrow> nat \<Rightarrow> memMgr \<Rightarrow> memMgr run" where
  "setNext i n m =
     (if i < length (chunks m) then ret (m\<lparr>chunks := (chunks m)[i := (chunks m ! i)\<lparr>c_next := n\<rparr>]\<rparr>) else panics)"

text \<open>The chunks of a new block are linked in order, the last to the free ones there were.\<close>

definition allocBlock :: "memMgr \<Rightarrow> memMgr" where
  "allocBlock m =
     (let base = length (chunks m); last = base + 16383;
          new = map (\<lambda>i. \<lparr>c_next = (if i < last then i + 1 else firstFree m), c_data = replicate 60 0\<rparr>) [base..<last + 1]
      in m\<lparr>chunks := chunks m @ new, firstFree := (if base = 0 then 1 else base)\<rparr>)"

definition allocate :: "memMgr \<Rightarrow> (nat \<times> memMgr) run" where
  "allocate m =
     (let m = (if firstFree m = 0 then allocBlock m else m); free = firstFree m
      in bindR (mm_next m free) (\<lambda>n. ret (free, m\<lparr>firstFree := n, used := used m + 1\<rparr>)))"

definition markFree :: "nat \<Rightarrow> memMgr \<Rightarrow> memMgr run" where
  "markFree i m = bindR (setNext i (firstFree m) m) (\<lambda>m. ret (m\<lparr>firstFree := i, used := used m - 1\<rparr>))"

definition put_data :: "nat \<Rightarrow> bytes \<Rightarrow> memMgr \<Rightarrow> memMgr run" where
  "put_data i p m =
     (if i < length (chunks m)
      then ret (m\<lparr>chunks := (chunks m)[i := (chunks m ! i)\<lparr>c_data := p @ drop (length p) (c_data (chunks m ! i))\<rparr>]\<rparr>)
      else panics)"

text \<open>\<open>save\<close> after its first chunk: \<open>prev\<close> is the chunk before.\<close>

function save_loop :: "bytes \<Rightarrow> memMgr \<Rightarrow> nat \<Rightarrow> memMgr run" where
  "save_loop p m prev =
     (if p = [] then setNext prev 0 m
      else bindR (allocate m) (\<lambda>(i, m). bindR (setNext prev i m) (\<lambda>m. bindR (put_data i (take 60 p) m) (\<lambda>m. save_loop (drop 60 p) m i))))"
  by pat_completeness auto
termination by (relation "measure (\<lambda>(p, m, prev). length p)") auto

declare save_loop.simps [simp del]

definition mm_save :: "bytes \<Rightarrow> memMgr \<Rightarrow> (nat \<times> memMgr) run" where
  "mm_save p m =
     (if p = [] then ret (0, m)
      else bindR (allocate m) (\<lambda>(i, m). bindR (put_data i (take 60 p) m) (\<lambda>m.
           bindR (save_loop (drop 60 p) m i) (\<lambda>m. ret (i, m)))))"

text \<open>\<open>restore\<close> into \<open>n\<close> bytes.\<close>

function mm_restore :: "memMgr \<Rightarrow> nat \<Rightarrow> nat \<Rightarrow> bytes run" where
  "mm_restore m i n =
     (if n = 0 then ret []
      else if i < length (chunks m) then
        bindR (mm_restore m (c_next (chunks m ! i)) (n - min n 60)) (\<lambda>p. ret (take (min n 60) (c_data (chunks m ! i)) @ p))
      else panics)"
  by pat_completeness auto
termination by (relation "measure (\<lambda>(m, i, n). n)") auto

declare mm_restore.simps [simp del]

text \<open>A chain is freed up to chunk 0; one without an end is freed for ever.\<close>

partial_function (option) mm_free :: "nat \<Rightarrow> memMgr \<Rightarrow> memMgr run" where
  "mm_free i m =
     (if i = 0 then ret m
      else bindR (mm_next m i) (\<lambda>n. bindR (markFree i m) (\<lambda>m. mm_free n m)))"

definition available :: "memMgr \<Rightarrow> nat" where
  "available m = useful m - used m * 60"

section \<open>Chains\<close>

fun linked :: "chunk list \<Rightarrow> nat \<Rightarrow> nat list \<Rightarrow> bool" where
  "linked c i [] \<longleftrightarrow> i = 0"
| "linked c i (k # ks) \<longleftrightarrow> i = k \<and> k \<noteq> 0 \<and> k < length c \<and> linked c (c_next (c ! k)) ks"

definition stored :: "chunk list \<Rightarrow> nat list \<Rightarrow> bytes \<Rightarrow> bool" where
  "stored c ks p \<longleftrightarrow>
     length ks = (length p + 59) div 60 \<and> take (length p) (concat (map (\<lambda>k. c_data (c ! k)) ks)) = p"

text \<open>The chain of free chunks, and the chunks in use.\<close>

definition mm_inv :: "memMgr \<Rightarrow> nat list \<Rightarrow> nat set \<Rightarrow> bool" where
  "mm_inv m fs H \<longleftrightarrow>
     linked (chunks m) (firstFree m) fs \<and> distinct fs \<and> set fs \<inter> H = {} \<and> set fs \<union> H \<subseteq> {1..<length (chunks m)}
     \<and> used m = card H \<and> (\<forall>c \<in> set (chunks m). length (c_data c) = 60)"

lemma linked_frame: "linked c i ks \<Longrightarrow> length c \<le> length c' \<Longrightarrow> \<forall>k \<in> set ks. c_next (c' ! k) = c_next (c ! k) \<Longrightarrow> linked c' i ks"
  by (induction c i ks rule: linked.induct) auto

lemma stored_frame: "stored c ks p \<Longrightarrow> \<forall>k \<in> set ks. c_data (c' ! k) = c_data (c ! k) \<Longrightarrow> stored c' ks p"
  unfolding stored_def by (metis (mono_tags, lifting) map_eq_conv)

lemma linked_upt:
  assumes "\<forall>k. a \<le> k \<and> k < b \<longrightarrow> c_next (c ! k) = (if Suc k < b then Suc k else 0)" "0 < a" "a < b" "b \<le> length c"
  shows "linked c a [a..<b]"
proof -
  have "linked c k [k..<b]" if "a \<le> k" "k < b" for k
    using that
  proof (induction "b - k" arbitrary: k)
    case (Suc n)
    show ?case
    proof (cases "Suc k < b")
      case True
      then have "linked c (Suc k) [Suc k..<b]" using Suc by auto
      then show ?thesis using assms True Suc.prems by (subst upt_conv_Cons) auto
    next
      case False
      then have "b = Suc k" using Suc.prems by simp
      then show ?thesis using assms Suc.prems by (simp add: upt_conv_Cons)
    qed
  qed simp
  then show ?thesis using assms(3) by simp
qed

lemma allocBlock_inv:
  assumes "mm_inv m [] H"
  shows "\<exists>fs. fs \<noteq> [] \<and> mm_inv (allocBlock m) fs H \<and> firstFree (allocBlock m) \<noteq> 0"
    and "\<forall>k \<in> H. chunks (allocBlock m) ! k = chunks m ! k" and "useful (allocBlock m) = useful m" and "used (allocBlock m) = used m"
proof -
  let ?n = "length (chunks m)"
  define a where "a = (if ?n = 0 then 1 else ?n)"
  have f: "firstFree m = 0" using assms by (simp add: mm_inv_def)
  have len: "length (chunks (allocBlock m)) = ?n + 16384" by (simp add: allocBlock_def Let_def)
  have first: "firstFree (allocBlock m) = a" by (simp add: allocBlock_def a_def Let_def)
  have H: "\<forall>k \<in> H. k < ?n \<and> 0 < k" using assms by (auto simp: mm_inv_def)
  have nth: "chunks (allocBlock m) ! k = (if k < ?n then chunks m ! k
      else \<lparr>c_next = (if Suc k < ?n + 16384 then Suc k else 0), c_data = replicate 60 0\<rparr>)" if "k < ?n + 16384" for k
    using that f by (auto simp: allocBlock_def Let_def nth_append)
  have "linked (chunks (allocBlock m)) a [a..<?n + 16384]"
    by (rule linked_upt) (auto simp: nth len a_def)
  moreover have "set [a..<?n + 16384] \<inter> H = {}" using H by (auto simp: a_def)
  moreover have "set [a..<?n + 16384] \<union> H \<subseteq> {1..<?n + 16384}" using H by (auto simp: a_def Suc_le_eq)
  moreover have "\<forall>c \<in> set (chunks (allocBlock m)). length (c_data c) = 60"
    using assms by (auto simp: mm_inv_def allocBlock_def Let_def)
  moreover have "used (allocBlock m) = card H" using assms by (simp add: mm_inv_def allocBlock_def Let_def)
  ultimately have "mm_inv (allocBlock m) [a..<?n + 16384] H" by (simp add: mm_inv_def first len)
  moreover have "[a..<?n + 16384] \<noteq> []" "a \<noteq> 0" by (auto simp: a_def)
  ultimately show "\<exists>fs. fs \<noteq> [] \<and> mm_inv (allocBlock m) fs H \<and> firstFree (allocBlock m) \<noteq> 0" using first by metis
  show "\<forall>k \<in> H. chunks (allocBlock m) ! k = chunks m ! k" using H nth by auto
  show "useful (allocBlock m) = useful m" "used (allocBlock m) = used m" by (simp_all add: allocBlock_def Let_def)
qed

lemma allocate_inv:
  assumes "mm_inv m fs H"
  obtains i m' fs' where "allocate m = ret (i, m')" "mm_inv m' fs' (insert i H)" "i \<notin> H" "i \<noteq> 0" "i < length (chunks m')"
    "\<forall>k \<in> H. chunks m' ! k = chunks m ! k" "useful m' = useful m"
proof -
  define n where "n = (if firstFree m = 0 then allocBlock m else m)"
  have e: "firstFree m = 0 \<Longrightarrow> fs = []" using assms by (cases fs) (auto simp: mm_inv_def)
  have "(\<exists>gs. gs \<noteq> [] \<and> mm_inv n gs H) \<and> (\<forall>k \<in> H. chunks n ! k = chunks m ! k) \<and> useful n = useful m"
  proof (cases "firstFree m = 0")
    case True
    with e assms have "mm_inv m [] H" by simp
    from allocBlock_inv [OF this] True show ?thesis unfolding n_def by auto
  next
    case False
    then have "fs \<noteq> []" using assms by (auto simp: mm_inv_def)
    then show ?thesis using assms False unfolding n_def by auto
  qed
  then obtain g gs where n: "mm_inv n (g # gs) H" "\<forall>k \<in> H. chunks n ! k = chunks m ! k" "useful n = useful m"
    by (metis list.exhaust)
  then have g: "firstFree n = g" "g \<noteq> 0" "g < length (chunks n)" "linked (chunks n) (c_next (chunks n ! g)) gs" "g \<notin> H" "g \<notin> set gs"
    by (auto simp: mm_inv_def)
  let ?m = "n\<lparr>firstFree := c_next (chunks n ! g), used := used n + 1\<rparr>"
  have "finite H" using n(1) unfolding mm_inv_def by (metis Un_subset_iff finite_atLeastLessThan finite_subset)
  then have "mm_inv ?m gs (insert g H)" using n(1) g by (auto simp: mm_inv_def)
  moreover have "allocate m = ret (g, ?m)" using g by (simp add: allocate_def n_def [symmetric] Let_def mm_next_def)
  ultimately show ?thesis using that [of g ?m gs] n g by simp
qed

section \<open>Saving, restoring, freeing\<close>

lemma held_bounds: "mm_inv m fs H \<Longrightarrow> k \<in> H \<Longrightarrow> k < length (chunks m) \<and> k \<noteq> 0 \<and> k \<notin> set fs"
  by (auto simp: mm_inv_def)

lemma mm_inv_write:
  assumes "mm_inv m fs H" "k \<in> H" "length (c_data x) = 60"
  shows "mm_inv (m\<lparr>chunks := (chunks m)[k := x]\<rparr>) fs H"
proof -
  have "linked ((chunks m)[k := x]) (firstFree m) fs"
    by (rule linked_frame [of "chunks m"]) (use assms held_bounds [OF assms(1,2)] in \<open>auto simp: mm_inv_def nth_list_update\<close>)
  moreover have "\<forall>c \<in> set ((chunks m)[k := x]). length (c_data c) = 60"
    using assms set_update_subset_insert [of "chunks m" k x] by (auto simp: mm_inv_def)
  ultimately show ?thesis using assms(1) by (simp add: mm_inv_def)
qed

lemma setNext_inv:
  assumes "mm_inv m fs H" "k \<in> H"
  obtains m' where "setNext k v m = ret m'" "mm_inv m' fs H" "chunks m' = (chunks m)[k := (chunks m ! k)\<lparr>c_next := v\<rparr>]" "useful m' = useful m"
proof -
  have k: "k < length (chunks m)" using held_bounds [OF assms] by blast
  then have "length (c_data (chunks m ! k)) = 60" using assms(1) by (auto simp: mm_inv_def)
  then show ?thesis
    using that [of "m\<lparr>chunks := (chunks m)[k := (chunks m ! k)\<lparr>c_next := v\<rparr>]\<rparr>"] mm_inv_write [OF assms, of "(chunks m ! k)\<lparr>c_next := v\<rparr>"] k
    by (simp add: setNext_def)
qed

lemma put_data_inv:
  assumes "mm_inv m fs H" "k \<in> H" "length p \<le> 60"
  obtains m' where "put_data k p m = ret m'" "mm_inv m' fs H" "useful m' = useful m"
    "chunks m' = (chunks m)[k := (chunks m ! k)\<lparr>c_data := p @ drop (length p) (c_data (chunks m ! k))\<rparr>]"
proof -
  have k: "k < length (chunks m)" using held_bounds [OF assms(1,2)] by blast
  then have "length (c_data (chunks m ! k)) = 60" using assms(1) by (auto simp: mm_inv_def)
  then show ?thesis
    using that [of "m\<lparr>chunks := (chunks m)[k := (chunks m ! k)\<lparr>c_data := p @ drop (length p) (c_data (chunks m ! k))\<rparr>]\<rparr>"] assms(3)
      mm_inv_write [OF assms(1,2), of "(chunks m ! k)\<lparr>c_data := p @ drop (length p) (c_data (chunks m ! k))\<rparr>"] k
    by (simp add: put_data_def)
qed

lemma chunks_needed: "p \<noteq> [] \<Longrightarrow> (length p + 59) div 60 = Suc ((length (drop 60 p) + 59) div 60)" for p :: bytes
proof (cases "length p < 60")
  case True
  moreover assume "p \<noteq> []"
  then have "0 < length p" by simp
  ultimately have "(length p + 59) div 60 = 1" by linarith
  with True show ?thesis by simp
next
  case False
  then have "length p + 59 = length (drop 60 p) + 59 + 60" by simp
  then show ?thesis by simp
qed

lemma stored_Cons:
  assumes "p \<noteq> []" "stored c ks (drop 60 p)" "c_data (c ! k) = take 60 p @ rest" "length p < 60 \<or> rest = []"
  shows "stored c (k # ks) p"
proof (cases "length p < 60")
  case True
  with assms(2) have "ks = []" by (simp add: stored_def)
  with True assms show ?thesis using chunks_needed [OF assms(1)] by (simp add: stored_def)
next
  case False
  with assms have "take (length p) (take 60 p @ concat (map (\<lambda>k. c_data (c ! k)) ks)) = take 60 p @ drop 60 p"
    by (simp add: stored_def)
  with False assms chunks_needed [OF assms(1)] show ?thesis by (simp add: stored_def)
qed

lemma save_loop_inv:
  assumes "mm_inv m fs H" "prev \<in> H"
  shows "\<exists>m' ks fs'. save_loop p m prev = ret m' \<and> linked (chunks m') (c_next (chunks m' ! prev)) ks \<and> stored (chunks m') ks p
    \<and> distinct ks \<and> set ks \<inter> H = {} \<and> mm_inv m' fs' (H \<union> set ks) \<and> useful m' = useful m
    \<and> c_data (chunks m' ! prev) = c_data (chunks m ! prev) \<and> (\<forall>k \<in> H - {prev}. chunks m' ! k = chunks m ! k)"
  using assms
proof (induction "length p" arbitrary: p m fs H prev rule: less_induct)
  case less
  show ?case
  proof (cases "p = []")
    case True
    obtain m' where m: "setNext prev 0 m = ret m'" "mm_inv m' fs H" "chunks m' = (chunks m)[prev := (chunks m ! prev)\<lparr>c_next := 0\<rparr>]" "useful m' = useful m"
      by (rule setNext_inv [OF less.prems])
    have "prev < length (chunks m)" using held_bounds [OF less.prems] by blast
    with m True show ?thesis by (subst save_loop.simps) (intro exI [of _ m'] exI [of _ "[]"] exI [of _ fs]; simp add: stored_def)
  next
    case False
    obtain i m1 fs1 where 1: "allocate m = ret (i, m1)" "mm_inv m1 fs1 (insert i H)" "i \<notin> H" "i \<noteq> 0" "i < length (chunks m1)"
      "\<forall>k \<in> H. chunks m1 ! k = chunks m ! k" "useful m1 = useful m"
      by (rule allocate_inv [OF less.prems(1)])
    have prev: "prev \<in> insert i H" "prev \<noteq> i" using less.prems(2) 1(3) by auto
    obtain m2 where 2: "setNext prev i m1 = ret m2" "mm_inv m2 fs1 (insert i H)" "chunks m2 = (chunks m1)[prev := (chunks m1 ! prev)\<lparr>c_next := i\<rparr>]"
      "useful m2 = useful m1" by (rule setNext_inv [OF 1(2) prev(1)])
    obtain m3 where 3: "put_data i (take 60 p) m2 = ret m3" "mm_inv m3 fs1 (insert i H)" "useful m3 = useful m2"
      "chunks m3 = (chunks m2)[i := (chunks m2 ! i)\<lparr>c_data := take 60 p @ drop (length (take 60 p)) (c_data (chunks m2 ! i))\<rparr>]"
      by (rule put_data_inv [OF 2(2), of i "take 60 p"]) simp_all
    have l: "length (drop 60 p) < length p" using False by simp
    obtain m4 ks fs4 where 4: "save_loop (drop 60 p) m3 i = ret m4" "linked (chunks m4) (c_next (chunks m4 ! i)) ks" "stored (chunks m4) ks (drop 60 p)"
      "distinct ks" "set ks \<inter> insert i H = {}" "mm_inv m4 fs4 (insert i H \<union> set ks)" "useful m4 = useful m3"
      "c_data (chunks m4 ! i) = c_data (chunks m3 ! i)" "\<forall>k \<in> insert i H - {i}. chunks m4 ! k = chunks m3 ! k"
      using less.hyps [OF l 3(2) insertI1] by blast
    have b: "prev < length (chunks m1)" "i < length (chunks m1)" using held_bounds [OF 1(2)] prev by auto
    have data: "length (c_data (chunks m2 ! i)) = 60"
      using 2(2) b by (auto simp: mm_inv_def 2(3))
    have "c_next (chunks m4 ! prev) = i" using 4(9) less.prems(2) prev b 1(3) by (auto simp: 3(4) 2(3))
    moreover have "i < length (chunks m4)" using held_bounds [OF 4(6), of i] by simp
    ultimately have "linked (chunks m4) (c_next (chunks m4 ! prev)) (i # ks)" using 4(2) 1(4) by simp
    moreover have "stored (chunks m4) (i # ks) p"
    proof (rule stored_Cons [OF False 4(3)])
      show "c_data (chunks m4 ! i) = take 60 p @ drop (length (take 60 p)) (c_data (chunks m2 ! i))"
        using b by (simp add: 4(8) 3(4) 2(3))
      show "length p < 60 \<or> drop (length (take 60 p)) (c_data (chunks m2 ! i)) = []" using data by auto
    qed
    moreover have "c_data (chunks m4 ! prev) = c_data (chunks m ! prev)"
      using 4(9) less.prems(2) prev b 1(3,6) by (auto simp: 3(4) 2(3))
    moreover have "chunks m4 ! k = chunks m ! k" if k: "k \<in> H - {prev}" for k
    proof -
      have "k \<noteq> i" "k \<noteq> prev" "k \<in> H" using k 1(3) by auto
      then have "chunks m4 ! k = chunks m3 ! k" "chunks m3 ! k = chunks m1 ! k" using 4(9) by (simp_all add: 3(4) 2(3))
      then show ?thesis using 1(6) \<open>k \<in> H\<close> by simp
    qed
    moreover have "save_loop p m prev = ret m4"
      using False 1(1) 2(1) 3(1) 4(1) by (subst save_loop.simps) simp
    moreover have "distinct (i # ks)" "set (i # ks) \<inter> H = {}" using 4(4,5) 1(3) by auto
    moreover have "mm_inv m4 fs4 (H \<union> set (i # ks))" using 4(6) by (simp add: insert_commute Un_insert_left)
    moreover have "useful m4 = useful m" using 1 2 3 4 by simp
    ultimately show ?thesis by blast
  qed
qed

text \<open>A chain of its own, with what it holds.\<close>

definition owns :: "memMgr \<Rightarrow> nat \<Rightarrow> bytes \<Rightarrow> nat list \<Rightarrow> bool" where
  "owns m i p ks \<longleftrightarrow> i \<noteq> 0 \<and> linked (chunks m) i ks \<and> stored (chunks m) ks p \<and> distinct ks"

lemma mm_save_inv:
  assumes "mm_inv m fs H" "p \<noteq> []"
  obtains i m' ks fs' where "mm_save p m = ret (i, m')" "owns m' i p ks" "set ks \<inter> H = {}" "mm_inv m' fs' (H \<union> set ks)"
    "\<forall>k \<in> H. chunks m' ! k = chunks m ! k" "useful m' = useful m"
proof -
  obtain i m1 fs1 where 1: "allocate m = ret (i, m1)" "mm_inv m1 fs1 (insert i H)" "i \<notin> H" "i \<noteq> 0" "i < length (chunks m1)"
    "\<forall>k \<in> H. chunks m1 ! k = chunks m ! k" "useful m1 = useful m"
    by (rule allocate_inv [OF assms(1)])
  obtain m3 where 3: "put_data i (take 60 p) m1 = ret m3" "mm_inv m3 fs1 (insert i H)" "useful m3 = useful m1"
    "chunks m3 = (chunks m1)[i := (chunks m1 ! i)\<lparr>c_data := take 60 p @ drop (length (take 60 p)) (c_data (chunks m1 ! i))\<rparr>]"
    by (rule put_data_inv [OF 1(2), of i "take 60 p"]) simp_all
  obtain m4 ks fs4 where 4: "save_loop (drop 60 p) m3 i = ret m4" "linked (chunks m4) (c_next (chunks m4 ! i)) ks" "stored (chunks m4) ks (drop 60 p)"
    "distinct ks" "set ks \<inter> insert i H = {}" "mm_inv m4 fs4 (insert i H \<union> set ks)" "useful m4 = useful m3"
    "c_data (chunks m4 ! i) = c_data (chunks m3 ! i)" "\<forall>k \<in> insert i H - {i}. chunks m4 ! k = chunks m3 ! k"
    using save_loop_inv [OF 3(2) insertI1] by blast
  have data: "length (c_data (chunks m1 ! i)) = 60" using 1(2,5) by (auto simp: mm_inv_def)
  have "stored (chunks m4) (i # ks) p"
  proof (rule stored_Cons [OF assms(2) 4(3)])
    show "c_data (chunks m4 ! i) = take 60 p @ drop (length (take 60 p)) (c_data (chunks m1 ! i))" using 1(5) by (simp add: 4(8) 3(4))
    show "length p < 60 \<or> drop (length (take 60 p)) (c_data (chunks m1 ! i)) = []" using data by auto
  qed
  moreover have "i < length (chunks m4)" using held_bounds [OF 4(6), of i] by simp
  ultimately have "owns m4 i p (i # ks)" using 4(2,4,5) 1(4) by (simp add: owns_def)
  moreover have "mm_save p m = ret (i, m4)" using assms(2) 1(1) 3(1) 4(1) by (simp add: mm_save_def)
  moreover have "set (i # ks) \<inter> H = {}" using 4(5) 1(3) by auto
  moreover have "mm_inv m4 fs4 (H \<union> set (i # ks))" using 4(6) by (simp add: insert_commute Un_insert_left)
  moreover have "\<forall>k \<in> H. chunks m4 ! k = chunks m ! k"
  proof
    fix k assume k: "k \<in> H"
    then have "k \<noteq> i" using 1(3) by auto
    then have "chunks m4 ! k = chunks m3 ! k" "chunks m3 ! k = chunks m1 ! k" using 4(9) k by (simp_all add: 3(4))
    then show "chunks m4 ! k = chunks m ! k" using 1(6) k by simp
  qed
  moreover have "useful m4 = useful m" using 1 3 4 by simp
  ultimately show ?thesis using that by blast
qed

lemma restore_stored:
  assumes "linked (chunks m) i ks" "stored (chunks m) ks p" "\<forall>k \<in> set ks. length (c_data (chunks m ! k)) = 60"
  shows "mm_restore m i (length p) = ret p"
  using assms
proof (induction ks arbitrary: i p)
  case Nil
  then have "p = []" by (cases p) (auto simp: stored_def)
  then show ?case by (simp add: mm_restore.simps)
next
  case (Cons k ks)
  then have p: "p \<noteq> []" by (auto simp: stored_def)
  let ?d = "c_data (chunks m ! k)" and ?r = "concat (map (\<lambda>k. c_data (chunks m ! k)) ks)"
  have d: "length ?d = 60" using Cons.prems(3) by simp
  have t: "take (length p) (?d @ ?r) = p" using Cons.prems(2) by (simp add: stored_def)
  have "take (length (drop 60 p)) ?r = drop 60 p"
    using arg_cong [OF t, of "drop 60"] d by (cases "length p < 60") (simp_all add: drop_take min_def)
  moreover have "length ks = (length (drop 60 p) + 59) div 60"
    using Cons.prems(2) chunks_needed [OF p] by (simp add: stored_def)
  ultimately have s: "stored (chunks m) ks (drop 60 p)" by (simp add: stored_def)
  have "take (min (length p) 60) ?d = take 60 p"
    using arg_cong [OF t, of "take 60"] d by (cases "length p < 60") (simp_all add: min_def)
  moreover have "mm_restore m (c_next (chunks m ! k)) (length (drop 60 p)) = ret (drop 60 p)"
    by (rule Cons.IH) (use Cons.prems s in simp_all)
  moreover have "length p - min (length p) 60 = length (drop 60 p)" by simp
  ultimately show ?case using Cons.prems(1) p by (subst mm_restore.simps) simp
qed

lemma mm_restore_inv:
  assumes "mm_inv m fs H" "owns m i p ks" "set ks \<subseteq> H"
  shows "mm_restore m i (length p) = ret p"
proof (rule restore_stored)
  show "\<forall>k \<in> set ks. length (c_data (chunks m ! k)) = 60"
    using assms held_bounds [OF assms(1)] by (auto simp: mm_inv_def)
qed (use assms in \<open>simp_all add: owns_def\<close>)

lemma markFree_inv:
  assumes "mm_inv m fs H" "k \<in> H"
  obtains m' where "markFree k m = ret m'" "mm_inv m' (k # fs) (H - {k})" "useful m' = useful m"
    "\<forall>j. j \<noteq> k \<longrightarrow> chunks m' ! j = chunks m ! j"
proof -
  have k: "k < length (chunks m)" "k \<noteq> 0" "k \<notin> set fs" using held_bounds [OF assms] by blast+
  let ?c = "(chunks m)[k := (chunks m ! k)\<lparr>c_next := firstFree m\<rparr>]"
  let ?m = "m\<lparr>chunks := ?c, firstFree := k, used := used m - 1\<rparr>"
  have fin: "finite H" using assms(1) unfolding mm_inv_def by (metis Un_subset_iff finite_atLeastLessThan finite_subset)
  have d: "length (c_data (chunks m ! k)) = 60" using assms(1) k by (auto simp: mm_inv_def)
  from mm_inv_write [OF assms, of "(chunks m ! k)\<lparr>c_next := firstFree m\<rparr>"] d
  have w: "linked ?c (firstFree m) fs" "\<forall>c \<in> set ?c. length (c_data c) = 60" by (simp_all add: mm_inv_def)
  have "mm_inv ?m (k # fs) (H - {k})"
    using assms w k fin by (auto simp: mm_inv_def card_Diff_singleton)
  moreover have "markFree k m = ret ?m" using k by (simp add: markFree_def setNext_def)
  ultimately show ?thesis using that [of ?m] by simp
qed

lemma mm_free_inv:
  assumes "mm_inv m fs H" "linked (chunks m) i ks" "distinct ks" "set ks \<subseteq> H"
  shows "\<exists>m'. mm_free i m = ret m' \<and> mm_inv m' (rev ks @ fs) (H - set ks) \<and> useful m' = useful m
    \<and> (\<forall>j. j \<notin> set ks \<longrightarrow> chunks m' ! j = chunks m ! j)"
  using assms
proof (induction ks arbitrary: i m fs H)
  case Nil
  then show ?case by (simp add: mm_free.simps)
next
  case (Cons k ks)
  then have k: "i = k" "k \<noteq> 0" "k < length (chunks m)" "linked (chunks m) (c_next (chunks m ! k)) ks" "k \<in> H" by auto
  obtain m1 where 1: "markFree k m = ret m1" "mm_inv m1 (k # fs) (H - {k})" "useful m1 = useful m" "\<forall>j. j \<noteq> k \<longrightarrow> chunks m1 ! j = chunks m ! j"
    by (rule markFree_inv [OF Cons.prems(1) k(5)])
  have "linked (chunks m1) (c_next (chunks m ! k)) ks"
  proof (rule linked_frame [OF k(4)])
    show "length (chunks m) \<le> length (chunks m1)" using 1(1) k(3) by (auto simp: markFree_def setNext_def)
    show "\<forall>j \<in> set ks. c_next (chunks m1 ! j) = c_next (chunks m ! j)" using 1(4) Cons.prems(3) by auto
  qed
  with Cons.IH [OF 1(2), of "c_next (chunks m ! k)"] Cons.prems(3,4)
  obtain m' where "mm_free (c_next (chunks m ! k)) m1 = ret m'" "mm_inv m' (rev ks @ k # fs) (H - {k} - set ks)" "useful m' = useful m1"
    "\<forall>j. j \<notin> set ks \<longrightarrow> chunks m' ! j = chunks m1 ! j" by auto
  moreover from this(1) have "mm_free i m = ret m'" using k 1(1) by (simp add: mm_free.simps [of k m] mm_next_def)
  moreover have "H - {k} - set ks = H - set (k # ks)" by auto
  ultimately show ?case using 1(3,4) by auto
qed

section \<open>The memory as a map\<close>

text \<open>
  What the memory promises: saved data is found under the number it was given until it is freed, and
  nothing else is touched.
\<close>

locale chain_store =
  fixes holds :: "'s \<Rightarrow> (nat \<rightharpoonup> bytes) \<Rightarrow> bool"
    and sav :: "bytes \<Rightarrow> 's \<Rightarrow> (nat \<times> 's) run"
    and restore :: "'s \<Rightarrow> nat \<Rightarrow> nat \<Rightarrow> bytes run"
    and release :: "nat \<Rightarrow> 's \<Rightarrow> 's run"
  assumes sav: "holds s A \<Longrightarrow> p \<noteq> [] \<Longrightarrow> \<exists>i s'. sav p s = ret (i, s') \<and> i \<noteq> 0 \<and> A i = None \<and> holds s' (A(i \<mapsto> p))"
    and restore: "holds s A \<Longrightarrow> A i = Some p \<Longrightarrow> restore s i (length p) = ret p"
    and release: "holds s A \<Longrightarrow> A i = Some p \<Longrightarrow> \<exists>s'. release i s = ret s' \<and> holds s' (A(i := None))"
begin

text \<open>Saves and releases one after the other, with the map they make.\<close>

fun run_ops :: "(bytes + nat) list \<Rightarrow> 's \<Rightarrow> (nat \<rightharpoonup> bytes) \<Rightarrow> ('s \<times> (nat \<rightharpoonup> bytes)) run" where
  "run_ops [] s A = ret (s, A)"
| "run_ops (Inl p # ops) s A =
     (if p = [] then run_ops ops s A else bindR (sav p s) (\<lambda>(i, s). run_ops ops s (A(i \<mapsto> p))))"
| "run_ops (Inr i # ops) s A =
     (if A i = None then run_ops ops s A else bindR (release i s) (\<lambda>s. run_ops ops s (A(i := None))))"

lemma run_ops_holds: "holds s A \<Longrightarrow> \<exists>s' A'. run_ops ops s A = ret (s', A') \<and> holds s' A'"
proof (induction ops arbitrary: s A)
  case (Cons op ops)
  show ?case
  proof (cases op)
    case (Inl p)
    show ?thesis
    proof (cases "p = []")
      case False
      with sav [OF Cons.prems] obtain i s' where "sav p s = ret (i, s')" "holds s' (A(i \<mapsto> p))" by blast
      with Cons.IH [OF this(2)] False Inl show ?thesis by (simp del: fun_upd_apply)
    qed (use Cons Inl in simp)
  next
    case (Inr i)
    show ?thesis
    proof (cases "A i")
      case (Some p)
      with release [OF Cons.prems] obtain s' where "release i s = ret s'" "holds s' (A(i := None))" by blast
      with Cons.IH [OF this(2)] Some Inr show ?thesis by (simp del: fun_upd_apply)
    qed (use Cons Inr in simp)
  qed
qed simp

lemma run_ops_restore:
  assumes "holds s A" "run_ops ops s A = ret (s', A')" "A' i = Some p"
  shows "restore s' i (length p) = ret p"
proof -
  from run_ops_holds [OF assms(1), of ops] assms(2) have "holds s' A'" by auto
  then show ?thesis using restore assms(3) by blast
qed

end

definition mem_holds :: "memMgr \<Rightarrow> (nat \<rightharpoonup> bytes) \<Rightarrow> bool" where
  "mem_holds m A \<longleftrightarrow>
     (\<exists>fs K. mm_inv m fs (\<Union>i \<in> dom A. set (K i)) \<and> (\<forall>i \<in> dom A. owns m i (the (A i)) (K i))
        \<and> (\<forall>i \<in> dom A. \<forall>j \<in> dom A. i \<noteq> j \<longrightarrow> set (K i) \<inter> set (K j) = {}))"

lemma mem_new: "mem_holds (newMemMgr limit) Map.empty"
  unfolding mem_holds_def mm_inv_def newMemMgr_def by (intro exI [of _ "[]"]) simp

lemma owns_frame: "owns m i p ks \<Longrightarrow> length (chunks m) \<le> length (chunks m') \<Longrightarrow> \<forall>k \<in> set ks. chunks m' ! k = chunks m ! k \<Longrightarrow> owns m' i p ks"
  unfolding owns_def by (metis linked_frame stored_frame)

lemma owns_first: "owns m i p ks \<Longrightarrow> i \<in> set ks"
  by (cases ks) (auto simp: owns_def)

lemma mm_inv_grow: "mm_inv m fs H \<Longrightarrow> mm_inv m' fs' H' \<Longrightarrow> \<forall>k \<in> set ks. chunks m' ! k = chunks m ! k \<Longrightarrow> set ks \<subseteq> H' \<Longrightarrow>
    owns m i p ks \<Longrightarrow> owns m' i p ks"
proof -
  assume a: "mm_inv m' fs' H'" "\<forall>k \<in> set ks. chunks m' ! k = chunks m ! k" "set ks \<subseteq> H'" "owns m i p ks"
  have "linked (chunks m) j js \<Longrightarrow> set js \<subseteq> set ks \<Longrightarrow> linked (chunks m') j js" for j js
    using a(2,3) held_bounds [OF a(1)] by (induction "chunks m" j js rule: linked.induct) auto
  then show ?thesis using a unfolding owns_def by (metis order_refl stored_frame)
qed

lemma mem_save:
  assumes "mem_holds m A" "p \<noteq> []"
  shows "\<exists>i m'. mm_save p m = ret (i, m') \<and> i \<noteq> 0 \<and> A i = None \<and> mem_holds m' (A(i \<mapsto> p)) \<and> useful m' = useful m
    \<and> used m' = used m + (length p + 59) div 60"
proof -
  obtain fs K where K: "mm_inv m fs (\<Union>i \<in> dom A. set (K i))" "\<forall>i \<in> dom A. owns m i (the (A i)) (K i)"
    "\<forall>i \<in> dom A. \<forall>j \<in> dom A. i \<noteq> j \<longrightarrow> set (K i) \<inter> set (K j) = {}" using assms(1) unfolding mem_holds_def by blast
  let ?H = "\<Union>i \<in> dom A. set (K i)"
  obtain i m' ks fs' where s: "mm_save p m = ret (i, m')" "owns m' i p ks" "set ks \<inter> ?H = {}" "mm_inv m' fs' (?H \<union> set ks)"
    "\<forall>k \<in> ?H. chunks m' ! k = chunks m ! k" "useful m' = useful m" by (rule mm_save_inv [OF K(1) assms(2)])
  have "i \<notin> dom A"
  proof
    assume d: "i \<in> dom A"
    then have "i \<in> set (K i)" using owns_first K(2) by blast
    then show False using d owns_first [OF s(2)] s(3) by blast
  qed
  moreover have "i \<noteq> 0" using s(2) by (simp add: owns_def)
  ultimately have i: "i \<noteq> 0" "i \<notin> dom A" by simp_all
  let ?K = "K(i := ks)" and ?A = "A(i \<mapsto> p)"
  have "(\<Union>j \<in> dom A. set (?K j)) = ?H" by (rule SUP_cong) (use i(2) in auto)
  then have "(\<Union>j \<in> dom ?A. set (?K j)) = ?H \<union> set ks" by (simp add: Un_commute)
  moreover have "owns m' j (the (?A j)) (?K j)" if "j \<in> dom ?A" for j
  proof (cases "j = i")
    case False
    then have j: "j \<in> dom A" using that by simp
    then have "owns m' j (the (A j)) (K j)" by (intro mm_inv_grow [OF K(1) s(4)]) (use K(2) s(5) in auto)
    then show ?thesis using False by simp
  qed (use s(2) in simp)
  moreover have "set (?K a) \<inter> set (?K b) = {}" if "a \<in> dom ?A" "b \<in> dom ?A" "a \<noteq> b" for a b
    using that s(3) K(3) by (auto split: if_splits)
  ultimately have "mem_holds m' ?A" unfolding mem_holds_def using s(4) by metis
  moreover have "used m' = used m + (length p + 59) div 60"
  proof -
    have fin: "finite ?H" using K(1) unfolding mm_inv_def by (metis Un_subset_iff finite_atLeastLessThan finite_subset)
    have "card (?H \<union> set ks) = card ?H + card (set ks)" using fin s(3) by (intro card_Un_disjoint) auto
    moreover have "card (set ks) = (length p + 59) div 60" using s(2) by (simp add: owns_def stored_def distinct_card)
    ultimately show ?thesis using K(1) s(4) by (simp add: mm_inv_def)
  qed
  ultimately show ?thesis using s(1,6) i by auto
qed

lemma mem_restore:
  assumes "mem_holds m A" "A i = Some p"
  shows "mm_restore m i (length p) = ret p"
proof -
  obtain fs K where K: "mm_inv m fs (\<Union>i \<in> dom A. set (K i))" "\<forall>i \<in> dom A. owns m i (the (A i)) (K i)"
    using assms(1) unfolding mem_holds_def by blast
  have "owns m i p (K i)" "set (K i) \<subseteq> (\<Union>i \<in> dom A. set (K i))"
    using bspec [OF K(2), of i] assms(2) by auto
  then show ?thesis by (rule mm_restore_inv [OF K(1)])
qed

lemma mem_free:
  assumes "mem_holds m A" "A i = Some p"
  shows "\<exists>m'. mm_free i m = ret m' \<and> mem_holds m' (A(i := None)) \<and> useful m' = useful m \<and> used m' + (length p + 59) div 60 = used m"
proof -
  obtain fs K where K: "mm_inv m fs (\<Union>i \<in> dom A. set (K i))" "\<forall>i \<in> dom A. owns m i (the (A i)) (K i)"
    "\<forall>i \<in> dom A. \<forall>j \<in> dom A. i \<noteq> j \<longrightarrow> set (K i) \<inter> set (K j) = {}" using assms(1) unfolding mem_holds_def by blast
  let ?H = "\<Union>i \<in> dom A. set (K i)" and ?A = "A(i := None)"
  have o: "owns m i p (K i)" and sub: "set (K i) \<subseteq> ?H" using bspec [OF K(2), of i] assms(2) by auto
  then obtain m' where f: "mm_free i m = ret m'" "mm_inv m' (rev (K i) @ fs) (?H - set (K i))" "useful m' = useful m"
    "\<forall>j. j \<notin> set (K i) \<longrightarrow> chunks m' ! j = chunks m ! j"
    using mm_free_inv [OF K(1) _ _ sub] by (metis (no_types) owns_def)
  have i: "i \<in> dom A" using assms(2) by blast
  have H: "?H - set (K i) = (\<Union>j \<in> dom ?A. set (K j))" using K(3) i by auto
  have "owns m' j (the (?A j)) (K j)" if "j \<in> dom ?A" for j
  proof -
    have j: "j \<in> dom A" "j \<noteq> i" using that by (auto split: if_splits)
    then have "set (K j) \<inter> set (K i) = {}" using K(3) i by blast
    then have "owns m' j (the (A j)) (K j)" using j
      by (intro mm_inv_grow [OF K(1) f(2)]) (use K(2) f(4) in auto)
    then show ?thesis using j by simp
  qed
  then have "mem_holds m' ?A"
    unfolding mem_holds_def using f(2) K(3) by (intro exI [of _ "rev (K i) @ fs"] exI [of _ K]) (auto simp: H)
  moreover have "used m' + (length p + 59) div 60 = used m"
  proof -
    have fin: "finite ?H" using K(1) unfolding mm_inv_def by (metis Un_subset_iff finite_atLeastLessThan finite_subset)
    have "card (?H - set (K i)) + card (set (K i)) = card ?H" using fin sub card_mono [OF fin sub] by (simp add: card_Diff_subset)
    moreover have "card (set (K i)) = (length p + 59) div 60" using o by (simp add: owns_def stored_def distinct_card)
    ultimately show ?thesis using K(1) f(2) by (simp add: mm_inv_def)
  qed
  ultimately show ?thesis using f(1,3) by blast
qed

interpretation mem: chain_store mem_holds mm_save mm_restore mm_free
proof unfold_locales
  show "\<exists>i s'. mm_save p s = ret (i, s') \<and> i \<noteq> 0 \<and> A i = None \<and> mem_holds s' (A(i \<mapsto> p))" if "mem_holds s A" "p \<noteq> []" for s A p
    using mem_save [OF that] by blast
  show "mm_restore s i (length p) = ret p" if "mem_holds s A" "A i = Some p" for s A i p
    by (rule mem_restore [OF that])
  show "\<exists>s'. mm_free i s = ret s' \<and> mem_holds s' (A(i := None))" if "mem_holds s A" "A i = Some p" for s A i p
    using mem_free [OF that] by blast
qed

text \<open>Saves and releases of the program's memory, with the data that is live.\<close>

fun mem_ops :: "(bytes + nat) list \<Rightarrow> memMgr \<Rightarrow> (nat \<rightharpoonup> bytes) \<Rightarrow> (memMgr \<times> (nat \<rightharpoonup> bytes)) run" where
  "mem_ops [] m A = ret (m, A)"
| "mem_ops (Inl p # ops) m A =
     (if p = [] then mem_ops ops m A else bindR (mm_save p m) (\<lambda>(i, m). mem_ops ops m (A(i \<mapsto> p))))"
| "mem_ops (Inr i # ops) m A =
     (if A i = None then mem_ops ops m A else bindR (mm_free i m) (\<lambda>m. mem_ops ops m (A(i := None))))"

lemma mem_ops_run: "mem_ops ops m A = mem.run_ops ops m A"
proof (induction ops arbitrary: m A)
  case (Cons op ops)
  then show ?case by (cases op) (simp_all del: fun_upd_apply)
qed simp

text \<open>
  C17: the memory is a map. Any saves and releases of live data return, without a panic, and every
  piece that is live after them is restored as it was saved, whatever was saved into chunks that had
  been used before.
\<close>

theorem srep_memory_refines:
  "\<exists>m A. mem_ops ops (newMemMgr limit) Map.empty = ret (m, A) \<and> Map.graph A \<subseteq> {(i, p). mm_restore m i (length p) = ret p}"
proof -
  obtain m A where "mem.run_ops ops (newMemMgr limit) Map.empty = ret (m, A)"
    using mem.run_ops_holds [OF mem_new] by blast
  moreover from mem.run_ops_restore [OF mem_new this] have "\<forall>i p. A i = Some p \<longrightarrow> mm_restore m i (length p) = ret p" by blast
  ultimately show ?thesis unfolding mem_ops_run by (auto dest: in_graphD)
qed

end
