(* ===== verification/Srepheap.thy ===== *)
theory Srepheap
  imports Prelude
begin

text \<open>
  The pending matches of the SREP decoder (the \<open>heap\<close> of \<open>stream/srep/future.go\<close>): a treap ordered by
  destination and then by age, with random priorities. A node is known by its age, which is its own;
  the pointers to parents only serve to find a node's neighbours, and are left out.
\<close>

section \<open>Nodes and trees\<close>

record mnode =
  n_src :: u64
  n_dest :: u64
  n_len :: u32
  n_index :: nat
  n_seq :: nat
  n_pri :: u32

datatype mtree = Tip | Fork mtree mnode mtree

record heap =
  root :: mtree
  h_seq :: nat
  rng :: u32

definition next_pri :: "u32 \<Rightarrow> u32" where
  "next_pri r =
     (let x = (if r = 0 then 0x9e3779b9 else r);
          x = x XOR push_bit 13 x;
          x = x XOR drop_bit 17 x
      in x XOR push_bit 5 x)"

definition before :: "mnode \<Rightarrow> mnode \<Rightarrow> bool" where
  "before a b \<longleftrightarrow> (if n_dest a \<noteq> n_dest b then n_dest a < n_dest b else n_seq a < n_seq b)"

fun rotateLeft :: "mtree \<Rightarrow> mtree" where
  "rotateLeft (Fork l n (Fork rl r rr)) = Fork (Fork l n rl) r rr"
| "rotateLeft t = t"

fun rotateRight :: "mtree \<Rightarrow> mtree" where
  "rotateRight (Fork (Fork ll l lr) n r) = Fork ll l (Fork lr n r)"
| "rotateRight t = t"

text \<open>A new node goes to the bottom and is rotated up past nodes of lower priority.\<close>

definition rises :: "mnode \<Rightarrow> mtree \<Rightarrow> mnode \<Rightarrow> bool" where
  "rises n t x \<longleftrightarrow> (case t of Tip \<Rightarrow> False | Fork _ y _ \<Rightarrow> n_seq y = n_seq n \<and> n_pri x < n_pri n)"

fun tree_insert :: "mnode \<Rightarrow> mtree \<Rightarrow> mtree" where
  "tree_insert n Tip = Fork Tip n Tip"
| "tree_insert n (Fork l x r) =
     (if before n x then
        let l' = tree_insert n l; t = Fork l' x r in if rises n l' x then rotateRight t else t
      else
        let r' = tree_insert n r; t = Fork l x r' in if rises n r' x then rotateLeft t else t)"

definition heap_insert :: "u64 \<Rightarrow> u64 \<Rightarrow> u32 \<Rightarrow> nat \<Rightarrow> heap \<Rightarrow> heap" where
  "heap_insert src dest len index h =
     (let pri = next_pri (rng h);
          n = \<lparr>n_src = src, n_dest = dest, n_len = len, n_index = index, n_seq = h_seq h, n_pri = pri\<rparr>
      in \<lparr>root = tree_insert n (root h), h_seq = h_seq h + 1, rng = pri\<rparr>)"

text \<open>A node that is erased is rotated down to the bottom, between its two subtrees.\<close>

fun sink :: "mtree \<Rightarrow> mtree \<Rightarrow> mtree" where
  "sink Tip Tip = Tip"
| "sink Tip (Fork rl r rr) = Fork (sink Tip rl) r rr"
| "sink (Fork ll l lr) Tip = Fork ll l (sink lr Tip)"
| "sink (Fork ll l lr) (Fork rl r rr) =
     (if n_pri l < n_pri r then Fork (sink (Fork ll l lr) rl) r rr else Fork ll l (sink lr (Fork rl r rr)))"

fun tree_erase :: "mnode \<Rightarrow> mtree \<Rightarrow> mtree" where
  "tree_erase n Tip = Tip"
| "tree_erase n (Fork l x r) =
     (if n_seq x = n_seq n then sink l r
      else if before n x then Fork (tree_erase n l) x r
      else Fork l x (tree_erase n r))"

definition eraseNode :: "mnode \<Rightarrow> heap \<Rightarrow> heap" where
  "eraseNode n h = h\<lparr>root := tree_erase n (root h)\<rparr>"

fun dest_nodes :: "u64 \<Rightarrow> mtree \<Rightarrow> mnode list" where
  "dest_nodes dest Tip = []"
| "dest_nodes dest (Fork l x r) =
     (if n_dest x > dest then dest_nodes dest l
      else if n_dest x < dest then dest_nodes dest r
      else dest_nodes dest l @ x # dest_nodes dest r)"

definition eraseDest :: "u64 \<Rightarrow> heap \<Rightarrow> heap" where
  "eraseDest dest h = foldl (\<lambda>h n. eraseNode n h) h (dest_nodes dest (root h))"

fun leftmost :: "mtree \<Rightarrow> mnode option" where
  "leftmost Tip = None"
| "leftmost (Fork Tip x r) = Some x"
| "leftmost (Fork (Fork ll l lr) x r) = leftmost (Fork ll l lr)"

fun rightmost :: "mtree \<Rightarrow> mnode option" where
  "rightmost Tip = None"
| "rightmost (Fork l x Tip) = Some x"
| "rightmost (Fork l x (Fork rl r rr)) = rightmost (Fork rl r rr)"

fun tree_prev :: "mnode \<Rightarrow> mtree \<Rightarrow> mnode option" where
  "tree_prev n Tip = None"
| "tree_prev n (Fork l x r) =
     (if n_seq x = n_seq n then rightmost l
      else if before n x then tree_prev n l
      else (case tree_prev n r of None \<Rightarrow> Some x | Some y \<Rightarrow> Some y))"

fun tree_next :: "mnode \<Rightarrow> mtree \<Rightarrow> mnode option" where
  "tree_next n Tip = None"
| "tree_next n (Fork l x r) =
     (if n_seq x = n_seq n then leftmost r
      else if before n x then (case tree_next n l of None \<Rightarrow> Some x | Some y \<Rightarrow> Some y)
      else tree_next n r)"

definition heap_begin :: "heap \<Rightarrow> mnode option" where
  "heap_begin h = leftmost (root h)"

text \<open>The predecessor of an iterator; that of the end is the last node.\<close>

definition heap_pred :: "heap \<Rightarrow> mnode option \<Rightarrow> mnode option" where
  "heap_pred h base = (case base of None \<Rightarrow> rightmost (root h) | Some n \<Rightarrow> tree_prev n (root h))"

section \<open>The treap as a sorted list\<close>

fun inorder :: "mtree \<Rightarrow> mnode list" where
  "inorder Tip = []"
| "inorder (Fork l x r) = inorder l @ x # inorder r"

fun ins_list :: "mnode \<Rightarrow> mnode list \<Rightarrow> mnode list" where
  "ins_list n [] = [n]"
| "ins_list n (x # xs) = (if before n x then n # x # xs else x # ins_list n xs)"

text \<open>Sorted, no two nodes of one age, and no node below one of lower priority.\<close>

fun by_pri :: "mtree \<Rightarrow> bool" where
  "by_pri Tip \<longleftrightarrow> True"
| "by_pri (Fork l x r) \<longleftrightarrow> by_pri l \<and> by_pri r \<and> (\<forall>y \<in> set (inorder l) \<union> set (inorder r). n_pri y \<le> n_pri x)"

definition treap :: "mtree \<Rightarrow> bool" where
  "treap t \<longleftrightarrow> sorted_wrt before (inorder t) \<and> distinct (map n_seq (inorder t)) \<and> by_pri t"

lemma before_trans: "before a b \<Longrightarrow> before b c \<Longrightarrow> before a c"
  by (auto simp: before_def split: if_splits)

lemma before_irrefl: "\<not> before a a"
  by (simp add: before_def)

lemma before_total: "n_seq a \<noteq> n_seq b \<Longrightarrow> before a b \<or> before b a"
  by (auto simp: before_def)

lemma before_asym: "before a b \<Longrightarrow> \<not> before b a"
  using before_trans before_irrefl by blast

lemma rotateLeft_inorder [simp]: "inorder (rotateLeft t) = inorder t"
  by (induction t rule: rotateLeft.induct) simp_all

lemma rotateRight_inorder [simp]: "inorder (rotateRight t) = inorder t"
  by (induction t rule: rotateRight.induct) simp_all

lemma ins_list_before: "before n x \<Longrightarrow> ins_list n (xs @ x # ys) = ins_list n xs @ x # ys"
  by (induction xs) auto

lemma ins_list_after: "\<forall>y \<in> set xs. \<not> before n y \<Longrightarrow> ins_list n (xs @ ys) = xs @ ins_list n ys"
  by (induction xs) auto

lemma set_ins_list [simp]: "set (ins_list n xs) = insert n (set xs)"
  by (induction xs) auto

lemma inorder_insert: "sorted_wrt before (inorder t) \<Longrightarrow> inorder (tree_insert n t) = ins_list n (inorder t)"
proof (induction t)
  case (Fork l x r)
  show ?case
  proof (cases "before n x")
    case True
    then show ?thesis using Fork by (simp add: sorted_wrt_append Let_def ins_list_before)
  next
    case False
    then have "\<forall>y \<in> set (inorder l @ [x]). \<not> before n y"
      using Fork.prems before_trans by (auto simp: sorted_wrt_append)
    then have "ins_list n ((inorder l @ [x]) @ inorder r) = (inorder l @ [x]) @ ins_list n (inorder r)" by (rule ins_list_after)
    then show ?thesis using Fork False by (simp add: sorted_wrt_append Let_def)
  qed
qed simp

lemma sorted_ins_list: "sorted_wrt before xs \<Longrightarrow> \<forall>x \<in> set xs. n_seq x \<noteq> n_seq n \<Longrightarrow> sorted_wrt before (ins_list n xs)"
proof (induction xs)
  case (Cons x xs)
  then show ?case using before_trans before_total [of n x] by (cases "before n x") auto
qed simp

lemma distinct_ins_list: "distinct (map n_seq xs) \<Longrightarrow> n_seq n \<notin> n_seq ` set xs \<Longrightarrow> distinct (map n_seq (ins_list n xs))"
  by (induction xs) auto

lemma below_new:
  assumes "distinct (map n_seq (inorder (Fork a y b)))" "set (inorder (Fork a y b)) = insert n S" "n_seq y = n_seq n"
  shows "set (inorder a) \<union> set (inorder b) \<subseteq> S"
proof
  fix z assume z: "z \<in> set (inorder a) \<union> set (inorder b)"
  then have "n_seq z \<noteq> n_seq n" using assms(1,3) by auto (metis imageI)+
  moreover have "z \<in> insert n S" using assms(2) z by auto
  ultimately show "z \<in> S" by auto
qed

lemma by_pri_insert:
  assumes "sorted_wrt before (inorder t)" "distinct (map n_seq (inorder t))" "by_pri t" "n_seq n \<notin> n_seq ` set (inorder t)"
  shows "by_pri (tree_insert n t)"
  using assms
proof (induction t)
  case (Fork l x r)
  have d: "distinct (map n_seq (inorder (tree_insert n s)))" "set (inorder (tree_insert n s)) = insert n (set (inorder s))"
    if "s = l \<or> s = r" for s
  proof -
    have "sorted_wrt before (inorder s)" "distinct (map n_seq (inorder s))" "n_seq n \<notin> n_seq ` set (inorder s)"
      using that Fork.prems by (auto simp: sorted_wrt_append)
    then show "distinct (map n_seq (inorder (tree_insert n s)))" "set (inorder (tree_insert n s)) = insert n (set (inorder s))"
      by (simp_all add: inorder_insert distinct_ins_list)
  qed
  show ?case
  proof (cases "before n x")
    case True
    have IH: "by_pri (tree_insert n l)" using Fork by (auto simp: sorted_wrt_append)
    obtain a y b where l': "tree_insert n l = Fork a y b" using d(2) [of l] by (cases "tree_insert n l") auto
    show ?thesis
    proof (cases "rises n (tree_insert n l) x")
      case rise: True
      then have y: "n_seq y = n_seq n" "n_pri x < n_pri n" by (simp_all add: rises_def l')
      with d [of l] l' Fork.prems(4) have yn: "y = n" by auto
      have "set (inorder a) \<union> set (inorder b) \<subseteq> set (inorder l)"
        using below_new [OF d [of l, unfolded l']] y(1) by simp
      then have "\<forall>z \<in> set (inorder b). n_pri z \<le> n_pri x" using Fork.prems(3) by auto
      moreover have "\<forall>z \<in> set (inorder r). n_pri z \<le> n_pri n" using Fork.prems(3) y(2) by (auto intro: order_trans [OF _ less_imp_le])
      ultimately show ?thesis using True rise IH Fork.prems(3) y yn by (auto simp: l' Let_def)
    next
      case False
      then have "n_pri n \<le> n_pri x" if "y = n" using that by (auto simp: rises_def l')
      moreover have "\<forall>z \<in> set (inorder (tree_insert n l)). z = n \<or> n_pri z \<le> n_pri x" using d(2) [of l] Fork.prems(3) by auto
      moreover have "n_pri n \<le> n_pri y" using IH d(2) [of l] by (auto simp: l')
      ultimately show ?thesis using True False IH Fork.prems(3) by (auto simp: Let_def l' dest: order_trans)
    qed
  next
    case False
    have IH: "by_pri (tree_insert n r)" using Fork by (auto simp: sorted_wrt_append)
    obtain a y b where r': "tree_insert n r = Fork a y b" using d(2) [of r] by (cases "tree_insert n r") auto
    show ?thesis
    proof (cases "rises n (tree_insert n r) x")
      case rise: True
      then have y: "n_seq y = n_seq n" "n_pri x < n_pri n" by (simp_all add: rises_def r')
      with d [of r] r' Fork.prems(4) have yn: "y = n" by auto
      have "set (inorder a) \<union> set (inorder b) \<subseteq> set (inorder r)"
        using below_new [OF d [of r, unfolded r']] y(1) by simp
      then have "\<forall>z \<in> set (inorder a). n_pri z \<le> n_pri x" using Fork.prems(3) by auto
      moreover have "\<forall>z \<in> set (inorder l). n_pri z \<le> n_pri n" using Fork.prems(3) y(2) by (auto intro: order_trans [OF _ less_imp_le])
      ultimately show ?thesis using False rise IH Fork.prems(3) y yn by (auto simp: r' Let_def)
    next
      case nr: False
      then have "n_pri n \<le> n_pri x" if "y = n" using that by (auto simp: rises_def r')
      moreover have "\<forall>z \<in> set (inorder (tree_insert n r)). z = n \<or> n_pri z \<le> n_pri x" using d(2) [of r] Fork.prems(3) by auto
      moreover have "n_pri n \<le> n_pri y" using IH d(2) [of r] by (auto simp: r')
      ultimately show ?thesis using False nr IH Fork.prems(3) by (auto simp: Let_def r' dest: order_trans)
    qed
  qed
qed simp

lemma inorder_sink [simp]: "inorder (sink l r) = inorder l @ inorder r"
  by (induction l r rule: sink.induct) auto

lemma by_pri_sink: "by_pri l \<Longrightarrow> by_pri r \<Longrightarrow> by_pri (sink l r)"
  by (induction l r rule: sink.induct) (auto intro: order_trans)

lemma inorder_erase:
  "sorted_wrt before (inorder t) \<Longrightarrow> distinct (map n_seq (inorder t)) \<Longrightarrow> n \<in> set (inorder t) \<Longrightarrow>
   inorder (tree_erase n t) = filter (\<lambda>x. n_seq x \<noteq> n_seq n) (inorder t)"
proof (induction t)
  case (Fork l x r)
  have keep: "filter (\<lambda>y. n_seq y \<noteq> n_seq m) ys = ys" if "n_seq m \<notin> n_seq ` set ys" for m ys
    using that by (metis (mono_tags, lifting) filter_id_conv image_eqI)
  consider "n_seq x = n_seq n" | "n_seq x \<noteq> n_seq n" "n \<in> set (inorder l)" | "n_seq x \<noteq> n_seq n" "n \<in> set (inorder r)"
    using Fork.prems by auto
  then show ?case
  proof cases
    case 1
    then have "n_seq n \<notin> n_seq ` set (inorder l)" "n_seq n \<notin> n_seq ` set (inorder r)" using Fork.prems(2) by auto
    then show ?thesis using 1 by (simp add: keep)
  next
    case 2
    then have "before n x" "n_seq n \<notin> n_seq ` set (inorder r)" using Fork.prems by (auto simp: sorted_wrt_append image_iff)
    then show ?thesis using 2 Fork by (simp add: keep sorted_wrt_append)
  next
    case 3
    then have "\<not> before n x" "n_seq n \<notin> n_seq ` set (inorder l)"
      using Fork.prems before_asym by (auto simp: sorted_wrt_append image_iff)
    then show ?thesis using 3 Fork by (simp add: keep sorted_wrt_append)
  qed
qed simp

lemma by_pri_erase:
  "sorted_wrt before (inorder t) \<Longrightarrow> distinct (map n_seq (inorder t)) \<Longrightarrow> n \<in> set (inorder t) \<Longrightarrow> by_pri t \<Longrightarrow> by_pri (tree_erase n t)"
proof (induction t)
  case (Fork l x r)
  show ?case
  proof (cases "n_seq x = n_seq n")
    case False
    then consider "n \<in> set (inorder l)" "before n x" | "n \<in> set (inorder r)" "\<not> before n x"
      using Fork.prems before_asym by (auto simp: sorted_wrt_append)
    then show ?thesis using Fork False by cases (auto simp: sorted_wrt_append inorder_erase)
  qed (use Fork.prems by_pri_sink in simp)
qed simp

lemma leftmost_inorder: "leftmost t = (if inorder t = [] then None else Some (hd (inorder t)))"
  by (induction t rule: leftmost.induct) (auto simp: hd_append)

lemma rightmost_inorder: "rightmost t = (if inorder t = [] then None else Some (last (inorder t)))"
  by (induction t rule: rightmost.induct) (auto simp: last_append)

text \<open>
  C18: the pending matches are a sorted list. Inserting a node of a new age puts it in its place,
  erasing a node takes out that node only, the first node is the least one, and the order of the
  nodes and of the priorities stays as it is, so that no rotation is ever left undone.
\<close>

theorem srep_heap_refines:
  assumes "treap t" "n_seq n \<notin> n_seq ` set (inorder t)" "m \<in> set (inorder t)"
  shows "treap (tree_insert n t) \<and> inorder (tree_insert n t) = ins_list n (inorder t)
    \<and> treap (tree_erase m t) \<and> inorder (tree_erase m t) = filter (\<lambda>x. n_seq x \<noteq> n_seq m) (inorder t)
    \<and> (\<exists>x. leftmost t = Some x \<and> x \<in> set (inorder t) \<and> (\<forall>y \<in> set (inorder t). y = x \<or> before x y))"
proof -
  have t: "sorted_wrt before (inorder t)" "distinct (map n_seq (inorder t))" "by_pri t" using assms(1) by (simp_all add: treap_def)
  have "\<forall>x \<in> set (inorder t). n_seq x \<noteq> n_seq n" using assms(2) by (metis imageI)
  then have "treap (tree_insert n t)"
    using t assms(2) by (simp add: treap_def inorder_insert sorted_ins_list distinct_ins_list by_pri_insert)
  moreover have "treap (tree_erase m t)"
    using t assms(3) by (simp add: treap_def inorder_erase sorted_wrt_filter distinct_map_filter by_pri_erase)
  moreover obtain x xs where "inorder t = x # xs" using assms(3) by (cases "inorder t") auto
  ultimately show ?thesis using t assms(3) by (auto simp: inorder_insert inorder_erase leftmost_inorder)
qed

definition sample_node :: "u64 \<Rightarrow> nat \<Rightarrow> u32 \<Rightarrow> mnode" where
  "sample_node dest age pri = \<lparr>n_src = 0, n_dest = dest, n_len = 1, n_index = 0, n_seq = age, n_pri = pri\<rparr>"

lemma srep_heap_refines_witness:
  "inorder (tree_insert (sample_node 5 1 9) (Fork Tip (sample_node 7 0 3) Tip)) = [sample_node 5 1 9, sample_node 7 0 3]
   \<and> treap (tree_insert (sample_node 5 1 9) (Fork Tip (sample_node 7 0 3) Tip))"
proof -
  have "treap (Fork Tip (sample_node 7 0 3) Tip)" by (simp add: treap_def)
  from srep_heap_refines [OF this, of "sample_node 5 1 9" "sample_node 7 0 3"]
  show ?thesis by (simp add: sample_node_def before_def)
qed

end
