(* ===== verification/Srep.thy ===== *)
theory Srep
  imports Srepmem Srepheap Chunkbuf
begin

text \<open>
  The SREP decoder (\<open>stream/srep\<close>): blocks of literals and of matches, where a match says what a later
  part of the stream copies. Matches into the block itself wait in the heap; those into later blocks
  are saved with their data. Data that does not fit is spilled to stored blocks and put back later.
\<close>

section \<open>Header\<close>

datatype srep_error =
    HdrShort | BadZiganshin | BadSignature | BadVersion byte | BadFormat byte | SeedShort
  | BlockHdr | TooLarge | StatShort | LitsShort | BrokenBlock

record sheader =
  sh_format :: byte
  hashNum :: byte
  seed :: byte
  hashExtra :: byte
  baseLen :: u32

definition word_at :: "bytes \<Rightarrow> nat \<Rightarrow> u32" where
  "word_at b i = le_word (take 4 (drop i b))"

definition parseHeader :: "bytes \<Rightarrow> srep_error + sheader \<times> bytes" where
  "parseHeader src =
     (case readFull 16 src of
        Inl _ \<Rightarrow> Inl HdrShort
      | Inr (b, src) \<Rightarrow>
          if word_at b 0 \<noteq> 0x26351817 then Inl BadZiganshin
          else if word_at b 4 \<noteq> 0x50455253 then Inl BadSignature
          else let h2 = word_at b 8; ver = ucast (h2 AND 0xff) in
            if ver < 1 \<or> 4 < ver then Inl (BadVersion ver)
            else Inr (\<lparr>sh_format = ver, hashNum = ucast (drop_bit 8 h2), seed = ucast (drop_bit 16 h2),
                       hashExtra = ucast (drop_bit 24 h2), baseLen = word_at b 12\<rparr>, src))"

definition hashLen :: "sheader \<Rightarrow> nat" where
  "hashLen h = (unat (hashExtra h) + 16) mod 256"

section \<open>Matches\<close>

record decoded =
  d_src :: u64
  d_dest :: u64
  d_len :: u32

text \<open>Sixteen bytes a match; what is left over is not looked at.\<close>

function decodeStats :: "bytes \<Rightarrow> u32 \<Rightarrow> u64 \<Rightarrow> u64 \<Rightarrow> u64 \<Rightarrow> decoded list option" where
  "decodeStats stat base blockStart blockEnd pos =
     (if length stat < 16 then Some []
      else
        let lit = word_at stat 0;
            off = ucast (word_at stat 4) OR push_bit 32 (ucast (word_at stat 8)) :: u64;
            len = word_at stat 12 + base;
            src = pos + ucast lit;
            dest = src + off
        in if src < pos \<or> src \<ge> blockEnd \<or> ucast len > blockEnd - src \<or> dest \<le> src then None
           else map_option ((#) \<lparr>d_src = src, d_dest = dest, d_len = len\<rparr>) (decodeStats (drop 16 stat) base blockStart blockEnd src))"
  by pat_completeness auto
termination by (relation "measure (\<lambda>(stat, b, s, e, p). length stat)") auto

declare decodeStats.simps [simp del]

section \<open>Stored blocks\<close>

record virtMem =
  blockSize :: nat
  vm_blocks :: "bytes option list"
  vm_free :: "nat list"
  vm_next :: nat

record kernel =
  k_base :: u32
  k_mm :: memMgr
  k_vm :: virtMem
  k_heap :: heap

text \<open>The first node from \<open>base\<close> on with another destination.\<close>

partial_function (option) skip_dest :: "heap \<Rightarrow> mnode option \<Rightarrow> u64 \<Rightarrow> mnode option run" where
  "skip_dest h base dest =
     (case base of None \<Rightarrow> ret None
      | Some n \<Rightarrow> if n_dest n = dest then skip_dest h (tree_next n (root h)) dest else ret base)"

text \<open>
  The matches that are spilled, from the far end of the heap: the last one is passed over, and so is
  the one before each that is taken.
\<close>

partial_function (option) spill :: "nat \<Rightarrow> memMgr \<Rightarrow> heap \<Rightarrow> mnode option \<Rightarrow> bytes \<Rightarrow> u64 \<Rightarrow> (memMgr \<times> heap \<times> bytes \<times> u64) run" where
  "spill room mm h base data minDest =
     (let base = heap_pred h base in
      case heap_pred h base of None \<Rightarrow> ret (mm, h, data, minDest)
      | Some cur \<Rightarrow>
          if n_index cur = 0 then spill room mm h base data minDest
          else if room - length data < 24 + unat (n_len cur) then ret (mm, h, data, minDest)
          else bindR (mm_restore mm (n_index cur) (unat (n_len cur))) (\<lambda>p.
               bindR (mm_free (n_index cur) mm) (\<lambda>mm.
               bindR (if map_option n_dest base = Some (n_dest cur) then skip_dest h base (n_dest cur) else ret base) (\<lambda>base.
                 spill room mm (eraseDest (n_dest cur) h) base
                   (data @ put_le 4 (n_len cur) @ put_le 8 (n_src cur) @ put_le 8 (n_dest cur) @ p) (n_dest cur)))))"

definition vm_save :: "kernel \<Rightarrow> kernel run" where
  "vm_save k =
     (let v = k_vm k in
      if blockSize v = 0 then fails
      else bindR (spill (blockSize v) (k_mm k) (k_heap k) None [] (NOT 0)) (\<lambda>(mm, h, data, minDest).
        if used mm \<ge> used (k_mm k) then fails
        else
          let (block, v) = (if vm_free v = [] then (vm_next v, v\<lparr>vm_next := vm_next v + 1\<rparr>)
                            else (last (vm_free v), v\<lparr>vm_free := butlast (vm_free v)\<rparr>));
              bs = vm_blocks v @ replicate (block + 1 - length (vm_blocks v)) None
          in ret (k\<lparr>k_mm := mm, k_vm := v\<lparr>vm_blocks := bs[block := Some (data @ put_le 4 (0 :: u32))]\<rparr>,
                    k_heap := heap_insert (word_of_nat block) minDest 0 0 h\<rparr>)))"

text \<open>Spilling until there is room for \<open>n\<close> bytes.\<close>

partial_function (option) make_room :: "nat \<Rightarrow> kernel \<Rightarrow> kernel run" where
  "make_room n k = (if available (k_mm k) < n then bindR (vm_save k) (\<lambda>k. make_room n k) else ret k)"

function vm_entries :: "bytes \<Rightarrow> memMgr \<Rightarrow> heap \<Rightarrow> (memMgr \<times> heap) run" where
  "vm_entries data mm h =
     (if length data < 4 then fails
      else let n = word_at data 0 in
        if n = 0 then ret (mm, h)
        else if length data < 20 + unat n then fails
        else bindR (mm_save (take (unat n) (drop 20 data)) mm) (\<lambda>(i, mm).
          vm_entries (drop (20 + unat n) data) mm
            (heap_insert (le_word (take 8 (drop 4 data))) (le_word (take 8 (drop 12 data))) n i h)))"
  by pat_completeness auto
termination by (relation "measure (\<lambda>(data, mm, h). length data)") auto

declare vm_entries.simps [simp del]

definition vm_restore :: "mnode \<Rightarrow> kernel \<Rightarrow> kernel run" where
  "vm_restore mark k =
     bindR (make_room (blockSize (k_vm k)) k) (\<lambda>k.
       let v = k_vm k; block = unat (n_src mark) in
       if 2 ^ 32 \<le> block \<or> length (vm_blocks v) \<le> block then fails
       else (case vm_blocks v ! block of None \<Rightarrow> fails
        | Some data \<Rightarrow>
            bindR (vm_entries data (k_mm k) (k_heap k)) (\<lambda>(mm, h).
              ret (k\<lparr>k_vm := v\<lparr>vm_blocks := (vm_blocks v)[block := None], vm_free := vm_free v @ [block]\<rparr>,
                     k_mm := mm, k_heap := h\<rparr>))))"

section \<open>Blocks\<close>

definition newKernelLimited :: "u32 \<Rightarrow> nat \<Rightarrow> nat \<Rightarrow> kernel" where
  "newKernelLimited base memLimit vmBlock =
     \<lparr>k_base = base, k_mm = newMemMgr memLimit,
      k_vm = \<lparr>blockSize = vmBlock, vm_blocks = [], vm_free = [], vm_next = 0\<rparr>,
      k_heap = heap_insert (NOT 0) (NOT 0) (NOT 0) 0 \<lparr>root = Tip, h_seq = 0, rng = 0x12345678\<rparr>\<rparr>"

definition newKernel :: "u32 \<Rightarrow> kernel" where
  "newKernel base = newKernelLimited base (2 ^ 29) (2 ^ 23)"

text \<open>A copy inside the output, byte by byte, so that it may read what it has written.\<close>

definition copyLZ :: "nat \<Rightarrow> nat \<Rightarrow> nat \<Rightarrow> bytes \<Rightarrow> bytes" where
  "copyLZ dst src n out = foldl (\<lambda>out i. out[dst + i := out ! (src + i)]) out [0..<n]"

definition put_at :: "nat \<Rightarrow> bytes \<Rightarrow> bytes \<Rightarrow> bytes" where
  "put_at i p out = take i out @ p @ drop (i + length p) out"

definition fill_match :: "mnode \<Rightarrow> u64 \<Rightarrow> nat \<Rightarrow> bytes \<Rightarrow> memMgr \<Rightarrow> bytes run" where
  "fill_match lz blockStart outPos out mm =
     (if n_len lz = NOT 0 \<and> n_src lz < blockStart then fails
      else if n_index lz \<noteq> 0 then
        bindR (mm_restore mm (n_index lz) (unat (n_len lz))) (\<lambda>p. ret (put_at outPos p out))
      else if n_src lz < blockStart \<or> unat (n_src lz - blockStart) > length out then fails
      else let srcOff = unat (n_src lz - blockStart) in
        if srcOff + unat (n_len lz) > length out then fails
        else ret (copyLZ outPos srcOff (unat (n_len lz)) out))"

partial_function (option) block_loop :: "u64 \<Rightarrow> u64 \<Rightarrow> bytes \<Rightarrow> nat \<Rightarrow> nat \<Rightarrow> bytes \<Rightarrow> kernel \<Rightarrow> (nat \<times> nat \<times> bytes \<times> kernel) run" where
  "block_loop blockStart blockEnd lits inPos outPos out k =
     (case heap_begin (k_heap k) of None \<Rightarrow> ret (inPos, outPos, out, k)
      | Some lz \<Rightarrow>
          if blockEnd \<le> n_dest lz then ret (inPos, outPos, out, k)
          else if n_len lz = 0 then
            bindR (vm_restore lz k) (\<lambda>k. block_loop blockStart blockEnd lits inPos outPos out (k\<lparr>k_heap := eraseNode lz (k_heap k)\<rparr>))
          else if n_dest lz < blockStart + word_of_nat outPos \<or> inPos > length lits \<or> outPos > length out then fails
          else let gap = unat (n_dest lz - blockStart - word_of_nat outPos) in
            if gap > length lits - inPos \<or> gap > length out - outPos then fails
            else if unat (n_len lz) > length out - outPos - gap then fails
            else bindR (fill_match lz blockStart (outPos + gap) (put_at outPos (take gap (drop inPos lits)) out) (k_mm k)) (\<lambda>out.
              bindR (if n_index lz \<noteq> 0 then mm_free (n_index lz) (k_mm k) else ret (k_mm k)) (\<lambda>mm.
                block_loop blockStart blockEnd lits (inPos + gap) (outPos + gap + unat (n_len lz)) out
                  (k\<lparr>k_mm := mm, k_heap := eraseNode lz (k_heap k)\<rparr>))))"

text \<open>The matches into later blocks are kept once the block is there.\<close>

fun keep_matches :: "u64 \<Rightarrow> u64 \<Rightarrow> bytes \<Rightarrow> decoded list \<Rightarrow> kernel \<Rightarrow> kernel run" where
  "keep_matches blockStart blockEnd out [] k = ret k"
| "keep_matches blockStart blockEnd out (m # ms) k =
     (if d_dest m < blockEnd then keep_matches blockStart blockEnd out ms k
      else if d_len m = NOT 0 then
        keep_matches blockStart blockEnd out ms (k\<lparr>k_heap := heap_insert (d_src m) (d_dest m) (d_len m) 0 (k_heap k)\<rparr>)
      else bindR (make_room (unat (d_len m)) k) (\<lambda>k.
        let rel = unat (d_src m - blockStart) in
        if rel > length out \<or> length out - rel < unat (d_len m) then fails
        else bindR (mm_save (take (unat (d_len m)) (drop rel out)) (k_mm k)) (\<lambda>(i, mm).
          keep_matches blockStart blockEnd out ms
            (k\<lparr>k_mm := mm, k_heap := heap_insert (d_src m) (d_dest m) (d_len m) i (k_heap k)\<rparr>))))"

definition insert_near :: "u64 \<Rightarrow> decoded list \<Rightarrow> heap \<Rightarrow> heap" where
  "insert_near blockEnd ms h =
     foldl (\<lambda>h m. if d_dest m < blockEnd then heap_insert (d_src m) (d_dest m) (d_len m) 0 h else h) h ms"

text \<open>\<open>block\<close> into a buffer that may hold anything.\<close>

definition k_block :: "bytes \<Rightarrow> bytes \<Rightarrow> bytes \<Rightarrow> u64 \<Rightarrow> kernel \<Rightarrow> (bytes \<times> kernel) run" where
  "k_block stat lits out blockStart k =
     (let blockEnd = blockStart + word_of_nat (length out) in
      case decodeStats stat (k_base k) blockStart blockEnd blockStart of None \<Rightarrow> fails
      | Some ms \<Rightarrow>
          bindR (block_loop blockStart blockEnd lits 0 0 out (k\<lparr>k_heap := insert_near blockEnd ms (k_heap k)\<rparr>))
            (\<lambda>(inPos, outPos, out, k).
              if length lits - inPos \<noteq> length out - outPos then fails
              else let out = put_at outPos (drop inPos lits) out in
                bindR (keep_matches blockStart blockEnd out ms k) (\<lambda>k. ret (out, k))))"

section \<open>The reader\<close>

text \<open>How reading a stream fails: an error, a panic, or a call that never returns.\<close>

datatype srep_fail = SrepErr srep_error | SrepPanic | SrepForever

record sreader =
  sr_src :: bytes
  sr_hdr :: sheader
  sr_ker :: kernel
  sr_start :: u64

definition srep_NewReader :: "bytes \<Rightarrow> srep_error + sreader" where
  "srep_NewReader src =
     bindE (parseHeader src) (\<lambda>(h, src).
       if sh_format h \<noteq> 3 then Inl (BadFormat (sh_format h))
       else if length src < unat (seed h) then Inl SeedShort
       else Inr \<lparr>sr_src = drop (unat (seed h)) src, sr_hdr = h, sr_ker = newKernel (baseLen h), sr_start = 0\<rparr>)"

definition maxBlock :: u32 where
  "maxBlock = 0x800000"

text \<open>
  \<open>next\<close>; \<open>pool\<close> is what the buffer for a block holds when it is taken from the pool.
\<close>

definition srep_next :: "(u64 \<Rightarrow> nat \<Rightarrow> bytes) \<Rightarrow> sreader \<Rightarrow> srep_fail pulled \<times> sreader" where
  "srep_next pool r =
     (let hdrSize = 12 + hashLen (sr_hdr r); src = sr_src r in
      if src = [] then (End, r)
      else if length src < hdrSize then (Fail (SrepErr BlockHdr), r\<lparr>sr_src := []\<rparr>)
      else
        let dataSize = word_at src 0; origSize = word_at src 4; statSize = word_at src 8; src = drop hdrSize src in
        if dataSize = 0 \<and> origSize = 0 then (End, r\<lparr>sr_src := src\<rparr>)
        else if origSize > maxBlock \<or> dataSize > maxBlock \<or> statSize > maxBlock then
          (if sr_start r > 0 then End else Fail (SrepErr TooLarge), r\<lparr>sr_src := src\<rparr>)
        else if length src < unat statSize then (Fail (SrepErr StatShort), r\<lparr>sr_src := []\<rparr>)
        else
          let stat = take (unat statSize) src; src = drop (unat statSize) src in
          if length src < unat dataSize then (Fail (SrepErr LitsShort), r\<lparr>sr_src := []\<rparr>)
          else
            let lits = take (unat dataSize) src; src = drop (unat dataSize) src in
            (case k_block stat lits (pool (sr_start r) (unat origSize)) (sr_start r) (sr_ker r) of
               None \<Rightarrow> (Fail SrepForever, r\<lparr>sr_src := src\<rparr>)
             | Some (Inl Panic) \<Rightarrow> (Fail SrepPanic, r\<lparr>sr_src := src\<rparr>)
             | Some (Inl (Error _)) \<Rightarrow> (Fail (SrepErr BrokenBlock), r\<lparr>sr_src := src\<rparr>)
             | Some (Inr (out, k)) \<Rightarrow> (Block out, r\<lparr>sr_src := src, sr_ker := k, sr_start := sr_start r + ucast origSize\<rparr>)))"

section \<open>Streams as SREP writes them\<close>

text \<open>A match: the bytes at \<open>f_dest\<close> are those at \<open>f_src\<close>.\<close>

record fmatch =
  f_src :: nat
  f_dest :: nat
  f_len :: nat

definition slice :: "bytes \<Rightarrow> nat \<Rightarrow> nat \<Rightarrow> bytes" where
  "slice T a n = take n (drop a T)"

definition f_ok :: "bytes \<Rightarrow> fmatch \<Rightarrow> bool" where
  "f_ok T m \<longleftrightarrow>
     0 < f_len m \<and> f_len m < 2 ^ 32 - 1 \<and> f_src m < f_dest m \<and> f_dest m + f_len m \<le> length T
     \<and> slice T (f_src m) (f_len m) = slice T (f_dest m) (f_len m)"

text \<open>The matches of a block in order, between \<open>p\<close> and \<open>e\<close>, and the literals around them.\<close>

fun laid :: "bytes \<Rightarrow> nat \<Rightarrow> fmatch list \<Rightarrow> nat \<Rightarrow> bool" where
  "laid T p [] e \<longleftrightarrow> p \<le> e"
| "laid T p (m # ms) e \<longleftrightarrow> f_ok T m \<and> p \<le> f_dest m \<and> laid T (f_dest m + f_len m) ms e"

fun lits_of :: "bytes \<Rightarrow> nat \<Rightarrow> fmatch list \<Rightarrow> nat \<Rightarrow> bytes" where
  "lits_of T p [] e = slice T p (e - p)"
| "lits_of T p (m # ms) e = slice T p (f_dest m - p) @ lits_of T (f_dest m + f_len m) ms e"

definition is_node :: "mnode \<Rightarrow> fmatch \<Rightarrow> bool" where
  "is_node n m \<longleftrightarrow> n_src n = word_of_nat (f_src m) \<and> n_dest n = word_of_nat (f_dest m) \<and> n_len n = word_of_nat (f_len m)
     \<and> f_src m < f_dest m \<and> f_dest m < 2 ^ 63 \<and> 0 < f_len m \<and> f_len m < 2 ^ 32 - 1"

text \<open>A node of the block that begins at \<open>s\<close>, or one whose data is in memory.\<close>

definition good_node :: "bytes \<Rightarrow> (nat \<rightharpoonup> bytes) \<Rightarrow> nat \<Rightarrow> mnode \<Rightarrow> fmatch \<Rightarrow> bool" where
  "good_node T A s n m \<longleftrightarrow> is_node n m
     \<and> (if n_index n = 0 then s \<le> f_src m else f_src m < s \<and> A (n_index n) = Some (slice T (f_src m) (f_len m)))"

definition heap_holds :: "bytes \<Rightarrow> (nat \<rightharpoonup> bytes) \<Rightarrow> nat \<Rightarrow> heap \<Rightarrow> fmatch list \<Rightarrow> bool" where
  "heap_holds T A s h fs \<longleftrightarrow>
     (\<exists>ns b. inorder (root h) = ns @ [b] \<and> n_dest b = NOT 0 \<and> list_all2 (good_node T A s) ns fs
        \<and> sorted_wrt (\<lambda>a b. n_dest a < n_dest b) (ns @ [b])
        \<and> distinct (map n_seq (ns @ [b])) \<and> (\<forall>n \<in> set (ns @ [b]). n_seq n < h_seq h)
        \<and> distinct (filter (\<lambda>i. i \<noteq> 0) (map n_index ns)))"

lemma length_slice [simp]: "a + n \<le> length T \<Longrightarrow> length (slice T a n) = n"
  by (simp add: slice_def)

lemma slice_add: "slice T a (m + n) = slice T a m @ slice T (a + m) n"
  by (simp add: slice_def take_add add.commute)

lemma nth_slice: "i < n \<Longrightarrow> a + n \<le> length T \<Longrightarrow> slice T a n ! i = T ! (a + i)"
  by (simp add: slice_def)

lemma u64_less: "a < 2 ^ 63 \<Longrightarrow> b < 2 ^ 63 \<Longrightarrow> (word_of_nat a :: u64) < word_of_nat b \<longleftrightarrow> a < b"
  by (simp add: word_less_nat_alt u64_small)

lemma u64_less_max: "a < 2 ^ 63 \<Longrightarrow> (word_of_nat a :: u64) < NOT 0"
proof -
  assume "a < 2 ^ 63"
  moreover have "unat (NOT 0 :: u64) = 2 ^ 64 - 1" by (simp add: unsigned_minus_1_eq_mask mask_eq_exp_minus_1)
  ultimately show ?thesis by (simp add: word_less_nat_alt u64_small)
qed

lemma dest_sorted_before: "sorted_wrt (\<lambda>a b. n_dest a < n_dest b) xs \<Longrightarrow> sorted_wrt before xs"
  by (erule sorted_wrt_mono_rel [rotated]) (auto simp: before_def)

lemma good_node_frame: "good_node T A s n m \<Longrightarrow> (\<And>x. A (n_index n) = Some x \<Longrightarrow> A' (n_index n) = Some x) \<Longrightarrow> good_node T A' s n m"
  by (auto simp: good_node_def split: if_splits)

section \<open>The heap as a list of matches\<close>

lemma ins_list_matches:
  assumes "list_all2 (good_node T A s) ns fs" "good_node T A s n m" "f_dest m \<notin> f_dest ` set fs" "n_dest b = NOT 0"
  shows "\<exists>ns'. ins_list n (ns @ [b]) = ns' @ [b] \<and> list_all2 (good_node T A s) ns' (insort_key f_dest m fs)"
  using assms
proof (induction ns fs rule: list_all2_induct)
  case Nil
  then have "n_dest n < n_dest b" using u64_less_max by (simp add: good_node_def is_node_def)
  then have "before n b" by (auto simp: before_def)
  then show ?case using Nil by (intro exI [of _ "[n]"]) simp
next
  case (Cons x xs f fs)
  have d: "f_dest m \<noteq> f_dest f" "f_dest m < 2 ^ 63" "f_dest f < 2 ^ 63" "n_dest n = word_of_nat (f_dest m)" "n_dest x = word_of_nat (f_dest f)"
    using Cons by (auto simp: good_node_def is_node_def)
  have neq: "n_dest n \<noteq> n_dest x"
  proof
    assume "n_dest n = n_dest x"
    then have "unat (word_of_nat (f_dest m) :: u64) = unat (word_of_nat (f_dest f) :: u64)" using d by simp
    then show False using d by (simp add: u64_small)
  qed
  then have bf: "before n x \<longleftrightarrow> f_dest m < f_dest f" using d by (simp add: before_def u64_less)
  show ?case
  proof (cases "f_dest m < f_dest f")
    case True
    then show ?thesis using Cons bf by (intro exI [of _ "n # x # xs"]) simp
  next
    case False
    obtain ns' where "ins_list n (xs @ [b]) = ns' @ [b]" "list_all2 (good_node T A s) ns' (insort_key f_dest m fs)"
      using Cons.IH Cons.prems by auto
    then show ?thesis using Cons.hyps bf False d(1) by (intro exI [of _ "x # ns'"]) simp
  qed
qed

lemma sorted_ins_dest:
  "sorted_wrt (\<lambda>a b. n_dest a < n_dest b) xs \<Longrightarrow> n_dest n \<notin> n_dest ` set xs \<Longrightarrow> sorted_wrt (\<lambda>a b. n_dest a < n_dest b) (ins_list n xs)"
proof (induction xs)
  case (Cons x xs)
  then show ?case by (cases "before n x") (auto simp: before_def split: if_splits)
qed simp

lemma distinct_index_ins:
  "distinct (filter (\<lambda>i. i \<noteq> 0) (map n_index xs)) \<Longrightarrow> n_index n = 0 \<or> n_index n \<notin> n_index ` set xs \<Longrightarrow>
   distinct (filter (\<lambda>i. i \<noteq> 0) (map n_index (ins_list n xs)))"
  by (induction xs) (auto split: if_splits)

lemma node_index_live: "list_all2 (good_node T A s) ns fs \<Longrightarrow> i \<noteq> 0 \<Longrightarrow> i \<in> n_index ` set ns \<Longrightarrow> A i \<noteq> None"
  by (induction ns fs rule: list_all2_induct) (auto simp: good_node_def split: if_splits)

lemma list_all2_in: "list_all2 P xs ys \<Longrightarrow> x \<in> set xs \<Longrightarrow> \<exists>y \<in> set ys. P x y"
  by (induction xs ys rule: list_all2_induct) auto

lemma heap_holds_insert:
  assumes "heap_holds T A s h fs" "f_dest m \<notin> f_dest ` set fs" "f_dest m < 2 ^ 63" "f_src m < f_dest m" "0 < f_len m" "f_len m < 2 ^ 32 - 1"
    and "if i = 0 then s \<le> f_src m \<and> A' = A else f_src m < s \<and> A i = None \<and> A' = A(i \<mapsto> slice T (f_src m) (f_len m))"
  shows "heap_holds T A' s (heap_insert (word_of_nat (f_src m)) (word_of_nat (f_dest m)) (word_of_nat (f_len m)) i h) (insort_key f_dest m fs)"
proof -
  obtain ns b where h: "inorder (root h) = ns @ [b]" "n_dest b = NOT 0" "list_all2 (good_node T A s) ns fs"
    "sorted_wrt (\<lambda>a b. n_dest a < n_dest b) (ns @ [b])" "distinct (map n_seq (ns @ [b]))" "\<forall>n \<in> set (ns @ [b]). n_seq n < h_seq h"
    "distinct (filter (\<lambda>i. i \<noteq> 0) (map n_index ns))" using assms(1) unfolding heap_holds_def by blast
  define n where "n = \<lparr>n_src = word_of_nat (f_src m), n_dest = word_of_nat (f_dest m), n_len = word_of_nat (f_len m), n_index = i,
    n_seq = h_seq h, n_pri = next_pri (rng h)\<rparr>"
  let ?h = "heap_insert (word_of_nat (f_src m)) (word_of_nat (f_dest m)) (word_of_nat (f_len m)) i h"
  have mono: "A j = Some x \<Longrightarrow> A' j = Some x" for j x using assms(7) by (auto split: if_splits)
  have ns: "list_all2 (good_node T A' s) ns fs"
    by (rule list_all2_mono [OF h(3)]) (use good_node_frame mono in blast)
  have n: "good_node T A' s n m" using assms(3-7) by (auto simp: good_node_def is_node_def n_def split: if_splits)
  obtain ns' where ns': "ins_list n (ns @ [b]) = ns' @ [b]" "list_all2 (good_node T A' s) ns' (insort_key f_dest m fs)"
    using ins_list_matches [OF ns n assms(2) h(2)] by blast
  have "n_dest n \<noteq> n_dest x" if "x \<in> set (ns @ [b])" for x
  proof (cases "x = b")
    case True
    then show ?thesis using u64_less_max [OF assms(3)] h(2) by (auto simp: n_def)
  next
    case False
    with that have "x \<in> set ns" by simp
    from list_all2_in [OF h(3) this] obtain f where f: "f \<in> set fs" "good_node T A s x f" by blast
    then have "f_dest m \<noteq> f_dest f" "f_dest f < 2 ^ 63" "n_dest x = word_of_nat (f_dest f)" using assms(2) by (auto simp: good_node_def is_node_def)
    then have "unat (n_dest x) \<noteq> unat (n_dest n)" using assms(3) by (simp add: n_def u64_small)
    then show ?thesis by auto
  qed
  then have s: "sorted_wrt (\<lambda>a b. n_dest a < n_dest b) (ns' @ [b])"
    using sorted_ins_dest [OF h(4), of n] ns'(1) by auto
  have r: "inorder (root ?h) = ns' @ [b]"
    using inorder_insert [of "root h" n] dest_sorted_before [OF h(4)] h(1) ns'(1) by (simp add: heap_insert_def Let_def n_def)
  have "h_seq h \<notin> n_seq ` set (ns @ [b])" using h(6) by auto
  then have d: "distinct (map n_seq (ns' @ [b]))"
    using distinct_ins_list [OF h(5), of n] by (simp add: ns'(1) [symmetric] n_def)
  have set': "set (ns' @ [b]) = insert n (set (ns @ [b]))" using set_ins_list [of n "ns @ [b]"] ns'(1) by metis
  have seq: "\<forall>x \<in> set (ns' @ [b]). n_seq x < h_seq ?h"
    using h(6) unfolding set' by (auto simp: heap_insert_def Let_def n_def intro: less_SucI)
  have "n_index n = 0 \<or> n_index n \<notin> n_index ` set ns"
    using node_index_live [OF h(3), of i] assms(7) by (auto simp: n_def split: if_splits)
  then have "distinct (filter (\<lambda>i. i \<noteq> 0) (map n_index ns'))"
  proof -
    have "ins_list n ns = ns'"
    proof -
      have "n_dest n < n_dest b" using u64_less_max [OF assms(3)] h(2) by (simp add: n_def)
      then have "before n b" by (auto simp: before_def)
      then have "ins_list n (ns @ [b]) = ins_list n ns @ [b]" by (rule ins_list_before)
      then show ?thesis using ns'(1) by simp
    qed
    moreover assume "n_index n = 0 \<or> n_index n \<notin> n_index ` set ns"
    ultimately show ?thesis using distinct_index_ins [OF h(7)] by metis
  qed
  then show ?thesis unfolding heap_holds_def using r h(2) ns'(2) s d seq by blast
qed

lemma heap_holds_begin:
  assumes "heap_holds T A s h (f # fs)"
  obtains n where "heap_begin h = Some n" "good_node T A s n f"
    "heap_holds T (if n_index n = 0 then A else A(n_index n := None)) s (eraseNode n h) fs"
proof -
  obtain ns b where h: "inorder (root h) = ns @ [b]" "n_dest b = NOT 0" "list_all2 (good_node T A s) ns (f # fs)"
    "sorted_wrt (\<lambda>a b. n_dest a < n_dest b) (ns @ [b])" "distinct (map n_seq (ns @ [b]))" "\<forall>n \<in> set (ns @ [b]). n_seq n < h_seq h"
    "distinct (filter (\<lambda>i. i \<noteq> 0) (map n_index ns))" using assms unfolding heap_holds_def by blast
  obtain n ns' where ns: "ns = n # ns'" "good_node T A s n f" "list_all2 (good_node T A s) ns' fs"
    using h(3) by (auto simp: list_all2_Cons2)
  have beg: "heap_begin h = Some n" by (simp add: heap_begin_def leftmost_inorder h(1) ns(1))
  have "inorder (tree_erase n (root h)) = filter (\<lambda>x. n_seq x \<noteq> n_seq n) (ns @ [b])"
    using inorder_erase [of "root h" n] dest_sorted_before [OF h(4)] h(1,5) ns(1) by simp
  also have "\<dots> = ns' @ [b]"
    using h(5) by (auto simp: ns(1) filter_id_conv intro!: filter_True) (metis imageI)+
  finally have e: "inorder (root (eraseNode n h)) = ns' @ [b]" by (simp add: eraseNode_def)
  define A' where A': "A' = (if n_index n = 0 then A else A(n_index n := None))"
  have "heap_holds T A' s (eraseNode n h) fs"
  proof -
    have "list_all2 (good_node T A' s) ns' fs"
    proof (rule list.rel_mono_strong [OF ns(3)])
      fix x m assume x: "x \<in> set ns'" "good_node T A s x m"
      have "n_index n \<noteq> 0 \<Longrightarrow> n_index n \<notin> n_index ` set ns'" using h(7) by (auto simp: ns(1))
      then have "n_index n \<noteq> 0 \<Longrightarrow> n_index x \<noteq> n_index n" using x(1) by (metis imageI)
      then show "good_node T A' s x m" using x(2) A' by (auto simp: good_node_def split: if_splits)
    qed
    then show ?thesis unfolding heap_holds_def using e h(2,4-7) by (auto simp: ns(1) eraseNode_def split: if_splits)
  qed
  then show ?thesis using that beg ns(2) unfolding A' by blast
qed

lemma heap_holds_empty:
  assumes "heap_holds T A s h fs" "\<forall>f \<in> set fs. e \<le> f_dest f" "e < 2 ^ 63"
  shows "\<exists>n. heap_begin h = Some n \<and> word_of_nat e \<le> n_dest n"
proof -
  obtain ns b where h: "inorder (root h) = ns @ [b]" "n_dest b = NOT 0" "list_all2 (good_node T A s) ns fs"
    using assms(1) unfolding heap_holds_def by blast
  show ?thesis
  proof (cases ns)
    case Nil
    then show ?thesis using h u64_less_max [OF assms(3)] by (simp add: heap_begin_def leftmost_inorder)
  next
    case (Cons n ns')
    then obtain f where "f \<in> set fs" "good_node T A s n f" using list_all2_in [OF h(3), of n] by auto
    then have "n_dest n = word_of_nat (f_dest f)" "f_dest f < 2 ^ 63" "e \<le> f_dest f" using assms(2) by (auto simp: good_node_def is_node_def)
    then have "word_of_nat e \<le> n_dest n" using assms(3) by (simp add: word_le_nat_alt u64_small)
    then show ?thesis using Cons h(1) by (simp add: heap_begin_def leftmost_inorder)
  qed
qed

lemma heap_holds_sorted:
  assumes "heap_holds T A s h fs"
  shows "sorted_wrt (\<lambda>a b. f_dest a < f_dest b) fs"
proof -
  obtain ns b where h: "list_all2 (good_node T A s) ns fs" "sorted_wrt (\<lambda>a b. n_dest a < n_dest b) (ns @ [b])"
    using assms unfolding heap_holds_def by blast
  from h(2) have "sorted_wrt (\<lambda>a b. n_dest a < n_dest b) ns" by (simp add: sorted_wrt_append)
  with h(1) show ?thesis
  proof (induction ns fs rule: list_all2_induct)
    case (Cons x xs f fs)
    have "f_dest f < f_dest g" if "g \<in> set fs" for g
    proof -
      have "list_all2 (\<lambda>y x. good_node T A s x y) fs xs" using Cons.hyps(2) by (simp add: list_all2_conv_all_nth)
      from list_all2_in [OF this that] obtain y where y: "y \<in> set xs" "good_node T A s y g" by blast
      then have "n_dest x < n_dest y" using Cons.prems by simp
      then show ?thesis using y(2) Cons.hyps(1) by (simp add: good_node_def is_node_def u64_less)
    qed
    then show ?case using Cons by simp
  qed simp
qed

section \<open>One block\<close>

lemma copyLZ_Suc: "copyLZ d s (Suc n) out = (copyLZ d s n out)[d + n := copyLZ d s n out ! (s + n)]"
  by (simp add: copyLZ_def)

lemma copyLZ_slice:
  assumes "take d out = slice T s d" "a < d" "d + n \<le> length out" "s + d + n \<le> length T" "\<forall>i < n. T ! (s + d + i) = T ! (s + a + i)"
  shows "take (d + n) (copyLZ d a n out) = slice T s (d + n) \<and> length (copyLZ d a n out) = length out"
  using assms(3-)
proof (induction n)
  case 0
  then show ?case using assms(1) by (simp add: copyLZ_def)
next
  case (Suc n)
  let ?o = "copyLZ d a n out"
  have IH: "take (d + n) ?o = slice T s (d + n)" "length ?o = length out" using Suc by auto
  have "?o ! (a + n) = slice T s (d + n) ! (a + n)" using IH assms(2) by (metis add_less_cancel_right nth_take)
  also have "\<dots> = T ! (s + d + n)" using Suc.prems assms(2) by (simp add: nth_slice add.assoc)
  finally have v: "?o ! (a + n) = T ! (s + d + n)" .
  have "take (Suc (d + n)) (?o[d + n := T ! (s + d + n)]) = take (d + n) ?o @ [T ! (s + d + n)]"
    using IH(2) Suc.prems by (simp add: take_Suc_conv_app_nth)
  also have "\<dots> = slice T s (Suc (d + n))"
    using IH(1) Suc.prems by (simp add: slice_def take_Suc_conv_app_nth add.assoc)
  finally show ?case using IH(2) v by (simp add: copyLZ_Suc)
qed

lemma put_at_slice: "take i out = slice T s i \<Longrightarrow> i + n \<le> length out \<Longrightarrow> s + i + n \<le> length T \<Longrightarrow>
    take (i + n) (put_at i (slice T (s + i) n) out) = slice T s (i + n) \<and> length (put_at i (slice T (s + i) n) out) = length out"
  by (simp add: put_at_def slice_add)

lemma slice_eq_nth: "slice T a n = slice T b n \<Longrightarrow> a + n \<le> length T \<Longrightarrow> b + n \<le> length T \<Longrightarrow> i < n \<Longrightarrow> T ! (a + i) = T ! (b + i)"
  by (metis nth_slice)

lemma fill_match_ok:
  assumes "good_node T A s lz f" "f_ok T f" "mem_holds mm A" "take d out = slice T s d" "s + d = f_dest f"
    "d + f_len f \<le> length out" "s + length out < 2 ^ 63"
  shows "\<exists>out'. fill_match lz (word_of_nat s) d out mm = ret out' \<and> take (d + f_len f) out' = slice T s (d + f_len f) \<and> length out' = length out"
proof -
  have f: "0 < f_len f" "f_len f < 2 ^ 32 - 1" "f_src f < f_dest f" "f_dest f + f_len f \<le> length T"
    "slice T (f_src f) (f_len f) = slice T (f_dest f) (f_len f)" using assms(2) by (auto simp: f_ok_def)
  have n: "n_src lz = word_of_nat (f_src f)" "n_len lz = word_of_nat (f_len f)" using assms(1) by (auto simp: good_node_def is_node_def)
  have l: "unat (n_len lz) = f_len f" using f(2) by (simp add: n unat_of_nat_small)
  have "n_len lz \<noteq> NOT 0"
  proof
    assume "n_len lz = NOT 0"
    then have "unat (n_len lz) = 2 ^ 32 - 1" by (simp add: unsigned_minus_1_eq_mask mask_eq_exp_minus_1)
    then show False using l f(2) by simp
  qed
  then show ?thesis
  proof (cases "n_index lz = 0")
    case False
    then have "A (n_index lz) = Some (slice T (f_src f) (f_len f))" using assms(1) by (simp add: good_node_def)
    then have "mm_restore mm (n_index lz) (length (slice T (f_src f) (f_len f))) = ret (slice T (f_src f) (f_len f))"
      by (rule mem_restore [OF assms(3)])
    then have "mm_restore mm (n_index lz) (f_len f) = ret (slice T (s + d) (f_len f))" using f(3-5) assms(5) by simp
    then show ?thesis
      using put_at_slice [OF assms(4,6)] \<open>n_len lz \<noteq> NOT 0\<close> False f(4) assms(5) by (simp add: fill_match_def l)
  next
    case True
    then have s: "s \<le> f_src f" using assms(1) by (simp add: good_node_def)
    have b: "f_src f < 2 ^ 63" "s < 2 ^ 63" using f(3) assms(5,6,7) by auto
    have "unat (n_src lz - word_of_nat s) = f_src f - s"
      using s b by (simp add: n unat_sub word_le_nat_alt u64_small)
    moreover have "\<not> n_src lz < word_of_nat s" using s b by (simp add: n u64_less)
    moreover have "\<forall>i < f_len f. T ! (s + d + i) = T ! (s + (f_src f - s) + i)"
      using slice_eq_nth [OF f(5)] f(3,4) s assms(5) by auto
    with copyLZ_slice [OF assms(4) _ assms(6), of "f_src f - s"] f(3,4) s assms(5)
    have "take (d + f_len f) (copyLZ d (f_src f - s) (f_len f) out) = slice T s (d + f_len f)
        \<and> length (copyLZ d (f_src f - s) (f_len f) out) = length out" by auto
    moreover have "f_src f - s + f_len f \<le> length out" using f(3) assms(5,6) s by linarith
    ultimately show ?thesis using \<open>n_len lz \<noteq> NOT 0\<close> True by (simp add: fill_match_def l Let_def)
  qed
qed

text \<open>What the kernel is left with: the heap, and the memory with the matches of earlier blocks.\<close>

definition cost :: "fmatch \<Rightarrow> nat" where
  "cost f = (f_len f + 59) div 60"

definition ker_holds :: "bytes \<Rightarrow> nat \<Rightarrow> nat \<Rightarrow> kernel \<Rightarrow> fmatch list \<Rightarrow> bool" where
  "ker_holds T s c k fs \<longleftrightarrow>
     (\<exists>A. heap_holds T A s (k_heap k) fs \<and> mem_holds (k_mm k) A \<and> useful (k_mm k) = c
        \<and> used (k_mm k) = (\<Sum>f \<leftarrow> filter (\<lambda>f. f_src f < s) fs. cost f))"

lemma block_loop_match:
  assumes "heap_begin (k_heap k) = Some lz" "\<not> e \<le> n_dest lz" "n_len lz \<noteq> 0" "\<not> n_dest lz < s + word_of_nat o1"
    and "unat (n_dest lz - s - word_of_nat o1) = g" "unat (n_len lz) = n" "o1 + g = d"
    and "\<not> (length lits < i \<or> length out < o1 \<or> length lits - i < g \<or> length out - o1 < g \<or> length out - o1 - g < n)"
    and "fill_match lz s d (put_at o1 (take g (drop i lits)) out) (k_mm k) = ret out'"
    and "(if n_index lz \<noteq> 0 then mm_free (n_index lz) (k_mm k) else ret (k_mm k)) = ret mm"
  shows "block_loop s e lits i o1 out k = block_loop s e lits (i + g) (d + n) out' (k\<lparr>k_mm := mm, k_heap := eraseNode lz (k_heap k)\<rparr>)"
proof -
  have c: "\<not> (n_dest lz < s + word_of_nat o1 \<or> length lits < i \<or> length out < o1)" "\<not> (length lits - i < g \<or> length out - o1 < g)"
    "\<not> length out - o1 - g < n" using assms(4,8) by blast+
  show ?thesis
    by (subst block_loop.simps,
        simp only: assms(1) option.case if_not_P [OF assms(2)] if_not_P [OF assms(3)],
        simp only: Let_def,
        simp only: if_not_P [OF c(1)],
        simp only: assms(5,6) if_not_P [OF c(2)] if_not_P [OF c(3)],
        simp only: assms(7,9),
        simp only: bindR_simps,
        simp only: assms(10),
        simp only: bindR_simps)
qed

lemma block_loop_ok:
  assumes "ker_holds T s c k (ds @ rest)" "laid T p ds e" "\<forall>m \<in> set rest. e \<le> f_dest m" "s \<le> p" "e < 2 ^ 63" "e \<le> length T"
    and "length out = e - s" "take (p - s) out = slice T s (p - s)" "drop inPos lits = lits_of T p ds e" "inPos \<le> length lits"
  shows "\<exists>i o' out' k'. block_loop (word_of_nat s) (word_of_nat e) lits inPos (p - s) out k = ret (i, o', out', k')
    \<and> length out' = e - s \<and> o' \<le> e - s \<and> take o' out' = slice T s o' \<and> i \<le> length lits \<and> drop i lits = slice T (s + o') (e - s - o')
    \<and> ker_holds T s c k' rest \<and> k_base k' = k_base k"
  using assms
proof (induction ds arbitrary: p out inPos k)
  case Nil
  then obtain A where "heap_holds T A s (k_heap k) rest" by (auto simp: ker_holds_def)
  then obtain n where "heap_begin (k_heap k) = Some n" "word_of_nat e \<le> n_dest n"
    using heap_holds_empty [OF _ Nil.prems(3,5)] by blast
  then have "block_loop (word_of_nat s) (word_of_nat e) lits inPos (p - s) out k = ret (inPos, p - s, out, k)"
    by (simp add: block_loop.simps)
  then show ?case using Nil.prems by simp
next
  case (Cons f ds)
  have f: "f_ok T f" "p \<le> f_dest f" "laid T (f_dest f + f_len f) ds e" using Cons.prems(2) by simp_all
  have fe: "f_dest f + f_len f \<le> e" using f(3)
  proof (induction ds arbitrary: f)
    case (Cons g gs)
    then have "f_dest g + f_len g \<le> e" "f_dest f + f_len f \<le> f_dest g" by auto
    then show ?case by simp
  qed simp
  obtain A where A: "heap_holds T A s (k_heap k) (f # ds @ rest)" "mem_holds (k_mm k) A" "useful (k_mm k) = c"
    "used (k_mm k) = (\<Sum>f \<leftarrow> filter (\<lambda>f. f_src f < s) (f # ds @ rest). cost f)"
    using Cons.prems(1) by (auto simp: ker_holds_def)
  obtain lz where lz: "heap_begin (k_heap k) = Some lz" "good_node T A s lz f"
    "heap_holds T (if n_index lz = 0 then A else A(n_index lz := None)) s (eraseNode lz (k_heap k)) (ds @ rest)"
    by (rule heap_holds_begin [OF A(1)])
  have nz: "0 < f_len f" "f_len f < 2 ^ 32 - 1" using f(1) by (auto simp: f_ok_def)
  have n: "n_dest lz = word_of_nat (f_dest f)" "n_len lz = word_of_nat (f_len f)" using lz(2) by (auto simp: good_node_def is_node_def)
  have l: "unat (n_len lz) = f_len f" using nz(2) by (simp add: n unat_of_nat_small)
  have d63: "f_dest f < 2 ^ 63" "s < 2 ^ 63" "p < 2 ^ 63" using fe f(2) Cons.prems(4,5) nz(1) by linarith+
  have w: "word_of_nat s + word_of_nat (p - s) = (word_of_nat p :: u64)" using Cons.prems(4) by (simp flip: of_nat_add)
  have c1: "\<not> word_of_nat e \<le> n_dest lz" using fe nz(1) Cons.prems(5) d63 by (simp add: n word_le_nat_alt u64_small)
  have c2: "n_len lz \<noteq> 0" using l nz(1) by auto
  have c3: "\<not> n_dest lz < word_of_nat s + word_of_nat (p - s)" unfolding w n using d63 f(2) by (simp add: u64_less)
  have gap: "unat (n_dest lz - word_of_nat s - word_of_nat (p - s)) = f_dest f - p"
  proof -
    have "n_dest lz - word_of_nat s - word_of_nat (p - s) = n_dest lz - (word_of_nat p :: u64)" using w by (metis diff_diff_eq)
    moreover have "unat (n_dest lz - word_of_nat p) = f_dest f - p"
      using d63 f(2) by (simp add: n unat_sub word_le_nat_alt u64_small)
    ultimately show ?thesis by (simp only:)
  qed
  let ?g = "f_dest f - p" and ?d = "f_dest f - s"
  have ps: "p - s + ?g = ?d" using f(2) Cons.prems(4) by simp
  have lits: "take ?g (drop inPos lits) = slice T p ?g" "drop (inPos + ?g) lits = lits_of T (f_dest f + f_len f) ds e" "?g \<le> length lits - inPos"
  proof -
    have len: "length (slice T p ?g) = ?g" using fe f(2) Cons.prems(6) nz by (intro length_slice) linarith
    show "take ?g (drop inPos lits) = slice T p ?g" using Cons.prems(9) len by simp
    show "drop (inPos + ?g) lits = lits_of T (f_dest f + f_len f) ds e"
      using arg_cong [OF Cons.prems(9), of "drop ?g"] len by (simp add: add.commute)
    show "?g \<le> length lits - inPos" using arg_cong [OF Cons.prems(9), of length] len by simp
  qed
  let ?out = "put_at (p - s) (slice T p ?g) out"
  have o1: "take ?d ?out = slice T s ?d" "length ?out = e - s"
    using put_at_slice [OF Cons.prems(8), of ?g] Cons.prems(4,6,7) fe f(2) nz ps by auto
  obtain out' where fm: "fill_match lz (word_of_nat s) ?d ?out (k_mm k) = ret out'" "take (?d + f_len f) out' = slice T s (?d + f_len f)" "length out' = e - s"
  proof -
    have "s + ?d = f_dest f" "?d + f_len f \<le> length ?out" "s + length ?out < 2 ^ 63" using o1(2) fe f(2) Cons.prems(4,5) nz by linarith+
    from fill_match_ok [OF lz(2) f(1) A(2) o1(1) this] that show ?thesis unfolding o1(2) by blast
  qed
  define A' where "A' = (if n_index lz = 0 then A else A(n_index lz := None))"
  obtain mm where mm: "(if n_index lz \<noteq> 0 then mm_free (n_index lz) (k_mm k) else ret (k_mm k)) = ret mm" "mem_holds mm A'"
    "useful mm = c" "used mm = (\<Sum>f \<leftarrow> filter (\<lambda>f. f_src f < s) (ds @ rest). cost f)"
  proof (cases "n_index lz = 0")
    case False
    then have m: "A (n_index lz) = Some (slice T (f_src f) (f_len f))" "f_src f < s" using lz(2) by (auto simp: good_node_def)
    have "length (slice T (f_src f) (f_len f)) = f_len f" using f(1) by (auto simp: f_ok_def)
    with mem_free [OF A(2) m(1)] False m(2) A(3,4) that show ?thesis by (auto simp: A'_def cost_def)
  next
    case True
    then have "\<not> f_src f < s" using lz(2) by (simp add: good_node_def)
    with True that A(2-4) show ?thesis by (simp add: A'_def)
  qed
  let ?k = "k\<lparr>k_mm := mm, k_heap := eraseNode lz (k_heap k)\<rparr>"
  have k: "ker_holds T s c ?k (ds @ rest)"
    unfolding ker_holds_def
  proof (intro exI [of _ A'] conjI)
    show "heap_holds T A' s (k_heap ?k) (ds @ rest)" using lz(3) unfolding A'_def by simp
  qed (use mm in simp_all)
  have step: "block_loop (word_of_nat s) (word_of_nat e) lits inPos (p - s) out k =
      block_loop (word_of_nat s) (word_of_nat e) lits (inPos + ?g) (?d + f_len f) out' ?k"
  proof (rule block_loop_match [OF lz(1) c1 c2 c3 gap l ps])
    show "\<not> (length lits < inPos \<or> length out < p - s \<or> length lits - inPos < ?g \<or> length out - (p - s) < ?g
        \<or> length out - (p - s) - ?g < f_len f)"
      using Cons.prems(4,7,10) lits(3) fe f(2) by auto
    show "fill_match lz (word_of_nat s) ?d (put_at (p - s) (take ?g (drop inPos lits)) out) (k_mm k) = ret out'"
      unfolding lits(1) by (rule fm(1))
  qed (rule mm(1))
  have e: "?d + f_len f = f_dest f + f_len f - s" and sp: "s \<le> f_dest f + f_len f" and i: "inPos + ?g \<le> length lits"
    using f(2) lits(3) Cons.prems(4,10) by linarith+
  show ?case
    unfolding step e
    using Cons.IH [OF k f(3) Cons.prems(3) sp Cons.prems(5,6) fm(3) fm(2) [unfolded e] lits(2) i] by simp
qed

end
