(* ===== verification/Srepstream.thy ===== *)
theory Srepstream
  imports Srep
begin

text \<open>
  SREP streams as the compressor writes them, and that the reader restores the file they stand for.
\<close>

section \<open>The matches of a block\<close>

definition dec :: "fmatch \<Rightarrow> decoded" where
  "dec m = \<lparr>d_src = word_of_nat (f_src m), d_dest = word_of_nat (f_dest m), d_len = word_of_nat (f_len m)\<rparr>"

text \<open>How far from the last source, how far to the destination, and the length less the base.\<close>

fun enc_stats :: "u32 \<Rightarrow> nat \<Rightarrow> fmatch list \<Rightarrow> bytes" where
  "enc_stats base p [] = []"
| "enc_stats base p (m # ms) =
     (let off = word_of_nat (f_dest m - f_src m) :: u64
      in put_le 4 (word_of_nat (f_src m - p) :: u32) @ put_le 4 (ucast off :: u32) @ put_le 4 (ucast (drop_bit 32 off) :: u32)
         @ put_le 4 (word_of_nat (f_len m) - base)) @ enc_stats base (f_src m) ms"

text \<open>Sources in order, each inside the block that ends at \<open>e\<close>.\<close>

fun srcs_ok :: "bytes \<Rightarrow> nat \<Rightarrow> nat \<Rightarrow> fmatch list \<Rightarrow> bool" where
  "srcs_ok T p e [] \<longleftrightarrow> True"
| "srcs_ok T p e (m # ms) \<longleftrightarrow> f_ok T m \<and> p \<le> f_src m \<and> f_src m - p < 2 ^ 32 \<and> f_src m + f_len m \<le> e \<and> srcs_ok T (f_src m) e ms"

lemma length_enc_stats [simp]: "length (enc_stats base p ms) = 16 * length ms"
  by (induction ms arbitrary: p) (auto simp: Let_def)

lemma halves: "(ucast (ucast w :: u32) :: u64) OR push_bit 32 (ucast (ucast (drop_bit 32 w) :: u32)) = w" for w :: u64
proof (rule bit_word_eqI)
  fix n assume n: "n < LENGTH(64)"
  show "bit ((ucast (ucast w :: u32) :: u64) OR push_bit 32 (ucast (ucast (drop_bit 32 w) :: u32))) n = bit w n"
    using n by (cases "n < 32") (auto simp: bit_simps word_size)
qed

lemma word_at_put [simp]: "word_at (put_le 4 (w :: u32) @ r) 0 = w"
  "4 \<le> i \<Longrightarrow> word_at (put_le 4 (w :: u32) @ r) i = word_at r (i - 4)"
  by (simp_all add: word_at_def)

lemma small_take: "x < 2 ^ 32 \<Longrightarrow> take_bit 32 x = x" for x :: nat
  by (simp add: take_bit_nat_eq_self_iff)

lemma u64_small_diff: "e < 2 ^ 63 \<Longrightarrow> unat (word_of_nat (e - a) :: u64) = e - a"
  by (rule u64_small) simp

lemma decodeStats_enc:
  assumes "srcs_ok T p e ms" "length T < 2 ^ 63" "e \<le> length T"
  shows "decodeStats (enc_stats base p ms) base s (word_of_nat e) (word_of_nat p) = Some (map dec ms)"
  using assms
proof (induction ms arbitrary: p)
  case Nil
  then show ?case by (simp add: decodeStats.simps)
next
  case (Cons m ms)
  let ?w = "word_of_nat :: nat \<Rightarrow> u64"
  have m: "f_ok T m" "p \<le> f_src m" "f_src m - p < 2 ^ 32" "f_src m + f_len m \<le> e" "srcs_ok T (f_src m) e ms" using Cons.prems by auto
  then have b: "f_src m < f_dest m" "f_dest m < 2 ^ 63" "0 < f_len m" "f_len m < 2 ^ 32 - 1" "e < 2 ^ 63" "f_src m < 2 ^ 63" "p < 2 ^ 63"
    using Cons.prems(2,3) unfolding f_ok_def by linarith+
  have lit: "?w p + ucast (word_of_nat (f_src m - p) :: u32) = ?w (f_src m)"
  proof -
    have "ucast (word_of_nat (f_src m - p) :: u32) = ?w (f_src m - p)"
      using m(3) by (simp add: unsigned_of_nat small_take)
    then show ?thesis using m(2) by (simp flip: of_nat_add)
  qed
  have off: "?w (f_src m) + ?w (f_dest m - f_src m) = ?w (f_dest m)" using b(1) by (simp flip: of_nat_add)
  have len: "ucast (word_of_nat (f_len m) :: u32) = ?w (f_len m)" using b(4) by (simp add: unsigned_of_nat small_take)
  have room: "?w e - ?w (f_src m) = ?w (e - f_src m)" using m(4) by (simp add: of_nat_diff)
  have r: "unat (?w e - ?w (f_src m)) = e - f_src m" unfolding room using b(5) by (simp only: u64_small_diff)
  have c: "\<not> (?w (f_src m) < ?w p \<or> ?w (f_src m) \<ge> ?w e \<or> ucast (word_of_nat (f_len m) :: u32) > ?w e - ?w (f_src m) \<or> ?w (f_dest m) \<le> ?w (f_src m))"
    unfolding len using m b by (simp add: word_le_nat_alt word_less_nat_alt u64_small r)
  have "enc_stats base p (m # ms) = put_le 4 (word_of_nat (f_src m - p) :: u32) @ put_le 4 (ucast (?w (f_dest m - f_src m)) :: u32)
      @ put_le 4 (ucast (drop_bit 32 (?w (f_dest m - f_src m))) :: u32) @ put_le 4 (word_of_nat (f_len m) - base) @ enc_stats base (f_src m) ms"
    by (simp add: Let_def)
  then show ?case
    using Cons.IH [OF m(5) Cons.prems(2,3)] c
    by (subst decodeStats.simps) (simp add: Let_def halves lit off dec_def)
qed

section \<open>The matches that wait\<close>

text \<open>
  Those of a block into the block itself are put among the ones that wait; those into later blocks
  are put there after it.
\<close>

definition pend :: "fmatch list \<Rightarrow> fmatch list \<Rightarrow> fmatch list" where
  "pend fs ms = foldl (\<lambda>fs m. insort_key f_dest m fs) fs ms"

definition near :: "nat \<Rightarrow> fmatch list \<Rightarrow> fmatch list" where
  "near e ms = filter (\<lambda>m. f_dest m < e) ms"

definition far :: "nat \<Rightarrow> fmatch list \<Rightarrow> fmatch list" where
  "far e ms = filter (\<lambda>m. \<not> f_dest m < e) ms"

definition in_block :: "nat \<Rightarrow> fmatch list \<Rightarrow> fmatch list \<Rightarrow> fmatch list" where
  "in_block e fs ms = takeWhile (\<lambda>m. f_dest m < e) (pend fs (near e ms))"

definition next_pend :: "nat \<Rightarrow> fmatch list \<Rightarrow> fmatch list \<Rightarrow> fmatch list" where
  "next_pend e fs ms = pend (dropWhile (\<lambda>m. f_dest m < e) (pend fs (near e ms))) (far e ms)"

definition chunks_of :: "fmatch list \<Rightarrow> nat" where
  "chunks_of fs = (\<Sum>f \<leftarrow> fs. cost f)"

lemma pend_simps [simp]: "pend fs [] = fs" "pend fs (m # ms) = pend (insort_key f_dest m fs) ms"
  by (simp_all add: pend_def)

lemma set_pend: "set (pend fs ms) = set fs \<union> set ms"
  by (induction ms arbitrary: fs) (auto simp: set_insort_key)

lemma chunks_insort: "chunks_of (filter P (insort_key g m fs)) = (if P m then cost m else 0) + chunks_of (filter P fs)"
  by (induction fs) (auto simp: chunks_of_def)

lemma chunks_pend: "chunks_of (filter P (pend fs ms)) = chunks_of (filter P fs) + chunks_of (filter P ms)"
  by (induction ms arbitrary: fs) (simp_all add: chunks_insort, auto simp: chunks_of_def)

lemma chunks_none: "\<forall>f \<in> set fs. \<not> P f \<Longrightarrow> chunks_of (filter P fs) = 0"
  by (simp add: chunks_of_def filter_False)

lemma ker_holds_chunks: "ker_holds T s c k fs \<longleftrightarrow>
    (\<exists>A. heap_holds T A s (k_heap k) fs \<and> mem_holds (k_mm k) A \<and> useful (k_mm k) = c
       \<and> used (k_mm k) = chunks_of (filter (\<lambda>f. f_src f < s) fs))"
  by (simp add: ker_holds_def chunks_of_def)

lemma insert_near_simps [simp]: "insert_near e [] h = h"
  "insert_near e (m # ms) h = insert_near e ms (if d_dest m < e then heap_insert (d_src m) (d_dest m) (d_len m) 0 h else h)"
  by (simp_all add: insert_near_def)

lemma dec_simps [simp]: "d_src (dec m) = word_of_nat (f_src m)" "d_dest (dec m) = word_of_nat (f_dest m)" "d_len (dec m) = word_of_nat (f_len m)"
  by (simp_all add: dec_def)

lemma f_ok_bounds: "f_ok T m \<Longrightarrow> length T < 2 ^ 63 \<Longrightarrow> f_dest m < 2 ^ 63 \<and> f_src m < f_dest m \<and> 0 < f_len m \<and> f_len m < 2 ^ 32 - 1"
  unfolding f_ok_def by linarith

lemma insert_near_ok:
  assumes "heap_holds T A s h fs" "\<forall>m \<in> set ms. f_ok T m \<and> s \<le> f_src m" "distinct (map f_dest ms)" "f_dest ` set fs \<inter> f_dest ` set ms = {}"
    and "length T < 2 ^ 63" "e < 2 ^ 63"
  shows "heap_holds T A s (insert_near (word_of_nat e) (map dec ms) h) (pend fs (near e ms))"
  using assms(1-4)
proof (induction ms arbitrary: h fs)
  case Nil
  then show ?case by (simp add: near_def)
next
  case (Cons m ms)
  have m: "f_dest m < 2 ^ 63" "f_src m < f_dest m" "0 < f_len m" "f_len m < 2 ^ 32 - 1" "s \<le> f_src m"
    using f_ok_bounds [OF _ assms(5), of m] Cons.prems(2) by auto
  have c: "word_of_nat (f_dest m) < (word_of_nat e :: u64) \<longleftrightarrow> f_dest m < e" by (rule u64_less [OF m(1) assms(6)])
  show ?case
  proof (cases "f_dest m < e")
    case True
    have "heap_holds T A s (heap_insert (word_of_nat (f_src m)) (word_of_nat (f_dest m)) (word_of_nat (f_len m)) 0 h) (insort_key f_dest m fs)"
      using heap_holds_insert [OF Cons.prems(1) _ m(1-4), of 0 A] m(5) Cons.prems(4) by auto
    then show ?thesis using Cons.IH [of _ "insort_key f_dest m fs"] Cons.prems True c by (auto simp: near_def set_insort_key)
  next
    case False
    then show ?thesis using Cons.IH [OF Cons.prems(1)] Cons.prems c by (auto simp: near_def)
  qed
qed

lemma heap_holds_later:
  assumes "heap_holds T A s h fs" "\<forall>f \<in> set fs. f_src f < s" "s \<le> e"
  shows "heap_holds T A e h fs"
proof -
  have "list_all2 (good_node T A e) ns fs" if "list_all2 (good_node T A s) ns fs" for ns
    using that by (rule list.rel_mono_strong) (use assms(2,3) in \<open>auto simp: good_node_def split: if_splits\<close>)
  then show ?thesis using assms(1) unfolding heap_holds_def by blast
qed

lemma ker_holds_later:
  assumes "ker_holds T s c k fs" "\<forall>f \<in> set fs. f_src f < s" "s \<le> e"
  shows "ker_holds T e c k fs"
proof -
  have "filter (\<lambda>f. f_src f < s) fs = fs" "filter (\<lambda>f. f_src f < e) fs = fs" using assms(2,3) by (auto simp: filter_id_conv)
  then show ?thesis using assms(1) heap_holds_later [OF _ assms(2,3)] unfolding ker_holds_def by metis
qed

lemma keep_matches_ok:
  assumes "ker_holds T e c k fs" "\<forall>m \<in> set ms. f_ok T m \<and> s \<le> f_src m \<and> f_src m + f_len m \<le> e"
    and "distinct (map f_dest ms)" "f_dest ` set fs \<inter> f_dest ` set ms = {}"
    and "(chunks_of (filter (\<lambda>f. f_src f < e) fs) + chunks_of (far e ms)) * 60 \<le> c"
    and "length T < 2 ^ 63" "s \<le> e" "e \<le> length T"
  shows "\<exists>k'. keep_matches (word_of_nat s) (word_of_nat e) (slice T s (e - s)) (map dec ms) k = ret k'
    \<and> ker_holds T e c k' (pend fs (far e ms)) \<and> k_base k' = k_base k"
  using assms(1-5)
proof (induction ms arbitrary: k fs)
  case Nil
  then show ?case by (simp add: far_def)
next
  case (Cons m ms)
  have m: "f_dest m < 2 ^ 63" "f_src m < f_dest m" "0 < f_len m" "f_len m < 2 ^ 32 - 1" "s \<le> f_src m" "f_src m + f_len m \<le> e" "f_ok T m"
    using f_ok_bounds [OF _ assms(6), of m] Cons.prems(2) by auto
  have e63: "e < 2 ^ 63" "s < 2 ^ 63" "f_src m < 2 ^ 63" using assms(6-8) m by linarith+
  have d: "word_of_nat (f_dest m) < (word_of_nat e :: u64) \<longleftrightarrow> f_dest m < e" by (rule u64_less [OF m(1) e63(1)])
  show ?case
  proof (cases "f_dest m < e")
    case True
    then show ?thesis using Cons.IH [OF Cons.prems(1)] Cons.prems d by (auto simp: far_def)
  next
    case False
    obtain A where A: "heap_holds T A e (k_heap k) fs" "mem_holds (k_mm k) A" "useful (k_mm k) = c"
      "used (k_mm k) = chunks_of (filter (\<lambda>f. f_src f < e) fs)" using Cons.prems(1) by (auto simp: ker_holds_chunks)
    have fc: "chunks_of (far e (m # ms)) = cost m + chunks_of (far e ms)" using False by (simp add: far_def chunks_of_def)
    have l: "unat (word_of_nat (f_len m) :: u32) = f_len m" using m(4) by (simp add: unat_of_nat_small)
    have nm: "(word_of_nat (f_len m) :: u32) \<noteq> NOT 0"
    proof
      assume "(word_of_nat (f_len m) :: u32) = NOT 0"
      then have "unat (word_of_nat (f_len m) :: u32) = 2 ^ 32 - 1" by (simp add: unsigned_minus_1_eq_mask mask_eq_exp_minus_1)
      then show False using l m(4) by simp
    qed
    have room: "make_room (f_len m) k = ret k"
    proof -
      have "(used (k_mm k) + cost m) * 60 \<le> c" using Cons.prems(5) A(4) fc by simp
      moreover have "f_len m \<le> cost m * 60" by (simp add: cost_def)
      ultimately have "f_len m \<le> available (k_mm k)" by (simp add: available_def A(3))
      then show ?thesis by (subst make_room.simps) simp
    qed
    have rel: "unat (word_of_nat (f_src m) - word_of_nat s :: u64) = f_src m - s"
      using m(5) e63 by (simp add: unat_sub word_le_nat_alt u64_small)
    let ?p = "slice T (f_src m) (f_len m)"
    have p: "take (f_len m) (drop (f_src m - s) (slice T s (e - s))) = ?p"
      using m(5,6) by (simp add: slice_def drop_take min_def)
    have lp: "length ?p = f_len m" using m(6) assms(8) by simp
    then have "?p \<noteq> []" using m(3) by auto
    from mem_save [OF A(2) this] obtain i mm where sv: "mm_save ?p (k_mm k) = ret (i, mm)" "i \<noteq> 0" "A i = None"
      "mem_holds mm (A(i \<mapsto> ?p))" "useful mm = useful (k_mm k)" "used mm = used (k_mm k) + cost m"
      by (auto simp: lp cost_def)
    let ?k = "k\<lparr>k_mm := mm, k_heap := heap_insert (word_of_nat (f_src m)) (word_of_nat (f_dest m)) (word_of_nat (f_len m)) i (k_heap k)\<rparr>"
    have se: "f_src m < e" using m(3,6) by linarith
    have "f_dest m \<notin> f_dest ` set fs" using Cons.prems(4) by auto
    from heap_holds_insert [OF A(1) this m(1-4), of i "A(i \<mapsto> ?p)"] sv(2,3) se
    have "heap_holds T (A(i \<mapsto> ?p)) e (k_heap ?k) (insort_key f_dest m fs)" by simp
    moreover have "used (k_mm ?k) = chunks_of (filter (\<lambda>f. f_src f < e) (insort_key f_dest m fs))"
      using A(4) sv(6) se by (simp add: chunks_insort)
    ultimately have k: "ker_holds T e c ?k (insort_key f_dest m fs)"
      using sv(4,5) A(3) unfolding ker_holds_chunks by auto
    have b: "\<not> e - s < f_src m - s" "\<not> e - f_src m < f_len m" using m(5,6) by linarith+
    have "keep_matches (word_of_nat s) (word_of_nat e) (slice T s (e - s)) (map dec (m # ms)) k =
        keep_matches (word_of_nat s) (word_of_nat e) (slice T s (e - s)) (map dec ms) ?k"
      using d False nm l room rel m(5,6) assms(7,8) p sv(1) b by (simp add: Let_def)
    moreover have "\<exists>k'. keep_matches (word_of_nat s) (word_of_nat e) (slice T s (e - s)) (map dec ms) ?k = ret k'
        \<and> ker_holds T e c k' (pend (insort_key f_dest m fs) (far e ms)) \<and> k_base k' = k_base ?k"
      using Cons.prems(2-5) se fc by (intro Cons.IH [OF k]) (auto simp: set_insort_key chunks_insort)
    ultimately show ?thesis using False by (simp add: far_def)
  qed
qed

section \<open>A block\<close>

definition block_lits :: "bytes \<Rightarrow> nat \<Rightarrow> nat \<Rightarrow> fmatch list \<Rightarrow> fmatch list \<Rightarrow> bytes" where
  "block_lits T s e fs ms = lits_of T s (in_block e fs ms) e"

text \<open>
  The matches of the block from \<open>s\<close> to \<open>e\<close>: each of them copies the bytes it stands for, no two have
  the same destination, those that end up in the block do not overlap, and those that wait after
  it take no more memory than \<open>c\<close>.
\<close>

definition block_ok :: "bytes \<Rightarrow> nat \<Rightarrow> nat \<Rightarrow> nat \<Rightarrow> fmatch list \<Rightarrow> fmatch list \<Rightarrow> bool" where
  "block_ok T c s e fs ms \<longleftrightarrow>
     s \<le> e \<and> e \<le> length T \<and> srcs_ok T s e ms \<and> distinct (map f_dest (fs @ ms))
     \<and> laid T s (in_block e fs ms) e \<and> chunks_of (next_pend e fs ms) * 60 \<le> c"

lemma srcs_ok_all: "srcs_ok T p e ms \<Longrightarrow> \<forall>m \<in> set ms. f_ok T m \<and> p \<le> f_src m \<and> f_src m + f_len m \<le> e"
  by (induction ms arbitrary: p) fastforce+

lemma set_dropWhile: "f \<in> set (dropWhile P fs) \<Longrightarrow> f \<in> set fs"
  by (induction fs) (auto split: if_splits)

lemma sorted_rest: "sorted_wrt (\<lambda>a b. f_dest a < f_dest b) fs \<Longrightarrow> \<forall>m \<in> set (dropWhile (\<lambda>m. f_dest m < e) fs). e \<le> f_dest m"
proof (induction fs)
  case (Cons f fs)
  then show ?case by (cases "f_dest f < e") (auto intro: less_imp_le order.trans)
qed simp

lemma k_block_ok:
  assumes "ker_holds T s c k fs" "\<forall>f \<in> set fs. f_src f < s" "block_ok T c s e fs ms" "length out = e - s" "length T < 2 ^ 63"
  shows "\<exists>k'. k_block (enc_stats (k_base k) s ms) (block_lits T s e fs ms) out (word_of_nat s) k = ret (slice T s (e - s), k')
    \<and> ker_holds T e c k' (next_pend e fs ms) \<and> (\<forall>f \<in> set (next_pend e fs ms). f_src f < e) \<and> k_base k' = k_base k"
proof -
  have b: "s \<le> e" "e \<le> length T" "srcs_ok T s e ms" "distinct (map f_dest fs)" "distinct (map f_dest ms)"
    "f_dest ` set fs \<inter> f_dest ` set ms = {}" "laid T s (in_block e fs ms) e" "chunks_of (next_pend e fs ms) * 60 \<le> c"
    using assms(3) by (auto simp: block_ok_def)
  have ms: "\<forall>m \<in> set ms. f_ok T m \<and> s \<le> f_src m \<and> f_src m + f_len m \<le> e" by (rule srcs_ok_all [OF b(3)])
  have e63: "e < 2 ^ 63" using b(2) assms(5) by linarith
  have stop: "word_of_nat s + word_of_nat (length out) = (word_of_nat e :: u64)" using assms(4) b(1) by (simp flip: of_nat_add)
  let ?all = "pend fs (near e ms)" and ?rest = "dropWhile (\<lambda>m. f_dest m < e) (pend fs (near e ms))"
  let ?k = "k\<lparr>k_heap := insert_near (word_of_nat e) (map dec ms) (k_heap k)\<rparr>"
  obtain A where A: "heap_holds T A s (k_heap k) fs" "mem_holds (k_mm k) A" "useful (k_mm k) = c"
    "used (k_mm k) = chunks_of (filter (\<lambda>f. f_src f < s) fs)" using assms(1) by (auto simp: ker_holds_chunks)
  have h: "heap_holds T A s (k_heap ?k) ?all"
    using insert_near_ok [OF A(1) _ b(5,6) assms(5) e63] ms by simp
  have split: "?all = in_block e fs ms @ ?rest" by (simp add: in_block_def)
  have "\<forall>f \<in> set (near e ms). \<not> f_src f < s" using ms by (auto simp: near_def)
  from chunks_none [OF this] have "used (k_mm ?k) = chunks_of (filter (\<lambda>f. f_src f < s) ?all)" using A(4) by (simp add: chunks_pend)
  with h A(2,3) have k: "ker_holds T s c ?k (in_block e fs ms @ ?rest)" unfolding split [symmetric] ker_holds_chunks by auto
  have "sorted_wrt (\<lambda>a b. f_dest a < f_dest b) ?all" by (rule heap_holds_sorted [OF h])
  then have later: "\<forall>m \<in> set ?rest. e \<le> f_dest m" by (rule sorted_rest)
  have old: "\<forall>f \<in> set ?rest. f_src f < s"
  proof
    fix f assume f: "f \<in> set ?rest"
    then have "f \<in> set ?all" by (rule set_dropWhile)
    then have "f \<in> set fs \<or> f \<in> set (near e ms)" by (simp add: set_pend)
    moreover have "e \<le> f_dest f" using later f by blast
    ultimately show "f_src f < s" using assms(2) by (auto simp: near_def)
  qed
  obtain i o' out' k1 where l: "block_loop (word_of_nat s) (word_of_nat e) (block_lits T s e fs ms) 0 0 out ?k = ret (i, o', out', k1)"
    "length out' = e - s" "o' \<le> e - s" "take o' out' = slice T s o'" "i \<le> length (block_lits T s e fs ms)"
    "drop i (block_lits T s e fs ms) = slice T (s + o') (e - s - o')" "ker_holds T s c k1 ?rest" "k_base k1 = k_base ?k"
    using block_loop_ok [OF k b(7) later _ e63 b(2) assms(4), of 0 "block_lits T s e fs ms"]
    by (auto simp: block_lits_def slice_def)
  have left: "length (slice T (s + o') (e - s - o')) = e - s - o'" using l(3) b(1,2) by (intro length_slice) linarith
  then have lits: "length (block_lits T s e fs ms) - i = length out' - o'" using l(2,6) by (metis length_drop)
  have full: "put_at o' (slice T (s + o') (e - s - o')) out' = slice T s (e - s)"
  proof -
    have "slice T s (e - s) = slice T s o' @ slice T (s + o') (e - s - o')"
      using slice_add [of T s o' "e - s - o'"] unfolding le_add_diff_inverse [OF l(3)] .
    then show ?thesis using l(2-4) left by (simp add: put_at_def)
  qed
  have k2: "ker_holds T e c k1 ?rest" by (rule ker_holds_later [OF l(7) old b(1)])
  have cs: "(chunks_of (filter (\<lambda>f. f_src f < e) ?rest) + chunks_of (far e ms)) * 60 \<le> c"
  proof -
    have "filter (\<lambda>f. f_src f < e) ?rest = ?rest" using old b(1) by (auto simp: filter_id_conv)
    then show ?thesis using b(8) chunks_pend [of "\<lambda>_. True" ?rest "far e ms"] by (simp add: next_pend_def)
  qed
  have "f_dest ` set ?rest \<inter> f_dest ` set ms = {}"
  proof -
    have "f \<in> set fs" if "f \<in> set ?rest" for f
    proof -
      have "f \<in> set ?all" using that by (rule set_dropWhile)
      then show ?thesis using later that by (auto simp: set_pend near_def)
    qed
    then show ?thesis using b(6) by blast
  qed
  from keep_matches_ok [OF k2 ms b(5) this cs assms(5) b(1,2)]
  obtain k' where k': "keep_matches (word_of_nat s) (word_of_nat e) (slice T s (e - s)) (map dec ms) k1 = ret k'"
    "ker_holds T e c k' (next_pend e fs ms)" "k_base k' = k_base k1" by (auto simp: next_pend_def)
  have src: "\<forall>f \<in> set (next_pend e fs ms). f_src f < e"
  proof
    fix f assume "f \<in> set (next_pend e fs ms)"
    then have "f \<in> set ?rest \<or> f \<in> set ms" by (auto simp: next_pend_def set_pend far_def)
    then show "f_src f < e" using old ms b(1) by (auto simp: f_ok_def)
  qed
  have "k_block (enc_stats (k_base k) s ms) (block_lits T s e fs ms) out (word_of_nat s) k = ret (slice T s (e - s), k')"
    using decodeStats_enc [OF b(3) assms(5) b(2), of "k_base k" "word_of_nat s"] l(1,6) lits full k'(1)
    by (simp add: k_block_def stop)
  then show ?thesis using k'(2,3) src l(8) by simp
qed

section \<open>A stream\<close>

record sblock =
  b_size :: nat
  b_matches :: "fmatch list"
  b_hash :: bytes

text \<open>What the matches that wait may take: the chunks of 512 MiB but the first.\<close>

definition room :: nat where
  "room = (2 ^ 23 - 1) * 60"

fun blocks_ok :: "bytes \<Rightarrow> nat \<Rightarrow> nat \<Rightarrow> fmatch list \<Rightarrow> sblock list \<Rightarrow> bool" where
  "blocks_ok T hl s fs [] \<longleftrightarrow> s = length T"
| "blocks_ok T hl s fs (b # bs) \<longleftrightarrow>
     (let e = s + b_size b in
      0 < b_size b \<and> b_size b \<le> 2 ^ 23 \<and> 16 * length (b_matches b) \<le> 2 ^ 23 \<and> length (b_hash b) = hl
      \<and> block_ok T room s e fs (b_matches b) \<and> blocks_ok T hl e (next_pend e fs (b_matches b)) bs)"

fun write_blocks :: "bytes \<Rightarrow> u32 \<Rightarrow> nat \<Rightarrow> fmatch list \<Rightarrow> sblock list \<Rightarrow> bytes" where
  "write_blocks T base s fs [] = []"
| "write_blocks T base s fs (b # bs) =
     (let e = s + b_size b; ms = b_matches b; lits = block_lits T s e fs ms in
      (put_le 4 (word_of_nat (length lits) :: u32) @ put_le 4 (word_of_nat (b_size b) :: u32)
        @ put_le 4 (word_of_nat (16 * length ms) :: u32) @ b_hash b)
      @ enc_stats base s ms @ lits @ write_blocks T base e (next_pend e fs ms) bs)"

definition write_srep :: "sheader \<Rightarrow> bytes \<Rightarrow> bytes \<Rightarrow> sblock list \<Rightarrow> bytes" where
  "write_srep h sd T bs =
     (put_le 4 (0x26351817 :: u32) @ put_le 4 (0x50455253 :: u32) @ [sh_format h, hashNum h, seed h, hashExtra h] @ put_le 4 (baseLen h))
     @ sd @ write_blocks T (baseLen h) 0 [] bs"

text \<open>How a stream may end: here, with an empty block, or before something that is no block.\<close>

definition stops :: "nat \<Rightarrow> bytes \<Rightarrow> bytes \<Rightarrow> bool" where
  "stops hl T post \<longleftrightarrow> post = [] \<or> 12 + hl \<le> length post
     \<and> (word_at post 0 = 0 \<and> word_at post 4 = 0 \<or> T \<noteq> [] \<and> (word_at post 0 > maxBlock \<or> word_at post 4 > maxBlock \<or> word_at post 8 > maxBlock))"

lemma length_lits: "laid T p ds e \<Longrightarrow> e \<le> length T \<Longrightarrow> p \<le> e \<and> length (lits_of T p ds e) \<le> e - p"
proof (induction ds arbitrary: p)
  case (Cons m ds)
  then have "f_dest m + f_len m \<le> e" "length (lits_of T (f_dest m + f_len m) ds e) \<le> e - (f_dest m + f_len m)" "p \<le> f_dest m" by auto
  moreover have "length (slice T p (f_dest m - p)) \<le> f_dest m - p" by (simp add: slice_def)
  ultimately show ?case by simp
qed (simp add: slice_def)

lemma new_kernel_holds: "ker_holds T 0 room (newKernel base) []"
proof -
  have "heap_holds T Map.empty 0 (k_heap (newKernel base)) []"
    unfolding heap_holds_def by (intro exI [of _ "[]"]) (simp add: newKernel_def newKernelLimited_def heap_insert_def Let_def)
  then show ?thesis
    unfolding ker_holds_chunks using mem_new [of "2 ^ 29"]
    by (intro exI [of _ Map.empty]) (simp add: newKernel_def newKernelLimited_def newMemMgr_def room_def chunks_of_def)
qed

lemma word_at_skip: "word_at (b @ r) (length b + i) = word_at r i"
  by (simp add: word_at_def)

lemma word_of_small: "n \<le> 2 ^ 23 \<Longrightarrow> unat (word_of_nat n :: u32) = n" "n \<le> 2 ^ 23 \<Longrightarrow> \<not> maxBlock < (word_of_nat n :: u32)"
  "n \<le> 2 ^ 23 \<Longrightarrow> 0 < n \<Longrightarrow> (word_of_nat n :: u32) \<noteq> 0"
proof -
  show u: "n \<le> 2 ^ 23 \<Longrightarrow> unat (word_of_nat n :: u32) = n" by (simp add: unat_of_nat_small)
  then show "n \<le> 2 ^ 23 \<Longrightarrow> \<not> maxBlock < (word_of_nat n :: u32)" by (simp add: maxBlock_def word_less_nat_alt)
  show "n \<le> 2 ^ 23 \<Longrightarrow> 0 < n \<Longrightarrow> (word_of_nat n :: u32) \<noteq> 0" using u by fastforce
qed

lemma srep_next_block:
  assumes "sr_src r = write_blocks T (baseLen (sr_hdr r)) s fs (b # bs) @ post" "sr_start r = word_of_nat s" "k_base (sr_ker r) = baseLen (sr_hdr r)"
    and "ker_holds T s room (sr_ker r) fs" "\<forall>f \<in> set fs. f_src f < s" "blocks_ok T (hashLen (sr_hdr r)) s fs (b # bs)"
    and "\<forall>s n. length (pool s n) = n" "length T < 2 ^ 63" "e = s + b_size b"
  shows "\<exists>k. srep_next pool r = (Block (slice T s (b_size b)),
      r\<lparr>sr_src := write_blocks T (baseLen (sr_hdr r)) e (next_pend e fs (b_matches b)) bs @ post, sr_ker := k, sr_start := word_of_nat e\<rparr>)
    \<and> ker_holds T e room k (next_pend e fs (b_matches b)) \<and> (\<forall>f \<in> set (next_pend e fs (b_matches b)). f_src f < e) \<and> k_base k = baseLen (sr_hdr r)"
proof -
  let ?ms = "b_matches b" and ?n = "b_size b" and ?base = "baseLen (sr_hdr r)"
  let ?lits = "block_lits T s e fs ?ms" and ?stat = "enc_stats ?base s ?ms"
  let ?rest = "write_blocks T ?base e (next_pend e fs ?ms) bs @ post"
  have b: "0 < ?n" "?n \<le> 2 ^ 23" "16 * length ?ms \<le> 2 ^ 23" "length (b_hash b) = hashLen (sr_hdr r)" "block_ok T room s e fs ?ms"
    using assms(6) by (auto simp: Let_def assms(9))
  have ll: "length ?lits \<le> 2 ^ 23"
    using length_lits [of T s "in_block e fs ?ms" e] b(2,5) by (simp add: block_ok_def block_lits_def assms(9))
  define hdr where "hdr = put_le 4 (word_of_nat (length ?lits) :: u32) @ put_le 4 (word_of_nat ?n :: u32)
        @ put_le 4 (word_of_nat (16 * length ?ms) :: u32) @ b_hash b"
  have src: "sr_src r = hdr @ ?stat @ ?lits @ ?rest" using assms(1) by (simp add: Let_def hdr_def assms(9))
  have hl: "length hdr = 12 + hashLen (sr_hdr r)" by (simp add: hdr_def b(4))
  have w: "word_at (sr_src r) 0 = word_of_nat (length ?lits)" "word_at (sr_src r) 4 = word_of_nat ?n" "word_at (sr_src r) 8 = word_of_nat (16 * length ?ms)"
    unfolding src hdr_def by simp_all
  have u: "unat (word_of_nat (length ?lits) :: u32) = length ?lits" "unat (word_of_nat ?n :: u32) = ?n"
    "unat (word_of_nat (16 * length ?ms) :: u32) = 16 * length ?ms"
    using word_of_small(1) ll b(2,3) by blast+
  have small: "\<not> (word_of_nat ?n > maxBlock \<or> word_of_nat (length ?lits) > maxBlock \<or> word_of_nat (16 * length ?ms) > maxBlock)"
    using word_of_small(2) ll b(2,3) by blast
  have nz: "(word_of_nat ?n :: u32) \<noteq> 0" by (rule word_of_small(3) [OF b(2,1)])
  have "length (pool (sr_start r) ?n) = e - s" using assms(7,9) by simp
  from k_block_ok [OF assms(4,5) b(5) this assms(8)] obtain k where k:
    "k_block ?stat ?lits (pool (sr_start r) ?n) (sr_start r) (sr_ker r) = ret (slice T s ?n, k)"
    "ker_holds T e room k (next_pend e fs ?ms)" "\<forall>f \<in> set (next_pend e fs ?ms). f_src f < e" "k_base k = ?base"
    unfolding assms(2,3) by (auto simp: assms(9))
  have ne: "sr_src r \<noteq> []" "\<not> length (sr_src r) < 12 + hashLen (sr_hdr r)" using hl src by auto
  have dr: "drop (12 + hashLen (sr_hdr r)) (sr_src r) = ?stat @ ?lits @ ?rest" unfolding src hl [symmetric] by simp
  have st: "sr_start r + ucast (word_of_nat ?n :: u32) = word_of_nat e"
  proof -
    have "ucast (word_of_nat ?n :: u32) = (word_of_nat ?n :: u64)" using b(2) by (simp add: unsigned_of_nat small_take)
    then show ?thesis by (simp add: assms(2,9))
  qed
  have "srep_next pool r = (Block (slice T s ?n), r\<lparr>sr_src := ?rest, sr_ker := k, sr_start := word_of_nat e\<rparr>)"
    unfolding srep_next_def Let_def w u dr using ne small nz k(1) st by (simp add: ret_def)
  then show ?thesis using k(2-4) by blast
qed

lemma block_if:
  "(if c then (End, r1) else y) = (Block b, r2) \<longleftrightarrow> \<not> c \<and> y = (Block b, r2)"
  "(if c then (Fail f, r1) else y) = (Block b, r2) \<longleftrightarrow> \<not> c \<and> y = (Block b, r2)"
  "(if c then (if d then End else Fail f, r1) else y) = (Block b, r2) \<longleftrightarrow> \<not> c \<and> y = (Block b, r2)"
  by auto

lemma srep_next_src:
  assumes "srep_next pool r = (Block b, r')"
  shows "sr_src r \<noteq> [] \<and> length (sr_src r') \<le> length (sr_src r) - 12"
proof -
  define n where "n = drop (unat (word_at (sr_src r) 0)) (drop (unat (word_at (sr_src r) 8)) (drop (12 + hashLen (sr_hdr r)) (sr_src r)))"
  have k: "\<exists>k. r' = r2 k"
    if "(case k of None \<Rightarrow> (Fail SrepForever, r1) | Some (Inl Panic) \<Rightarrow> (Fail SrepPanic, r1) | Some (Inl (Error _)) \<Rightarrow> (Fail (SrepErr BrokenBlock), r1)
        | Some (Inr (out, k)) \<Rightarrow> (Block out, r2 k)) = (Block b, r')"
    for k :: "(bytes \<times> kernel) run" and r1 r2
    using that by (auto split: option.splits sum.splits fault.splits)
  have "sr_src r \<noteq> []" and "\<exists>k. r' = r\<lparr>sr_src := n, sr_ker := k, sr_start := sr_start r + ucast (word_at (sr_src r) 4)\<rparr>"
    using assms by (simp_all only: srep_next_def Let_def block_if simp_thms n_def [symmetric]) (elim conjE, erule k)
  then show ?thesis by (auto simp: n_def)
qed

interpretation srep: block_source "srep_next pool" "\<lambda>r. length (sr_src r)"
proof unfold_locales
  fix r b r'
  assume "srep_next pool r = (Block b, r')"
  from srep_next_src [OF this] show "length (sr_src r') < length (sr_src r)" by (cases "sr_src r") auto
qed

lemma srep_next_stop:
  assumes "stops (hashLen (sr_hdr r)) T (sr_src r)" "T \<noteq> [] \<longrightarrow> 0 < sr_start r"
  shows "\<exists>r'. srep_next pool r = (End, r')"
proof (cases "sr_src r = []")
  case False
  then have l: "\<not> length (sr_src r) < 12 + hashLen (sr_hdr r)" using assms(1) by (auto simp: stops_def)
  show ?thesis
  proof (cases "word_at (sr_src r) 0 = 0 \<and> word_at (sr_src r) 4 = 0")
    case False
    then have "T \<noteq> []" "word_at (sr_src r) 4 > maxBlock \<or> word_at (sr_src r) 0 > maxBlock \<or> word_at (sr_src r) 8 > maxBlock"
      using assms(1) \<open>sr_src r \<noteq> []\<close> by (auto simp: stops_def)
    then show ?thesis using False \<open>sr_src r \<noteq> []\<close> l assms(2) unfolding srep_next_def Let_def by simp
  qed (use False l in \<open>simp add: srep_next_def Let_def\<close>)
qed (simp add: srep_next_def)

lemma srep_drains:
  assumes "sr_src r = write_blocks T (baseLen (sr_hdr r)) s fs bs @ post" "sr_start r = word_of_nat s" "k_base (sr_ker r) = baseLen (sr_hdr r)"
    and "ker_holds T s room (sr_ker r) fs" "\<forall>f \<in> set fs. f_src f < s" "blocks_ok T (hashLen (sr_hdr r)) s fs bs" "s \<le> length T"
    and "\<forall>s n. length (pool s n) = n" "length T < 2 ^ 63" "stops (hashLen (sr_hdr r)) T post"
  shows "drains (srep_next pool) r (drop s T) Ended"
  using assms(1-7,10)
proof (induction bs arbitrary: r s fs)
  case Nil
  then have s: "s = length T" "sr_src r = post" by auto
  have "T \<noteq> [] \<longrightarrow> 0 < sr_start r" using s(1) Nil.prems(2) assms(9) by (simp add: word_less_nat_alt u64_small)
  from srep_next_stop [OF _ this] Nil.prems(8) s show ?case by (auto intro: drains_end)
next
  case (Cons b bs)
  let ?e = "s + b_size b" and ?fs = "next_pend (s + b_size b) fs (b_matches b)"
  from srep_next_block [OF Cons.prems(1-6) assms(8,9) refl] obtain k where
    nx: "srep_next pool r = (Block (slice T s (b_size b)),
      r\<lparr>sr_src := write_blocks T (baseLen (sr_hdr r)) ?e ?fs bs @ post, sr_ker := k, sr_start := word_of_nat ?e\<rparr>)"
    "ker_holds T ?e room k ?fs" "\<forall>f \<in> set ?fs. f_src f < ?e" "k_base k = baseLen (sr_hdr r)" by blast
  have ok: "blocks_ok T (hashLen (sr_hdr r)) ?e ?fs bs" "?e \<le> length T" using Cons.prems(6) by (auto simp: Let_def block_ok_def)
  let ?r = "r\<lparr>sr_src := write_blocks T (baseLen (sr_hdr r)) ?e ?fs bs @ post, sr_ker := k, sr_start := word_of_nat ?e\<rparr>"
  have "drains (srep_next pool) ?r (drop ?e T) Ended"
    by (rule Cons.IH) (use nx(2-4) ok Cons.prems(8) in simp_all)
  from drains_block [OF nx(1) this] show ?case
    using append_take_drop_id [of "b_size b" "drop s T"] by (simp add: slice_def add.commute)
qed

lemma parseHeader_write: "sh_format h = 3 \<Longrightarrow> parseHeader (write_srep h sd T bs @ post) = Inr (h, sd @ write_blocks T (baseLen h) 0 [] bs @ post)"
proof -
  assume f: "sh_format h = 3"
  define w :: u32 where "w = le_word [sh_format h, hashNum h, seed h, hashExtra h]"
  have p: "put_le 4 w = [sh_format h, hashNum h, seed h, hashExtra h]" unfolding w_def by (rule put_le_le_word) simp_all
  have d: "ucast w = sh_format h" "ucast (drop_bit 8 w) = hashNum h" "ucast (drop_bit 16 w) = seed h" "ucast (drop_bit 24 w) = hashExtra h"
    using p by (simp_all add: eval_nat_numeral drop_bit_drop_bit)
  have m: "(ucast (w AND 0xff) :: byte) = ucast w"
  proof (rule bit_word_eqI)
    fix n assume "n < LENGTH(8)"
    then show "bit (ucast (w AND 0xff) :: byte) n = bit (ucast w :: byte) n"
      using bit_mask_iff [of 8 n, where 'a = "32 word"] by (simp add: bit_simps mask_eq_exp_minus_1)
  qed
  define hd16 where "hd16 = put_le 4 (0x26351817 :: u32) @ put_le 4 (0x50455253 :: u32) @ put_le 4 w @ put_le 4 (baseLen h)"
  have s: "write_srep h sd T bs @ post = hd16 @ sd @ write_blocks T (baseLen h) 0 [] bs @ post" by (simp add: write_srep_def hd16_def p)
  have r: "readFull 16 (write_srep h sd T bs @ post) = Inr (hd16, sd @ write_blocks T (baseLen h) 0 [] bs @ post)"
    unfolding s by (rule readFull_eq_append) (simp add: hd16_def)
  have ws: "word_at hd16 0 = 0x26351817" "word_at hd16 4 = 0x50455253" "word_at hd16 8 = w" "word_at hd16 12 = baseLen h"
    by (simp_all add: hd16_def) (simp add: word_at_def)
  show ?thesis unfolding parseHeader_def r by (simp add: ws Let_def m d f)
qed

text \<open>
  C3: an SREP stream is read back. Whatever blocks a file is cut into and whatever earlier bytes its
  matches copy, into their own block or into later ones and overlapping the bytes they copy or not,
  the reader delivers the file in any read sizes and whatever its buffers held before, as long as
  the data that waits for later blocks fits into memory.
\<close>

theorem srep_roundtrip:
  assumes "sh_format h = 3" "length sd = unat (seed h)" "blocks_ok T (hashLen h) 0 [] bs" "stops (hashLen h) T post"
    and "\<forall>s n. length (pool s n) = n" "length T < 2 ^ 63" "\<forall>n \<in> set ns. 0 < n" "length T < length ns"
  shows "\<exists>r r' s'. srep_NewReader (write_srep h sd T bs @ post) = Inr r
    \<and> readMany (srep_next pool) ns newChunkbuf r = Some (T, Some ReadEOF, r', s')"
proof -
  define r where "r = \<lparr>sr_src = write_blocks T (baseLen h) 0 [] bs @ post, sr_hdr = h, sr_ker = newKernel (baseLen h), sr_start = 0\<rparr>"
  have new: "srep_NewReader (write_srep h sd T bs @ post) = Inr r"
    using assms(2) by (simp add: srep_NewReader_def parseHeader_write [OF assms(1)] assms(1) r_def)
  have "drains (srep_next pool) r (drop 0 T) Ended"
  proof (rule srep_drains [OF _ _ _ _ _ _ _ assms(5,6)])
    show "ker_holds T 0 room (sr_ker r) []" using new_kernel_holds by (simp add: r_def)
    show "blocks_ok T (hashLen (sr_hdr r)) 0 [] bs" "stops (hashLen (sr_hdr r)) T post" using assms(3,4) by (simp_all add: r_def)
  qed (simp_all add: r_def newKernel_def newKernelLimited_def)
  then have "drains (srep_next pool) r T Ended" by simp
  from srep.readMany_all [OF this assms(7,8)] new show ?thesis by auto
qed

text \<open>Nine bytes in two blocks; a match of the first copies into the second, one of the second into itself.\<close>

definition sample_header :: sheader where
  "sample_header = \<lparr>sh_format = 3, hashNum = 0, seed = 1, hashExtra = 0, baseLen = 2\<rparr>"

definition sample_srep :: "sblock list" where
  "sample_srep =
     [\<lparr>b_size = 3, b_matches = [\<lparr>f_src = 0, f_dest = 3, f_len = 3\<rparr>], b_hash = replicate 16 0\<rparr>,
      \<lparr>b_size = 6, b_matches = [\<lparr>f_src = 3, f_dest = 6, f_len = 3\<rparr>], b_hash = replicate 16 0\<rparr>]"

lemma sample_srep_ok: "blocks_ok [1, 2, 3, 1, 2, 3, 1, 2, 3] (hashLen sample_header) 0 [] sample_srep"
  by (simp add: sample_srep_def sample_header_def hashLen_def Let_def block_ok_def in_block_def next_pend_def near_def far_def
    f_ok_def slice_def chunks_of_def cost_def room_def)

lemma srep_roundtrip_witness:
  "\<exists>r r' s'. srep_NewReader (write_srep sample_header [7] [1, 2, 3, 1, 2, 3, 1, 2, 3] sample_srep @ []) = Inr r
    \<and> readMany (srep_next (\<lambda>s n. replicate n 9)) (replicate 10 4) newChunkbuf r
      = Some ([1, 2, 3, 1, 2, 3, 1, 2, 3], Some ReadEOF, r', s')"
  by (rule srep_roundtrip [OF _ _ sample_srep_ok])
    (simp_all add: sample_header_def stops_def)

end
