(* ===== verification/Torarith.thy ===== *)
theory Torarith
  imports Prelude
begin

text \<open>
  The arithmetic coder of Tornado (\<open>stream/tor/arith.go\<close>) and the input it reads (\<open>stream.go\<close>): a
  range decoder over bytes and a model that counts symbols and is rescaled when its counts are used
  up. The encoder is stated on natural numbers as the specification.
\<close>

section \<open>Input\<close>

text \<open>
  The buffer is a function on places; it begins with zeros. A chunk that is not filled keeps what the
  one before it left there.
\<close>

record byteIn =
  bi_src :: bytes
  bi_off :: nat
  bi_buf :: "nat \<Rightarrow> byte"
  bi_pos :: nat

definition maxElem :: nat where
  "maxElem = 8"

definition largeBuf :: nat where
  "largeBuf = 256 * 1024"

definition bi_pull :: "nat \<Rightarrow> nat \<Rightarrow> byteIn \<Rightarrow> byteIn" where
  "bi_pull dst n b =
     (let n = min n (length (bi_src b) - bi_off b)
      in b\<lparr>bi_buf := (\<lambda>i. if dst \<le> i \<and> i < dst + n then bi_src b ! (bi_off b + (i - dst)) else bi_buf b i),
           bi_off := bi_off b + n\<rparr>)"

definition newByteIn :: "bytes \<Rightarrow> byteIn" where
  "newByteIn src = bi_pull maxElem largeBuf \<lparr>bi_src = src, bi_off = 0, bi_buf = (\<lambda>_. 0), bi_pos = maxElem\<rparr>"

definition bi_fill :: "byteIn \<Rightarrow> byteIn" where
  "bi_fill b =
     (if bi_pos b < largeBuf then b
      else (bi_pull maxElem largeBuf
             (b\<lparr>bi_buf := (\<lambda>i. if i < maxElem then bi_buf b (largeBuf + i) else bi_buf b i)\<rparr>))
             \<lparr>bi_pos := bi_pos b - largeBuf\<rparr>)"

text \<open>\<open>n\<close> bytes from the buffer, the place after them.\<close>

definition bi_get :: "nat \<Rightarrow> byteIn \<Rightarrow> bytes \<times> byteIn" where
  "bi_get n b = (let b = bi_fill b in (map (\<lambda>i. bi_buf b (bi_pos b + i)) [0..<n], b\<lparr>bi_pos := bi_pos b + n\<rparr>))"

definition get8 :: "byteIn \<Rightarrow> u32 \<times> byteIn" where
  "get8 b = (let (p, b) = bi_get 1 b in (le_word p, b))"

section \<open>The range decoder\<close>

abbreviation rangeBits :: nat where "rangeBits \<equiv> 14"
abbreviation rangeTop :: u32 where "rangeTop \<equiv> 2 ^ 14"
abbreviation ariIndex :: nat where "ariIndex \<equiv> 2048"

record rangeDec =
  r_in :: byteIn
  r_rng :: u32
  r_buffer :: u32
  r_bad :: bool

definition shift_in :: "rangeDec \<Rightarrow> rangeDec" where
  "shift_in r = (let (v, i) = get8 (r_in r) in r\<lparr>r_in := i, r_buffer := push_bit 8 (r_buffer r) + v\<rparr>)"

definition newRangeDec :: "bytes \<Rightarrow> rangeDec" where
  "newRangeDec src = (shift_in ^^ 5) \<lparr>r_in = newByteIn src, r_rng = 0xffffffff, r_buffer = 0, r_bad = False\<rparr>"

definition getCount :: "nat \<Rightarrow> rangeDec \<Rightarrow> u32 option \<times> rangeDec" where
  "getCount n r =
     (if r_bad r \<or> n \<ge> 32 then (None, r\<lparr>r_bad := True\<rparr>)
      else let r = r\<lparr>r_rng := drop_bit n (r_rng r)\<rparr> in
        if r_rng r = 0 then (None, r\<lparr>r_bad := True\<rparr>)
        else let count = r_buffer r div r_rng r in
          if count \<ge> push_bit n 1 then (None, r\<lparr>r_bad := True\<rparr>) else (Some count, r))"

lemma word_unat_pos: "x \<noteq> 0 \<Longrightarrow> 0 < unat x" for x :: "'a::len word"
  by (simp add: unat_gt_0)

lemma shift_in_fields [simp]: "r_rng (shift_in r) = r_rng r" "r_bad (shift_in r) = r_bad r"
  by (simp_all add: shift_in_def split: prod.splits)

lemma unat_shift8: "x < 2 ^ 24 \<Longrightarrow> unat (push_bit 8 x) = 256 * unat x" for x :: u32
proof -
  assume "x < 2 ^ 24"
  then have "unat x < 2 ^ 24" by (simp add: word_less_nat_alt)
  then show ?thesis by (simp add: push_bit_eq_mult unat_word_ariths)
qed

text \<open>A range of 0 would be shifted for ever: then there is no result.\<close>

function normalize :: "rangeDec \<Rightarrow> rangeDec option" where
  "normalize r =
     (if r_rng r = 0 then None
      else if r_rng r < 2 ^ 24 then normalize (shift_in (r\<lparr>r_rng := push_bit 8 (r_rng r)\<rparr>))
      else Some r)"
  by pat_completeness auto
termination
  by (relation "measure (\<lambda>r. 2 ^ 24 - unat (r_rng r))")
    (auto simp: unat_shift8 word_less_nat_alt intro!: diff_less_mono2 dest: word_unat_pos)

declare normalize.simps [simp del]

definition rd_update :: "u32 \<Rightarrow> u32 \<Rightarrow> rangeDec \<Rightarrow> rangeDec option" where
  "rd_update cum cnt r = normalize (r\<lparr>r_buffer := r_buffer r - cum * r_rng r, r_rng := r_rng r * cnt\<rparr>)"

section \<open>The model\<close>

record counter =
  c_rem :: u32
  c_cnt :: "u32 list"
  c_cum :: "u32 list"
  c_live :: "u32 list"
  c_index :: "nat list"

text \<open>Each place of the index holds the first symbol whose range reaches it.\<close>

function index_fill :: "nat \<Rightarrow> u32 \<Rightarrow> nat \<Rightarrow> nat list \<Rightarrow> nat \<times> nat list" where
  "index_fill s hi ind index =
     (if ind < ariIndex \<and> hi \<ge> (8 * word_of_nat ind :: u32) then index_fill s hi (ind + 1) (index[ind := s]) else (ind, index))"
  by pat_completeness auto
termination by (relation "measure (\<lambda>(s, hi, ind, index). ariIndex - ind)") auto

declare index_fill.simps [simp del]

fun rescale_loop :: "nat \<Rightarrow> u32 \<Rightarrow> u32 \<Rightarrow> nat \<Rightarrow> nat list \<Rightarrow> u32 list \<Rightarrow> u32 list \<times> u32 list \<times> u32 \<times> nat list" where
  "rescale_loop s tot left ind index [] = ([], [], left, index)"
| "rescale_loop s tot left ind index (c # live) =
     (let sub = (if 1 < c \<and> c < 6 then 1 else c div 6);
          (ind, index) = index_fill s (tot + c - 1) ind index;
          (cums, lives, left, index) = rescale_loop (s + 1) (tot + c) (left - (c - sub)) ind index live
      in (tot # cums, (c - sub) # lives, left, index))"

definition rescale :: "counter \<Rightarrow> counter" where
  "rescale c =
     (let (cums, lives, left, index) = rescale_loop 0 0 rangeTop 0 (c_index c) (c_live c)
      in \<lparr>c_rem = left, c_cnt = c_live c, c_cum = cums, c_live = lives, c_index = index\<rparr>)"

definition newCounter :: "nat \<Rightarrow> counter" where
  "newCounter n =
     (let base = 2 ^ 14 div n; extra = 2 ^ 14 - base * n
      in rescale \<lparr>c_rem = 0, c_cnt = replicate n 0, c_cum = replicate n 0,
           c_live = map (\<lambda>s. word_of_nat base + (if s < extra then 1 else 0)) [0..<n], c_index = replicate ariIndex 0\<rparr>)"

definition c_inc :: "nat \<Rightarrow> counter \<Rightarrow> counter" where
  "c_inc s c =
     (let c = c\<lparr>c_live := (c_live c)[s := c_live c ! s + 1], c_rem := c_rem c - 1\<rparr>
      in if c_rem c = 0 then rescale c else c)"

function c_scan :: "counter \<Rightarrow> u32 \<Rightarrow> nat \<Rightarrow> nat" where
  "c_scan c count s =
     (if s < length (c_cnt c) \<and> c_cum c ! s + c_cnt c ! s - 1 < count then c_scan c count (s + 1) else s)"
  by pat_completeness auto
termination by (relation "measure (\<lambda>(c, count, s). length (c_cnt c) - s)") auto

declare c_scan.simps [simp del]

definition c_decode :: "counter \<Rightarrow> u32 \<Rightarrow> nat option" where
  "c_decode c count =
     (if count \<ge> rangeTop then None
      else let s = c_scan c count (c_index c ! unat (count div 8)) in if s < length (c_cnt c) then Some s else None)"

section \<open>The decoder\<close>

record arithDec =
  a_rd :: rangeDec
  a_c :: counter
  a_bad :: bool

definition newArithDec :: "bytes \<Rightarrow> nat \<Rightarrow> arithDec" where
  "newArithDec src n = \<lparr>a_rd = newRangeDec src, a_c = newCounter n, a_bad = False\<rparr>"

definition a_fail :: "arithDec \<Rightarrow> arithDec" where
  "a_fail a = a\<lparr>a_bad := True\<rparr>"

definition a_decode :: "arithDec \<Rightarrow> (u32 \<times> arithDec) option" where
  "a_decode a =
     (if a_bad a then Some (0, a)
      else case getCount rangeBits (a_rd a) of
        (None, rd) \<Rightarrow> Some (0, a_fail (a\<lparr>a_rd := rd\<rparr>))
      | (Some count, rd) \<Rightarrow>
          (case c_decode (a_c a) count of
             None \<Rightarrow> Some (0, a_fail (a\<lparr>a_rd := rd\<rparr>))
           | Some x \<Rightarrow> map_option (\<lambda>rd. (word_of_nat x, a\<lparr>a_rd := rd, a_c := c_inc x (a_c a)\<rparr>))
               (rd_update (c_cum (a_c a) ! x) (c_cnt (a_c a) ! x) rd)))"

definition a_rawbits :: "nat \<Rightarrow> arithDec \<Rightarrow> (u32 \<times> arithDec) option" where
  "a_rawbits n a =
     (case getCount n (a_rd a) of
        (None, rd) \<Rightarrow> Some (0, a_fail (a\<lparr>a_rd := rd\<rparr>))
      | (Some x, rd) \<Rightarrow> map_option (\<lambda>rd. (x, a\<lparr>a_rd := rd\<rparr>)) (rd_update x 1 rd))"

definition a_getbits :: "nat \<Rightarrow> arithDec \<Rightarrow> (u32 \<times> arithDec) option" where
  "a_getbits n a =
     (if a_bad a then Some (0, a)
      else if n \<le> 24 then a_rawbits n a
      else Option.bind (a_rawbits 15 a) (\<lambda>(x1, a).
        if a_bad a then Some (0, a)
        else map_option (\<lambda>(x2, a). (push_bit 15 x2 + x1, a)) (a_rawbits (n - 15) a)))"

section \<open>Reading in order\<close>

text \<open>The next byte of the input is byte \<open>k\<close>, and what has been fetched of it is in the buffer.\<close>

definition bi_inv :: "bytes \<Rightarrow> nat \<Rightarrow> byteIn \<Rightarrow> bool" where
  "bi_inv src k b \<longleftrightarrow> bi_src b = src \<and> bi_pos b \<le> largeBuf + maxElem
     \<and> (\<exists>c. k + maxElem = c * largeBuf + bi_pos b \<and> bi_off b = min (length src) ((c + 1) * largeBuf)
          \<and> (\<forall>i < maxElem + largeBuf. maxElem \<le> c * largeBuf + i \<longrightarrow> c * largeBuf + i < length src + maxElem \<longrightarrow>
               bi_buf b i = src ! (c * largeBuf + i - maxElem)))"

lemma bi_inv_new: "bi_inv src 0 (newByteIn src)"
  unfolding bi_inv_def by (intro conjI exI [of _ 0]) (auto simp: newByteIn_def bi_pull_def Let_def maxElem_def largeBuf_def)

lemma bi_inv_fill:
  assumes "bi_inv src k b"
  shows "bi_inv src k (bi_fill b) \<and> bi_pos (bi_fill b) < largeBuf + 1"
proof (cases "bi_pos b < largeBuf")
  case True
  then show ?thesis using assms by (simp add: bi_fill_def)
next
  case False
  obtain c where c: "bi_src b = src" "bi_pos b \<le> largeBuf + maxElem" "k + maxElem = c * largeBuf + bi_pos b" "bi_off b = min (length src) ((c + 1) * largeBuf)"
    "\<forall>i < maxElem + largeBuf. maxElem \<le> c * largeBuf + i \<longrightarrow> c * largeBuf + i < length src + maxElem \<longrightarrow> bi_buf b i = src ! (c * largeBuf + i - maxElem)"
    using assms unfolding bi_inv_def by blast
  have L: "maxElem < largeBuf" by (simp add: maxElem_def largeBuf_def)
  let ?b = "bi_fill b"
  have f: "bi_src ?b = src" "bi_pos ?b = bi_pos b - largeBuf" "bi_off ?b = min (length src) ((c + 2) * largeBuf)"
    using False c(1,4) by (auto simp: bi_fill_def bi_pull_def Let_def min_def)
  have buf: "bi_buf ?b i = src ! ((c + 1) * largeBuf + i - maxElem)"
    if i: "i < maxElem + largeBuf" "maxElem \<le> (c + 1) * largeBuf + i" "(c + 1) * largeBuf + i < length src + maxElem" for i
  proof (cases "i < maxElem")
    case True
    have "bi_buf ?b i = bi_buf b (largeBuf + i)" using True False by (simp add: bi_fill_def bi_pull_def Let_def)
    also have "\<dots> = src ! (c * largeBuf + (largeBuf + i) - maxElem)" using c(5) i True by (auto simp: algebra_simps)
    finally show ?thesis by (simp add: algebra_simps)
  next
    case ge: False
    have o: "bi_off b = (c + 1) * largeBuf" using i(3) ge c(4) by simp
    have "i - maxElem < length src - (c + 1) * largeBuf" "i - maxElem < largeBuf" using i ge by linarith+
    then have "bi_buf ?b i = src ! (bi_off b + (i - maxElem))"
      using False ge c(1) by (simp add: bi_fill_def bi_pull_def Let_def o) linarith
    then show ?thesis using ge by (simp add: o)
  qed
  have "bi_inv src k ?b"
    unfolding bi_inv_def using f buf c(2,3) False L by (intro conjI exI [of _ "c + 1"]) (auto simp: algebra_simps)
  then show ?thesis using f(2) c(2) L by simp
qed

lemma bi_get_inv:
  assumes "bi_inv src k b" "n \<le> maxElem" "bi_get n b = (p, b')"
  shows "bi_inv src (k + n) b' \<and> length p = n \<and> (\<forall>i < n. k + i < length src \<longrightarrow> p ! i = src ! (k + i))"
proof -
  note f = bi_inv_fill [OF assms(1)]
  obtain c where c: "bi_src (bi_fill b) = src" "k + maxElem = c * largeBuf + bi_pos (bi_fill b)"
    "bi_off (bi_fill b) = min (length src) ((c + 1) * largeBuf)"
    "\<forall>i < maxElem + largeBuf. maxElem \<le> c * largeBuf + i \<longrightarrow> c * largeBuf + i < length src + maxElem \<longrightarrow>
       bi_buf (bi_fill b) i = src ! (c * largeBuf + i - maxElem)"
    using f unfolding bi_inv_def by blast
  have r: "p = map (\<lambda>i. bi_buf (bi_fill b) (bi_pos (bi_fill b) + i)) [0..<n]" "b' = (bi_fill b)\<lparr>bi_pos := bi_pos (bi_fill b) + n\<rparr>"
    using assms(3) by (simp_all add: bi_get_def Let_def)
  have "p ! i = src ! (k + i)" if i: "i < n" "k + i < length src" for i
  proof -
    have "bi_buf (bi_fill b) (bi_pos (bi_fill b) + i) = src ! (c * largeBuf + (bi_pos (bi_fill b) + i) - maxElem)"
      using c(2,4) f i assms(2) by auto
    moreover have "c * largeBuf + (bi_pos (bi_fill b) + i) - maxElem = k + i" using c(2) by simp
    ultimately show ?thesis using i by (simp add: r)
  qed
  moreover have "bi_inv src (k + n) b'"
    unfolding bi_inv_def using c f assms(2) by (intro conjI exI [of _ c]) (auto simp: r)
  ultimately show ?thesis by (simp add: r)
qed

lemma get8_inv:
  assumes "bi_inv src k b" "get8 b = (v, b')"
  shows "bi_inv src (k + 1) b' \<and> (k < length src \<longrightarrow> v = ucast (src ! k))"
proof -
  obtain p where p: "bi_get 1 b = (p, b')" "v = le_word p" using assms(2) by (auto simp: get8_def split: prod.splits)
  from bi_get_inv [OF assms(1) _ p(1)] have i: "bi_inv src (k + 1) b'" "length p = 1" "k < length src \<longrightarrow> p ! 0 = src ! k"
    by (simp_all add: maxElem_def)
  then obtain x where "p = [x]" by (auto simp: length_Suc_conv)
  then show ?thesis using i p(2) by simp
qed

section \<open>The model keeps its tables\<close>

definition nsum :: "u32 list \<Rightarrow> nat" where
  "nsum xs = sum_list (map unat xs)"

lemma nsum_simps [simp]: "nsum [] = 0" "nsum (x # xs) = unat x + nsum xs" "nsum (xs @ ys) = nsum xs + nsum ys"
  by (simp_all add: nsum_def)

lemma nsum_take_mono: "i \<le> j \<Longrightarrow> nsum (take i xs) \<le> nsum (take j xs)"
proof -
  assume "i \<le> j"
  then have "take j xs = take i xs @ take (j - i) (drop i xs)" by (metis add_diff_inverse_nat le_Suc_ex not_less take_add)
  then show ?thesis by simp
qed

lemma nsum_take_Suc: "i < length xs \<Longrightarrow> nsum (take (Suc i) xs) = nsum (take i xs) + unat (xs ! i)"
  by (simp add: take_Suc_conv_app_nth)

lemma nsum_take_le: "nsum (take i xs) \<le> nsum xs"
  by (metis append_take_drop_id le_add1 nsum_simps(3))

lemma unat_add_small: "unat x + unat y < 2 ^ 32 \<Longrightarrow> unat (x + y) = unat x + unat y" for x y :: u32
  by (simp add: unat_word_ariths)

lemma unat_sub_le: "unat y \<le> unat x \<Longrightarrow> unat (x - y) = unat x - unat y" for x y :: u32
  by (simp add: unat_sub word_le_nat_alt)

lemma unat_pos: "x \<noteq> 0 \<Longrightarrow> 1 \<le> unat x" for x :: u32
  by (metis One_nat_def Suc_leI word_unat_pos)

text \<open>What a counter with \<open>n\<close> symbols keeps: both tables hold every symbol, the frequencies in use sum up
  to the range and the live ones with the remainder too, and the index never begins too late.\<close>

definition counter_ok :: "nat \<Rightarrow> counter \<Rightarrow> bool" where
  "counter_ok n c \<longleftrightarrow> length (c_cnt c) = n \<and> length (c_cum c) = n \<and> length (c_live c) = n \<and> length (c_index c) = ariIndex
     \<and> 0 \<notin> set (c_cnt c) \<and> 0 \<notin> set (c_live c) \<and> nsum (c_cnt c) = 2 ^ 14 \<and> (\<forall>i < n. unat (c_cum c ! i) = nsum (take i (c_cnt c)))
     \<and> nsum (c_live c) + unat (c_rem c) = 2 ^ 14 \<and> c_rem c \<noteq> 0
     \<and> (\<forall>j < ariIndex. c_index c ! j < n \<and> nsum (take (c_index c ! j) (c_cnt c)) \<le> 8 * j)"

lemma index_fill_keeps:
  assumes "index_fill s hi ind index = (ind', index')" "length index = ariIndex" "ind \<le> ariIndex"
  shows "ind \<le> ind' \<and> ind' \<le> ariIndex \<and> length index' = ariIndex \<and> (\<forall>j < ind. index' ! j = index ! j)
    \<and> (\<forall>j. ind \<le> j \<longrightarrow> j < ind' \<longrightarrow> index' ! j = s) \<and> (ind' < ariIndex \<longrightarrow> unat hi < 8 * ind')"
  using assms
proof (induction s hi ind index rule: index_fill.induct)
  case (1 s hi ind index)
  show ?case
  proof (cases "ind < ariIndex \<and> hi \<ge> (8 * word_of_nat ind :: u32)")
    case True
    then have "index_fill s hi (ind + 1) (index[ind := s]) = (ind', index')" using "1.prems"(1) by (simp add: index_fill.simps [of s hi ind])
    from "1.IH" [OF True this] True "1.prems"
    have a: "ind + 1 \<le> ind'" "ind' \<le> ariIndex" "length index' = ariIndex" "\<forall>j < ind + 1. index' ! j = index[ind := s] ! j"
      "\<forall>j. ind + 1 \<le> j \<longrightarrow> j < ind' \<longrightarrow> index' ! j = s" "ind' < ariIndex \<longrightarrow> unat hi < 8 * ind'" by auto
    have "index' ! j = s" if "ind \<le> j" "j < ind'" for j using a(4,5) that True "1.prems"(2) by (cases "j = ind") auto
    moreover have "index' ! j = index ! j" if "j < ind" for j using a(4) that by auto
    ultimately show ?thesis using a by auto
  next
    case False
    then have r: "ind' = ind" "index' = index" using "1.prems"(1) by (auto simp: index_fill.simps [of s hi ind])
    have "unat hi < 8 * ind" if "ind < ariIndex"
    proof -
      have "unat (8 * word_of_nat ind :: u32) = 8 * ind" using that by (simp add: unat_word_ariths unat_of_nat_small)
      then show ?thesis using False that by (simp add: word_le_nat_alt)
    qed
    then show ?thesis using r "1.prems" by auto
  qed
qed

text \<open>What is taken from a live count: never all of it, and something if it is not 1.\<close>

definition aged :: "u32 \<Rightarrow> u32" where
  "aged c = c - (if 1 < c \<and> c < 6 then 1 else c div 6)"

lemma unat_aged: "c \<noteq> 0 \<Longrightarrow> 1 \<le> unat (aged c) \<and> unat (aged c) \<le> unat c \<and> (1 < unat c \<longrightarrow> unat (aged c) < unat c)"
proof -
  assume "c \<noteq> 0"
  then have p: "1 \<le> unat c" by (rule unat_pos)
  have "unat (aged c) = unat c - (if 1 < unat c \<and> unat c < 6 then 1 else unat c div 6)"
    unfolding aged_def by (subst unat_sub_le) (auto simp: word_less_nat_alt unat_div)
  then show ?thesis using p by auto
qed

lemma rescale_loop_Cons: "rescale_loop s tot left ind index (c # live) =
     (let (ind, index) = index_fill s (tot + c - 1) ind index;
          (cums, lives, left, index) = rescale_loop (s + 1) (tot + c) (left - aged c) ind index live
      in (tot # cums, aged c # lives, left, index))"
  by (simp add: aged_def Let_def split: prod.splits)

declare rescale_loop.simps(2) [simp del]

lemma rescale_loop_keeps:
  assumes "rescale_loop s tot left ind index live = (cums, lives, left', index')" "length index = ariIndex" "ind \<le> ariIndex"
    "0 \<notin> set live" "unat tot + nsum live = 2 ^ 14" "nsum live \<le> unat left" "ind < ariIndex \<longrightarrow> unat tot \<le> 8 * ind"
  shows "length cums = length live \<and> (\<forall>i < length live. unat (cums ! i) = unat tot + nsum (take i live))
    \<and> lives = map aged live \<and> unat left' + nsum lives = unat left \<and> length index' = ariIndex \<and> (\<forall>j < ind. index' ! j = index ! j)
    \<and> (\<forall>j. ind \<le> j \<longrightarrow> j < ariIndex \<longrightarrow> s \<le> index' ! j \<and> index' ! j < s + length live \<and> unat tot + nsum (take (index' ! j - s) live) \<le> 8 * j)"
  using assms
proof (induction live arbitrary: s tot left ind index cums lives left' index')
  case Nil
  then have "ind = ariIndex" by auto
  then show ?case using Nil by auto
next
  case (Cons c live)
  obtain ind1 index1 where f: "index_fill s (tot + c - 1) ind index = (ind1, index1)" by force
  obtain cums1 lives1 where r: "rescale_loop (s + 1) (tot + c) (left - aged c) ind1 index1 live = (cums1, lives1, left', index')"
    "cums = tot # cums1" "lives = aged c # lives1"
    using Cons.prems(1) by (auto simp: rescale_loop_Cons f split: prod.splits)
  note i = index_fill_keeps [OF f Cons.prems(2,3)]
  have c: "c \<noteq> 0" "0 \<notin> set live" using Cons.prems(4) by auto
  note a = unat_aged [OF c(1)]
  have t: "unat (tot + c) = unat tot + unat c" using Cons.prems(5) by (intro unat_add_small) simp
  have hi: "unat (tot + c - 1) = unat tot + unat c - 1" using a t by (subst unat_sub_le) simp_all
  have l: "unat (left - aged c) = unat left - unat (aged c)" using a Cons.prems(6) by (intro unat_sub_le) simp
  have "length cums1 = length live \<and> (\<forall>i < length live. unat (cums1 ! i) = unat (tot + c) + nsum (take i live))
    \<and> lives1 = map aged live \<and> unat left' + nsum lives1 = unat (left - aged c) \<and> length index' = ariIndex \<and> (\<forall>j < ind1. index' ! j = index1 ! j)
    \<and> (\<forall>j. ind1 \<le> j \<longrightarrow> j < ariIndex \<longrightarrow> s + 1 \<le> index' ! j \<and> index' ! j < s + 1 + length live \<and> unat (tot + c) + nsum (take (index' ! j - (s + 1)) live) \<le> 8 * j)"
    using Cons.prems(5,6) i c a by (intro Cons.IH [OF r(1)]) (auto simp: t l hi)
  then have h: "length cums1 = length live" "\<forall>i < length live. unat (cums1 ! i) = unat (tot + c) + nsum (take i live)"
    "lives1 = map aged live" "unat left' + nsum lives1 = unat (left - aged c)" "length index' = ariIndex" "\<forall>j < ind1. index' ! j = index1 ! j"
    "\<forall>j. ind1 \<le> j \<longrightarrow> j < ariIndex \<longrightarrow> s + 1 \<le> index' ! j \<and> index' ! j < s + 1 + length live \<and> unat (tot + c) + nsum (take (index' ! j - (s + 1)) live) \<le> 8 * j"
    by blast+
  have 1: "unat (cums ! i) = unat tot + nsum (take i (c # live))" if "i < length (c # live)" for i
    using h(2) that t by (cases i) (auto simp: r(2))
  have 2: "s \<le> index' ! j \<and> index' ! j < s + length (c # live) \<and> unat tot + nsum (take (index' ! j - s) (c # live)) \<le> 8 * j"
    if j: "ind \<le> j" "j < ariIndex" for j
  proof (cases "j < ind1")
    case True
    then have "index' ! j = s" using h(6) i j by auto
    then show ?thesis using Cons.prems(7) j by simp
  next
    case False
    then have q: "s + 1 \<le> index' ! j" "index' ! j < s + 1 + length live" "unat (tot + c) + nsum (take (index' ! j - (s + 1)) live) \<le> 8 * j"
      using h(7) j by auto
    have "index' ! j - s = Suc (index' ! j - (s + 1))" using q(1) by simp
    then have "nsum (take (index' ! j - s) (c # live)) = unat c + nsum (take (index' ! j - (s + 1)) live)" by simp
    then show ?thesis using q t by simp
  qed
  have "unat left' + nsum lives = unat left" using h(4) l a Cons.prems(6) unfolding r(3) nsum_simps by linarith
  moreover have "index' ! j = index ! j" if "j < ind" for j using i h(6) that by auto
  moreover have "length cums = length (c # live)" "lives = map aged (c # live)" by (simp_all add: r h(1,3))
  ultimately show ?case using 1 2 h(5) by blast
qed

lemma aged_less: "0 \<notin> set live \<Longrightarrow> length live < nsum live \<Longrightarrow> nsum (map aged live) < nsum live"
proof (induction live)
  case (Cons c live)
  then have c: "c \<noteq> 0" "0 \<notin> set live" by auto
  note a = unat_aged [OF c(1)]
  have le: "nsum (map aged live) \<le> nsum live" using c(2) unat_aged by (induction live) (auto intro!: add_mono)
  show ?case
  proof (cases "1 < unat c")
    case False
    then have "unat c = 1" using unat_pos [OF c(1)] by simp
    then show ?thesis using Cons c a by auto
  qed (use a le in auto)
qed simp

lemma rescale_ok:
  assumes "length (c_live c) = n" "length (c_index c) = ariIndex" "0 \<notin> set (c_live c)" "nsum (c_live c) = 2 ^ 14" "n < 2 ^ 14"
  shows "counter_ok n (rescale c)"
proof -
  obtain cums lives left index where r: "rescale_loop 0 0 rangeTop 0 (c_index c) (c_live c) = (cums, lives, left, index)"
    by (metis prod_cases4)
  have l: "length cums = length (c_live c)" "\<forall>i < length (c_live c). unat (cums ! i) = nsum (take i (c_live c))"
    "lives = map aged (c_live c)" "unat left + nsum lives = 2 ^ 14" "length index = ariIndex"
    "\<forall>j < ariIndex. index ! j < length (c_live c) \<and> nsum (take (index ! j) (c_live c)) \<le> 8 * j"
    using rescale_loop_keeps [OF r assms(2) _ assms(3)] assms(4) by auto
  have z: "0 \<notin> set lives"
  proof
    assume "0 \<in> set lives"
    then obtain x where "x \<in> set (c_live c)" "aged x = 0" by (auto simp: l(3))
    moreover from this have "x \<noteq> 0" using assms(3) by auto
    ultimately show False using unat_aged [of x] by simp
  qed
  have "nsum lives < 2 ^ 14" using aged_less [OF assms(3)] assms(1,4,5) by (simp add: l(3))
  then have "left \<noteq> 0" using l(4) by auto
  moreover have "length lives = n" by (simp add: l(3) assms(1))
  moreover have "rescale c = \<lparr>c_rem = left, c_cnt = c_live c, c_cum = cums, c_live = lives, c_index = index\<rparr>"
    unfolding rescale_def r by simp
  ultimately show ?thesis using l z assms by (simp add: counter_ok_def)
qed

lemma unat_of_small: "k \<le> 2 ^ 14 \<Longrightarrow> unat (word_of_nat k :: u32) = k"
  by (rule unat_of_nat_small) simp

lemma newCounter_ok:
  assumes "0 < n" "n < 2 ^ 14"
  shows "counter_ok n (newCounter n)"
proof -
  define b e where "b = (2 ^ 14 div n :: nat)" and "e = 2 ^ 14 - b * n"
  let ?f = "\<lambda>s. word_of_nat b + (if s < e then 1 else 0) :: u32"
  have b: "1 \<le> b" "b * n \<le> 2 ^ 14" using assms by (simp_all add: b_def Suc_le_eq div_greater_zero_iff less_imp_le)
  have e: "e < n" using assms(1) by (simp add: e_def b_def minus_div_mult_eq_mod)
  have b14: "b \<le> 2 ^ 14" unfolding b_def by (rule div_le_dividend)
  have f: "unat (?f s) = b + (if s < e then 1 else 0)" for s
  proof -
    have w: "unat (word_of_nat b :: u32) = b" by (rule unat_of_small [OF b14])
    then show ?thesis using b14 by (subst unat_add_small) auto
  qed
  have "nsum (map ?f [0..<m]) = b * m + min m e" for m
  proof (induction m)
    case (Suc m)
    then show ?case using f [of m] by (cases "m < e") simp_all
  qed simp
  then have "nsum (map ?f [0..<n]) = b * n + e" using e by simp
  then have s: "nsum (map ?f [0..<n]) = 2 ^ 14" using b(2) by (simp add: e_def)
  have "?f s \<noteq> 0" for s using f [of s] b(1) by (metis add_is_0 not_one_le_zero unat_0)
  then have z: "0 \<notin> set (map ?f [0..<n])" by auto
  have c: "newCounter n = rescale \<lparr>c_rem = 0, c_cnt = replicate n 0, c_cum = replicate n 0, c_live = map ?f [0..<n], c_index = replicate ariIndex 0\<rparr>"
    unfolding newCounter_def b_def e_def Let_def by simp
  show ?thesis unfolding c by (rule rescale_ok) (use s z assms(2) in simp_all)
qed

lemma c_inc_ok:
  assumes "counter_ok n c" "s < n" "n < 2 ^ 14"
  shows "counter_ok n (c_inc s c)"
proof -
  have o: "length (c_live c) = n" "nsum (c_live c) + unat (c_rem c) = 2 ^ 14" "c_rem c \<noteq> 0" "length (c_index c) = ariIndex" "0 \<notin> set (c_live c)"
    using assms(1) by (simp_all add: counter_ok_def)
  let ?l = "(c_live c)[s := c_live c ! s + 1]"
  have sp: "nsum (c_live c) = nsum (take s (c_live c)) + unat (c_live c ! s) + nsum (drop (Suc s) (c_live c))"
    by (metis assms(2) o(1) id_take_nth_drop nsum_simps(2,3) add.assoc)
  have "unat (c_live c ! s + 1) = unat (c_live c ! s) + 1" using sp o(2) by (subst unat_add_small) simp_all
  moreover have "?l = take s (c_live c) @ (c_live c ! s + 1) # drop (Suc s) (c_live c)" by (simp add: assms(2) o(1) upd_conv_take_nth_drop)
  ultimately have n: "nsum ?l = nsum (c_live c) + 1" using sp by simp
  have "c_live c ! s + 1 \<noteq> 0" using \<open>unat (c_live c ! s + 1) = _\<close> by (metis add_eq_0_iff_both_eq_0 one_neq_zero unat_0)
  then have z: "0 \<notin> set ?l" using o(5) set_update_subset_insert [of "c_live c" s "c_live c ! s + 1"] by auto
  have r: "unat (c_rem c - 1) = unat (c_rem c) - 1" using unat_pos [OF o(3)] by (subst unat_sub_le) simp_all
  show ?thesis
  proof (cases "c_rem c - 1 = 0")
    case True
    then have "nsum ?l = 2 ^ 14" using r n o(2) unat_pos [OF o(3)] by simp
    then have "counter_ok n (rescale (c\<lparr>c_live := ?l, c_rem := c_rem c - 1\<rparr>))"
      using z o assms(3) by (intro rescale_ok) simp_all
    then show ?thesis using True by (simp add: c_inc_def)
  next
    case False
    then have "nsum ?l + unat (c_rem c - 1) = 2 ^ 14" using r n o(2) unat_pos [OF o(3)] by simp
    then show ?thesis using False z assms(1) by (simp add: c_inc_def counter_ok_def)
  qed
qed

lemma c_scan_finds:
  assumes "counter_ok n c" "unat count < 2 ^ 14" "s \<le> n" "nsum (take s (c_cnt c)) \<le> unat count"
  shows "let s' = c_scan c count s in s' < n \<and> nsum (take s' (c_cnt c)) \<le> unat count \<and> unat count < nsum (take (Suc s') (c_cnt c))"
  using assms
proof (induction c count s rule: c_scan.induct)
  case (1 c count s)
  have o: "length (c_cnt c) = n" "nsum (c_cnt c) = 2 ^ 14" "0 \<notin> set (c_cnt c)" "\<forall>i < n. unat (c_cum c ! i) = nsum (take i (c_cnt c))"
    using "1.prems"(1) by (simp_all add: counter_ok_def)
  have s: "s < n" using "1.prems"(2-4) o(1,2) by (cases "s = n") auto
  have c0: "1 \<le> unat (c_cnt c ! s)" using s o(1,3) unat_pos nth_mem by metis
  have t: "nsum (take (Suc s) (c_cnt c)) = unat (c_cum c ! s) + unat (c_cnt c ! s)" using s o(1,4) by (simp add: nsum_take_Suc)
  have le: "nsum (take (Suc s) (c_cnt c)) \<le> 2 ^ 14" using nsum_take_le [of "Suc s" "c_cnt c"] o(2) by simp
  have "unat (c_cum c ! s + c_cnt c ! s) = unat (c_cum c ! s) + unat (c_cnt c ! s)" using t le by (intro unat_add_small) simp
  then have hi: "unat (c_cum c ! s + c_cnt c ! s - 1) = nsum (take (Suc s) (c_cnt c)) - 1" using c0 t by (subst unat_sub_le) simp_all
  show ?case
  proof (cases "c_cum c ! s + c_cnt c ! s - 1 < count")
    case True
    then have "nsum (take (s + 1) (c_cnt c)) \<le> unat count" using hi t c0 by (simp add: word_less_nat_alt)
    from "1.IH" [OF _ "1.prems"(1,2) _ this] True s o(1) show ?thesis by (subst c_scan.simps) simp
  next
    case False
    then have "unat count < nsum (take (Suc s) (c_cnt c))" using hi t c0 by (simp add: word_less_nat_alt not_less word_le_nat_alt)
    then show ?thesis using False s "1.prems"(4) by (simp add: c_scan.simps Let_def)
  qed
qed

text \<open>A count is decoded to the one symbol whose range it is in.\<close>

lemma c_decode_finds:
  assumes "counter_ok n c" "s < n" "unat (c_cum c ! s) \<le> unat count" "unat count < unat (c_cum c ! s) + unat (c_cnt c ! s)"
  shows "c_decode c count = Some s"
proof -
  have o: "length (c_cnt c) = n" "nsum (c_cnt c) = 2 ^ 14" "unat (c_cum c ! s) = nsum (take s (c_cnt c))"
    "\<forall>j < ariIndex. c_index c ! j < n \<and> nsum (take (c_index c ! j) (c_cnt c)) \<le> 8 * j"
    using assms(1,2) by (simp_all add: counter_ok_def)
  have s: "nsum (take s (c_cnt c)) \<le> unat count" "unat count < nsum (take (Suc s) (c_cnt c))"
    using assms o(1,3) by (simp_all add: nsum_take_Suc)
  have lt: "unat count < 2 ^ 14" using s(2) nsum_take_le [of "Suc s" "c_cnt c"] o(2) by simp
  have j: "unat (count div 8) = unat count div 8" by (simp add: unat_div)
  let ?j = "unat (count div 8)"
  have "?j < ariIndex" using lt j by simp
  then have i: "c_index c ! ?j < n" "nsum (take (c_index c ! ?j) (c_cnt c)) \<le> unat count" using o(4) j by (auto intro: le_trans)
  define s' where "s' = c_scan c count (c_index c ! ?j)"
  have f: "s' < n" "nsum (take s' (c_cnt c)) \<le> unat count" "unat count < nsum (take (Suc s') (c_cnt c))"
    using c_scan_finds [OF assms(1) lt less_imp_le [OF i(1)] i(2)] by (simp_all add: s'_def Let_def)
  have "s' = s"
  proof (rule ccontr)
    assume "s' \<noteq> s"
    then have "Suc s' \<le> s \<or> Suc s \<le> s'" by linarith
    then show False using nsum_take_mono [of "Suc s'" s "c_cnt c"] nsum_take_mono [of "Suc s" s' "c_cnt c"] s f by auto
  qed
  moreover have "\<not> rangeTop \<le> count" using lt by (simp add: word_le_nat_alt)
  ultimately show ?thesis using assms(2) o(1) by (simp add: c_decode_def Let_def s'_def [symmetric])
qed

section \<open>The encoder\<close>

text \<open>
  An encoder that cuts its interval exactly, on numbers of any size: \<open>low\<close>, \<open>range\<close> and the bytes
  they are scaled to. It starts with five bytes, as the decoder does. It is the specification.
\<close>

type_synonym ivl = "nat \<times> nat \<times> nat"

function renorm :: "ivl \<Rightarrow> ivl" where
  "renorm (low, rng, k) = (if rng = 0 \<or> 2 ^ 24 \<le> rng then (low, rng, k) else renorm (256 * low, 256 * rng, k + 1))"
  by pat_completeness auto
termination by (relation "measure (\<lambda>(low, rng, k). 2 ^ 24 - rng)") auto

declare renorm.simps [simp del]

definition narrow :: "nat \<Rightarrow> nat \<Rightarrow> nat \<Rightarrow> ivl \<Rightarrow> ivl" where
  "narrow bits cum cnt = (\<lambda>(low, rng, k). let r = rng div 2 ^ bits in renorm (low + cum * r, r * cnt, k))"

text \<open>Symbols go through the model, raw bits do not; more than 24 of them go in two parts, the low one first.\<close>

datatype item = Sym nat | Raw nat nat

definition enc_raw :: "nat \<Rightarrow> nat \<Rightarrow> ivl \<Rightarrow> ivl" where
  "enc_raw n v i = (if n \<le> 24 then narrow n v 1 i else narrow (n - 15) (v div 2 ^ 15) 1 (narrow 15 (v mod 2 ^ 15) 1 i))"

fun enc_items :: "counter \<Rightarrow> item list \<Rightarrow> ivl \<Rightarrow> ivl" where
  "enc_items c [] i = i"
| "enc_items c (Sym s # xs) i = enc_items (c_inc s c) xs (narrow rangeBits (unat (c_cum c ! s)) (unat (c_cnt c ! s)) i)"
| "enc_items c (Raw n v # xs) i = enc_items c xs (enc_raw n v i)"

definition be_bytes :: "nat \<Rightarrow> nat \<Rightarrow> bytes" where
  "be_bytes n v = map (\<lambda>i. word_of_nat (v div 256 ^ (n - 1 - i))) [0..<n]"

definition arith_encode :: "nat \<Rightarrow> item list \<Rightarrow> bytes" where
  "arith_encode n xs = (let (low, rng, k) = enc_items (newCounter n) xs (0, 2 ^ 32 - 1, 5) in be_bytes k low)"

fun item_ok :: "nat \<Rightarrow> item \<Rightarrow> bool" where
  "item_ok n (Sym s) = (s < n)"
| "item_ok n (Raw b v) = (b \<le> 32 \<and> v < 2 ^ b)"

text \<open>Asking the decoder for what was encoded: what it returns for each.\<close>

fun ask :: "item \<Rightarrow> arithDec \<Rightarrow> (u32 \<times> arithDec) option" where
  "ask (Sym s) = a_decode"
| "ask (Raw b v) = a_getbits b"

fun answer :: "item \<Rightarrow> u32" where
  "answer (Sym s) = word_of_nat s"
| "answer (Raw b v) = word_of_nat v"

fun ask_all :: "item list \<Rightarrow> arithDec \<Rightarrow> (u32 list \<times> arithDec) option" where
  "ask_all [] a = Some ([], a)"
| "ask_all (x # xs) a = Option.bind (ask x a) (\<lambda>(v, a). Option.bind (ask_all xs a) (\<lambda>(vs, a). Some (v # vs, a)))"

text \<open>What comes later stays inside the interval.\<close>

definition within :: "ivl \<Rightarrow> ivl \<Rightarrow> bool" where
  "within = (\<lambda>(l', r', k') (l, r, k). k \<le> k' \<and> 0 < r' \<and> l * 256 ^ (k' - k) \<le> l' \<and> l' + r' \<le> (l + r) * 256 ^ (k' - k))"

lemma within_trans: "within a b \<Longrightarrow> within b c \<Longrightarrow> within a c"
proof -
  assume w: "within a b" "within b c"
  obtain l1 r1 k1 l2 r2 k2 l3 r3 k3 where [simp]: "a = (l1, r1, k1)" "b = (l2, r2, k2)" "c = (l3, r3, k3)" by (metis prod_cases3)
  have k: "k3 \<le> k2" "k2 \<le> k1" and p: "(256 :: nat) ^ (k1 - k3) = 256 ^ (k2 - k3) * 256 ^ (k1 - k2)"
    using w by (simp_all add: within_def flip: power_add)
  have "l3 * 256 ^ (k2 - k3) * 256 ^ (k1 - k2) \<le> l2 * 256 ^ (k1 - k2)" using w(2) by (intro mult_right_mono) (simp_all add: within_def)
  also have "\<dots> \<le> l1" using w(1) by (simp add: within_def)
  finally have 1: "l3 * 256 ^ (k1 - k3) \<le> l1" by (simp add: p mult.assoc)
  have "l1 + r1 \<le> (l2 + r2) * 256 ^ (k1 - k2)" using w(1) by (simp add: within_def)
  also have "\<dots> \<le> (l3 + r3) * 256 ^ (k2 - k3) * 256 ^ (k1 - k2)" using w(2) by (intro mult_right_mono) (simp_all add: within_def)
  finally have "l1 + r1 \<le> (l3 + r3) * 256 ^ (k1 - k3)" by (simp add: p mult.assoc)
  then show ?thesis using 1 w(1) k by (simp add: within_def)
qed

lemma within_refl: "0 < r \<Longrightarrow> within (l, r, k) (l, r, k)"
  by (simp add: within_def)

lemma renorm_within: "0 < r \<Longrightarrow> r < 2 ^ 32 \<Longrightarrow> renorm (l, r, k) = (l', r', k') \<Longrightarrow> within (l', r', k') (l, r, k) \<and> 2 ^ 24 \<le> r' \<and> r' < 2 ^ 32"
proof (induction "(l, r, k)" arbitrary: l r k rule: renorm.induct)
  case (1 l r k)
  show ?case
  proof (cases "2 ^ 24 \<le> r")
    case True
    then show ?thesis using "1.prems" by (simp add: renorm.simps [of l] within_refl)
  next
    case False
    then have c: "\<not> (r = 0 \<or> 2 ^ 24 \<le> r)" using "1.prems" by simp
    then have "renorm (256 * l, 256 * r, k + 1) = (l', r', k')" using "1.prems"(3) by (simp add: renorm.simps [of l])
    from "1.hyps" [OF c _ _ this] c have w: "within (l', r', k') (256 * l, 256 * r, k + 1)" "2 ^ 24 \<le> r'" "r' < 2 ^ 32" by auto
    have "within (256 * l, 256 * r, k + 1) (l, r, k)" using c by (simp add: within_def)
    then show ?thesis using within_trans [OF w(1)] w by simp
  qed
qed

lemma narrow_within:
  assumes "2 ^ 24 \<le> rng" "rng < 2 ^ 32" "bits \<le> 24" "0 < cnt" "cum + cnt \<le> 2 ^ bits" "narrow bits cum cnt (low, rng, k) = (l', r', k')"
  shows "within (l', r', k') (low + cum * (rng div 2 ^ bits), rng div 2 ^ bits * cnt, k) \<and> within (l', r', k') (low, rng, k) \<and> 2 ^ 24 \<le> r' \<and> r' < 2 ^ 32"
proof -
  let ?r = "rng div 2 ^ bits"
  have "(2 :: nat) ^ bits \<le> 2 ^ 24" using assms(3) by (rule power_increasing) simp
  then have r: "0 < ?r" using assms(1) by (simp add: div_greater_zero_iff)
  have "cum * ?r + ?r * cnt = ?r * (cum + cnt)" by (simp add: algebra_simps)
  also have "\<dots> \<le> ?r * 2 ^ bits" using assms(5) by (rule mult_left_mono) simp
  also have "\<dots> \<le> rng" by simp
  finally have le: "cum * ?r + ?r * cnt \<le> rng" .
  have "renorm (low + cum * ?r, ?r * cnt, k) = (l', r', k')" using assms(6) by (simp add: narrow_def Let_def)
  from renorm_within [OF _ _ this] r assms(2,4) le
  have w: "within (l', r', k') (low + cum * ?r, ?r * cnt, k)" "2 ^ 24 \<le> r'" "r' < 2 ^ 32" by auto
  have "within (low + cum * ?r, ?r * cnt, k) (low, rng, k)" using r assms(4) le by (simp add: within_def)
  then show ?thesis using w within_trans by blast
qed

section \<open>The decoder follows the encoder\<close>

definition be_nat :: "bytes \<Rightarrow> nat" where
  "be_nat bs = le_nat (rev bs)"

lemma be_nat_snoc: "be_nat (bs @ [b]) = 256 * be_nat bs + unat b"
  by (simp add: be_nat_def)

lemma be_nat_bytes: "k \<le> n \<Longrightarrow> v < 256 ^ n \<Longrightarrow> be_nat (take k (be_bytes n v)) = v div 256 ^ (n - k)"
proof (induction k)
  case (Suc k)
  have "take (Suc k) (be_bytes n v) = take k (be_bytes n v) @ [word_of_nat (v div 256 ^ (n - 1 - k))]"
    using Suc.prems(1) by (simp add: be_bytes_def take_Suc_conv_app_nth)
  moreover have "unat (word_of_nat (v div 256 ^ (n - 1 - k)) :: byte) = v div 256 ^ (n - 1 - k) mod 256" by (simp add: unat_of_nat)
  moreover have "n - k = Suc (n - 1 - k)" using Suc.prems(1) by simp
  then have "v div 256 ^ (n - k) = v div 256 ^ (n - 1 - k) div 256" by (simp only: power_Suc2 div_mult2_eq)
  ultimately show ?case using Suc by (simp add: be_nat_snoc)
qed (simp add: be_nat_def)

text \<open>The decoder holds the interval of the encoder: its buffer is the distance of the code from \<open>low\<close>.\<close>

definition follows :: "bytes \<Rightarrow> ivl \<Rightarrow> rangeDec \<Rightarrow> bool" where
  "follows src = (\<lambda>(low, rng, k) rd. bi_inv src k (r_in rd) \<and> k \<le> length src \<and> \<not> r_bad rd \<and> unat (r_rng rd) = rng
     \<and> low \<le> be_nat (take k src) \<and> be_nat (take k src) < low + rng \<and> unat (r_buffer rd) = be_nat (take k src) - low)"

text \<open>The code that is read leads to the interval in which the encoder ends.\<close>

definition aims :: "bytes \<Rightarrow> ivl \<Rightarrow> bool" where
  "aims src = (\<lambda>(low, rng, k). k \<le> length src \<and> low \<le> be_nat (take k src) \<and> be_nat (take k src) < low + rng)"

lemma aims_within:
  assumes "\<exists>rest. src = be_bytes kf lf @ rest" "lf < 256 ^ kf" "within (lf, rf, kf) (l, r, k)"
  shows "aims src (l, r, k)"
proof -
  have k: "k \<le> kf" "l * 256 ^ (kf - k) \<le> lf" "lf < (l + r) * 256 ^ (kf - k)" using assms(3) by (auto simp: within_def)
  have len: "length (be_bytes kf lf) = kf" by (simp add: be_bytes_def)
  then have "take k src = take k (be_bytes kf lf)" "k \<le> length src" using assms(1) k(1) by auto
  then have v: "be_nat (take k src) = lf div 256 ^ (kf - k)" using be_nat_bytes [OF k(1) assms(2)] by simp
  have "l \<le> lf div 256 ^ (kf - k)" using k(2) by (simp add: less_eq_div_iff_mult_less_eq)
  moreover have "lf div 256 ^ (kf - k) < l + r" using k(3) by (simp add: less_mult_imp_div_less)
  ultimately show ?thesis using v \<open>k \<le> length src\<close> by (simp add: aims_def)
qed

lemma normalize_follows:
  assumes "follows src (l, r, k) rd" "0 < r" "r < 2 ^ 32" "aims src (renorm (l, r, k))"
  shows "\<exists>rd'. normalize rd = Some rd' \<and> follows src (renorm (l, r, k)) rd'"
  using assms
proof (induction "(l, r, k)" arbitrary: l r k rd rule: renorm.induct)
  case (1 l r k)
  have f: "bi_inv src k (r_in rd)" "k \<le> length src" "\<not> r_bad rd" "unat (r_rng rd) = r" "l \<le> be_nat (take k src)"
    "be_nat (take k src) < l + r" "unat (r_buffer rd) = be_nat (take k src) - l" using "1.prems"(1) by (simp_all add: follows_def)
  have nz: "r_rng rd \<noteq> 0" using f(4) "1.prems"(2) by auto
  show ?case
  proof (cases "2 ^ 24 \<le> r")
    case True
    then have "\<not> r_rng rd < 2 ^ 24" using f(4) by (simp add: word_less_nat_alt)
    then show ?thesis using True nz "1.prems"(1) by (simp add: renorm.simps [of l] normalize.simps [of rd])
  next
    case False
    then have c: "\<not> (r = 0 \<or> 2 ^ 24 \<le> r)" using "1.prems" by simp
    have rn: "renorm (l, r, k) = renorm (256 * l, 256 * r, k + 1)" using c by (simp add: renorm.simps [of l r])
    let ?rd = "shift_in (rd\<lparr>r_rng := push_bit 8 (r_rng rd)\<rparr>)"
    have small: "r_rng rd < 2 ^ 24" using f(4) False by (simp add: word_less_nat_alt)
    have n: "normalize rd = normalize ?rd" using nz small by (simp add: normalize.simps [of rd])
    obtain l' r' k' where q: "renorm (256 * l, 256 * r, k + 1) = (l', r', k')" by (metis prod_cases3)
    have "within (l', r', k') (256 * l, 256 * r, k + 1)" using renorm_within [OF _ _ q] c by simp
    then have k1: "k + 1 \<le> length src" using "1.prems"(4) rn q by (auto simp: within_def aims_def)
    obtain v i where g: "get8 (r_in rd) = (v, i)" by force
    from get8_inv [OF f(1) g] k1 have g8: "bi_inv src (k + 1) i" "v = ucast (src ! k)" by simp_all
    have p: "be_nat (take (k + 1) src) = 256 * be_nat (take k src) + unat (src ! k)"
      using k1 by (simp add: take_Suc_conv_app_nth be_nat_snoc)
    have b: "unat (src ! k) < 256" by (rule unat_byte_less)
    have small_b: "unat (r_buffer rd) < 2 ^ 24" using f(5-7) False by simp
    then have "unat (push_bit 8 (r_buffer rd)) = 256 * unat (r_buffer rd)" by (intro unat_shift8) (simp add: word_less_nat_alt)
    moreover have "unat v = unat (src ! k)" using g8(2) b by (simp add: unat_ucast_small)
    ultimately have ub: "unat (push_bit 8 (r_buffer rd) + v) = 256 * unat (r_buffer rd) + unat (src ! k)"
      using small_b b by (subst unat_add_small) simp_all
    have "follows src (256 * l, 256 * r, k + 1) ?rd"
      using f g8(1) k1 p b ub unat_shift8 [OF small] by (simp add: follows_def shift_in_def g)
    moreover have "0 < 256 * r" "256 * r < 2 ^ 32" "aims src (renorm (256 * l, 256 * r, k + 1))" using c "1.prems"(4) rn by auto
    ultimately show ?thesis unfolding n rn by (rule "1.hyps" [OF c])
  qed
qed

text \<open>One step: the count that is read lies in the part of the interval that the encoder took.\<close>

lemma step_follows:
  assumes "follows src (low, rng, k) rd" "2 ^ 24 \<le> rng" "rng < 2 ^ 32" "bits \<le> 24" "0 < cnt" "cum + cnt \<le> 2 ^ bits"
    "aims src (low + cum * (rng div 2 ^ bits), rng div 2 ^ bits * cnt, k)" "aims src (narrow bits cum cnt (low, rng, k))"
    "unat wcum = cum" "unat wcnt = cnt"
  shows "\<exists>count rd1 rd2. getCount bits rd = (Some count, rd1) \<and> cum \<le> unat count \<and> unat count < cum + cnt
    \<and> rd_update wcum wcnt rd1 = Some rd2 \<and> follows src (narrow bits cum cnt (low, rng, k)) rd2"
proof -
  let ?r = "rng div 2 ^ bits" and ?P = "be_nat (take k src)"
  have f: "bi_inv src k (r_in rd)" "k \<le> length src" "\<not> r_bad rd" "unat (r_rng rd) = rng" "low \<le> ?P" "?P < low + rng" "unat (r_buffer rd) = ?P - low"
    using assms(1) by (simp_all add: follows_def)
  have P: "low + cum * ?r \<le> ?P" "?P < low + cum * ?r + ?r * cnt" using assms(7) by (simp_all add: aims_def)
  have "(2 :: nat) ^ bits \<le> 2 ^ 24" using assms(4) by (rule power_increasing) simp
  then have r: "0 < ?r" using assms(2) by (simp add: div_greater_zero_iff)
  let ?rd1 = "rd\<lparr>r_rng := drop_bit bits (r_rng rd)\<rparr>"
  have ur: "unat (drop_bit bits (r_rng rd)) = ?r" by (simp add: unat_drop f(4))
  then have nz: "drop_bit bits (r_rng rd) \<noteq> 0" using r by auto
  define count where "count = r_buffer rd div drop_bit bits (r_rng rd)"
  have uc: "unat count = (?P - low) div ?r" by (simp add: count_def unat_div ur f(7))
  have c1: "cum \<le> unat count" unfolding uc using P(1) r by (simp add: less_eq_div_iff_mult_less_eq)
  have "?P - low < (cum + cnt) * ?r" using P(2) f(5) by (simp add: algebra_simps)
  then have c2: "unat count < cum + cnt" unfolding uc by (rule less_mult_imp_div_less)
  have "unat (push_bit bits 1 :: u32) = 2 ^ bits"
  proof -
    have "(2 :: nat) ^ bits < 2 ^ 32" using assms(4) by (intro power_strict_increasing) simp_all
    then show ?thesis by (simp only: unat_push) simp
  qed
  then have lt: "\<not> push_bit bits 1 \<le> count" using c2 assms(6) by (simp add: word_le_nat_alt)
  have g: "getCount bits rd = (Some count, ?rd1)" using f(3) assms(4) nz lt by (simp add: getCount_def count_def Let_def)
  let ?rd2 = "?rd1\<lparr>r_buffer := r_buffer rd - wcum * drop_bit bits (r_rng rd), r_rng := drop_bit bits (r_rng rd) * wcnt\<rparr>"
  have "?r * (cum + cnt) \<le> ?r * 2 ^ bits" using assms(6) by (rule mult_left_mono) simp
  also have "\<dots> \<le> rng" by simp
  finally have le: "cum * ?r + ?r * cnt \<le> rng" by (simp add: algebra_simps)
  have m1: "unat (wcum * drop_bit bits (r_rng rd)) = cum * ?r" using le assms(3) by (simp add: unat_word_ariths ur assms(9))
  have m2: "unat (drop_bit bits (r_rng rd) * wcnt) = ?r * cnt" using le assms(3) by (simp add: unat_word_ariths ur assms(10))
  have "unat (r_buffer rd - wcum * drop_bit bits (r_rng rd)) = ?P - (low + cum * ?r)"
    using P(1) by (subst unat_sub_le) (simp_all add: m1 f(7))
  then have "follows src (low + cum * ?r, ?r * cnt, k) ?rd2" using f P m2 by (simp add: follows_def)
  moreover have "0 < ?r * cnt" "?r * cnt < 2 ^ 32" using r assms(3,5) le by auto
  moreover have n: "narrow bits cum cnt (low, rng, k) = renorm (low + cum * ?r, ?r * cnt, k)" by (simp add: narrow_def Let_def)
  ultimately obtain rd2 where "normalize ?rd2 = Some rd2" "follows src (narrow bits cum cnt (low, rng, k)) rd2"
    using normalize_follows assms(8) unfolding n by blast
  then show ?thesis using g c1 c2 by (auto simp: rd_update_def)
qed

section \<open>Whole messages\<close>

definition wide :: "ivl \<Rightarrow> bool" where
  "wide = (\<lambda>(l, r, k). 2 ^ 24 \<le> r \<and> r < 2 ^ 32)"

definition fits :: "nat \<Rightarrow> nat \<Rightarrow> nat \<Rightarrow> bool" where
  "fits bits cum cnt \<longleftrightarrow> bits \<le> 24 \<and> 0 < cnt \<and> cum + cnt \<le> 2 ^ bits"

lemma narrow_wide: "wide i \<Longrightarrow> fits bits cum cnt \<Longrightarrow> within (narrow bits cum cnt i) i \<and> wide (narrow bits cum cnt i)"
proof -
  assume a: "wide i" "fits bits cum cnt"
  obtain l r k where i: "i = (l, r, k)" by (metis prod_cases3)
  obtain l' r' k' where n: "narrow bits cum cnt (l, r, k) = (l', r', k')" by (metis prod_cases3)
  have "2 ^ 24 \<le> r" "r < 2 ^ 32" "bits \<le> 24" "0 < cnt" "cum + cnt \<le> 2 ^ bits" using a by (simp_all add: i wide_def fits_def)
  from narrow_within [OF this n] show ?thesis unfolding i n by (simp add: wide_def)
qed

lemma sym_fits: "counter_ok n c \<Longrightarrow> s < n \<Longrightarrow> fits rangeBits (unat (c_cum c ! s)) (unat (c_cnt c ! s))"
proof -
  assume a: "counter_ok n c" "s < n"
  then have "unat (c_cum c ! s) + unat (c_cnt c ! s) = nsum (take (Suc s) (c_cnt c))" by (simp add: counter_ok_def nsum_take_Suc)
  also have "\<dots> \<le> 2 ^ 14" using nsum_take_le [of "Suc s" "c_cnt c"] a by (simp add: counter_ok_def)
  finally have "unat (c_cum c ! s) + unat (c_cnt c ! s) \<le> 2 ^ 14" .
  moreover have "c_cnt c ! s \<noteq> 0" using a by (metis counter_ok_def nth_mem)
  ultimately show ?thesis by (simp add: fits_def word_unat_pos)
qed

lemma raw_fits: "n \<le> 24 \<Longrightarrow> v < 2 ^ n \<Longrightarrow> fits n v 1"
  by (simp add: fits_def)

lemma raw_parts: "24 < n \<Longrightarrow> n \<le> 32 \<Longrightarrow> v < 2 ^ n \<Longrightarrow> fits 15 (v mod 2 ^ 15) 1 \<and> fits (n - 15) (v div 2 ^ 15) 1"
proof -
  assume a: "24 < n" "n \<le> 32" "v < 2 ^ n"
  have "(2 :: nat) ^ (n - 15) * 2 ^ 15 = 2 ^ n" using a(1) by (simp only: flip: power_add) simp
  then have "v < 2 ^ (n - 15) * 2 ^ 15" using a(3) by (simp only:)
  then have "v div 2 ^ 15 < 2 ^ (n - 15)" by (rule less_mult_imp_div_less)
  then show ?thesis using a by (intro conjI raw_fits) simp_all
qed

lemma enc_raw_wide: "wide i \<Longrightarrow> item_ok m (Raw n v) \<Longrightarrow> within (enc_raw n v i) i \<and> wide (enc_raw n v i)"
proof (cases "n \<le> 24")
  case True
  assume "wide i" "item_ok m (Raw n v)"
  then show ?thesis using narrow_wide raw_fits True by (simp add: enc_raw_def)
next
  case False
  assume a: "wide i" "item_ok m (Raw n v)"
  then have p: "fits 15 (v mod 2 ^ 15) 1" "fits (n - 15) (v div 2 ^ 15) 1" using raw_parts [of n v] False by simp_all
  note 1 = narrow_wide [OF a(1) p(1)]
  from narrow_wide [OF _ p(2), of "narrow 15 (v mod 2 ^ 15) 1 i"] 1 show ?thesis
    using False within_trans unfolding enc_raw_def by (simp only: if_False) blast
qed

lemma enc_items_wide:
  "wide i \<Longrightarrow> counter_ok n c \<Longrightarrow> n < 2 ^ 14 \<Longrightarrow> list_all (item_ok n) xs \<Longrightarrow> within (enc_items c xs i) i \<and> wide (enc_items c xs i)"
proof (induction c xs i rule: enc_items.induct)
  case (1 c i)
  then show ?case by (cases i) (simp add: wide_def within_refl)
next
  case (2 c s xs i)
  have f: "s < n" "list_all (item_ok n) xs" using "2.prems"(4) by simp_all
  note w = narrow_wide [OF "2.prems"(1) sym_fits [OF "2.prems"(2) f(1)]]
  from "2.IH" [OF conjunct2 [OF w] c_inc_ok [OF "2.prems"(2) f(1) "2.prems"(3)] "2.prems"(3) f(2)] w show ?case
    using within_trans by (simp only: enc_items.simps) blast
next
  case (3 c m v xs i)
  then have w: "within (enc_raw m v i) i" "wide (enc_raw m v i)" using enc_raw_wide [of i n m v] by simp_all
  from "3.IH" [OF w(2) "3.prems"(2,3)] "3.prems"(4) w(1) show ?case using within_trans by simp blast
qed

text \<open>The code leads from every interval that contains the last one.\<close>

definition leads :: "bytes \<Rightarrow> ivl \<Rightarrow> bool" where
  "leads src fin = (case fin of (l, r, k) \<Rightarrow> l < 256 ^ k \<and> (\<exists>rest. src = be_bytes k l @ rest))"

lemma leads_aims: "leads src fin \<Longrightarrow> within fin i \<Longrightarrow> aims src i"
  by (cases fin; cases i) (auto simp: leads_def intro: aims_within)

lemma step_leads:
  assumes "follows src i rd" "wide i" "fits bits cum cnt" "leads src fin" "within fin (narrow bits cum cnt i)" "unat wcum = cum" "unat wcnt = cnt"
  shows "\<exists>count rd1 rd2. getCount bits rd = (Some count, rd1) \<and> cum \<le> unat count \<and> unat count < cum + cnt
    \<and> rd_update wcum wcnt rd1 = Some rd2 \<and> follows src (narrow bits cum cnt i) rd2"
proof -
  obtain l r k where i: "i = (l, r, k)" by (metis prod_cases3)
  obtain l' r' k' where n: "narrow bits cum cnt (l, r, k) = (l', r', k')" by (metis prod_cases3)
  have f: "2 ^ 24 \<le> r" "r < 2 ^ 32" "bits \<le> 24" "0 < cnt" "cum + cnt \<le> 2 ^ bits" using assms(2,3) by (simp_all add: i wide_def fits_def)
  from narrow_within [OF f n] have "within (narrow bits cum cnt i) (l + cum * (r div 2 ^ bits), r div 2 ^ bits * cnt, k)" unfolding i n by simp
  then have "aims src (l + cum * (r div 2 ^ bits), r div 2 ^ bits * cnt, k)" by (rule leads_aims [OF assms(4) within_trans [OF assms(5)]])
  moreover have "aims src (narrow bits cum cnt i)" by (rule leads_aims [OF assms(4,5)])
  ultimately show ?thesis using step_follows [OF assms(1) [unfolded i] f _ _ assms(6,7)] unfolding i by blast
qed

lemma rawbits_follows:
  assumes "follows src i (a_rd a)" "wide i" "fits n v 1" "leads src fin" "within fin (narrow n v 1 i)"
  shows "\<exists>rd. a_rawbits n a = Some (word_of_nat v, a\<lparr>a_rd := rd\<rparr>) \<and> follows src (narrow n v 1 i) rd"
proof -
  have n: "n \<le> 24" "v < 2 ^ n" using assms(3) by (simp_all add: fits_def)
  have "(2 :: nat) ^ n \<le> 2 ^ 24" using n(1) by (rule power_increasing) simp
  then have u: "unat (word_of_nat v :: u32) = v" using n(2) by (intro unat_of_nat_small) simp
  obtain count rd1 rd2 where s: "getCount n (a_rd a) = (Some count, rd1)" "v \<le> unat count" "unat count < v + 1"
    "rd_update (word_of_nat v) 1 rd1 = Some rd2" "follows src (narrow n v 1 i) rd2"
    using step_leads [OF assms u, of 1] by auto
  have "unat count = v" using s(2,3) by simp
  then have c: "count = word_of_nat v" by auto
  have "a_rawbits n a = Some (word_of_nat v, a\<lparr>a_rd := rd2\<rparr>)" using s(1,4) by (simp add: a_rawbits_def c)
  then show ?thesis using s(5) by blast
qed

lemma getbits_follows:
  assumes "follows src i (a_rd a)" "wide i" "item_ok m (Raw n v)" "leads src fin" "within fin (enc_raw n v i)" "\<not> a_bad a"
  shows "\<exists>rd. a_getbits n a = Some (word_of_nat v, a\<lparr>a_rd := rd\<rparr>) \<and> follows src (enc_raw n v i) rd"
proof (cases "n \<le> 24")
  case True
  then have f: "fits n v 1" using assms(3) by (intro raw_fits) simp_all
  have e: "enc_raw n v i = narrow n v 1 i" using True by (simp add: enc_raw_def)
  show ?thesis using rawbits_follows [OF assms(1,2) f assms(4) assms(5) [unfolded e]] True assms(6) by (simp add: a_getbits_def e)
next
  case False
  let ?x1 = "v mod 2 ^ 15" and ?x2 = "v div 2 ^ 15"
  let ?i1 = "narrow 15 ?x1 1 i"
  have e: "enc_raw n v i = narrow (n - 15) ?x2 1 ?i1" using False unfolding enc_raw_def by (simp only: if_False)
  have p: "fits 15 ?x1 1" "fits (n - 15) ?x2 1" using raw_parts [of n v] False assms(3) by simp_all
  note w1 = narrow_wide [OF assms(2) p(1)]
  note w2 = narrow_wide [OF conjunct2 [OF w1] p(2)]
  have "within fin ?i1" using assms(5) w2 within_trans unfolding e by blast
  from rawbits_follows [OF assms(1,2) p(1) assms(4) this] obtain rd1 where
    r1: "a_rawbits 15 a = Some (word_of_nat ?x1, a\<lparr>a_rd := rd1\<rparr>)" "follows src ?i1 (a_rd (a\<lparr>a_rd := rd1\<rparr>))" by auto
  from rawbits_follows [OF r1(2) conjunct2 [OF w1] p(2) assms(4) assms(5) [unfolded e]] obtain rd2 where
    r2: "a_rawbits (n - 15) (a\<lparr>a_rd := rd1\<rparr>) = Some (word_of_nat ?x2, a\<lparr>a_rd := rd2\<rparr>)" "follows src (enc_raw n v i) rd2"
    unfolding e by auto
  have "push_bit 15 (word_of_nat ?x2) + word_of_nat ?x1 = (word_of_nat (2 ^ 15 * ?x2 + ?x1) :: u32)"
    by (simp only: push_bit_eq_mult of_nat_add of_nat_mult of_nat_power of_nat_numeral mult.commute)
  also have "2 ^ 15 * ?x2 + ?x1 = v" by (rule mult_div_mod_eq)
  finally have "a_getbits n a = Some (word_of_nat v, a\<lparr>a_rd := rd2\<rparr>)"
    using r1(1) r2(1) assms(6) False unfolding a_getbits_def by (simp only: if_False) simp
  then show ?thesis using r2(2) by blast
qed

lemma decode_follows:
  assumes "follows src i (a_rd a)" "wide i" "counter_ok n (a_c a)" "s < n" "leads src fin"
    "within fin (narrow rangeBits (unat (c_cum (a_c a) ! s)) (unat (c_cnt (a_c a) ! s)) i)" "\<not> a_bad a"
  shows "\<exists>rd. a_decode a = Some (word_of_nat s, a\<lparr>a_rd := rd, a_c := c_inc s (a_c a)\<rparr>)
    \<and> follows src (narrow rangeBits (unat (c_cum (a_c a) ! s)) (unat (c_cnt (a_c a) ! s)) i) rd"
proof -
  from step_leads [OF assms(1,2) sym_fits [OF assms(3,4)] assms(5,6) refl refl] obtain count rd1 rd2 where
    g: "getCount rangeBits (a_rd a) = (Some count, rd1)" "unat (c_cum (a_c a) ! s) \<le> unat count" "unat count < unat (c_cum (a_c a) ! s) + unat (c_cnt (a_c a) ! s)"
    "rd_update (c_cum (a_c a) ! s) (c_cnt (a_c a) ! s) rd1 = Some rd2"
    "follows src (narrow rangeBits (unat (c_cum (a_c a) ! s)) (unat (c_cnt (a_c a) ! s)) i) rd2" by blast
  from c_decode_finds [OF assms(3,4) g(2,3)] have "a_decode a = Some (word_of_nat s, a\<lparr>a_rd := rd2, a_c := c_inc s (a_c a)\<rparr>)"
    using g(1,4) assms(7) by (simp add: a_decode_def)
  then show ?thesis using g(5) by blast
qed

text \<open>The decoder holds the items that are left.\<close>

definition arith_holds :: "item list \<Rightarrow> arithDec \<Rightarrow> bool" where
  "arith_holds xs a \<longleftrightarrow> (\<exists>src i n. follows src i (a_rd a) \<and> wide i \<and> counter_ok n (a_c a) \<and> n < 2 ^ 14 \<and> list_all (item_ok n) xs
     \<and> leads src (enc_items (a_c a) xs i) \<and> \<not> a_bad a)"

lemma arith_holdsI:
  "follows src i (a_rd a) \<Longrightarrow> wide i \<Longrightarrow> counter_ok n (a_c a) \<Longrightarrow> n < 2 ^ 14 \<Longrightarrow> list_all (item_ok n) xs \<Longrightarrow>
   leads src (enc_items (a_c a) xs i) \<Longrightarrow> \<not> a_bad a \<Longrightarrow> arith_holds xs a"
  unfolding arith_holds_def by blast

lemma arith_holds_sym:
  assumes "arith_holds (Sym s # xs) a"
  shows "\<exists>a'. a_decode a = Some (word_of_nat s, a') \<and> \<not> a_bad a' \<and> arith_holds xs a'"
proof -
  obtain src i n where h: "follows src i (a_rd a)" "wide i" "counter_ok n (a_c a)" "n < 2 ^ 14" "list_all (item_ok n) (Sym s # xs)"
    "leads src (enc_items (a_c a) (Sym s # xs) i)" "\<not> a_bad a" using assms unfolding arith_holds_def by blast
  let ?i = "narrow rangeBits (unat (c_cum (a_c a) ! s)) (unat (c_cnt (a_c a) ! s)) i"
  have f: "s < n" "list_all (item_ok n) xs" using h(5) by simp_all
  note w = narrow_wide [OF h(2) sym_fits [OF h(3) f(1)]]
  note c = c_inc_ok [OF h(3) f(1) h(4)]
  have l: "leads src (enc_items (c_inc s (a_c a)) xs ?i)" using h(6) by simp
  have "within (enc_items (c_inc s (a_c a)) xs ?i) ?i" using enc_items_wide [OF _ c h(4) f(2)] w by blast
  from decode_follows [OF h(1-3) f(1) l this h(7)] obtain rd where
    d: "a_decode a = Some (word_of_nat s, a\<lparr>a_rd := rd, a_c := c_inc s (a_c a)\<rparr>)" "follows src ?i rd" by blast
  have "arith_holds xs (a\<lparr>a_rd := rd, a_c := c_inc s (a_c a)\<rparr>)"
    using d(2) w c h(4,7) f(2) l by (intro arith_holdsI [of src ?i _ n]) simp_all
  then show ?thesis using d(1) h(7) by simp
qed

lemma arith_holds_raw:
  assumes "arith_holds (Raw b v # xs) a"
  shows "\<exists>a'. a_getbits b a = Some (word_of_nat v, a') \<and> \<not> a_bad a' \<and> arith_holds xs a'"
proof -
  obtain src i n where h: "follows src i (a_rd a)" "wide i" "counter_ok n (a_c a)" "n < 2 ^ 14" "list_all (item_ok n) (Raw b v # xs)"
    "leads src (enc_items (a_c a) (Raw b v # xs) i)" "\<not> a_bad a" using assms unfolding arith_holds_def by blast
  have f: "item_ok n (Raw b v)" "list_all (item_ok n) xs" using h(5) by simp_all
  note w = enc_raw_wide [OF h(2) f(1)]
  have l: "leads src (enc_items (a_c a) xs (enc_raw b v i))" using h(6) by simp
  have "within (enc_items (a_c a) xs (enc_raw b v i)) (enc_raw b v i)" using enc_items_wide [OF _ h(3,4) f(2)] w by blast
  from getbits_follows [OF h(1,2) f(1) l this h(7)] obtain rd where
    d: "a_getbits b a = Some (word_of_nat v, a\<lparr>a_rd := rd\<rparr>)" "follows src (enc_raw b v i) rd" by blast
  have "arith_holds xs (a\<lparr>a_rd := rd\<rparr>)"
    using d(2) w h(3,4,7) f(2) l by (intro arith_holdsI [of src "enc_raw b v i" _ n]) simp_all
  then show ?thesis using d(1) h(7) by simp
qed

lemma shift_in_start:
  "j \<le> length src \<Longrightarrow> let r = (shift_in ^^ j) \<lparr>r_in = newByteIn src, r_rng = 0xffffffff, r_buffer = 0, r_bad = False\<rparr> in
     bi_inv src j (r_in r) \<and> r_rng r = 0xffffffff \<and> \<not> r_bad r \<and> unat (r_buffer r) = be_nat (take j src) mod 2 ^ 32"
proof (induction j)
  case (Suc j)
  let ?r = "(shift_in ^^ j) \<lparr>r_in = newByteIn src, r_rng = 0xffffffff, r_buffer = 0, r_bad = False\<rparr>"
  have h: "bi_inv src j (r_in ?r)" "r_rng ?r = 0xffffffff" "\<not> r_bad ?r" "unat (r_buffer ?r) = be_nat (take j src) mod 2 ^ 32"
    using Suc by (simp_all add: Let_def)
  obtain v i where g: "get8 (r_in ?r) = (v, i)" by force
  from get8_inv [OF h(1) g] Suc.prems have g8: "bi_inv src (j + 1) i" "unat v = unat (src ! j)" by (auto simp: unat_ucast_small unat_byte_less less_trans [OF unat_byte_less])
  have "unat (push_bit 8 (r_buffer ?r) + v) = (256 * be_nat (take j src) + unat (src ! j)) mod 2 ^ 32"
    unfolding unat_word_ariths unat_push h(4) g8(2) by (simp add: mod_simps)
  moreover have "be_nat (take (Suc j) src) = 256 * be_nat (take j src) + unat (src ! j)"
    using Suc.prems by (simp add: take_Suc_conv_app_nth be_nat_snoc)
  moreover have "(shift_in ^^ Suc j) \<lparr>r_in = newByteIn src, r_rng = 0xffffffff, r_buffer = 0, r_bad = False\<rparr>
      = ?r\<lparr>r_in := i, r_buffer := push_bit 8 (r_buffer ?r) + v\<rparr>" by (simp add: shift_in_def [of ?r] g)
  ultimately show ?case using h g8(1) by (simp add: Let_def del: funpow.simps)
qed (simp add: bi_inv_new be_nat_def)

lemma newRangeDec_follows:
  assumes "aims src (0, 2 ^ 32 - 1, 5)"
  shows "follows src (0, 2 ^ 32 - 1, 5) (newRangeDec src)"
proof -
  have a: "5 \<le> length src" "be_nat (take 5 src) < 2 ^ 32 - 1" using assms by (simp_all add: aims_def)
  then show ?thesis using shift_in_start [OF a(1)] by (simp add: follows_def newRangeDec_def Let_def)
qed

lemma arith_holds_new:
  assumes "0 < n" "n < 2 ^ 14" "list_all (item_ok n) xs"
  shows "arith_holds xs (newArithDec (arith_encode n xs @ rest) n)"
proof -
  let ?i = "(0, 2 ^ 32 - 1, 5) :: ivl" and ?src = "arith_encode n xs @ rest"
  note c = newCounter_ok [OF assms(1,2)]
  have wi: "wide ?i" by (simp add: wide_def)
  obtain l r k where e: "enc_items (newCounter n) xs ?i = (l, r, k)" by (metis prod_cases3)
  have w: "within (l, r, k) ?i" using enc_items_wide [OF wi c assms(2,3)] e by simp
  have "l < 256 ^ k"
  proof -
    have "l + r \<le> (2 ^ 32 - 1) * 256 ^ (k - 5)" "0 < r" "5 \<le> k" using w by (simp_all add: within_def)
    moreover have "(2 ^ 32 - 1) * 256 ^ (k - 5) \<le> 256 ^ 5 * (256 :: nat) ^ (k - 5)" by (rule mult_right_mono) simp_all
    moreover have "256 ^ 5 * (256 :: nat) ^ (k - 5) = 256 ^ k" using \<open>5 \<le> k\<close> by (simp only: flip: power_add) simp
    ultimately show ?thesis by linarith
  qed
  then have ld: "leads ?src (enc_items (newCounter n) xs ?i)" unfolding leads_def arith_encode_def e by auto
  have "aims ?src ?i" using leads_aims [OF ld] w e by simp
  from newRangeDec_follows [OF this] show ?thesis
    using wi c assms(2,3) ld by (intro arith_holdsI [of ?src ?i _ n]) (simp_all add: newArithDec_def)
qed

lemma ask_all_holds: "arith_holds xs a \<Longrightarrow> \<exists>a'. ask_all xs a = Some (map answer xs, a') \<and> arith_holds [] a'"
proof (induction xs arbitrary: a)
  case (Cons x xs)
  obtain a1 where a1: "ask x a = Some (answer x, a1)" "arith_holds xs a1"
  proof (cases x)
    case (Sym s)
    then show thesis using arith_holds_sym [of s xs a] Cons.prems that by auto
  next
    case (Raw b v)
    then show thesis using arith_holds_raw [of b v xs a] Cons.prems that by auto
  qed
  show ?case using Cons.IH [OF a1(2)] a1(1) by auto
qed simp

lemma arith_holds_not_bad: "arith_holds xs a \<Longrightarrow> \<not> a_bad a"
  by (auto simp: arith_holds_def)

text \<open>
  C8: the arithmetic decoder of Tornado inverts its encoder. Whatever symbols and raw bits are
  encoded, with the model aged and rescaled on both sides as they go, and whatever comes after the
  code, the decoder returns them one by one and does not fail; its counts never overflow, its loops
  end, and a raw value of more than 24 bits comes back from its two parts.
\<close>

theorem arith_roundtrip:
  assumes "0 < n" "n < 2 ^ 14" "list_all (item_ok n) xs"
  shows "\<exists>a. ask_all xs (newArithDec (arith_encode n xs @ rest) n) = Some (map answer xs, a) \<and> \<not> a_bad a"
  using ask_all_holds [OF arith_holds_new [OF assms, of rest]] arith_holds_not_bad by blast

lemma arith_roundtrip_witness:
  "\<exists>a. ask_all [Sym 65, Raw 30 123456789, Sym 841, Raw 3 5, Sym 65] (newArithDec (arith_encode 842 [Sym 65, Raw 30 123456789, Sym 841, Raw 3 5, Sym 65] @ [7]) 842)
     = Some ([65, 123456789, 841, 5, 65], a)"
  using arith_roundtrip [of 842 "[Sym 65, Raw 30 123456789, Sym 841, Raw 3 5, Sym 65]" "[7]"] by auto

end
