(* ===== verification/Torlz.thy ===== *)
theory Torlz
  imports Torarith Runs
begin

text \<open>
  The LZ77 decoders of Tornado (\<open>stream/tor/lz.go\<close>, \<open>vle.go\<close>): the slots of lengths and distances, the
  decoder that reads them from an entropy coder with its history of distances, and the decoder of
  plain bytes. What a decoder is to tell is stated as a list of operations.
\<close>

section \<open>Slots\<close>

definition vleSize :: nat where
  "vleSize = 1024 + 16384 + 1"

text \<open>The first value of each slot; a slot of \<open>b\<close> bits has \<open>2 ^ b\<close> values, up to the size of the code table.\<close>

fun buildVLE :: "nat \<Rightarrow> nat list \<Rightarrow> nat list" where
  "buildVLE v [] = []"
| "buildVLE v (b # bs) = v # buildVLE (if vleSize \<le> v then v else min vleSize (v + 2 ^ b)) bs"

fun dist_far :: "nat \<Rightarrow> nat list \<Rightarrow> nat list" where
  "dist_far d [] = []"
| "dist_far d (b # bs) = d * 65536 # dist_far (if vleSize \<le> 1024 + d then d else min (vleSize - 1024) (d + 2 ^ (b - 16))) bs"

fun dist_mid :: "nat \<Rightarrow> nat list \<Rightarrow> nat list" where
  "dist_mid d [] = []"
| "dist_mid d (b # bs) = (if d < 512 then d * 256 # dist_mid (d + 2 ^ (b - 8)) bs else dist_far (d div 256) (b # bs))"

fun dist_near :: "nat \<Rightarrow> nat list \<Rightarrow> nat list" where
  "dist_near d [] = []"
| "dist_near d (b # bs) = (if d < 512 then d # dist_near (d + 2 ^ b) bs else dist_mid (d div 256) (b # bs))"

definition lcExtra :: "nat list" where
  "lcExtra = [0, 0, 0, 1, 2, 4, 8, 30]"

definition lc2Extra :: "nat list" where
  "lc2Extra = [0, 0, 0, 0, 0, 0, 0, 1, 1, 2, 2, 3, 3, 4, 8, 30]"

definition dcExtra :: "nat list" where
  "dcExtra = [4, 4, 5, 5, 5, 6, 6, 7, 7, 8, 8, 9, 9, 10, 10, 11, 11, 12, 12, 13, 13, 14, 14, 15, 15, 16, 17, 18, 19, 21, 23, 30]"

definition lcBase :: "u32 list" where
  "lcBase = map word_of_nat (buildVLE 0 lcExtra)"

definition lc2Base :: "u32 list" where
  "lc2Base = map word_of_nat (buildVLE 0 lc2Extra)"

definition dcBase :: "u32 list" where
  "dcBase = map word_of_nat (dist_near 0 dcExtra)"

lemma lc2Base_list: "lc2Base = [0, 1, 2, 3, 4, 5, 6, 7, 9, 11, 15, 19, 27, 35, 51, 307]"
  by (simp add: lc2Base_def lc2Extra_def vleSize_def)

lemma dcBase_list: "dcBase = [0, 16, 32, 64, 96, 128, 192, 256, 384, 512, 768, 1024, 1536, 2048, 3072, 4096, 6144, 8192, 12288,
    16384, 24576, 32768, 49152, 65536, 98304, 131072, 196608, 327680, 589824, 1114112, 3211264, 11599872]"
  by (simp add: dcBase_def dcExtra_def vleSize_def)

section \<open>Decoders\<close>

definition impossible :: u32 where
  "impossible = 2 ^ 30 - 1"

text \<open>An entropy coder, and what the window asks of an LZ77 decoder; \<open>None\<close> when a call does not return.\<close>

record 's symDec =
  sd_decode :: "'s \<Rightarrow> (u32 \<times> 's) run"
  sd_getbits :: "nat \<Rightarrow> 's \<Rightarrow> (u32 \<times> 's) option"
  sd_failed :: "'s \<Rightarrow> bool"

record 'd lzDec =
  lz_next :: "'d \<Rightarrow> (bool \<times> 'd) run"
  lz_char :: "'d \<Rightarrow> byte \<times> 'd"
  lz_length :: "u32 \<Rightarrow> 'd \<Rightarrow> (u32 \<times> 'd) option"
  lz_distance :: "'d \<Rightarrow> (u32 \<times> 'd) option"
  lz_failed :: "'d \<Rightarrow> bool"

definition arith_symDec :: "arithDec symDec" where
  "arith_symDec = \<lparr>sd_decode = (\<lambda>a. map_option Inr (a_decode a)), sd_getbits = a_getbits, sd_failed = a_bad\<rparr>"

subsection \<open>From an entropy coder\<close>

text \<open>The history has 128 places; \<open>l_hp\<close> is between 4 and 128, so that it is never left.\<close>

record 's lz77Dec =
  l_src :: 's
  l_x :: u32
  l_hist :: "u32 list"
  l_hp :: nat
  l_bad :: bool

definition newLZ77 :: "'s \<Rightarrow> 's lz77Dec" where
  "newLZ77 src = \<lparr>l_src = src, l_x = 0, l_hist = replicate 128 0, l_hp = 4, l_bad = False\<rparr>"

definition l_fail :: "'s lz77Dec \<Rightarrow> 's lz77Dec" where
  "l_fail d = d\<lparr>l_bad := True\<rparr>"

definition l_next :: "'s symDec \<Rightarrow> 's lz77Dec \<Rightarrow> (bool \<times> 's lz77Dec) run" where
  "l_next S d =
     (if l_bad d then fails
      else bindR (sd_decode S (l_src d)) (\<lambda>(x, s).
        if sd_failed S s then fails else ret (x < 256, d\<lparr>l_x := x, l_src := s\<rparr>)))"

definition l_char :: "'s lz77Dec \<Rightarrow> byte \<times> 's lz77Dec" where
  "l_char d = (ucast (l_x d), d)"

definition l_length :: "'s symDec \<Rightarrow> u32 \<Rightarrow> 's lz77Dec \<Rightarrow> (u32 \<times> 's lz77Dec) option" where
  "l_length S minlen d =
     (if l_x d = 833 then Some (1, d)
      else let lcode = unat (l_x d mod 16) in
        map_option (\<lambda>(v, s).
          let n = lc2Base ! lcode + v; d = d\<lparr>l_src := s\<rparr> in
          if sd_failed S s then (0, l_fail d)
          else if n > 104 then (n - 4 + minlen, d)
          else if n > 100 then (n - 100 + impossible, d)
          else (n + minlen, d))
        (sd_getbits S (lc2Extra ! lcode) (l_src d)))"

text \<open>The distance that was used \<open>k\<close> times ago moves to the end.\<close>

definition repdist :: "nat \<Rightarrow> 's lz77Dec \<Rightarrow> u32 \<times> 's lz77Dec" where
  "repdist dcode d =
     (let h = l_hist d; hp = l_hp d in
      if dcode = 0 then (h ! (hp - 1), d)
      else if dcode = 1 then (h ! (hp - 2), d\<lparr>l_hist := h[hp - 2 := h ! (hp - 1), hp - 1 := h ! (hp - 2)]\<rparr>)
      else if dcode = 2 then
        (h ! (hp - 3), d\<lparr>l_hist := h[hp - 3 := h ! (hp - 2), hp - 2 := h ! (hp - 1), hp - 1 := h ! (hp - 3)]\<rparr>)
      else (h ! (hp - 4), d\<lparr>l_hist := h[hp - 4 := h ! (hp - 3), hp - 3 := h ! (hp - 2), hp - 2 := h ! (hp - 1), hp - 1 := h ! (hp - 4)]\<rparr>))"

definition push_dist :: "u32 \<Rightarrow> 's lz77Dec \<Rightarrow> 's lz77Dec" where
  "push_dist dist d =
     (let (h, hp) = (if l_hp d = 128
          then ((l_hist d)[0 := l_hist d ! 125, 1 := l_hist d ! 126, 2 := l_hist d ! 127], 3)
          else (l_hist d, l_hp d))
      in d\<lparr>l_hist := h[hp := dist], l_hp := hp + 1\<rparr>)"

definition l_distance :: "'s symDec \<Rightarrow> 's lz77Dec \<Rightarrow> (u32 \<times> 's lz77Dec) option" where
  "l_distance S d =
     (if l_bad d then Some (0, d)
      else if l_x d = 833 then Some (l_hist d ! (l_hp d - 1), d)
      else let code = unat (l_x d - 256) div 16 in
        if code < 4 then Some (repdist code d)
        else if length dcExtra \<le> code - 4 then Some (0, l_fail d)
        else map_option (\<lambda>(v, s).
               let dist = dcBase ! (code - 4) + v + 1; d = d\<lparr>l_src := s\<rparr> in
               if sd_failed S s then (0, l_fail d) else (dist, push_dist dist d))
             (sd_getbits S (dcExtra ! (code - 4)) (l_src d)))"

definition lz77 :: "'s symDec \<Rightarrow> 's lz77Dec lzDec" where
  "lz77 S = \<lparr>lz_next = l_next S, lz_char = l_char, lz_length = l_length S, lz_distance = l_distance S, lz_failed = l_bad\<rparr>"

subsection \<open>From bytes\<close>

definition get16 :: "byteIn \<Rightarrow> u32 \<times> byteIn" where
  "get16 b = (let (p, b) = bi_get 2 b in (le_word p, b))"

definition get24 :: "byteIn \<Rightarrow> u32 \<times> byteIn" where
  "get24 b = (let (p, b) = bi_get 3 b in (le_word p, b))"

definition get32 :: "byteIn \<Rightarrow> u32 \<times> byteIn" where
  "get32 b = (let (p, b) = bi_get 4 b in (le_word p, b))"

record byteDec =
  b_in :: byteIn
  b_flags :: u32
  b_flagpos :: nat
  b_dist :: u32

definition newByteDec :: "bytes \<Rightarrow> byteDec" where
  "newByteDec src = \<lparr>b_in = newByteIn src, b_flags = 0, b_flagpos = 1, b_dist = 0\<rparr>"

definition b_next :: "byteDec \<Rightarrow> (bool \<times> byteDec) run" where
  "b_next d =
     (let d = (if b_flagpos d = 1 then let (v, i) = get32 (b_in d) in d\<lparr>b_in := i, b_flags := v, b_flagpos := 16\<rparr>
               else d\<lparr>b_flagpos := b_flagpos d - 1, b_flags := drop_bit 2 (b_flags d)\<rparr>)
      in ret (b_flags d AND 3 = 0, d))"

definition b_char :: "byteDec \<Rightarrow> byte \<times> byteDec" where
  "b_char d = (let (v, i) = get8 (b_in d) in (ucast v, d\<lparr>b_in := i\<rparr>))"

definition b_long :: "byteDec \<Rightarrow> u32 \<times> byteDec" where
  "b_long d =
     (let (n, i) = get8 (b_in d);
          (n, dist, i) = (if n = 255 then let (h, i) = get8 i; (n, i) = get8 i in (n, push_bit 24 h, i) else (n, 0, i));
          (n, i) = (if n = 254 then let (h, i) = get24 i; (l, i) = get8 i in (push_bit 8 h + l, i) else (n, i));
          (v, i) = get24 i
      in (n, d\<lparr>b_in := i, b_dist := dist + v\<rparr>))"

definition b_length :: "u32 \<Rightarrow> byteDec \<Rightarrow> (u32 \<times> byteDec) option" where
  "b_length minlen d =
     (let kind = b_flags d AND 3;
          (n, d) = (if kind = 1 then let (x, i) = get16 (b_in d) in (drop_bit 12 x, d\<lparr>b_in := i, b_dist := x AND 0xfff\<rparr>)
                    else if kind = 2 then let (x, i) = get24 (b_in d) in (drop_bit 18 x, d\<lparr>b_in := i, b_dist := x AND 0x3ffff\<rparr>)
                    else if kind = 3 then b_long d
                    else (0, d))
      in Some (minlen + n, d))"

definition byte_lz :: "byteDec lzDec" where
  "byte_lz = \<lparr>lz_next = b_next, lz_char = b_char, lz_length = b_length, lz_distance = (\<lambda>d. Some (b_dist d, d)), lz_failed = (\<lambda>_. False)\<rparr>"

section \<open>What a decoder tells\<close>

datatype op = Lit byte | Copy u32 u32

text \<open>The decoder tells the operations of the list, one after the other, and does not fail.\<close>

fun tells :: "'d lzDec \<Rightarrow> u32 \<Rightarrow> op list \<Rightarrow> 'd \<Rightarrow> bool" where
  "tells D minlen [] d = True"
| "tells D minlen (Lit b # ops) d =
     (\<exists>d1 d2. \<not> lz_failed D d \<and> lz_next D d = ret (True, d1) \<and> lz_char D d1 = (b, d2) \<and> tells D minlen ops d2)"
| "tells D minlen (Copy n k # ops) d =
     (\<exists>d1 d2 d3. \<not> lz_failed D d \<and> lz_next D d = ret (False, d1) \<and> lz_length D minlen d1 = Some (n, d2) \<and> \<not> lz_failed D d2
        \<and> lz_distance D d2 = Some (k, d3) \<and> \<not> lz_failed D d3 \<and> tells D minlen ops d3)"

text \<open>
  What an encoder may choose: a literal, a new distance with the slots and bits of both numbers, one of
  the last four distances, or a single byte at the last distance. The recent distances are a list, the
  last one first.
\<close>

datatype code = CLit byte | CNew nat nat nat nat | CRep nat nat nat | CChar

definition slot_length :: "u32 \<Rightarrow> nat \<Rightarrow> nat \<Rightarrow> u32" where
  "slot_length minlen lc lv =
     (let n = lc2Base ! lc + word_of_nat lv
      in if n > 104 then n - 4 + minlen else if n > 100 then n - 100 + impossible else n + minlen)"

fun code_op :: "u32 \<Rightarrow> u32 list \<Rightarrow> code \<Rightarrow> op \<times> u32 list" where
  "code_op minlen r (CLit b) = (Lit b, r)"
| "code_op minlen r (CNew lc lv dc dv) = (let k = dcBase ! dc + word_of_nat dv + 1 in (Copy (slot_length minlen lc lv) k, k # take 3 r))"
| "code_op minlen r (CRep i lc lv) = (Copy (slot_length minlen lc lv) (r ! i), r ! i # take i r @ drop (i + 1) r)"
| "code_op minlen r CChar = (Copy 1 (r ! 0), r)"

fun code_ops :: "u32 \<Rightarrow> u32 list \<Rightarrow> code list \<Rightarrow> op list" where
  "code_ops minlen r [] = []"
| "code_ops minlen r (c # cs) = (let (x, r) = code_op minlen r c in x # code_ops minlen r cs)"

fun code_items :: "code \<Rightarrow> item list" where
  "code_items (CLit b) = [Sym (unat b)]"
| "code_items (CNew lc lv dc dv) = [Sym (256 + (dc + 4) * 16 + lc), Raw (lc2Extra ! lc) lv, Raw (dcExtra ! dc) dv]"
| "code_items (CRep i lc lv) = [Sym (256 + i * 16 + lc), Raw (lc2Extra ! lc) lv]"
| "code_items CChar = [Sym 833]"

fun code_ok :: "code \<Rightarrow> bool" where
  "code_ok (CLit b) = True"
| "code_ok (CNew lc lv dc dv) = (lc < 16 \<and> dc < 32 \<and> lv < 2 ^ (lc2Extra ! lc) \<and> dv < 2 ^ (dcExtra ! dc))"
| "code_ok (CRep i lc lv) = (i < 4 \<and> lc < 16 \<and> lv < 2 ^ (lc2Extra ! lc))"
| "code_ok CChar = True"

text \<open>What an entropy coder promises: symbols and bits are answered in order.\<close>

locale symbols =
  fixes S :: "'s symDec" and holds :: "item list \<Rightarrow> 's \<Rightarrow> bool"
  assumes holds_sym: "holds (Sym x # xs) s \<Longrightarrow> \<exists>s'. sd_decode S s = ret (word_of_nat x, s') \<and> \<not> sd_failed S s' \<and> holds xs s'"
    and holds_raw: "holds (Raw b v # xs) s \<Longrightarrow> \<exists>s'. sd_getbits S b s = Some (word_of_nat v, s') \<and> \<not> sd_failed S s' \<and> holds xs s'"

text \<open>The end of the history is the list of recent distances.\<close>

definition recents :: "u32 list \<Rightarrow> 's lz77Dec \<Rightarrow> bool" where
  "recents r d \<longleftrightarrow> length (l_hist d) = 128 \<and> 4 \<le> l_hp d \<and> l_hp d \<le> 128 \<and> length r = 4 \<and> (\<forall>i < 4. l_hist d ! (l_hp d - 1 - i) = r ! i)"

lemma all_less_4: "(\<forall>i < 4. P i) \<longleftrightarrow> P 0 \<and> P 1 \<and> P 2 \<and> P (3 :: nat)"
  by (auto simp: less_Suc_eq numeral_eq_Suc)

lemma recents_new: "recents (replicate 4 0) (newLZ77 s)"
  by (simp add: recents_def newLZ77_def)

lemma recents_push: "recents r d \<Longrightarrow> recents (k # take 3 r) (push_dist k d)"
  unfolding recents_def all_less_4 push_dist_def
  by (cases "l_hp d = 128") (auto simp: nth_Cons numeral_eq_Suc nth_list_update split: nat.splits)

lemma recents_rep: "recents r d \<Longrightarrow> i < 4 \<Longrightarrow> fst (repdist i d) = r ! i \<and> recents (r ! i # take i r @ drop (i + 1) r) (snd (repdist i d))"
proof -
  assume a: "recents r d" "i < 4"
  obtain r0 r1 r2 r3 where r: "r = [r0, r1, r2, r3]"
    using a(1) by (auto simp: recents_def length_Suc_conv numeral_eq_Suc)
  have "i = 0 \<or> i = 1 \<or> i = 2 \<or> i = 3" using a(2) by linarith
  then show ?thesis using a(1) unfolding recents_def all_less_4 repdist_def r
    by (elim disjE) (auto simp: Let_def nth_list_update numeral_eq_Suc)
qed

lemma literal_word: "x < 256 \<longleftrightarrow> unat x < 256" for x :: u32
  by (simp add: word_less_nat_alt)

lemma unat_u32_small: "n < 1024 \<Longrightarrow> unat (word_of_nat n :: u32) = n"
  by (rule unat_of_nat_small) simp

lemma code_number: "lc < 16 \<Longrightarrow> k < 36 \<Longrightarrow>
    (256 + k * 16 + lc) mod 16 = lc \<and> 256 + k * 16 + lc < 833 \<and> (256 + k * 16 + lc - 256) div 16 = k" for k lc :: nat
proof -
  assume a: "lc < 16" "k < 36"
  have "256 + k * 16 + lc = lc + 16 * (16 + k)" by simp
  then have "(256 + k * 16 + lc) mod 16 = (lc + 16 * (16 + k)) mod 16" by (simp only:)
  also have "\<dots> = lc" using a(1) by (simp only: mod_mult_self2) simp
  finally show ?thesis using a by simp
qed

context symbols
begin

lemma next_literal: "holds (Sym (unat b) # xs) (l_src d) \<Longrightarrow> \<not> l_bad d \<Longrightarrow>
    \<exists>s. l_next S d = ret (True, d\<lparr>l_x := ucast b, l_src := s\<rparr>) \<and> holds xs s" for b :: byte
proof -
  assume a: "holds (Sym (unat b) # xs) (l_src d)" "\<not> l_bad d"
  have "word_of_nat (unat b) = (ucast b :: u32)" by simp
  moreover have "(ucast b :: u32) < 256" using unat_byte_less [of b] by (simp add: literal_word unat_ucast_small)
  ultimately show ?thesis using holds_sym [OF a(1)] a(2) by (auto simp: l_next_def)
qed

lemma next_match: "holds (Sym n # xs) (l_src d) \<Longrightarrow> \<not> l_bad d \<Longrightarrow> 256 \<le> n \<Longrightarrow> n < 1024 \<Longrightarrow>
    \<exists>s. l_next S d = ret (False, d\<lparr>l_x := word_of_nat n, l_src := s\<rparr>) \<and> holds xs s"
proof -
  assume a: "holds (Sym n # xs) (l_src d)" "\<not> l_bad d" "256 \<le> n" "n < 1024"
  then have "\<not> (word_of_nat n :: u32) < 256" by (simp add: literal_word unat_u32_small)
  then show ?thesis using holds_sym [OF a(1)] a(2) by (auto simp: l_next_def)
qed

lemma length_slot:
  assumes "holds (Raw (lc2Extra ! lc) v # xs) (l_src d)" "l_x d = word_of_nat n" "n < 833" "n mod 16 = lc"
  shows "\<exists>s. l_length S minlen d = Some (slot_length minlen lc v, d\<lparr>l_src := s\<rparr>) \<and> holds xs s"
proof -
  have "l_x d \<noteq> 833" using assms(2,3) unat_u32_small [of n] by auto
  moreover have "unat (l_x d mod 16) = lc" using assms(2-4) by (simp add: unat_mod unat_u32_small)
  moreover obtain s where "sd_getbits S (lc2Extra ! lc) (l_src d) = Some (word_of_nat v, s)" "\<not> sd_failed S s" "holds xs s"
    using holds_raw [OF assms(1)] by blast
  ultimately have "l_length S minlen d = Some (slot_length minlen lc v, d\<lparr>l_src := s\<rparr>)" "holds xs s"
    by (simp_all add: l_length_def Let_def slot_length_def)
  then show ?thesis by blast
qed

lemma code_of: "n < 833 \<Longrightarrow> 256 \<le> n \<Longrightarrow> l_x d = word_of_nat n \<Longrightarrow> l_x d \<noteq> 833 \<and> unat (l_x d - 256) div 16 = (n - 256) div 16"
  using unat_u32_small [of n] by (auto simp: unat_sub word_le_nat_alt)

text \<open>The decoder tells what the codes stand for.\<close>

lemma lz77_tells:
  "holds (concat (map code_items cs)) (l_src d) \<Longrightarrow> list_all code_ok cs \<Longrightarrow> recents r d \<Longrightarrow> \<not> l_bad d \<Longrightarrow>
   tells (lz77 S) minlen (code_ops minlen r cs) d"
proof (induction cs arbitrary: d r)
  case (Cons c cs)
  let ?rest = "concat (map code_items cs)"
  have ok: "list_all code_ok cs" using Cons.prems(2) by simp
  have bad: "\<not> l_bad d" by (rule Cons.prems(4))
  show ?case
  proof (cases c)
    case (CLit b)
    then obtain s where n: "l_next S d = ret (True, d\<lparr>l_x := ucast b, l_src := s\<rparr>)" "holds ?rest s"
      using next_literal [of b ?rest d] Cons.prems(1,4) by auto
    have "tells (lz77 S) minlen (code_ops minlen r cs) (d\<lparr>l_x := ucast b, l_src := s\<rparr>)"
      using n(2) Cons.prems(3,4) by (intro Cons.IH ok) (simp_all add: recents_def)
    moreover have "(ucast (ucast b :: u32) :: byte) = b" using unat_byte_less [of b] by (intro word_unat_eq_iff [THEN iffD2]) (simp add: unat_ucast_mod)
    ultimately show ?thesis using n(1) bad by (simp add: CLit lz77_def l_char_def)
  next
    case (CNew lc lv dc dv)
    let ?n = "256 + (dc + 4) * 16 + lc" and ?k = "dcBase ! dc + word_of_nat dv + 1"
    have o: "lc < 16" "dc < 32" using Cons.prems(2) by (simp_all add: CNew)
    obtain s1 where n: "l_next S d = ret (False, d\<lparr>l_x := word_of_nat ?n, l_src := s1\<rparr>)" "holds (Raw (lc2Extra ! lc) lv # Raw (dcExtra ! dc) dv # ?rest) s1"
      using next_match [of ?n "Raw (lc2Extra ! lc) lv # Raw (dcExtra ! dc) dv # ?rest" d] Cons.prems(1) o bad by (auto simp: CNew)
    let ?d1 = "d\<lparr>l_x := word_of_nat ?n, l_src := s1\<rparr>"
    have num: "?n mod 16 = lc" "?n < 833" "(?n - 256) div 16 = dc + 4" using code_number [of lc "dc + 4"] o by (simp_all only: add_less_cancel_right [of dc 4 32, simplified])
    then obtain s2 where l: "l_length S minlen ?d1 = Some (slot_length minlen lc lv, ?d1\<lparr>l_src := s2\<rparr>)" "holds (Raw (dcExtra ! dc) dv # ?rest) s2"
      using length_slot [of lc lv "Raw (dcExtra ! dc) dv # ?rest" ?d1 ?n minlen] n(2) by auto
    let ?d2 = "?d1\<lparr>l_src := s2\<rparr>"
    obtain s3 where g: "sd_getbits S (dcExtra ! dc) s2 = Some (word_of_nat dv, s3)" "\<not> sd_failed S s3" "holds ?rest s3"
      using holds_raw [OF l(2)] by blast
    have x: "l_x ?d2 \<noteq> 833" "unat (l_x ?d2 - 256) div 16 = dc + 4" using code_of [of ?n ?d2] num by auto
    let ?d3 = "push_dist ?k (?d2\<lparr>l_src := s3\<rparr>)"
    have di: "l_distance S ?d2 = Some (?k, ?d3)"
      using g(1,2) bad x o by (simp add: l_distance_def Let_def dcExtra_def)
    have src: "l_src ?d3 = s3" "\<not> l_bad ?d3" using bad by (simp_all add: push_dist_def Let_def split: prod.splits)
    have "recents r (?d2\<lparr>l_src := s3\<rparr>)" using Cons.prems(3) by (simp add: recents_def)
    then have "tells (lz77 S) minlen (code_ops minlen (?k # take 3 r) cs) ?d3"
      using g(3) src by (intro Cons.IH ok recents_push) simp_all
    then show ?thesis using n(1) l(1) di bad src by (simp add: CNew lz77_def Let_def)
  next
    case (CRep i lc lv)
    let ?n = "256 + i * 16 + lc"
    have o: "lc < 16" "i < 4" using Cons.prems(2) by (simp_all add: CRep)
    obtain s1 where n: "l_next S d = ret (False, d\<lparr>l_x := word_of_nat ?n, l_src := s1\<rparr>)" "holds (Raw (lc2Extra ! lc) lv # ?rest) s1"
      using next_match [of ?n "Raw (lc2Extra ! lc) lv # ?rest" d] Cons.prems(1) o bad by (auto simp: CRep)
    let ?d1 = "d\<lparr>l_x := word_of_nat ?n, l_src := s1\<rparr>"
    have num: "?n mod 16 = lc" "?n < 833" "(?n - 256) div 16 = i" using code_number [OF o(1), of i] o(2) by auto
    then obtain s2 where l: "l_length S minlen ?d1 = Some (slot_length minlen lc lv, ?d1\<lparr>l_src := s2\<rparr>)" "holds ?rest s2"
      using length_slot [of lc lv ?rest ?d1 ?n minlen] n(2) by auto
    let ?d2 = "?d1\<lparr>l_src := s2\<rparr>"
    have x: "l_x ?d2 \<noteq> 833" "unat (l_x ?d2 - 256) div 16 = i" using code_of [of ?n ?d2] num by auto
    have rec: "recents r ?d2" using Cons.prems(3) by (simp add: recents_def)
    note rp = recents_rep [OF rec o(2)]
    have di: "l_distance S ?d2 = Some (r ! i, snd (repdist i ?d2))"
      using bad x o rp by (simp add: l_distance_def Let_def prod_eq_iff)
    have src: "l_src (snd (repdist i ?d2)) = s2" "\<not> l_bad (snd (repdist i ?d2))" using bad by (simp_all add: repdist_def Let_def)
    have "tells (lz77 S) minlen (code_ops minlen (r ! i # take i r @ drop (i + 1) r) cs) (snd (repdist i ?d2))"
      using l(2) src rp by (intro Cons.IH ok) simp_all
    then show ?thesis using n(1) l(1) di bad src by (simp add: CRep lz77_def Let_def)
  next
    case CChar
    obtain s1 where n: "l_next S d = ret (False, d\<lparr>l_x := word_of_nat 833, l_src := s1\<rparr>)" "holds ?rest s1"
      using next_match [of 833 ?rest d] Cons.prems(1) bad by (auto simp: CChar)
    let ?d1 = "d\<lparr>l_x := word_of_nat 833, l_src := s1\<rparr>"
    have rec: "recents r ?d1" using Cons.prems(3) by (simp add: recents_def)
    then have "l_distance S ?d1 = Some (r ! 0, ?d1)" using bad by (simp add: l_distance_def recents_def)
    moreover have "tells (lz77 S) minlen (code_ops minlen r cs) ?d1" using n(2) rec bad by (intro Cons.IH ok) simp_all
    ultimately show ?thesis using n(1) bad by (simp add: CChar lz77_def l_length_def)
  qed
qed simp

end

interpretation arith: symbols arith_symDec arith_holds
proof
  show "\<exists>s'. sd_decode arith_symDec s = ret (word_of_nat x, s') \<and> \<not> sd_failed arith_symDec s' \<and> arith_holds xs s'"
    if "arith_holds (Sym x # xs) s" for x xs s
    using arith_holds_sym [OF that] by (auto simp: arith_symDec_def ret_def)
  show "\<exists>s'. sd_getbits arith_symDec b s = Some (word_of_nat v, s') \<and> \<not> sd_failed arith_symDec s' \<and> arith_holds xs s'"
    if "arith_holds (Raw b v # xs) s" for b v xs s
    using arith_holds_raw [OF that] by (simp add: arith_symDec_def)
qed

end
