(* ===== verification/Torwindow.thy ===== *)
theory Torwindow
  imports Torlz "HOL-Library.Signed_Division"
begin

text \<open>
  The window of the Tornado decoder (\<open>stream/tor/decompress.go\<close>, \<open>tables.go\<close>): a circular buffer with a
  pad on both sides, into which literals and matches are written and from which it is flushed, and
  the data tables that are kept as differences in the buffer and summed up in what is written out.
\<close>

section \<open>Data tables\<close>

record tableEntry =
  t_typ :: int
  t_start :: int
  t_rows :: int

text \<open>\<open>t_cap\<close> is the capacity of the list, which decides when it counts as filled.\<close>

record dataTables =
  t_list :: "tableEntry list"
  t_cap :: nat
  t_base :: bytes
  t_original :: bytes
  t_baseN :: nat

definition maxTableRow :: nat where
  "maxTableRow = 256"

definition newDataTables :: dataTables where
  "newDataTables = \<lparr>t_list = [], t_cap = 10000, t_base = replicate maxTableRow 0, t_original = replicate maxTableRow 0, t_baseN = 0\<rparr>"

definition table_add :: "int \<Rightarrow> int \<Rightarrow> int \<Rightarrow> dataTables \<Rightarrow> unit fault + dataTables" where
  "table_add typ start rows t =
     (if typ \<le> 0 \<or> typ > int maxTableRow then Inl (Error ())
      else Inr (t\<lparr>t_cap := (if length (t_list t) = t_cap t then t_cap t * 2 else t_cap t),
                  t_list := t_list t @ [\<lparr>t_typ = typ, t_start = start, t_rows = rows\<rparr>]\<rparr>))"

definition filled :: "dataTables \<Rightarrow> bool" where
  "filled t \<longleftrightarrow> length (t_list t) = t_cap t"

text \<open>The rows of a table of \<open>n\<close> bytes each, and bytes written back.\<close>

fun rows_of :: "nat \<Rightarrow> nat \<Rightarrow> bytes \<Rightarrow> bytes list" where
  "rows_of n 0 b = []"
| "rows_of n (Suc k) b = take n b # rows_of n k (drop n b)"

definition write_at :: "nat \<Rightarrow> bytes \<Rightarrow> bytes \<Rightarrow> bytes" where
  "write_at i p b = take i b @ p @ drop (i + length p) b"

definition read_at :: "nat \<Rightarrow> nat \<Rightarrow> bytes \<Rightarrow> bytes" where
  "read_at i n b = take n (drop i b)"

text \<open>Rows of two and four bytes are added as words, others byte by byte with a carry.\<close>

fun undiff_words :: "'w::len word \<Rightarrow> bytes list \<Rightarrow> bytes list" where
  "undiff_words v [] = []"
| "undiff_words v (r # rs) = (let v = v + le_word r in put_le (length r) v # undiff_words v rs)"

fun add_row :: "nat \<Rightarrow> bytes \<Rightarrow> bytes \<Rightarrow> bytes" where
  "add_row carry (p # ps) (c # cs) = (let temp = unat c + unat p + carry in word_of_nat temp # add_row (temp div 256) ps cs)"
| "add_row carry ps cs = []"

fun undiff_rows :: "bytes \<Rightarrow> bytes list \<Rightarrow> bytes list" where
  "undiff_rows p [] = []"
| "undiff_rows p (r # rs) = (let r = add_row 0 p r in r # undiff_rows r rs)"

definition undiffTable :: "bytes \<Rightarrow> nat \<Rightarrow> nat \<Rightarrow> nat \<Rightarrow> bytes" where
  "undiffTable buf n start rows =
     (case rows_of n rows (drop start buf) of
        r # s # rs \<Rightarrow>
          let new = (if n = 2 then undiff_words (le_word r :: u16) (s # rs)
                     else if n = 4 then undiff_words (le_word r :: u32) (s # rs)
                     else undiff_rows r (s # rs))
          in write_at (start + n) (concat new) buf
      | _ \<Rightarrow> buf)"

fun diff_words :: "'w::len word \<Rightarrow> bytes list \<Rightarrow> bytes list" where
  "diff_words prev [] = []"
| "diff_words prev (r # rs) = (let v = le_word r in put_le (length r) (v - prev) # diff_words v rs)"

fun sub_row :: "nat \<Rightarrow> bytes \<Rightarrow> bytes \<Rightarrow> bytes" where
  "sub_row carry (p # ps) (c # cs) =
     (let sum = unat p + carry; borrow = (if unat c < sum then 1 else 0) in (c - word_of_nat sum) # sub_row borrow ps cs)"
| "sub_row carry ps cs = []"

text \<open>The code goes from the last row to the first, so that the row before each is not yet changed.\<close>

fun diff_rows :: "bytes \<Rightarrow> bytes list \<Rightarrow> bytes list" where
  "diff_rows p [] = []"
| "diff_rows p (r # rs) = sub_row 0 p r # diff_rows r rs"

definition diffTable :: "bytes \<Rightarrow> nat \<Rightarrow> nat \<Rightarrow> nat \<Rightarrow> bytes" where
  "diffTable buf n start rows =
     (case rows_of n rows (drop start buf) of
        r # s # rs \<Rightarrow>
          let new = (if n = 2 then diff_words (le_word r :: u16) (s # rs)
                     else if n = 4 then diff_words (le_word r :: u32) (s # rs)
                     else diff_rows r (s # rs))
          in write_at (start + n) (concat new) buf
      | _ \<Rightarrow> buf)"

text \<open>The rows of a table that lie before \<open>writeEnd\<close>; the last one may go beyond it.\<close>

fun process :: "bool \<Rightarrow> int \<Rightarrow> tableEntry list \<Rightarrow> bytes \<Rightarrow> unit fault + bytes" where
  "process diff writeEnd [] buf = Inr buf"
| "process diff writeEnd (p # ps) buf =
     (if t_typ p \<le> 0 then Inl (Error ())
      else let n = min (t_rows p) (1 + (writeEnd - t_start p) sdiv t_typ p) in
        if n \<le> 0 then process diff writeEnd ps buf
        else if t_start p < 0 \<or> t_start p + t_typ p * n > int (length buf) then Inl (Error ())
        else process diff writeEnd ps
          ((if diff then diffTable else undiffTable) buf (nat (t_typ p)) (nat (t_start p)) (nat n)))"

definition tables_undiff :: "bytes \<Rightarrow> int \<Rightarrow> int \<Rightarrow> dataTables \<Rightarrow> unit fault + dataTables \<times> bytes" where
  "tables_undiff buf writeStart writeEnd t =
     (case t_list t of
        p # _ \<Rightarrow>
          if t_start p < writeStart then
            let n = min (t_typ p) (writeStart - t_start p) in
            if n < 0 \<or> t_start p < 0 \<or> n > int (length (t_original t)) \<or> t_start p + n > int (length buf) then Inl (Error ())
            else let i = nat (t_start p); n = nat n;
                     t = t\<lparr>t_baseN := n, t_original := write_at 0 (read_at i n buf) (t_original t)\<rparr> in
              bindE (process False writeEnd (t_list t) (write_at i (take n (t_base t)) buf)) (\<lambda>buf. Inr (t, buf))
          else bindE (process False writeEnd (t_list t) buf) (\<lambda>buf. Inr (t, buf))
      | [] \<Rightarrow> Inr (t, buf))"

definition tables_restore :: "bytes \<Rightarrow> int \<Rightarrow> dataTables \<Rightarrow> bytes" where
  "tables_restore buf writeStart t =
     (case t_list t of
        p # _ \<Rightarrow> if t_start p \<ge> writeStart \<or> t_baseN t = 0 then buf else write_at (nat (t_start p)) (take (t_baseN t) (t_original t)) buf
      | [] \<Rightarrow> buf)"

text \<open>A table that is not finished stays in the list, from its last complete row but one.\<close>

definition tables_diff :: "bytes \<Rightarrow> int \<Rightarrow> int \<Rightarrow> dataTables \<Rightarrow> unit fault + dataTables \<times> bytes" where
  "tables_diff buf writeStart writeEnd t =
     (let all = (\<lambda>t rest. bindE (process True writeEnd (t_list t) buf) (\<lambda>buf. Inr (t\<lparr>t_list := rest\<rparr>, tables_restore buf writeStart t)))
      in if t_list t = [] then all t []
      else let p = last (t_list t) in
        if t_typ p \<le> 0 then Inl (Error ())
        else let processed = (writeEnd - t_start p) sdiv t_typ p in
          if processed < t_rows p then
            let k = max 0 (processed - 2); q = p\<lparr>t_start := t_start p + k * t_typ p, t_rows := t_rows p - k\<rparr> in
            if t_typ q > int (length (t_base t)) \<or> t_start q < 0 \<or> t_start q + t_typ q > int (length buf) then Inl (Error ())
            else all (t\<lparr>t_base := write_at 0 (read_at (nat (t_start q)) (nat (t_typ q)) buf) (t_base t)\<rparr>) [q]
          else all t [])"

fun shift_entries :: "int \<Rightarrow> int \<Rightarrow> tableEntry list \<Rightarrow> bytes \<Rightarrow> unit fault + tableEntry list \<times> bytes" where
  "shift_entries delta newPos [] buf = Inr ([], buf)"
| "shift_entries delta newPos (p # ps) buf =
     (let start = t_start p - delta; ncopy = newPos - start in
      if ncopy < 0 \<or> start < 0 \<or> t_start p < 0 \<or> t_start p + ncopy > int (length buf) \<or> start + ncopy > int (length buf) then Inl (Error ())
      else bindE (shift_entries delta newPos ps (write_at (nat start) (read_at (nat (t_start p)) (nat ncopy) buf) buf))
        (\<lambda>(ps, buf). Inr (p\<lparr>t_start := start\<rparr> # ps, buf)))"

definition tables_shift :: "int \<Rightarrow> int \<Rightarrow> bytes \<Rightarrow> dataTables \<Rightarrow> unit fault + dataTables \<times> bytes" where
  "tables_shift oldPos newPos buf t =
     (if length (t_list t) > 1 \<or> oldPos \<le> newPos then Inl (Error ())
      else bindE (shift_entries (oldPos - newPos) newPos (t_list t) buf) (\<lambda>(ps, buf). Inr (t\<lparr>t_list := ps\<rparr>, buf)))"

section \<open>The window\<close>

definition padTables :: nat where
  "padTables = 512"

definition hugeBuf :: nat where
  "hugeBuf = 8 * 1024 * 1024"

text \<open>
  The buffer begins at \<open>padTables\<close>; places are natural numbers. A place that would become negative is 0,
  which is before the buffer too.
\<close>

record window =
  w_buf :: bytes
  w_size :: nat
  w_dict :: nat
  w_out :: nat
  w_wstart :: nat
  w_wend :: nat
  w_filePos :: u64
  w_overflow :: bool
  w_limit :: int
  w_written :: bytes
  w_tables :: dataTables

definition newWindow :: "int \<Rightarrow> nat \<Rightarrow> window" where
  "newWindow limit dict =
     (let size = max dict largeBuf
      in \<lparr>w_buf = replicate (padTables + size + padTables) 0, w_size = size, w_dict = dict, w_out = padTables, w_wstart = padTables,
          w_wend = padTables + min size hugeBuf, w_filePos = 0, w_overflow = False, w_limit = limit, w_written = [],
          w_tables = newDataTables\<rparr>)"

definition w_wrap :: "window \<Rightarrow> unit fault + window" where
  "w_wrap w =
     (if w_out w < padTables + w_size w then Inr w
      else let delta = w_out w - padTables; w = (if w_filePos w > 2 ^ 63 then w\<lparr>w_overflow := True\<rparr> else w) in
        bindE (tables_shift (int (w_out w)) (int padTables) (w_buf w) (w_tables w)) (\<lambda>(t, buf).
          Inr (w\<lparr>w_filePos := w_filePos w + word_of_nat delta, w_wstart := w_wstart w - delta, w_wend := w_wend w - delta,
                 w_tables := t, w_buf := buf, w_out := w_out w - delta\<rparr>)))"

definition w_room :: "window \<Rightarrow> unit fault + window" where
  "w_room w =
     (if w_wstart w < w_wend w then Inr w
      else if padTables + w_size w < w_wstart w then Inl (Error ())
      else Inr (w\<lparr>w_wend := w_wstart w + min hugeBuf (padTables + w_size w - w_wstart w)\<rparr>))"

definition w_emit :: "window \<Rightarrow> window" where
  "w_emit w =
     (let n = w_out w - w_wstart w
      in if 0 < n \<and> (w_limit w < 0 \<or> int (length (w_written w) + n) \<le> w_limit w)
         then w\<lparr>w_written := w_written w @ read_at (w_wstart w) n (w_buf w)\<rparr> else w)"

definition w_flush :: "bool \<Rightarrow> window \<Rightarrow> unit fault + window" where
  "w_flush force w =
     (if \<not> force \<and> w_out w < w_wend w then Inr w
      else bindE (tables_undiff (w_buf w) (int (w_wstart w)) (int (w_out w)) (w_tables w)) (\<lambda>(t, buf).
        if w_out w < w_wstart w then Inl (Error ())
        else let w = w_emit (w\<lparr>w_buf := buf, w_tables := t\<rparr>) in
          bindE (tables_diff (w_buf w) (int (w_wstart w)) (int (w_out w)) (w_tables w)) (\<lambda>(t, buf).
            bindE (w_wrap (w\<lparr>w_buf := buf, w_tables := t, w_wstart := w_out w\<rparr>)) w_room)))"

definition w_put :: "byte \<Rightarrow> window \<Rightarrow> unit fault + window" where
  "w_put b w = (if w_out w < length (w_buf w) then Inr (w\<lparr>w_buf := (w_buf w)[w_out w := b], w_out := w_out w + 1\<rparr>) else Inl Panic)"

text \<open>The two loops that copy a match.\<close>

fun fast_copy :: "nat \<Rightarrow> nat \<Rightarrow> window \<Rightarrow> unit fault + window" where
  "fast_copy 0 p w = Inr w"
| "fast_copy (Suc n) p w = bindE (idx (w_buf w) p) (\<lambda>b. bindE (w_put b w) (fast_copy n (p + 1)))"

fun slow_copy :: "nat \<Rightarrow> nat \<Rightarrow> window \<Rightarrow> unit fault + window" where
  "slow_copy 0 p w = Inr w"
| "slow_copy (Suc n) p w =
     bindE (idx (w_buf w) p) (\<lambda>b. bindE (w_put b w) (\<lambda>w.
       bindE (w_flush False w) (slow_copy n (if p + 1 = padTables + w_size w then padTables else p + 1))))"

datatype 'd next_step = Finished window | Continue 'd window

definition w_match :: "u32 \<Rightarrow> u32 \<Rightarrow> window \<Rightarrow> unit fault + window \<times> bool" where
  "w_match len dist w =
     (let pos = w_out w - padTables; more = (\<lambda>m. bindE m (\<lambda>w. Inr (w, False))) in
      if dist \<le> word_of_nat pos \<and> int (w_wend w) - int (w_out w) > int (unat len) then
        if len = 0 then Inl (Error ()) else more (fast_copy (unat len) (w_out w - unat dist) w)
      else if len < impossible then
        if len = 0 \<or> unat dist > w_size w \<or> unat len > 2 * w_dict w
           \<or> (w_filePos w + word_of_nat pos < (ucast dist :: u64) \<and> \<not> w_overflow w) then Inl (Error ())
        else more (slow_copy (unat len) (if dist \<le> word_of_nat pos then w_out w - unat dist else w_out w + w_size w - unat dist) w)
      else if len = impossible \<and> dist = impossible then bindE (w_flush True w) (\<lambda>w. Inr (w, True))
      else let typ = len - impossible in
        if typ = 0 \<or> unat dist * unat typ > 2 * w_dict w then Inl (Error ())
        else bindE (table_add (int (unat typ)) (int (w_out w)) (int (unat dist)) (w_tables w)) (\<lambda>t.
          more (if filled t then w_flush True (w\<lparr>w_tables := t\<rparr>) else Inr (w\<lparr>w_tables := t\<rparr>))))"

definition w_literal :: "byte \<Rightarrow> window \<Rightarrow> unit fault + window" where
  "w_literal b w = bindE (w_put b w) (w_flush False)"

definition w_step :: "'d lzDec \<Rightarrow> u32 \<Rightarrow> 'd \<Rightarrow> window \<Rightarrow> 'd next_step run" where
  "w_step D minlen d w =
     (if lz_failed D d then fails
      else bindR (lz_next D d) (\<lambda>(lit, d).
        if lit then let (b, d) = lz_char D d in bindR (Some (w_literal b w)) (\<lambda>w. ret (Continue d w))
        else Option.bind (lz_length D minlen d) (\<lambda>(len, d).
          if lz_failed D d then fails
          else Option.bind (lz_distance D d) (\<lambda>(dist, d).
            if lz_failed D d then fails
            else bindR (Some (w_match len dist w)) (\<lambda>(w, eof). ret (if eof then Finished w else Continue d w))))))"

partial_function (option) w_run :: "'d lzDec \<Rightarrow> u32 \<Rightarrow> 'd \<Rightarrow> window \<Rightarrow> window run" where
  "w_run D minlen d w = bindR (w_step D minlen d w) (\<lambda>r. case r of Finished w \<Rightarrow> ret w | Continue d w \<Rightarrow> w_run D minlen d w)"

section \<open>A window without tables\<close>

text \<open>What a list of operations stands for, after the bytes of \<open>t\<close>; \<open>None\<close> if one is not allowed.\<close>

fun copy_bytes :: "nat \<Rightarrow> nat \<Rightarrow> bytes \<Rightarrow> bytes" where
  "copy_bytes 0 k t = t"
| "copy_bytes (Suc n) k t = copy_bytes n k (t @ [t ! (length t - k)])"

definition copy_ok :: "nat \<Rightarrow> nat \<Rightarrow> u32 \<Rightarrow> u32 \<Rightarrow> bool" where
  "copy_ok dict pos len dist \<longleftrightarrow> 0 < unat len \<and> len < impossible \<and> unat len \<le> 2 * dict \<and> 0 < unat dist \<and> unat dist \<le> pos
     \<and> unat dist \<le> max dict largeBuf"

fun lz_text :: "nat \<Rightarrow> op list \<Rightarrow> bytes \<Rightarrow> bytes option" where
  "lz_text dict [] t = None"
| "lz_text dict (Lit b # ops) t = lz_text dict ops (t @ [b])"
| "lz_text dict (Copy len dist # ops) t =
     (if len = impossible \<and> dist = impossible then if ops = [] then Some t else None
      else if copy_ok dict (length t) len dist then lz_text dict ops (copy_bytes (unat len) (unat dist) t)
      else None)"

text \<open>The window holds the last bytes of the text, in a circle, and what was flushed is written.\<close>

definition w_mid :: "nat \<Rightarrow> bytes \<Rightarrow> window \<Rightarrow> bool" where
  "w_mid dict t w \<longleftrightarrow> w_dict w = dict \<and> w_size w = max dict largeBuf \<and> length (w_buf w) = padTables + w_size w + padTables
     \<and> t_list (w_tables w) = [] \<and> t_cap (w_tables w) \<noteq> 0
     \<and> padTables \<le> w_wstart w \<and> w_wstart w \<le> w_out w \<and> w_out w \<le> w_wend w \<and> w_wend w \<le> padTables + w_size w \<and> w_wend w \<le> w_wstart w + hugeBuf
     \<and> length t = unat (w_filePos w) + (w_out w - padTables) \<and> unat (w_filePos w) mod w_size w = 0
     \<and> (\<forall>k < length t. length t \<le> k + w_size w \<longrightarrow> w_buf w ! (padTables + k mod w_size w) = t ! k)
     \<and> w_written w = take (unat (w_filePos w) + (w_wstart w - padTables)) t"

text \<open>Between two operations there is room for a byte.\<close>

definition w_holds :: "nat \<Rightarrow> bytes \<Rightarrow> window \<Rightarrow> bool" where
  "w_holds dict t w \<longleftrightarrow> w_mid dict t w \<and> w_out w < w_wend w"

definition in_limit :: "bytes \<Rightarrow> window \<Rightarrow> bool" where
  "in_limit t w \<longleftrightarrow> length t < 2 ^ 63 \<and> (w_limit w < 0 \<or> int (length t) \<le> w_limit w)"

lemma in_limit_le: "length t \<le> length u \<Longrightarrow> in_limit u w \<Longrightarrow> in_limit t w"
  unfolding in_limit_def by linarith

lemma size_pos: "w_mid dict t w \<Longrightarrow> 0 < w_size w"
  by (simp add: w_mid_def largeBuf_def)

lemma window_new: "w_holds dict [] (newWindow limit dict)"
  by (simp add: w_holds_def w_mid_def newWindow_def newDataTables_def Let_def padTables_def largeBuf_def hugeBuf_def)

lemma mod_place: "F mod s = 0 \<Longrightarrow> i < s \<Longrightarrow> (F + i) mod s = i" for F i s :: nat
  by (metis add_0 mod_add_left_eq mod_less)

lemma flush_idle: "w_out w < w_wend w \<Longrightarrow> w_flush False w = Inr w"
  by (simp add: w_flush_def)

lemma flush_empty:
  assumes "t_list (w_tables w) = []" "w_wstart w \<le> w_out w" "force \<or> w_wend w \<le> w_out w"
  shows "w_flush force w = bindE (w_wrap ((w_emit w)\<lparr>w_wstart := w_out w\<rparr>)) w_room"
proof -
  have 1: "tables_undiff (w_buf w) (int (w_wstart w)) (int (w_out w)) (w_tables w) = Inr (w_tables w, w_buf w)"
    using assms(1) by (simp add: tables_undiff_def)
  have t: "(w_tables w)\<lparr>t_list := []\<rparr> = w_tables w" using assms(1) by simp
  have e: "w_wstart (w_emit w) = w_wstart w" "w_out (w_emit w) = w_out w" "w_buf (w_emit w) = w_buf w" "w_tables (w_emit w) = w_tables w"
    by (simp_all add: w_emit_def Let_def)
  have 2: "tables_diff (w_buf w) (int (w_wstart w)) (int (w_out w)) (w_tables w) = Inr (w_tables w, w_buf w)"
    using assms(1) by (simp add: tables_diff_def Let_def tables_restore_def)
  have same: "w\<lparr>w_buf := w_buf w, w_tables := w_tables w\<rparr> = w" by simp
  have eq: "(w_emit w)\<lparr>w_buf := w_buf w, w_tables := w_tables w, w_wstart := w_out w\<rparr> = (w_emit w)\<lparr>w_wstart := w_out w\<rparr>"
    using e(3,4) by (metis window.surjective window.update_convs(1,11))
  have c: "(\<not> force \<and> w_out w < w_wend w) = False" "(w_out w < w_wstart w) = False" using assms(2,3) by auto
  show ?thesis unfolding w_flush_def Let_def c 1 bindE.simps prod.case same e if_False 2 eq ..
qed

lemma emit_all:
  assumes "w_mid dict t w" "in_limit t w"
  shows "w_emit w = w\<lparr>w_written := t\<rparr>"
proof -
  let ?F = "unat (w_filePos w)" and ?n = "w_out w - w_wstart w" and ?s = "w_wstart w - padTables"
  have m: "length (w_buf w) = padTables + w_size w + padTables" "padTables \<le> w_wstart w" "w_wstart w \<le> w_out w" "w_out w \<le> w_wend w"
    "w_wend w \<le> padTables + w_size w" "length t = ?F + (w_out w - padTables)" "?F mod w_size w = 0"
    "\<forall>k < length t. length t \<le> k + w_size w \<longrightarrow> w_buf w ! (padTables + k mod w_size w) = t ! k" "w_written w = take (?F + ?s) t"
    using assms(1) unfolding w_mid_def by blast+
  have len: "length (w_written w) + ?n = length t" using m(2,3,6,9) by simp
  have "read_at (w_wstart w) ?n (w_buf w) = drop (?F + ?s) t"
  proof (rule nth_equalityI)
    show "length (read_at (w_wstart w) ?n (w_buf w)) = length (drop (?F + ?s) t)"
      using m(1-6) by (simp add: read_at_def)
    fix i assume "i < length (read_at (w_wstart w) ?n (w_buf w))"
    then have i: "i < ?n" by (simp add: read_at_def)
    then have si: "?s + i < w_size w" using m(2-5) by linarith
    have "(?F + (?s + i)) mod w_size w = ?s + i" by (rule mod_place [OF m(7) si])
    moreover have "?F + (?s + i) < length t" "length t \<le> ?F + (?s + i) + w_size w" using i m(2-6) by linarith+
    ultimately have "w_buf w ! (padTables + (?s + i)) = t ! (?F + (?s + i))" using m(8) by metis
    moreover have "read_at (w_wstart w) ?n (w_buf w) ! i = w_buf w ! (w_wstart w + i)"
      using i m(1-5) by (simp add: read_at_def)
    ultimately show "read_at (w_wstart w) ?n (w_buf w) ! i = drop (?F + ?s) t ! i"
      using i m(2,3,6) by (simp add: add.assoc)
  qed
  then have app: "w_written w @ read_at (w_wstart w) ?n (w_buf w) = t" using m(9) by simp
  have lim: "w_limit w < 0 \<or> int (length (w_written w) + ?n) \<le> w_limit w" using assms(2) len by (simp add: in_limit_def)
  show ?thesis
  proof (cases "0 < ?n")
    case True
    then show ?thesis using lim unfolding w_emit_def Let_def app by (simp only: simp_thms if_True)
  next
    case False
    then have "w_written w = t" using app by (simp add: read_at_def)
    then show ?thesis using False by (simp add: w_emit_def)
  qed
qed

lemma flush_holds:
  assumes "w_mid dict t w" "in_limit t w" "dict \<le> 2 ^ 30"
  shows "\<exists>w'. w_flush force w = Inr w' \<and> w_holds dict t w' \<and> w_limit w' = w_limit w \<and> (force \<longrightarrow> w_written w' = t)"
proof (cases "force \<or> w_wend w \<le> w_out w")
  case False
  then show ?thesis using assms(1) by (auto simp: flush_idle w_holds_def)
next
  case True
  let ?w1 = "w\<lparr>w_written := t, w_wstart := w_out w\<rparr>" and ?F = "unat (w_filePos w)"
  have m: "w_dict w = dict" "w_size w = max dict largeBuf" "length (w_buf w) = padTables + w_size w + padTables" "t_list (w_tables w) = []" "t_cap (w_tables w) \<noteq> 0"
    "padTables \<le> w_wstart w" "w_wstart w \<le> w_out w" "w_out w \<le> w_wend w" "w_wend w \<le> padTables + w_size w"
    "length t = ?F + (w_out w - padTables)" "?F mod w_size w = 0"
    "\<forall>k < length t. length t \<le> k + w_size w \<longrightarrow> w_buf w ! (padTables + k mod w_size w) = t ! k"
    using assms(1) unfolding w_mid_def by blast+
  have hb: "w_wend w \<le> w_out w + hugeBuf" using assms(1) unfolding w_mid_def by linarith
  have sz: "0 < w_size w" by (rule size_pos [OF assms(1)])
  have big: "0 < min hugeBuf n" if "0 < n" for n using that by (simp add: hugeBuf_def)
  have f: "w_flush force w = bindE (w_wrap ?w1) w_room"
    unfolding flush_empty [OF m(4,7) True] emit_all [OF assms(1,2)] by simp
  show ?thesis
  proof (cases "w_out w < padTables + w_size w")
    case True
    then have "w_wrap ?w1 = Inr ?w1" by (simp add: w_wrap_def)
    moreover have "w_room ?w1 = Inr ?w1 \<or>
        w_room ?w1 = Inr (?w1\<lparr>w_wend := w_out w + min hugeBuf (padTables + w_size w - w_out w)\<rparr>)"
      using True by (simp add: w_room_def)
    moreover have "w_room ?w1 = Inr ?w1 \<Longrightarrow> w_out w < w_wend w"
      using True big [of "padTables + w_size w - w_out w"] by (auto simp: w_room_def split: if_splits dest: arg_cong [where f = w_wend])
    moreover have "w_out w < w_wend w \<Longrightarrow> w_holds dict t ?w1"
      using m hb by (simp add: w_holds_def w_mid_def)
    moreover have "w_out w + min hugeBuf (padTables + w_size w - w_out w) \<le> padTables + w_size w" using True by simp
    then have "w_holds dict t (?w1\<lparr>w_wend := w_out w + min hugeBuf (padTables + w_size w - w_out w)\<rparr>)"
      using m True big [of "padTables + w_size w - w_out w"] by (simp add: w_holds_def w_mid_def)
    ultimately show ?thesis unfolding f by (elim disjE) (auto intro!: exI)
  next
    case False
    then have o: "w_out w = padTables + w_size w" using m(8,9) by simp
    have nov: "\<not> w_filePos w > 2 ^ 63" using m(10) assms(2) by (simp add: in_limit_def word_less_nat_alt)
    let ?w2 = "?w1\<lparr>w_filePos := w_filePos w + word_of_nat (w_size w), w_wstart := padTables, w_wend := w_wend w - w_size w, w_out := padTables\<rparr>"
    have sh: "tables_shift (int (w_out w)) (int padTables) (w_buf w) (w_tables w) = Inr (w_tables w, w_buf w)"
      using o sz m(4) by (simp add: tables_shift_def)
    have "w_wrap ?w1 = Inr ?w2"
      using o nov sh by (simp add: w_wrap_def Let_def)
    moreover have "w_room ?w2 = Inr (?w2\<lparr>w_wend := padTables + min hugeBuf (w_size w)\<rparr>)"
      using m(9) by (simp add: w_room_def)
    moreover have "unat (w_filePos w + word_of_nat (w_size w)) = length t"
    proof -
      have "w_size w < 2 ^ 64" using m(2) assms(3) by (simp add: largeBuf_def max_def)
      then have "unat (word_of_nat (w_size w) :: u64) = w_size w" by (rule u64_small)
      then show ?thesis using m(10) assms(2) o by (simp add: unat_word_ariths in_limit_def)
    qed
    moreover have "length t mod w_size w = 0" using m(10,11) o by simp
    ultimately have "w_flush force w = Inr (?w2\<lparr>w_wend := padTables + min hugeBuf (w_size w)\<rparr>)"
      "w_holds dict t (?w2\<lparr>w_wend := padTables + min hugeBuf (w_size w)\<rparr>)"
      unfolding f using m big [OF sz] by (simp_all add: w_holds_def w_mid_def)
    then show ?thesis by (intro exI) auto
  qed
qed

lemma holds_facts:
  assumes "w_holds dict t w"
  shows "w_size w = max dict largeBuf" "length (w_buf w) = padTables + w_size w + padTables" "w_out w < w_wend w" "w_wend w \<le> padTables + w_size w"
    "padTables \<le> w_out w" "length t = unat (w_filePos w) + (w_out w - padTables)" "unat (w_filePos w) mod w_size w = 0"
    "\<forall>k < length t. length t \<le> k + w_size w \<longrightarrow> w_buf w ! (padTables + k mod w_size w) = t ! k" "0 < w_size w" "w_dict w = dict"
proof -
  show "0 < w_size w" using assms size_pos by (auto simp: w_holds_def)
  show "padTables \<le> w_out w" using assms unfolding w_holds_def w_mid_def by (meson le_trans)
qed (use assms in \<open>unfold w_holds_def w_mid_def, blast+\<close>)

lemma mod_apart: "k < n \<Longrightarrow> n < k + s \<Longrightarrow> k mod s \<noteq> n mod s" for k n s :: nat
  by (metis add_diff_inverse_nat less_imp_not_less mod_eq_dvd_iff_nat less_imp_le nat_dvd_not_less zero_less_diff less_diff_conv2 add.commute)

lemma put_holds:
  assumes "w_holds dict t w"
  shows "\<exists>w'. w_put b w = Inr w' \<and> w_mid dict (t @ [b]) w' \<and> w_limit w' = w_limit w \<and> w_size w' = w_size w \<and> w_out w' = w_out w + 1 \<and> w_wend w' = w_wend w"
proof -
  note h = holds_facts [OF assms]
  let ?w = "w\<lparr>w_buf := (w_buf w)[w_out w := b], w_out := w_out w + 1\<rparr>"
  have pos: "w_out w - padTables < w_size w" using h(3-5) by linarith
  have tm: "length t mod w_size w = w_out w - padTables" using mod_place [OF h(7) pos] h(6) by simp
  have o: "w_out w = padTables + length t mod w_size w" using tm h(5) by simp
  have c: "(w_buf w)[w_out w := b] ! (padTables + k mod w_size w) = (t @ [b]) ! k"
    if k: "k < length (t @ [b])" "length (t @ [b]) \<le> k + w_size w" for k
  proof (cases "k = length t")
    case True
    then show ?thesis using o h(2-4) by simp
  next
    case False
    then have "k < length t" "length t < k + w_size w" using k by simp_all
    then have "k mod w_size w \<noteq> length t mod w_size w" "w_buf w ! (padTables + k mod w_size w) = t ! k"
      using mod_apart h(8) by (blast, simp)
    then show ?thesis using o \<open>k < length t\<close> by (simp add: nth_append)
  qed
  have m: "w_mid dict t w" using assms by (simp add: w_holds_def)
  have "w_written w = take (unat (w_filePos w) + (w_wstart w - padTables)) t" "w_wstart w \<le> w_out w" using m unfolding w_mid_def by blast+
  moreover from this have "unat (w_filePos w) + (w_wstart w - padTables) \<le> length t" using h(6) by simp
  ultimately have wr: "w_written ?w = take (unat (w_filePos w) + (w_wstart w - padTables)) (t @ [b])" by simp
  have hb: "w_wend w \<le> w_wstart w + hugeBuf" using m unfolding w_mid_def by blast
  have "\<forall>k < length (t @ [b]). length (t @ [b]) \<le> k + w_size w \<longrightarrow> (w_buf w)[w_out w := b] ! (padTables + k mod w_size w) = (t @ [b]) ! k"
    using c by blast
  moreover have "w_out w + 1 \<le> w_wend w" "length (t @ [b]) = unat (w_filePos w) + (w_out w + 1 - padTables)" using h(3,5,6) by simp_all
  moreover have "w_dict w = dict" "t_list (w_tables w) = []" "t_cap (w_tables w) \<noteq> 0" "padTables \<le> w_wstart w" "w_wstart w \<le> w_out w" using m unfolding w_mid_def by blast+
  ultimately have "w_mid dict (t @ [b]) ?w" using h(1,2,4,7) wr hb unfolding w_mid_def by simp
  moreover have "w_put b w = Inr ?w" using h(2-4) by (simp add: w_put_def)
  ultimately show ?thesis by simp
qed

lemma literal_holds:
  assumes "w_holds dict t w" "in_limit (t @ [b]) w" "dict \<le> 2 ^ 30"
  shows "\<exists>w'. w_literal b w = Inr w' \<and> w_holds dict (t @ [b]) w' \<and> w_limit w' = w_limit w"
proof -
  obtain w1 where w1: "w_put b w = Inr w1" "w_mid dict (t @ [b]) w1" "w_limit w1 = w_limit w" using put_holds [OF assms(1)] by blast
  moreover have "in_limit (t @ [b]) w1" using assms(2) w1(3) by (simp add: in_limit_def)
  ultimately show ?thesis using flush_holds [OF w1(2) _ assms(3), of False] by (auto simp: w_literal_def)
qed

lemma length_copy_bytes [simp]: "length (copy_bytes n k t) = length t + n"
  by (induction n k t rule: copy_bytes.induct) simp_all

lemma Suc_mod_place: "padTables + Suc k mod s = (if padTables + k mod s + 1 = padTables + s then padTables else padTables + k mod s + 1)"
  by (simp add: mod_Suc)

lemma slow_copy_holds:
  assumes "w_holds dict t w" "0 < k" "k \<le> length t" "k \<le> w_size w" "in_limit (copy_bytes n k t) w" "dict \<le> 2 ^ 30"
  shows "\<exists>w'. slow_copy n (padTables + (length t - k) mod w_size w) w = Inr w' \<and> w_holds dict (copy_bytes n k t) w' \<and> w_limit w' = w_limit w"
  using assms
proof (induction n arbitrary: t w)
  case (Suc n)
  note h = holds_facts [OF Suc.prems(1)]
  let ?p = "padTables + (length t - k) mod w_size w" and ?b = "t ! (length t - k)"
  have "(length t - k) mod w_size w < w_size w" using h(9) by simp
  then have "?p < length (w_buf w)" using h(2) by simp
  moreover have "w_buf w ! ?p = ?b" using h(8) Suc.prems(2-4) by simp
  ultimately have i: "(idx (w_buf w) ?p :: unit fault + byte) = Inr ?b" by (simp add: idx_def)
  obtain w1 where w1: "w_put ?b w = Inr w1" "w_mid dict (t @ [?b]) w1" "w_limit w1 = w_limit w" "w_size w1 = w_size w" using put_holds [OF Suc.prems(1)] by blast
  have "in_limit (t @ [?b]) w1" using Suc.prems(5) w1(3) by (auto simp: in_limit_def)
  then obtain w2 where w2: "w_flush False w1 = Inr w2" "w_holds dict (t @ [?b]) w2" "w_limit w2 = w_limit w"
    using flush_holds [OF w1(2) _ Suc.prems(6), of False] w1(3) by auto
  have sz: "w_size w2 = w_size w" using holds_facts(1) [OF w2(2)] h(1) by simp
  have "Suc (length t - k) = length (t @ [?b]) - k" using Suc.prems(3) by simp
  then have p: "(if ?p + 1 = padTables + w_size w1 then padTables else ?p + 1) = padTables + (length (t @ [?b]) - k) mod w_size w2"
    unfolding w1(4) sz using Suc_mod_place [of "length t - k" "w_size w"] by simp
  have "in_limit (copy_bytes n k (t @ [?b])) w2" using Suc.prems(5) w2(3) by (simp add: in_limit_def)
  from Suc.IH [OF w2(2) Suc.prems(2) _ _ this Suc.prems(6)] Suc.prems(3,4) sz obtain w3 where
    "slow_copy n (padTables + (length (t @ [?b]) - k) mod w_size w2) w2 = Inr w3" "w_holds dict (copy_bytes n k (t @ [?b])) w3" "w_limit w3 = w_limit w2"
    by auto
  then show ?case using i w1(1) w2 p by simp
qed simp

lemma fast_is_slow: "w_out w + n < w_wend w \<Longrightarrow> w_wend w \<le> padTables + w_size w \<Longrightarrow> p < w_out w \<Longrightarrow> fast_copy n p w = slow_copy n p w"
proof (induction n arbitrary: p w)
  case (Suc n)
  have "bindE (w_put b w) (fast_copy n (p + 1)) = bindE (w_put b w) (\<lambda>w. bindE (w_flush False w)
      (slow_copy n (if p + 1 = padTables + w_size w then padTables else p + 1)))" for b
    using Suc by (simp add: w_put_def flush_idle)
  then show ?case by simp
qed simp

lemma match_holds:
  assumes "w_holds dict t w" "copy_ok dict (length t) len dist" "in_limit (copy_bytes (unat len) (unat dist) t) w" "dict \<le> 2 ^ 30"
  shows "\<exists>w'. w_match len dist w = Inr (w', False) \<and> w_holds dict (copy_bytes (unat len) (unat dist) t) w' \<and> w_limit w' = w_limit w"
proof -
  note h = holds_facts [OF assms(1)]
  have ok: "0 < unat len" "len < impossible" "unat len \<le> 2 * dict" "0 < unat dist" "unat dist \<le> length t" "unat dist \<le> w_size w"
    using assms(2) h(1) by (simp_all add: copy_ok_def)
  let ?pos = "w_out w - padTables" and ?q = "padTables + (length t - unat dist) mod w_size w"
  have sz: "w_size w \<le> 2 ^ 30" using h(1) assms(4) by (simp add: largeBuf_def)
  have pos: "?pos < w_size w" using h(3-5) by linarith
  have up: "unat (word_of_nat ?pos :: u32) = ?pos" using pos sz by (intro unat_of_nat_small) simp
  then have near: "dist \<le> word_of_nat ?pos \<longleftrightarrow> unat dist \<le> ?pos" by (simp add: word_le_nat_alt)
  have q: "?q = w_out w - unat dist" if "unat dist \<le> ?pos"
  proof -
    have "length t - unat dist = unat (w_filePos w) + (?pos - unat dist)" using that h(6) by simp
    then have "(length t - unat dist) mod w_size w = ?pos - unat dist" using mod_place [OF h(7), of "?pos - unat dist"] pos by simp
    then show ?thesis using that h(5) by simp
  qed
  obtain w' where w': "slow_copy (unat len) ?q w = Inr w'" "w_holds dict (copy_bytes (unat len) (unat dist) t) w'" "w_limit w' = w_limit w"
    using slow_copy_holds [OF assms(1) ok(4-6) assms(3,4)] by blast
  have nz: "len \<noteq> 0" using ok(1) by auto
  show ?thesis
  proof (cases "unat dist \<le> ?pos \<and> int (w_wend w) - int (w_out w) > int (unat len)")
    case True
    then have "fast_copy (unat len) (w_out w - unat dist) w = slow_copy (unat len) (w_out w - unat dist) w"
    proof (intro fast_is_slow)
      show "w_out w + unat len < w_wend w" using True by linarith
      show "w_out w - unat dist < w_out w" using True h(5) ok(4) by linarith
    qed (rule h(4))
    then have "w_match len dist w = Inr (w', False)" using True near nz w'(1) q by (simp add: w_match_def Let_def)
    then show ?thesis using w' by blast
  next
    case False
    have c: "(dist \<le> word_of_nat ?pos \<and> int (w_wend w) - int (w_out w) > int (unat len)) = False" using False unfolding near by simp
    have tm: "unat (w_filePos w + word_of_nat ?pos) = length t"
    proof -
      have "unat (word_of_nat ?pos :: u64) = ?pos" using pos sz by (intro u64_small) simp
      then show ?thesis using h(6) assms(3) by (simp add: unat_word_ariths in_limit_def)
    qed
    have "unat (ucast dist :: u64) = unat dist" using unat_u32_less [of dist] by (simp add: unat_ucast_small)
    then have nl: "\<not> w_filePos w + word_of_nat ?pos < (ucast dist :: u64)" using tm ok(5) by (simp add: word_less_nat_alt)
    have q2: "?q = (if dist \<le> word_of_nat ?pos then w_out w - unat dist else w_out w + w_size w - unat dist)"
    proof (cases "unat dist \<le> ?pos")
      case far: False
      have F: "w_size w \<le> unat (w_filePos w)"
      proof (rule ccontr)
        assume "\<not> w_size w \<le> unat (w_filePos w)"
        then have "unat (w_filePos w) = 0" using h(7) by simp
        then show False using far ok(5) h(6) by simp
      qed
      have "length t - unat dist = (unat (w_filePos w) - w_size w) + (w_size w + ?pos - unat dist)" using F far ok(6) h(6) by linarith
      moreover have "(unat (w_filePos w) - w_size w) mod w_size w = 0" using h(7) F by (simp add: le_mod_geq [symmetric])
      moreover have "w_size w + ?pos - unat dist < w_size w" using far ok(6) h(9) by linarith
      ultimately have "(length t - unat dist) mod w_size w = w_size w + ?pos - unat dist" using mod_place by metis
      then show ?thesis using far near h(5) ok(6) by simp
    qed (use q near in simp)
    have "w_match len dist w = bindE (slow_copy (unat len) ?q w) (\<lambda>w. Inr (w, False))"
      using nz ok h(10) nl unfolding q2 w_match_def Let_def c if_False by simp
    then show ?thesis using w' by simp
  qed
qed

lemma eof_writes:
  assumes "w_holds dict t w" "in_limit t w" "dict \<le> 2 ^ 30"
  shows "\<exists>w'. w_match impossible impossible w = Inr (w', True) \<and> w_written w' = t"
proof -
  note h = holds_facts [OF assms(1)]
  have m: "w_mid dict t w" using assms(1) by (simp add: w_holds_def)
  have sz: "w_size w \<le> 2 ^ 30" using h(1) assms(3) by (simp add: largeBuf_def)
  have ui: "unat impossible = 2 ^ 30 - 1" by (simp add: impossible_def)
  have "w_wend w \<le> w_wstart w + hugeBuf" "w_wstart w \<le> w_out w" using m unfolding w_mid_def by blast+
  then have "\<not> int (w_wend w) - int (w_out w) > int (unat impossible)" unfolding ui by (simp add: hugeBuf_def)
  moreover obtain w' where "w_flush True w = Inr w'" "w_written w' = t" using flush_holds [OF m assms(2,3), of True] by blast
  ultimately show ?thesis by (simp add: w_match_def Let_def)
qed

lemma lz_text_grows: "lz_text dict ops t = Some T \<Longrightarrow> length t \<le> length T"
proof (induction dict ops t rule: lz_text.induct)
  case (3 dict len dist ops t)
  then show ?case by (auto split: if_splits)
qed auto

lemma run_writes:
  assumes "tells D minlen ops d" "lz_text dict ops t = Some T" "w_holds dict t w" "in_limit T w" "dict \<le> 2 ^ 30"
  shows "\<exists>w'. w_run D minlen d w = ret w' \<and> w_written w' = T"
  using assms
proof (induction ops arbitrary: d t w)
  case (Cons x ops)
  show ?case
  proof (cases x)
    case (Lit b)
    obtain d1 d2 where n: "\<not> lz_failed D d" "lz_next D d = ret (True, d1)" "lz_char D d1 = (b, d2)" "tells D minlen ops d2"
      using Cons.prems(1) by (auto simp: Lit)
    have tx: "lz_text dict ops (t @ [b]) = Some T" using Cons.prems(2) by (simp add: Lit)
    have "in_limit (t @ [b]) w" using in_limit_le [OF lz_text_grows [OF tx] Cons.prems(4)] .
    then obtain w1 where w1: "w_literal b w = Inr w1" "w_holds dict (t @ [b]) w1" "w_limit w1 = w_limit w"
      using literal_holds [OF Cons.prems(3) _ Cons.prems(5)] by blast
    have "in_limit T w1" using Cons.prems(4) w1(3) by (simp add: in_limit_def)
    from Cons.IH [OF n(4) tx w1(2) this Cons.prems(5)] have IH: "\<exists>w'. w_run D minlen d2 w1 = ret w' \<and> w_written w' = T" .
    have "w_step D minlen d w = ret (Continue d2 w1)" using n(1-3) w1(1) by (simp add: w_step_def bindR_def ret_def)
    then have "w_run D minlen d w = w_run D minlen d2 w1" by (subst w_run.simps) simp
    then show ?thesis using IH by simp
  next
    case (Copy len dist)
    obtain d1 d2 d3 where n: "\<not> lz_failed D d" "lz_next D d = ret (False, d1)" "lz_length D minlen d1 = Some (len, d2)" "\<not> lz_failed D d2"
      "lz_distance D d2 = Some (dist, d3)" "\<not> lz_failed D d3" "tells D minlen ops d3"
      using Cons.prems(1) by (auto simp: Copy)
    show ?thesis
    proof (cases "len = impossible \<and> dist = impossible")
      case True
      then have "T = t" using Cons.prems(2) by (auto simp: Copy split: if_splits)
      then obtain w1 where w1: "w_match len dist w = Inr (w1, True)" "w_written w1 = T"
        using eof_writes [OF Cons.prems(3) _ Cons.prems(5)] Cons.prems(4) True by blast
      have "w_step D minlen d w = ret (Finished w1)" using n(1-6) w1(1) by (simp add: w_step_def bindR_def ret_def)
      then have "w_run D minlen d w = ret w1" by (subst w_run.simps) simp
      then show ?thesis using w1(2) by simp
    next
      case False
      then have ok: "copy_ok dict (length t) len dist" and tx: "lz_text dict ops (copy_bytes (unat len) (unat dist) t) = Some T"
        using Cons.prems(2) by (auto simp: Copy split: if_splits)
      have "in_limit (copy_bytes (unat len) (unat dist) t) w" using in_limit_le [OF lz_text_grows [OF tx] Cons.prems(4)] .
      then obtain w1 where w1: "w_match len dist w = Inr (w1, False)" "w_holds dict (copy_bytes (unat len) (unat dist) t) w1" "w_limit w1 = w_limit w"
        using match_holds [OF Cons.prems(3) ok _ Cons.prems(5)] by blast
      have "in_limit T w1" using Cons.prems(4) w1(3) by (simp add: in_limit_def)
      from Cons.IH [OF n(7) tx w1(2) this Cons.prems(5)] have IH: "\<exists>w'. w_run D minlen d3 w1 = ret w' \<and> w_written w' = T" .
      have "w_step D minlen d w = ret (Continue d3 w1)" using n(1-6) w1(1) by (simp add: w_step_def bindR_def ret_def)
      then have "w_run D minlen d w = w_run D minlen d3 w1" by (subst w_run.simps) simp
      then show ?thesis using IH by simp
    qed
  qed
qed simp

section \<open>Tables come back\<close>

lemma rows_of_concat: "\<forall>r \<in> set rs. length r = n \<Longrightarrow> rows_of n (length rs) (concat rs @ x) = rs"
  by (induction rs) auto

lemma rows_of_rows: "n * k \<le> length b \<Longrightarrow> concat (rows_of n k b) = take (n * k) b \<and> length (rows_of n k b) = k \<and> (\<forall>r \<in> set (rows_of n k b). length r = n)"
proof (induction n k b rule: rows_of.induct)
  case (2 n k b)
  have "n * k \<le> length (drop n b)" using "2.prems" by simp
  note ih = "2.IH" [OF this]
  have "take n b @ take (n * k) (drop n b) = take (n * Suc k) b" by (simp only: mult_Suc_right take_add)
  moreover have "length (take n b) = n" using "2.prems" by simp
  moreover have "set (rows_of n (Suc k) b) = insert (take n b) (set (rows_of n k (drop n b)))" by simp
  ultimately show ?case unfolding rows_of.simps concat.simps using ih by simp
qed simp

lemma diff_undiff_words:
  fixes v :: "'w::len word"
  assumes "8 * n = LENGTH('w)"
  shows "\<forall>r \<in> set rs. length r = n \<Longrightarrow> diff_words v (undiff_words v rs) = rs"
proof (induction rs arbitrary: v)
  case (Cons r rs)
  have "le_word (put_le n w) = w" for w :: "'w word"
  proof -
    have "(256 :: nat) ^ n = 2 ^ LENGTH('w)" by (simp only: assms [symmetric] power_mult) simp
    then have "unat (le_word (put_le n w) :: 'w word) = unat w"
      using unsigned_less [of w] assms by (intro le_word_put_le) simp_all
    then show ?thesis by (simp only: unsigned_word_eqI)
  qed
  moreover have "put_le n (le_word r :: 'w word) = r" using Cons.prems assms by (intro put_le_le_word) simp_all
  ultimately show ?case using Cons by (simp add: Let_def)
qed simp

lemma sub_add_row: "length p = length c \<Longrightarrow> carry \<le> 1 \<Longrightarrow> sub_row carry p (add_row carry p c) = c"
proof (induction carry p c rule: add_row.induct)
  case (1 carry p ps c cs)
  let ?t = "unat c + unat p + carry"
  have b: "unat c < 256" "unat p < 256" by (rule unat_byte_less)+
  have ub: "unat (word_of_nat ?t :: byte) = ?t mod 256" by (simp only: unat_of_nat) simp
  have br: "(if unat (word_of_nat ?t :: byte) < unat p + carry then 1 else 0) = ?t div 256"
  proof (cases "?t < 256")
    case False
    then have "?t div 256 = 1" "?t mod 256 = ?t - 256" using b "1.prems"(2) by (simp_all add: div_nat_eqI mod_nat_eqI)
    then show ?thesis using ub b False by auto
  next
    case True
    then show ?thesis unfolding ub by simp
  qed
  have "(word_of_nat ?t :: byte) - word_of_nat (unat p + carry) = c" by simp
  moreover have "?t div 256 \<le> 1" using b "1.prems"(2) by simp
  ultimately show ?case using 1 br by (simp add: Let_def)
qed auto

lemma length_tor_add_row [simp]: "length (add_row carry p c) = min (length p) (length c)"
  by (induction carry p c rule: add_row.induct) (simp_all add: Let_def)

lemma diff_undiff_rows: "\<forall>r \<in> set (p # rs). length r = n \<Longrightarrow> diff_rows p (undiff_rows p rs) = rs"
  by (induction rs arbitrary: p) (auto simp: Let_def sub_add_row)

lemma length_undiff_words: "map length (undiff_words v rs) = map length rs"
  by (induction rs arbitrary: v) (simp_all add: Let_def)

lemma length_undiff_rows: "\<forall>r \<in> set (p # rs). length r = n \<Longrightarrow> map length (undiff_rows p rs) = map length rs"
  by (induction rs arbitrary: p) (auto simp: Let_def)

lemma rows_length: "map length xs = map length ys \<Longrightarrow> \<forall>r \<in> set ys. length r = n \<Longrightarrow> length xs = length ys \<and> (\<forall>r \<in> set xs. length r = n)"
  by (metis in_set_conv_nth length_map nth_map)

lemma write_rows:
  assumes "start + n * (Suc (length rs)) \<le> length b" "length r = n" "take n (drop start b) = r" "\<forall>s \<in> set rs. length s = n"
  shows "rows_of n (Suc (length rs)) (drop start (write_at (start + n) (concat rs) b)) = r # rs"
proof -
  have l: "length (concat rs) = n * length rs" using assms(4) by (induction rs) auto
  have "take (start + n) b = take start b @ r" using assms(3) by (simp add: take_add)
  then have "write_at (start + n) (concat rs) b = take start b @ r @ concat rs @ drop (start + n + n * length rs) b"
    by (simp add: write_at_def l)
  then have "drop start (write_at (start + n) (concat rs) b) = r @ concat rs @ drop (start + n + n * length rs) b" using assms(1) by simp
  then show ?thesis using rows_of_concat [OF assms(4)] assms(2) by simp
qed

text \<open>
  A data table that was summed up for output is put back as it was. For rows of any length, those of
  two and four bytes that are added as words and those that are added byte by byte with a carry, and
  for any number of rows.
\<close>

theorem tor_tables_roundtrip:
  assumes "start + n * rows \<le> length b"
  shows "diffTable (undiffTable b n start rows) n start rows = b"
proof (cases "rows < 2")
  case True
  then have "rows = 0 \<or> rows = 1" by linarith
  then show ?thesis by (auto simp: diffTable_def undiffTable_def)
next
  case False
  then obtain k where k: "rows = Suc (Suc k)" by (metis add_2_eq_Suc le_Suc_ex not_less)
  have ab: "n * rows \<le> length (drop start b)" using assms by simp
  have "length (rows_of n rows (drop start b)) = Suc (Suc k)" using rows_of_rows [OF ab] k by simp
  then obtain r s rs where r: "rows_of n rows (drop start b) = r # s # rs" "length (s # rs) = Suc k"
    by (metis length_Suc_conv)
  note ro = rows_of_rows [OF ab, unfolded r(1)]
  define new where "new = (if n = 2 then undiff_words (le_word r :: u16) (s # rs) else if n = 4 then undiff_words (le_word r :: u32) (s # rs) else undiff_rows r (s # rs))"
  have u: "undiffTable b n start rows = write_at (start + n) (concat new) b" by (simp add: undiffTable_def r(1) new_def)
  have ln: "\<forall>x \<in> set (r # s # rs). length x = n" using ro by simp
  then have "map length new = map length (s # rs)" 
    unfolding new_def by (simp add: length_undiff_words length_undiff_rows [OF ln] del: undiff_words.simps undiff_rows.simps list.map)
  then have nl: "length new = Suc k" "\<forall>x \<in> set new. length x = n" using rows_length [of new "s # rs" n] ln r(2) by auto
  have tr: "take n (drop start b) = r" using r(1) k by simp
  have rw: "rows_of n rows (drop start (undiffTable b n start rows)) = r # new"
    using write_rows [of start n new b r] assms ln nl tr k unfolding u by simp
  obtain x xs where x: "new = x # xs" using nl(1) by (cases new) auto
  have dd: "(if n = 2 then diff_words (le_word r :: u16) new else if n = 4 then diff_words (le_word r :: u32) new else diff_rows r new) = s # rs"
  proof (cases "n = 2 \<or> n = 4")
    case True
    then show ?thesis using ln diff_undiff_words [of n "s # rs" "le_word r :: u16"] diff_undiff_words [of n "s # rs" "le_word r :: u32"]
      by (auto simp: new_def simp del: undiff_words.simps diff_words.simps)
  next
    case False
    then show ?thesis using diff_undiff_rows [OF ln] by (simp add: new_def del: undiff_rows.simps diff_rows.simps)
  qed
  have d: "diffTable (undiffTable b n start rows) n start rows = write_at (start + n) (concat (s # rs)) (write_at (start + n) (concat new) b)"
    unfolding diffTable_def rw unfolding x list.case Let_def dd [unfolded x] unfolding u x ..
  have lc: "length (concat xs) = n * length xs" if "\<forall>x \<in> set xs. length x = n" for xs :: "bytes list" using that by (induction xs) auto
  have "concat (r # s # rs) = take (n * rows) (drop start b)" using ro by simp
  then have "concat (s # rs) = take (n * Suc k) (drop (start + n) b)"
    using ln k by (metis (no_types, lifting) append_eq_conv_conj concat.simps(2) drop_drop list.set_intros(1) mult_Suc_right take_drop add.commute drop_take diff_add_inverse)
  moreover have "length (concat (s # rs)) = n * Suc k" "length (concat new) = n * Suc k" using lc ln nl r(2) by (simp_all del: concat.simps)
  ultimately show ?thesis unfolding d using assms k
    by (simp add: write_at_def del: concat.simps) (metis add.assoc append_take_drop_id drop_drop add.commute)
qed

lemma tor_tables_roundtrip_witness:
  "diffTable (undiffTable [9, 1, 2, 3, 250, 5, 10, 7] 3 1 2) 3 1 2 = [9, 1, 2, 3, 250, 5, 10, 7]"
  by (rule tor_tables_roundtrip) simp

end
