(* ===== verification/Tornado.thy ===== *)
theory Tornado
  imports Torwindow
begin

text \<open>
  The Tornado decoder as a whole (\<open>stream/tor/decompress.go\<close>, \<open>reader.go\<close>), with the two entropy coders
  that read bits (\<open>stream.go\<close>, \<open>huffman.go\<close>, \<open>lz.go\<close>). What each coder's encoder writes is read back; the
  Huffman coder is modelled without such a statement.
\<close>

section \<open>Bits\<close>

record bitIn =
  bt_in :: byteIn
  bt_buf :: u64
  bt_count :: nat

definition newBitIn :: "bytes \<Rightarrow> bitIn" where
  "newBitIn src = \<lparr>bt_in = newByteIn src, bt_buf = 0, bt_count = 0\<rparr>"

definition maskLow :: "u64 \<Rightarrow> nat \<Rightarrow> u32" where
  "maskLow x n = ucast (take_bit n x)"

definition needbits :: "nat \<Rightarrow> bitIn \<Rightarrow> u32 \<times> bitIn" where
  "needbits n b =
     (let b = (if bt_count b \<le> 32
               then let (v, i) = get32 (bt_in b)
                 in \<lparr>bt_in = i, bt_buf = bt_buf b OR push_bit (bt_count b) (ucast v), bt_count = bt_count b + 32\<rparr>
               else b)
      in (maskLow (bt_buf b) n, b))"

definition dumpbits :: "nat \<Rightarrow> bitIn \<Rightarrow> bitIn" where
  "dumpbits n b = b\<lparr>bt_buf := drop_bit n (bt_buf b), bt_count := bt_count b - n\<rparr>"

definition bt_getbits :: "nat \<Rightarrow> bitIn \<Rightarrow> u32 \<times> bitIn" where
  "bt_getbits n b = (let (x, b) = needbits n b in (x, dumpbits n b))"

record bitDec =
  d_in :: bitIn
  d_x :: u32

definition newBitDec :: "bytes \<Rightarrow> bitDec" where
  "newBitDec src = \<lparr>d_in = newBitIn src, d_x = 0\<rparr>"

definition d_next :: "bitDec \<Rightarrow> (bool \<times> bitDec) run" where
  "d_next d = (let (x, i) = bt_getbits 9 (d_in d) in ret (x < 256, \<lparr>d_in = i, d_x = x\<rparr>))"

definition d_length :: "u32 \<Rightarrow> bitDec \<Rightarrow> (u32 \<times> bitDec) option" where
  "d_length minlen d =
     (let lcode = unat (drop_bit 5 (d_x d) - 8); (v, i) = bt_getbits (lcExtra ! lcode) (d_in d)
      in Some (minlen + lcBase ! lcode + v, d\<lparr>d_in := i\<rparr>))"

definition d_distance :: "bitDec \<Rightarrow> (u32 \<times> bitDec) option" where
  "d_distance d =
     (let dcode = unat (d_x d AND 31); (v, i) = bt_getbits (dcExtra ! dcode) (d_in d)
      in Some (dcBase ! dcode + v, d\<lparr>d_in := i\<rparr>))"

definition bit_lz :: "bitDec lzDec" where
  "bit_lz = \<lparr>lz_next = d_next, lz_char = (\<lambda>d. (ucast (d_x d), d)), lz_length = d_length, lz_distance = d_distance, lz_failed = (\<lambda>_. False)\<rparr>"

section \<open>Huffman codes\<close>

record node =
  n_cnt :: u32
  n_code :: u32
  n_left :: nat
  n_right :: nat
  n_bits :: nat

record huffTree =
  h_n :: nat
  h_counter :: "u32 list"
  h_bits :: "nat list"
  h_maxbits :: nat
  h_maxSeen :: nat
  h_fast :: "int list"
  h_index :: "nat list"

definition fastBits :: nat where "fastBits = 11"
definition maxHuf :: nat where "maxHuf = 2048"
definition eobCode :: nat where "eobCode = 832"

definition at :: "'a list \<Rightarrow> nat \<Rightarrow> 'a run" where
  "at xs i = (if i < length xs then ret (xs ! i) else panics)"

definition upd :: "nat \<Rightarrow> ('a \<Rightarrow> 'a) \<Rightarrow> 'a list \<Rightarrow> 'a list run" where
  "upd i f xs = (if i < length xs then ret (xs[i := f (xs ! i)]) else panics)"

fun each :: "('a \<Rightarrow> 's \<Rightarrow> 's run) \<Rightarrow> 'a list \<Rightarrow> 's \<Rightarrow> 's run" where
  "each f [] s = ret s"
| "each f (x # xs) s = bindR (f x s) (each f xs)"

text \<open>Counts below 250 are placed by counting, stably; the others are sorted with their symbols.\<close>

definition count_places :: "u32 list \<Rightarrow> nat list run" where
  "count_places cs =
     bindR (each (\<lambda>c ps. if c < 250 then upd (unat c + 1) Suc ps else ret ps) cs (replicate 251 0)) (\<lambda>ps.
       each (\<lambda>i ps. bindR (at ps i) (\<lambda>p. upd (i + 1) (\<lambda>q. q + p) ps)) [0..<250] ps)"

definition place_leaf :: "nat \<times> u32 \<Rightarrow> nat list \<times> node list \<times> u32 list \<Rightarrow> (nat list \<times> node list \<times> u32 list) run" where
  "place_leaf = (\<lambda>(i, c) (ps, buf, rest).
     if c < 250 then bindR (at ps (unat c)) (\<lambda>p. bindR (upd (unat c) Suc ps) (\<lambda>ps.
       bindR (upd p (\<lambda>x. x\<lparr>n_cnt := c, n_left := i\<rparr>) buf) (\<lambda>buf. ret (ps, buf, rest))))
     else ret (ps, buf, rest @ [c * word_of_nat maxHuf + word_of_nat i]))"

definition sorted_leaves :: "huffTree \<Rightarrow> node list run" where
  "sorted_leaves h =
     bindR (count_places (h_counter h)) (\<lambda>ps.
     bindR (each place_leaf (zip [0..<h_n h] (h_counter h))
              (ps, replicate (2 * maxHuf + 4) \<lparr>n_cnt = 0, n_code = 0, n_left = 0, n_right = 0, n_bits = 0\<rparr>, [])) (\<lambda>(ps, buf, rest).
     bindR (at ps 250) (\<lambda>first.
     bindR (each (\<lambda>(i, v). upd (i + first) (\<lambda>x. x\<lparr>n_cnt := v div word_of_nat maxHuf, n_left := unat (v mod word_of_nat maxHuf)\<rparr>))
              (zip [0..<length rest] (sort rest)) buf) (\<lambda>buf.
     each (\<lambda>i. upd (h_n h + i) (\<lambda>x. x\<lparr>n_cnt := 2 ^ 31 - 1\<rparr>)) [0..<h_n h + 4] buf))))"

text \<open>The two smallest counts are merged until one node is left; ties go to a leaf and an inner node.\<close>

definition merge_one :: "node list \<Rightarrow> nat \<Rightarrow> nat \<Rightarrow> nat \<Rightarrow> (node list \<times> nat \<times> nat) run" where
  "merge_one buf p1 p2 p3 =
     bindR (at buf p1) (\<lambda>a. bindR (at buf (p1 + 1)) (\<lambda>b. bindR (at buf p2) (\<lambda>c. bindR (at buf (p2 + 1)) (\<lambda>d.
       let put = (\<lambda>cnt l r. upd p3 (\<lambda>x. x\<lparr>n_cnt := cnt, n_left := l, n_right := r\<rparr>) buf) in
       if n_cnt b < n_cnt c then bindR (put (n_cnt a + n_cnt b) p1 (p1 + 1)) (\<lambda>buf. ret (buf, p1 + 2, p2))
       else if n_cnt a > n_cnt d then bindR (put (n_cnt c + n_cnt d) p2 (p2 + 1)) (\<lambda>buf. ret (buf, p1, p2 + 2))
       else bindR (put (n_cnt a + n_cnt c) p1 p2) (\<lambda>buf. ret (buf, p1 + 1, p2 + 1))))))"

partial_function (option) merge :: "nat \<Rightarrow> node list \<Rightarrow> nat \<Rightarrow> nat \<Rightarrow> nat \<Rightarrow> (node list \<times> nat) run" where
  "merge b buf p1 p2 p3 =
     (if p1 = b \<and> p3 = p2 + 1 then ret (buf, p2)
      else bindR (merge_one buf p1 p2 p3) (\<lambda>(buf, p1, p2). merge b buf p1 p2 (p3 + 1)))"

definition hand_down :: "nat \<Rightarrow> node list \<Rightarrow> node list run" where
  "hand_down i buf =
     bindR (at buf i) (\<lambda>p.
     bindR (upd (n_left p) (\<lambda>x. x\<lparr>n_bits := (n_bits p + 1) mod 256, n_code := n_code p\<rparr>) buf)
       (upd (n_right p) (\<lambda>x. x\<lparr>n_bits := (n_bits p + 1) mod 256, n_code := n_code p + push_bit (n_bits p) 1\<rparr>)))"

text \<open>Short codes fill the fast table, long ones the index and a mark in the fast table.\<close>

definition code_places :: "u32 \<Rightarrow> nat \<Rightarrow> nat \<Rightarrow> nat list" where
  "code_places code b n = map (\<lambda>j. unat (code + word_of_nat (j * 2 ^ b))) [0..<n]"

definition enter_leaf :: "nat \<Rightarrow> node \<Rightarrow> nat list \<times> int list \<times> nat list \<Rightarrow> (nat list \<times> int list \<times> nat list) run" where
  "enter_leaf maxbits x = (\<lambda>(bits, fast, index).
     let s = n_left x; sb = n_bits x in
     if length bits \<le> s then fails
     else bindR (upd s (\<lambda>_. sb) bits) (\<lambda>bits.
       if sb \<le> fastBits
       then bindR (each (\<lambda>i. upd i (\<lambda>_. int s)) (code_places (n_code x) sb (2 ^ (fastBits - sb))) fast) (\<lambda>fast. ret (bits, fast, index))
       else bindR (upd (unat (n_code x) mod 2 ^ fastBits) (\<lambda>_. -1) fast) (\<lambda>fast.
         if maxbits < sb then panics
         else bindR (each (\<lambda>i. upd i (\<lambda>_. s)) (code_places (n_code x) sb (2 ^ (maxbits - sb))) index) (\<lambda>index. ret (bits, fast, index)))))"

definition h_factor :: "nat \<Rightarrow> u32" where
  "h_factor mode = (if mode < 8 then [2, 3, 4, 6, 8, 10, 12, 16] ! mode else 2)"

definition h_aged :: "u32 \<Rightarrow> u32 \<Rightarrow> u32" where
  "h_aged factor c = c - (if 1 < c \<and> c < factor then 1 else c div factor)"

definition h_build :: "nat \<Rightarrow> huffTree \<Rightarrow> huffTree run" where
  "h_build mode h =
     bindR (sorted_leaves h) (\<lambda>buf.
     bindR (merge (h_n h) buf 0 (h_n h + 2) (h_n h + 2)) (\<lambda>(buf, p).
     bindR (upd p (\<lambda>x. x\<lparr>n_bits := 0, n_code := 0\<rparr>) buf) (\<lambda>buf.
     bindR (each hand_down (rev [h_n h + 2..<p + 1]) buf) (\<lambda>buf.
     bindR (at buf 0) (\<lambda>x.
       let maxbits = n_bits x; grow = h_maxSeen h < maxbits;
           index = (if grow then take (2 ^ maxbits) (h_index h) @ replicate (2 ^ maxbits - length (h_index h)) 0 else h_index h) in
       if 28 < maxbits then fails
       else bindR (each (enter_leaf maxbits) (take (h_n h) buf) (h_bits h, h_fast h, index)) (\<lambda>(bits, fast, index).
         ret (h\<lparr>h_maxbits := maxbits, h_maxSeen := max maxbits (h_maxSeen h), h_bits := bits, h_fast := fast, h_index := index,
                h_counter := map (h_aged (h_factor mode)) (h_counter h)\<rparr>)))))))"

text \<open>\<open>newHuff\<close> panics if the first tree cannot be built.\<close>

definition newHuff :: "nat \<Rightarrow> huffTree run" where
  "newHuff n =
     (case h_build 0 \<lparr>h_n = n, h_counter = replicate n 1, h_bits = replicate n 0, h_maxbits = 0, h_maxSeen = 0,
                     h_fast = replicate (2 ^ fastBits) 0, h_index = []\<rparr> of
        Some (Inl _) \<Rightarrow> panics | r \<Rightarrow> r)"

definition h_sym :: "u32 \<Rightarrow> huffTree \<Rightarrow> int" where
  "h_sym code h =
     (let x = h_fast h ! (unat code mod 2 ^ fastBits)
      in if 0 \<le> x then x else if length (h_index h) \<le> unat code then -1 else int (h_index h ! unat code))"

record huffDec =
  hd_bit :: bitIn
  hd_tree :: huffTree
  hd_fail :: bool

definition newHuffDec :: "bytes \<Rightarrow> nat \<Rightarrow> huffDec run" where
  "newHuffDec src n = bindR (newHuff n) (\<lambda>t. ret \<lparr>hd_bit = newBitIn src, hd_tree = t, hd_fail = False\<rparr>)"

text \<open>The end-of-block symbol rebuilds the tree and is not returned.\<close>

partial_function (option) h_decode :: "huffDec \<Rightarrow> (u32 \<times> huffDec) run" where
  "h_decode h =
     (if hd_fail h then ret (0, h)
      else let (nb, bit) = needbits (h_maxbits (hd_tree h)) (hd_bit h); s = h_sym nb (hd_tree h) in
        if s < 0 \<or> int (h_n (hd_tree h)) \<le> s then ret (0, h\<lparr>hd_bit := bit, hd_fail := True\<rparr>)
        else let s = nat s; bit = dumpbits (h_bits (hd_tree h) ! s) bit in
          if s \<noteq> eobCode then
            ret (word_of_nat s, h\<lparr>hd_bit := bit,
              hd_tree := (hd_tree h)\<lparr>h_counter := (h_counter (hd_tree h))[s := h_counter (hd_tree h) ! s + 1]\<rparr>\<rparr>)
          else let (mode, bit) = bt_getbits 3 bit in
            (case h_build (unat mode) (hd_tree h) of
               Some (Inl (Error _)) \<Rightarrow> ret (0, h\<lparr>hd_bit := bit, hd_fail := True\<rparr>)
             | r \<Rightarrow> bindR r (\<lambda>t. h_decode (h\<lparr>hd_bit := bit, hd_tree := t\<rparr>))))"

definition huff_symDec :: "huffDec symDec" where
  "huff_symDec = \<lparr>sd_decode = h_decode,
     sd_getbits = (\<lambda>n h. let (x, b) = bt_getbits n (hd_bit h) in Some (x, h\<lparr>hd_bit := b\<rparr>)), sd_failed = hd_fail\<rparr>"

section \<open>Streams\<close>

text \<open>A stream with its six bytes of header; what is written is the result.\<close>

definition decompress :: "bytes \<Rightarrow> int \<Rightarrow> bytes run" where
  "decompress src limit =
     (if length src < 6 then fails
      else let minlen = ucast (src ! 1); dict = le_word (take 4 (drop 2 src)) :: u32; rest = drop 6 src; w = newWindow limit (unat dict);
               method = unat (src ! 0); out = (\<lambda>w. ret (w_written w)) in
        if dict > 2 ^ 30 then fails
        else if method = 1 then bindR (w_run byte_lz minlen (newByteDec rest) w) out
        else if method = 2 then bindR (w_run bit_lz minlen (newBitDec rest) w) out
        else if method = 3 then bindR (newHuffDec rest 842) (\<lambda>h. bindR (w_run (lz77 huff_symDec) minlen (newLZ77 h) w) out)
        else if method = 4 then bindR (w_run (lz77 arith_symDec) minlen (newLZ77 (newArithDec rest 842)) w) out
        else fails)"

text \<open>What \<open>NewReader\<close> yields of all that its source holds; what would exceed the limit is not written.\<close>

definition tor_limit :: "nat \<Rightarrow> int" where
  "tor_limit n = max (int n * 8 + 2 ^ 20) (4 * 2 ^ 20)"

definition tor_decode :: "bytes \<Rightarrow> bytes run" where
  "tor_decode src =
     (if src = [] then ret []
      else bindR (decompress src (tor_limit (length src))) (\<lambda>out. if out = [] then fails else ret out))"

section \<open>The arithmetic coder's streams\<close>

definition tor_header :: "byte \<Rightarrow> byte \<Rightarrow> u32 \<Rightarrow> bytes" where
  "tor_header method minlen dict = method # minlen # put_le 4 dict"

lemma decompress_header:
  "decompress (tor_header method minlen dict @ rest) limit =
     (let w = newWindow limit (unat dict); out = (\<lambda>w. ret (w_written w)) in
      if dict > 2 ^ 30 then fails
      else if method = 1 then bindR (w_run byte_lz (ucast minlen) (newByteDec rest) w) out
      else if method = 2 then bindR (w_run bit_lz (ucast minlen) (newBitDec rest) w) out
      else if method = 3 then bindR (newHuffDec rest 842) (\<lambda>h. bindR (w_run (lz77 huff_symDec) (ucast minlen) (newLZ77 h) w) out)
      else if method = 4 then bindR (w_run (lz77 arith_symDec) (ucast minlen) (newLZ77 (newArithDec rest 842)) w) out
      else fails)"
proof -
  have l: "length (put_le 4 dict) = 4" by simp
  have t: "take 4 (drop 2 (tor_header method minlen dict @ rest)) = put_le 4 dict" "drop 6 (tor_header method minlen dict @ rest) = rest"
    "(length (tor_header method minlen dict @ rest) < 6) = False" "(tor_header method minlen dict @ rest) ! 0 = method" "(tor_header method minlen dict @ rest) ! 1 = minlen"
    using l by (simp_all add: tor_header_def)
  have m: "unat method = 1 \<longleftrightarrow> method = 1" "unat method = 2 \<longleftrightarrow> method = 2" "unat method = 3 \<longleftrightarrow> method = 3" "unat method = 4 \<longleftrightarrow> method = 4"
    by (simp_all add: word_unat_eq_iff)
  have w: "(le_word (put_le 4 dict) :: u32) = dict" by simp
  show ?thesis unfolding decompress_def Let_def t w m if_False ..
qed

lemma codes_ok: "list_all code_ok cs \<Longrightarrow> list_all (item_ok 842) (concat (map code_items cs))"
proof (induction cs)
  case (Cons c cs)
  have "list_all (item_ok 842) (code_items c)" if "code_ok c"
  proof (cases c)
    case (CLit b)
    then show ?thesis using unat_byte_less [of b] by simp
  next
    case (CNew lc lv dc dv)
    then have "lc < 16" "dc < 32" using that by simp_all
    moreover have "\<forall>b \<in> set lc2Extra. b \<le> 32" "\<forall>b \<in> set dcExtra. b \<le> 32" by (simp_all add: lc2Extra_def dcExtra_def)
    moreover have "length lc2Extra = 16" "length dcExtra = 32" by (simp_all add: lc2Extra_def dcExtra_def)
    ultimately show ?thesis using that CNew by (auto simp: list_all_iff)
  next
    case (CRep i lc lv)
    then have "lc < 16" "i < 4" using that by simp_all
    moreover have "\<forall>b \<in> set lc2Extra. b \<le> 32" "length lc2Extra = 16" by (simp_all add: lc2Extra_def)
    ultimately show ?thesis using that CRep by (auto simp: list_all_iff)
  qed simp
  then show ?case using Cons by simp
qed simp

lemma decode_of_run:
  assumes "\<exists>w'. w_run D minlen d w = ret w' \<and> w_written w' = T"
    "decompress src (tor_limit (length src)) = bindR (w_run D minlen d w) (\<lambda>w. ret (w_written w))" "src \<noteq> []"
  shows "tor_decode src = (if T = [] then fails else ret T)"
  using assms by (auto simp: tor_decode_def)

text \<open>
  C5: a Tornado stream of the arithmetic coder is read back. The stream is one for a dictionary of at most
  2^30 bytes, made of literals, matches, repeated distances and slots in whatever way an encoder chose, none
  of them a match that announces a data table; each match is at most twice the dictionary long and reaches
  back at most to the start of the text, the length of the dictionary or 256 KiB when that is more. The text
  is not longer than the limit the reader sets for it, eight times the compressed size and 1 MiB, or 4 MiB
  when that is more (what exceeds the limit is not written). Then, with matches that overlap themselves
  and a window that goes round any number of times, the decoder returns, with exactly the text, unless it
  is empty: an empty text is refused. What follows the code is ignored.
\<close>

theorem tor_roundtrip:
  assumes "list_all code_ok cs" "dict \<le> 2 ^ 30" "lz_text (unat dict) (code_ops (ucast minlen) (replicate 4 0) cs) [] = Some T"
    "src = tor_header 4 minlen dict @ arith_encode 842 (concat (map code_items cs)) @ rest" "int (length T) \<le> tor_limit (length src)" "length T < 2 ^ 63"
  shows "tor_decode src = (if T = [] then fails else ret T)"
proof -
  let ?in = "arith_encode 842 (concat (map code_items cs)) @ rest" and ?w = "newWindow (tor_limit (length src)) (unat dict)"
  let ?d = "newLZ77 (newArithDec ?in 842)"
  have "arith_holds (concat (map code_items cs)) (newArithDec ?in 842)"
    using arith_holds_new [of 842] codes_ok [OF assms(1)] by simp
  then have t: "tells (lz77 arith_symDec) (ucast minlen) (code_ops (ucast minlen) (replicate 4 0) cs) ?d"
    using assms(1) by (intro arith.lz77_tells recents_new) (simp_all add: newLZ77_def)
  have "in_limit T ?w" using assms(5,6) by (simp add: in_limit_def newWindow_def Let_def)
  moreover have "unat dict \<le> 2 ^ 30" using assms(2) by (simp add: word_le_nat_alt)
  ultimately have "\<exists>w'. w_run (lz77 arith_symDec) (ucast minlen) ?d ?w = ret w' \<and> w_written w' = T"
    using run_writes [OF t assms(3) window_new] by blast
  then show ?thesis
  proof (rule decode_of_run)
    show "decompress src (tor_limit (length src)) = bindR (w_run (lz77 arith_symDec) (ucast minlen) ?d ?w) (\<lambda>w. ret (w_written w))"
      using leD [OF assms(2)] unfolding assms(4) decompress_header Let_def by simp
  qed (simp add: assms(4) tor_header_def)
qed

lemma tor_limit_small: "n \<le> 4 * 2 ^ 20 \<Longrightarrow> int n \<le> tor_limit k"
  by (simp add: tor_limit_def)

text \<open>Two letters, five more of them from a match that overlaps itself, and the end.\<close>

definition sample_codes :: "code list" where
  "sample_codes = [CLit 97, CLit 98, CNew 3 0 0 1, CNew 15 1073741518 31 1062141950]"

lemma sample_codes_ok: "list_all code_ok sample_codes"
  by (simp add: sample_codes_def lc2Extra_def dcExtra_def)

lemma sample_copy: "copy_bytes 5 2 [97, 98] = [97, 98, 97, 98, 97, 98, 97]"
  by (simp add: numeral_eq_Suc)

lemma sample_ops: "code_ops 2 (replicate 4 0) sample_codes = [Lit 97, Lit 98, Copy 5 2, Copy impossible impossible]"
proof -
  have "slot_length 2 3 0 = 5" by (simp add: slot_length_def lc2Base_list Let_def)
  moreover have "slot_length 2 15 1073741518 = impossible" by (simp add: slot_length_def lc2Base_list Let_def impossible_def)
  moreover have "dcBase ! 31 = 11599872" "dcBase ! 0 = 0" by (simp_all add: dcBase_list)
  ultimately show ?thesis by (simp add: sample_codes_def Let_def impossible_def)
qed

lemma sample_text: "lz_text 65536 (code_ops 2 (replicate 4 0) sample_codes) [] = Some [97, 98, 97, 98, 97, 98, 97]"
  unfolding sample_ops by (simp add: sample_copy copy_ok_def largeBuf_def) (simp add: impossible_def)

lemma tor_roundtrip_witness:
  "tor_decode (tor_header 4 2 65536 @ arith_encode 842 (concat (map code_items sample_codes)) @ [0]) = ret [97, 98, 97, 98, 97, 98, 97]"
proof -
  have "lz_text (unat (65536 :: u32)) (code_ops (ucast (2 :: byte)) (replicate 4 0) sample_codes) [] = Some [97, 98, 97, 98, 97, 98, 97]"
    using sample_text by simp
  from tor_roundtrip [OF sample_codes_ok _ this refl tor_limit_small, of "[0]"] show ?thesis by simp
qed

section \<open>Streams of plain bytes\<close>

datatype bcode = BLit byte | BShort nat nat | BMid nat nat | BLong nat nat

fun bcode_ok :: "bcode \<Rightarrow> bool" where
  "bcode_ok (BLit b) = True"
| "bcode_ok (BShort n k) = (n < 16 \<and> k < 2 ^ 12)"
| "bcode_ok (BMid n k) = (n < 64 \<and> k < 2 ^ 18)"
| "bcode_ok (BLong n k) = (n < 2 ^ 32 \<and> k < 2 ^ 32)"

fun kind :: "bcode \<Rightarrow> nat" where
  "kind (BLit b) = 0"
| "kind (BShort n k) = 1"
| "kind (BMid n k) = 2"
| "kind (BLong n k) = 3"

definition put :: "nat \<Rightarrow> nat \<Rightarrow> bytes" where
  "put m v = put_le m (word_of_nat v :: u32)"

text \<open>Long lengths have 254 before them, long distances 255 and their high byte.\<close>

fun bcode_bytes :: "bcode \<Rightarrow> bytes" where
  "bcode_bytes (BLit b) = put 1 (unat b)"
| "bcode_bytes (BShort n k) = put 2 (n * 2 ^ 12 + k)"
| "bcode_bytes (BMid n k) = put 3 (n * 2 ^ 18 + k)"
| "bcode_bytes (BLong n k) =
     (if k < 2 ^ 24 then [] else put 1 255 @ put 1 (k div 2 ^ 24))
     @ (if n < 254 then put 1 n else put 1 254 @ put 3 (n div 256) @ put 1 (n mod 256)) @ put 3 (k mod 2 ^ 24)"

fun flag_bits :: "bcode list \<Rightarrow> nat" where
  "flag_bits [] = 0"
| "flag_bits (c # cs) = kind c + 4 * flag_bits cs"

text \<open>Before every sixteen codes come their flags; \<open>k\<close> codes are left of the last ones.\<close>

fun byte_stream :: "nat \<Rightarrow> bcode list \<Rightarrow> bytes" where
  "byte_stream k [] = []"
| "byte_stream 0 (c # cs) = put 4 (flag_bits (take 16 (c # cs))) @ bcode_bytes c @ byte_stream 15 cs"
| "byte_stream (Suc k) (c # cs) = bcode_bytes c @ byte_stream k cs"

fun bcode_op :: "u32 \<Rightarrow> bcode \<Rightarrow> op" where
  "bcode_op minlen (BLit b) = Lit b"
| "bcode_op minlen (BShort n k) = Copy (minlen + word_of_nat n) (word_of_nat k)"
| "bcode_op minlen (BMid n k) = Copy (minlen + word_of_nat n) (word_of_nat k)"
| "bcode_op minlen (BLong n k) = Copy (minlen + word_of_nat n) (word_of_nat k)"

text \<open>The bytes that are left of an input.\<close>

definition reads :: "bytes \<Rightarrow> byteIn \<Rightarrow> bool" where
  "reads rest b \<longleftrightarrow> (\<exists>src p. bi_inv src p b \<and> drop p src = rest)"

lemma reads_new: "reads src (newByteIn src)"
  unfolding reads_def using bi_inv_new [of src] by (metis drop0)

lemma reads_get:
  assumes "reads (p @ rest) b" "length p \<le> maxElem"
  shows "\<exists>b'. bi_get (length p) b = (p, b') \<and> reads rest b'"
proof -
  obtain src k where s: "bi_inv src k b" "drop k src = p @ rest" using assms(1) by (auto simp: reads_def)
  obtain q b' where g: "bi_get (length p) b = (q, b')" by force
  note i = bi_get_inv [OF s(1) assms(2) g]
  have "q = p"
  proof (rule nth_equalityI)
    fix j assume "j < length q"
    then have j: "j < length p" using i by simp
    have "length (drop k src) = length p + length rest" by (simp add: s(2))
    then have "k + j < length src" using j by simp
    then have "q ! j = src ! (k + j)" "drop k src ! j = src ! (k + j)" using i j by simp_all
    then show "q ! j = p ! j" using j by (simp add: s(2) nth_append)
  qed (use i in simp)
  moreover have "drop (k + length p) src = rest" using s(2) by (metis add.commute append_eq_conv_conj drop_drop)
  then have "reads rest b'" using i by (auto simp: reads_def)
  ultimately show ?thesis using g by blast
qed

lemma reads_put:
  assumes "reads (put m v @ rest) b" "v < 256 ^ m" "m \<le> 4"
  shows "\<exists>b'. bi_get m b = (put m v, b') \<and> (le_word (put m v) :: u32) = word_of_nat v \<and> reads rest b'"
proof -
  have l: "length (put m v) = m" by (simp add: put_def)
  have "(256 :: nat) ^ m \<le> 256 ^ 4" using assms(3) by (rule power_increasing) simp
  then have "unat (word_of_nat v :: u32) = v" using assms(2) by (intro unat_of_nat_small) simp
  then have "unat (le_word (put m v) :: u32) = unat (word_of_nat v :: u32)"
    using assms(2,3) unfolding put_def by (intro le_word_put_le) simp_all
  then have "(le_word (put m v) :: u32) = word_of_nat v" by (simp only: unsigned_word_eqI)
  then show ?thesis using reads_get [OF assms(1)] assms(3) by (simp add: l maxElem_def)
qed

lemma gets_put:
  "reads (put 1 v @ rest) b \<Longrightarrow> v < 256 \<Longrightarrow> \<exists>b'. get8 b = (word_of_nat v, b') \<and> reads rest b'"
  "reads (put 2 v @ rest) b \<Longrightarrow> v < 2 ^ 16 \<Longrightarrow> \<exists>b'. get16 b = (word_of_nat v, b') \<and> reads rest b'"
  "reads (put 3 v @ rest) b \<Longrightarrow> v < 2 ^ 24 \<Longrightarrow> \<exists>b'. get24 b = (word_of_nat v, b') \<and> reads rest b'"
  "reads (put 4 v @ rest) b \<Longrightarrow> v < 2 ^ 32 \<Longrightarrow> \<exists>b'. get32 b = (word_of_nat v, b') \<and> reads rest b'"
  using reads_put [of 1 v rest b] reads_put [of 2 v rest b] reads_put [of 3 v rest b] reads_put [of 4 v rest b]
  by (auto simp: get8_def get16_def get24_def get32_def)

lemma kind_less: "kind c < 4"
  by (cases c) simp_all

lemma flag_bits_less: "flag_bits cs < 4 ^ length cs"
proof (induction cs)
  case (Cons c cs)
  then show ?case using kind_less [of c] by simp
qed simp

text \<open>The decoder holds the codes that are left, \<open>k\<close> of them under the flags it has.\<close>

definition byte_holds :: "nat \<Rightarrow> bcode list \<Rightarrow> bytes \<Rightarrow> byteDec \<Rightarrow> bool" where
  "byte_holds k cs post d \<longleftrightarrow> reads (byte_stream k cs @ post) (b_in d) \<and> b_flagpos d = k + 1 \<and> k \<le> 15 \<and> unat (b_flags d) div 4 = flag_bits (take k cs)"

lemma flags_kind: "unat f = kind c + 4 * m \<Longrightarrow> f AND 3 = word_of_nat (kind c) \<and> unat f div 4 = m" for f :: u32
proof -
  assume f: "unat f = kind c + 4 * m"
  have "f AND 3 = f AND mask 2" by (simp add: mask_eq_exp_minus_1)
  then have "unat (f AND 3) = unat f mod 4" by (simp only: unat_and_mask) simp
  then have "unat (f AND 3) = kind c" using f kind_less [of c] by simp
  then have "f AND 3 = word_of_nat (kind c)" by (metis word_unat_eq_iff unat_of_nat_small kind_less less_trans unsigned_less)
  then show ?thesis using f kind_less [of c] by simp
qed

lemma next_holds:
  assumes "byte_holds k (c # cs) post d"
  shows "\<exists>j d'. b_next d = ret (kind c = 0, d') \<and> b_flags d' AND 3 = word_of_nat (kind c) \<and> reads (bcode_bytes c @ byte_stream j cs @ post) (b_in d')
    \<and> b_flagpos d' = j + 1 \<and> j \<le> 15 \<and> unat (b_flags d') div 4 = flag_bits (take j cs)"
proof (cases k)
  case 0
  let ?f = "flag_bits (take 16 (c # cs))"
  have "?f < 4 ^ length (take 16 (c # cs))" by (rule flag_bits_less)
  also have "\<dots> \<le> 4 ^ 16" by (rule power_increasing) simp_all
  finally have lt: "?f < 2 ^ 32" by simp
  have "reads (put 4 ?f @ bcode_bytes c @ byte_stream 15 cs @ post) (b_in d)" using assms by (simp add: byte_holds_def 0)
  from gets_put(4) [OF this lt] obtain i where g: "get32 (b_in d) = (word_of_nat ?f, i)" "reads (bcode_bytes c @ byte_stream 15 cs @ post) i" by blast
  have "unat (word_of_nat ?f :: u32) = kind c + 4 * flag_bits (take 15 cs)"
    using lt by (subst unat_of_nat_small) simp_all
  note fk = flags_kind [OF this]
  have "b_next d = ret ((word_of_nat ?f :: u32) AND 3 = 0, d\<lparr>b_in := i, b_flags := word_of_nat ?f, b_flagpos := 16\<rparr>)"
    using assms g(1) by (simp add: b_next_def byte_holds_def 0)
  moreover have "(word_of_nat (kind c) :: u32) = 0 \<longleftrightarrow> kind c = 0" by (cases c) simp_all
  ultimately show ?thesis using fk g(2) by (intro exI [of _ 15] exI [of _ "d\<lparr>b_in := i, b_flags := word_of_nat ?f, b_flagpos := 16\<rparr>"]) simp
next
  case (Suc j)
  have h: "reads (bcode_bytes c @ byte_stream j cs @ post) (b_in d)" "b_flagpos d = Suc j + 1" "Suc j \<le> 15" "unat (b_flags d) div 4 = kind c + 4 * flag_bits (take j cs)"
    using assms by (simp_all add: byte_holds_def Suc)
  let ?d = "d\<lparr>b_flagpos := b_flagpos d - 1, b_flags := drop_bit 2 (b_flags d)\<rparr>"
  have "unat (drop_bit 2 (b_flags d)) = kind c + 4 * flag_bits (take j cs)" using h(4) by (simp add: unat_drop)
  note fk = flags_kind [OF this]
  have "b_next d = ret (drop_bit 2 (b_flags d) AND 3 = 0, ?d)" using h(2) by (simp add: b_next_def)
  moreover have "(word_of_nat (kind c) :: u32) = 0 \<longleftrightarrow> kind c = 0" by (cases c) simp_all
  ultimately show ?thesis using fk h by (intro exI [of _ j] exI [of _ ?d]) simp
qed

lemma u32_small: "v < 2 ^ 32 \<Longrightarrow> unat (word_of_nat v :: u32) = v"
  by (rule unat_of_nat_small) simp

text \<open>The two parts of a number in one word.\<close>

lemma word_parts:
  assumes "k < 2 ^ m" "n * 2 ^ m + k < 2 ^ 32" "w = mask m"
  shows "drop_bit m (word_of_nat (n * 2 ^ m + k) :: u32) = word_of_nat n" "(word_of_nat (n * 2 ^ m + k) :: u32) AND w = word_of_nat k"
proof -
  have u: "unat (word_of_nat (n * 2 ^ m + k) :: u32) = n * 2 ^ m + k" by (rule u32_small [OF assms(2)])
  have "n * 1 \<le> n * 2 ^ m" by (rule mult_left_mono) simp_all
  then have n: "n < 2 ^ 32" "k < 2 ^ 32" using assms(2) by linarith+
  have "unat (drop_bit m (word_of_nat (n * 2 ^ m + k) :: u32)) = unat (word_of_nat n :: u32)"
    unfolding unat_drop u u32_small [OF n(1)] using assms(1) by simp
  then show "drop_bit m (word_of_nat (n * 2 ^ m + k) :: u32) = word_of_nat n" by (simp only: unsigned_word_eqI)
  have "unat ((word_of_nat (n * 2 ^ m + k) :: u32) AND w) = unat (word_of_nat k :: u32)"
    unfolding unat_and_numeral [OF assms(3)] u u32_small [OF n(2)] using assms(1) by simp
  then show "(word_of_nat (n * 2 ^ m + k) :: u32) AND w = word_of_nat k" by (simp only: unsigned_word_eqI)
qed

lemma push_word: "push_bit m (word_of_nat v) + word_of_nat w = (word_of_nat (v * 2 ^ m + w) :: u32)"
  by (simp only: push_bit_eq_mult of_nat_add of_nat_mult of_nat_power of_nat_numeral)

lemma long_holds:
  assumes "reads (bcode_bytes (BLong n k) @ rest) (b_in d)" "bcode_ok (BLong n k)"
  shows "\<exists>i. b_long d = (word_of_nat n, d\<lparr>b_in := i, b_dist := word_of_nat k\<rparr>) \<and> reads rest i"
proof -
  let ?len = "if n < 254 then put 1 n else put 1 254 @ put 3 (n div 256) @ put 1 (n mod 256)" and ?low = "put 3 (k mod 2 ^ 24)"
  have nk: "n < 2 ^ 32" "k < 2 ^ 32" using assms(2) by simp_all
  have fin: "\<exists>i'. get24 i = (word_of_nat (k mod 2 ^ 24), i') \<and> reads rest i'" if "reads (?low @ rest) i" for i
    by (rule gets_put(3) [OF that]) simp
  have first: "\<exists>i'. get8 i = (word_of_nat (if n < 254 then n else 254), i') \<and>
      (\<exists>j. (if (word_of_nat (if n < 254 then n else 254) :: u32) = 254 then let (h, i) = get24 i'; (l, i) = get8 i in (push_bit 8 h + l, i)
             else (word_of_nat (if n < 254 then n else 254), i')) = (word_of_nat n, j) \<and> reads (?low @ rest) j)"
    if r: "reads (?len @ ?low @ rest) i" for i
  proof (cases "n < 254")
    case True
    then obtain i' where i': "get8 i = (word_of_nat n, i')" "reads (?low @ rest) i'" using gets_put(1) [of n "?low @ rest" i] r by auto
    have "(word_of_nat n :: u32) \<noteq> 254" using u32_small [OF nk(1)] True by (auto dest: arg_cong [where f = unat])
    then show ?thesis using True i' by simp
  next
    case False
    then obtain i1 where i1: "get8 i = (word_of_nat 254, i1)" "reads (put 3 (n div 256) @ put 1 (n mod 256) @ ?low @ rest) i1"
      using gets_put(1) [of 254 "put 3 (n div 256) @ put 1 (n mod 256) @ ?low @ rest" i] r by auto
    have "n div 256 < 2 ^ 24" using nk(1) by simp
    from gets_put(3) [OF i1(2) this] obtain i2 where i2: "get24 i1 = (word_of_nat (n div 256), i2)" "reads (put 1 (n mod 256) @ ?low @ rest) i2" by blast
    from gets_put(1) [OF i2(2)] obtain i3 where i3: "get8 i2 = (word_of_nat (n mod 256), i3)" "reads (?low @ rest) i3" by auto
    have "push_bit 8 (word_of_nat (n div 256)) + word_of_nat (n mod 256) = (word_of_nat n :: u32)"
      unfolding push_word by simp
    then show ?thesis using False i1(1) i2(1) i3 by simp
  qed
  have c: "(word_of_nat (if n < 254 then n else 254) :: u32) \<noteq> 255"
    using u32_small [of n] nk(1) by (auto dest: arg_cong [where f = unat])
  show ?thesis
  proof (cases "k < 2 ^ 24")
    case True
    then have "reads (?len @ ?low @ rest) (b_in d)" using assms(1) by simp
    from first [OF this] obtain i j where f: "get8 (b_in d) = (word_of_nat (if n < 254 then n else 254), i)"
      "(if (word_of_nat (if n < 254 then n else 254) :: u32) = 254 then let (h, i) = get24 i; (l, i) = get8 i in (push_bit 8 h + l, i)
         else (word_of_nat (if n < 254 then n else 254), i)) = (word_of_nat n, j)" "reads (?low @ rest) j" by blast
    from fin [OF f(3)] obtain i' where l: "get24 j = (word_of_nat k, i')" "reads rest i'" using True by auto
    have "b_long d = (word_of_nat n, d\<lparr>b_in := i', b_dist := word_of_nat k\<rparr>)"
      using l(1) f(1,2) c unfolding b_long_def Let_def by (simp only: prod.case if_False) simp
    then show ?thesis using l(2) by blast
  next
    case False
    have r: "reads (put 1 255 @ put 1 (k div 2 ^ 24) @ ?len @ ?low @ rest) (b_in d)" using assms(1) False by simp
    from gets_put(1) [OF r] obtain i1 where i1: "get8 (b_in d) = (255, i1)" "reads (put 1 (k div 2 ^ 24) @ ?len @ ?low @ rest) i1" by auto
    have "k div 2 ^ 24 < 256" using nk(2) by (intro less_mult_imp_div_less) simp
    from gets_put(1) [OF i1(2) this] obtain i2 where i2: "get8 i1 = (word_of_nat (k div 2 ^ 24), i2)" "reads (?len @ ?low @ rest) i2" by blast
    from first [OF i2(2)] obtain i j where f: "get8 i2 = (word_of_nat (if n < 254 then n else 254), i)"
      "(if (word_of_nat (if n < 254 then n else 254) :: u32) = 254 then let (h, i) = get24 i; (l, i) = get8 i in (push_bit 8 h + l, i)
         else (word_of_nat (if n < 254 then n else 254), i)) = (word_of_nat n, j)" "reads (?low @ rest) j" by blast
    from fin [OF f(3)] obtain i' where l: "get24 j = (word_of_nat (k mod 2 ^ 24), i')" "reads rest i'" by auto
    have "push_bit 24 (word_of_nat (k div 2 ^ 24)) + word_of_nat (k mod 2 ^ 24) = (word_of_nat k :: u32)"
      unfolding push_word by simp
    then have "b_long d = (word_of_nat n, d\<lparr>b_in := i', b_dist := word_of_nat k\<rparr>)"
      using i1(1) i2(1) f(1,2) l(1) unfolding b_long_def Let_def by (simp only: prod.case if_True) simp
    then show ?thesis using l(2) by blast
  qed
qed

lemma length_holds:
  assumes "reads (bcode_bytes c @ rest) (b_in d)" "b_flags d AND 3 = word_of_nat (kind c)" "bcode_ok c" "kind c \<noteq> 0"
  shows "\<exists>n k i. bcode_op minlen c = Copy n k \<and> b_length minlen d = Some (n, d\<lparr>b_in := i, b_dist := k\<rparr>) \<and> reads rest i"
proof (cases c)
  case (BLit b)
  then show ?thesis using assms(4) by simp
next
  case (BShort n k)
  then have o: "n < 16" "k < 2 ^ 12" using assms(3) by simp_all
  then have lt: "n * 2 ^ 12 + k < 2 ^ 16" by simp
  from gets_put(2) [OF _ lt] assms(1) obtain i where g: "get16 (b_in d) = (word_of_nat (n * 2 ^ 12 + k), i)" "reads rest i" by (auto simp: BShort)
  have "0xfff = (mask 12 :: u32)" by (simp add: mask_eq_exp_minus_1)
  from word_parts [OF o(2) _ this, of n] lt have
    "drop_bit 12 (word_of_nat (n * 2 ^ 12 + k) :: u32) = word_of_nat n" "(word_of_nat (n * 2 ^ 12 + k) :: u32) AND 0xfff = word_of_nat k" by simp_all
  then have "b_length minlen d = Some (minlen + word_of_nat n, d\<lparr>b_in := i, b_dist := word_of_nat k\<rparr>)"
    using assms(2) g(1) unfolding b_length_def Let_def by (simp add: BShort del: of_nat_add of_nat_mult)
  then show ?thesis using g(2) unfolding BShort bcode_op.simps by blast
next
  case (BMid n k)
  then have o: "n < 64" "k < 2 ^ 18" using assms(3) by simp_all
  then have lt: "n * 2 ^ 18 + k < 2 ^ 24" by simp
  from gets_put(3) [OF _ lt] assms(1) obtain i where g: "get24 (b_in d) = (word_of_nat (n * 2 ^ 18 + k), i)" "reads rest i" by (auto simp: BMid)
  have "0x3ffff = (mask 18 :: u32)" by (simp add: mask_eq_exp_minus_1)
  from word_parts [OF o(2) _ this, of n] lt have
    "drop_bit 18 (word_of_nat (n * 2 ^ 18 + k) :: u32) = word_of_nat n" "(word_of_nat (n * 2 ^ 18 + k) :: u32) AND 0x3ffff = word_of_nat k" by simp_all
  then have "b_length minlen d = Some (minlen + word_of_nat n, d\<lparr>b_in := i, b_dist := word_of_nat k\<rparr>)"
    using assms(2) g(1) unfolding b_length_def Let_def by (simp add: BMid del: of_nat_add of_nat_mult)
  then show ?thesis using g(2) unfolding BMid bcode_op.simps by blast
next
  case (BLong n k)
  from long_holds assms(1,3) obtain i where l: "b_long d = (word_of_nat n, d\<lparr>b_in := i, b_dist := word_of_nat k\<rparr>)" "reads rest i"
    unfolding BLong by blast
  then have "b_length minlen d = Some (minlen + word_of_nat n, d\<lparr>b_in := i, b_dist := word_of_nat k\<rparr>)"
    using assms(2) unfolding b_length_def Let_def by (simp add: BLong)
  then show ?thesis using l(2) unfolding BLong bcode_op.simps by blast
qed

lemma byte_tells: "byte_holds k cs post d \<Longrightarrow> list_all bcode_ok cs \<Longrightarrow> tells byte_lz minlen (map (bcode_op minlen) cs) d"
proof (induction cs arbitrary: k d)
  case (Cons c cs)
  obtain j d1 where n: "b_next d = ret (kind c = 0, d1)" "b_flags d1 AND 3 = word_of_nat (kind c)"
    "reads (bcode_bytes c @ byte_stream j cs @ post) (b_in d1)" "b_flagpos d1 = j + 1" "j \<le> 15" "unat (b_flags d1) div 4 = flag_bits (take j cs)"
    using next_holds [OF Cons.prems(1)] by blast
  have ok: "list_all bcode_ok cs" using Cons.prems(2) by simp
  show ?case
  proof (cases "kind c = 0")
    case True
    then obtain b where c: "c = BLit b" by (cases c) simp_all
    have "reads (put 1 (unat b) @ byte_stream j cs @ post) (b_in d1)" using n(3) by (simp add: c)
    from gets_put(1) [OF this unat_byte_less] obtain i where
      i: "get8 (b_in d1) = (word_of_nat (unat b), i)" "reads (byte_stream j cs @ post) i" by blast
    have "byte_holds j cs post (d1\<lparr>b_in := i\<rparr>)" using i(2) n(4-6) by (simp add: byte_holds_def)
    from Cons.IH [OF this ok] have t: "tells byte_lz minlen (map (bcode_op minlen) cs) (d1\<lparr>b_in := i\<rparr>)" .
    have "(ucast (word_of_nat (unat b) :: u32) :: byte) = b"
      using unat_byte_less [of b] by (intro word_unat_eq_iff [THEN iffD2]) (simp add: unat_ucast_mod)
    then show ?thesis using n(1) i(1) t True by (simp add: c byte_lz_def b_char_def)
  next
    case False
    have "bcode_ok c" using Cons.prems(2) by simp
    from length_holds [OF n(3,2) this False, of minlen] obtain m k i where
      l: "bcode_op minlen c = Copy m k" "b_length minlen d1 = Some (m, d1\<lparr>b_in := i, b_dist := k\<rparr>)" "reads (byte_stream j cs @ post) i" by blast
    have "byte_holds j cs post (d1\<lparr>b_in := i, b_dist := k\<rparr>)" using l(3) n(4-6) by (simp add: byte_holds_def)
    from Cons.IH [OF this ok] have "tells byte_lz minlen (map (bcode_op minlen) cs) (d1\<lparr>b_in := i, b_dist := k\<rparr>)" .
    then show ?thesis using n(1) l(1,2) False by (simp add: byte_lz_def)
  qed
qed simp

text \<open>
  C22: a Tornado stream of plain bytes is read back: literals, matches of the three forms, and the flags
  of every sixteen of them, under the conditions of the streams of the arithmetic coder: the dictionary is
  at most 2^30 bytes, no match announces a data table, each match is at most twice the dictionary long and
  reaches back at most to the start of the text, the length of the dictionary or 256 KiB when that is more,
  and the text is not longer than the limit of the reader. An empty text is refused, any other is returned.
\<close>

theorem tor_bytes_roundtrip:
  assumes "list_all bcode_ok cs" "dict \<le> 2 ^ 30" "lz_text (unat dict) (map (bcode_op (ucast minlen)) cs) [] = Some T"
    "src = tor_header 1 minlen dict @ byte_stream 0 cs @ rest" "int (length T) \<le> tor_limit (length src)" "length T < 2 ^ 63"
  shows "tor_decode src = (if T = [] then fails else ret T)"
proof -
  let ?in = "byte_stream 0 cs @ rest" and ?w = "newWindow (tor_limit (length src)) (unat dict)"
  have "byte_holds 0 cs rest (newByteDec ?in)" by (simp add: byte_holds_def newByteDec_def reads_new)
  note t = byte_tells [OF this assms(1), of "ucast minlen"]
  have "in_limit T ?w" using assms(5,6) by (simp add: in_limit_def newWindow_def Let_def)
  moreover have "unat dict \<le> 2 ^ 30" using assms(2) by (simp add: word_le_nat_alt)
  ultimately have "\<exists>w'. w_run byte_lz (ucast minlen) (newByteDec ?in) ?w = ret w' \<and> w_written w' = T"
    using run_writes [OF t assms(3) window_new] by blast
  then show ?thesis
  proof (rule decode_of_run)
    show "decompress src (tor_limit (length src)) = bindR (w_run byte_lz (ucast minlen) (newByteDec ?in) ?w) (\<lambda>w. ret (w_written w))"
      using leD [OF assms(2)] unfolding assms(4) decompress_header Let_def by simp
  qed (simp add: assms(4) tor_header_def)
qed

text \<open>The same two letters and the match, and the end.\<close>

lemma tor_bytes_roundtrip_witness:
  "tor_decode (tor_header 1 2 65536 @ byte_stream 0 [BLit 97, BLit 98, BShort 3 2, BLong (2 ^ 30 - 3) (2 ^ 30 - 1)] @ [0])
    = ret [97, 98, 97, 98, 97, 98, 97]"
proof -
  have "lz_text (unat (65536 :: u32)) (map (bcode_op (ucast (2 :: byte))) [BLit 97, BLit 98, BShort 3 2, BLong (2 ^ 30 - 3) (2 ^ 30 - 1)]) []
      = Some [97, 98, 97, 98, 97, 98, 97]"
    by (simp add: sample_copy copy_ok_def largeBuf_def impossible_def)
  from tor_bytes_roundtrip [OF _ _ this refl tor_limit_small, of "[0]"] show ?thesis by simp
qed

section \<open>A stream that is cut off\<close>

text \<open>The places of a window without tables, whatever its bytes.\<close>

definition w_shape :: "window \<Rightarrow> bool" where
  "w_shape w \<longleftrightarrow> length (w_buf w) = padTables + w_size w + padTables \<and> t_list (w_tables w) = [] \<and> 0 < w_size w
     \<and> w_wstart w \<le> w_out w \<and> padTables \<le> w_out w \<and> w_wend w \<le> padTables + w_size w"

lemma wrap_shape: "w_shape w \<Longrightarrow> w_out w \<le> w_wend w \<Longrightarrow> w_wstart w = w_out w \<Longrightarrow>
    \<exists>w'. w_wrap w = Inr w' \<and> w_shape w' \<and> w_wstart w' = w_out w' \<and> w_out w' < padTables + w_size w'"
proof (cases "w_out w < padTables + w_size w")
  case False
  assume a: "w_shape w" "w_out w \<le> w_wend w" "w_wstart w = w_out w"
  then have "w_out w = padTables + w_size w" using False by (simp add: w_shape_def)
  moreover have "tables_shift (int (w_out w)) (int padTables) (w_buf w) (w_tables w) = Inr (w_tables w, w_buf w)"
    using calculation a(1) by (simp add: tables_shift_def w_shape_def)
  ultimately show ?thesis using a False by (simp add: w_wrap_def w_shape_def Let_def)
qed (simp add: w_wrap_def)

lemma room_shape: "w_shape w \<Longrightarrow> w_wstart w = w_out w \<Longrightarrow> w_out w < padTables + w_size w \<Longrightarrow>
    \<exists>w'. w_room w = Inr w' \<and> w_shape w' \<and> w_out w' < w_wend w'"
  by (auto simp: w_room_def w_shape_def hugeBuf_def)

lemma literal_shape:
  assumes "w_shape w" "w_out w < w_wend w"
  shows "\<exists>w'. w_literal b w = Inr w' \<and> w_shape w' \<and> w_out w' < w_wend w'"
proof -
  let ?w = "w\<lparr>w_buf := (w_buf w)[w_out w := b], w_out := w_out w + 1\<rparr>"
  have p: "w_put b w = Inr ?w" using assms by (simp add: w_put_def w_shape_def)
  have s: "w_shape ?w" "w_out ?w \<le> w_wend ?w" using assms by (simp_all add: w_shape_def)
  show ?thesis
  proof (cases "w_out ?w < w_wend ?w")
    case True
    then show ?thesis using p s by (simp add: w_literal_def flush_idle)
  next
    case False
    have t: "t_list (w_tables ?w) = []" "w_wstart ?w \<le> w_out ?w" using s(1) by (simp_all add: w_shape_def)
    let ?e = "(w_emit ?w)\<lparr>w_wstart := w_out ?w\<rparr>"
    have f: "w_flush False ?w = bindE (w_wrap ?e) w_room" by (rule flush_empty [OF t]) (use False in simp)
    have "w_shape ?e" "w_out ?e \<le> w_wend ?e" "w_wstart ?e = w_out ?e" using s by (simp_all add: w_shape_def w_emit_def Let_def)
    from wrap_shape [OF this] obtain v where v: "w_wrap ?e = Inr v" "w_shape v" "w_wstart v = w_out v" "w_out v < padTables + w_size v" by blast
    from room_shape [OF v(2-4)] show ?thesis using p f v(1) by (simp add: w_literal_def)
  qed
qed

text \<open>An input of zeros stays one.\<close>

definition zeros :: "byteIn \<Rightarrow> bool" where
  "zeros b \<longleftrightarrow> (\<forall>i. bi_buf b i = 0) \<and> (\<exists>n. bi_src b = replicate n 0)"

lemma zeros_pull: "zeros b \<Longrightarrow> zeros (bi_pull dst n b)"
  by (auto simp: zeros_def bi_pull_def Let_def)

lemma zeros_new: "zeros (newByteIn (replicate n 0))"
  unfolding newByteIn_def by (rule zeros_pull) (auto simp: zeros_def)

lemma zeros_fill: "zeros b \<Longrightarrow> zeros (bi_fill b)"
proof -
  assume z: "zeros b"
  have "zeros (b\<lparr>bi_buf := (\<lambda>i. if i < maxElem then bi_buf b (largeBuf + i) else bi_buf b i)\<rparr>)" using z by (simp add: zeros_def)
  from zeros_pull [OF this, of maxElem largeBuf] show ?thesis using z by (simp add: bi_fill_def zeros_def)
qed

lemma zeros_get: "zeros b \<Longrightarrow> bi_get n b = (q, b') \<Longrightarrow> q = replicate n 0 \<and> zeros b'"
  using zeros_fill [of b] by (auto simp: bi_get_def Let_def zeros_def map_replicate_const)

lemma le_word_zeros: "le_word (replicate n 0) = 0"
  by (induction n) simp_all

lemma zeros_next: "zeros (b_in d) \<Longrightarrow> b_flags d = 0 \<Longrightarrow> \<exists>d'. b_next d = ret (True, d') \<and> zeros (b_in d') \<and> b_flags d' = 0"
proof -
  assume z: "zeros (b_in d)" "b_flags d = 0"
  obtain q i where g: "bi_get 4 (b_in d) = (q, i)" by force
  then have "get32 (b_in d) = (0, i)" "zeros i" using zeros_get [OF z(1) g] by (simp_all add: get32_def le_word_zeros)
  then show ?thesis using z by (simp add: b_next_def)
qed

lemma zeros_char: "zeros (b_in d) \<Longrightarrow> b_flags d = 0 \<Longrightarrow> \<exists>d'. b_char d = (0, d') \<and> zeros (b_in d') \<and> b_flags d' = 0"
proof -
  assume z: "zeros (b_in d)" "b_flags d = 0"
  obtain q i where g: "bi_get 1 (b_in d) = (q, i)" by force
  then have "get8 (b_in d) = (0, i)" "zeros i" using zeros_get [OF z(1) g] by (simp_all add: get8_def le_word_zeros)
  then show ?thesis using z by (simp add: b_char_def)
qed

lemma zeros_step:
  assumes "zeros (b_in d)" "b_flags d = 0" "w_shape w" "w_out w < w_wend w"
  shows "\<exists>d' w'. w_step byte_lz minlen d w = ret (Continue d' w') \<and> zeros (b_in d') \<and> b_flags d' = 0 \<and> w_shape w' \<and> w_out w' < w_wend w'"
proof -
  obtain d1 where n: "b_next d = ret (True, d1)" "zeros (b_in d1)" "b_flags d1 = 0" using zeros_next [OF assms(1,2)] by blast
  obtain d2 where c: "b_char d1 = (0, d2)" "zeros (b_in d2)" "b_flags d2 = 0" using zeros_char [OF n(2,3)] by blast
  obtain w' where w: "w_literal 0 w = Inr w'" "w_shape w'" "w_out w' < w_wend w'" using literal_shape [OF assms(3,4)] by blast
  have "bindR (Some (Inr w')) (\<lambda>w. ret (Continue d2 w)) = ret (Continue d2 w')" by (simp add: bindR_def)
  then have "w_step byte_lz minlen d w = ret (Continue d2 w')" using n(1) c(1) w(1) by (simp add: w_step_def byte_lz_def)
  then show ?thesis using c(2,3) w(2,3) by blast
qed

lemma zeros_never:
  assumes "w_run D minlen d w = Some r"
  shows "D = byte_lz \<longrightarrow> zeros (b_in d) \<longrightarrow> b_flags d = 0 \<longrightarrow> w_shape w \<longrightarrow> \<not> w_out w < w_wend w"
proof (rule w_run.raw_induct [where P = "\<lambda>D minlen d w r. D = byte_lz \<longrightarrow> zeros (b_in d) \<longrightarrow> b_flags d = 0 \<longrightarrow> w_shape w \<longrightarrow> \<not> w_out w < w_wend w", OF _ assms], goal_cases)
  case (1 run D minlen d w r)
  show ?case
  proof (intro impI notI)
    assume a: "D = byte_lz" "zeros (b_in d)" "b_flags d = 0" "w_shape w" "w_out w < w_wend w"
    obtain d' w' where s: "w_step byte_lz minlen d w = ret (Continue d' w')" "zeros (b_in d')" "b_flags d' = 0" "w_shape w'" "w_out w' < w_wend w'"
      using zeros_step [OF a(2-5)] by blast
    have "run byte_lz minlen d' w' = Some r" using 1(2) unfolding a(1) s(1) by simp
    from 1(1) [OF this] show False using s by blast
  qed
qed

text \<open>
  C23: a Tornado stream of plain bytes that ends after its header, or that goes on with zeros however
  long, is never decoded to an end: past the input the decoder reads zeros, which are literals, and
  neither the end of the input nor the limit of the output stops it.
\<close>

theorem tor_never_returns:
  assumes "dict \<le> 2 ^ 30"
  shows "tor_decode (tor_header 1 minlen dict @ replicate n 0) = None"
proof -
  let ?src = "tor_header 1 minlen dict @ replicate n 0" and ?w = "newWindow (tor_limit (length (tor_header 1 minlen dict @ replicate n 0))) (unat dict)"
  have "w_shape ?w" "w_out ?w < w_wend ?w"
    by (simp_all add: w_shape_def newWindow_def newDataTables_def Let_def padTables_def largeBuf_def hugeBuf_def)
  then have "w_run byte_lz (ucast minlen) (newByteDec (replicate n 0)) ?w = None"
    using zeros_never [of byte_lz "ucast minlen" "newByteDec (replicate n 0)" ?w] zeros_new [of n]
    by (cases "w_run byte_lz (ucast minlen) (newByteDec (replicate n 0)) ?w") (simp_all add: newByteDec_def)
  then have "decompress ?src (tor_limit (length ?src)) = None"
    using leD [OF assms] unfolding decompress_header Let_def by simp
  then show ?thesis by (simp add: tor_decode_def tor_header_def)
qed

lemma tor_never_returns_witness: "tor_decode (tor_header 1 2 65536 @ replicate 0 0) = None"
  by (rule tor_never_returns) simp

end
