(* ===== verification/Lz4.thy ===== *)
theory Lz4
  imports Runs
begin

text \<open>
  The fast LZ4 encoder (\<open>stream/xt3u/lz4.go\<close>): a hash table of places, a search that skips faster the
  longer it finds nothing, and the sequences it writes. The reference is a decoder of LZ4 blocks: what
  the encoder writes decodes to its input and fits the bound it allocates.
\<close>

section \<open>The encoder\<close>

definition lz4MaxInput :: nat where
  "lz4MaxInput = 0x7E000000"

definition lz4CompressBound :: "nat \<Rightarrow> nat" where
  "lz4CompressBound n = (if n mod 2 ^ 32 > lz4MaxInput then 0 else n + n div 255 + 16)"

definition u32le :: "bytes \<Rightarrow> nat \<Rightarrow> u32 run" where
  "u32le b i = (if i + 4 \<le> length b then ret (le_word (take 4 (drop i b))) else panics)"

definition u64le :: "bytes \<Rightarrow> nat \<Rightarrow> u64 run" where
  "u64le b i = (if i + 8 \<le> length b then ret (le_word (take 8 (drop i b))) else panics)"

definition lz4Hash4 :: "u32 \<Rightarrow> nat" where
  "lz4Hash4 s = unat (drop_bit 19 (s * 2654435761))"

definition lz4Hash5 :: "u64 \<Rightarrow> nat" where
  "lz4Hash5 s = unat (drop_bit 52 (push_bit 24 s * 889523592379))"

text \<open>The length of what \<open>a\<close> and \<open>b\<close> have in common, eight bytes at a time and then byte by byte.\<close>

function count8 :: "bytes \<Rightarrow> nat \<Rightarrow> nat \<Rightarrow> nat \<Rightarrow> nat \<times> nat" where
  "count8 src a b lim =
     (if a + 8 \<le> lim \<and> b + 8 \<le> length src \<and> take 8 (drop a src) = take 8 (drop b src) then count8 src (a + 8) (b + 8) lim else (a, b))"
  by pat_completeness auto
termination by (relation "measure (\<lambda>(src, a, b, lim). lim - a)") auto

function count1 :: "bytes \<Rightarrow> nat \<Rightarrow> nat \<Rightarrow> nat \<Rightarrow> nat" where
  "count1 src a b lim = (if a < lim \<and> b < length src \<and> src ! a = src ! b then count1 src (a + 1) (b + 1) lim else a)"
  by pat_completeness auto
termination by (relation "measure (\<lambda>(src, a, b, lim). lim - a)") auto

declare count8.simps [simp del] count1.simps [simp del]

definition matchLen :: "bytes \<Rightarrow> nat \<Rightarrow> nat \<Rightarrow> nat \<Rightarrow> nat" where
  "matchLen src a b lim = (let (a', b') = count8 src a b lim in count1 src a' b' lim - a)"

text \<open>The output is a buffer and a place in it.\<close>

type_synonym sink = "bytes \<times> nat"

definition put8 :: "nat \<Rightarrow> sink \<Rightarrow> sink run" where
  "put8 v = (\<lambda>(dst, p). if p < length dst then ret (dst[p := word_of_nat v], p + 1) else panics)"

definition put_lits :: "bytes \<Rightarrow> sink \<Rightarrow> sink run" where
  "put_lits b = (\<lambda>(dst, p). if p + length b \<le> length dst then ret (take p dst @ b @ drop (p + length b) dst, p + length b) else panics)"

function writeExt :: "nat \<Rightarrow> sink \<Rightarrow> sink run" where
  "writeExt n s = (if 255 \<le> n then bindR (put8 255 s) (writeExt (n - 255)) else put8 n s)"
  by pat_completeness auto
termination by (relation "measure fst") auto

declare writeExt.simps [simp del]

definition add_token :: "nat \<Rightarrow> nat \<Rightarrow> sink \<Rightarrow> sink run" where
  "add_token at v = (\<lambda>(dst, p). if at < length dst then ret (dst[at := dst ! at + word_of_nat v], p) else panics)"

definition slice_of :: "bytes \<Rightarrow> nat \<Rightarrow> nat \<Rightarrow> bytes run" where
  "slice_of b i j = (if i \<le> j \<and> j \<le> length b then ret (take (j - i) (drop i b)) else panics)"

definition emitSeq :: "bytes \<Rightarrow> nat \<Rightarrow> nat \<Rightarrow> nat \<Rightarrow> nat \<Rightarrow> sink \<Rightarrow> sink run" where
  "emitSeq src anchor ip matchPos mlen s =
     (let tokenAt = snd s; lit = ip - anchor; off = ip - matchPos; ml = mlen - 4 in
      bindR (if 15 \<le> lit then bindR (put8 (15 * 16) s) (writeExt (lit - 15)) else put8 (lit * 16) s) (\<lambda>s.
      bindR (slice_of src anchor ip) (\<lambda>b. bindR (put_lits b s) (\<lambda>s.
      bindR (put8 off s) (\<lambda>s. bindR (put8 (off div 256) s) (\<lambda>s.
      if 15 \<le> ml then bindR (add_token tokenAt 15 s) (writeExt (ml - 15)) else add_token tokenAt ml s))))))"

definition emitLast :: "bytes \<Rightarrow> nat \<Rightarrow> sink \<Rightarrow> sink run" where
  "emitLast src anchor s =
     (let lit = length src - anchor in
      bindR (if 15 \<le> lit then bindR (put8 (15 * 16) s) (writeExt (lit - 15)) else put8 (lit * 16) s) (\<lambda>s.
      bindR (slice_of src anchor (length src)) (\<lambda>b. put_lits b s)))"

text \<open>Inputs of less than 65547 bytes have a table of 16-bit places.\<close>

definition byU16 :: "bytes \<Rightarrow> bool" where
  "byU16 src \<longleftrightarrow> length src < 65547"

definition hashAt :: "bytes \<Rightarrow> nat \<Rightarrow> nat run" where
  "hashAt src i = (if byU16 src then bindR (u32le src i) (\<lambda>s. ret (lz4Hash4 s)) else bindR (u64le src i) (\<lambda>s. ret (lz4Hash5 s)))"

definition putAt :: "bytes \<Rightarrow> nat \<Rightarrow> nat \<Rightarrow> nat list \<Rightarrow> nat list run" where
  "putAt src i h t = (if h < length t then ret (t[h := (if byU16 src then i mod 2 ^ 16 else i mod 2 ^ 32)]) else panics)"

definition getAt :: "nat \<Rightarrow> nat list \<Rightarrow> nat run" where
  "getAt h t = (if h < length t then ret (t ! h) else panics)"

definition mflimitPlusOne :: "bytes \<Rightarrow> nat" where
  "mflimitPlusOne src = length src - 12 + 1"

text \<open>A match for the bytes at some place, with the table and the hash of the place after it; none if the end is near.\<close>

partial_function (option) search :: "bytes \<Rightarrow> nat \<Rightarrow> nat \<Rightarrow> nat \<Rightarrow> nat \<Rightarrow> nat list \<Rightarrow> (nat \<times> nat \<times> nat list) option run" where
  "search src forwardH forwardIP step nb t =
     bindR (getAt forwardH t) (\<lambda>matchIndex.
       let ip = forwardIP; next = forwardIP + step in
       if next > mflimitPlusOne src then ret None
       else bindR (hashAt src next) (\<lambda>h. bindR (putAt src ip forwardH t) (\<lambda>t.
         if \<not> byU16 src \<and> matchIndex + 65535 < ip then search src h next (nb div 64) (nb + 1) t
         else bindR (u32le src matchIndex) (\<lambda>a. bindR (u32le src ip) (\<lambda>b.
           if a = b then ret (Some (ip, matchIndex, t)) else search src h next (nb div 64) (nb + 1) t)))))"

fun catch_up :: "bytes \<Rightarrow> nat \<Rightarrow> nat \<Rightarrow> nat \<Rightarrow> nat \<times> nat" where
  "catch_up src anchor (Suc i) (Suc m) = (if anchor < Suc i \<and> src ! i = src ! m then catch_up src anchor i m else (Suc i, Suc m))"
| "catch_up src anchor i m = (i, m)"

text \<open>Matches that follow each other at once; then the place to search on from, unless the end is near.\<close>

partial_function (option) matches :: "bytes \<Rightarrow> nat \<Rightarrow> nat \<Rightarrow> nat \<Rightarrow> nat list \<Rightarrow> sink \<Rightarrow> ((nat \<times> nat list) option \<times> nat \<times> sink) run" where
  "matches src anchor ip match t s =
     (let mlen = 4 + matchLen src (ip + 4) (match + 4) (length src - 5) in
      bindR (emitSeq src anchor ip match mlen s) (\<lambda>s.
        let ip = ip + mlen in
        if ip \<ge> mflimitPlusOne src then ret (None, ip, s)
        else bindR (hashAt src (ip - 2)) (\<lambda>h. bindR (putAt src (ip - 2) h t) (\<lambda>t.
          bindR (hashAt src ip) (\<lambda>h. bindR (getAt h t) (\<lambda>matchIndex. bindR (putAt src ip h t) (\<lambda>t.
            if byU16 src \<or> ip \<le> matchIndex + 65535 then
              bindR (u32le src matchIndex) (\<lambda>a. bindR (u32le src ip) (\<lambda>b.
                if a = b then matches src ip ip matchIndex t s else ret (Some (ip + 1, t), ip, s)))
            else ret (Some (ip + 1, t), ip, s))))))))"

partial_function (option) compress_from :: "bytes \<Rightarrow> nat \<Rightarrow> nat \<Rightarrow> nat \<Rightarrow> nat list \<Rightarrow> sink \<Rightarrow> sink run" where
  "compress_from src accel anchor ip t s =
     bindR (hashAt src ip) (\<lambda>h. bindR (search src h ip 1 (accel * 64) t) (\<lambda>r.
       case r of None \<Rightarrow> emitLast src anchor s
       | Some (ip, match, t) \<Rightarrow>
           let (ip, match) = catch_up src anchor ip match in
           bindR (matches src anchor ip match t s) (\<lambda>(go, anchor, s).
             case go of None \<Rightarrow> emitLast src anchor s | Some (ip, t) \<Rightarrow> compress_from src accel anchor ip t s)))"

definition lz4CompressFast :: "bytes \<Rightarrow> bytes \<Rightarrow> nat \<Rightarrow> sink run" where
  "lz4CompressFast src dst accel =
     (let accel = (if accel < 1 then 1 else accel) in
      if length src mod 2 ^ 32 > lz4MaxInput then ret (dst, 0)
      else if length src < 13 then emitLast src 0 (dst, 0)
      else let t = replicate (if byU16 src then 2 ^ 13 else 2 ^ 12) 0 in
        bindR (hashAt src 0) (\<lambda>h. bindR (putAt src 0 h t) (\<lambda>t. compress_from src accel 0 1 t (dst, 0))))"

definition compressFast :: "bytes \<Rightarrow> nat \<Rightarrow> nat \<Rightarrow> bytes run" where
  "compressFast src accel dstCap =
     (let accel = (if accel = 0 then 1 else accel); bound = lz4CompressBound (length src) in
      if bound = 0 then fails
      else bindR (lz4CompressFast src (replicate bound 0) accel) (\<lambda>(buf, n).
        if n = 0 then fails else if n > (if dstCap = 0 then bound else dstCap) then fails else ret (take n buf)))"

section \<open>The reference decoder\<close>

fun read_more :: "bytes \<Rightarrow> (nat \<times> bytes) option" where
  "read_more [] = None"
| "read_more (b # bs) = (if b = 255 then map_option (\<lambda>(n, r). (n + 255, r)) (read_more bs) else Some (unat b, bs))"

definition read_len :: "nat \<Rightarrow> bytes \<Rightarrow> (nat \<times> bytes) option" where
  "read_len k bs = (if k < 15 then Some (k, bs) else map_option (\<lambda>(n, r). (n + 15, r)) (read_more bs))"

lemma read_more_shrinks: "read_more bs = Some (n, r) \<Longrightarrow> length r < length bs"
  by (induction bs arbitrary: n r) (auto split: if_splits)

lemma read_len_shrinks: "read_len k bs = Some (n, r) \<Longrightarrow> length r \<le> length bs"
  by (auto simp: read_len_def split: if_splits dest: read_more_shrinks)

text \<open>\<open>n\<close> bytes from \<open>k\<close> bytes back, which may overlap what they write.\<close>

fun repeat_back :: "nat \<Rightarrow> nat \<Rightarrow> bytes \<Rightarrow> bytes" where
  "repeat_back 0 k t = t"
| "repeat_back (Suc n) k t = repeat_back n k (t @ [t ! (length t - k)])"

function lz4_decode :: "bytes \<Rightarrow> bytes \<Rightarrow> bytes option" where
  "lz4_decode out [] = None"
| "lz4_decode out (t # bs) =
     (case read_len (unat t div 16) bs of None \<Rightarrow> None
      | Some (l, bs1) \<Rightarrow>
          if length bs1 < l then None
          else if drop l bs1 = [] then Some (out @ take l bs1)
          else if length (drop l bs1) < 2 then None
          else let off = le_nat (take 2 (drop l bs1)) in
            (case read_len (unat t mod 16) (drop 2 (drop l bs1)) of None \<Rightarrow> None
             | Some (m, bs2) \<Rightarrow>
                 if off = 0 \<or> off > length out + l then None else lz4_decode (repeat_back (m + 4) off (out @ take l bs1)) bs2))"
  by pat_completeness auto
termination
  by (relation "measure (\<lambda>(out, bs). length bs)") (auto dest!: read_len_shrinks)

declare lz4_decode.simps(2) [simp del]

section \<open>Blocks\<close>

definition ext :: "nat \<Rightarrow> bytes" where
  "ext n = replicate (n div 255) 255 @ [word_of_nat (n mod 255)]"

definition len_ext :: "nat \<Rightarrow> bytes" where
  "len_ext n = (if n < 15 then [] else ext (n - 15))"

definition token :: "nat \<Rightarrow> nat \<Rightarrow> byte" where
  "token l m = word_of_nat (min l 15 * 16 + min m 15)"

definition seq_bytes :: "bytes \<Rightarrow> nat \<Rightarrow> nat \<Rightarrow> bytes" where
  "seq_bytes lits off m = token (length lits) m # len_ext (length lits) @ lits @ [word_of_nat off, word_of_nat (off div 256)] @ len_ext m"

definition last_bytes :: "bytes \<Rightarrow> bytes" where
  "last_bytes lits = token (length lits) 0 # len_ext (length lits) @ lits"

lemma unat_numeral_byte: "unat (255 :: byte) = 255"
  by simp

lemma read_more_ext: "read_more (ext n @ rest) = Some (n, rest)"
proof -
  have "(word_of_nat (n mod 255) :: byte) \<noteq> 255 \<and> unat (word_of_nat (n mod 255) :: byte) = n mod 255"
  proof -
    have u: "unat (word_of_nat (n mod 255) :: byte) = n mod 255" by (rule unat_of_nat_small) (simp add: less_trans [of _ 255])
    moreover have "n mod 255 \<noteq> 255" by (metis mod_less_divisor less_irrefl zero_less_numeral)
    ultimately show ?thesis by (metis unat_numeral_byte)
  qed
  then have "read_more (replicate k 255 @ [word_of_nat (n mod 255)] @ rest) = Some (255 * k + n mod 255, rest)" for k
    by (induction k) simp_all
  from this [of "n div 255"] show ?thesis by (simp add: ext_def)
qed

lemma read_len_ext: "read_len (min n 15) (len_ext n @ rest) = Some (n, rest)"
  by (simp add: read_len_def len_ext_def read_more_ext)

lemma token_parts: "unat (token l m) div 16 = min l 15" "unat (token l m) mod 16 = min m 15"
proof -
  have u: "unat (token l m) = min l 15 * 16 + min m 15" unfolding token_def by (rule unat_of_nat_small) simp
  show "unat (token l m) div 16 = min l 15" "unat (token l m) mod 16 = min m 15" unfolding u by simp_all
qed

lemma decode_last: "lz4_decode out (last_bytes lits) = Some (out @ lits)"
  unfolding last_bytes_def lz4_decode.simps(2) token_parts read_len_ext by simp

lemma decode_seq:
  assumes "0 < off" "off \<le> length out + length lits" "off < 2 ^ 16"
  shows "lz4_decode out (seq_bytes lits off m @ rest) = lz4_decode (repeat_back (m + 4) off (out @ lits)) rest"
proof -
  have o: "le_nat [word_of_nat off, word_of_nat (off div 256)] = off"
  proof -
    have "unat (word_of_nat (off div 256) :: byte) = off div 256" by (rule unat_of_nat_small) (use assms(3) in simp)
    moreover have "unat (word_of_nat off :: byte) = off mod 256" by (simp only: unat_of_nat) simp
    ultimately show ?thesis by simp
  qed
  have s: "seq_bytes lits off m @ rest
      = token (length lits) m # len_ext (length lits) @ lits @ [word_of_nat off, word_of_nat (off div 256)] @ len_ext m @ rest"
    by (simp add: seq_bytes_def)
  show ?thesis unfolding s lz4_decode.simps(2) token_parts read_len_ext using assms(1,2) by (simp add: o read_len_ext Let_def del: le_nat.simps)
qed

lemma seq_cost: "255 * length (seq_bytes lits off m) \<le> 256 * (length lits + (m + 4))"
proof -
  have e: "255 * length (len_ext n) \<le> n + 240" "n < 15 \<longrightarrow> length (len_ext n) = 0" for n
    by (auto simp: len_ext_def ext_def)
  show ?thesis using e [of "length lits"] e [of m] by (cases "length lits < 15"; cases "m < 15") (auto simp: seq_bytes_def)
qed

lemma last_cost: "255 * length (last_bytes lits) \<le> 256 * length lits + 510"
proof -
  have "255 * length (len_ext n) \<le> n + 255" for n by (auto simp: len_ext_def ext_def)
  from this [of "length lits"] show ?thesis by (simp add: last_bytes_def)
qed

section \<open>What is written\<close>

definition sinks :: "nat \<Rightarrow> bytes \<Rightarrow> sink \<Rightarrow> bool" where
  "sinks n out s \<longleftrightarrow> snd s = length out \<and> take (length out) (fst s) = out \<and> length (fst s) = n \<and> length out \<le> n"

lemma put8_ok: "sinks n out s \<Longrightarrow> length out < n \<Longrightarrow> \<exists>s'. put8 v s = ret s' \<and> sinks n (out @ [word_of_nat v]) s'"
  by (cases s) (auto simp: sinks_def put8_def take_Suc_conv_app_nth)

lemma put_lits_ok: "sinks n out s \<Longrightarrow> length out + length b \<le> n \<Longrightarrow> \<exists>s'. put_lits b s = ret s' \<and> sinks n (out @ b) s'"
  by (cases s) (auto simp: sinks_def put_lits_def)

lemma writeExt_ok: "sinks n out s \<Longrightarrow> length out + length (ext v) \<le> n \<Longrightarrow> \<exists>s'. writeExt v s = ret s' \<and> sinks n (out @ ext v) s'"
proof (induction v s arbitrary: out rule: writeExt.induct)
  case (1 v s)
  show ?case
  proof (cases "255 \<le> v")
    case True
    then have v: "v div 255 = Suc ((v - 255) div 255)" "(v - 255) mod 255 = v mod 255" by (simp_all add: le_div_geq le_mod_geq)
    then have e: "ext v = 255 # ext (v - 255)" by (simp add: ext_def)
    obtain s1 where s1: "put8 255 s = ret s1" "sinks n (out @ [255]) s1" using put8_ok [OF "1.prems"(1), of 255] "1.prems"(2) by (auto simp: e)
    have "length (out @ [255]) + length (ext (v - 255)) \<le> n" using "1.prems"(2) by (simp add: e)
    from "1.IH" [OF True s1(2) this] show ?thesis using True s1(1) by (subst writeExt.simps) (simp add: e)
  next
    case False
    then have e: "ext v = [word_of_nat v]" by (simp add: ext_def)
    show ?thesis using put8_ok [OF "1.prems"(1), of v] "1.prems"(2) False by (subst writeExt.simps) (simp add: e)
  qed
qed

definition half_token :: "nat \<Rightarrow> byte" where
  "half_token l = word_of_nat (min l 15 * 16)"

lemma head_ok:
  assumes "sinks n out s" "length out + 1 + length (len_ext l) \<le> n"
  shows "\<exists>s'. (if 15 \<le> l then bindR (put8 (15 * 16) s) (writeExt (l - 15)) else put8 (l * 16) s) = ret s' \<and> sinks n (out @ half_token l # len_ext l) s'"
proof (cases "15 \<le> l")
  case True
  obtain s1 where s1: "put8 (15 * 16) s = ret s1" "sinks n (out @ [half_token l]) s1"
    using put8_ok [OF assms(1), of "15 * 16"] assms(2) True by (auto simp: half_token_def)
  have "length (out @ [half_token l]) + length (ext (l - 15)) \<le> n" using assms(2) True by (simp add: len_ext_def)
  from writeExt_ok [OF s1(2) this] show ?thesis using s1(1) True by (simp add: len_ext_def)
next
  case False
  then show ?thesis using put8_ok [OF assms(1), of "l * 16"] assms(2) by (simp add: len_ext_def half_token_def)
qed

lemma add_token_ok:
  assumes "sinks n (out @ half_token l # more) s" "v = min m 15"
  shows "\<exists>s'. add_token (length out) v s = ret s' \<and> sinks n (out @ token l m # more) s'"
proof -
  obtain dst p where s: "s = (dst, p)" by force
  have h: "p = length (out @ half_token l # more)" "take p dst = out @ half_token l # more" "length dst = n" "p \<le> n"
    using assms(1) by (simp_all add: sinks_def s)
  have lt: "length out < length dst" using h by simp
  have "dst ! length out = take p dst ! length out" using h(1) by simp
  then have a: "dst ! length out = half_token l" unfolding h(2) by simp
  have t: "half_token l + word_of_nat v = token l m" by (simp add: half_token_def token_def assms(2))
  have "take p (dst[length out := token l m]) = (take p dst)[length out := token l m]" by (simp add: take_update_swap)
  also have "\<dots> = out @ token l m # more" unfolding h(2) by simp
  finally show ?thesis using lt h(1,3,4) a t by (simp add: add_token_def s sinks_def)
qed

definition piece :: "bytes \<Rightarrow> nat \<Rightarrow> nat \<Rightarrow> bytes" where
  "piece src i j = take (j - i) (drop i src)"

lemma emitSeq_ok:
  assumes "sinks n out s" "anchor \<le> ip" "ip \<le> length src" "length out + length (seq_bytes (piece src anchor ip) (ip - match) (mlen - 4)) \<le> n"
  shows "\<exists>s'. emitSeq src anchor ip match mlen s = ret s' \<and> sinks n (out @ seq_bytes (piece src anchor ip) (ip - match) (mlen - 4)) s'"
proof -
  let ?l = "ip - anchor" and ?b = "piece src anchor ip" and ?off = "ip - match" and ?m = "mlen - 4"
  have lb: "length ?b = ?l" using assms(2,3) by (simp add: piece_def)
  have room: "length out + (1 + length (len_ext ?l) + ?l + 2 + length (len_ext ?m)) \<le> n" using assms(4) by (simp add: seq_bytes_def lb)
  have sn: "snd s = length out" using assms(1) by (simp add: sinks_def)
  obtain s1 where s1: "(if 15 \<le> ?l then bindR (put8 (15 * 16) s) (writeExt (?l - 15)) else put8 (?l * 16) s) = ret s1" "sinks n (out @ half_token ?l # len_ext ?l) s1"
    using head_ok [OF assms(1), of ?l] room by auto
  have b: "slice_of src anchor ip = ret ?b" using assms(2,3) by (simp add: slice_of_def piece_def)
  obtain s2 where s2: "put_lits ?b s1 = ret s2" "sinks n ((out @ half_token ?l # len_ext ?l) @ ?b) s2"
    using put_lits_ok [OF s1(2), of ?b] room lb by auto
  obtain s3 where s3: "put8 ?off s2 = ret s3" "sinks n (((out @ half_token ?l # len_ext ?l) @ ?b) @ [word_of_nat ?off]) s3"
    using put8_ok [OF s2(2), of ?off] room lb by auto
  obtain s4 where s4: "put8 (?off div 256) s3 = ret s4" "sinks n ((((out @ half_token ?l # len_ext ?l) @ ?b) @ [word_of_nat ?off]) @ [word_of_nat (?off div 256)]) s4"
    using put8_ok [OF s3(2), of "?off div 256"] room lb by auto
  let ?more = "len_ext ?l @ ?b @ [word_of_nat ?off, word_of_nat (?off div 256)]"
  have s4': "sinks n (out @ half_token ?l # ?more) s4" using s4(2) by simp
  have fin: "out @ seq_bytes ?b ?off ?m = (out @ token ?l ?m # ?more) @ len_ext ?m" by (simp add: seq_bytes_def lb)
  have e: "emitSeq src anchor ip match mlen s = (if 15 \<le> ?m then bindR (add_token (length out) 15 s4) (writeExt (?m - 15)) else add_token (length out) ?m s4)"
    unfolding emitSeq_def Let_def s1(1) sn by (simp add: b s2(1) s3(1) s4(1))
  show ?thesis
  proof (cases "15 \<le> ?m")
    case True
    obtain s5 where s5: "add_token (length out) 15 s4 = ret s5" "sinks n (out @ token ?l ?m # ?more) s5"
      using add_token_ok [OF s4', of 15 ?m] True by auto
    have "length (out @ token ?l ?m # ?more) + length (ext (?m - 15)) \<le> n" using room lb True by (simp add: len_ext_def)
    from writeExt_ok [OF s5(2) this] show ?thesis using True s5(1) unfolding e fin by (simp add: len_ext_def)
  next
    case False
    then show ?thesis using add_token_ok [OF s4', of ?m ?m] unfolding e fin by (simp add: len_ext_def)
  qed
qed

lemma emitLast_ok:
  assumes "sinks n out s" "anchor \<le> length src" "length out + length (last_bytes (drop anchor src)) \<le> n"
  shows "\<exists>s'. emitLast src anchor s = ret s' \<and> sinks n (out @ last_bytes (drop anchor src)) s'"
proof -
  let ?l = "length src - anchor" and ?b = "drop anchor src"
  have room: "length out + (1 + length (len_ext ?l) + ?l) \<le> n" using assms(3) by (simp add: last_bytes_def)
  obtain s1 where s1: "(if 15 \<le> ?l then bindR (put8 (15 * 16) s) (writeExt (?l - 15)) else put8 (?l * 16) s) = ret s1" "sinks n (out @ half_token ?l # len_ext ?l) s1"
    using head_ok [OF assms(1), of ?l] room by auto
  have b: "slice_of src anchor (length src) = ret ?b" using assms(2) by (simp add: slice_of_def)
  obtain s2 where s2: "put_lits ?b s1 = ret s2" "sinks n ((out @ half_token ?l # len_ext ?l) @ ?b) s2"
    using put_lits_ok [OF s1(2), of ?b] room by auto
  have "half_token ?l = token ?l 0" by (simp add: half_token_def token_def)
  then have "sinks n (out @ last_bytes ?b) s2" using s2(2) by (simp add: last_bytes_def)
  then show ?thesis using s2(1) unfolding emitLast_def Let_def s1(1) by (simp add: b)
qed

section \<open>What is found\<close>

lemma count1_spec: "a \<le> lim \<Longrightarrow> count1 src a b lim = a + j \<Longrightarrow> a + j \<le> lim \<and> (\<forall>i < j. src ! (a + i) = src ! (b + i))
    \<and> (a + j = lim \<or> length src \<le> b + j \<or> src ! (a + j) \<noteq> src ! (b + j))"
proof (induction src a b lim arbitrary: j rule: count1.induct)
  case (1 src a b lim)
  show ?case
  proof (cases "a < lim \<and> b < length src \<and> src ! a = src ! b")
    case True
    have up: "a + 1 \<le> count1 src (a + 1) (b + 1) lim"
    proof -
      have "x \<le> count1 s x y l" for s x y l
        by (induction s x y l rule: count1.induct) (subst count1.simps, auto)
      then show ?thesis .
    qed
    have "count1 src (a + 1) (b + 1) lim = a + j" using "1.prems"(2) True by (simp add: count1.simps [of src a])
    then obtain k where k: "j = Suc k" "count1 src (a + 1) (b + 1) lim = (a + 1) + k" using up by (cases j) auto
    from "1.IH" [OF True _ k(2)] True have ih: "a + 1 + k \<le> lim" "\<forall>i < k. src ! (a + 1 + i) = src ! (b + 1 + i)"
      "a + 1 + k = lim \<or> length src \<le> b + 1 + k \<or> src ! (a + 1 + k) \<noteq> src ! (b + 1 + k)" by auto
    have "src ! (a + i) = src ! (b + i)" if "i < j" for i using ih(2) that True k(1) by (cases i) auto
    then show ?thesis using ih(1,3) k(1) by auto
  next
    case False
    then have "j = 0" using "1.prems"(2) by (auto simp: count1.simps [of src a])
    then show ?thesis using False "1.prems"(1) by auto
  qed
qed

lemma take_eq_nth: "take n (drop a src) = take n (drop b src) \<Longrightarrow> a + n \<le> length src \<Longrightarrow> b + n \<le> length src \<Longrightarrow> i < n \<Longrightarrow> src ! (a + i) = src ! (b + i)"
proof -
  assume a: "take n (drop a src) = take n (drop b src)" "a + n \<le> length src" "b + n \<le> length src" "i < n"
  have "take n (drop a src) ! i = src ! (a + i)" "take n (drop b src) ! i = src ! (b + i)" using a(2-4) by simp_all
  then show ?thesis using a(1) by simp
qed

lemma count8_spec: "a \<le> lim \<Longrightarrow> lim \<le> length src \<Longrightarrow> count8 src a b lim = (a', b') \<Longrightarrow>
    \<exists>j. a' = a + j \<and> b' = b + j \<and> a' \<le> lim \<and> (\<forall>i < j. src ! (a + i) = src ! (b + i))"
proof (induction src a b lim arbitrary: a' b' rule: count8.induct)
  case (1 src a b lim)
  show ?case
  proof (cases "a + 8 \<le> lim \<and> b + 8 \<le> length src \<and> take 8 (drop a src) = take 8 (drop b src)")
    case True
    then have "count8 src (a + 8) (b + 8) lim = (a', b')" using "1.prems"(3) by (simp add: count8.simps [of src a])
    from "1.IH" [OF True _ "1.prems"(2) this] True obtain j where
      j: "a' = a + 8 + j" "b' = b + 8 + j" "a' \<le> lim" "\<forall>i < j. src ! (a + 8 + i) = src ! (b + 8 + i)" by auto
    have "src ! (a + i) = src ! (b + i)" if i: "i < 8 + j" for i
    proof (cases "i < 8")
      case True
      then show ?thesis using take_eq_nth [of 8 a src b i] \<open>a + 8 \<le> lim \<and> _\<close> "1.prems"(2) by auto
    next
      case False
      then obtain k where k: "i = 8 + k" by (metis le_Suc_ex not_less)
      then have "src ! (a + 8 + k) = src ! (b + 8 + k)" using j(4) i by simp
      then show ?thesis by (simp only: k add.assoc)
    qed
    then show ?thesis using j by (intro exI [of _ "8 + j"]) simp
  next
    case False
    then have "a' = a" "b' = b" using "1.prems"(3) by (auto simp: count8.simps [of src a])
    then show ?thesis using "1.prems"(1) by (intro exI [of _ 0]) simp
  qed
qed

lemma matchLen_spec:
  assumes "a \<le> lim" "lim \<le> length src"
  shows "a + matchLen src a b lim \<le> lim \<and> (\<forall>i < matchLen src a b lim. src ! (a + i) = src ! (b + i))
    \<and> (a + matchLen src a b lim = lim \<or> length src \<le> b + matchLen src a b lim \<or> src ! (a + matchLen src a b lim) \<noteq> src ! (b + matchLen src a b lim))"
proof -
  obtain a' b' where c: "count8 src a b lim = (a', b')" by force
  from count8_spec [OF assms c] obtain j where j: "a' = a + j" "b' = b + j" "a' \<le> lim" "\<forall>i < j. src ! (a + i) = src ! (b + i)" by blast
  have "a' \<le> count1 src a' b' lim"
  proof -
    have "x \<le> count1 s x y l" for s x y l by (induction s x y l rule: count1.induct) (subst count1.simps, auto)
    then show ?thesis .
  qed
  then obtain k where k: "count1 src a' b' lim = a' + k" by (metis le_Suc_ex)
  note s = count1_spec [OF j(3) k]
  have m: "matchLen src a b lim = j + k" using k unfolding matchLen_def c by (simp add: j(1))
  have "src ! (a + i) = src ! (b + i)" if i: "i < j + k" for i
  proof (cases "i < j")
    case False
    then obtain l where l: "i = j + l" by (metis le_Suc_ex not_less)
    then have "src ! (a' + l) = src ! (b' + l)" using s i by simp
    then show ?thesis by (simp only: j(1,2) l add.assoc)
  qed (use j(4) in simp)
  then show ?thesis using s unfolding m j(1,2) by (simp add: add.assoc)
qed

text \<open>An input that is long enough to be searched, and not too long.\<close>

definition searchable :: "bytes \<Rightarrow> bool" where
  "searchable src \<longleftrightarrow> 13 \<le> length src \<and> length src \<le> lz4MaxInput"

definition table_ok :: "bytes \<Rightarrow> nat \<Rightarrow> nat list \<Rightarrow> bool" where
  "table_ok src p t \<longleftrightarrow> length t = (if byU16 src then 2 ^ 13 else 2 ^ 12) \<and> (\<forall>x \<in> set t. x < p)"

lemma table_mono: "table_ok src p t \<Longrightarrow> p \<le> q \<Longrightarrow> table_ok src q t"
  by (auto simp: table_ok_def)

lemma hashAt_ok:
  assumes "searchable src" "i \<le> mflimitPlusOne src"
  shows "\<exists>h. hashAt src i = ret h \<and> (\<forall>p t. table_ok src p t \<longrightarrow> h < length t)"
proof -
  have i: "i + 11 \<le> length src" using assms unfolding searchable_def mflimitPlusOne_def by linarith
  have 4: "lz4Hash4 x < 2 ^ 13" for x
  proof -
    have "unat (x * 2654435761) < 2 ^ 32" using unat_u32_less by simp
    then show ?thesis by (simp add: lz4Hash4_def unat_drop less_mult_imp_div_less del: unat_mult_lem)
  qed
  have 5: "lz4Hash5 x < 2 ^ 12" for x
  proof -
    have "unat (push_bit 24 x * 889523592379) < 2 ^ 64" using unat_u64_less by simp
    then show ?thesis by (simp add: lz4Hash5_def unat_drop less_mult_imp_div_less)
  qed
  show ?thesis
  proof (cases "byU16 src")
    case True
    then show ?thesis using i 4 by (simp add: hashAt_def u32le_def table_ok_def)
  next
    case False
    then show ?thesis using i 5 by (simp add: hashAt_def u64le_def table_ok_def)
  qed
qed

lemma putAt_ok:
  assumes "searchable src" "table_ok src p t" "h < length t" "i \<le> mflimitPlusOne src" "p \<le> q" "i < q"
  shows "\<exists>t'. putAt src i h t = ret t' \<and> table_ok src q t'"
proof -
  have i: "i + 11 \<le> length src" "length src \<le> 0x7E000000"
    using assms(1,4) unfolding searchable_def mflimitPlusOne_def lz4MaxInput_def by linarith+
  have "i mod 2 ^ 16 = i" if "byU16 src" using that i by (intro mod_less) (simp add: byU16_def)
  moreover have "i mod 2 ^ 32 = i" using i by (intro mod_less) simp
  ultimately have e: "putAt src i h t = ret (t[h := i])" using assms(3) by (simp add: putAt_def)
  have "\<forall>x \<in> set (t[h := i]). x < q" using assms(2,5,6) set_update_subset_insert [of t h i] by (fastforce simp: table_ok_def)
  then show ?thesis using e assms(2) by (simp add: table_ok_def)
qed

lemma getAt_ok: "table_ok src p t \<Longrightarrow> h < length t \<Longrightarrow> \<exists>m. getAt h t = ret m \<and> m < p"
  by (auto simp: getAt_def table_ok_def)

definition same4 :: "bytes \<Rightarrow> nat \<Rightarrow> nat \<Rightarrow> bool" where
  "same4 src m i \<longleftrightarrow> (\<forall>j < 4. src ! (m + j) = src ! (i + j))"

lemma u32le_same:
  assumes "u32le src m = ret x" "u32le src i = ret x"
  shows "same4 src m i"
proof -
  have l: "m + 4 \<le> length src" "i + 4 \<le> length src" using assms by (auto simp: u32le_def panics_def ret_def split: if_splits)
  then have x: "(le_word (take 4 (drop m src)) :: u32) = le_word (take 4 (drop i src))" using assms by (simp add: u32le_def)
  have "take 4 (drop m src) = put_le 4 (le_word (take 4 (drop m src)) :: u32)" using l by (intro put_le_le_word [symmetric]) simp_all
  also have "\<dots> = take 4 (drop i src)" unfolding x using l by (intro put_le_le_word) simp_all
  finally show ?thesis using take_eq_nth l unfolding same4_def by blast
qed

lemma u32le_ok: "i + 4 \<le> length src \<Longrightarrow> \<exists>x. u32le src i = ret x"
  by (simp add: u32le_def)

text \<open>A match that may be written: before the place, not too far back, with four bytes in common.\<close>

definition match_ok :: "bytes \<Rightarrow> nat \<Rightarrow> nat \<Rightarrow> bool" where
  "match_ok src m i \<longleftrightarrow> m < i \<and> i - m < 2 ^ 16 \<and> i < mflimitPlusOne src \<and> same4 src m i"

lemma near_enough: "searchable src \<Longrightarrow> i < mflimitPlusOne src \<Longrightarrow> byU16 src \<or> i \<le> m + 65535 \<Longrightarrow> i - m < 2 ^ 16"
  by (auto simp: byU16_def mflimitPlusOne_def searchable_def)

lemma search_ok:
  assumes "searchable src" "table_ok src ip t" "h < length t" "1 \<le> step" "64 \<le> nb" "1 \<le> ip"
  shows "\<exists>r. search src h ip step nb t = ret r \<and> (\<forall>i m t'. r = Some (i, m, t') \<longrightarrow> ip \<le> i \<and> match_ok src m i \<and> table_ok src (i + 1) t')"
  using assms(2-6)
proof (induction "mflimitPlusOne src - ip" arbitrary: ip h step nb t rule: less_induct)
  case less
  let ?next = "ip + step"
  obtain m where m: "getAt h t = ret m" "m < ip" using getAt_ok [OF less.prems(1,2)] by blast
  show ?case
  proof (cases "?next > mflimitPlusOne src")
    case True
    then show ?thesis by (subst search.simps) (simp add: m(1) Let_def)
  next
    case False
    obtain h' where h': "hashAt src ?next = ret h'" "\<forall>p t. table_ok src p t \<longrightarrow> h' < length t" using hashAt_ok [OF assms(1), of ?next] False by auto
    obtain t' where t': "putAt src ip h t = ret t'" "table_ok src (ip + 1) t'"
      using putAt_ok [OF assms(1) less.prems(1,2), of ip "ip + 1"] False by auto
    have go: "\<exists>r. search src h' ?next (nb div 64) (nb + 1) t' = ret r \<and> (\<forall>i m t'. r = Some (i, m, t') \<longrightarrow> ip \<le> i \<and> match_ok src m i \<and> table_ok src (i + 1) t')"
    proof -
      have "mflimitPlusOne src - ?next < mflimitPlusOne src - ip" using False less.prems(3) by linarith
      moreover have "table_ok src ?next t'" using table_mono [OF t'(2)] less.prems(3) by simp
      moreover have "h' < length t'" using h'(2) t'(2) by blast
      moreover have "1 \<le> nb div 64" using less.prems(4) by (simp add: less_eq_div_iff_mult_less_eq)
      ultimately show ?thesis using less.hyps [of ?next t' h' "nb div 64" "nb + 1"] less.prems(4,5) by fastforce
    qed
    have len: "ip + 4 \<le> length src" "m + 4 \<le> length src" using False less.prems(3) m(2) assms(1) by (simp_all add: mflimitPlusOne_def searchable_def)
    obtain a b where ab: "u32le src m = ret a" "u32le src ip = ret b" using u32le_ok len by blast
    have "match_ok src m ip" if "a = b" "byU16 src \<or> ip \<le> m + 65535"
      using u32le_same ab that m(2) near_enough [OF assms(1) _ that(2)] False less.prems(3) by (simp add: match_ok_def)
    then show ?thesis using go t'(2)
      by (subst search.simps) (auto simp: m(1) h'(1) t'(1) ab Let_def False not_less)
  qed
qed

lemma catch_up_spec: "catch_up src anchor i m = (i', m') \<Longrightarrow> anchor \<le> i \<Longrightarrow>
    \<exists>d. i = i' + d \<and> m = m' + d \<and> anchor \<le> i' \<and> (\<forall>j < d. src ! (m' + j) = src ! (i' + j))"
proof (induction src anchor i m arbitrary: i' m' rule: catch_up.induct)
  case (1 src anchor i m)
  show ?case
  proof (cases "anchor < Suc i \<and> src ! i = src ! m")
    case True
    then obtain d where d: "i = i' + d" "m = m' + d" "anchor \<le> i'" "\<forall>j < d. src ! (m' + j) = src ! (i' + j)"
      using "1.IH" "1.prems"(1) by auto
    have "src ! (m' + j) = src ! (i' + j)" if "j < Suc d" for j using d that True by (cases "j = d") auto
    then show ?thesis using d by (intro exI [of _ "Suc d"]) simp
  qed (use "1.prems" in \<open>auto intro: exI [of _ 0]\<close>)
qed (auto intro: exI [of _ 0])

text \<open>What has been written decodes to what has been read up to the anchor, and fits.\<close>

definition progress :: "bytes \<Rightarrow> nat \<Rightarrow> sink \<Rightarrow> bool" where
  "progress src anchor s \<longleftrightarrow> anchor \<le> length src \<and> (\<exists>out. sinks (lz4CompressBound (length src)) out s \<and> 255 * length out \<le> 256 * anchor
     \<and> (\<forall>rest. lz4_decode [] (out @ rest) = lz4_decode (take anchor src) rest))"

lemma repeat_back_take:
  "0 < k \<Longrightarrow> k \<le> ip \<Longrightarrow> ip + n \<le> length src \<Longrightarrow> \<forall>j < n. src ! (ip - k + j) = src ! (ip + j) \<Longrightarrow> repeat_back n k (take ip src) = take (ip + n) src"
proof (induction n arbitrary: ip)
  case (Suc n)
  have f: "src ! (ip - k) = src ! ip" using Suc.prems(4) by (metis add_0_right zero_less_Suc)
  then have "take ip src @ [take ip src ! (length (take ip src) - k)] = take (Suc ip) src"
    using Suc.prems(1-3) by (simp add: take_Suc_conv_app_nth min_def)
  moreover have "\<forall>j < n. src ! (Suc ip - k + j) = src ! (Suc ip + j)"
  proof (intro allI impI)
    fix j assume "j < n"
    then have "src ! (ip - k + Suc j) = src ! (ip + Suc j)" using Suc.prems(4) by (meson Suc_less_eq)
    then show "src ! (Suc ip - k + j) = src ! (Suc ip + j)" using Suc.prems(2) by (simp add: Suc_diff_le)
  qed
  ultimately show ?case using Suc.IH [of "Suc ip"] Suc.prems(1-3) by simp
qed simp

lemma bound_room: "length src \<le> lz4MaxInput \<Longrightarrow> 255 * k \<le> 256 * length src + 510 \<Longrightarrow> k \<le> lz4CompressBound (length src)"
proof -
  assume a: "length src \<le> lz4MaxInput" "255 * k \<le> 256 * length src + 510"
  have "k \<le> n + q + 16" if "255 * k \<le> 256 * n + 510" "n = 255 * q + r" "r < 255" for n q r :: nat using that by linarith
  from this [OF a(2), of "length src div 255" "length src mod 255"] have "k \<le> length src + length src div 255 + 16" by simp
  moreover have "length src mod 2 ^ 32 \<le> lz4MaxInput" using a(1) mod_less_eq_dividend order_trans by blast
  ultimately show ?thesis by (simp add: lz4CompressBound_def)
qed

lemma emit_progress:
  assumes "searchable src" "progress src anchor s" "anchor \<le> ip" "match_ok src match ip" "ip + mlen \<le> length src" "4 \<le> mlen"
    "\<forall>j < mlen. src ! (match + j) = src ! (ip + j)"
  shows "\<exists>s'. emitSeq src anchor ip match mlen s = ret s' \<and> progress src (ip + mlen) s'"
proof -
  let ?L = "lz4CompressBound (length src)" and ?b = "piece src anchor ip" and ?off = "ip - match" and ?m = "mlen - 4"
  obtain out where out: "sinks ?L out s" "255 * length out \<le> 256 * anchor" "\<forall>rest. lz4_decode [] (out @ rest) = lz4_decode (take anchor src) rest"
    using assms(2) by (auto simp: progress_def)
  let ?seq = "seq_bytes ?b ?off ?m"
  have ip: "ip \<le> length src" using assms(5) by simp
  have lb: "length ?b = ip - anchor" using ip by (simp add: piece_def)
  have "255 * length ?seq \<le> 256 * (ip - anchor + mlen)" using seq_cost [of ?b ?off ?m] assms(6) by (simp add: lb)
  then have cost: "255 * length (out @ ?seq) \<le> 256 * (ip + mlen)" using out(2) assms(3) by simp
  have "length (out @ ?seq) \<le> ?L" using cost assms(1,5) by (intro bound_room) (simp_all add: searchable_def)
  then obtain s' where s': "emitSeq src anchor ip match mlen s = ret s'" "sinks ?L (out @ ?seq) s'"
    using emitSeq_ok [OF out(1) assms(3) ip, of match mlen] by auto
  have ta: "take anchor src @ ?b = take ip src" using assms(3) by (simp add: piece_def flip: take_add)
  have lt: "length (take anchor src) + length ?b = ip" using assms(3) ip lb by simp
  have "lz4_decode [] ((out @ ?seq) @ rest) = lz4_decode (take (ip + mlen) src) rest" for rest
  proof -
    have "lz4_decode [] ((out @ ?seq) @ rest) = lz4_decode (take anchor src) (?seq @ rest)" using out(3) by simp
    also have "\<dots> = lz4_decode (repeat_back (?m + 4) ?off (take ip src)) rest"
      using assms(4) lt by (subst decode_seq) (simp_all add: ta match_ok_def)
    also have "repeat_back (?m + 4) ?off (take ip src) = take (ip + mlen) src"
      using assms(4-7) by (subst repeat_back_take) (simp_all add: match_ok_def)
    finally show ?thesis .
  qed
  then have "progress src (ip + mlen) s'" unfolding progress_def using assms(5) s'(2) cost by blast
  then show ?thesis using s'(1) by blast
qed

lemma last_ok:
  assumes "length src \<le> lz4MaxInput" "progress src anchor s"
  shows "\<exists>dst p. emitLast src anchor s = ret (dst, p) \<and> lz4_decode [] (take p dst) = Some src \<and> p \<le> lz4CompressBound (length src) \<and> 0 < p"
proof -
  let ?L = "lz4CompressBound (length src)" and ?b = "last_bytes (drop anchor src)"
  obtain out where out: "sinks ?L out s" "255 * length out \<le> 256 * anchor" "\<forall>rest. lz4_decode [] (out @ rest) = lz4_decode (take anchor src) rest"
    "anchor \<le> length src" using assms(2) by (auto simp: progress_def)
  have "255 * length (out @ ?b) \<le> 256 * length src + 510" using out(2,4) last_cost [of "drop anchor src"] by simp
  then have le: "length (out @ ?b) \<le> ?L" using assms(1) by (intro bound_room)
  obtain s' where s': "emitLast src anchor s = ret s'" "sinks ?L (out @ ?b) s'" using emitLast_ok [OF out(1,4)] le by auto
  obtain dst p where p: "s' = (dst, p)" by force
  have "take p dst = out @ ?b" "p = length (out @ ?b)" using s'(2) by (simp_all add: sinks_def p)
  moreover have "lz4_decode [] (out @ ?b) = Some src" using out(3) by (simp add: decode_last)
  moreover have "0 < length (out @ ?b)" by (simp add: last_bytes_def)
  ultimately show ?thesis using s'(1) le by (auto simp: p)
qed

lemma matches_step:
  assumes "4 + matchLen src (ip + 4) (m + 4) (length src - 5) = n" "ip + n = q" "emitSeq src anchor ip m n s = ret s1" "\<not> mflimitPlusOne src \<le> q"
    "hashAt src (q - 2) = ret h1" "putAt src (q - 2) h1 t = ret t1" "hashAt src q = ret h2" "getAt h2 t1 = ret m'" "putAt src q h2 t1 = ret t2"
    "u32le src m' = ret a" "u32le src q = ret b"
  shows "matches src anchor ip m t s = (if (byU16 src \<or> q \<le> m' + 65535) \<and> a = b then matches src q q m' t2 s1 else ret (Some (q + 1, t2), q, s1))"
  by (subst matches.simps, unfold Let_def assms(1) assms(2) assms(3) bindR_simps) (simp add: assms)

lemma matches_ok:
  assumes "searchable src" "progress src anchor s" "anchor \<le> ip" "match_ok src m ip" "table_ok src (ip + d + 1) t"
    "\<forall>j < d + 4. src ! (m + j) = src ! (ip + j)"
  shows "\<exists>go a s'. matches src anchor ip m t s = ret (go, a, s') \<and> progress src a s' \<and> anchor < a
    \<and> (\<forall>i' t'. go = Some (i', t') \<longrightarrow> i' = a + 1 \<and> i' \<le> mflimitPlusOne src \<and> table_ok src i' t')"
  using assms(2-6)
proof (induction "length src - ip" arbitrary: anchor ip m d t s rule: less_induct)
  case less
  let ?lim = "length src - 5" and ?n = "matchLen src (ip + 4) (m + 4) (length src - 5)"
  let ?ip = "ip + (4 + ?n)"
  have mi: "m < ip" "ip < mflimitPlusOne src" "same4 src m ip" using less.prems(3) by (simp_all add: match_ok_def)
  have "ip + 12 \<le> length src" using mi(2) assms(1) unfolding mflimitPlusOne_def searchable_def by linarith
  then have lim: "ip + 4 \<le> ?lim" "?lim \<le> length src" "5 \<le> length src" by linarith+
  note spec = matchLen_spec [OF lim(1,2), of "m + 4"]
  have len: "?ip + 5 \<le> length src" using spec lim(3) by linarith
  have "\<forall>j < 4 + ?n. src ! (m + j) = src ! (ip + j)"
  proof (intro allI impI)
    fix j assume j: "j < 4 + ?n"
    show "src ! (m + j) = src ! (ip + j)"
    proof (cases "j < 4")
      case False
      then obtain l where l: "j = 4 + l" by (metis le_Suc_ex not_less)
      then have "src ! (ip + 4 + l) = src ! (m + 4 + l)" using spec j by simp
      then show ?thesis by (simp only: l add.assoc)
    qed (use mi(3) in \<open>simp add: same4_def\<close>)
  qed
  then obtain s1 where s1: "emitSeq src anchor ip m (4 + ?n) s = ret s1" "progress src ?ip s1"
    using emit_progress [OF assms(1) less.prems(1,2,3), of "4 + ?n"] len by auto
  show ?case
  proof (cases "?ip \<ge> mflimitPlusOne src")
    case True
    then show ?thesis using s1 less.prems(2) by (subst matches.simps) (simp add: Let_def)
  next
    case False
    have past: "ip + d + 1 \<le> ?ip"
    proof (rule ccontr)
      assume c: "\<not> ip + d + 1 \<le> ?ip"
      then have "src ! (m + (4 + ?n)) = src ! (ip + (4 + ?n))" using less.prems(5) by simp
      then have "src ! (ip + 4 + ?n) = src ! (m + 4 + ?n)" by (simp only: add.assoc)
      moreover have "ip + 4 + ?n \<noteq> ?lim" using False lim(1) assms(1) by (simp add: mflimitPlusOne_def searchable_def)
      moreover have "\<not> length src \<le> m + 4 + ?n" using len mi(1) by simp
      ultimately show False using spec by blast
    qed
    obtain h1 where h1: "hashAt src (?ip - 2) = ret h1" "h1 < length t" using hashAt_ok [OF assms(1), of "?ip - 2"] False less.prems(4) by auto
    obtain t1 where t1: "putAt src (?ip - 2) h1 t = ret t1" "table_ok src ?ip t1"
      using putAt_ok [OF assms(1) less.prems(4) h1(2), of "?ip - 2" ?ip] False past by auto
    obtain h2 where h2: "hashAt src ?ip = ret h2" "h2 < length t1" using hashAt_ok [OF assms(1), of ?ip] False t1(2) by auto
    obtain m' where m': "getAt h2 t1 = ret m'" "m' < ?ip" using getAt_ok [OF t1(2) h2(2)] by blast
    obtain t2 where t2: "putAt src ?ip h2 t1 = ret t2" "table_ok src (?ip + 1) t2"
      using putAt_ok [OF assms(1) t1(2) h2(2), of ?ip "?ip + 1"] False by auto
    have r: "?ip + 4 \<le> length src" "m' + 4 \<le> length src" using len m'(2) by simp_all
    obtain a b where ab: "u32le src m' = ret a" "u32le src ?ip = ret b" using u32le_ok r by blast
    have again: "\<exists>go a s'. matches src ?ip ?ip m' t2 s1 = ret (go, a, s') \<and> progress src a s' \<and> ?ip < a
        \<and> (\<forall>i' t'. go = Some (i', t') \<longrightarrow> i' = a + 1 \<and> i' \<le> mflimitPlusOne src \<and> table_ok src i' t')"
      if c: "a = b" "byU16 src \<or> ?ip \<le> m' + 65535"
    proof -
      have s4: "same4 src m' ?ip" using u32le_same ab c(1) by blast
      then have "match_ok src m' ?ip" using near_enough [OF assms(1) _ c(2)] False m'(2) by (simp add: match_ok_def)
      moreover have "length src - ?ip < length src - ip" using len by simp
      ultimately show ?thesis using less.hyps [of ?ip ?ip s1 m' 0 t2] s1(2) t2(2) s4 by (simp add: same4_def)
    qed
    have up: "anchor < ?ip" using less.prems(2) by simp
    note e = matches_step [OF refl refl s1(1) _ h1(1) t1(1) h2(1) m'(1) t2(1) ab, OF False]
    show ?thesis
    proof (cases "(byU16 src \<or> ?ip \<le> m' + 65535) \<and> a = b")
      case True
      then have "matches src anchor ip m t s = matches src ?ip ?ip m' t2 s1" unfolding e by (simp only: if_True simp_thms)
      then show ?thesis using again [OF conjunct2 [OF True] conjunct1 [OF True]] less_trans [OF up] by (metis (no_types, lifting))
    next
      case c: False
      then have g: "matches src anchor ip m t s = ret (Some (?ip + 1, t2), ?ip, s1)" unfolding e by (simp only: if_False)
      have "?ip + 1 \<le> mflimitPlusOne src" using False by simp
      then show ?thesis unfolding g using s1(2) up t2(2) by (intro exI [of _ "Some (?ip + 1, t2)"] exI [of _ ?ip] exI [of _ s1]) simp
    qed
  qed
qed

lemma compress_from_ok:
  assumes "searchable src" "1 \<le> accel" "progress src anchor s" "anchor \<le> ip" "1 \<le> ip" "ip \<le> mflimitPlusOne src" "table_ok src ip t"
  shows "\<exists>dst p. compress_from src accel anchor ip t s = ret (dst, p) \<and> lz4_decode [] (take p dst) = Some src \<and> p \<le> lz4CompressBound (length src) \<and> 0 < p"
  using assms(3-7)
proof (induction "length src - anchor" arbitrary: anchor ip t s rule: less_induct)
  case less
  have max: "length src \<le> lz4MaxInput" using assms(1) by (simp add: searchable_def)
  note stop = last_ok [OF max]
  obtain h where h: "hashAt src ip = ret h" "h < length t" using hashAt_ok [OF assms(1) less.prems(4)] less.prems(5) by blast
  obtain r where r: "search src h ip 1 (accel * 64) t = ret r"
    "\<And>i m t'. r = Some (i, m, t') \<Longrightarrow> ip \<le> i \<and> match_ok src m i \<and> table_ok src (i + 1) t'"
    using search_ok [OF assms(1) less.prems(5) h(2), of 1 "accel * 64"] assms(2) less.prems(3) by auto
  show ?case
  proof (cases r)
    case None
    then show ?thesis using stop [OF less.prems(1)] by (subst compress_from.simps) (simp add: h(1) r(1) [unfolded One_nat_def])
  next
    case (Some x)
    obtain i m t' where x: "x = (i, m, t')" by (cases x) auto
    have i: "ip \<le> i" "match_ok src m i" "table_ok src (i + 1) t'" using r(2) Some x by auto
    obtain i0 m0 where c: "catch_up src anchor i m = (i0, m0)" by force
    from catch_up_spec [OF c] less.prems(2) i(1) obtain d where
      d: "i = i0 + d" "m = m0 + d" "anchor \<le> i0" "\<forall>j < d. src ! (m0 + j) = src ! (i0 + j)" by auto
    have four: "\<forall>j < d + 4. src ! (m0 + j) = src ! (i0 + j)"
    proof (intro allI impI)
      fix j assume j: "j < d + 4"
      show "src ! (m0 + j) = src ! (i0 + j)"
      proof (cases "j < d")
        case False
        then obtain l where l: "j = d + l" by (metis le_Suc_ex not_less)
        then have "src ! (m + l) = src ! (i + l)" using i(2) j by (simp add: match_ok_def same4_def)
        then show ?thesis by (simp only: d(1,2) l add.assoc)
      qed (use d(4) in simp)
    qed
    have m0: "match_ok src m0 i0" using i(2) four d(1,2) by (auto simp: match_ok_def same4_def)
    have "table_ok src (i0 + d + 1) t'" using i(3) d(1) by simp
    from matches_ok [OF assms(1) less.prems(1) d(3) m0 this four] obtain go a s' where
      g: "matches src anchor i0 m0 t' s = ret (go, a, s')" "progress src a s'" "anchor < a"
      "\<And>i' t'. go = Some (i', t') \<Longrightarrow> i' = a + 1 \<and> i' \<le> mflimitPlusOne src \<and> table_ok src i' t'" by blast
    have e: "compress_from src accel anchor ip t s = (case go of None \<Rightarrow> emitLast src a s' | Some (ip, t) \<Rightarrow> compress_from src accel a ip t s')"
      by (subst compress_from.simps) (simp add: h(1) r(1) [unfolded One_nat_def] Some x c g(1))
    show ?thesis
    proof (cases go)
      case None
      then show ?thesis using stop [OF g(2)] unfolding e by simp
    next
      case (Some y)
      obtain i1 t1 where y: "y = (i1, t1)" by force
      have i1: "i1 = a + 1" "i1 \<le> mflimitPlusOne src" "table_ok src i1 t1" using g(4) Some y by auto
      have "a \<le> length src" using g(2) by (simp add: progress_def)
      then have "length src - a < length src - anchor" using g(3) by simp
      then show ?thesis using less.hyps [OF _ g(2) _ _ i1(2,3)] i1(1) unfolding e by (simp add: Some y)
    qed
  qed
qed

lemma progress_init: "progress src 0 (replicate (lz4CompressBound (length src)) 0, 0)"
  by (simp add: progress_def sinks_def)

lemma lz4CompressFast_ok:
  assumes "length src \<le> lz4MaxInput"
  shows "\<exists>dst p. lz4CompressFast src (replicate (lz4CompressBound (length src)) 0) accel = ret (dst, p) \<and> lz4_decode [] (take p dst) = Some src
    \<and> p \<le> lz4CompressBound (length src) \<and> 0 < p"
proof -
  let ?s = "(replicate (lz4CompressBound (length src)) 0, 0) :: sink" and ?a = "if accel < 1 then 1 else accel"
  have max: "\<not> length src mod 2 ^ 32 > lz4MaxInput" using assms mod_less_eq_dividend order_trans by (metis not_less)
  show ?thesis
  proof (cases "length src < 13")
    case True
    then show ?thesis using last_ok [OF assms progress_init] max by (simp add: lz4CompressFast_def)
  next
    case False
    then have big: "searchable src" using assms by (simp add: searchable_def)
    let ?t = "replicate (if byU16 src then 2 ^ 13 else 2 ^ 12) (0 :: nat)"
    have t: "table_ok src 1 ?t" by (simp add: table_ok_def)
    obtain h where h: "hashAt src 0 = ret h" "h < length ?t" using hashAt_ok [OF big, of 0] t by blast
    obtain t1 where t1: "putAt src 0 h ?t = ret t1" "table_ok src 1 t1" using putAt_ok [OF big t h(2), of 0 1] by auto
    have "1 \<le> mflimitPlusOne src" "1 \<le> ?a" by (simp_all add: mflimitPlusOne_def)
    then obtain dst p where g: "compress_from src ?a 0 1 t1 ?s = ret (dst, p)" "lz4_decode [] (take p dst) = Some src"
      "p \<le> lz4CompressBound (length src)" "0 < p"
      using compress_from_ok [OF big _ progress_init _ _ _ t1(2), of ?a] by blast
    have "lz4CompressFast src (replicate (lz4CompressBound (length src)) 0) accel = compress_from src ?a 0 1 t1 ?s"
      using max False by (simp add: lz4CompressFast_def Let_def h(1) t1(1))
    then show ?thesis using g by auto
  qed
qed

text \<open>C9: an input of at most \<open>0x7E000000\<close> bytes, at any acceleration, is compressed without an error, a
  panic or an endless search, into at most the bound that is allocated for it, and the block that is written decodes to the input.\<close>

theorem lz4_roundtrip:
  assumes "length src \<le> lz4MaxInput"
  shows "\<exists>out. compressFast src accel 0 = ret out \<and> lz4_decode [] out = Some src \<and> length out \<le> lz4CompressBound (length src)"
proof -
  have b: "0 < lz4CompressBound (length src)" "\<not> lz4CompressBound (length src) = 0"
    using bound_room [OF assms, of 1] by simp_all
  obtain dst p where g: "lz4CompressFast src (replicate (lz4CompressBound (length src)) 0) (if accel = 0 then 1 else accel) = ret (dst, p)"
    "lz4_decode [] (take p dst) = Some src" "p \<le> lz4CompressBound (length src)" "0 < p"
    using lz4CompressFast_ok [OF assms] by blast
  have "compressFast src accel 0 = ret (take p dst)" unfolding compressFast_def Let_def using b g by simp
  then show ?thesis using g by auto
qed

theorem lz4_roundtrip_witness:
  "\<exists>out. compressFast [1, 2, 3, 1, 2, 3, 1, 2, 3, 1, 2, 3, 1, 2, 3, 1, 2, 3, 1, 2] 1 0 = ret out
    \<and> lz4_decode [] out = Some [1, 2, 3, 1, 2, 3, 1, 2, 3, 1, 2, 3, 1, 2, 3, 1, 2, 3, 1, 2] \<and> length out \<le> 36"
  using lz4_roundtrip [of "[1, 2, 3, 1, 2, 3, 1, 2, 3, 1, 2, 3, 1, 2, 3, 1, 2, 3, 1, 2]" 1] by (simp add: lz4MaxInput_def lz4CompressBound_def)

end
