(* ===== verification/Ifps.thy ===== *)
theory Ifps
  imports Prelude
begin

text \<open>
  The compiled scripts of installers (\<open>setupdata/ifps.go\<close>): a cursor that remembers its first error, the
  types, procedures and variables of a program, and the instructions of a procedure, read as data. The
  instructions of a procedure cover its code without a gap, and no bytes make the reader panic.
\<close>

section \<open>The cursor\<close>

datatype ps_error =
    UnexpectedEnd | InvalidType | OversizedString | UnsupportedConstant | ExcessiveAttributes | ExcessiveFields | BadScriptMagic
  | UnsupportedHeader | InvalidSet | UnsupportedType | InvalidSpan | InvalidGlobal | InvalidOperand | UnsupportedOpcode
  | JoinedStacks | RecursiveCall | NotConverged | StackUnderflow | InvalidCall | ExcessiveStack | InvalidTarget | Unresolved

record psCursor =
  cu_data :: bytes
  cu_pos :: nat
  cu_err :: "ps_error option"

definition ps_fail :: "ps_error \<Rightarrow> psCursor \<Rightarrow> psCursor" where
  "ps_fail e r = r\<lparr>cu_err := Some e\<rparr>"

definition ps_take :: "nat \<Rightarrow> psCursor \<Rightarrow> bytes \<times> psCursor" where
  "ps_take n r =
     (if cu_err r \<noteq> None then ([], r)
      else if n > length (cu_data r) - cu_pos r then ([], ps_fail UnexpectedEnd r)
      else (take n (drop (cu_pos r) (cu_data r)), r\<lparr>cu_pos := cu_pos r + n\<rparr>))"

definition ps_byte :: "psCursor \<Rightarrow> byte \<times> psCursor" where
  "ps_byte r = (let (b, r) = ps_take 1 r in (if b = [] then 0 else hd b, r))"

definition ps_u32 :: "psCursor \<Rightarrow> u32 \<times> psCursor" where
  "ps_u32 r = (let (b, r) = ps_take 4 r in (if b = [] then 0 else le_word b, r))"

definition ps_text :: "psCursor \<Rightarrow> bytes \<times> psCursor" where
  "ps_text r = (let (n, r) = ps_u32 r in ps_take (unat n) r)"

section \<open>Constants\<close>

text \<open>\<open>utf16.Decode\<close> and the UTF-8 bytes of its characters.\<close>

fun utf16_runes :: "u16 list \<Rightarrow> nat list" where
  "utf16_runes [] = []"
| "utf16_runes (r # s) =
     (if r < 0xd800 \<or> 0xe000 \<le> r then unat r # utf16_runes s
      else if r < 0xdc00 then
        (case s of [] \<Rightarrow> [0xfffd]
         | r2 # s' \<Rightarrow> if 0xdc00 \<le> r2 \<and> r2 < 0xe000 then ((unat r - 0xd800) * 0x400 + (unat r2 - 0xdc00) + 0x10000) # utf16_runes s'
                    else 0xfffd # utf16_runes s)
      else 0xfffd # utf16_runes s)"

definition utf8_rune :: "nat \<Rightarrow> bytes" where
  "utf8_rune c =
     (let tail = (\<lambda>n. word_of_nat (0x80 + c div 64 ^ n mod 64)) in
      if c < 0x80 then [word_of_nat c]
      else if c < 0x800 then [word_of_nat (0xc0 + c div 64), tail 0]
      else if c < 0x10000 then [word_of_nat (0xe0 + c div 64 ^ 2), tail 1, tail 0]
      else [word_of_nat (0xf0 + c div 64 ^ 3), tail 2, tail 1, tail 0])"

fun words16 :: "bytes \<Rightarrow> u16 list" where
  "words16 (a # b # s) = le_word [a, b] # words16 s"
| "words16 _ = []"

definition text16 :: "bytes \<Rightarrow> bytes" where
  "text16 b = concat (map utf8_rune (utf16_runes (words16 b)))"

record psType =
  ty_base :: byte
  ty_size :: nat

text \<open>A value is a text, a number or not known; the kind of the code is the constructor.\<close>

datatype psValue = NoValue | Text bytes | Number u64

definition constant_size :: "psType \<Rightarrow> nat option" where
  "constant_size t =
     (if ty_base t \<in> {1, 2, 18} then Some 1
      else if ty_base t \<in> {3, 4, 20} then Some 2
      else if ty_base t \<in> {5, 6, 7, 21} then Some 4
      else if ty_base t \<in> {8, 17, 24, 29} then Some 8
      else if ty_base t = 9 then Some 10
      else if ty_base t = 23 then Some (ty_size t)
      else None)"

definition constant_number :: "byte \<Rightarrow> nat \<Rightarrow> bytes \<Rightarrow> u64" where
  "constant_number base n b =
     (if base \<in> {2, 4, 6} \<and> n < 8 then signed_drop_bit (64 - n * 8) (push_bit (64 - n * 8) (le_word b)) else le_word b)"

definition ps_value :: "psType list \<Rightarrow> u32 \<Rightarrow> psCursor \<Rightarrow> psValue \<times> psCursor" where
  "ps_value types index r =
     (if length types \<le> unat index then (NoValue, ps_fail InvalidType r)
      else let t = types ! unat index; base = ty_base t in
        if base \<in> {10, 14} then (let (b, r) = ps_text r in (Text b, r))
        else if base \<in> {19, 28} then
          (let (n, r) = ps_u32 r in
           if unat n > 2 ^ 20 then (NoValue, ps_fail OversizedString r) else let (b, r) = ps_take (unat n * 2) r in (Text (text16 b), r))
        else
          (case constant_size t of None \<Rightarrow> (NoValue, ps_fail UnsupportedConstant r)
           | Some sz \<Rightarrow>
               let (b, r) = ps_take sz r in
               (if base \<in> {7, 8, 9, 23, 24} then NoValue else Number (constant_number base sz b), r)))"

primrec ps_fields :: "psType list \<Rightarrow> nat \<Rightarrow> psCursor \<Rightarrow> psCursor" where
  "ps_fields types 0 r = r"
| "ps_fields types (Suc n) r = (let (i, r) = ps_u32 r in ps_fields types n (snd (ps_value types i r)))"

primrec ps_attrs :: "psType list \<Rightarrow> nat \<Rightarrow> psCursor \<Rightarrow> psCursor" where
  "ps_attrs types 0 r = r"
| "ps_attrs types (Suc n) r =
     (let (k, r) = ps_u32 (snd (ps_text r)) in
      if unat k > 4096 then ps_fail ExcessiveFields r else ps_attrs types n (ps_fields types (unat k) r))"

definition ps_attributes :: "psType list \<Rightarrow> psCursor \<Rightarrow> psCursor" where
  "ps_attributes types r = (let (n, r) = ps_u32 r in if unat n > 4096 then ps_fail ExcessiveAttributes r else ps_attrs types (unat n) r)"

section \<open>Programs\<close>

record psProc =
  pr_name :: bytes
  pr_decl :: bytes
  pr_external :: bool
  pr_code :: bytes

record psProgram =
  pg_types :: "psType list"
  pg_procs :: "psProc list"
  pg_globals :: nat

type_synonym 'a ps_result = "ps_error fault + 'a"

definition ok_cursor :: "psCursor \<Rightarrow> psCursor ps_result" where
  "ok_cursor r = (case cu_err r of Some e \<Rightarrow> Inl (Error e) | None \<Rightarrow> Inr r)"

definition type_body :: "nat \<Rightarrow> byte \<Rightarrow> psCursor \<Rightarrow> (nat \<times> psCursor) ps_result" where
  "type_body version base r =
     (if base \<in> {21, 25} then Inr (0, snd (ps_text r))
      else if base = 26 then Inr (0, snd (ps_take 16 r))
      else if base = 23 then
        (let (v, r) = ps_u32 r; sz = unat ((v + 7) div 8) in Inr (sz, if sz > 32 then ps_fail InvalidSet r else r))
      else if base = 22 then (let r = snd (ps_take 8 r) in Inr (0, if version > 22 then snd (ps_take 4 r) else r))
      else if base = 12 then Inr (0, snd (ps_take 4 r))
      else if base = 11 then
        (let (n, r) = ps_u32 r in if unat n > 65536 then Inl (Error ExcessiveFields) else Inr (0, snd (ps_take (unat n * 4) r)))
      else if base \<in> {1, 2, 3, 4, 5, 6, 7, 8, 9, 10, 13, 14, 16, 17, 18, 19, 20, 24, 28, 29} then Inr (0, r)
      else Inl (Error UnsupportedType))"

primrec types_loop :: "nat \<Rightarrow> nat \<Rightarrow> psType list \<Rightarrow> psCursor \<Rightarrow> (psType list \<times> psCursor) ps_result" where
  "types_loop version 0 types r = Inr (types, r)"
| "types_loop version (Suc n) types r =
     (let (flags, r) = ps_byte r; base = flags AND 127 in
      bindE (type_body version base r) (\<lambda>(sz, r).
        let types = types @ [\<lparr>ty_base = base, ty_size = sz\<rparr>]; r = (if flags AND 128 \<noteq> 0 then snd (ps_text r) else r) in
        bindE (ok_cursor (ps_attributes types r)) (types_loop version n types)))"

definition proc_body :: "psCursor \<Rightarrow> byte \<Rightarrow> (psProc \<times> psCursor) ps_result" where
  "proc_body r flags =
     (if flags AND 1 \<noteq> 0 then
        let (k, r) = ps_byte r; (name, r) = ps_take (unat k) r; (decl, r) = (if flags AND 2 \<noteq> 0 then ps_text r else ([], r)) in
        Inr (\<lparr>pr_name = name, pr_decl = decl, pr_external = True, pr_code = []\<rparr>, r)
      else
        let (off, r) = ps_u32 r; (n, r) = ps_u32 r in
        if unat n = 0 \<or> unat off > length (cu_data r) \<or> unat n > length (cu_data r) - unat off then Inl (Error InvalidSpan)
        else
          let code = take (unat n) (drop (unat off) (cu_data r));
              (name, decl, r) = (if flags AND 2 \<noteq> 0 then let (name, r) = ps_text r; (decl, r) = ps_text r in (name, decl, r) else ([], [], r)) in
          Inr (\<lparr>pr_name = name, pr_decl = decl, pr_external = False, pr_code = code\<rparr>, r))"

primrec procs_loop :: "psType list \<Rightarrow> nat \<Rightarrow> psProc list \<Rightarrow> psCursor \<Rightarrow> (psProc list \<times> psCursor) ps_result" where
  "procs_loop types 0 procs r = Inr (procs, r)"
| "procs_loop types (Suc n) procs r =
     (let (flags, r) = ps_byte r in
      bindE (proc_body r flags) (\<lambda>(f, r).
      bindE (ok_cursor (if flags AND 4 \<noteq> 0 then ps_attributes types r else r)) (procs_loop types n (procs @ [f]))))"

primrec globals_loop :: "u32 \<Rightarrow> nat \<Rightarrow> psCursor \<Rightarrow> psCursor ps_result" where
  "globals_loop nt 0 r = Inr r"
| "globals_loop nt (Suc n) r =
     (let (t, r) = ps_u32 r in
      if nt \<le> t then Inl (Error InvalidGlobal)
      else let (b, r) = ps_byte r in globals_loop nt n (if b AND 1 \<noteq> 0 then snd (ps_text r) else r))"

definition parseIFPS :: "bytes \<Rightarrow> psProgram ps_result" where
  "parseIFPS data =
     (let (magic, r) = ps_take 4 \<lparr>cu_data = data, cu_pos = 0, cu_err = None\<rparr> in
      if magic \<noteq> str ''IFPS'' then Inl (Error BadScriptMagic)
      else
        let (version, r) = ps_u32 r; (nt, r) = ps_u32 r; (nf, r) = ps_u32 r; (nv, r) = ps_u32 r; r = snd (ps_take 8 r) in
        if version < 21 \<or> version > 23 \<or> nt > 65536 \<or> nf > 65536 \<or> nv > 65536 then Inl (Error UnsupportedHeader)
        else
          bindE (types_loop (unat version) (unat nt) [] r) (\<lambda>(types, r).
          bindE (procs_loop types (unat nf) [] r) (\<lambda>(procs, r).
          bindE (globals_loop nt (unat nv) r) (\<lambda>r.
          bindE (ok_cursor r) (\<lambda>r. Inr \<lparr>pg_types = types, pg_procs = procs, pg_globals = unat nv\<rparr>)))))"

section \<open>Instructions\<close>

record psOperand =
  o_tag :: byte
  o_address :: u32
  o_value :: psValue

record psInstruction =
  i_offset :: nat
  i_end :: nat
  i_op :: byte
  i_sub :: byte
  i_arg :: u32
  i_operands :: "psOperand list"

definition ps_operand :: "psType list \<Rightarrow> psCursor \<Rightarrow> psOperand \<times> psCursor" where
  "ps_operand types r =
     (let (tag, r) = ps_byte r; x = \<lparr>o_tag = tag, o_address = 0, o_value = NoValue\<rparr> in
      if tag = 0 then (let (a, r) = ps_u32 r in (x\<lparr>o_address := a\<rparr>, r))
      else if tag = 1 then (let (i, r) = ps_u32 r; (v, r) = ps_value types i r in (x\<lparr>o_value := v\<rparr>, r))
      else if tag \<in> {2, 3} then (x, snd (ps_take 8 r))
      else (x, ps_fail InvalidOperand r))"

primrec ps_operands :: "psType list \<Rightarrow> nat \<Rightarrow> psCursor \<Rightarrow> psOperand list \<times> psCursor" where
  "ps_operands types 0 r = ([], r)"
| "ps_operands types (Suc n) r = (let (x, r) = ps_operand types r; (os, r) = ps_operands types n r in (x # os, r))"

text \<open>What stands before the operands: the argument, the operand and the variant of a flag, how many operands follow.\<close>

definition ins_body :: "psType list \<Rightarrow> byte \<Rightarrow> byte \<Rightarrow> psCursor \<Rightarrow> (u32 \<times> byte \<times> psOperand list \<times> nat \<times> psCursor) ps_result" where
  "ins_body types op sub r =
     (if op \<in> {0, 1, 14, 22} then Inr (0, sub, [], 2, r)
      else if op = 12 then Inr (0, sub, [], 3, r)
      else if op \<in> {2, 3, 13, 15, 16, 21, 23, 24} then Inr (0, sub, [], 1, r)
      else if op \<in> {5, 6, 7, 8, 11, 18, 25, 26} then (let (a, r) = ps_u32 r in Inr (a, sub, [], if op \<in> {7, 8} then 1 else 0, r))
      else if op = 10 then Inr (0, sub, [], 0, snd (ps_take 8 r))
      else if op = 17 then (let (x, r) = ps_operand types r; (s, r) = ps_byte r in Inr (0, s, [x], 0, r))
      else if op = 19 then Inr (0, sub, [], 0, snd (ps_take 16 r))
      else if op = 20 then Inr (0, sub, [], 0, snd (ps_byte r))
      else if op \<in> {4, 9, 255} then Inr (0, sub, [], 0, r)
      else Inl (Error UnsupportedOpcode))"

definition ps_instruction :: "psType list \<Rightarrow> psCursor \<Rightarrow> (psInstruction \<times> psCursor) ps_result" where
  "ps_instruction types r =
     (let start = cu_pos r; (op, r) = ps_byte r; (sub, r) = (if op \<in> {1, 12} then ps_byte r else (0, r)) in
      bindE (ins_body types op sub r) (\<lambda>(arg, sub, os, n, r).
        let (more, r) = ps_operands types n r in
        Inr (\<lparr>i_offset = start, i_end = cu_pos r, i_op = op, i_sub = sub, i_arg = arg, i_operands = os @ more\<rparr>, r)))"

text \<open>Reading moves a cursor forwards in the same data, by what it takes, and an error stays one.\<close>

definition onward :: "psCursor \<Rightarrow> psCursor \<Rightarrow> bool" where
  "onward r r' \<longleftrightarrow> cu_data r' = cu_data r \<and> cu_pos r \<le> cu_pos r' \<and> (cu_err r' = None \<longrightarrow> cu_err r = None)
     \<and> (cu_pos r \<le> length (cu_data r) \<longrightarrow> cu_pos r' \<le> length (cu_data r))"

lemma onward_refl [simp]: "onward r r"
  by (simp add: onward_def)

lemma onward_trans [trans]: "onward a b \<Longrightarrow> onward b c \<Longrightarrow> onward a c"
  by (auto simp: onward_def)

lemma onward_fail [simp]: "onward r (ps_fail e r)" "onward r s \<Longrightarrow> onward r (ps_fail e s)"
  by (auto simp: onward_def ps_fail_def)

lemma onward_take: "ps_take n r = (b, r') \<Longrightarrow> onward r r'"
  by (auto simp: ps_take_def onward_def ps_fail_def split: if_splits)

lemma onward_byte: "ps_byte r = (b, r') \<Longrightarrow> onward r r'"
  by (auto simp: ps_byte_def split: prod.splits dest: onward_take)

lemma onward_snd [simp]: "onward r (snd (ps_take n r))" "onward r (snd (ps_byte r))"
  by (metis onward_take prod.collapse, metis onward_byte prod.collapse)

lemma onward_u32: "ps_u32 r = (b, r') \<Longrightarrow> onward r r'"
  by (auto simp: ps_u32_def split: prod.splits dest: onward_take)

lemma onward_text: "ps_text r = (b, r') \<Longrightarrow> onward r r'"
  by (auto simp: ps_text_def split: prod.splits dest!: onward_take onward_u32 intro: onward_trans)

lemma onward_value: "ps_value types i r = (v, r') \<Longrightarrow> onward r r'"
  by (auto simp: ps_value_def Let_def split: if_splits prod.splits option.splits dest!: onward_take onward_u32 onward_text intro: onward_trans)

lemma onward_operand: "ps_operand types r = (o1, r') \<Longrightarrow> onward r r'"
  by (auto simp: ps_operand_def Let_def split: if_splits prod.splits dest!: onward_byte onward_u32 onward_value intro: onward_trans [OF _ onward_snd(1)] onward_trans)

lemma onward_operands: "ps_operands types n r = (os, r') \<Longrightarrow> onward r r' \<and> length os = n"
  by (induction n arbitrary: r os r') (auto split: prod.splits dest!: onward_operand intro: onward_trans)

lemma onward_body: "ins_body types op sub r = Inr (a, s, os, n, r') \<Longrightarrow> onward r r'"
  by (auto simp: ins_body_def Let_def split: if_splits prod.splits dest!: onward_u32 onward_operand onward_byte intro: onward_trans)

definition arity :: "byte \<Rightarrow> nat" where
  "arity op = (if op \<in> {0, 1, 14, 22} then 2 else if op = 12 then 3 else if op \<in> {2, 3, 13, 15, 16, 21, 23, 24, 7, 8, 17} then 1 else 0)"

lemma arity_body: "ins_body types op sub r = Inr (a, s, os, n, r') \<Longrightarrow> length os + n = arity op"
  by (auto simp: ins_body_def arity_def Let_def split: if_splits prod.splits)

lemma ps_byte_moves: "cu_err r = None \<Longrightarrow> cu_pos r < length (cu_data r) \<Longrightarrow> ps_byte r = (b, r') \<Longrightarrow> cu_pos r < cu_pos r'"
  by (auto simp: ps_byte_def ps_take_def split: if_splits)

lemma ps_instruction_spec:
  assumes "ps_instruction types r = Inr (x, r')"
  shows "onward r r' \<and> i_offset x = cu_pos r \<and> i_end x = cu_pos r' \<and> length (i_operands x) = arity (i_op x)
    \<and> (cu_err r = None \<and> cu_pos r < length (cu_data r) \<longrightarrow> cu_pos r < cu_pos r')"
proof -
  obtain op r1 where 1: "ps_byte r = (op, r1)" by force
  obtain sub r2 where 2: "(if op \<in> {1, 12} then ps_byte r1 else (0, r1)) = (sub, r2)" by force
  obtain a s os n r3 where 3: "ins_body types op sub r2 = Inr (a, s, os, n, r3)"
    using assms 1 2 unfolding ps_instruction_def by (auto simp: Let_def res_simps)
  obtain more r4 where 4: "ps_operands types n r3 = (more, r4)" by force
  have x: "x = \<lparr>i_offset = cu_pos r, i_end = cu_pos r4, i_op = op, i_sub = s, i_arg = a, i_operands = os @ more\<rparr>" "r' = r4"
    using assms unfolding ps_instruction_def Let_def 1 prod.case 2 by (auto simp: 3 4)
  have b: "onward r r1" by (rule onward_byte [OF 1])
  have "onward r1 r2" using 2 onward_byte by (auto split: if_splits)
  also have "onward r2 r3" by (rule onward_body [OF 3])
  also have "onward r3 r4" using onward_operands [OF 4] by simp
  finally have c: "onward r1 r4" .
  have "length (os @ more) = arity op" using arity_body [OF 3] onward_operands [OF 4] by simp
  moreover have "cu_pos r < cu_pos r4" if "cu_err r = None" "cu_pos r < length (cu_data r)"
    using ps_byte_moves [OF that 1] c by (simp add: onward_def)
  ultimately show ?thesis using onward_trans [OF b c] x by simp
qed

function ins_loop :: "psType list \<Rightarrow> psCursor \<Rightarrow> psInstruction list \<Rightarrow> psInstruction list ps_result" where
  "ins_loop types r out =
     (if cu_pos r < length (cu_data r) \<and> cu_err r = None then
        case ps_instruction types r of Inl e \<Rightarrow> Inl e | Inr (x, r) \<Rightarrow> ins_loop types r (out @ [x])
      else bindE (ok_cursor r) (\<lambda>_. Inr out))"
  by pat_completeness auto
termination
  by (relation "measure (\<lambda>(types, r, out). length (cu_data r) - cu_pos r)") (auto dest!: ps_instruction_spec simp: onward_def)

declare ins_loop.simps [simp del]

definition instructions :: "psType list \<Rightarrow> bytes \<Rightarrow> psInstruction list ps_result" where
  "instructions types code = ins_loop types \<lparr>cu_data = code, cu_pos = 0, cu_err = None\<rparr> []"

section \<open>What the instructions of a procedure are\<close>

text \<open>Each instruction begins where the one before it ends, and has its operands.\<close>

fun tiles :: "nat \<Rightarrow> psInstruction list \<Rightarrow> nat \<Rightarrow> bool" where
  "tiles a [] b \<longleftrightarrow> a = b"
| "tiles a (x # xs) b \<longleftrightarrow> i_offset x = a \<and> a < i_end x \<and> length (i_operands x) = arity (i_op x) \<and> tiles (i_end x) xs b"

lemma tiles_snoc: "tiles a (xs @ [x]) b \<longleftrightarrow> tiles a xs (i_offset x) \<and> i_offset x < i_end x \<and> length (i_operands x) = arity (i_op x) \<and> i_end x = b"
  by (induction xs arbitrary: a) auto

lemma ins_loop_tiles: "ins_loop types r out = Inr xs \<Longrightarrow> cu_pos r \<le> length (cu_data r) \<Longrightarrow> tiles 0 out (cu_pos r) \<Longrightarrow> tiles 0 xs (length (cu_data r))"
proof (induction types r out rule: ins_loop.induct)
  case (1 types r out)
  show ?case
  proof (cases "cu_pos r < length (cu_data r) \<and> cu_err r = None")
    case True
    obtain x r' where x: "ps_instruction types r = Inr (x, r')" using "1.prems"(1) True by (subst (asm) ins_loop.simps) (auto split: sum.splits)
    note s = ps_instruction_spec [OF x]
    have n: "ins_loop types r' (out @ [x]) = Inr xs" using "1.prems"(1) True x by (subst (asm) ins_loop.simps) simp
    have "tiles 0 (out @ [x]) (cu_pos r')" using "1.prems"(3) s True by (simp add: tiles_snoc)
    moreover have "cu_pos r' \<le> length (cu_data r')" "cu_data r' = cu_data r" using s "1.prems"(2) by (simp_all add: onward_def)
    ultimately show ?thesis using "1.IH" [OF True x refl n] by simp
  next
    case False
    then have "out = xs \<and> cu_err r = None" using "1.prems"(1) by (subst (asm) ins_loop.simps) (auto simp: ok_cursor_def split: option.splits)
    then show ?thesis using "1.prems"(2,3) False by simp
  qed
qed

lemma instructions_tile: "instructions types code = Inr xs \<Longrightarrow> tiles 0 xs (length code)"
  unfolding instructions_def using ins_loop_tiles by fastforce

section \<open>Assembling\<close>

text \<open>A wide string is its characters in UTF-16; a character is a code point that is not half of a pair.\<close>

definition scalar :: "nat \<Rightarrow> bool" where
  "scalar c \<longleftrightarrow> c < 0xd800 \<or> 0xe000 \<le> c \<and> c < 0x110000"

definition utf16_units :: "nat \<Rightarrow> u16 list" where
  "utf16_units c =
     (if c < 0x10000 then [word_of_nat c]
      else [word_of_nat (0xd800 + (c - 0x10000) div 0x400), word_of_nat (0xdc00 + (c - 0x10000) mod 0x400)])"

abbreviation wide_units :: "nat list \<Rightarrow> u16 list" where
  "wide_units cs \<equiv> concat (map utf16_units cs)"

abbreviation wide_bytes :: "nat list \<Rightarrow> bytes" where
  "wide_bytes cs \<equiv> concat (map (put_le 2) (wide_units cs))"

lemma put_le_2: "put_le 2 v = [ucast v, ucast (drop_bit 8 v)]"
  by (simp add: eval_nat_numeral)

lemma word16_less: "n < 2 ^ 16 \<Longrightarrow> unat (word_of_nat n :: u16) = n"
  by (simp add: unat_of_nat_small)

lemma utf16_runes_units: "scalar c \<Longrightarrow> utf16_runes (utf16_units c @ s) = c # utf16_runes s"
proof (cases "c < 0x10000")
  case True
  assume "scalar c"
  moreover have "unat (word_of_nat c :: u16) = c" using True by (simp add: word16_less)
  ultimately show ?thesis using True by (auto simp: utf16_units_def scalar_def word_less_nat_alt word_le_nat_alt)
next
  case False
  assume "scalar c"
  let ?h = "(c - 0x10000) div 0x400" and ?l = "(c - 0x10000) mod 0x400"
  have h: "?h < 0x400" "?l < 0x400" using \<open>scalar c\<close> by (auto simp: scalar_def)
  then have u: "unat (word_of_nat (0xd800 + ?h) :: u16) = 0xd800 + ?h" "unat (word_of_nat (0xdc00 + ?l) :: u16) = 0xdc00 + ?l"
    by (intro word16_less, simp)+
  have "?h * 0x400 + ?l + 0x10000 = c" using False by simp
  then show ?thesis using False h unfolding utf16_units_def
    by (simp add: word_less_nat_alt word_le_nat_alt u del: of_nat_add)
qed

lemma utf16_runes_wide: "list_all scalar cs \<Longrightarrow> utf16_runes (wide_units cs) = cs"
  by (induction cs) (simp_all add: utf16_runes_units)

lemma words16_put: "words16 (concat (map (put_le 2) us)) = us"
proof (induction us)
  case (Cons u us)
  note p = put_le_2 [of u]
  have "unat (le_word (put_le 2 u) :: u16) = unat u" by (rule le_word_put_le) (use unsigned_less [of u] in simp_all)
  then have "le_word (put_le 2 u) = u" by (simp only: word_unat_eq_iff)
  then show ?case using Cons by (simp add: p)
qed simp

lemma text16_wide: "list_all scalar cs \<Longrightarrow> text16 (wide_bytes cs) = concat (map utf8_rune cs)"
  by (simp add: text16_def words16_put utf16_runes_wide)

lemma length_wide_bytes: "length (concat (map (put_le 2) (us :: u16 list))) = length us * 2"
  by (induction us) simp_all

text \<open>Instructions as a compiler writes them, and what the reader makes of them.\<close>

datatype asm_operand = Var u32 | TextConst u32 bytes | WideConst u32 "nat list" | NumConst u32 bytes | Member byte bytes

fun asm_operand_ok :: "psType list \<Rightarrow> asm_operand \<Rightarrow> bool" where
  "asm_operand_ok types (Var a) \<longleftrightarrow> True"
| "asm_operand_ok types (TextConst i b) \<longleftrightarrow> unat i < length types \<and> ty_base (types ! unat i) \<in> {10, 14} \<and> length b < 2 ^ 32"
| "asm_operand_ok types (WideConst i cs) \<longleftrightarrow>
     unat i < length types \<and> ty_base (types ! unat i) \<in> {19, 28} \<and> list_all scalar cs \<and> length (wide_units cs) \<le> 2 ^ 20"
| "asm_operand_ok types (NumConst i b) \<longleftrightarrow> unat i < length types \<and> constant_size (types ! unat i) = Some (length b)"
| "asm_operand_ok types (Member t b) \<longleftrightarrow> t \<in> {2, 3} \<and> length b = 8"

fun asm_operand_bytes :: "asm_operand \<Rightarrow> bytes" where
  "asm_operand_bytes (Var a) = 0 # put_le 4 a"
| "asm_operand_bytes (TextConst i b) = 1 # put_le 4 i @ put_le 4 (word_of_nat (length b) :: u32) @ b"
| "asm_operand_bytes (WideConst i cs) = 1 # put_le 4 i @ put_le 4 (word_of_nat (length (wide_units cs)) :: u32) @ wide_bytes cs"
| "asm_operand_bytes (NumConst i b) = 1 # put_le 4 i @ b"
| "asm_operand_bytes (Member t b) = t # b"

definition number_of :: "psType \<Rightarrow> bytes \<Rightarrow> psValue" where
  "number_of t b = (if ty_base t \<in> {7, 8, 9, 23, 24} then NoValue else Number (constant_number (ty_base t) (length b) b))"

fun asm_operand_meaning :: "psType list \<Rightarrow> asm_operand \<Rightarrow> psOperand" where
  "asm_operand_meaning types (Var a) = \<lparr>o_tag = 0, o_address = a, o_value = NoValue\<rparr>"
| "asm_operand_meaning types (TextConst i b) = \<lparr>o_tag = 1, o_address = 0, o_value = Text b\<rparr>"
| "asm_operand_meaning types (WideConst i cs) = \<lparr>o_tag = 1, o_address = 0, o_value = Text (concat (map utf8_rune cs))\<rparr>"
| "asm_operand_meaning types (NumConst i b) = \<lparr>o_tag = 1, o_address = 0, o_value = number_of (types ! unat i) b\<rparr>"
| "asm_operand_meaning types (Member t b) = \<lparr>o_tag = t, o_address = 0, o_value = NoValue\<rparr>"

record asm =
  as_op :: byte
  as_sub :: byte
  as_arg :: u32
  as_operands :: "asm_operand list"
  as_pad :: bytes

definition has_sub :: "byte \<Rightarrow> bool" where
  "has_sub op \<longleftrightarrow> op \<in> {1, 12}"

definition has_arg :: "byte \<Rightarrow> bool" where
  "has_arg op \<longleftrightarrow> op \<in> {5, 6, 7, 8, 11, 18, 25, 26}"

definition pad_of :: "byte \<Rightarrow> nat" where
  "pad_of op = (if op = 10 then 8 else if op = 19 then 16 else if op = 20 then 1 else 0)"

definition known_op :: "byte \<Rightarrow> bool" where
  "known_op op \<longleftrightarrow> op \<le> 26 \<or> op = 255"

definition asm_ok :: "psType list \<Rightarrow> asm \<Rightarrow> bool" where
  "asm_ok types x \<longleftrightarrow> known_op (as_op x) \<and> (has_sub (as_op x) \<or> as_op x = 17 \<or> as_sub x = 0) \<and> (has_arg (as_op x) \<or> as_arg x = 0)
     \<and> length (as_operands x) = arity (as_op x) \<and> list_all (asm_operand_ok types) (as_operands x) \<and> length (as_pad x) = pad_of (as_op x)"

definition asm_bytes :: "asm \<Rightarrow> bytes" where
  "asm_bytes x = as_op x # (if has_sub (as_op x) then [as_sub x] else []) @ (if has_arg (as_op x) then put_le 4 (as_arg x) else [])
     @ as_pad x @ concat (map asm_operand_bytes (as_operands x)) @ (if as_op x = 17 then [as_sub x] else [])"

definition asm_meaning :: "psType list \<Rightarrow> nat \<Rightarrow> asm \<Rightarrow> psInstruction" where
  "asm_meaning types at x = \<lparr>i_offset = at, i_end = at + length (asm_bytes x), i_op = as_op x, i_sub = as_sub x, i_arg = as_arg x,
     i_operands = map (asm_operand_meaning types) (as_operands x)\<rparr>"

fun assembled :: "psType list \<Rightarrow> nat \<Rightarrow> asm list \<Rightarrow> psInstruction list" where
  "assembled types at [] = []"
| "assembled types at (x # xs) = asm_meaning types at x # assembled types (at + length (asm_bytes x)) xs"

text \<open>A cursor stands before some bytes.\<close>

definition before :: "psCursor \<Rightarrow> bytes \<Rightarrow> bool" where
  "before r b \<longleftrightarrow> cu_err r = None \<and> cu_pos r \<le> length (cu_data r) \<and> drop (cu_pos r) (cu_data r) = b"

definition adv :: "nat \<Rightarrow> psCursor \<Rightarrow> psCursor" where
  "adv n r = r\<lparr>cu_pos := cu_pos r + n\<rparr>"

lemma adv_simps [simp]: "adv m (adv n r) = adv (n + m) r" "adv 0 r = r" "cu_pos (adv n r) = cu_pos r + n" "cu_data (adv n r) = cu_data r"
  by (simp_all add: adv_def)

lemma take_before: "before r (xs @ ys) \<Longrightarrow> length xs = n \<Longrightarrow> ps_take n r = (xs, adv n r) \<and> before (adv n r) ys"
proof -
  assume b: "before r (xs @ ys)" "length xs = n"
  then have d: "drop (cu_pos r) (cu_data r) = xs @ ys" "cu_err r = None" "cu_pos r \<le> length (cu_data r)" by (simp_all add: before_def)
  then have "length (cu_data r) - cu_pos r = n + length ys" using b(2) by (metis length_append length_drop)
  moreover have "drop (cu_pos r + n) (cu_data r) = drop n (drop (cu_pos r) (cu_data r))" by (simp add: add.commute)
  ultimately show ?thesis using d b(2) by (auto simp: ps_take_def before_def adv_def)
qed

lemma byte_before: "before r (b # ys) \<Longrightarrow> ps_byte r = (b, adv 1 r) \<and> before (adv 1 r) ys"
  using take_before [of r "[b]" ys 1] by (simp add: ps_byte_def)

lemma u32_before: "before r (put_le 4 v @ ys) \<Longrightarrow> ps_u32 r = (v, adv 4 r) \<and> before (adv 4 r) ys"
  using take_before [of r "put_le 4 v" ys 4] by (simp add: ps_u32_def) (metis length_put_le list.size(3) zero_neq_numeral)

lemma text_before: "before r (put_le 4 (word_of_nat (length b) :: u32) @ b @ ys) \<Longrightarrow> length b < 2 ^ 32 \<Longrightarrow>
    ps_text r = (b, adv (4 + length b) r) \<and> before (adv (4 + length b) r) ys"
  using u32_before [of r "word_of_nat (length b)" "b @ ys"] take_before [of "adv 4 r" b ys "length b"] unat_of_nat_small [of "length b", where 'w = 32]
  by (simp add: ps_text_def)

lemma operand_before:
  assumes "before r (asm_operand_bytes x @ ys)" "asm_operand_ok types x"
  shows "ps_operand types r = (asm_operand_meaning types x, adv (length (asm_operand_bytes x)) r) \<and> before (adv (length (asm_operand_bytes x)) r) ys"
proof (cases x)
  case (Var a)
  then have b: "ps_byte r = (0, adv 1 r)" "before (adv 1 r) (put_le 4 a @ ys)" using assms byte_before [of r 0 "put_le 4 a @ ys"] by simp_all
  show ?thesis using u32_before [OF b(2)] by (simp add: ps_operand_def b(1) Var)
next
  case (TextConst i b)
  let ?text = "put_le 4 (word_of_nat (length b) :: u32) @ b @ ys"
  have 1: "ps_byte r = (1, adv 1 r)" "before (adv 1 r) (put_le 4 i @ ?text)"
    using assms(1) byte_before [of r 1 "put_le 4 i @ ?text"] by (simp_all add: TextConst)
  have 2: "ps_u32 (adv 1 r) = (i, adv 5 r)" "before (adv 5 r) ?text" using u32_before [OF 1(2)] by simp_all
  have 3: "ps_text (adv 5 r) = (b, adv (9 + length b) r)" "before (adv (9 + length b) r) ys"
    using text_before [OF 2(2)] assms(2) by (simp_all add: TextConst)
  show ?thesis using assms(2) 3 by (auto simp: ps_operand_def 1(1) 2(1) ps_value_def Let_def TextConst simp del: One_nat_def)
next
  case (WideConst i cs)
  let ?n = "length (wide_units cs)"
  let ?text = "put_le 4 (word_of_nat ?n :: u32) @ wide_bytes cs @ ys"
  have ok: "unat i < length types" "ty_base (types ! unat i) \<in> {19, 28}" "list_all scalar cs" "?n \<le> 2 ^ 20"
    using assms(2) by (simp_all add: WideConst)
  then have u: "unat (word_of_nat ?n :: u32) = ?n" by (simp add: unat_of_nat_small)
  have 1: "ps_byte r = (1, adv 1 r)" "before (adv 1 r) (put_le 4 i @ ?text)"
    using assms(1) byte_before [of r 1 "put_le 4 i @ ?text"] by (simp_all add: WideConst)
  have 2: "ps_u32 (adv 1 r) = (i, adv 5 r)" "before (adv 5 r) ?text" using u32_before [OF 1(2)] by simp_all
  have 3: "ps_u32 (adv 5 r) = (word_of_nat ?n, adv 9 r)" "before (adv 9 r) (wide_bytes cs @ ys)" using u32_before [OF 2(2)] by simp_all
  have 4: "ps_take (?n * 2) (adv 9 r) = (wide_bytes cs, adv (9 + ?n * 2) r)" "before (adv (9 + ?n * 2) r) ys"
    using take_before [OF 3(2) length_wide_bytes] by simp_all
  have "ps_value types i (adv 5 r) = (Text (concat (map utf8_rune cs)), adv (9 + ?n * 2) r)"
    using ok unfolding ps_value_def Let_def 3(1) prod.case u 4(1) text16_wide [OF ok(3)] by auto
  moreover have "length (asm_operand_bytes x) = 9 + ?n * 2" unfolding WideConst by (simp add: length_wide_bytes)
  ultimately show ?thesis using 4(2) by (simp add: ps_operand_def 1(1) 2(1) WideConst del: One_nat_def asm_operand_bytes.simps)
next
  case (NumConst i b)
  have t: "unat i < length types" "constant_size (types ! unat i) = Some (length b)" using assms(2) by (simp_all add: NumConst)
  have "constant_size (types ! unat i) = None" if "ty_base (types ! unat i) \<in> {10, 14, 19, 28}" using that by (auto simp: constant_size_def)
  then have no: "ty_base (types ! unat i) \<notin> {10, 14, 19, 28}" using t(2) by auto
  have 1: "ps_byte r = (1, adv 1 r)" "before (adv 1 r) (put_le 4 i @ b @ ys)"
    using assms(1) byte_before [of r 1 "put_le 4 i @ b @ ys"] by (simp_all add: NumConst)
  have 2: "ps_u32 (adv 1 r) = (i, adv 5 r)" "before (adv 5 r) (b @ ys)" using u32_before [OF 1(2)] by simp_all
  have 3: "ps_take (length b) (adv 5 r) = (b, adv (5 + length b) r)" "before (adv (5 + length b) r) ys"
    using take_before [OF 2(2) refl] by simp_all
  show ?thesis using t no 3 by (simp add: ps_operand_def 1(1) 2(1) ps_value_def number_of_def NumConst Let_def del: One_nat_def)
next
  case (Member t b)
  have 1: "ps_byte r = (t, adv 1 r)" "before (adv 1 r) (b @ ys)" using assms(1) byte_before [of r t "b @ ys"] by (simp_all add: Member)
  have 2: "ps_take 8 (adv 1 r) = (b, adv 9 r)" "before (adv 9 r) ys" using take_before [OF 1(2), of 8] assms(2) by (simp_all add: Member)
  show ?thesis using assms(2) 2 by (auto simp: ps_operand_def 1(1) Member simp del: One_nat_def)
qed

lemma operands_before:
  "before r (concat (map asm_operand_bytes xs) @ ys) \<Longrightarrow> list_all (asm_operand_ok types) xs \<Longrightarrow>
    ps_operands types (length xs) r = (map (asm_operand_meaning types) xs, adv (length (concat (map asm_operand_bytes xs))) r)
    \<and> before (adv (length (concat (map asm_operand_bytes xs))) r) ys"
proof (induction xs arbitrary: r)
  case (Cons x xs)
  have x: "before r (asm_operand_bytes x @ concat (map asm_operand_bytes xs) @ ys)" "asm_operand_ok types x" using Cons.prems by simp_all
  note o = operand_before [OF x]
  show ?case using o Cons.IH [OF conjunct2 [OF o]] Cons.prems(2) by simp
qed simp

lemma known_op_cases:
  assumes "known_op op"
  shows "op \<in> {0, 1, 14, 22} \<or> op = 12 \<or> op \<in> {2, 3, 13, 15, 16, 21, 23, 24} \<or> op \<in> {5, 6, 7, 8, 11, 18, 25, 26} \<or> op = 10 \<or> op = 17
    \<or> op = 19 \<or> op = 20 \<or> op \<in> {4, 9, 255}"
proof (cases "op = 255")
  case False
  then have "unat op \<le> 26" using assms by (simp add: known_op_def word_le_nat_alt)
  then have "unat op \<in> set [0 ..< 27]" by simp
  moreover have "op = word_of_nat (unat op)" by simp
  ultimately have "op \<in> word_of_nat ` set [0 ..< 27]" by (rule rev_image_eqI)
  then show ?thesis by (simp add: upt_rec [of _ 27] upt_conv_Cons, blast)
qed simp

lemma ins_body_arg: "has_arg op \<Longrightarrow> ps_u32 r = (a, r') \<Longrightarrow> ins_body types op sub r = Inr (a, sub, [], arity op, r')"
  unfolding has_arg_def by (elim insertE emptyE) (simp_all add: ins_body_def arity_def)

lemma snd_take_0 [simp]: "snd (ps_take 0 r) = r"
  by (simp add: ps_take_def)

lemma ins_body_pad:
  "known_op op \<Longrightarrow> \<not> has_arg op \<Longrightarrow> op \<noteq> 17 \<Longrightarrow> ins_body types op sub r = Inr (0, sub, [], arity op, snd (ps_take (pad_of op) r))"
  by (drule known_op_cases, elim disjE insertE emptyE) (simp_all add: has_arg_def ins_body_def arity_def pad_of_def ps_byte_def split: prod.split)

lemma instruction_before:
  assumes "before r (asm_bytes x @ ys)" "asm_ok types x"
  shows "ps_instruction types r = Inr (asm_meaning types (cu_pos r) x, adv (length (asm_bytes x)) r) \<and> before (adv (length (asm_bytes x)) r) ys"
proof -
  let ?op = "as_op x" and ?os = "concat (map asm_operand_bytes (as_operands x))" and ?ms = "map (asm_operand_meaning types) (as_operands x)"
  let ?k = "if has_sub (as_op x) then 2 else 1 :: nat"
  have ok: "length (as_operands x) = arity ?op" "list_all (asm_operand_ok types) (as_operands x)" "length (as_pad x) = pad_of ?op"
    "known_op ?op" "has_sub ?op \<or> ?op = 17 \<or> as_sub x = 0" "has_arg ?op \<or> as_arg x = 0" using assms(2) by (simp_all add: asm_ok_def)
  let ?tail = "?os @ (if ?op = 17 then [as_sub x] else []) @ ys"
  let ?rest = "(if has_arg ?op then put_le 4 (as_arg x) else []) @ as_pad x @ ?tail"
  have 1: "ps_byte r = (?op, adv 1 r)" "before (adv 1 r) ((if has_sub ?op then [as_sub x] else []) @ ?rest)"
    using assms(1) byte_before [of r ?op] by (simp_all add: asm_bytes_def)
  have 2: "(if ?op \<in> {1, 12} then ps_byte (adv 1 r) else (0, adv 1 r)) = (if has_sub ?op then as_sub x else 0, adv ?k r)" "before (adv ?k r) ?rest"
  proof -
    have e: "?op \<in> {1, 12} \<longleftrightarrow> has_sub ?op" by (simp add: has_sub_def)
    show "(if ?op \<in> {1, 12} then ps_byte (adv 1 r) else (0, adv 1 r)) = (if has_sub ?op then as_sub x else 0, adv ?k r)" "before (adv ?k r) ?rest"
      using 1(2) byte_before [of "adv 1 r" "as_sub x" ?rest, unfolded adv_simps one_add_one] unfolding e by (cases "has_sub ?op"; simp del: One_nat_def)+
  qed
  have len: "length (asm_bytes x) = ?k + (if has_arg ?op then 4 else 0) + pad_of ?op + length ?os + (if ?op = 17 then 1 else 0)"
    by (simp add: asm_bytes_def ok(3))
  have fin: "ps_instruction types r = Inr (asm_meaning types (cu_pos r) x, adv (length (asm_bytes x)) r)"
    if "ins_body types ?op (if has_sub ?op then as_sub x else 0) (adv ?k r) = Inr (as_arg x, as_sub x, os, n, r3)"
      "ps_operands types n r3 = (more, adv (length (asm_bytes x)) r)" "os @ more = ?ms" for os n r3 more
    using that unfolding ps_instruction_def Let_def 1(1) prod.case 2(1) by (simp add: asm_meaning_def)
  show ?thesis
  proof (cases "?op = 17")
    case True
    then have f: "\<not> has_sub ?op" "\<not> has_arg ?op" "pad_of ?op = 0" "as_pad x = []" "as_arg x = 0" using ok(3,6) by (auto simp: has_sub_def has_arg_def pad_of_def)
    obtain y where y: "as_operands x = [y]" using ok(1) True by (auto simp: arity_def length_Suc_conv)
    let ?n = "length (asm_operand_bytes y)"
    have "before (adv 1 r) (asm_operand_bytes y @ as_sub x # ys)" using 2(2) f True y by simp
    note o = operand_before [OF this, of types]
    have o1: "ps_operand types (adv 1 r) = (asm_operand_meaning types y, adv (1 + ?n) r)" "before (adv (1 + ?n) r) (as_sub x # ys)"
      using o ok(2) y by simp_all
    have b: "ps_byte (adv (1 + ?n) r) = (as_sub x, adv (2 + ?n) r)" "before (adv (2 + ?n) r) ys" using byte_before [OF o1(2)] by simp_all
    have l: "length (asm_bytes x) = 2 + ?n" using len f True y by simp
    have "ins_body types ?op (if has_sub ?op then as_sub x else 0) (adv ?k r) = Inr (as_arg x, as_sub x, [asm_operand_meaning types y], 0, adv (2 + ?n) r)"
      using f True by (simp add: ins_body_def o1(1) b(1) del: One_nat_def)
    from fin [OF this, of "[]"] show ?thesis using b(2) y by (simp add: l)
  next
    case False
    have s: "(if has_sub ?op then as_sub x else 0) = as_sub x" using ok(5) False by auto
    let ?m = "?k + (if has_arg ?op then 4 else 0) + pad_of ?op"
    have b: "ins_body types ?op (as_sub x) (adv ?k r) = Inr (as_arg x, as_sub x, [], arity ?op, adv ?m r) \<and> before (adv ?m r) (?os @ ys)"
    proof (cases "has_arg ?op")
      case True
      then have p: "pad_of ?op = 0" "as_pad x = []" using ok(3) by (auto simp: has_arg_def pad_of_def)
      have u: "ps_u32 (adv ?k r) = (as_arg x, adv (?k + 4) r)" "before (adv (?k + 4) r) (?os @ ys)"
        using u32_before [of "adv ?k r" "as_arg x" "?os @ ys"] 2(2) True p False by simp_all
      show ?thesis using ins_body_arg [OF True u(1)] u(2) True p by simp
    next
      case n: False
      then have a: "as_arg x = 0" using ok(6) by simp
      have t: "ps_take (pad_of ?op) (adv ?k r) = (as_pad x, adv (?k + pad_of ?op) r)" "before (adv (?k + pad_of ?op) r) (?os @ ys)"
        using take_before [of "adv ?k r" "as_pad x" "?os @ ys" "pad_of ?op"] 2(2) n False ok(3) by simp_all
      show ?thesis using ins_body_pad [OF ok(4) n False] t n a by simp
    qed
    have o: "ps_operands types (arity ?op) (adv ?m r) = (?ms, adv (length (asm_bytes x)) r)" "before (adv (length (asm_bytes x)) r) ys"
      using operands_before [OF conjunct2 [OF b] ok(2)] ok(1) len False by simp_all
    show ?thesis using fin [of "[]" "arity ?op" "adv ?m r" ?ms] b o unfolding s by simp
  qed
qed

lemma ins_loop_assembled:
  assumes "list_all (asm_ok types) xs" "before r (concat (map asm_bytes xs))"
  shows "ins_loop types r out = Inr (out @ assembled types (cu_pos r) xs)"
  using assms
proof (induction xs arbitrary: r out)
  case Nil
  then have "\<not> cu_pos r < length (cu_data r)" "cu_err r = None" by (auto simp: before_def)
  then show ?case by (subst ins_loop.simps) (simp add: ok_cursor_def)
next
  case (Cons x xs)
  have b: "before r (asm_bytes x @ concat (map asm_bytes xs))" "asm_ok types x" using Cons.prems by simp_all
  note i = instruction_before [OF b]
  have "asm_bytes x \<noteq> []" by (simp add: asm_bytes_def)
  then have "cu_pos r < length (cu_data r)" "cu_err r = None" using b(1) by (auto simp: before_def intro: ccontr)
  then have "ins_loop types r out = ins_loop types (adv (length (asm_bytes x)) r) (out @ [asm_meaning types (cu_pos r) x])"
    using i by (subst ins_loop.simps) simp
  then show ?case using Cons.IH [OF _ conjunct2 [OF i]] Cons.prems(1) by simp
qed

text \<open>
  C20: instructions written as a compiler writes them are read back at the offsets where they stand, with
  any operands: variables, fields, and constants of the types of the program, which are numbers of every
  size, strings, and wide strings of up to 2^20 units, whose characters (of two units too) become UTF-8.
\<close>

theorem ifps_roundtrip:
  assumes "list_all (asm_ok types) xs"
  shows "instructions types (concat (map asm_bytes xs)) = Inr (assembled types 0 xs)"
  unfolding instructions_def using ins_loop_assembled [OF assms, of "\<lparr>cu_data = concat (map asm_bytes xs), cu_pos = 0, cu_err = None\<rparr>" "[]"]
  by (simp add: before_def)

definition asm_op :: "byte \<Rightarrow> u32 \<Rightarrow> asm_operand list \<Rightarrow> asm" where
  "asm_op op arg xs = \<lparr>as_op = op, as_sub = 0, as_arg = arg, as_operands = xs, as_pad = []\<rparr>"

lemma put_le_4: "put_le 4 v = [ucast v, ucast (drop_bit 8 v), ucast (drop_bit 16 v), ucast (drop_bit 24 v)]"
  by (simp add: eval_nat_numeral)

lemmas asm_eval = asm_op_def known_op_def has_sub_def has_arg_def pad_of_def arity_def constant_size_def asm_bytes_def put_le_4

text \<open>A number, a letter and a character of two units, and the end.\<close>

theorem ifps_roundtrip_witness:
  "instructions [\<lparr>ty_base = 1, ty_size = 0\<rparr>, \<lparr>ty_base = 28, ty_size = 0\<rparr>]
      [2, 1, 0, 0, 0, 0, 7, 2, 1, 1, 0, 0, 0, 3, 0, 0, 0, 97, 0, 0x3d, 0xd8, 0, 0xde, 5, 1, 0, 0, 0, 9]
    = Inr (assembled [\<lparr>ty_base = 1, ty_size = 0\<rparr>, \<lparr>ty_base = 28, ty_size = 0\<rparr>] 0
        [asm_op 2 0 [NumConst 0 [7]], asm_op 2 0 [WideConst 1 [97, 0x1f600]], asm_op 5 1 [], asm_op 9 0 []])"
proof -
  let ?types = "[\<lparr>ty_base = 1, ty_size = 0\<rparr>, \<lparr>ty_base = 28, ty_size = 0\<rparr>]"
  let ?xs = "[asm_op 2 0 [NumConst 0 [7]], asm_op 2 0 [WideConst 1 [97, 0x1f600]], asm_op 5 1 [], asm_op 9 0 []]"
  have "list_all (asm_ok ?types) ?xs" by (simp add: asm_ok_def asm_eval scalar_def utf16_units_def)
  from ifps_roundtrip [OF this] have "instructions ?types (concat (map asm_bytes ?xs)) = Inr (assembled ?types 0 ?xs)" .
  moreover have "concat (map asm_bytes ?xs) =
      [2, 1, 0, 0, 0, 0, 7, 2, 1, 1, 0, 0, 0, 3, 0, 0, 0, 97, 0, 0x3d, 0xd8, 0, 0xde, 5, 1, 0, 0, 0, 9]"
    by (simp add: asm_eval put_le_2 utf16_units_def)
  ultimately show ?thesis by (simp only:)
qed

end
