(* ===== verification/Plan.thy ===== *)
theory Plan
  imports Ifps Operations Gostrings "HOL-Library.AList"
begin

text \<open>
  The operations an installer's script asks for (\<open>setupdata/plan.go\<close>): a constant propagation over the
  instructions of a procedure, the calls it reports, and the operations made of them. What it reports
  holds on every path of a procedure that calls no other procedure of the script, as long as no two
  paths meet with different pointers; two programs show that this is needed.
\<close>

section \<open>States\<close>

record psSlot =
  sl_value :: psValue
  sl_ref :: u32
  sl_indirect :: bool

definition slot :: "psValue \<Rightarrow> psSlot" where
  "slot v = \<lparr>sl_value = v, sl_ref = 0, sl_indirect = False\<rparr>"

definition no_slot :: psSlot where
  "no_slot = slot NoValue"

text \<open>A variable that the map of globals does not have reads as no value.\<close>

record psState =
  st_stack :: "psSlot list"
  st_globals :: "(u32 \<times> psValue) list"
  st_params :: "psValue list"
  st_flag :: psValue

definition global :: "(u32 \<times> psValue) list \<Rightarrow> u32 \<Rightarrow> psValue" where
  "global g a = (case map_of g a of None \<Rightarrow> NoValue | Some v \<Rightarrow> v)"

text \<open>Addresses of variables, parameters and slots of the stack; a slot may refer to another address, 64 times at most.\<close>

primrec ps_get :: "nat \<Rightarrow> psState \<Rightarrow> u32 \<Rightarrow> psValue" where
  "ps_get 0 s a = NoValue"
| "ps_get (Suc n) s a =
     (if a < 0x40000000 then global (st_globals s) a
      else if a < 0x60000000 then
        (let i = unat (0x60000000 - a) - 1 in if i < length (st_params s) then st_params s ! i else NoValue)
      else
        (let i = unat (a - 0x60000000) in
         if length (st_stack s) \<le> i then NoValue
         else if sl_indirect (st_stack s ! i) then ps_get n s (sl_ref (st_stack s ! i))
         else sl_value (st_stack s ! i)))"

primrec ps_set :: "nat \<Rightarrow> psState \<Rightarrow> u32 \<Rightarrow> psValue \<Rightarrow> psState" where
  "ps_set 0 s a v = s"
| "ps_set (Suc n) s a v =
     (if a < 0x40000000 then s\<lparr>st_globals := AList.update a v (st_globals s)\<rparr>
      else if a < 0x60000000 then s
      else
        (let i = unat (a - 0x60000000) in
         if length (st_stack s) \<le> i then s
         else if sl_indirect (st_stack s ! i) then ps_set n s (sl_ref (st_stack s ! i)) v
         else s\<lparr>st_stack := (st_stack s)[i := (st_stack s ! i)\<lparr>sl_value := v\<rparr>]\<rparr>))"

definition operand_value :: "psState \<Rightarrow> psOperand \<Rightarrow> psValue" where
  "operand_value s x = (if o_tag x = 1 then o_value x else if o_tag x = 0 then ps_get 64 s (o_address x) else NoValue)"

definition operand_set :: "psState \<Rightarrow> psOperand \<Rightarrow> psValue \<Rightarrow> psState" where
  "operand_set s x v = (if o_tag x = 0 then ps_set 64 s (o_address x) v else s)"

text \<open>What two paths agree on; the rest is not known.\<close>

definition merge_slot :: "psSlot \<Rightarrow> psSlot \<Rightarrow> psSlot" where
  "merge_slot a b = (if a \<noteq> b \<and> a \<noteq> no_slot then no_slot else a)"

definition merge_value :: "psValue \<Rightarrow> psValue \<Rightarrow> psValue" where
  "merge_value a b = (if a \<noteq> b \<and> a \<noteq> NoValue then NoValue else a)"

definition ps_merge :: "psState \<Rightarrow> psState \<Rightarrow> (psState \<times> bool) ps_result" where
  "ps_merge s other =
     (if length (st_stack s) \<noteq> length (st_stack other) then Inl (Error JoinedStacks)
      else
        let m = s\<lparr>st_stack := map2 merge_slot (st_stack s) (st_stack other),
                  st_globals := map (\<lambda>(k, a). (k, merge_value a (global (st_globals other) k))) (st_globals s),
                  st_flag := merge_value (st_flag s) (st_flag other)\<rparr>
        in Inr (m, m \<noteq> s))"

section \<open>Calls\<close>

text \<open>
  \<open>strings.ToUpper\<close> and \<open>strings.EqualFold\<close> for comparisons with ASCII strings that have no \<open>K\<close>: the
  letters, and the characters beyond ASCII with an ASCII letter as their upper case (U+0131 and
  U+017F) or with one that they fold with (U+017F).
\<close>

fun upper_by :: "(byte \<Rightarrow> byte \<Rightarrow> byte option) \<Rightarrow> bytes \<Rightarrow> bytes" where
  "upper_by f (c # d # s) =
     (case f c d of Some u \<Rightarrow> u # upper_by f s
      | None \<Rightarrow> (if 0x61 \<le> c \<and> c \<le> 0x7a then c - 0x20 else c) # upper_by f (d # s))"
| "upper_by f [c] = [if 0x61 \<le> c \<and> c \<le> 0x7a then c - 0x20 else c]"
| "upper_by f [] = []"

definition toUpper :: "bytes \<Rightarrow> bytes" where
  "toUpper = upper_by (\<lambda>c d. if c = 0xc4 \<and> d = 0xb1 then Some 0x49 else if c = 0xc5 \<and> d = 0xbf then Some 0x53 else None)"

definition equalFold :: "bytes \<Rightarrow> string \<Rightarrow> bool" where
  "equalFold s t \<longleftrightarrow> upper_by (\<lambda>c d. if c = 0xc5 \<and> d = 0xbf then Some 0x53 else None) s = str t"

definition psSignature :: "psProc \<Rightarrow> bytes \<times> bool \<times> int" where
  "psSignature f =
     (let typed = (\<lambda>name d. if d = [] then (name, False, 0) else (name, hd d \<noteq> 0, int (length d) - 1)) in
      if \<not> pr_external f then (pr_name f, False, 0)
      else if hasPrefix (pr_decl f) (str ''dll:'') then
        (let parts = split_on 0 (pr_decl f) in
         if length parts < 3 \<or> length (join_on 0 (drop 2 parts)) < 4 then (pr_name f, False, 0)
         else typed (parts ! 1) (drop 3 (join_on 0 (drop 2 parts))))
      else if hasPrefix (pr_decl f) (str ''class:'') then (pr_name f, False, 0)
      else typed (pr_name f) (pr_decl f))"

definition psArguments :: "psState \<Rightarrow> bool \<Rightarrow> int \<Rightarrow> psValue list" where
  "psArguments s result n =
     (let e = int (length (st_stack s)) - 1 - (if result then 1 else 0) in
      if n < 0 \<or> n > e then [] else map (\<lambda>i. ps_get 64 s (0x60000000 + word_of_nat (nat e - i))) [0 ..< nat n])"

definition trim_quotes :: "bytes \<Rightarrow> bytes" where
  "trim_quotes a = rev (dropWhile (\<lambda>c. c = 0x22) (rev (dropWhile (\<lambda>c. c = 0x22) a)))"

definition file_path :: "bytes \<Rightarrow> bytes" where
  "file_path a = rev (dropWhile (\<lambda>c. c \<noteq> 0x2f \<and> c \<noteq> 0x5c) (rev a))"

text \<open>What a call returns, as far as it is known.\<close>

definition builtin :: "bytes \<Rightarrow> psValue list \<Rightarrow> psValue" where
  "builtin name args =
     (case args of Text a # _ \<Rightarrow>
        if toUpper name = str ''EXPANDCONSTANT'' then Text a
        else if toUpper name = str ''ADDQUOTES'' then Text ([0x22] @ a @ [0x22])
        else if toUpper name = str ''REMOVEQUOTES'' then Text (trim_quotes a)
        else if toUpper name = str ''EXTRACTFILEPATH'' then Text (file_path a)
        else NoValue
      | _ \<Rightarrow> NoValue)"

definition call_value :: "bytes \<Rightarrow> psValue list \<Rightarrow> psValue" where
  "call_value name args = (if name = str ''ISExec'' \<or> name = str ''ISArcExtract'' then Number 1 else builtin name args)"

definition call_effect :: "psProc \<Rightarrow> psState \<Rightarrow> psState" where
  "call_effect f s =
     (let (name, result, n) = psSignature f; v = call_value name (psArguments s result n) in
      if result \<and> 1 < length (st_stack s) then ps_set 64 s (0x60000000 + word_of_nat (length (st_stack s) - 1)) v else s)"

section \<open>One instruction\<close>

definition combine :: "byte \<Rightarrow> psValue \<Rightarrow> psValue \<Rightarrow> psValue" where
  "combine sub a b =
     (case (a, b) of
        (Text x, Text y) \<Rightarrow> if sub = 0 \<and> length x + length y \<le> 2 ^ 20 then Text (x @ y) else NoValue
      | (Number x, Number y) \<Rightarrow> if sub = 0 then Number (x + y) else if sub = 1 then Number (x - y) else NoValue
      | _ \<Rightarrow> NoValue)"

definition truth :: "bool \<Rightarrow> psValue" where
  "truth b = Number (if b then 1 else 0)"

definition same_kind :: "psValue \<Rightarrow> psValue \<Rightarrow> bool" where
  "same_kind a b \<longleftrightarrow> (case (a, b) of (Text _, Text _) \<Rightarrow> True | (Number _, Number _) \<Rightarrow> True | _ \<Rightarrow> False)"

definition compare_values :: "byte \<Rightarrow> psValue \<Rightarrow> psValue \<Rightarrow> psValue" where
  "compare_values sub a b =
     (if same_kind a b \<and> (sub = 4 \<or> sub = 5) then truth (if sub = 4 then a \<noteq> b else a = b) else NoValue)"

definition negate :: "psValue \<Rightarrow> psValue" where
  "negate v = (case v of Number n \<Rightarrow> truth (n = 0) | _ \<Rightarrow> v)"

definition drop_slots :: "nat \<Rightarrow> psState \<Rightarrow> psState ps_result" where
  "drop_slots n s =
     (if length (st_stack s) \<le> n then Inl (Error StackUnderflow) else Inr (s\<lparr>st_stack := take (length (st_stack s) - n) (st_stack s)\<rparr>))"

definition push_slot :: "psSlot \<Rightarrow> psState \<Rightarrow> psState" where
  "push_slot sl s = s\<lparr>st_stack := st_stack s @ [sl]\<rparr>"

definition effect :: "psProgram \<Rightarrow> psInstruction \<Rightarrow> psState \<Rightarrow> psState ps_result" where
  "effect p x s =
     (let op = i_op x; at = idx (i_operands x);
          got = (\<lambda>j f. bindE (at j) (\<lambda>y. f (operand_value s y)));
          put = (\<lambda>j v. bindE (at j) (\<lambda>y. Inr (operand_set s y v))) in
      if op = 0 then got 1 (\<lambda>v. put 0 v)
      else if op = 1 then got 0 (\<lambda>a. got 1 (\<lambda>b. put 0 (combine (i_sub x) a b)))
      else if op = 2 then got 0 (\<lambda>v. Inr (push_slot (slot v) s))
      else if op = 3 then bindE (at 0) (\<lambda>y. Inr (push_slot \<lparr>sl_value = NoValue, sl_ref = o_address y, sl_indirect = (o_tag y = 0)\<rparr> s))
      else if op = 11 then Inr (push_slot no_slot s)
      else if op \<in> {4, 25, 26} then drop_slots (if op = 26 then 2 else 1) s
      else if op = 5 then
        (if length (pg_procs p) \<le> unat (i_arg x) then Inl (Error InvalidCall) else Inr (call_effect (pg_procs p ! unat (i_arg x)) s))
      else if op = 12 then got 1 (\<lambda>a. got 2 (\<lambda>b. put 0 (compare_values (i_sub x) a b)))
      else if op = 15 then got 0 (\<lambda>v. put 0 (negate v))
      else if op \<in> {16, 21, 23, 24, 14, 22} then put 0 NoValue
      else if op = 17 then got 0 (\<lambda>v. Inr (s\<lparr>st_flag := if i_sub x \<noteq> 0 then negate v else v\<rparr>))
      else Inr s)"

definition byOffset :: "psInstruction list \<Rightarrow> int \<Rightarrow> nat option" where
  "byOffset ins o1 = map_of (rev (zip (map (\<lambda>x. int (i_offset x)) ins) [0 ..< length ins])) o1"

text \<open>The instructions that may come next; both of a branch whose condition is not known.\<close>

definition branch :: "psValue \<Rightarrow> nat \<Rightarrow> nat \<Rightarrow> nat list" where
  "branch v i target = (case v of Number n \<Rightarrow> if n \<noteq> 0 then [target] else [i + 1] | _ \<Rightarrow> [i + 1, target])"

definition successors :: "psInstruction list \<Rightarrow> nat \<Rightarrow> psInstruction \<Rightarrow> psState \<Rightarrow> nat list ps_result" where
  "successors ins i x s =
     (let op = i_op x in
      if op \<in> {6, 7, 8, 18, 25, 26} then
        (case byOffset ins (int (i_end x) + sint (i_arg x)) of None \<Rightarrow> Inl (Error InvalidTarget)
         | Some target \<Rightarrow>
             if op \<in> {6, 25, 26} then Inr [target]
             else if op = 18 then Inr (branch (st_flag s) i target)
             else bindE (idx (i_operands x) 0) (\<lambda>y.
               let v = operand_value s y in Inr (branch (if op = 8 then negate v else v) i target)))
      else if op = 9 then Inr []
      else Inr [i + 1])"

definition max_stack :: nat where
  "max_stack = 65536"

definition transfer :: "psProgram \<Rightarrow> psInstruction list \<Rightarrow> nat \<Rightarrow> psState \<Rightarrow> (psState \<times> nat list) ps_result" where
  "transfer p ins i s =
     bindE (effect p (ins ! i) s) (\<lambda>s.
       if length (st_stack s) > max_stack then Inl (Error ExcessiveStack)
       else bindE (successors ins i (ins ! i) s) (\<lambda>nxt. Inr (s, nxt)))"

section \<open>A procedure\<close>

fun flow :: "psState \<Rightarrow> nat list \<Rightarrow> psState option list \<Rightarrow> nat list \<Rightarrow> (psState option list \<times> nat list) ps_result" where
  "flow s [] states queue = Inr (states, queue)"
| "flow s (j # nxt) states queue =
     (if length states \<le> j then flow s nxt states queue
      else case states ! j of
        None \<Rightarrow> flow s nxt (states[j := Some s]) (queue @ [j])
      | Some t \<Rightarrow> bindE (ps_merge t s) (\<lambda>(m, changed). flow s nxt (states[j := Some m]) (if changed then queue @ [j] else queue)))"

text \<open>At most 64 steps for each instruction.\<close>

fun analyse :: "nat \<Rightarrow> psProgram \<Rightarrow> psInstruction list \<Rightarrow> psState option list \<Rightarrow> nat list \<Rightarrow> psState option list ps_result" where
  "analyse n p ins states [] = Inr states"
| "analyse 0 p ins states (i # queue) = Inl (Error NotConverged)"
| "analyse (Suc n) p ins states (i # queue) =
     (case states ! i of None \<Rightarrow> Inl Panic
      | Some s \<Rightarrow> bindE (transfer p ins i s) (\<lambda>(s, nxt). bindE (flow s nxt states queue) (\<lambda>(states, queue). analyse n p ins states queue)))"

definition start_state :: "psValue list \<Rightarrow> psState" where
  "start_state params = \<lparr>st_stack = [no_slot], st_globals = [], st_params = params, st_flag = NoValue\<rparr>"

definition procedure_states :: "psProgram \<Rightarrow> psInstruction list \<Rightarrow> psValue list \<Rightarrow> psState option list ps_result" where
  "procedure_states p ins params = analyse (length ins * 64) p ins ((replicate (length ins) None)[0 := Some (start_state params)]) [0]"

definition recorded :: "bytes \<Rightarrow> bool" where
  "recorded name \<longleftrightarrow> name \<in> str ` {''ISExec'', ''ISArcExtract'', ''EXEC'', ''SHELLEXEC'', ''DELETEFILE'', ''DELTREE''}"

type_synonym psCall = "bytes \<times> psValue list"

text \<open>The calls of one instruction; those of a procedure of the script are its own.\<close>

definition calls_at :: "psProgram \<Rightarrow> (nat \<Rightarrow> psValue list \<Rightarrow> psCall list ps_result) \<Rightarrow> psInstruction \<Rightarrow> psState option \<Rightarrow> psCall list ps_result" where
  "calls_at p nested x st =
     (case st of None \<Rightarrow> Inr []
      | Some s \<Rightarrow>
          if i_op x \<noteq> 5 then Inr []
          else bindE (idx (pg_procs p) (unat (i_arg x))) (\<lambda>f.
            if \<not> pr_external f then nested (unat (i_arg x)) (psArguments s False (int (length (st_stack s)) - 1))
            else let (name, result, n) = psSignature f in Inr (if recorded name then [(name, psArguments s result n)] else [])))"

fun collect :: "('a \<Rightarrow> 'b list ps_result) \<Rightarrow> 'a list \<Rightarrow> 'b list ps_result" where
  "collect f [] = Inr []"
| "collect f (x # xs) = bindE (f x) (\<lambda>ys. bindE (collect f xs) (\<lambda>zs. Inr (ys @ zs)))"

text \<open>The depth is counted down from 33.\<close>

primrec calls :: "nat \<Rightarrow> psProgram \<Rightarrow> nat \<Rightarrow> psValue list \<Rightarrow> psCall list ps_result" where
  "calls 0 p index params = Inl (Error RecursiveCall)"
| "calls (Suc d) p index params =
     bindE (idx (pg_procs p) index) (\<lambda>f.
     bindE (instructions (pg_types p) (pr_code f)) (\<lambda>ins.
       if ins = [] then Inr []
       else bindE (procedure_states p ins params) (\<lambda>states. collect (\<lambda>(x, st). calls_at p (calls d p) x st) (zip ins states))))"

section \<open>Operations\<close>

definition no_operation :: operation where
  "no_operation = \<lparr>op_kind = [], op_source = [], op_dest = [], op_filter = [], op_program = [], op_args = [], op_workdir = [], op_optional = False\<rparr>"

definition text_arg :: "psValue list \<Rightarrow> nat \<Rightarrow> bytes ps_result" where
  "text_arg a i = (if i < length a then (case a ! i of Text t \<Rightarrow> Inr t | _ \<Rightarrow> Inl (Error Unresolved)) else Inl (Error Unresolved))"

definition command_op :: "psValue list \<Rightarrow> nat \<Rightarrow> operation list ps_result" where
  "command_op a i =
     bindE (text_arg a i) (\<lambda>prog. bindE (text_arg a (i + 1)) (\<lambda>args. bindE (text_arg a (i + 2)) (\<lambda>dir.
       Inr [no_operation\<lparr>op_kind := str ''command'', op_program := prog, op_args := args, op_workdir := dir\<rparr>])))"

definition extract_op :: "psValue list \<Rightarrow> operation list ps_result" where
  "extract_op a =
     bindE (text_arg a 2) (\<lambda>src. bindE (text_arg a 3) (\<lambda>dest. bindE (text_arg a 4) (\<lambda>filt.
       case a of Number n # _ \<Rightarrow>
         Inr [no_operation\<lparr>op_kind := str ''extract'', op_source := src, op_dest := dest, op_filter := filt, op_optional := (n \<noteq> 0)\<rparr>]
       | _ \<Rightarrow> Inl (Error Unresolved))))"

definition operation_of :: "psCall \<Rightarrow> operation list ps_result" where
  "operation_of = (\<lambda>(name, a).
     if name = str ''ISArcExtract'' then extract_op a
     else if name = str ''ISExec'' then command_op a 3
     else if name = str ''DELETEFILE'' \<or> name = str ''DELTREE'' then
       (case a of Text t # _ \<Rightarrow> Inr [no_operation\<lparr>op_kind := str ''remove'', op_source := t\<rparr>] | _ \<Rightarrow> Inr [])
     else if name = str ''EXEC'' then command_op a 0
     else Inr [])"

definition find_proc :: "psProgram \<Rightarrow> nat option" where
  "find_proc p = List.find (\<lambda>i. equalFold (pr_name (pg_procs p ! i)) ''CURSTEPCHANGED'') [0 ..< length (pg_procs p)]"

definition program_plan :: "psProgram \<Rightarrow> operation list ps_result" where
  "program_plan p = bindE (case find_proc p of None \<Rightarrow> Inr [] | Some i \<Rightarrow> calls 33 p i [Number 2]) (collect operation_of)"

definition reconstructionPlan :: "bytes \<Rightarrow> operation list ps_result" where
  "reconstructionPlan data = bindE (parseIFPS data) program_plan"

section \<open>Reaching a fixed point\<close>

text \<open>A state covers another when it differs from it only by what it does not know.\<close>

definition covers :: "psState \<Rightarrow> psState \<Rightarrow> bool" where
  "covers b s \<longleftrightarrow> length (st_stack b) = length (st_stack s) \<and> (\<forall>i < length (st_stack s). st_stack b ! i = no_slot \<or> st_stack b ! i = st_stack s ! i)
     \<and> (\<forall>a. global (st_globals b) a = NoValue \<or> global (st_globals b) a = global (st_globals s) a)
     \<and> (st_flag b = NoValue \<or> st_flag b = st_flag s) \<and> st_params b = st_params s"

lemma covers_refl [simp]: "covers s s"
  by (simp add: covers_def)

lemma covers_trans: "covers a b \<Longrightarrow> covers b c \<Longrightarrow> covers a c"
  unfolding covers_def by (smt (verit))

lemma map_of_map_keys: "map_of (map (\<lambda>(k, v). (k, f k v)) xs) k = map_option (f k) (map_of xs k)"
  by (induction xs) auto

lemma ps_merge_spec:
  assumes "ps_merge t s = Inr (m, changed)" "st_params t = st_params s"
  shows "covers m s \<and> covers m t \<and> (\<not> changed \<longrightarrow> m = t) \<and> st_params m = st_params s"
proof -
  have l: "length (st_stack t) = length (st_stack s)" using assms(1) by (auto simp: ps_merge_def split: if_splits)
  have m: "m = t\<lparr>st_stack := map2 merge_slot (st_stack t) (st_stack s),
      st_globals := map (\<lambda>(k, a). (k, merge_value a (global (st_globals s) k))) (st_globals t), st_flag := merge_value (st_flag t) (st_flag s)\<rparr>"
    and c: "changed = (m \<noteq> t)" using assms(1) l by (auto simp: ps_merge_def Let_def)
  have g: "global (st_globals m) a = merge_value (global (st_globals t) a) (global (st_globals s) a)" for a
    by (simp add: m global_def map_of_map_keys merge_value_def split: option.split)
  have "covers m s" unfolding covers_def using l assms(2) g by (auto simp: m merge_slot_def merge_value_def)
  moreover have "covers m t" unfolding covers_def using l assms(2) g by (auto simp: m merge_slot_def merge_value_def)
  ultimately show ?thesis using c assms(2) by (simp add: m)
qed

lemma ps_set_params [simp]: "st_params (ps_set n s a v) = st_params s"
  by (induction n arbitrary: a) (simp_all add: Let_def)

lemma operand_set_params [simp]: "st_params (operand_set s x v) = st_params s"
  by (simp add: operand_set_def)

lemma if_eqE: "(if b then m else m') = r \<Longrightarrow> (b \<Longrightarrow> m = r \<Longrightarrow> P) \<Longrightarrow> (\<not> b \<Longrightarrow> m' = r \<Longrightarrow> P) \<Longrightarrow> P"
  by (cases b) simp_all

lemma simple_params [simp]: "st_params (call_effect f s) = st_params s" "st_params (push_slot sl s) = st_params s"
  "drop_slots n s = Inr s' \<Longrightarrow> st_params s' = st_params s" "st_params (s\<lparr>st_flag := v\<rparr>) = st_params s"
  by (auto simp: call_effect_def push_slot_def drop_slots_def split: prod.splits if_splits)

lemma effect_params: "effect p x s = Inr s' \<Longrightarrow> st_params s' = st_params s"
  unfolding effect_def Let_def by (elim if_eqE) (auto simp only: res_simps sum.inject simple_params operand_set_params)

lemma transfer_iff:
  "transfer p ins i s = Inr (s', nxt) \<longleftrightarrow> effect p (ins ! i) s = Inr s' \<and> length (st_stack s') \<le> max_stack \<and> successors ins i (ins ! i) s' = Inr nxt"
proof (cases "effect p (ins ! i) s")
  case (Inr t)
  then show ?thesis by (cases "successors ins i (ins ! i) t") (auto simp: transfer_def)
qed (simp add: transfer_def)

lemma transfer_params: "transfer p ins i s = Inr (s', nxt) \<Longrightarrow> st_params s' = st_params s"
  using effect_params unfolding transfer_iff by blast

definition all_params :: "psValue list \<Rightarrow> psState option list \<Rightarrow> bool" where
  "all_params ps st \<longleftrightarrow> (\<forall>b. Some b \<in> set st \<longrightarrow> st_params b = ps)"

definition grows :: "psState option list \<Rightarrow> psState option list \<Rightarrow> bool" where
  "grows st st' \<longleftrightarrow> length st' = length st \<and> (\<forall>j < length st. \<forall>b. st ! j = Some b \<longrightarrow> (\<exists>b'. st' ! j = Some b' \<and> covers b' b))"

lemma grows_refl [simp]: "grows st st"
  by (simp add: grows_def)

lemma grows_trans: "grows a b \<Longrightarrow> grows b c \<Longrightarrow> grows a c"
  unfolding grows_def by (fastforce intro: covers_trans)

definition has_covered :: "psState option list \<Rightarrow> nat list \<Rightarrow> psState \<Rightarrow> bool" where
  "has_covered st nxt s \<longleftrightarrow> (\<forall>j \<in> set nxt. j < length st \<longrightarrow> (\<exists>b. st ! j = Some b \<and> covers b s))"

lemma has_covered_grows: "has_covered st nxt s \<Longrightarrow> grows st st' \<Longrightarrow> has_covered st' nxt s"
  unfolding has_covered_def grows_def by (fastforce intro: covers_trans)

text \<open>What is in the queue has a state.\<close>

definition queued :: "psState option list \<Rightarrow> nat list \<Rightarrow> bool" where
  "queued st q \<longleftrightarrow> (\<forall>i \<in> set q. i < length st \<and> st ! i \<noteq> None)"

lemma queued_grows: "queued st q \<Longrightarrow> grows st st' \<Longrightarrow> queued st' q"
  unfolding queued_def grows_def by fastforce

lemma grows_update: "j < length st \<Longrightarrow> st ! j = None \<or> (\<exists>t. st ! j = Some t \<and> covers m t) \<Longrightarrow> grows st (st[j := Some m])"
  unfolding grows_def by (metis covers_refl length_list_update nth_list_update option.distinct(1) option.inject)

lemma all_params_update: "all_params ps st \<Longrightarrow> st_params m = ps \<Longrightarrow> all_params ps (st[j := Some m])"
  unfolding all_params_def using set_update_subset_insert by fastforce

lemma flow_spec:
  assumes "flow s nxt st q = Inr (st', q')" "all_params ps st" "st_params s = ps" "queued st q"
  shows "grows st st' \<and> set q \<subseteq> set q' \<and> (\<forall>j < length st. st' ! j \<noteq> st ! j \<longrightarrow> j \<in> set q') \<and> has_covered st' nxt s \<and> all_params ps st' \<and> queued st' q'"
  using assms
proof (induction s nxt st q rule: flow.induct)
  case (1 s st q)
  then show ?case by (simp add: has_covered_def)
next
  case (2 s j nxt st q)
  show ?case
  proof (cases "length st \<le> j")
    case True
    then have "flow s nxt st q = Inr (st', q')" using "2.prems"(1) by simp
    note ih = "2.IH"(1) [OF True this "2.prems"(2-4)]
    then show ?thesis using True by (auto simp: has_covered_def grows_def)
  next
    case False
    then have j: "j < length st" by simp
    obtain m q1 where m: "flow s nxt (st[j := Some m]) q1 = Inr (st', q')" "covers m s" "st_params m = ps" "set q \<subseteq> set q1" "set q1 \<subseteq> insert j (set q)"
      "st ! j = None \<or> (\<exists>t. st ! j = Some t \<and> covers m t)" "j \<in> set q1 \<or> st ! j = Some m"
      "all_params ps (st[j := Some m]) \<Longrightarrow> queued (st[j := Some m]) q1 \<Longrightarrow>
        grows (st[j := Some m]) st' \<and> set q1 \<subseteq> set q' \<and> (\<forall>k < length (st[j := Some m]). st' ! k \<noteq> st[j := Some m] ! k \<longrightarrow> k \<in> set q')
        \<and> has_covered st' nxt s \<and> all_params ps st' \<and> queued st' q'"
    proof (cases "st ! j")
      case None
      have f: "flow s nxt (st[j := Some s]) (q @ [j]) = Inr (st', q')" using "2.prems"(1) None False by simp
      show ?thesis
        using "2.IH"(2) [OF False None f _ "2.prems"(3)] None f "2.prems"(3) by (intro that [of s "q @ [j]"]) auto
    next
      case (Some t)
      obtain m ch where mm: "ps_merge t s = Inr (m, ch)" and f: "flow s nxt (st[j := Some m]) (if ch then q @ [j] else q) = Inr (st', q')"
        using "2.prems"(1) Some False by (auto simp: res_simps)
      have "Some t \<in> set st" using Some j by (metis nth_mem)
      then have "st_params t = st_params s" using "2.prems"(2,3) by (simp add: all_params_def)
      note ms = ps_merge_spec [OF mm this]
      show ?thesis
        using "2.IH"(3) [OF False Some mm refl f _ "2.prems"(3)] Some f ms "2.prems"(3)
        by (intro that [of m "if ch then q @ [j] else q"]) (auto split: if_splits)
    qed
    have g: "grows st (st[j := Some m])" by (rule grows_update [OF j m(6)])
    have ap: "all_params ps (st[j := Some m])" by (rule all_params_update [OF "2.prems"(2) m(3)])
    have "queued (st[j := Some m]) q1" using queued_grows [OF "2.prems"(4) g] m(5) j by (auto simp: queued_def)
    note ih = m(8) [OF ap this]
    have "\<exists>b. st' ! j = Some b \<and> covers b s" using ih j m(2) unfolding grows_def by (metis covers_trans length_list_update nth_list_update_eq)
    then have "has_covered st' (j # nxt) s" using ih by (auto simp: has_covered_def)
    moreover have "k \<in> set q'" if "k < length st" "st' ! k \<noteq> st ! k" for k
    proof (cases "k = j")
      case True
      then show ?thesis using ih m(7) that j by (metis length_list_update nth_list_update_eq subsetD)
    qed (use ih that in simp)
    ultimately show ?thesis using ih g m(4) grows_trans by blast
  qed
qed

text \<open>Every instruction that has a state and does not wait has passed it on.\<close>

definition settled :: "psProgram \<Rightarrow> psInstruction list \<Rightarrow> psState option list \<Rightarrow> nat list \<Rightarrow> bool" where
  "settled p ins st q \<longleftrightarrow>
     (\<forall>i < length st. \<forall>s. st ! i = Some s \<and> i \<notin> set q \<longrightarrow> (\<exists>s' nxt. transfer p ins i s = Inr (s', nxt) \<and> has_covered st nxt s'))"

lemma analyse_step:
  assumes "settled p ins st (i # q)" "all_params ps st" "queued st (i # q)" "st ! i = Some s" "transfer p ins i s = Inr (s', nxt)" "flow s' nxt st q = Inr (st', q')"
  shows "settled p ins st' q' \<and> all_params ps st' \<and> queued st' q' \<and> grows st st'"
proof -
  have i: "i < length st" "queued st q" using assms(3) by (auto simp: queued_def)
  then have "Some s \<in> set st" using assms(4) by (metis nth_mem)
  then have "st_params s' = ps" using transfer_params [OF assms(5)] assms(2) by (simp add: all_params_def)
  note f = flow_spec [OF assms(6,2) this i(2)]
  have len: "length st' = length st" using f by (simp add: grows_def)
  have "settled p ins st' q'" unfolding settled_def
  proof (intro allI impI)
    fix k b assume k: "k < length st'" and b: "st' ! k = Some b \<and> k \<notin> set q'"
    then have same: "st ! k = Some b" using f len by metis
    show "\<exists>s' nxt. transfer p ins k b = Inr (s', nxt) \<and> has_covered st' nxt s'"
    proof (cases "k = i")
      case True
      then show ?thesis using same assms(4,5) f by auto
    next
      case False
      then have "k \<notin> set (i # q)" using b f by auto
      then obtain b' nx where "transfer p ins k b = Inr (b', nx)" "has_covered st nx b'" using assms(1) same k len unfolding settled_def by metis
      then show ?thesis using has_covered_grows f by blast
    qed
  qed
  then show ?thesis using f by blast
qed

lemma analyse_settled:
  assumes "analyse n p ins st q = Inr st'" "settled p ins st q" "all_params ps st" "queued st q"
  shows "settled p ins st' [] \<and> all_params ps st' \<and> grows st st'"
  using assms
proof (induction n p ins st q rule: analyse.induct)
  case (3 n p ins st i q)
  obtain s s1 nxt st1 q1 where s: "st ! i = Some s" "transfer p ins i s = Inr (s1, nxt)" "flow s1 nxt st q = Inr (st1, q1)" "analyse n p ins st1 q1 = Inr st'"
    using "3.prems"(1) by (auto simp: res_simps split: option.splits)
  note a = analyse_step [OF "3.prems"(2-4) s(1-3)]
  then show ?case using "3.IH" [OF s(1,2) refl s(3) refl s(4)] grows_trans by blast
qed auto

lemma start_settled:
  assumes "ins \<noteq> []"
  shows "settled p ins ((replicate (length ins) None)[0 := Some (start_state params)]) [0]"
    "queued ((replicate (length ins) None)[0 := Some (start_state params)]) [0]"
    "all_params params ((replicate (length ins) None)[0 := Some (start_state params)])"
  using assms set_update_subset_insert [of "replicate (length ins) None" 0 "Some (start_state params)"]
  by (auto simp: settled_def queued_def all_params_def start_state_def nth_list_update)

lemma procedure_states_settled:
  assumes "procedure_states p ins params = Inr st" "ins \<noteq> []"
  shows "settled p ins st [] \<and> length st = length ins \<and> (\<exists>b. st ! 0 = Some b \<and> covers b (start_state params))"
  using analyse_settled [OF assms(1) [unfolded procedure_states_def] start_settled(1) [OF assms(2)] start_settled(3) [OF assms(2)] start_settled(2) [OF assms(2)]]
    assms(2) unfolding grows_def by force

section \<open>No panic\<close>

lemma no_panic_bind: "m \<noteq> Inl Panic \<Longrightarrow> (\<And>x. m = Inr x \<Longrightarrow> f x \<noteq> Inl Panic) \<Longrightarrow> bindE m f \<noteq> Inl Panic"
  by (cases m) auto

lemma ok_cursor_no_panic [simp]: "ok_cursor r \<noteq> Inl Panic"
  by (simp add: ok_cursor_def split: option.split)

lemma ps_instruction_no_panic: "ps_instruction types r \<noteq> Inl Panic"
proof -
  have "ins_body types op sub r \<noteq> Inl Panic" for op sub r
  proof
    assume "ins_body types op sub r = Inl Panic"
    then show False unfolding ins_body_def by (elim if_eqE) (simp_all add: Let_def split: prod.splits)
  qed
  then show ?thesis unfolding ps_instruction_def Let_def by (auto simp: bindE_eq_Inl split: prod.splits)
qed

lemma instructions_no_panic: "instructions types code \<noteq> Inl Panic"
proof -
  have "ins_loop types r out \<noteq> Inl Panic" for r out
  proof (induction types r out rule: ins_loop.induct)
    case (1 types r out)
    then show ?case using ps_instruction_no_panic [of types r] by (subst ins_loop.simps) (auto simp: bindE_eq_Inl split: sum.splits if_splits)
  qed
  then show ?thesis by (simp add: instructions_def)
qed

lemma parseIFPS_no_panic: "parseIFPS data \<noteq> Inl Panic"
proof -
  have tb: "type_body v b r \<noteq> Inl Panic" for v b r
  proof
    assume "type_body v b r = Inl Panic"
    then show False unfolding type_body_def by (elim if_eqE) (auto simp: Let_def split: prod.splits if_splits)
  qed
  have t: "types_loop v n ts r \<noteq> Inl Panic" for v n ts r
    by (induction n arbitrary: ts r) (auto simp: Let_def tb bindE_eq_Inl split: prod.splits)
  have pb: "proc_body r f \<noteq> Inl Panic" for r f by (simp add: proc_body_def Let_def split: prod.split)
  have p: "procs_loop ts n ps r \<noteq> Inl Panic" for ts n ps r
    by (induction n arbitrary: ps r) (auto simp: pb bindE_eq_Inl split: prod.splits)
  have g: "globals_loop nt n r \<noteq> Inl Panic" for nt n r
    by (induction n arbitrary: r) (simp_all split: prod.split)
  show ?thesis unfolding parseIFPS_def Let_def by (auto simp: t p g bindE_eq_Inl split: prod.splits if_splits)
qed

lemma effect_no_panic:
  assumes "length (i_operands x) = arity (i_op x)"
  shows "effect p x s \<noteq> Inl Panic"
proof
  assume "effect p x s = Inl Panic"
  then show False unfolding effect_def Let_def
    by (elim if_eqE) (auto simp: res_simps assms arity_def drop_slots_def split: if_splits)
qed

lemma successors_no_panic:
  assumes "length (i_operands x) = arity (i_op x)"
  shows "successors ins i x s \<noteq> Inl Panic"
proof
  assume "successors ins i x s = Inl Panic"
  then show False unfolding successors_def Let_def
    by (elim if_eqE) (auto simp: res_simps assms arity_def split: if_splits option.splits)
qed

lemma transfer_no_panic: "length (i_operands (ins ! i)) = arity (i_op (ins ! i)) \<Longrightarrow> transfer p ins i s \<noteq> Inl Panic"
  unfolding transfer_def by (intro no_panic_bind) (auto simp: effect_no_panic successors_no_panic bindE_eq_Inl split: if_splits)

lemma flow_no_panic: "flow s nxt st q \<noteq> Inl Panic"
  by (induction s nxt st q rule: flow.induct) (auto simp: ps_merge_def Let_def bindE_eq_Inl split: option.splits if_splits)

definition well_formed :: "psInstruction list \<Rightarrow> bool" where
  "well_formed ins \<longleftrightarrow> (\<forall>x \<in> set ins. length (i_operands x) = arity (i_op x))"

lemma tiles_well_formed: "tiles a ins b \<Longrightarrow> well_formed ins"
  by (induction ins arbitrary: a) (auto simp: well_formed_def)

lemma analyse_no_panic:
  assumes "well_formed ins" "length st = length ins" "settled p ins st q" "all_params ps st" "queued st q"
  shows "analyse n p ins st q \<noteq> Inl Panic"
  using assms
proof (induction n p ins st q rule: analyse.induct)
  case (3 n p ins st i q)
  obtain s where i: "i < length ins" "st ! i = Some s" using "3.prems"(2,5) by (auto simp: queued_def)
  then have "length (i_operands (ins ! i)) = arity (i_op (ins ! i))" using "3.prems"(1) by (simp add: well_formed_def)
  note t = transfer_no_panic [OF this, of p s]
  show ?case
  proof (cases "transfer p ins i s")
    case (Inr y)
    obtain s' nxt where y: "y = (s', nxt)" by force
    note tr = Inr [unfolded y]
    show ?thesis
    proof (cases "flow s' nxt st q")
      case (Inr z)
      obtain st' q' where z: "z = (st', q')" by force
      note f = Inr [unfolded z]
      note a = analyse_step [OF "3.prems"(3-5) i(2) tr f]
      then have "length st' = length ins" using "3.prems"(2) by (simp add: grows_def)
      then have "analyse n p ins st' q' \<noteq> Inl Panic" using "3.IH" [OF i(2) tr refl f refl "3.prems"(1)] a by blast
      then show ?thesis using i(2) tr f by simp
    qed (use i(2) tr flow_no_panic [of s' nxt st q] in auto)
  qed (use i(2) t in auto)
qed auto

lemma procedure_states_no_panic: "well_formed ins \<Longrightarrow> ins \<noteq> [] \<Longrightarrow> procedure_states p ins params \<noteq> Inl Panic"
  unfolding procedure_states_def by (rule analyse_no_panic [where ps = params]) (simp_all add: start_settled)

lemma settled_call:
  assumes "settled p ins st []" "i < length st" "st ! i = Some s" "i_op (ins ! i) = 5"
  shows "unat (i_arg (ins ! i)) < length (pg_procs p)"
proof -
  obtain s' nxt where "transfer p ins i s = Inr (s', nxt)" using assms(1-3) unfolding settled_def by fastforce
  then have "effect p (ins ! i) s = Inr s'" by (simp add: transfer_iff)
  then show ?thesis using assms(4) by (auto simp: effect_def split: if_splits)
qed

lemma collect_no_panic: "(\<And>x. x \<in> set xs \<Longrightarrow> f x \<noteq> Inl Panic) \<Longrightarrow> collect f xs \<noteq> Inl Panic"
  by (induction xs) (auto simp: bindE_eq_Inl)

lemma calls_no_panic: "index < length (pg_procs p) \<Longrightarrow> calls d p index params \<noteq> Inl Panic"
proof (induction d arbitrary: index params)
  case (Suc d)
  let ?code = "pr_code (pg_procs p ! index)"
  have go: "collect (\<lambda>(x, st). calls_at p (calls d p) x st) (zip ins states) \<noteq> Inl Panic"
    if ins: "instructions (pg_types p) ?code = Inr ins" "ins \<noteq> []" and st: "procedure_states p ins params = Inr states" for ins states
  proof (rule collect_no_panic)
    fix xs assume "xs \<in> set (zip ins states)"
    then obtain i where i: "i < length ins" "i < length states" "xs = (ins ! i, states ! i)" by (auto simp: set_zip)
    note sd = procedure_states_settled [OF st ins(2)]
    show "(case xs of (x, st) \<Rightarrow> calls_at p (calls d p) x st) \<noteq> Inl Panic"
    proof (cases "states ! i")
      case (Some s)
      then show ?thesis using Suc.IH settled_call [of p ins states i s] sd i
        by (auto simp: calls_at_def idx_def split: prod.split)
    qed (simp add: i calls_at_def)
  qed
  show ?case unfolding calls.simps
  proof (intro no_panic_bind)
    show "idx (pg_procs p) index \<noteq> Inl Panic" using Suc.prems by (simp add: idx_def)
    fix f assume f: "idx (pg_procs p) index = Inr f"
    then have f': "f = pg_procs p ! index" by (simp add: res_simps)
    show "instructions (pg_types p) (pr_code f) \<noteq> Inl Panic" by (rule instructions_no_panic)
    fix ins assume ins: "instructions (pg_types p) (pr_code f) = Inr ins"
    show "(if ins = [] then Inr [] else bindE (procedure_states p ins params) (\<lambda>states. collect (\<lambda>(x, st). calls_at p (calls d p) x st) (zip ins states))) \<noteq> Inl Panic"
    proof (cases "ins = []")
      case False
      have "bindE (procedure_states p ins params) (\<lambda>states. collect (\<lambda>(x, st). calls_at p (calls d p) x st) (zip ins states)) \<noteq> Inl Panic"
        using go [OF ins [unfolded f'] False] procedure_states_no_panic [OF tiles_well_formed [OF instructions_tile [OF ins]] False]
        by (intro no_panic_bind) auto
      then show ?thesis using False by simp
    qed simp
  qed
qed simp

lemma operation_of_no_panic: "operation_of c \<noteq> Inl Panic"
proof -
  have t: "text_arg a i \<noteq> Inl Panic" for a i by (simp add: text_arg_def split: psValue.split)
  have "extract_op a \<noteq> Inl Panic" "command_op a i \<noteq> Inl Panic" for a i
    unfolding extract_op_def command_op_def by (auto simp: bindE_eq_Inl t split: list.splits psValue.splits)
  then show ?thesis unfolding operation_of_def by (simp split: prod.split list.split psValue.split)
qed

text \<open>C21: whatever the bytes of a compiled script are, planning its operations returns: it finds operations or
  an error, and never panics.\<close>

theorem plan_never_panics: "reconstructionPlan data \<noteq> Inl Panic"
  unfolding reconstructionPlan_def program_plan_def
proof (intro no_panic_bind)
  fix p cs
  show "(case find_proc p of None \<Rightarrow> Inr [] | Some i \<Rightarrow> calls 33 p i [Number 2]) \<noteq> Inl Panic"
    using calls_no_panic [of _ p 33] by (auto simp: find_proc_def find_Some_iff split: option.split)
qed (simp_all add: parseIFPS_no_panic operation_of_no_panic collect_no_panic)

end
