(* ===== verification/Plansound.thy ===== *)
theory Plansound
  imports Plan
begin

text \<open>
  What the plan of a script says about its runs. The reference is a small-step relation of the
  instructions on concrete values. A value the analysis does not know may be any value. An external procedure
  may write any values through the pointers that it is given, and return anything, except where the code
  takes its result as known: the extractors return that they succeeded, and a path keeps its constants
  unexpanded. A call of a procedure of the script may change every variable. Instructions 14 and 22, which
  set references, have no step.
\<close>

section \<open>Runs\<close>

definition may :: "psValue \<Rightarrow> psValue \<Rightarrow> bool" where
  "may a v \<longleftrightarrow> a = NoValue \<or> v = a"

lemma may_refl [simp]: "may v v" "may NoValue v"
  by (simp_all add: may_def)


definition reads :: "psState \<Rightarrow> psOperand \<Rightarrow> psValue \<Rightarrow> bool" where
  "reads s y v \<longleftrightarrow> (if o_tag y = 0 then v = ps_get 64 s (o_address y) else may (operand_value s y) v)"

definition pointers :: "psState \<Rightarrow> u32 option list" where
  "pointers s = map (\<lambda>sl. if sl_indirect sl then Some (sl_ref sl) else None) (st_stack s)"

text \<open>The arguments of an external procedure that are pointers, and what it may do to what they point to.\<close>

definition passed :: "psState \<Rightarrow> bool \<Rightarrow> int \<Rightarrow> nat \<Rightarrow> bool" where
  "passed s result n i \<longleftrightarrow>
     (let e = int (length (st_stack s)) - (if result then 1 else 0) in e - n \<le> int i \<and> int i < e \<and> sl_indirect (st_stack s ! i))"

inductive writes_passed :: "psState \<Rightarrow> bool \<Rightarrow> int \<Rightarrow> psState \<Rightarrow> bool" for s :: psState and result :: bool and n :: int where
  wp_none: "writes_passed s result n s"
| wp_more: "writes_passed s result n s' \<Longrightarrow> passed s result n i \<Longrightarrow> writes_passed s result n (ps_set 64 s' (0x60000000 + word_of_nat i) v)"

inductive executes :: "psProgram \<Rightarrow> psInstruction \<Rightarrow> psState \<Rightarrow> psState \<Rightarrow> bool" for p :: psProgram and x :: psInstruction where
  ex_assign: "i_op x = 0 \<Longrightarrow> i_operands x = [t, y] \<Longrightarrow> reads s y v \<Longrightarrow> executes p x s (operand_set s t v)"
| ex_compute: "i_op x = 1 \<Longrightarrow> i_operands x = [t, y] \<Longrightarrow> reads s t u \<Longrightarrow> reads s y v \<Longrightarrow> may (combine (i_sub x) u v) w \<Longrightarrow> executes p x s (operand_set s t w)"
| ex_push: "i_op x = 2 \<Longrightarrow> i_operands x = [y] \<Longrightarrow> reads s y v \<Longrightarrow> executes p x s (push_slot (slot v) s)"
| ex_push_var: "i_op x = 3 \<Longrightarrow> i_operands x = [y] \<Longrightarrow> o_tag y = 0 \<Longrightarrow> executes p x s (push_slot \<lparr>sl_value = NoValue, sl_ref = o_address y, sl_indirect = True\<rparr> s)"
| ex_push_other: "i_op x = 3 \<Longrightarrow> i_operands x = [y] \<Longrightarrow> o_tag y \<noteq> 0 \<Longrightarrow> executes p x s (push_slot (slot v) s)"
| ex_push_type: "i_op x = 11 \<Longrightarrow> executes p x s (push_slot (slot v) s)"
| ex_pop: "i_op x \<in> {4, 25, 26} \<Longrightarrow> drop_slots (if i_op x = 26 then 2 else 1) s = Inr s' \<Longrightarrow> executes p x s s'"
| ex_external: "i_op x = 5 \<Longrightarrow> f = pg_procs p ! unat (i_arg x) \<Longrightarrow> pr_external f \<Longrightarrow> psSignature f = (name, result, n) \<Longrightarrow>
    may (call_value name (psArguments s result n)) v \<Longrightarrow> writes_passed s result n s' \<Longrightarrow>
    executes p x s (if result \<and> 1 < length (st_stack s) then ps_set 64 s' (0x60000000 + word_of_nat (length (st_stack s) - 1)) v else s')"
| ex_script: "i_op x = 13 \<or> i_op x = 5 \<and> \<not> pr_external (pg_procs p ! unat (i_arg x)) \<Longrightarrow>
    pointers s' = pointers s \<Longrightarrow> st_params s' = st_params s \<Longrightarrow> executes p x s s'"
| ex_compare: "i_op x = 12 \<Longrightarrow> i_operands x = [t, y, z] \<Longrightarrow> reads s y u \<Longrightarrow> reads s z v \<Longrightarrow> may (compare_values (i_sub x) u v) w \<Longrightarrow> executes p x s (operand_set s t w)"
| ex_not: "i_op x = 15 \<Longrightarrow> i_operands x = [t] \<Longrightarrow> reads s t v \<Longrightarrow> executes p x s (operand_set s t (negate v))"
| ex_unknown: "i_op x \<in> {16, 21, 23, 24} \<Longrightarrow> i_operands x = t # ys \<Longrightarrow> executes p x s (operand_set s t v)"
| ex_flag: "i_op x = 17 \<Longrightarrow> i_operands x = [y] \<Longrightarrow> reads s y v \<Longrightarrow> executes p x s (s\<lparr>st_flag := if i_sub x \<noteq> 0 then negate v else v\<rparr>)"
| ex_other: "i_op x \<in> {6, 7, 8, 9, 10, 18, 19, 20, 255} \<Longrightarrow> executes p x s s"

inductive continues :: "psInstruction list \<Rightarrow> nat \<Rightarrow> psState \<Rightarrow> nat \<Rightarrow> bool" for ins :: "psInstruction list" and i :: nat where
  go_next: "i_op (ins ! i) \<notin> {6, 7, 8, 18, 25, 26, 9} \<Longrightarrow> continues ins i s (i + 1)"
| go_to: "i_op (ins ! i) \<in> {6, 25, 26} \<Longrightarrow> byOffset ins (int (i_end (ins ! i)) + sint (i_arg (ins ! i))) = Some j \<Longrightarrow> continues ins i s j"
| go_flag: "i_op (ins ! i) = 18 \<Longrightarrow> byOffset ins (int (i_end (ins ! i)) + sint (i_arg (ins ! i))) = Some t \<Longrightarrow>
    j \<in> set (branch (st_flag s) i t) \<Longrightarrow> continues ins i s j"
| go_value: "i_op (ins ! i) = 7 \<or> i_op (ins ! i) = 8 \<Longrightarrow> byOffset ins (int (i_end (ins ! i)) + sint (i_arg (ins ! i))) = Some t \<Longrightarrow>
    i_operands (ins ! i) = [y] \<Longrightarrow> reads s y v \<Longrightarrow> j \<in> set (branch (if i_op (ins ! i) = 8 then negate v else v) i t) \<Longrightarrow> continues ins i s j"

text \<open>A concrete state refines one of the analysis when it has the values that are known there, and the same pointers.\<close>

definition slot_refines :: "psSlot \<Rightarrow> psSlot \<Rightarrow> bool" where
  "slot_refines c a \<longleftrightarrow> sl_indirect c = sl_indirect a \<and> (if sl_indirect a then sl_ref c = sl_ref a else may (sl_value a) (sl_value c))"

definition refines :: "psState \<Rightarrow> psState \<Rightarrow> bool" where
  "refines c a \<longleftrightarrow> list_all2 slot_refines (st_stack c) (st_stack a) \<and> (\<forall>k. may (global (st_globals a) k) (global (st_globals c) k))
     \<and> list_all2 may (st_params a) (st_params c) \<and> may (st_flag a) (st_flag c)"

inductive ps_run :: "psProgram \<Rightarrow> psInstruction list \<Rightarrow> psValue list \<Rightarrow> nat \<Rightarrow> psState \<Rightarrow> bool"
  for p :: psProgram and ins :: "psInstruction list" and params :: "psValue list" where
  run_start: "refines c (start_state params) \<Longrightarrow> ps_run p ins params 0 c"
| run_step: "ps_run p ins params i c \<Longrightarrow> executes p (ins ! i) c c' \<Longrightarrow> continues ins i c' j \<Longrightarrow> j < length ins \<Longrightarrow> ps_run p ins params j c'"

section \<open>Steps of the analysis follow those of runs\<close>










lemma slot_may [simp]: "slot_refines (slot w) (slot v) \<longleftrightarrow> may v w" "slot_refines (slot w) no_slot"
  by (simp_all add: slot_refines_def slot_def no_slot_def)












section \<open>The plan holds on every run\<close>







definition called :: "psProgram \<Rightarrow> psInstruction \<Rightarrow> psState \<Rightarrow> psCall" where
  "called p x c = (let (name, result, n) = psSignature (pg_procs p ! unat (i_arg x)) in (name, psArguments c result n))"

definition removes :: "bytes \<Rightarrow> bool" where
  "removes name \<longleftrightarrow> name = str ''DELETEFILE'' \<or> name = str ''DELTREE''"





section \<open>Two programs\<close>


text \<open>
  A handler that sets a variable to \<open>a\<close>, pushes a pointer to it or to another variable, writes \<open>b\<close> through
  the pointer, and calls \<open>EXEC\<close> with the variable.
\<close>

definition exec_pointer :: "asm list" where
  "exec_pointer = [asm_op 0 0 [Var 0, TextConst 0 [0x61]], asm_op 17 0 [Var 5], asm_op 18 11 [], asm_op 3 0 [Var 0], asm_op 6 6 [], asm_op 3 0 [Var 1],
     asm_op 0 0 [Var 0x60000001, TextConst 0 [0x62]], asm_op 2 0 [Var 0], asm_op 2 0 [Var 0], asm_op 2 0 [Var 0], asm_op 5 1 [], asm_op 9 0 []]"

definition text_type :: psType where
  "text_type = \<lparr>ty_base = 10, ty_size = 0\<rparr>"

definition with_handler :: "asm list \<Rightarrow> psProgram" where
  "with_handler xs =
     \<lparr>pg_types = [text_type],
      pg_procs = [\<lparr>pr_name = str ''CURSTEPCHANGED'', pr_decl = [], pr_external = False, pr_code = concat (map asm_bytes xs)\<rparr>,
        \<lparr>pr_name = str ''EXEC'', pr_decl = [0, 0, 0, 0], pr_external = True, pr_code = []\<rparr>],
      pg_globals = 2\<rparr>"

definition instr :: "nat \<Rightarrow> nat \<Rightarrow> byte \<Rightarrow> u32 \<Rightarrow> psOperand list \<Rightarrow> psInstruction" where
  "instr at e op arg xs = \<lparr>i_offset = at, i_end = e, i_op = op, i_sub = 0, i_arg = arg, i_operands = xs\<rparr>"

definition var :: "u32 \<Rightarrow> psOperand" where
  "var a = \<lparr>o_tag = 0, o_address = a, o_value = NoValue\<rparr>"

definition lit :: "byte \<Rightarrow> psOperand" where
  "lit c = \<lparr>o_tag = 1, o_address = 0, o_value = Text [c]\<rparr>"


definition exec_pointer_ins :: "psInstruction list" where
  "exec_pointer_ins = [instr 0 16 0 0 [var 0, lit 0x61], instr 16 23 17 0 [var 5], instr 23 28 18 11 [], instr 28 34 3 0 [var 0], instr 34 39 6 6 [],
     instr 39 45 3 0 [var 1], instr 45 61 0 0 [var 0x60000001, lit 0x62], instr 61 67 2 0 [var 0], instr 67 73 2 0 [var 0], instr 73 79 2 0 [var 0],
     instr 79 84 5 1 [], instr 84 85 9 0 []]"

lemma decoded: "list_all (asm_ok (pg_types p)) xs \<Longrightarrow> instructions (pg_types p) (concat (map asm_bytes xs)) = Inr (assembled (pg_types p) 0 xs)"
  unfolding instructions_def using ins_loop_assembled [of "pg_types p" xs "\<lparr>cu_data = concat (map asm_bytes xs), cu_pos = 0, cu_err = None\<rparr>" "[]"]
  by (simp add: before_def)


lemma exec_pointer_decoded: "instructions [text_type] (concat (map asm_bytes exec_pointer)) = Inr exec_pointer_ins"
proof -
  have "list_all (asm_ok [text_type]) exec_pointer" by (simp add: exec_pointer_def asm_ok_def asm_eval text_type_def)
  from decoded [of "with_handler []", unfolded with_handler_def psProgram.simps, OF this] show ?thesis
    by (simp add: exec_pointer_def asm_meaning_def asm_eval exec_pointer_ins_def instr_def var_def lit_def)
qed

lemma instr_simps [simp]: "i_offset (instr at e op arg xs) = at" "i_end (instr at e op arg xs) = e" "i_op (instr at e op arg xs) = op"
  "i_sub (instr at e op arg xs) = 0" "i_arg (instr at e op arg xs) = arg" "i_operands (instr at e op arg xs) = xs"
  by (simp_all add: instr_def)

lemma operand_simps [simp]: "operand_value s (var a) = ps_get 64 s a" "operand_value s (lit c) = Text [c]" "operand_set s (var a) v = ps_set 64 s a v"
  "o_tag (var a) = 0" "o_address (var a) = a"
  by (simp_all add: operand_value_def operand_set_def var_def lit_def)

lemma idx_simps [simp]: "idx (x # xs) 0 = Inr x" "idx (x # y # xs) 1 = Inr y" "idx (x # y # xs) (Suc 0) = Inr y"
  by (simp_all add: idx_def)

lemma get_64: "ps_get 64 s a =
     (if a < 0x40000000 then global (st_globals s) a
      else if a < 0x60000000 then
        (let i = unat (0x60000000 - a) - 1 in if i < length (st_params s) then st_params s ! i else NoValue)
      else
        (let i = unat (a - 0x60000000) in
         if length (st_stack s) \<le> i then NoValue
         else if sl_indirect (st_stack s ! i) then ps_get 63 s (sl_ref (st_stack s ! i))
         else sl_value (st_stack s ! i)))"
  using ps_get.simps(2) [of 63 s a] by (simp only: numeral_eq_Suc pred_numeral_simps Num.BitM.simps)

lemma set_64: "ps_set 64 s a v =
     (if a < 0x40000000 then s\<lparr>st_globals := AList.update a v (st_globals s)\<rparr>
      else if a < 0x60000000 then s
      else
        (let i = unat (a - 0x60000000) in
         if length (st_stack s) \<le> i then s
         else if sl_indirect (st_stack s ! i) then ps_set 63 s (sl_ref (st_stack s ! i)) v
         else s\<lparr>st_stack := (st_stack s)[i := (st_stack s ! i)\<lparr>sl_value := v\<rparr>]\<rparr>))"
  using ps_set.simps(2) [of 63 s a v] by (simp only: numeral_eq_Suc pred_numeral_simps Num.BitM.simps)

lemma set_63: "a < 0x40000000 \<Longrightarrow> ps_set 63 s a v = s\<lparr>st_globals := AList.update a v (st_globals s)\<rparr>"
  using ps_set.simps(2) [of 62 s a v] by (simp only: numeral_eq_Suc pred_numeral_simps Num.BitM.simps if_True)

lemma analyse_eq: "analyse n p ins st (i # q) =
    (if n = 0 then Inl (Error NotConverged)
     else case st ! i of None \<Rightarrow> Inl Panic
      | Some s \<Rightarrow> bindE (transfer p ins i s) (\<lambda>(s, nxt). bindE (flow s nxt st q) (\<lambda>(st, q). analyse (n - 1) p ins st q)))"
proof (cases n)
  case (Suc m)
  show ?thesis by (simp only: Suc analyse.simps diff_Suc_1 nat.distinct(2) if_False)
qed simp

definition state :: "psSlot list \<Rightarrow> (u32 \<times> psValue) list \<Rightarrow> psState" where
  "state sls g = \<lparr>st_stack = sls, st_globals = g, st_params = [Number 2], st_flag = NoValue\<rparr>"

lemma state_simps [simp]: "st_stack (state sls g) = sls" "st_globals (state sls g) = g" "st_params (state sls g) = [Number 2]" "st_flag (state sls g) = NoValue"
  "(state sls g)\<lparr>st_stack := sls'\<rparr> = state sls' g" "(state sls g)\<lparr>st_globals := g'\<rparr> = state sls g'" "(state sls g)\<lparr>st_flag := NoValue\<rparr> = state sls g"
  "start_state [Number 2] = state [no_slot] []"
  by (simp_all add: state_def start_state_def)

lemmas run_eval = transfer_def effect_def successors_def Let_def push_slot_def call_effect_def psSignature_def global_def set_64 set_63 get_64 max_stack_def

abbreviation ga :: "(u32 \<times> psValue) list" where
  "ga \<equiv> [(0, Text [0x61])]"

abbreviation sa :: psSlot where
  "sa \<equiv> slot (Text [0x61])"


lemma slot_simps [simp]: "sl_indirect (slot v) = False" "sl_value (slot v) = v" "(slot v)\<lparr>sl_value := w\<rparr> = slot w" "slot v = slot w \<longleftrightarrow> v = w"
  "slot v = no_slot \<longleftrightarrow> v = NoValue" "sl_indirect no_slot = False" "no_slot\<lparr>sl_value := w\<rparr> = slot w"
  by (simp_all add: slot_def no_slot_def)

definition ptr :: "u32 \<Rightarrow> psSlot" where
  "ptr a = \<lparr>sl_value = NoValue, sl_ref = a, sl_indirect = True\<rparr>"

lemma ptr_simps [simp]: "ptr a \<noteq> no_slot" "ptr a = ptr b \<longleftrightarrow> a = b" "\<lparr>sl_value = NoValue, sl_ref = a, sl_indirect = True\<rparr> = ptr a"
  "sl_indirect (ptr a)" "sl_ref (ptr a) = a"
  by (simp_all add: ptr_def no_slot_def slot_def)

lemma merge_states: "ps_merge (state xs g) (state ys h) =
    (if length xs \<noteq> length ys then Inl (Error JoinedStacks)
     else let zs = map2 merge_slot xs ys; k = map (\<lambda>(k, a). (k, merge_value a (global h k))) g in Inr (state zs k, zs \<noteq> xs \<or> k \<noteq> g))"
  by (auto simp: ps_merge_def state_def merge_value_def Let_def)

abbreviation sb :: psSlot where
  "sb \<equiv> slot (Text [0x62])"

lemma exec_pointer_states: "procedure_states (with_handler exec_pointer) exec_pointer_ins [Number 2]
    = Inr (map Some [state [no_slot] [], state [no_slot] ga, state [no_slot] ga, state [no_slot] ga, state [no_slot, ptr 0] ga, state [no_slot] ga,
        state [no_slot, no_slot] ga, state [no_slot, sb] ga, state [no_slot, sb, sa] ga, state [no_slot, sb, sa, sa] ga,
        state [no_slot, sb, sa, sa, sa] ga, state [no_slot, sb, sa, sa, sa] ga])"
  by (simp add: procedure_states_def exec_pointer_ins_def analyse_eq run_eval with_handler_def byOffset_def branch_def merge_states merge_slot_def merge_value_def)

definition command_of :: "byte \<Rightarrow> operation" where
  "command_of c = no_operation\<lparr>op_kind := str ''command'', op_program := [c], op_args := [c], op_workdir := [c]\<rparr>"

lemma handler_found: "find_proc (with_handler xs) = Some 0"
  by (simp add: find_proc_def with_handler_def equalFold_def str_def upt_rec)

lemma handler_simps: "pg_types (with_handler xs) = [text_type]" "pr_code (pg_procs (with_handler xs) ! 0) = concat (map asm_bytes xs)"
  "pr_external (pg_procs (with_handler xs) ! 1)" "psSignature (pg_procs (with_handler xs) ! 1) = (str ''EXEC'', False, 3)"
  "length (pg_procs (with_handler xs)) = 2"
  by (simp_all add: with_handler_def psSignature_def str_def)

lemma exec_operation: "operation_of (str ''EXEC'', [Text [c], Text [c], Text [c]]) = Inr [command_of c]"
  by (simp add: operation_of_def command_op_def text_arg_def command_of_def str_def)

lemma exec_recorded: "recorded (str ''EXEC'')" "\<not> removes (str ''EXEC'')"
  by (simp_all add: recorded_def removes_def str_def)

lemma calls_33: "calls 33 p k ps = calls (Suc 32) p k ps"
  by simp

lemma handler_plan:
  assumes "instructions [text_type] (concat (map asm_bytes xs)) = Inr ins" "ins \<noteq> []" "procedure_states (with_handler xs) ins [Number 2] = Inr st"
  shows "program_plan (with_handler xs)
    = bindE (collect (\<lambda>(x, st). calls_at (with_handler xs) (calls 32 (with_handler xs)) x st) (zip ins st)) (collect operation_of)"
  unfolding program_plan_def handler_found option.case calls_33 calls.simps
  using assms by (simp add: idx_def handler_simps [simplified])


lemma exec_pointer_plan: "program_plan (with_handler exec_pointer) = Inr [command_of 0x61]"
  unfolding handler_plan [OF exec_pointer_decoded _ exec_pointer_states, unfolded exec_pointer_ins_def, simplified]
  by (simp add: idx_def handler_simps [simplified] calls_at_def exec_recorded psArguments_def upt_rec get_64 exec_operation)

lemma refines_refl: "refines c c"
  by (simp add: refines_def list_all2_same slot_refines_def)

text \<open>One step of a run of a handler.\<close>

lemma run_next:
  assumes "ps_run p ins params i c" "executes p (ins ! i) c c'" "i_op (ins ! i) \<notin> {6, 7, 8, 18, 25, 26, 9}" "i + 1 < length ins" "j = i + 1"
  shows "ps_run p ins params j c'"
  using run_step [OF assms(1,2) go_next [OF assms(3)] assms(4)] assms(5) by simp

lemma executes_push: "i_op x = 2 \<Longrightarrow> i_operands x = [var a] \<Longrightarrow> ps_get 64 s a = v \<Longrightarrow> s' = push_slot (slot v) s \<Longrightarrow> executes p x s s'"
  by (auto simp: reads_def intro: ex_push)

lemma executes_flag:
  "i_op x = 17 \<Longrightarrow> i_operands x = [var a] \<Longrightarrow> i_sub x = 0 \<Longrightarrow> s' = s\<lparr>st_flag := ps_get 64 s a\<rparr> \<Longrightarrow> executes p x s s'"
  using ex_flag [of x "var a" s "ps_get 64 s a" p] by (simp add: reads_def)

lemma executes_push_var: "i_op x = 3 \<Longrightarrow> i_operands x = [var a] \<Longrightarrow> s' = push_slot (ptr a) s \<Longrightarrow> executes p x s s'"
  using ex_push_var [of x "var a" p s] by simp

lemma reads_lit [simp]: "reads s (lit c) (Text [c])"
  by (simp add: reads_def) (simp add: lit_def)

lemma executes_assign: "i_op x = 0 \<Longrightarrow> i_operands x = [var a, lit c] \<Longrightarrow> s' = ps_set 64 s a (Text [c]) \<Longrightarrow> executes p x s s'"
  using ex_assign [of x "var a" "lit c" s "Text [c]" p] by (simp add: reads_lit)


lemma exec_pointer_run: "ps_run (with_handler exec_pointer) exec_pointer_ins [Number 2] 10 (state [no_slot, ptr 0, sb, sb, sb] [(0, Text [0x62])])"
proof -
  let ?run = "ps_run (with_handler exec_pointer) exec_pointer_ins [Number 2]" and ?gb = "[(0, Text [0x62])] :: (u32 \<times> psValue) list"
  have 0: "?run 0 (state [no_slot] [])" using run_start refines_refl by (metis state_simps(8))
  have 1: "?run 1 (state [no_slot] ga)" by (rule run_next [OF 0]) (auto simp: exec_pointer_ins_def run_eval intro!: executes_assign)
  have 2: "?run 2 (state [no_slot] ga)"
    by (rule run_next [OF 1]) (auto simp: exec_pointer_ins_def run_eval intro!: executes_flag)
  have 3: "?run 3 (state [no_slot] ga)"
    by (rule run_step [OF 2 ex_other go_flag [where t = 5]]) (auto simp: exec_pointer_ins_def byOffset_def branch_def)
  have 4: "?run 4 (state [no_slot, ptr 0] ga)"
    by (rule run_next [OF 3]) (auto simp: exec_pointer_ins_def run_eval intro!: executes_push_var)
  have 6: "?run 6 (state [no_slot, ptr 0] ga)"
    by (rule run_step [OF 4 ex_other go_to]) (auto simp: exec_pointer_ins_def byOffset_def)
  have 7: "?run 7 (state [no_slot, ptr 0] ?gb)" by (rule run_next [OF 6]) (auto simp: exec_pointer_ins_def run_eval intro!: executes_assign)
  have 8: "?run 8 (state [no_slot, ptr 0, sb] ?gb)" by (rule run_next [OF 7]) (auto simp: exec_pointer_ins_def run_eval intro!: executes_push)
  have 9: "?run 9 (state [no_slot, ptr 0, sb, sb] ?gb)" by (rule run_next [OF 8]) (auto simp: exec_pointer_ins_def run_eval intro!: executes_push)
  show ?thesis by (rule run_next [OF 9]) (auto simp: exec_pointer_ins_def run_eval intro!: executes_push)
qed

text \<open>C38: two paths that push pointers to different variables meet in a slot that is not known to be a pointer, so a
  write through it leaves the variable as it was: the plan of the program below runs \<open>a\<close> where the
  program itself runs \<open>b\<close>.\<close>

theorem plan_stale:
  "program_plan (with_handler exec_pointer) = Inr [command_of 0x61] \<and> instructions [text_type] (concat (map asm_bytes exec_pointer)) = Inr exec_pointer_ins
    \<and> (\<exists>c name args. ps_run (with_handler exec_pointer) exec_pointer_ins [Number 2] 10 c \<and> called (with_handler exec_pointer) (exec_pointer_ins ! 10) c = (name, args)
      \<and> operation_of (name, args) = Inr [command_of 0x62])"
proof -
  have "called (with_handler exec_pointer) (exec_pointer_ins ! 10) (state [no_slot, ptr 0, sb, sb, sb] [(0, Text [0x62])])
      = (str ''EXEC'', [Text [0x62], Text [0x62], Text [0x62]])"
    by (simp add: exec_pointer_ins_def called_def handler_simps [simplified] psArguments_def upt_rec get_64)
  then show ?thesis using exec_pointer_plan exec_pointer_decoded exec_pointer_run exec_operation by blast
qed

text \<open>
  A pointer to a variable whose value is known: the analysis keeps the value that the call may have changed.
\<close>

lemma reference_stale:
  "effect (with_handler xs) (instr at e 5 1 []) (state [no_slot, sa, sa, ptr 0] ga) = Inr (state [no_slot, sa, sa, ptr 0] ga)
    \<and> executes (with_handler xs) (instr at e 5 1 []) (state [no_slot, sa, sa, ptr 0] ga) (state [no_slot, sa, sa, ptr 0] [(0, Text [0x62])])"
proof
  let ?s = "state [no_slot, sa, sa, ptr 0] ga" and ?x = "instr at e 5 1 []"
  show "effect (with_handler xs) ?x ?s = Inr ?s"
    by (simp add: effect_def Let_def handler_simps [simplified] call_effect_def)
  have "passed ?s False 3 3" by (simp add: passed_def)
  from wp_more [OF wp_none this, of "Text [0x62]"]
  have w: "writes_passed ?s False 3 (state [no_slot, sa, sa, ptr 0] [(0, Text [0x62])])" by (simp add: set_64 set_63)
  have f: "pr_external (pg_procs (with_handler xs) ! unat (i_arg ?x))" "psSignature (pg_procs (with_handler xs) ! unat (i_arg ?x)) = (str ''EXEC'', False, 3)"
    by (simp_all add: handler_simps [simplified])
  show "executes (with_handler xs) ?x ?s (state [no_slot, sa, sa, ptr 0] [(0, Text [0x62])])"
    using ex_external [OF _ refl f may_refl(1) w] by simp
qed


end
