(* ===== verification/Spec2Isabelle.thy ===== *)
theory Spec2Isabelle
  imports Varint Chunkbuf Delta Dispack Sparse Rtpatch I3d Farm Vcdiff Hdiff HdiffDir Fourx4 Method Arc Extract Recipe Tools Srepstream Tornado Lz4 Plansound
begin

text \<open>
  A verification library for the extractor and the patch engines of garotafitness, a Go program
  that unpacks FreeArc repacks and replays the recipes of their installers.

  \<^bold>\<open>How the program fits together.\<close> A volume is a FreeArc archive (\<open>arc.go\<close>): a descriptor at its end
  leads to a footer, the footer to directories, and these to the members of solid blocks. Each solid
  block is compressed by a pipeline of methods (\<open>method.go\<close>, \<open>algo.go\<close>), which \<open>decode.go\<close> opens one
  after the other; each method is a reader of its own under \<open>stream/\<close>. Where the installer asks for it
  (\<open>setupdata/\<close>), recipes then rewrite the extracted files: \<open>reconstruct_commands.go\<close> parses their text,
  \<open>reconstruct_schedule.go\<close> orders their commands by the files they use, and the commands run patch
  engines under \<open>reconstruct/\<close>.

  \<^bold>\<open>Conventions.\<close> A byte slice is a list of bytes, an \<open>io.Reader\<close> the list of bytes it has left, and
  integers keep their width (\<open>Prelude\<close>), but for numbers too small to wrap around: the chunk numbers of
  SREP and the acceleration of LZ4, which its caller passes in seven bits, are naturals. An operation returns a value of a sum type: the errors of the
  code are \<open>Error e\<close>, its run-time panics \<open>Panic\<close>; where a loop may not end the result is an option
  and \<open>None\<close> means that it does not return. Reading errors are those of a device that only ends.
  Cancelling the context is modelled for the 4x4 decoder only.

  \<^bold>\<open>Theories.\<close>
  \<^item> \<open>Prelude\<close>: bytes, words, faults and the error monad, little-endian integers. \<open>Gostrings\<close>: the string
    and path functions of Go's library. \<open>Crc32\<close>: the two checksums of \<open>arccrc.go\<close>; one wrong byte is
    always noticed. \<open>Varint\<close> (\<open>varint.go\<close>): packed integers and strings, with a locale for the field
    readers. \<open>Base128\<close>: the integers VCDIFF and HDiffPatch share.
  \<^item> \<open>Chunkbuf\<close> (\<open>internal/chunkbuf\<close>): the loop that turns blocks into reads. The locale \<open>block_source\<close> is
    its interface: a source that consumes something with each block is read in full, in any read
    sizes; every reader of the library interprets it.
  \<^item> \<open>Method\<close>, \<open>Arc\<close>: method strings, descriptors, footers, directories, whole volumes. A volume written
    as FreeArc writes it is read as the members it describes; damage is refused.
  \<^item> \<open>Extract\<close> (\<open>extract.go\<close>, \<open>decode.go\<close>, \<open>internal/pages\<close>, \<open>stream/storing\<close>): solid blocks, pipelines, the
    pages a member is read into and the tasks that write and check it. An extraction succeeds exactly
    when its directories and files can be made and the blocks decompress to contents with the sizes and
    sums of the directories, and leaves those contents, whatever the order of the tasks, unless two members
    have one path.
  \<^item> \<open>Delta\<close>, \<open>Dispack\<close>, \<open>Fourx4\<close> (\<open>stream/delta\<close>, \<open>dispack\<close>, \<open>fourx4\<close>): two filters with the writers they
    undo, and the concurrent multiplexer as a step relation of its goroutines, which implements the
    sequential decoder under every schedule, does not deadlock and ends.
  \<^item> \<open>Runs\<close>: results of calls that may not return. \<open>Srepmem\<close>, \<open>Srepheap\<close>, \<open>Srep\<close>, \<open>Srepstream\<close> (\<open>stream/srep\<close>): the chunk allocator as a map from handles to
    data, the treap of pending matches as a sorted list, the kernel and the reader with the stored
    blocks it spills to, and the proof that streams are read back. The locale \<open>chain_store\<close> is what the
    kernel relies on of its memory.
  \<^item> \<open>Torarith\<close>, \<open>Torlz\<close>, \<open>Torwindow\<close>, \<open>Tornado\<close> (\<open>stream/tor\<close>): the range decoder and its adaptive model against
    an encoder on natural numbers; the LZ77 decoders, with the locale \<open>symbols\<close> for what an entropy coder
    promises them; the circular window with its data tables; and the decoder as a whole. Streams of the
    arithmetic and of the byte coder are read back up to the limit the reader sets, and one that is cut off is never decoded to an end.
    The bit and the Huffman coder are modelled without a statement of their own, and the theorems about
    streams have no data tables, whose undiff and diff are proved to be inverse on their own.
  \<^item> \<open>Lz4\<close> (\<open>stream/xt3u/lz4.go\<close>): the fast LZ4 encoder of XTool streams, which returns within its bound for
    every input it accepts, against a decoder of LZ4 blocks.
  \<^item> \<open>Sparse\<close>, \<open>Rtpatch\<close>, \<open>I3d\<close>, \<open>Farm\<close>, \<open>Vcdiff\<close>, \<open>Hdiff\<close>, \<open>HdiffDir\<close> (\<open>reconstruct/x2\<close>, \<open>x3\<close>, \<open>i3d\<close>, \<open>x4\<close>, \<open>xdelta\<close>,
    \<open>x5\<close>, \<open>x5n\<close>): the patch engines, each with the meaning of its patches and what it refuses.
  \<^item> \<open>Schedule\<close>, \<open>Recipe\<close>, \<open>Tools\<close> (\<open>reconstruct_schedule.go\<close>, \<open>reconstruct_commands.go\<close>,
    \<open>reconstruct_plan.go\<close>, \<open>reconstruct_tool.go\<close>): the words, commands and paths of recipes, the files
    a command declares, the tasks and what they wait for, and the choice of an encoder by digest.
    Every order the task group may choose gives the files of the sequential recipe, as far as the
    stamps order what clashes; one kind of clash they do not order. A recipe that a recipe calls is read
    from one map of files, although tasks that were scheduled before may have started to write.
  \<^item> \<open>Operations\<close>, \<open>Ifps\<close>, \<open>Plan\<close>, \<open>Plansound\<close> (\<open>setupdata/ifps.go\<close>, \<open>setupdata/plan.go\<close>): the compiled script
    of the installer, read as data; the constant propagation that finds the operations it asks for, and
    a small-step relation of the instructions. Assembled instructions are read back, no bytes make the
    reader or the analysis panic, and what is reported holds on every run, as long as the handler calls
    no procedure of the script, its paths do not meet with different pointers, and it passes to external
    procedures no pointer to a variable whose value is known. Two examples show that the last two conditions
    are needed.

  \<^bold>\<open>Bounds.\<close> The depth of recipes is counted down from 33, where the code refuses a depth above 32, so
  that the recursion is structural; the analysis of scripts does the same with the depth of calls and with its 64
  steps for each instruction. Loops with a decreasing measure are functions with that
  measure; the loops of the SREP kernel that may spill for ever, and the release of a chain, are
  partial functions into options, and the theorems about them state that they return. The SREP
  theorem asks that the data waiting for later blocks fits the 512 MiB of the code, so that nothing
  is spilled; 64-bit positions stay below \<open>2 ^ 63\<close>, and lengths that a Go slice cannot have are left
  out where a statement needs it.

  \<^bold>\<open>Parameters.\<close> Code that is not in the repository is a parameter: the LZMA decoder, the path library
  (\<open>lew_new\<close>, \<open>lew_name\<close>, \<open>lew_parent\<close>), the task group (any order that respects the dependencies), the
  encoders of tools, MD5, and what a pooled buffer held before. What a decompressor yields is a parameter
  of an extraction, since not all of them are modelled.

  \<^bold>\<open>Not modelled.\<close> The decoders of rzs, rzw, magic2, mpzz, mpz, pref, xt2png and the XTool
  frames; the rest of xt3u; the encoders that rebuild LZMA, 7z and FSB files, which are translations of third-party
  code; the scan of the installer in \<open>setupdata/\<close>; the drivers that walk a file system, start tasks and
  report progress (the rest of \<open>extract.go\<close>, \<open>checksum.go\<close>, \<open>reconstruct.go\<close>, most of \<open>reconstruct_commands.go\<close>), and the
  command line. The library models the formats and the rules these drivers rely on, not the files
  they move.
\<close>

end
